(* ===== verification/DW_Prelude.thy ===== *)
theory DW_Prelude
  imports Main "HOL-Library.Word" "HOL-Library.Signed_Division"
begin

text \<open>
  Shared vocabulary of the development: the widths of the C integer types, the ways in which
  a C function can fail to return normally (\<open>fault\<close>), results that may be such a fault, C's
  truncating remainder, and the generic list and little-endian byte lemmas that the component
  theories use.
\<close>

section \<open>Machine types and faults\<close>

type_synonym u8 = "8 word"
type_synonym u16 = "16 word"
type_synonym u32 = "32 word"
type_synonym u64 = "64 word"
type_synonym bytes = "u8 list"

text \<open>
  A fault is an abnormal end of a C function. \<open>Exit_Failure\<close> is a failed \<^verbatim>\<open>check()\<close> or an
  explicit \<^verbatim>\<open>exit(EXIT_FAILURE)\<close>, \<open>Assert_Failed\<close> a failed \<^verbatim>\<open>assert()\<close>; the other
  constructors are undefined behaviour of C: an access outside of an allocated object, the
  dereference of a null pointer, a division by zero, a shift of an \<^verbatim>\<open>int\<close> by 31 bits or more, the overflow of a signed
  integer, the conversion of a
  floating-point value to an integer type that cannot represent it.
\<close>

datatype fault = Exit_Failure | Assert_Failed | Out_Of_Bounds | Null_Deref | Div_By_Zero | Bad_Shift | Bad_Cast | Int_Overflow

type_synonym 'a res = "fault + 'a"

definition rbind :: "'a res \<Rightarrow> ('a \<Rightarrow> 'b res) \<Rightarrow> 'b res" where
  "rbind r f = (case r of Inl e \<Rightarrow> Inl e | Inr x \<Rightarrow> f x)"

lemma rbind_Inr [simp]: "rbind (Inr x) f = f x"
  by (simp add: rbind_def)

lemma rbind_Inl [simp]: "rbind (Inl e) f = Inl e"
  by (simp add: rbind_def)

lemma rbind_eq_Inr: "rbind r f = Inr y \<longleftrightarrow> (\<exists>x. r = Inr x \<and> f x = Inr y)"
  by (cases r) auto

lemma rbind_eq_Inl: "rbind r f = Inl e \<longleftrightarrow> r = Inl e \<or> (\<exists>x. r = Inr x \<and> f x = Inl e)"
  by (cases r) auto

lemma rbind_cong [fundef_cong]:
  "r = r' \<Longrightarrow> (\<And>x. r' = Inr x \<Longrightarrow> f x = g x) \<Longrightarrow> rbind r f = rbind r' g"
  by (cases r') auto

text \<open>Folding a fallible step over a list, and iterating one.\<close>

fun rfold :: "('s \<Rightarrow> 'a \<Rightarrow> 's res) \<Rightarrow> 's \<Rightarrow> 'a list \<Rightarrow> 's res" where
  "rfold f s [] = Inr s"
| "rfold f s (x # xs) = rbind (f s x) (\<lambda>s'. rfold f s' xs)"

fun riter :: "nat \<Rightarrow> ('s \<Rightarrow> 's res) \<Rightarrow> 's \<Rightarrow> 's res" where
  "riter 0 f s = Inr s"
| "riter (Suc n) f s = rbind (f s) (riter n f)"

lemma rfold_snoc: "rfold f s (xs @ [x]) = rbind (rfold f s xs) (\<lambda>s'. f s' x)"
  by (induction xs arbitrary: s) (auto simp: rbind_def split: sum.splits)

lemma rfold_same: "(\<And>x. x \<in> set xs \<Longrightarrow> f s x = Inr s) \<Longrightarrow> rfold f s xs = Inr s"
  by (induction xs) auto

text \<open>The same for results that may also be missing: a loop that does not end.\<close>

definition obind :: "'a res option \<Rightarrow> ('a \<Rightarrow> 'b res option) \<Rightarrow> 'b res option" where
  "obind r f = (case r of None \<Rightarrow> None | Some (Inl e) \<Rightarrow> Some (Inl e) | Some (Inr x) \<Rightarrow> f x)"

lemma obind_eq_Inr: "obind r f = Some (Inr y) \<longleftrightarrow> (\<exists>x. r = Some (Inr x) \<and> f x = Some (Inr y))"
  by (auto simp: obind_def split: option.splits sum.splits)

text \<open>An address and a port as a socket address holds them.\<close>

record sockaddr_in =
  sin_addr :: nat
  sin_port :: nat

named_theorems dw_inv \<open>facts that operations keep the invariant of their component\<close>

section \<open>C's truncating remainder\<close>

text \<open>C's \<^verbatim>\<open>%\<close> on \<^verbatim>\<open>int\<close> is \<open>smod\<close>; for a non-negative dividend it is \<open>mod\<close>.\<close>

lemma smod_nonneg_int:
  fixes a b :: int
  assumes "0 \<le> a" "0 < b"
  shows "a smod b = a mod b"
  using assms by (simp add: smod_int_alt_def sgn_if split: if_splits)

lemma smod_minus_one:
  fixes b :: int
  assumes "1 < b"
  shows "(-1) smod b = -1"
  using assms by (simp add: smod_int_alt_def)

text \<open>The conversion of a value to \<^verbatim>\<open>int\<close>.\<close>

definition i32 :: "int \<Rightarrow> int" where
  "i32 x = signed_take_bit 31 x"

lemma i32_id: "- (2 ^ 31) \<le> x \<Longrightarrow> x < 2 ^ 31 \<Longrightarrow> i32 x = x"
  by (simp add: i32_def signed_take_bit_int_eq_self)

text \<open>The result of an addition or subtraction of values of type \<^verbatim>\<open>int\<close>: outside of the range of the type it is undefined.\<close>

definition in_int :: "int \<Rightarrow> bool" where
  "in_int x \<longleftrightarrow> - (2 ^ 31) \<le> x \<and> x < 2 ^ 31"

definition c_int :: "int \<Rightarrow> int res" where
  "c_int x = (if in_int x then Inr x else Inl Int_Overflow)"

lemma c_int_ok [simp]: "in_int x \<Longrightarrow> c_int x = Inr x"
  by (simp add: c_int_def)

lemma c_int_eq_Inr: "c_int x = Inr y \<longleftrightarrow> in_int x \<and> y = x"
  by (auto simp: c_int_def)

lemma c_int_eq_Inl: "c_int x = Inl e \<longleftrightarrow> \<not> in_int x \<and> e = Int_Overflow"
  by (auto simp: c_int_def)

section \<open>Lists\<close>

lemma nth_list_update_if:
  "i < length xs \<Longrightarrow> xs[i := v] ! j = (if i = j then v else xs ! j)"
  by (cases "j < length xs") (auto simp: nth_list_update list_update_beyond)

lemma map_upt_Suc_snoc: "map f [0..<Suc n] = map f [0..<n] @ [f n]"
  by simp

lemma map_upt_Suc_cons: "map f [0..<Suc n] = f 0 # map (\<lambda>i. f (Suc i)) [0..<n]"
  by (induction n) auto

section \<open>Little-endian bytes\<close>

text \<open>The host byte order of the supported platform (x86-64) is little-endian.\<close>

fun le_nat :: "bytes \<Rightarrow> nat" where
  "le_nat [] = 0"
| "le_nat (b # bs) = unat b + 256 * le_nat bs"

fun le_bytes :: "nat \<Rightarrow> nat \<Rightarrow> bytes" where
  "le_bytes 0 n = []"
| "le_bytes (Suc k) n = word_of_nat (n mod 256) # le_bytes k (n div 256)"

lemma length_le_bytes [simp]: "length (le_bytes k n) = k"
  by (induction k arbitrary: n) auto

lemma unat_u8_mod: "unat (word_of_nat (n mod 256) :: u8) = n mod 256"
  by (simp add: unat_of_nat)

lemma le_nat_le_bytes: "le_nat (le_bytes k n) = n mod 256 ^ k"
proof (induction k arbitrary: n)
  case 0
  then show ?case by simp
next
  case (Suc k)
  then show ?case by (simp add: unat_u8_mod mod_mult2_eq)
qed

lemma le_nat_bound: "le_nat bs < 256 ^ length bs"
proof (induction bs)
  case Nil
  then show ?case by simp
next
  case (Cons b bs)
  have "unat b < 256" using unsigned_less [of b] by simp
  with Cons show ?case by simp
qed

lemma le_bytes_le_nat: "le_bytes (length bs) (le_nat bs) = bs"
proof (induction bs)
  case Nil
  then show ?case by simp
next
  case (Cons b bs)
  have b: "unat b < 256" using unsigned_less [of b] by simp
  have "(unat b + 256 * le_nat bs) mod 256 = unat b" using b by simp
  moreover have "(unat b + 256 * le_nat bs) div 256 = le_nat bs" using b by simp
  ultimately show ?case using Cons by simp
qed

end
