(* ===== verification/DW_Queueing_Common.thy ===== *)
theory DW_Queueing_Common
  imports DW_Prelude
begin

text \<open>
  The node type of \<^verbatim>\<open>src/queueing_common.h\<close>, shared by the ring buffer and the priority queue.
  The payload \<^verbatim>\<open>data_t\<close> is a union of a descriptor, a 64-bit value and a pointer; the queues
  only store and return it, so it is a type parameter.
\<close>

record 'd node_t =
  heap_id :: nat
  key :: int
  data :: 'd

end
