(* ===== verification/DW_Queue.thy ===== *)
theory DW_Queue
  imports DW_Queueing_Common
begin

text \<open>
  The ring buffer of \<^verbatim>\<open>src/queue.h\<close> and \<^verbatim>\<open>src/queue.c\<close>. A pointer to a node is the index of the
  node in the array (an integer, since the code can compute the index -1), a null pointer is
  \<open>None\<close>. \<^verbatim>\<open>malloc\<close> leaves the nodes uninitialised: \<^verbatim>\<open>queue_alloc\<close> takes their unspecified
  contents as an argument.

  Two contracts are stated as locales and discharged for the model: the buffer as a bounded
  FIFO (enqueue, dequeue at the head) and, with the head at 0 as \<^verbatim>\<open>ccmd.c\<close> and \<^verbatim>\<open>dw_client.c\<close>
  use it, as a bounded stack (enqueue, dequeue at the tail) that can be iterated.
\<close>

section \<open>Definitions\<close>

record 'd queue_t =
  nodes :: "'d node_t list"
  head :: int
  tail :: int
  qsize :: int
  capacity :: int

definition queue_alloc :: "(nat \<Rightarrow> 'd node_t) \<Rightarrow> nat \<Rightarrow> 'd queue_t" where
  "queue_alloc garbage cap =
     \<lparr>nodes = map garbage [0..<cap], head = 0, tail = -1, qsize = 0, capacity = int cap\<rparr>"

definition queue_itr_begin :: "'d queue_t \<Rightarrow> int" where
  "queue_itr_begin q = head q"

definition queue_itr_has_next :: "'d queue_t \<Rightarrow> int \<Rightarrow> bool" where
  "queue_itr_has_next q itr \<longleftrightarrow> qsize q \<noteq> 0 \<and> 0 \<le> itr \<and> itr \<le> tail q"

definition queue_head :: "'d queue_t \<Rightarrow> int option" where
  "queue_head q = (if qsize q = 0 then None else Some (head q))"

definition queue_tail :: "'d queue_t \<Rightarrow> int option" where
  "queue_tail q = (if qsize q = 0 then None else Some (tail q))"

definition queue_node :: "'d queue_t \<Rightarrow> int \<Rightarrow> int option" where
  "queue_node q i = (if queue_itr_has_next q i then Some i else None)"

text \<open>Reading the node behind a pointer, as \<^verbatim>\<open>queue_node_data\<close> and \<^verbatim>\<open>queue_node_key\<close> do.\<close>

definition node_deref :: "'d queue_t \<Rightarrow> int option \<Rightarrow> 'd node_t res" where
  "node_deref q p = (case p of None \<Rightarrow> Inl Null_Deref
     | Some i \<Rightarrow> if 0 \<le> i \<and> i < int (length (nodes q)) then Inr (nodes q ! nat i)
                 else Inl Out_Of_Bounds)"

definition queue_node_data :: "'d queue_t \<Rightarrow> int option \<Rightarrow> 'd res" where
  "queue_node_data q p = rbind (node_deref q p) (\<lambda>n. Inr (data n))"

definition queue_node_key :: "'d queue_t \<Rightarrow> int option \<Rightarrow> int res" where
  "queue_node_key q p = rbind (node_deref q p) (\<lambda>n. Inr (key n))"

definition queue_enqueue :: "'d queue_t \<Rightarrow> int \<Rightarrow> 'd \<Rightarrow> (int option \<times> 'd queue_t) res" where
  "queue_enqueue q k d =
     (if qsize q = capacity q then Inr (None, q)
      else if capacity q = 0 then Inl Div_By_Zero
      else let t = (tail q + 1) smod capacity q in
        if 0 \<le> t \<and> t < int (length (nodes q)) then
          Inr (Some t,
            q\<lparr>tail := t, nodes := (nodes q)[nat t := (nodes q ! nat t)\<lparr>data := d, key := k\<rparr>],
              qsize := qsize q + 1\<rparr>)
        else Inl Out_Of_Bounds)"

definition queue_dequeue_head :: "'d queue_t \<Rightarrow> 'd queue_t res" where
  "queue_dequeue_head q =
     (if qsize q = 0 then Inr q
      else if capacity q = 0 then Inl Div_By_Zero
      else Inr (q\<lparr>qsize := qsize q - 1, head := (head q + 1) smod capacity q\<rparr>))"

definition queue_dequeue_tail :: "'d queue_t \<Rightarrow> 'd queue_t res" where
  "queue_dequeue_tail q =
     (if qsize q = 0 then Inr q
      else if capacity q = 0 then Inl Div_By_Zero
      else Inr (q\<lparr>qsize := qsize q - 1, tail := (tail q - 1) smod capacity q\<rparr>))"

definition queue_drop :: "'d queue_t \<Rightarrow> 'd queue_t" where
  "queue_drop q = q\<lparr>head := 0, tail := -1, qsize := 0\<rparr>"

definition queue_itr_next :: "'d queue_t \<Rightarrow> int \<Rightarrow> (int option \<times> int) res" where
  "queue_itr_next q itr =
     (if \<not> queue_itr_has_next q itr then Inr (None, itr)
      else if capacity q = 0 then Inl Div_By_Zero
      else let itr' = (itr + 1) smod capacity q;
               itr'' = (if queue_node q itr' = queue_head q then -1 else itr')
           in Inr (queue_node q itr, itr''))"

text \<open>
  The loop of \<^verbatim>\<open>queue_log\<close>: it prints the key of each node it visits; \<open>out\<close> is the output
  so far. \<open>None\<close> would mean that the loop does not end.
\<close>

partial_function (option) queue_log_loop ::
    "'d queue_t \<Rightarrow> int \<Rightarrow> int list \<Rightarrow> int list res option" where
  "queue_log_loop q itr out =
     (if queue_itr_has_next q itr then
        (case queue_itr_next q itr of
          Inl e \<Rightarrow> Some (Inl e)
        | Inr (p, itr') \<Rightarrow>
            (case queue_node_key q p of
              Inl e \<Rightarrow> Some (Inl e)
            | Inr k \<Rightarrow> queue_log_loop q itr' (out @ [k])))
      else Some (Inr out))"

definition queue_log :: "'d queue_t \<Rightarrow> int list res option" where
  "queue_log q = queue_log_loop q (queue_itr_begin q) []"

section \<open>The contents of the ring and its invariant\<close>

text \<open>
  The position of the \<open>i\<close>-th element, and the keys and payloads in queue order. The invariant
  lets the tail be -1 only while nothing has been enqueued since \<^verbatim>\<open>queue_alloc\<close> or
  \<^verbatim>\<open>queue_drop\<close>.
\<close>

definition ring_pos :: "'d queue_t \<Rightarrow> nat \<Rightarrow> nat" where
  "ring_pos q i = nat ((head q + int i) mod capacity q)"

definition contents :: "'d queue_t \<Rightarrow> (int \<times> 'd) list" where
  "contents q = map (\<lambda>i. (key (nodes q ! ring_pos q i), data (nodes q ! ring_pos q i)))
     [0..<nat (qsize q)]"

definition queue_inv :: "'d queue_t \<Rightarrow> bool" where
  "queue_inv q \<longleftrightarrow>
     0 < capacity q \<and> int (length (nodes q)) = capacity q \<and>
     0 \<le> qsize q \<and> qsize q \<le> capacity q \<and> 0 \<le> head q \<and> head q < capacity q \<and>
     (qsize q = 0 \<and> head q = 0 \<and> tail q = -1 \<or>
      0 \<le> tail q \<and> tail q < capacity q \<and>
      (tail q + 1) mod capacity q = (head q + qsize q) mod capacity q)"

text \<open>The states reached without \<^verbatim>\<open>queue_dequeue_head\<close>: the elements are at \<open>0, \<dots>, size - 1\<close>.
  With one slot only, \<^verbatim>\<open>(0 - 1) % 1\<close> is 0 and the tail of an emptied queue is not -1; the
  queues of the program have 100 slots.\<close>

definition stack_inv :: "'d queue_t \<Rightarrow> bool" where
  "stack_inv q \<longleftrightarrow>
     1 < capacity q \<and> int (length (nodes q)) = capacity q \<and>
     0 \<le> qsize q \<and> qsize q \<le> capacity q \<and> head q = 0 \<and> tail q = qsize q - 1"

lemma stack_inv_imp_queue_inv: "stack_inv q \<Longrightarrow> queue_inv q"
  by (auto simp: stack_inv_def queue_inv_def)

lemma length_contents [simp]: "length (contents q) = nat (qsize q)"
  by (simp add: contents_def)

lemma contents_nth:
  "i < nat (qsize q) \<Longrightarrow>
   contents q ! i = (key (nodes q ! ring_pos q i), data (nodes q ! ring_pos q i))"
  by (simp add: contents_def)

lemma ring_pos_less: "queue_inv q \<Longrightarrow> ring_pos q i < length (nodes q)"
  by (auto simp: ring_pos_def queue_inv_def nat_less_iff)

lemma ring_pos_inj:
  assumes "queue_inv q" "i < nat (capacity q)" "j < nat (capacity q)" "ring_pos q i = ring_pos q j"
  shows "i = j"
proof -
  from assms(1) have c: "0 < capacity q" by (simp add: queue_inv_def)
  with assms(4) have "(head q + int i) mod capacity q = (head q + int j) mod capacity q"
    by (simp add: ring_pos_def eq_nat_nat_iff)
  then have "int i mod capacity q = int j mod capacity q"
    by (metis add_diff_cancel_left' mod_diff_left_eq)
  with assms(2,3) c show ?thesis by (simp add: nat_less_iff)
qed

lemma enq_pos:
  assumes "queue_inv q"
  shows "(tail q + 1) smod capacity q = int (ring_pos q (nat (qsize q)))"
proof -
  have "(tail q + 1) smod capacity q = (tail q + 1) mod capacity q"
    using assms by (intro smod_nonneg_int) (auto simp: queue_inv_def)
  also have "\<dots> = (head q + qsize q) mod capacity q"
    using assms by (auto simp: queue_inv_def)
  finally show ?thesis using assms by (simp add: ring_pos_def queue_inv_def)
qed

section \<open>Enqueue and dequeue at the head: a bounded FIFO\<close>

lemma queue_inv_alloc: "0 < cap \<Longrightarrow> queue_inv (queue_alloc g cap)"
  by (simp add: queue_inv_def queue_alloc_def)

lemma contents_alloc [simp]: "contents (queue_alloc g cap) = []"
  by (simp add: contents_def queue_alloc_def)

lemma enqueue_full: "queue_inv q \<Longrightarrow> qsize q = capacity q \<Longrightarrow> queue_enqueue q k d = Inr (None, q)"
  by (simp add: queue_enqueue_def)

lemma enqueue_space:
  assumes "queue_inv q" "qsize q \<noteq> capacity q"
  shows "queue_enqueue q k d = Inr (Some (int (ring_pos q (nat (qsize q)))),
     q\<lparr>tail := int (ring_pos q (nat (qsize q))),
       nodes := (nodes q)[ring_pos q (nat (qsize q)) :=
         (nodes q ! ring_pos q (nat (qsize q)))\<lparr>data := d, key := k\<rparr>],
       qsize := qsize q + 1\<rparr>)"
  using assms ring_pos_less [of q "nat (qsize q)"]
  by (auto simp: queue_enqueue_def Let_def enq_pos queue_inv_def)

lemma ring_pos_upd [simp]:
  "ring_pos (q\<lparr>tail := t, nodes := ns, qsize := s\<rparr>) i = ring_pos q i"
  by (simp add: ring_pos_def)

lemma enqueue_contents:
  assumes "queue_inv q" "queue_enqueue q k d = Inr (p, q')"
  shows "contents q' = (if qsize q < capacity q then contents q @ [(k, d)] else contents q)"
proof (cases "qsize q = capacity q")
  case True
  with assms show ?thesis by (simp add: enqueue_full)
next
  case False
  let ?n = "nat (qsize q)"
  have lt: "qsize q < capacity q" and nn: "0 \<le> qsize q" using assms(1) False by (auto simp: queue_inv_def)
  have q': "q' = q\<lparr>tail := int (ring_pos q ?n),
       nodes := (nodes q)[ring_pos q ?n := (nodes q ! ring_pos q ?n)\<lparr>data := d, key := k\<rparr>],
       qsize := qsize q + 1\<rparr>"
    using assms False by (simp add: enqueue_space)
  have ne: "ring_pos q ?n \<noteq> ring_pos q i" if "i < ?n" for i
    using ring_pos_inj [OF assms(1), of ?n i] that lt nn by linarith
  have "nat (qsize q') = Suc ?n" using q' nn by simp
  then have "contents q' = map (\<lambda>i. (key (nodes q' ! ring_pos q' i), data (nodes q' ! ring_pos q' i))) [0..<?n]
      @ [(key (nodes q' ! ring_pos q' ?n), data (nodes q' ! ring_pos q' ?n))]"
    by (simp add: contents_def)
  also have "\<dots> = contents q @ [(k, d)]"
    using ring_pos_less [OF assms(1), of ?n] ne by (auto simp: q' contents_def nth_list_update_if)
  finally show ?thesis using lt by simp
qed

lemma enqueue_inv:
  assumes "queue_inv q" "queue_enqueue q k d = Inr (p, q')"
  shows "queue_inv q' \<and> capacity q' = capacity q"
proof (cases "qsize q = capacity q")
  case True
  with assms show ?thesis by (simp add: enqueue_full)
next
  case False
  have "ring_pos q (nat (qsize q)) < length (nodes q)" using assms(1) by (rule ring_pos_less)
  moreover have "(int (ring_pos q (nat (qsize q))) + 1) mod capacity q =
      (head q + (qsize q + 1)) mod capacity q"
    using assms(1) by (simp add: ring_pos_def queue_inv_def mod_simps algebra_simps)
  ultimately show ?thesis
    using assms False by (auto simp: enqueue_space queue_inv_def)
qed

lemma enqueue_total: "queue_inv q \<Longrightarrow> \<exists>p q'. queue_enqueue q k d = Inr (p, q')"
  by (cases "qsize q = capacity q") (auto simp: enqueue_full enqueue_space)

lemma dequeue_head_total: "queue_inv q \<Longrightarrow> \<exists>q'. queue_dequeue_head q = Inr q'"
  by (auto simp: queue_dequeue_head_def queue_inv_def)

lemma dequeue_head_contents:
  assumes "queue_inv q" "queue_dequeue_head q = Inr q'"
  shows "contents q' = tl (contents q) \<and> queue_inv q' \<and> capacity q' = capacity q"
proof (cases "qsize q = 0")
  case True
  with assms show ?thesis by (auto simp: queue_dequeue_head_def contents_def)
next
  case False
  have c: "0 < capacity q" "0 \<le> head q" "0 < qsize q" using assms(1) False by (auto simp: queue_inv_def)
  have q': "q' = q\<lparr>qsize := qsize q - 1, head := (head q + 1) mod capacity q\<rparr>"
    using assms(2) False c by (simp add: queue_dequeue_head_def smod_nonneg_int)
  have "ring_pos q' i = ring_pos q (Suc i)" for i
    using c by (simp add: q' ring_pos_def mod_simps algebra_simps)
  moreover obtain n where "nat (qsize q) = Suc n" "nat (qsize q') = n"
    using c by (cases "nat (qsize q)") (auto simp: q' nat_eq_iff)
  ultimately have "contents q' = tl (contents q)"
    by (simp add: contents_def q' map_upt_Suc_cons del: upt_Suc)
  moreover have "((head q + 1) mod capacity q + (qsize q - 1)) mod capacity q = (head q + qsize q) mod capacity q"
    by (simp add: mod_simps)
  then have "queue_inv q'"
    using assms(1) c by (auto simp: q' queue_inv_def)
  ultimately show ?thesis using q' by simp
qed

lemma queue_head_first:
  assumes "queue_inv q" "contents q \<noteq> []"
  shows "rbind (node_deref q (queue_head q)) (\<lambda>n. Inr (key n, data n)) = Inr (hd (contents q))"
proof -
  have "nat (qsize q) \<noteq> 0" using assms(2) by (simp add: contents_def)
  then have "qsize q > 0" "0 \<le> head q" "head q < capacity q" "int (length (nodes q)) = capacity q"
    using assms(1) by (auto simp: queue_inv_def)
  moreover from this have "hd (contents q) = (key (nodes q ! nat (head q)), data (nodes q ! nat (head q)))"
    using assms(2) by (simp add: hd_conv_nth contents_nth ring_pos_def)
  ultimately show ?thesis by (simp add: queue_head_def node_deref_def)
qed

section \<open>Enqueue and dequeue at the tail: a bounded stack\<close>

lemma stack_inv_alloc: "1 < cap \<Longrightarrow> stack_inv (queue_alloc g cap)"
  by (simp add: stack_inv_def queue_alloc_def)

lemma stack_pos: "stack_inv q \<Longrightarrow> i < nat (capacity q) \<Longrightarrow> ring_pos q i = i"
  by (simp add: stack_inv_def ring_pos_def nat_less_iff)

lemma enqueue_stack_inv:
  assumes "stack_inv q" "queue_enqueue q k d = Inr (p, q')"
  shows "stack_inv q'"
proof (cases "qsize q = capacity q")
  case True
  with assms show ?thesis by (simp add: queue_enqueue_def)
next
  case False
  have "ring_pos q (nat (qsize q)) = nat (qsize q)"
    using assms(1) False by (intro stack_pos) (auto simp: stack_inv_def)
  with assms False show ?thesis
    by (auto simp: enqueue_space stack_inv_imp_queue_inv) (auto simp: stack_inv_def)
qed

lemma dequeue_tail_stack:
  assumes "stack_inv q"
  shows "\<exists>q'. queue_dequeue_tail q = Inr q' \<and> stack_inv q' \<and> capacity q' = capacity q \<and>
    contents q' = butlast (contents q)"
proof (cases "qsize q = 0")
  case True
  with assms show ?thesis by (auto simp: queue_dequeue_tail_def contents_def)
next
  case False
  let ?q' = "q\<lparr>qsize := qsize q - 1, tail := tail q - 1\<rparr>"
  have pos: "0 < qsize q" "1 < capacity q" "tail q = qsize q - 1" "qsize q \<le> capacity q"
    using assms False by (auto simp: stack_inv_def)
  have "(tail q - 1) smod capacity q = tail q - 1"
  proof (cases "tail q = 0")
    case True
    then show ?thesis using pos smod_minus_one [of "capacity q"] by simp
  next
    case False
    with pos show ?thesis by (simp add: smod_nonneg_int)
  qed
  then have "queue_dequeue_tail q = Inr ?q'" using False pos by (simp add: queue_dequeue_tail_def)
  moreover have "stack_inv ?q'" using assms pos by (auto simp: stack_inv_def)
  moreover obtain n where n: "nat (qsize q) = Suc n" "nat (qsize q - 1) = n"
    using pos by (cases "nat (qsize q)") (auto simp: nat_eq_iff)
  then have "contents ?q' = butlast (contents q)"
    by (simp add: contents_def ring_pos_def)
  ultimately show ?thesis by auto
qed

lemma queue_tail_last:
  assumes "stack_inv q" "contents q \<noteq> []"
  shows "rbind (node_deref q (queue_tail q)) (\<lambda>n. Inr (key n, data n)) = Inr (last (contents q))"
proof -
  have "nat (qsize q) \<noteq> 0" using assms(2) by (simp add: contents_def)
  then have s: "qsize q > 0" "int (length (nodes q)) = capacity q" "qsize q \<le> capacity q"
      "tail q = qsize q - 1"
    using assms(1) by (auto simp: stack_inv_def)
  moreover have "ring_pos q (nat (qsize q) - 1) = nat (qsize q) - 1"
    using assms(1) s by (intro stack_pos) auto
  ultimately show ?thesis
    using assms(2) by (simp add: queue_tail_def node_deref_def last_conv_nth contents_nth nat_diff_distrib)
qed

section \<open>The two contracts\<close>

locale bounded_push =
  fixes invar :: "'q \<Rightarrow> bool"
    and els :: "'q \<Rightarrow> 'a list"
    and cap :: "'q \<Rightarrow> nat"
    and push :: "'q \<Rightarrow> 'a \<Rightarrow> 'q res"
  assumes push_ok: "invar q \<Longrightarrow> \<exists>q'. push q x = Inr q' \<and> invar q' \<and> cap q' = cap q \<and>
    els q' = (if length (els q) < cap q then els q @ [x] else els q)"
begin

lemma push_all:
  "invar q \<Longrightarrow> length (els q) + length xs \<le> cap q \<Longrightarrow>
   \<exists>q'. rfold push q xs = Inr q' \<and> invar q' \<and> cap q' = cap q \<and> els q' = els q @ xs"
proof (induction xs arbitrary: q)
  case Nil
  then show ?case by simp
next
  case (Cons x xs)
  then obtain q1 where q1: "push q x = Inr q1" "invar q1" "cap q1 = cap q" "els q1 = els q @ [x]"
    using push_ok [of q x] by auto
  with Cons.prems Cons.IH [of q1] show ?case by auto
qed

end

locale bounded_fifo = bounded_push invar els cap push
  for invar :: "'q \<Rightarrow> bool" and els :: "'q \<Rightarrow> 'a list" and cap and push +
  fixes pop :: "'q \<Rightarrow> 'q res" and first :: "'q \<Rightarrow> 'a res"
  assumes pop_ok: "invar q \<Longrightarrow> \<exists>q'. pop q = Inr q' \<and> invar q' \<and> els q' = tl (els q)"
    and first_ok: "invar q \<Longrightarrow> els q \<noteq> [] \<Longrightarrow> first q = Inr (hd (els q))"
begin

lemma pop_many: "invar q \<Longrightarrow> \<exists>q'. riter n pop q = Inr q' \<and> invar q' \<and> els q' = drop n (els q)"
proof (induction n arbitrary: q)
  case 0
  then show ?case by simp
next
  case (Suc n)
  then obtain q1 where "pop q = Inr q1" "invar q1" "els q1 = tl (els q)" using pop_ok by blast
  with Suc.IH [of q1] show ?case by (simp add: drop_Suc)
qed

lemma fifo_order:
  assumes "invar q" "els q = []" "length xs \<le> cap q" "n < length xs"
  shows "rbind (rfold push q xs) (\<lambda>q1. rbind (riter n pop q1) first) = Inr (xs ! n)"
proof -
  obtain q1 where q1: "rfold push q xs = Inr q1" "invar q1" "els q1 = xs"
    using push_all [of q xs] assms by auto
  moreover obtain q2 where "riter n pop q1 = Inr q2" "invar q2" "els q2 = drop n xs"
    using pop_many [OF q1(2), of n] q1(3) by auto
  ultimately show ?thesis using assms(4) first_ok [of q2] by (simp add: hd_drop_conv_nth)
qed

end

locale bounded_lifo = bounded_push invar els cap push
  for invar :: "'q \<Rightarrow> bool" and els :: "'q \<Rightarrow> 'a list" and cap and push +
  fixes pop :: "'q \<Rightarrow> 'q res" and top :: "'q \<Rightarrow> 'a res"
  assumes pop_ok: "invar q \<Longrightarrow> \<exists>q'. pop q = Inr q' \<and> invar q' \<and> els q' = butlast (els q)"
    and top_ok: "invar q \<Longrightarrow> els q \<noteq> [] \<Longrightarrow> top q = Inr (last (els q))"
begin

lemma pop_many:
  "invar q \<Longrightarrow> \<exists>q'. riter n pop q = Inr q' \<and> invar q' \<and> els q' = take (length (els q) - n) (els q)"
proof (induction n arbitrary: q)
  case 0
  then show ?case by simp
next
  case (Suc n)
  then obtain q1 where q1: "pop q = Inr q1" "invar q1" "els q1 = butlast (els q)"
    using pop_ok by blast
  have "take (length (butlast (els q)) - n) (butlast (els q)) = take (length (els q) - Suc n) (els q)"
    by (cases "els q = []") (simp_all add: take_butlast)
  with q1 Suc.IH [of q1] show ?case by (simp del: length_butlast)
qed

lemma lifo_order:
  assumes "invar q" "els q = []" "length xs \<le> cap q" "n < length xs"
  shows "rbind (rfold push q xs) (\<lambda>q1. rbind (riter n pop q1) top) = Inr (rev xs ! n)"
proof -
  obtain q1 where q1: "rfold push q xs = Inr q1" "invar q1" "els q1 = xs"
    using push_all [of q xs] assms by auto
  moreover obtain q2 where "riter n pop q1 = Inr q2" "invar q2" "els q2 = take (length xs - n) xs"
    using pop_many [OF q1(2), of n] q1(3) by auto
  moreover have "take (length xs - n) xs \<noteq> []" using assms(4) by auto
  ultimately show ?thesis
    using assms(4) top_ok [of q2] by (simp add: last_conv_nth rev_nth)
qed

end

definition enqueue_pair :: "'d queue_t \<Rightarrow> int \<times> 'd \<Rightarrow> 'd queue_t res" where
  "enqueue_pair q x = rbind (queue_enqueue q (fst x) (snd x)) (\<lambda>r. Inr (snd r))"

definition deref_pair :: "'d queue_t \<Rightarrow> int option \<Rightarrow> (int \<times> 'd) res" where
  "deref_pair q p = rbind (node_deref q p) (\<lambda>n. Inr (key n, data n))"

lemma enqueue_pair_ok:
  assumes "queue_inv q"
  shows "\<exists>q'. enqueue_pair q x = Inr q' \<and> queue_inv q' \<and> nat (capacity q') = nat (capacity q) \<and>
    contents q' = (if length (contents q) < nat (capacity q) then contents q @ [x] else contents q)"
proof -
  obtain p q' where "queue_enqueue q (fst x) (snd x) = Inr (p, q')"
    using enqueue_total [OF assms] by blast
  with enqueue_inv [OF assms this] enqueue_contents [OF assms this] assms show ?thesis
    by (auto simp: enqueue_pair_def queue_inv_def)
qed

interpretation ring: bounded_fifo queue_inv contents "\<lambda>q. nat (capacity q)" enqueue_pair
  queue_dequeue_head "\<lambda>q. deref_pair q (queue_head q)"
proof
  show "\<exists>q'. enqueue_pair q x = Inr q' \<and> queue_inv q' \<and> nat (capacity q') = nat (capacity q) \<and>
    contents q' = (if length (contents q) < nat (capacity q) then contents q @ [x] else contents q)"
    if "queue_inv q" for q :: "'a queue_t" and x
    using that by (rule enqueue_pair_ok)
  show "\<exists>q'. queue_dequeue_head q = Inr q' \<and> queue_inv q' \<and> contents q' = tl (contents q)"
    if "queue_inv q" for q :: "'a queue_t"
    using dequeue_head_total [OF that] dequeue_head_contents [OF that] by blast
  show "deref_pair q (queue_head q) = Inr (hd (contents q))"
    if "queue_inv q" "contents q \<noteq> []" for q :: "'a queue_t"
    using queue_head_first [OF that] by (simp add: deref_pair_def)
qed

interpretation stk: bounded_lifo stack_inv contents "\<lambda>q. nat (capacity q)" enqueue_pair
  queue_dequeue_tail "\<lambda>q. deref_pair q (queue_tail q)"
proof
  show "\<exists>q'. enqueue_pair q x = Inr q' \<and> stack_inv q' \<and> nat (capacity q') = nat (capacity q) \<and>
    contents q' = (if length (contents q) < nat (capacity q) then contents q @ [x] else contents q)"
    if "stack_inv q" for q :: "'a queue_t" and x
    using enqueue_pair_ok [OF stack_inv_imp_queue_inv [OF that], of x] enqueue_stack_inv [OF that]
    by (auto simp: enqueue_pair_def rbind_eq_Inr)
  show "\<exists>q'. queue_dequeue_tail q = Inr q' \<and> stack_inv q' \<and> contents q' = butlast (contents q)"
    if "stack_inv q" for q :: "'a queue_t"
    using dequeue_tail_stack [OF that] by blast
  show "deref_pair q (queue_tail q) = Inr (last (contents q))"
    if "stack_inv q" "contents q \<noteq> []" for q :: "'a queue_t"
    using queue_tail_last [OF that] by (simp add: deref_pair_def)
qed

section \<open>Iteration\<close>

lemma has_next_stack: "stack_inv q \<Longrightarrow> queue_itr_has_next q (int i) \<longleftrightarrow> int i < qsize q"
  by (auto simp: queue_itr_has_next_def stack_inv_def)

lemma itr_next_stack:
  assumes "stack_inv q" "int i < qsize q"
  shows "\<exists>itr'. queue_itr_next q (int i) = Inr (Some (int i), itr') \<and>
    (if int i + 1 < qsize q then itr' = int i + 1 else \<not> queue_itr_has_next q itr')"
proof (cases "int i + 1 = capacity q")
  case True
  with assms have "qsize q = capacity q" by (auto simp: stack_inv_def)
  moreover have "(int i + 1) smod capacity q = 0" using True assms by (simp add: stack_inv_def smod_nonneg_int)
  ultimately show ?thesis
    using assms True
    by (auto simp: queue_itr_next_def Let_def queue_node_def queue_head_def queue_itr_has_next_def stack_inv_def)
next
  case False
  with assms have "(int i + 1) smod capacity q = int i + 1"
    by (simp add: stack_inv_def smod_nonneg_int)
  then show ?thesis
    using assms False
    by (auto simp: queue_itr_next_def Let_def queue_node_def queue_head_def queue_itr_has_next_def stack_inv_def)
qed

lemma key_stack:
  assumes "stack_inv q" "int i < qsize q"
  shows "queue_node_key q (Some (int i)) = Inr (fst (contents q ! i))"
proof -
  have "ring_pos q i = i" using assms by (intro stack_pos) (auto simp: stack_inv_def)
  then show ?thesis
    using assms by (auto simp: queue_node_key_def node_deref_def stack_inv_def contents_nth)
qed

lemma log_loop_stack:
  assumes "stack_inv q" "int i < qsize q"
  shows "queue_log_loop q (int i) out = Some (Inr (out @ map fst (drop i (contents q))))"
  using assms(2)
proof (induction "nat (qsize q) - i" arbitrary: i out)
  case 0
  then show ?case by simp
next
  case (Suc m)
  obtain itr' where itr': "queue_itr_next q (int i) = Inr (Some (int i), itr')"
      "if int i + 1 < qsize q then itr' = int i + 1 else \<not> queue_itr_has_next q itr'"
    using itr_next_stack [OF assms(1) Suc.prems] by blast
  let ?k = "fst (contents q ! i)"
  have step: "queue_log_loop q (int i) out = queue_log_loop q itr' (out @ [?k])"
    using Suc.prems assms(1) itr'(1)
    by (subst queue_log_loop.simps) (simp add: has_next_stack key_stack)
  have drop: "drop i (contents q) = contents q ! i # drop (Suc i) (contents q)"
    using Suc.prems by (intro Cons_nth_drop_Suc [symmetric]) simp
  show ?case
  proof (cases "int i + 1 < qsize q")
    case True
    then have "queue_log_loop q (int (Suc i)) (out @ [?k]) =
        Some (Inr ((out @ [?k]) @ map fst (drop (Suc i) (contents q))))"
      using Suc.hyps(2) by (intro Suc.hyps(1)) auto
    with True step itr'(2) drop show ?thesis by (simp add: add.commute)
  next
    case False
    then have "drop (Suc i) (contents q) = []" by simp
    moreover have "queue_log_loop q itr' (out @ [?k]) = Some (Inr (out @ [?k]))"
      using False itr'(2) by (subst queue_log_loop.simps) simp
    ultimately show ?thesis using step drop by simp
  qed
qed

section \<open>Main properties\<close>

text \<open>
  A sequence of operations on a bounded queue, and what it lets see: whether an element was accepted, and the element at the head
  when one is taken. \<open>fifo_run\<close> is the list that the queue stands for; \<open>queue_run\<close> makes the calls on the ring.
\<close>

datatype 'a fifo_op = Put 'a | Take | Clear

datatype 'a fifo_out = Accepted bool | Taken "'a option" | Cleared

fun fifo_run :: "nat \<Rightarrow> 'a list \<Rightarrow> 'a fifo_op list \<Rightarrow> 'a fifo_out list" where
  "fifo_run cap xs [] = []"
| "fifo_run cap xs (Put x # ops) =
     (if length xs < cap then Accepted True # fifo_run cap (xs @ [x]) ops else Accepted False # fifo_run cap xs ops)"
| "fifo_run cap [] (Take # ops) = Taken None # fifo_run cap [] ops"
| "fifo_run cap (x # xs) (Take # ops) = Taken (Some x) # fifo_run cap xs ops"
| "fifo_run cap xs (Clear # ops) = Cleared # fifo_run cap [] ops"

fun queue_op :: "'d queue_t \<Rightarrow> (int \<times> 'd) fifo_op \<Rightarrow> ((int \<times> 'd) fifo_out \<times> 'd queue_t) res" where
  "queue_op q (Put x) = rbind (queue_enqueue q (fst x) (snd x)) (\<lambda>(p, q'). Inr (Accepted (p \<noteq> None), q'))"
| "queue_op q Take =
     rbind (if queue_head q = None then Inr None else rbind (deref_pair q (queue_head q)) (\<lambda>x. Inr (Some x))) (\<lambda>x.
       rbind (queue_dequeue_head q) (\<lambda>q'. Inr (Taken x, q')))"
| "queue_op q Clear = Inr (Cleared, queue_drop q)"

fun queue_run :: "'d queue_t \<Rightarrow> (int \<times> 'd) fifo_op list \<Rightarrow> (int \<times> 'd) fifo_out list res" where
  "queue_run q [] = Inr []"
| "queue_run q (op # ops) = rbind (queue_op q op) (\<lambda>(out, q'). rbind (queue_run q' ops) (\<lambda>outs. Inr (out # outs)))"

lemma put_refines:
  assumes "queue_inv q"
  shows "\<exists>q'. queue_op q (Put x) = Inr (Accepted (length (contents q) < nat (capacity q)), q') \<and> queue_inv q' \<and> capacity q' = capacity q \<and>
    contents q' = (if length (contents q) < nat (capacity q) then contents q @ [x] else contents q)"
proof -
  obtain p q' where e: "queue_enqueue q (fst x) (snd x) = Inr (p, q')" using enqueue_total [OF assms] by blast
  have sz: "qsize q < capacity q \<longleftrightarrow> length (contents q) < nat (capacity q)" using assms by (auto simp: queue_inv_def)
  have "p \<noteq> None \<longleftrightarrow> qsize q < capacity q"
    using e enqueue_space [OF assms] enqueue_full [OF assms] assms by (cases "qsize q = capacity q") (auto simp: queue_inv_def)
  then have "queue_op q (Put x) = Inr (Accepted (qsize q < capacity q), q')" using e by simp
  then show ?thesis unfolding sz [symmetric] using enqueue_inv [OF assms e] enqueue_contents [OF assms e] by (intro exI [of _ q']) simp
qed

lemma take_refines:
  assumes "queue_inv q"
  shows "\<exists>q'. queue_op q Take = Inr (Taken (if contents q = [] then None else Some (hd (contents q))), q') \<and> queue_inv q' \<and>
    capacity q' = capacity q \<and> contents q' = tl (contents q)"
proof -
  obtain q' where d: "queue_dequeue_head q = Inr q'" using dequeue_head_total [OF assms] by blast
  have "queue_head q = None \<longleftrightarrow> contents q = []" using assms by (auto simp: queue_head_def contents_def queue_inv_def)
  then show ?thesis using d dequeue_head_contents [OF assms d] ring.first_ok [OF assms] by auto
qed

lemma clear_refines: "queue_inv q \<Longrightarrow> queue_inv (queue_drop q) \<and> capacity (queue_drop q) = capacity q \<and> contents (queue_drop q) = []"
  by (simp add: queue_drop_def queue_inv_def contents_def)

lemma queue_run_refines: "queue_inv q \<Longrightarrow> queue_run q ops = Inr (fifo_run (nat (capacity q)) (contents q) ops)"
proof (induction ops arbitrary: q)
  case (Cons op ops)
  show ?case
  proof (cases op)
    case (Put x)
    obtain q' where q': "queue_op q (Put x) = Inr (Accepted (length (contents q) < nat (capacity q)), q')" "queue_inv q'" "capacity q' = capacity q"
        "contents q' = (if length (contents q) < nat (capacity q) then contents q @ [x] else contents q)"
      using put_refines [OF Cons.prems] by blast
    show ?thesis using Cons.IH [OF q'(2)] q'(3,4) unfolding Put queue_run.simps q'(1) by (simp split: if_splits)
  next
    case Take
    obtain q' where q': "queue_op q Take = Inr (Taken (if contents q = [] then None else Some (hd (contents q))), q')" "queue_inv q'"
        "capacity q' = capacity q" "contents q' = tl (contents q)"
      using take_refines [OF Cons.prems] by blast
    show ?thesis using Cons.IH [OF q'(2)] q'(3,4) unfolding Take queue_run.simps q'(1) by (cases "contents q") simp_all
  next
    case Clear
    then show ?thesis using clear_refines [OF Cons.prems] Cons.IH by simp
  qed
qed simp

text \<open>A queue without slots.\<close>

lemma queue_run_no_slots: "qsize q = 0 \<Longrightarrow> capacity q = 0 \<Longrightarrow> queue_run q ops = Inr (fifo_run 0 [] ops)"
proof (induction ops arbitrary: q)
  case (Cons op ops)
  show ?case
    using Cons.prems Cons.IH [of q] Cons.IH [of "queue_drop q"]
    by (cases op) (simp_all add: queue_enqueue_def queue_dequeue_head_def queue_head_def queue_drop_def)
qed simp

text \<open>C23. The ring is a bounded first-in first-out queue, for every capacity and every sequence of enqueue, dequeue and drop calls on a new
  queue, however often its indices wrap around and whatever the memory that \<^verbatim>\<open>malloc\<close> returned held: an element is refused exactly if the queue is
  full, the elements come out in the order in which they were accepted, a dequeue of an empty queue does nothing, and no call accesses memory
  outside of the array.
\<close>

theorem queue_fifo: "queue_run (queue_alloc garbage cap) ops = Inr (fifo_run cap [] ops)"
proof (cases "cap = 0")
  case True
  then show ?thesis using queue_run_no_slots [of "queue_alloc garbage 0" ops] by (simp add: queue_alloc_def)
next
  case False
  then show ?thesis using queue_run_refines [OF queue_inv_alloc, of cap garbage ops] by (simp add: queue_alloc_def contents_alloc [unfolded queue_alloc_def])
qed

text \<open>A ring of two slots that wraps around.\<close>

lemma queue_fifo_example:
  "queue_run (queue_alloc g 2) [Put (1, True), Put (2, False), Put (3, True), Take, Put (4, True), Take, Take, Take] =
     Inr [Accepted True, Accepted True, Accepted False, Taken (Some (1, True)), Accepted True, Taken (Some (2, False)), Taken (Some (4, True)), Taken None]"
  by (simp add: queue_alloc_def queue_enqueue_def queue_dequeue_head_def queue_head_def deref_pair_def node_deref_def smod_int_alt_def upt_rec Let_def)

text \<open>Last in, first out: as the client uses its queue of reserved replies, dequeueing \<open>n\<close>
  elements at the tail leaves the \<open>n\<close>-th element from the end at the tail.
\<close>

theorem queue_lifo:
  assumes "1 < cap" "length xs \<le> cap" "n < length xs"
  shows "rbind (rfold enqueue_pair (queue_alloc garbage cap) xs)
    (\<lambda>q. rbind (riter n queue_dequeue_tail q) (\<lambda>q'. deref_pair q' (queue_tail q'))) = Inr (rev xs ! n)"
proof (rule stk.lifo_order)
  show "stack_inv (queue_alloc garbage cap)" using assms by (intro stack_inv_alloc)
  show "contents (queue_alloc garbage cap) = []" by simp
  show "length xs \<le> nat (capacity (queue_alloc garbage cap))"
    using assms(2) by (simp add: queue_alloc_def)
qed (rule assms(3))

theorem queue_lifo_witness:
  "rbind (rfold enqueue_pair (queue_alloc (\<lambda>_. \<lparr>heap_id = 7, key = 7, data = False\<rparr>) 3)
      [(1, True), (2, False)])
    (\<lambda>q. rbind (riter 1 queue_dequeue_tail q) (\<lambda>q'. deref_pair q' (queue_tail q'))) = Inr (1, True)"
  using queue_lifo [of 3 "[(1, True), (2, False)]" 1 "\<lambda>_. \<lparr>heap_id = 7, key = 7, data = False\<rparr>"]
  by simp

text \<open>While the head is at 0 the iterator visits every element once and in order, and the loop
  ends: \<^verbatim>\<open>queue_log\<close> prints exactly the keys of the queue.
\<close>

theorem queue_log_complete:
  assumes "stack_inv q"
  shows "queue_log q = Some (Inr (map fst (contents q)))"
proof (cases "qsize q = 0")
  case True
  then show ?thesis
    by (simp add: queue_log_def queue_log_loop.simps queue_itr_has_next_def contents_def)
next
  case False
  with assms have "int 0 < qsize q" "queue_itr_begin q = int 0"
    by (auto simp: stack_inv_def queue_itr_begin_def)
  with log_loop_stack [OF assms, of 0] show ?thesis by (simp add: queue_log_def)
qed

theorem queue_log_complete_witness:
  "queue_log \<lparr>nodes = [\<lparr>heap_id = 0, key = 4, data = True\<rparr>, \<lparr>heap_id = 0, key = 5, data = True\<rparr>],
     head = 0, tail = 1, qsize = 2, capacity = 2\<rparr> = Some (Inr [4, 5])"
  using queue_log_complete [of "\<lparr>nodes = [\<lparr>heap_id = 0, key = 4, data = True\<rparr>,
     \<lparr>heap_id = 0, key = 5, data = True\<rparr>], head = 0, tail = 1, qsize = 2, capacity = 2\<rparr>"]
  by (simp add: stack_inv_def contents_def ring_pos_def upt_rec)

text \<open>Once the ring has wrapped around, dequeueing at the tail is not safe: from a valid queue
  of three elements in four slots, two \<^verbatim>\<open>queue_dequeue_tail\<close> calls take the tail to -2, since
  C's remainder of a negative number is negative, and the next enqueue writes to slot -1.
  Iteration over that valid queue visits no element.
\<close>

definition wrapped_queue :: "bool queue_t" where
  "wrapped_queue = \<lparr>nodes = replicate 4 \<lparr>heap_id = 0, key = 1, data = True\<rparr>,
     head = 2, tail = 0, qsize = 3, capacity = 4\<rparr>"

theorem queue_wrapped_tail_unsafe:
  "queue_inv wrapped_queue \<and>
   rbind (riter 2 queue_dequeue_tail wrapped_queue) (\<lambda>q. queue_enqueue q 1 True) = Inl Out_Of_Bounds \<and>
   queue_log wrapped_queue = Some (Inr []) \<and> length (contents wrapped_queue) = 3"
  by (simp add: wrapped_queue_def queue_inv_def queue_dequeue_tail_def queue_enqueue_def Let_def
      numeral_2_eq_2 smod_int_alt_def queue_log_def queue_log_loop.simps queue_itr_has_next_def
      queue_itr_begin_def)

end
