(* ===== verification/DW_Timespec.thy ===== *)
theory DW_Timespec
  imports DW_Prelude
begin

text \<open>
  The time arithmetic of \<^verbatim>\<open>src/timespec.h\<close>: sums and differences of \<^verbatim>\<open>struct timespec\<close>,
  their conversion to micro- and nanoseconds, and the conversion between a number of
  microseconds and the \<^verbatim>\<open>it_value\<close> of a \<^verbatim>\<open>struct itimerspec\<close>.
  The fields are \<^verbatim>\<open>long\<close>s (64 bit); they are modelled as unbounded integers, since the
  sums of two clock readings are far from the limits of the type.
\<close>

section \<open>Definitions\<close>

record timespec =
  tv_sec :: int
  tv_nsec :: int

record itimerspec =
  it_interval :: timespec
  it_value :: timespec

text \<open>The two normalisation loops.\<close>

function ts_carry :: "timespec \<Rightarrow> timespec" where
  "ts_carry c = (if 1000000000 \<le> tv_nsec c
     then ts_carry (c\<lparr>tv_sec := tv_sec c + 1, tv_nsec := tv_nsec c - 1000000000\<rparr>) else c)"
  by pat_completeness auto
termination
  by (relation "measure (\<lambda>c. nat (tv_nsec c))") auto

function ts_borrow :: "timespec \<Rightarrow> timespec" where
  "ts_borrow c = (if tv_nsec c < 0
     then ts_borrow (c\<lparr>tv_sec := tv_sec c - 1, tv_nsec := tv_nsec c + 1000000000\<rparr>) else c)"
  by pat_completeness auto
termination
  by (relation "measure (\<lambda>c. nat (- tv_nsec c))") auto

declare ts_carry.simps [simp del] ts_borrow.simps [simp del]

definition ts_add :: "timespec \<Rightarrow> timespec \<Rightarrow> timespec" where
  "ts_add a b = ts_carry \<lparr>tv_sec = tv_sec a + tv_sec b, tv_nsec = tv_nsec a + tv_nsec b\<rparr>"

definition ts_sub :: "timespec \<Rightarrow> timespec \<Rightarrow> timespec" where
  "ts_sub a b = ts_borrow \<lparr>tv_sec = tv_sec a - tv_sec b, tv_nsec = tv_nsec a - tv_nsec b\<rparr>"

definition ts_sub_us :: "timespec \<Rightarrow> timespec \<Rightarrow> int" where
  "ts_sub_us a b = (let c = ts_sub a b in tv_sec c * 1000000 + tv_nsec c sdiv 1000)"

definition ts_sub_ns :: "timespec \<Rightarrow> timespec \<Rightarrow> int" where
  "ts_sub_ns a b = (let c = ts_sub a b in tv_sec c * 1000000000 + tv_nsec c)"

definition ts_leq :: "timespec \<Rightarrow> timespec \<Rightarrow> bool" where
  "ts_leq a b = (let ts = ts_sub a b in tv_sec ts < 0 \<or> (tv_sec ts = 0 \<and> tv_nsec ts < 0))"

text \<open>The result of \<^verbatim>\<open>its_to_us\<close> is an \<^verbatim>\<open>int\<close>: the sum is truncated to 32 bits.\<close>

definition its_to_us :: "itimerspec \<Rightarrow> int" where
  "its_to_us t =
     signed_take_bit 31 (tv_sec (it_value t) * 1000000 + tv_nsec (it_value t) sdiv 1000)"

definition us_to_its :: "int \<Rightarrow> itimerspec" where
  "us_to_its micros =
     \<lparr>it_interval = \<lparr>tv_sec = 0, tv_nsec = 0\<rparr>,
      it_value = \<lparr>tv_sec = micros sdiv 1000000, tv_nsec = (micros smod 1000000) * 1000\<rparr>\<rparr>"

text \<open>The instant a timespec denotes, in nanoseconds, and the range of a normalised one.\<close>

definition ts_ns :: "timespec \<Rightarrow> int" where
  "ts_ns t = tv_sec t * 1000000000 + tv_nsec t"

definition ts_norm :: "timespec \<Rightarrow> bool" where
  "ts_norm t \<longleftrightarrow> 0 \<le> tv_nsec t \<and> tv_nsec t < 1000000000"

section \<open>Properties\<close>

lemma ts_ns_ts_carry [simp]: "ts_ns (ts_carry c) = ts_ns c"
proof (induction c rule: ts_carry.induct)
  case (1 c)
  then show ?case
    by (cases "1000000000 \<le> tv_nsec c") (simp_all add: ts_carry.simps [of c] ts_ns_def)
qed

lemma ts_norm_ts_carry: "0 \<le> tv_nsec c \<Longrightarrow> ts_norm (ts_carry c)"
proof (induction c rule: ts_carry.induct)
  case (1 c)
  then show ?case
    by (cases "1000000000 \<le> tv_nsec c") (simp_all add: ts_carry.simps [of c] ts_norm_def)
qed

lemma ts_ns_ts_borrow [simp]: "ts_ns (ts_borrow c) = ts_ns c"
proof (induction c rule: ts_borrow.induct)
  case (1 c)
  then show ?case
    by (cases "tv_nsec c < 0") (simp_all add: ts_borrow.simps [of c] ts_ns_def)
qed

lemma ts_norm_ts_borrow: "tv_nsec c < 1000000000 \<Longrightarrow> ts_norm (ts_borrow c)"
proof (induction c rule: ts_borrow.induct)
  case (1 c)
  then show ?case
    by (cases "tv_nsec c < 0") (simp_all add: ts_borrow.simps [of c] ts_norm_def)
qed

lemma ts_ns_ts_add [simp]: "ts_ns (ts_add a b) = ts_ns a + ts_ns b"
  by (simp add: ts_add_def) (simp add: ts_ns_def)

lemma ts_norm_ts_add: "ts_norm a \<Longrightarrow> ts_norm b \<Longrightarrow> ts_norm (ts_add a b)"
  unfolding ts_add_def by (rule ts_norm_ts_carry) (simp add: ts_norm_def)

lemma ts_ns_ts_sub [simp]: "ts_ns (ts_sub a b) = ts_ns a - ts_ns b"
  by (simp add: ts_sub_def) (simp add: ts_ns_def)

lemma ts_norm_ts_sub: "ts_norm a \<Longrightarrow> ts_norm b \<Longrightarrow> ts_norm (ts_sub a b)"
  unfolding ts_sub_def by (rule ts_norm_ts_borrow) (simp add: ts_norm_def)

lemma ts_sub_ns_eq: "ts_sub_ns a b = ts_ns a - ts_ns b"
  using ts_ns_ts_sub [of a b] by (simp add: ts_sub_ns_def ts_ns_def Let_def)

text \<open>Truncating division by 1000 of a normalised difference is division rounding down.\<close>

lemma ts_sub_us_eq:
  assumes "ts_norm a" "ts_norm b"
  shows "ts_sub_us a b = (ts_ns a - ts_ns b) div 1000"
proof -
  let ?c = "ts_sub a b"
  from assms have n: "ts_norm ?c" by (rule ts_norm_ts_sub)
  have "ts_sub_us a b = tv_sec ?c * 1000000 + tv_nsec ?c div 1000"
    using n by (simp add: ts_sub_us_def Let_def ts_norm_def signed_divide_int_def sgn_if)
  also have "\<dots> = (tv_sec ?c * 1000000000 + tv_nsec ?c) div 1000" by simp
  also have "tv_sec ?c * 1000000000 + tv_nsec ?c = ts_ns a - ts_ns b"
    using ts_ns_ts_sub [of a b] by (simp add: ts_ns_def)
  finally show ?thesis .
qed

lemma mult_sdiv_cancel_int: "(b::int) \<noteq> 0 \<Longrightarrow> (a * b) sdiv b = a"
  by (auto simp: signed_divide_int_def abs_mult sgn_mult ac_simps abs_mult_sgn)

lemma us_its_id: "-(2 ^ 31) \<le> micros \<Longrightarrow> micros < 2 ^ 31 \<Longrightarrow> its_to_us (us_to_its micros) = micros"
  by (simp add: its_to_us_def us_to_its_def mult_sdiv_cancel_int sdiv_mult_smod_eq signed_take_bit_int_eq_self)

text \<open>\<^verbatim>\<open>its_to_us\<close> inverts \<^verbatim>\<open>us_to_its\<close> on every value of the type \<^verbatim>\<open>int\<close>, and the
  nanoseconds it sets are below one second.
\<close>

theorem its_us_roundtrip:
  assumes "-(2 ^ 31) \<le> micros" "micros < 2 ^ 31"
  shows "its_to_us (us_to_its micros) = micros \<and>
    \<bar>tv_nsec (it_value (us_to_its micros))\<bar> < 1000000000"
proof
  show "its_to_us (us_to_its micros) = micros"
    using assms by (rule us_its_id)
  have "\<bar>micros smod 1000000\<bar> < 1000000"
    by (simp add: smod_int_alt_def abs_mult)
  then show "\<bar>tv_nsec (it_value (us_to_its micros))\<bar> < 1000000000"
    by (simp add: us_to_its_def abs_mult)
qed

theorem its_us_roundtrip_witness:
  "its_to_us (us_to_its 2500000) = 2500000 \<and>
   \<bar>tv_nsec (it_value (us_to_its 2500000))\<bar> < 1000000000"
  using its_us_roundtrip [of 2500000] by simp

text \<open>On normalised times, the name notwithstanding, \<^verbatim>\<open>ts_leq(a, b)\<close> is the strict order:
  it holds exactly when \<open>a\<close> is earlier than \<open>b\<close>; in particular it is false for equal times.
\<close>

theorem ts_leq_strict:
  assumes "ts_norm a" "ts_norm b"
  shows "ts_leq a b \<longleftrightarrow> ts_ns a < ts_ns b"
proof -
  let ?c = "ts_sub a b"
  from assms have "ts_norm ?c" by (rule ts_norm_ts_sub)
  moreover have "tv_sec ?c * 1000000000 + tv_nsec ?c = ts_ns a - ts_ns b"
    using ts_ns_ts_sub [of a b] by (simp add: ts_ns_def)
  ultimately show ?thesis by (auto simp: ts_leq_def Let_def ts_norm_def)
qed

theorem ts_leq_strict_witness:
  "ts_leq \<lparr>tv_sec = 1, tv_nsec = 999999999\<rparr> \<lparr>tv_sec = 2, tv_nsec = 0\<rparr> \<and>
   \<not> ts_leq \<lparr>tv_sec = 2, tv_nsec = 0\<rparr> \<lparr>tv_sec = 2, tv_nsec = 0\<rparr>"
  using ts_leq_strict [of "\<lparr>tv_sec = 1, tv_nsec = 999999999\<rparr>" "\<lparr>tv_sec = 2, tv_nsec = 0\<rparr>"]
    ts_leq_strict [of "\<lparr>tv_sec = 2, tv_nsec = 0\<rparr>" "\<lparr>tv_sec = 2, tv_nsec = 0\<rparr>"]
  by (simp add: ts_norm_def ts_ns_def)

end
