(* ===== verification/DW_PQueue.thy ===== *)
theory DW_PQueue
  imports DW_Queueing_Common "HOL-Library.Multiset"
begin

text \<open>
  The binary heap of \<^verbatim>\<open>src/priority_queue.h\<close> and \<^verbatim>\<open>src/priority_queue.c\<close>: an array of nodes that
  never move, an array \<open>heap\<close> of node indices in heap order, a stack of free node indices, and
  in each node the position (\<^verbatim>\<open>heap_id\<close>) at which the heap refers to it. A \<^verbatim>\<open>node_t*\<close> is the
  index of the node in \<^verbatim>\<open>nodes[]\<close>; \<open>None\<close> is the null pointer. The loops of \<^verbatim>\<open>up\<close> and \<^verbatim>\<open>down\<close>
  follow \<^verbatim>\<open>heap_id\<close> fields, and end only if these are consistent: their models are partial
  functions (\<open>None\<close>: the loop does not end), and the operations' results are
  \<open>Some (Inr \<dots>)\<close> in every state that satisfies the invariant.
\<close>

section \<open>Definitions\<close>

record 'd pqueue_t =
  pnodes :: "'d node_t list"
  heap :: "nat list"
  stack :: "nat list"
  psize :: nat
  pcapacity :: nat

definition pqueue_alloc :: "(nat \<Rightarrow> 'd node_t) \<Rightarrow> (nat \<Rightarrow> nat) \<Rightarrow> nat \<Rightarrow> 'd pqueue_t" where
  "pqueue_alloc garbage garbage' cap =
     \<lparr>pnodes = map garbage [0..<cap], heap = map garbage' [0..<cap], stack = [0..<cap],
      psize = 0, pcapacity = cap\<rparr>"

definition pqueue_top :: "'d pqueue_t \<Rightarrow> nat option" where
  "pqueue_top q = (if psize q = 0 then None else Some (heap q ! 0))"

definition pqueue_node_key :: "'d pqueue_t \<Rightarrow> nat \<Rightarrow> int" where
  "pqueue_node_key q n = key (pnodes q ! n)"

definition pqueue_node_data :: "'d pqueue_t \<Rightarrow> nat \<Rightarrow> 'd" where
  "pqueue_node_data q n = data (pnodes q ! n)"

definition swap_node :: "'d pqueue_t \<Rightarrow> nat \<Rightarrow> nat \<Rightarrow> 'd pqueue_t" where
  "swap_node q node0 node1 =
     (let i0 = heap_id (pnodes q ! node0); i1 = heap_id (pnodes q ! node1);
          temp = heap q ! i0;
          hp = ((heap q)[i0 := heap q ! i1])[i1 := temp];
          ns = (pnodes q)[node0 := (pnodes q ! node0)\<lparr>heap_id := i1\<rparr>]
      in q\<lparr>heap := hp, pnodes := ns[node1 := (ns ! node1)\<lparr>heap_id := i0\<rparr>]\<rparr>)"

definition get_parent_node :: "'d pqueue_t \<Rightarrow> nat \<Rightarrow> nat option" where
  "get_parent_node q node =
     (if heap_id (pnodes q ! node) = 0 then None
      else Some (heap q ! ((heap_id (pnodes q ! node) - 1) div 2)))"

definition get_child_node :: "'d pqueue_t \<Rightarrow> nat \<Rightarrow> nat option" where
  "get_child_node q node =
     (let child1_idx = 2 * heap_id (pnodes q ! node) + 1;
          child2_idx = 2 * heap_id (pnodes q ! node) + 2 in
      if psize q \<le> child1_idx then None
      else if psize q \<le> child2_idx then Some (heap q ! child1_idx)
      else let child1 = heap q ! child1_idx; child2 = heap q ! child2_idx in
        Some (if key (pnodes q ! child1) < key (pnodes q ! child2) then child1 else child2))"

partial_function (option) up :: "'d pqueue_t \<Rightarrow> nat \<Rightarrow> 'd pqueue_t option" where
  "up q curr_node =
     (case get_parent_node q curr_node of
        None \<Rightarrow> Some q
      | Some parent_node \<Rightarrow>
          if key (pnodes q ! parent_node) > key (pnodes q ! curr_node)
          then up (swap_node q parent_node curr_node) curr_node
          else Some q)"

partial_function (option) down :: "'d pqueue_t \<Rightarrow> nat \<Rightarrow> 'd pqueue_t option" where
  "down q curr_node =
     (case get_child_node q curr_node of
        None \<Rightarrow> Some q
      | Some child_node \<Rightarrow>
          if key (pnodes q ! child_node) < key (pnodes q ! curr_node)
          then down (swap_node q child_node curr_node) curr_node
          else Some q)"

text \<open>
  There is no test for a full queue: with \<open>size = capacity\<close> the code reads \<^verbatim>\<open>stack[-1]\<close>.
\<close>

definition pqueue_insert ::
    "'d pqueue_t \<Rightarrow> int \<Rightarrow> 'd \<Rightarrow> (nat \<times> 'd pqueue_t) res option" where
  "pqueue_insert q k d =
     (if pcapacity q \<le> psize q then Some (Inl Out_Of_Bounds)
      else
        let node_id = stack q ! (pcapacity q - psize q - 1);
            q1 = q\<lparr>pnodes := (pnodes q)[node_id :=
                     (pnodes q ! node_id)\<lparr>data := d, key := k, heap_id := psize q\<rparr>],
                   heap := (heap q)[psize q := node_id],
                   psize := psize q + 1\<rparr>
        in map_option (\<lambda>q2. Inr (node_id, q2)) (up q1 node_id))"

text \<open>
  The common part of \<^verbatim>\<open>pqueue_remove\<close> and \<^verbatim>\<open>pqueue_pop\<close>: the last heap entry moves to the
  position of the removed node, which becomes free. The result is the moved node.
\<close>

definition unlink_node :: "'d pqueue_t \<Rightarrow> nat \<Rightarrow> nat \<times> 'd pqueue_t" where
  "unlink_node q node =
     (let h = heap_id (pnodes q ! node);
          sz = psize q - 1;
          hp = (heap q)[h := heap q ! sz];
          ns = (pnodes q)[hp ! h := (pnodes q ! (hp ! h))\<lparr>heap_id := h\<rparr>];
          st = (stack q)[pcapacity q - sz - 1 := node]
      in (hp ! heap_id (ns ! node), q\<lparr>psize := sz, heap := hp, pnodes := ns, stack := st\<rparr>))"

definition pqueue_remove :: "'d pqueue_t \<Rightarrow> nat \<Rightarrow> 'd pqueue_t res option" where
  "pqueue_remove q node =
     (if psize q = 0 then Some (Inl Out_Of_Bounds)
      else case unlink_node q node of (curr_node, q1) \<Rightarrow>
        (case up q1 curr_node of
          None \<Rightarrow> None
        | Some q2 \<Rightarrow> map_option Inr (down q2 curr_node)))"

definition pqueue_pop :: "'d pqueue_t \<Rightarrow> 'd pqueue_t res option" where
  "pqueue_pop q =
     (case pqueue_top q of
        None \<Rightarrow> Some (Inl Null_Deref)
      | Some node \<Rightarrow>
          (case unlink_node q node of (curr_node, q1) \<Rightarrow> map_option Inr (down q1 curr_node)))"

section \<open>Invariant and abstraction\<close>

definition par :: "nat \<Rightarrow> nat" where
  "par h = (h - 1) div 2"

definition hk :: "'d pqueue_t \<Rightarrow> nat \<Rightarrow> int" where
  "hk q h = key (pnodes q ! (heap q ! h))"

definition used :: "'d pqueue_t \<Rightarrow> nat set" where
  "used q = set (take (psize q) (heap q))"

text \<open>
  The structural invariant: the free indices and the indices in the heap are together all the
  indices below the capacity, each once, and a node in the heap knows its position.
\<close>

definition pq_struct :: "'d pqueue_t \<Rightarrow> bool" where
  "pq_struct q \<longleftrightarrow>
     length (pnodes q) = pcapacity q \<and> length (heap q) = pcapacity q \<and>
     length (stack q) = pcapacity q \<and> psize q \<le> pcapacity q \<and>
     distinct (take (pcapacity q - psize q) (stack q) @ take (psize q) (heap q)) \<and>
     (\<forall>n \<in> set (take (pcapacity q - psize q) (stack q)) \<union> used q. n < pcapacity q) \<and>
     (\<forall>h < psize q. heap_id (pnodes q ! (heap q ! h)) = h)"

definition heap_ok :: "'d pqueue_t \<Rightarrow> bool" where
  "heap_ok q \<longleftrightarrow> (\<forall>h < psize q. 0 < h \<longrightarrow> hk q (par h) \<le> hk q h)"

definition pq_inv :: "'d pqueue_t \<Rightarrow> bool" where
  "pq_inv q \<longleftrightarrow> pq_struct q \<and> heap_ok q"

text \<open>What the queue holds: for each node in use, its key and payload.\<close>

definition pq_abs :: "'d pqueue_t \<Rightarrow> nat \<rightharpoonup> int \<times> 'd" where
  "pq_abs q n = (if n \<in> used q then Some (key (pnodes q ! n), data (pnodes q ! n)) else None)"

text \<open>Two queues that differ in the order of the heap only.\<close>

definition same_nodes :: "'d pqueue_t \<Rightarrow> 'd pqueue_t \<Rightarrow> bool" where
  "same_nodes q q' \<longleftrightarrow> psize q' = psize q \<and> pcapacity q' = pcapacity q \<and> stack q' = stack q \<and>
     used q' = used q \<and>
     (\<forall>n. key (pnodes q' ! n) = key (pnodes q ! n) \<and> data (pnodes q' ! n) = data (pnodes q ! n))"

lemma same_nodes_refl [simp]: "same_nodes q q"
  by (simp add: same_nodes_def)

lemma same_nodes_trans: "same_nodes a b \<Longrightarrow> same_nodes b c \<Longrightarrow> same_nodes a c"
  by (simp add: same_nodes_def)

lemma same_nodes_abs: "same_nodes q q' \<Longrightarrow> pq_abs q' = pq_abs q"
  by (rule ext) (simp add: same_nodes_def pq_abs_def)

lemma par_less: "0 < h \<Longrightarrow> par h < h"
  by (simp add: par_def)

lemma par_child: "0 < c \<Longrightarrow> par c = i \<longleftrightarrow> c = 2 * i + 1 \<or> c = 2 * i + 2"
  unfolding par_def by presburger

lemma heap_entry:
  assumes "pq_struct q" "h < psize q"
  shows "heap q ! h < length (pnodes q) \<and> heap q ! h \<in> used q \<and> h < length (heap q) \<and>
    heap_id (pnodes q ! (heap q ! h)) = h"
proof -
  have "h < length (take (psize q) (heap q))" using assms by (simp add: pq_struct_def)
  then have "heap q ! h \<in> used q"
    unfolding used_def using nth_mem [of h "take (psize q) (heap q)"] assms(2) by simp
  with assms show ?thesis by (auto simp: pq_struct_def)
qed

lemma heap_inj:
  assumes "pq_struct q" "h < psize q" "h' < psize q" "heap q ! h = heap q ! h'"
  shows "h = h'"
  using heap_entry [OF assms(1,2)] heap_entry [OF assms(1,3)] assms(4) by metis

lemma used_iff: "pq_struct q \<Longrightarrow> n \<in> used q \<longleftrightarrow> (\<exists>h < psize q. heap q ! h = n)"
  by (auto simp: used_def in_set_conv_nth pq_struct_def)

lemma card_used: "pq_struct q \<Longrightarrow> card (used q) = psize q"
  unfolding used_def by (subst distinct_card) (auto simp: pq_struct_def)

lemma dom_pq_abs [simp]: "dom (pq_abs q) = used q"
  by (auto simp: pq_abs_def dom_def)

section \<open>Exchanging two heap positions\<close>

lemma swap_node_heap:
  assumes "pq_struct q" "i < psize q" "j < psize q" "i \<noteq> j"
  shows "heap (swap_node q (heap q ! i) (heap q ! j)) = (heap q)[i := heap q ! j, j := heap q ! i]"
  using heap_entry [OF assms(1,2)] heap_entry [OF assms(1,3)]
  by (simp add: swap_node_def Let_def)

lemma swap_node_nodes:
  assumes "pq_struct q" "i < psize q" "j < psize q" "i \<noteq> j"
  shows "pnodes (swap_node q (heap q ! i) (heap q ! j)) ! n =
     (pnodes q ! n)\<lparr>heap_id := (if n = heap q ! i then j else if n = heap q ! j then i
        else heap_id (pnodes q ! n))\<rparr>"
proof -
  have "heap q ! i \<noteq> heap q ! j" using heap_inj [OF assms(1-3)] assms(4) by blast
  then show ?thesis
    using heap_entry [OF assms(1,2)] heap_entry [OF assms(1,3)]
    by (auto simp: swap_node_def Let_def nth_list_update_if)
qed

lemma swap_node_frame [simp]:
  "psize (swap_node q a b) = psize q" "pcapacity (swap_node q a b) = pcapacity q"
  "stack (swap_node q a b) = stack q" "length (pnodes (swap_node q a b)) = length (pnodes q)"
  "length (heap (swap_node q a b)) = length (heap q)"
  by (simp_all add: swap_node_def Let_def)

lemma mset_swap_take:
  assumes "i < m" "j < m" "m \<le> length xs"
  shows "mset (take m (xs[i := xs ! j, j := xs ! i])) = mset (take m xs)"
proof -
  have "take m (xs[i := xs ! j, j := xs ! i]) = (take m xs)[i := take m xs ! j, j := take m xs ! i]"
    using assms by (simp add: take_update_swap)
  moreover have "mset ((take m xs)[i := take m xs ! j, j := take m xs ! i]) = mset (take m xs)"
    using assms by (intro mset_swap) auto
  ultimately show ?thesis by simp
qed

lemma swap_node_same:
  assumes "pq_struct q" "i < psize q" "j < psize q" "i \<noteq> j"
  shows "same_nodes q (swap_node q (heap q ! i) (heap q ! j))"
proof -
  have "mset (take (psize q) ((heap q)[i := heap q ! j, j := heap q ! i])) =
      mset (take (psize q) (heap q))"
    using assms by (intro mset_swap_take) (auto simp: pq_struct_def)
  then have "set (take (psize q) ((heap q)[i := heap q ! j, j := heap q ! i])) =
      set (take (psize q) (heap q))"
    by (rule mset_eq_setD)
  then have "used (swap_node q (heap q ! i) (heap q ! j)) = used q"
    by (simp only: used_def swap_node_heap [OF assms] swap_node_frame)
  then show ?thesis by (simp add: same_nodes_def swap_node_nodes [OF assms])
qed

lemma swap_node_struct:
  assumes "pq_struct q" "i < psize q" "j < psize q" "i \<noteq> j"
  shows "pq_struct (swap_node q (heap q ! i) (heap q ! j))"
proof -
  let ?q = "swap_node q (heap q ! i) (heap q ! j)"
  have len: "length (heap q) = pcapacity q" "psize q \<le> pcapacity q" using assms(1) by (auto simp: pq_struct_def)
  have ms: "mset (take (psize q) (heap ?q)) = mset (take (psize q) (heap q))"
    unfolding swap_node_heap [OF assms] using assms len by (intro mset_swap_take) auto
  have "distinct (take (pcapacity q - psize q) (stack q) @ take (psize q) (heap ?q)) \<longleftrightarrow>
      distinct (take (pcapacity q - psize q) (stack q) @ take (psize q) (heap q))"
    using mset_eq_imp_distinct_iff [OF ms] mset_eq_setD [OF ms] by simp
  moreover have "used ?q = used q" using swap_node_same [OF assms] by (simp add: same_nodes_def)
  moreover have "heap_id (pnodes ?q ! (heap ?q ! h)) = h" if "h < psize q" for h
    using assms that len heap_inj [OF assms(1) that] heap_entry [OF assms(1) that]
      heap_inj [OF assms(1-3)]
    by (auto simp: swap_node_nodes [OF assms] swap_node_heap [OF assms] nth_list_update_if)
  ultimately show ?thesis using assms(1) by (auto simp: pq_struct_def)
qed

lemma swap_node_hk:
  assumes "pq_struct q" "i < psize q" "j < psize q" "i \<noteq> j" "h < psize q"
  shows "hk (swap_node q (heap q ! i) (heap q ! j)) h =
    (if h = i then hk q j else if h = j then hk q i else hk q h)"
  using assms heap_entry [OF assms(1,2)] heap_entry [OF assms(1,3)]
  by (auto simp: hk_def swap_node_nodes [OF assms(1-4)] swap_node_heap [OF assms(1-4)] nth_list_update_if)

section \<open>Moving a node up\<close>

text \<open>The order holds except between position \<open>i\<close> and its parent.\<close>

definition up_ok :: "'d pqueue_t \<Rightarrow> nat \<Rightarrow> bool" where
  "up_ok q i \<longleftrightarrow> (\<forall>h < psize q. 0 < h \<longrightarrow> h \<noteq> i \<longrightarrow> hk q (par h) \<le> hk q h) \<and>
     (0 < i \<longrightarrow> (\<forall>c < psize q. 0 < c \<longrightarrow> par c = i \<longrightarrow> hk q (par i) \<le> hk q c))"

lemma up_ok_swap:
  assumes "pq_struct q" "up_ok q i" "0 < i" "i < psize q" "hk q i < hk q (par i)"
  shows "up_ok (swap_node q (heap q ! par i) (heap q ! i)) (par i)"
proof -
  let ?q = "swap_node q (heap q ! par i) (heap q ! i)"
  have p: "par i < i" using assms(3) by (rule par_less)
  have hk': "hk ?q h = (if h = par i then hk q i else if h = i then hk q (par i) else hk q h)"
    if "h < psize q" for h
    using swap_node_hk [OF assms(1) _ assms(4) _ that, of "par i"] p assms(4) by simp
  have ord: "hk q (par h) \<le> hk q h" if "h < psize q" "0 < h" "h \<noteq> i" for h
    using assms(2) that by (simp add: up_ok_def)
  have byp: "hk q (par i) \<le> hk q c" if "c < psize q" "0 < c" "par c = i" for c
    using assms(2,3) that by (simp add: up_ok_def)
  have lt: "par h < h" if "0 < h" for h using that by (rule par_less)
  have "hk ?q (par h) \<le> hk ?q h" if h: "h < psize q" "0 < h" "h \<noteq> par i" for h
    using hk' [of h] hk' [of "par h"] ord [OF h(1,2)] byp [OF h(1,2)] lt [OF h(2)] h p assms(4,5)
    by (auto split: if_splits)
  moreover have "hk ?q (par (par i)) \<le> hk ?q c"
    if c: "0 < par i" "c < psize q" "0 < c" "par c = par i" for c
  proof -
    have "par (par i) < par i" using c(1) by (rule par_less)
    then have "hk ?q (par (par i)) = hk q (par (par i))"
      using hk' [of "par (par i)"] p assms(4) by simp
    moreover have "hk q (par (par i)) \<le> hk q (par i)"
      using ord [of "par i"] c(1) p assms(4) by simp
    moreover have "c \<noteq> par i" using c lt [OF c(3)] by auto
    moreover have "c \<noteq> i \<Longrightarrow> hk q (par i) \<le> hk q c" using ord [OF c(2,3)] c(4) by simp
    ultimately show ?thesis using hk' [OF c(2)] by auto
  qed
  ultimately show ?thesis by (simp add: up_ok_def)
qed

lemma get_parent_at:
  assumes "pq_struct q" "i < psize q"
  shows "get_parent_node q (heap q ! i) = (if i = 0 then None else Some (heap q ! par i))"
  using heap_entry [OF assms] by (simp add: get_parent_node_def par_def)

lemma up_correct:
  assumes "pq_struct q" "i < psize q" "up_ok q i"
  shows "\<exists>q'. up q (heap q ! i) = Some q' \<and> pq_inv q' \<and> same_nodes q q'"
  using assms
proof (induction i arbitrary: q rule: less_induct)
  case (less i)
  let ?n = "heap q ! i"
  show ?case
  proof (cases "0 < i \<and> hk q i < hk q (par i)")
    case True
    let ?q = "swap_node q (heap q ! par i) ?n"
    have p: "par i < i" "par i < psize q" "par i \<noteq> i" using True par_less [of i] less.prems(2) by auto
    have s: "pq_struct ?q" using less.prems p by (intro swap_node_struct) auto
    have "same_nodes q ?q" using less.prems p by (intro swap_node_same) auto
    have n: "heap ?q ! par i = ?n"
      using less.prems p heap_entry [OF less.prems(1,2)] heap_entry [OF less.prems(1) p(2)]
      by (simp add: swap_node_heap)
    have "up q ?n = up ?q ?n"
      using True less.prems by (subst up.simps) (simp add: get_parent_at hk_def)
    moreover obtain q' where "up ?q (heap ?q ! par i) = Some q'" "pq_inv q'" "same_nodes ?q q'"
      using less.IH [OF p(1) s] p(2) up_ok_swap [OF less.prems(1,3) _ less.prems(2)] True by auto
    ultimately show ?thesis using n \<open>same_nodes q ?q\<close> same_nodes_trans by metis
  next
    case False
    then have "heap_ok q" using less.prems(3) by (auto simp: heap_ok_def up_ok_def)
    moreover have "up q ?n = Some q"
      using False less.prems by (subst up.simps) (auto simp: get_parent_at hk_def)
    ultimately show ?thesis using less.prems by (simp add: pq_inv_def)
  qed
qed

section \<open>Moving a node down\<close>

text \<open>The order holds except between position \<open>i\<close> and its children.\<close>

definition down_ok :: "'d pqueue_t \<Rightarrow> nat \<Rightarrow> bool" where
  "down_ok q i \<longleftrightarrow> (\<forall>h < psize q. 0 < h \<longrightarrow> par h \<noteq> i \<longrightarrow> hk q (par h) \<le> hk q h) \<and>
     (0 < i \<longrightarrow> (\<forall>c < psize q. 0 < c \<longrightarrow> par c = i \<longrightarrow> hk q (par i) \<le> hk q c))"

text \<open>The child that \<^verbatim>\<open>get_child_node\<close> picks has the least key of the children.\<close>

lemma get_child_at:
  assumes "pq_struct q" "i < psize q"
  obtains (none) "get_child_node q (heap q ! i) = None" "\<forall>h < psize q. 0 < h \<longrightarrow> par h \<noteq> i"
  | (some) c where "c < psize q" "get_child_node q (heap q ! i) = Some (heap q ! c)"
      "0 < c" "par c = i" "\<forall>h < psize q. 0 < h \<longrightarrow> par h = i \<longrightarrow> hk q c \<le> hk q h"
proof -
  have id: "heap_id (pnodes q ! (heap q ! i)) = i" using heap_entry [OF assms] by simp
  consider (zero) "psize q \<le> 2 * i + 1" | (one) "psize q = 2 * i + 2" | (two) "2 * i + 2 < psize q"
    by linarith
  then show thesis
  proof cases
    case zero
    have "\<forall>h < psize q. 0 < h \<longrightarrow> par h \<noteq> i" using zero by (auto simp: par_child)
    moreover have "get_child_node q (heap q ! i) = None"
      using zero id by (simp add: get_child_node_def Let_def)
    ultimately show thesis by (intro none)
  next
    case one
    have "\<forall>h < psize q. 0 < h \<longrightarrow> par h = i \<longrightarrow> hk q (2 * i + 1) \<le> hk q h"
      using one by (auto simp: par_child)
    moreover have "get_child_node q (heap q ! i) = Some (heap q ! (2 * i + 1))"
      using one id by (simp add: get_child_node_def Let_def)
    ultimately show thesis using one by (intro some [of "2 * i + 1"]) (auto simp: par_def)
  next
    case two
    let ?c = "if hk q (2 * i + 1) < hk q (2 * i + 2) then 2 * i + 1 else 2 * i + 2"
    have "\<forall>h < psize q. 0 < h \<longrightarrow> par h = i \<longrightarrow> hk q ?c \<le> hk q h"
      by (auto simp: par_child)
    moreover have "get_child_node q (heap q ! i) = Some (heap q ! ?c)"
      using two id by (simp add: get_child_node_def Let_def hk_def)
    moreover have "par ?c = i" by (simp add: par_def)
    moreover have "?c < psize q" "0 < ?c" using two by auto
    ultimately show thesis by (intro some)
  qed
qed

lemma down_ok_swap:
  assumes "pq_struct q" "down_ok q i" "i < psize q" "c < psize q" "0 < c" "par c = i"
    and least: "\<forall>h < psize q. 0 < h \<longrightarrow> par h = i \<longrightarrow> hk q c \<le> hk q h"
    and "hk q c < hk q i"
  shows "down_ok (swap_node q (heap q ! c) (heap q ! i)) c"
proof -
  let ?q = "swap_node q (heap q ! c) (heap q ! i)"
  have ic: "i < c" using par_less [OF assms(5)] assms(6) by simp
  have hk': "hk ?q h = (if h = c then hk q i else if h = i then hk q c else hk q h)"
    if "h < psize q" for h
    using swap_node_hk [OF assms(1) assms(4) assms(3) _ that] ic by simp
  have ord: "hk q (par h) \<le> hk q h" if "h < psize q" "0 < h" "par h \<noteq> i" for h
    using assms(2) that by (simp add: down_ok_def)
  have byp: "hk q (par i) \<le> hk q c" if "0 < i"
    using assms(2,4,5,6) that by (simp add: down_ok_def)
  have "hk ?q (par h) \<le> hk ?q h" if h: "h < psize q" "0 < h" "par h \<noteq> c" for h
    using hk' [OF h(1)] hk' [of "par h"] ord [OF h(1,2)] byp least h par_less [OF h(2)] ic assms(6,8)
    by (auto split: if_splits)
  moreover have "hk ?q (par c) \<le> hk ?q d" if d: "d < psize q" "0 < d" "par d = c" for d
    using hk' [OF d(1)] hk' [of i] ord [OF d(1,2)] d par_less [OF d(2)] ic assms(3,6)
    by auto
  ultimately show ?thesis by (simp add: down_ok_def)
qed

lemma down_correct:
  assumes "pq_struct q" "i < psize q" "down_ok q i"
  shows "\<exists>q'. down q (heap q ! i) = Some q' \<and> pq_inv q' \<and> same_nodes q q'"
  using assms
proof (induction "psize q - i" arbitrary: i q rule: less_induct)
  case less
  let ?n = "heap q ! i"
  from less.prems(1,2) show ?case
  proof (cases rule: get_child_at)
    case none
    then have "heap_ok q" using less.prems(3) by (auto simp: heap_ok_def down_ok_def)
    moreover have "down q ?n = Some q" using none by (subst down.simps) simp
    ultimately show ?thesis using less.prems by (simp add: pq_inv_def)
  next
    case (some c)
    have ic: "i < c" "c \<noteq> i" using par_less [OF some(3)] some(4) by auto
    show ?thesis
    proof (cases "hk q c < hk q i")
      case True
      let ?q = "swap_node q (heap q ! c) ?n"
      have s: "pq_struct ?q" using less.prems some ic by (intro swap_node_struct) auto
      have same: "same_nodes q ?q" using less.prems some ic by (intro swap_node_same) auto
      have n: "heap ?q ! c = ?n"
        using less.prems some ic heap_entry [OF less.prems(1,2)] heap_entry [OF less.prems(1) some(1)]
        by (simp add: swap_node_heap)
      have "down q ?n = down ?q ?n" using True some by (subst down.simps) (simp add: hk_def)
      moreover have "down_ok ?q c"
        using down_ok_swap [OF less.prems(1,3,2) some(1,3,4,5) True] .
      then obtain q' where "down ?q (heap ?q ! c) = Some q'" "pq_inv q'" "same_nodes ?q q'"
        using less.hyps [of ?q c] s some(1) diff_less_mono2 [OF ic(1), of "psize q"] ic(1)
        by auto
      ultimately show ?thesis using n same same_nodes_trans by metis
    next
      case False
      have "heap_ok q" unfolding heap_ok_def
      proof (intro allI impI)
        fix h assume h: "h < psize q" "0 < h"
        show "hk q (par h) \<le> hk q h"
          using False some(5) less.prems(3) h
          by (cases "par h = i") (auto simp: down_ok_def dest: order_trans [OF leI])
      qed
      moreover have "down q ?n = Some q" using False some by (subst down.simps) (simp add: hk_def)
      ultimately show ?thesis using less.prems by (simp add: pq_inv_def)
    qed
  qed
qed

lemma down_stable:
  assumes "pq_inv q" "i < psize q"
  shows "down q (heap q ! i) = Some q"
proof -
  have s: "pq_struct q" "heap_ok q" using assms(1) by (auto simp: pq_inv_def)
  from s(1) assms(2) show ?thesis
  proof (cases rule: get_child_at)
    case none
    then show ?thesis by (subst down.simps) simp
  next
    case (some c)
    with s(2) have "\<not> hk q c < hk q i" by (auto simp: heap_ok_def not_less)
    with some(2) show ?thesis by (subst down.simps) (simp add: hk_def)
  qed
qed

section \<open>Insertion\<close>

lemma free_index:
  assumes "pq_struct q" "psize q < pcapacity q"
  shows "stack q ! (pcapacity q - psize q - 1) < pcapacity q \<and>
    stack q ! (pcapacity q - psize q - 1) \<notin> used q \<and>
    take (pcapacity q - psize q) (stack q) =
      take (pcapacity q - Suc (psize q)) (stack q) @ [stack q ! (pcapacity q - psize q - 1)]"
proof -
  let ?m = "pcapacity q - Suc (psize q)"
  have m: "pcapacity q - psize q = Suc ?m" "?m < length (stack q)"
    using assms by (auto simp: pq_struct_def)
  then have t: "take (pcapacity q - psize q) (stack q) = take ?m (stack q) @ [stack q ! ?m]"
    by (simp add: take_Suc_conv_app_nth)
  moreover have "stack q ! ?m < pcapacity q" "stack q ! ?m \<notin> used q"
    using assms(1) unfolding pq_struct_def t used_def by auto
  ultimately show ?thesis by simp
qed

lemma insert_raw:
  fixes q :: "'d pqueue_t" and d :: "'d" and k :: int
  assumes "pq_inv q" "psize q < pcapacity q"
  defines "n \<equiv> stack q ! (pcapacity q - psize q - 1)"
  defines "q1 \<equiv> q\<lparr>pnodes := (pnodes q)[n := (pnodes q ! n)\<lparr>data := d, key := k, heap_id := psize q\<rparr>],
      heap := (heap q)[psize q := n], psize := psize q + 1\<rparr>"
  shows "pq_struct q1 \<and> up_ok q1 (psize q) \<and> heap q1 ! psize q = n \<and> n \<notin> used q \<and>
    used q1 = insert n (used q)"
proof -
  have s: "pq_struct q" "heap_ok q" using assms(1) by (auto simp: pq_inv_def)
  have n: "n < pcapacity q" "n \<notin> used q"
      "take (pcapacity q - psize q) (stack q) = take (pcapacity q - Suc (psize q)) (stack q) @ [n]"
    using free_index [OF s(1) assms(2)] by (auto simp: n_def)
  have len: "length (heap q) = pcapacity q" "length (pnodes q) = pcapacity q"
    using s(1) by (auto simp: pq_struct_def)
  have tk: "take (Suc (psize q)) ((heap q)[psize q := n]) = take (psize q) (heap q) @ [n]"
    using assms(2) len by (simp add: take_Suc_conv_app_nth)
  then have u: "used q1 = insert n (used q)" by (simp add: used_def q1_def)
  have old: "heap q ! h \<noteq> n" if "h < psize q" for h
    using heap_entry [OF s(1) that] n(2) by auto
  have h1: "heap q1 ! h = (if h = psize q then n else heap q ! h)" for h
    using assms(2) len by (simp add: q1_def nth_list_update_if)
  have n1: "pnodes q1 ! m = (if m = n then (pnodes q ! n)\<lparr>data := d, key := k, heap_id := psize q\<rparr>
      else pnodes q ! m)" for m
    using n(1) len by (simp add: q1_def nth_list_update_if)
  have sz: "psize q1 = Suc (psize q)" by (simp add: q1_def)
  have ids: "heap_id (pnodes q1 ! (heap q1 ! h)) = h" if "h < psize q1" for h
    using that heap_entry [OF s(1), of h] old [of h] by (auto simp: h1 n1 sz)
  have "length (pnodes q1) = pcapacity q1 \<and> length (heap q1) = pcapacity q1 \<and>
      length (stack q1) = pcapacity q1 \<and> psize q1 \<le> pcapacity q1 \<and>
      distinct (take (pcapacity q1 - psize q1) (stack q1) @ take (psize q1) (heap q1)) \<and>
      (\<forall>n \<in> set (take (pcapacity q1 - psize q1) (stack q1)) \<union> used q1. n < pcapacity q1)"
    unfolding u using s(1) n tk assms(2) by (auto simp: q1_def pq_struct_def used_def)
  then have "pq_struct q1" using ids by (simp add: pq_struct_def)
  have hk1: "hk q1 h = hk q h" if "h < psize q" for h
    using that old by (simp add: hk_def h1 n1)
  have "hk q1 (par h) \<le> hk q1 h" if "h < psize q" "0 < h" for h
    using hk1 [OF that(1)] hk1 [of "par h"] par_less [OF that(2)] that s(2) by (simp add: heap_ok_def)
  moreover have "par c \<noteq> psize q" if "c < psize q1" "0 < c" for c
    using par_less [OF that(2)] that(1) sz by simp
  ultimately have "up_ok q1 (psize q)" by (auto simp: up_ok_def sz less_Suc_eq)
  with \<open>pq_struct q1\<close> show ?thesis using u n(2) h1 by simp
qed

lemma insert_ok:
  assumes "pq_inv q" "psize q < pcapacity q"
  shows "\<exists>n q'. pqueue_insert q k d = Some (Inr (n, q')) \<and> pq_inv q' \<and>
    pcapacity q' = pcapacity q \<and> pq_abs q n = None \<and> pq_abs q' = (pq_abs q)(n \<mapsto> (k, d))"
proof -
  let ?n = "stack q ! (pcapacity q - psize q - 1)"
  let ?q1 = "q\<lparr>pnodes := (pnodes q)[?n := (pnodes q ! ?n)\<lparr>data := d, key := k, heap_id := psize q\<rparr>],
      heap := (heap q)[psize q := ?n], psize := psize q + 1\<rparr>"
  note raw = insert_raw [OF assms, where d = d and k = k]
  obtain q' where q': "up ?q1 ?n = Some q'" "pq_inv q'" "same_nodes ?q1 q'"
    using up_correct [of ?q1 "psize q"] raw by auto
  have "?n < length (pnodes q)"
    using free_index [of q] assms by (auto simp: pq_inv_def pq_struct_def)
  then have "pq_abs ?q1 = (pq_abs q)(?n \<mapsto> (k, d))"
    using raw by (auto simp: pq_abs_def fun_eq_iff nth_list_update_if)
  moreover have "pqueue_insert q k d = Some (Inr (?n, q'))"
    using assms(2) q'(1) by (simp add: pqueue_insert_def Let_def)
  moreover have "pcapacity q' = pcapacity q" using q'(3) by (simp add: same_nodes_def)
  moreover have "pq_abs q ?n = None" using raw by (simp add: pq_abs_def)
  ultimately show ?thesis using q' same_nodes_abs [OF q'(3)] by auto
qed

section \<open>Removal\<close>

text \<open>
  Positions after \<^verbatim>\<open>unlink_node\<close>: position \<open>i\<close> of the removed node holds the last entry. The
  structure is intact; when the removed node was not itself the last entry, the order may fail
  at \<open>i\<close> only.
\<close>

definition ex_ok :: "'d pqueue_t \<Rightarrow> nat \<Rightarrow> bool" where
  "ex_ok q i \<longleftrightarrow> (\<forall>h < psize q. 0 < h \<longrightarrow> h \<noteq> i \<longrightarrow> par h \<noteq> i \<longrightarrow> hk q (par h) \<le> hk q h) \<and>
     (0 < i \<longrightarrow> (\<forall>c < psize q. 0 < c \<longrightarrow> par c = i \<longrightarrow> hk q (par i) \<le> hk q c))"

lemma unlink_node_at:
  assumes "pq_inv q" "i < psize q" "unlink_node q (heap q ! i) = (c, q1)"
  shows "c = heap q ! (psize q - 1)" and "psize q1 = psize q - 1" and "pcapacity q1 = pcapacity q"
    and "heap q1 = (heap q)[i := heap q ! (psize q - 1)]"
    and "pnodes q1 = (pnodes q)[heap q ! (psize q - 1) :=
           (pnodes q ! (heap q ! (psize q - 1)))\<lparr>heap_id := i\<rparr>]"
    and "stack q1 = (stack q)[pcapacity q - psize q := heap q ! i]"
proof -
  have s: "pq_struct q" using assms(1) by (simp add: pq_inv_def)
  note ei = heap_entry [OF s assms(2)]
  have el: "heap q ! (psize q - 1) < length (pnodes q)"
    using heap_entry [OF s, of "psize q - 1"] assms(2) by auto
  have c: "pcapacity q - (psize q - 1) - 1 = pcapacity q - psize q" using assms(2) by auto
  have "heap_id ((pnodes q)[heap q ! (psize q - 1) :=
      (pnodes q ! (heap q ! (psize q - 1)))\<lparr>heap_id := i\<rparr>] ! (heap q ! i)) = i"
    using ei el by (simp add: nth_list_update_if)
  with assms(3) ei c show "c = heap q ! (psize q - 1)" "psize q1 = psize q - 1"
    "pcapacity q1 = pcapacity q" "heap q1 = (heap q)[i := heap q ! (psize q - 1)]"
    "pnodes q1 = (pnodes q)[heap q ! (psize q - 1) :=
       (pnodes q ! (heap q ! (psize q - 1)))\<lparr>heap_id := i\<rparr>]"
    "stack q1 = (stack q)[pcapacity q - psize q := heap q ! i]"
    by (auto simp: unlink_node_def Let_def)
qed

lemma set_take_overwrite:
  assumes "distinct (take (Suc l) xs)" "i \<le> l" "l < length xs"
  shows "distinct (take l (xs[i := xs ! l])) \<and> set (take l (xs[i := xs ! l])) = set (take (Suc l) xs) - {xs ! i}"
proof (cases "i = l")
  case True
  with assms show ?thesis by (auto simp: take_Suc_conv_app_nth)
next
  case False
  with assms(2) have i: "i < l" by simp
  have "take (Suc l) xs = take l xs @ [xs ! l]" using assms(3) by (simp add: take_Suc_conv_app_nth)
  moreover have "take l (xs[i := xs ! l]) = (take l xs)[i := xs ! l]" by (simp add: take_update_swap)
  moreover have "set ((take l xs)[i := xs ! l]) = insert (xs ! l) (set (take l xs) - {take l xs ! i})"
    using assms i by (intro set_update_distinct) (auto simp: take_Suc_conv_app_nth)
  ultimately show ?thesis
    using assms i nth_mem [of i "take l xs"] by (auto simp: distinct_list_update)
qed

lemma unlink_node_struct:
  assumes "pq_inv q" "i < psize q" "unlink_node q (heap q ! i) = (c, q1)"
  shows "pq_struct q1 \<and> used q1 = used q - {heap q ! i} \<and> pq_abs q1 = (pq_abs q)(heap q ! i := None)"
proof -
  have s: "pq_struct q" using assms(1) by (simp add: pq_inv_def)
  obtain l where l: "psize q = Suc l" using assms(2) by (cases "psize q") auto
  note u = unlink_node_at [OF assms, unfolded l, simplified]
  have len: "length (heap q) = pcapacity q" "length (pnodes q) = pcapacity q"
      "length (stack q) = pcapacity q" "Suc l \<le> pcapacity q"
    using s l by (auto simp: pq_struct_def)
  have d: "distinct (take (pcapacity q - Suc l) (stack q))" "distinct (take (Suc l) (heap q))"
      "set (take (pcapacity q - Suc l) (stack q)) \<inter> set (take (Suc l) (heap q)) = {}"
    using s l by (auto simp: pq_struct_def)
  have el: "heap q ! l < length (pnodes q)" "heap q ! l \<in> used q"
    using heap_entry [OF s, of l] l by auto
  note ei = heap_entry [OF s assms(2)]
  have ow: "distinct (take l (heap q1))" "used q1 = used q - {heap q ! i}"
    using set_take_overwrite [of l "heap q" i] d(2) assms(2) len l u by (auto simp: used_def)
  have st: "take (pcapacity q - l) (stack q1) = take (pcapacity q - Suc l) (stack q) @ [heap q ! i]"
    using len u(6) by (simp add: take_Suc_conv_app_nth Suc_diff_Suc [symmetric])
  have "\<forall>n \<in> set (take (pcapacity q - l) (stack q1)) \<union> used q1. n < pcapacity q"
    using st ow(2) s l ei len by (auto simp: pq_struct_def)
  moreover have "distinct (take (pcapacity q - l) (stack q1) @ take l (heap q1))"
    using st ow d ei l u(2) by (auto simp: used_def)
  moreover have "heap_id (pnodes q1 ! (heap q1 ! h)) = h" if h: "h < l" for h
    using heap_inj [OF s, of h l] heap_entry [OF s, of h] h l el ei
    by (auto simp: u nth_list_update_if)
  ultimately have "pq_struct q1" using len u by (simp add: pq_struct_def)
  moreover have "key (pnodes q1 ! n) = key (pnodes q ! n) \<and> data (pnodes q1 ! n) = data (pnodes q ! n)" for n
    using el by (simp add: u nth_list_update_if)
  then have "pq_abs q1 = (pq_abs q)(heap q ! i := None)"
    using ow(2) by (auto simp: pq_abs_def fun_eq_iff)
  ultimately show ?thesis using ow(2) by simp
qed

lemma unlink_node_order:
  assumes "pq_inv q" "i < psize q" "unlink_node q (heap q ! i) = (c, q1)"
  shows "(if i < psize q1 then heap q1 ! i = c \<and> ex_ok q1 i else heap_ok q1 \<and> c = heap q ! i)"
proof -
  have s: "pq_struct q" "heap_ok q" using assms(1) by (auto simp: pq_inv_def)
  obtain l where l: "psize q = Suc l" using assms(2) by (cases "psize q") auto
  note u = unlink_node_at [OF assms, unfolded l, simplified]
  have len: "i < length (heap q)" "l < length (heap q)" "heap q ! l < length (pnodes q)"
    using heap_entry [OF s(1), of i] heap_entry [OF s(1), of l] assms(2) l by auto
  have hk1: "hk q1 h = (if h = i then hk q l else hk q h)" for h
    using len by (simp add: hk_def u nth_list_update_if)
  have ord: "hk q (par h) \<le> hk q h" if "h < Suc l" "0 < h" for h
    using s(2) that l by (simp add: heap_ok_def)
  show ?thesis
  proof (cases "i < l")
    case True
    have "hk q1 (par h) \<le> hk q1 h" if "h < l" "0 < h" "h \<noteq> i" "par h \<noteq> i" for h
      using that ord [of h] by (simp add: hk1)
    moreover have "hk q1 (par i) \<le> hk q1 d" if "0 < i" "d < l" "0 < d" "par d = i" for d
      using that ord [of d] ord [of i] par_less [of d] par_less [of i] True by (auto simp: hk1)
    ultimately show ?thesis using True len by (auto simp: ex_ok_def u nth_list_update_if)
  next
    case False
    with assms(2) l have "i = l" by simp
    then have "hk q1 h = hk q h" for h by (simp add: hk1)
    then show ?thesis using False ord \<open>i = l\<close> u by (auto simp: heap_ok_def)
  qed
qed

lemma heap_ok_top:
  assumes "pq_inv q" "h < psize q"
  shows "hk q 0 \<le> hk q h"
  using assms(2)
proof (induction h rule: less_induct)
  case (less h)
  show ?case
  proof (cases "h = 0")
    case True
    then show ?thesis by simp
  next
    case False
    then have "par h < h" using par_less by simp
    then have "hk q 0 \<le> hk q (par h)" using less by simp
    also have "hk q (par h) \<le> hk q h"
      using assms(1) less.prems False by (simp add: pq_inv_def heap_ok_def)
    finally show ?thesis .
  qed
qed

text \<open>
  With the removed node not last, either the moved node is below its parent and moving down
  restores the order, or it is above and moving up does, after which moving down changes nothing.
\<close>

lemma up_down_correct:
  assumes "pq_struct q" "i < psize q" "ex_ok q i"
  shows "\<exists>q'. Option.bind (up q (heap q ! i)) (\<lambda>q2. down q2 (heap q ! i)) = Some q' \<and>
    pq_inv q' \<and> same_nodes q q'"
proof (cases "0 < i \<and> hk q i < hk q (par i)")
  case True
  have "hk q (par h) \<le> hk q h" if "h < psize q" "0 < h" "h \<noteq> i" for h
    using assms(3) True that by (cases "par h = i") (fastforce simp: ex_ok_def)+
  then have "up_ok q i" using assms(3) by (auto simp: ex_ok_def up_ok_def)
  then obtain q2 where q2: "up q (heap q ! i) = Some q2" "pq_inv q2" "same_nodes q q2"
    using up_correct [OF assms(1,2)] by blast
  have "heap q ! i \<in> used q2" using heap_entry [OF assms(1,2)] q2(3) by (simp add: same_nodes_def)
  then obtain j where "j < psize q2" "heap q2 ! j = heap q ! i"
    using used_iff [of q2] q2(2) by (auto simp: pq_inv_def)
  then have "down q2 (heap q ! i) = Some q2" using down_stable [OF q2(2)] by metis
  with q2 show ?thesis by simp
next
  case False
  have "down_ok q i" using assms(2,3) False by (force simp: ex_ok_def down_ok_def)
  moreover have "up q (heap q ! i) = Some q"
    using False assms by (subst up.simps) (auto simp: get_parent_at hk_def)
  ultimately show ?thesis using down_correct [OF assms(1,2)] by simp
qed

text \<open>A node whose position is past the end of the heap is not moved down.\<close>

lemma down_past_end:
  "psize q \<le> heap_id (pnodes q ! n) \<Longrightarrow> down q n = Some q"
  by (subst down.simps) (simp add: get_child_node_def Let_def)

lemma heap_id_same: "heap_id x = i \<Longrightarrow> x\<lparr>heap_id := i\<rparr> = x"
  by (cases x) simp

lemma up_down_last:
  assumes "pq_inv q" "i < psize q" "unlink_node q (heap q ! i) = (c, q1)" "\<not> i < psize q1"
  shows "up q1 c = Some q1 \<and> down q1 c = Some q1"
proof -
  have s: "pq_struct q" "heap_ok q" using assms(1) by (auto simp: pq_inv_def)
  note u = unlink_node_at [OF assms(1-3)]
  have i: "i = psize q - 1" using assms(2,4) u(2) by simp
  note e = heap_entry [OF s(1) assms(2)]
  have h: "(pnodes q ! (heap q ! i))\<lparr>heap_id := i\<rparr> = pnodes q ! (heap q ! i)"
    using e by (intro heap_id_same) simp
  have c: "c = heap q ! i" "pnodes q1 = pnodes q" "heap q1 = heap q"
    using u(1,4,5) h by (simp_all only: i [symmetric] list_update_id)
  have "up q1 c = Some q1"
  proof (cases "i = 0")
    case True
    then show ?thesis using e c by (subst up.simps) (simp add: get_parent_node_def)
  next
    case False
    then have "hk q (par i) \<le> hk q i" using s(2) assms(2) by (simp add: heap_ok_def)
    then show ?thesis
      using False e c by (subst up.simps) (simp add: get_parent_node_def hk_def par_def)
  qed
  moreover have "down q1 c = Some q1" using e c assms(4) by (intro down_past_end) simp
  ultimately show ?thesis ..
qed

lemma remove_ok:
  assumes "pq_inv q" "n \<in> used q"
  shows "\<exists>q'. pqueue_remove q n = Some (Inr q') \<and> pq_inv q' \<and> pcapacity q' = pcapacity q \<and>
    pq_abs q' = (pq_abs q)(n := None)"
proof -
  have s: "pq_struct q" using assms(1) by (simp add: pq_inv_def)
  obtain i where i: "i < psize q" "heap q ! i = n" using used_iff [OF s] assms(2) by blast
  obtain c q1 where u: "unlink_node q (heap q ! i) = (c, q1)" by (cases "unlink_node q (heap q ! i)")
  note st = unlink_node_struct [OF assms(1) i(1) u]
  note od = unlink_node_order [OF assms(1) i(1) u]
  have rm: "pqueue_remove q n = map_option Inr (Option.bind (up q1 c) (\<lambda>q2. down q2 c))"
    using i u by (simp add: pqueue_remove_def Option.bind_def split: option.splits)
  have "\<exists>q'. Option.bind (up q1 c) (\<lambda>q2. down q2 c) = Some q' \<and> pq_inv q' \<and> same_nodes q1 q'"
  proof (cases "i < psize q1")
    case True
    with od st up_down_correct [of q1 i] show ?thesis by auto
  next
    case False
    with od st up_down_last [OF assms(1) i(1) u] show ?thesis by (auto simp: pq_inv_def)
  qed
  then obtain q' where q': "pqueue_remove q n = Some (Inr q')" "pq_inv q'" "same_nodes q1 q'"
    using rm by auto
  moreover have "pcapacity q' = pcapacity q"
    using q'(3) unlink_node_at(3) [OF assms(1) i(1) u] by (simp add: same_nodes_def)
  ultimately show ?thesis using st i(2) same_nodes_abs [OF q'(3)] by auto
qed

lemma top_used: "pq_inv q \<Longrightarrow> pqueue_top q = Some n \<Longrightarrow> n \<in> used q \<and> (\<forall>m \<in> used q. key (pnodes q ! n) \<le> key (pnodes q ! m))"
  using heap_entry [of q 0] heap_ok_top [of q] used_iff [of q]
  by (auto simp: pqueue_top_def pq_inv_def hk_def split: if_splits)

lemma pop_eq_remove:
  assumes "pq_inv q" "pqueue_top q = Some n"
  shows "pqueue_pop q = pqueue_remove q n"
proof -
  have 0: "0 < psize q" "heap q ! 0 = n" using assms(2) by (auto simp: pqueue_top_def split: if_splits)
  obtain c q1 where u: "unlink_node q (heap q ! 0) = (c, q1)" by (cases "unlink_node q (heap q ! 0)")
  have st: "pq_struct q1" using unlink_node_struct [OF assms(1) 0(1) u] by simp
  have "up q1 c = Some q1"
  proof (cases "0 < psize q1")
    case True
    then have "heap q1 ! 0 = c" using unlink_node_order [OF assms(1) 0(1) u] by simp
    with get_parent_at [OF st True] show ?thesis by (subst up.simps) simp
  next
    case False
    with up_down_last [OF assms(1) 0(1) u] show ?thesis by simp
  qed
  then show ?thesis
    using assms(2) u 0 by (simp add: pqueue_pop_def pqueue_remove_def)
qed

section \<open>The contract\<close>

text \<open>
  A store of keyed entries behind handles that stay valid until their entry is removed, and a
  priority queue on top of it. \<^verbatim>\<open>dw_node.c\<close> relies on both: a request keeps the handle of its
  timeout and removes it when a reply arrives, and the earliest timeout arms the timer.
\<close>

locale handle_store =
  fixes inv :: "'q \<Rightarrow> bool"
    and abs :: "'q \<Rightarrow> nat \<rightharpoonup> int \<times> 'd"
    and cap :: "'q \<Rightarrow> nat"
    and ins :: "'q \<Rightarrow> int \<Rightarrow> 'd \<Rightarrow> (nat \<times> 'q) res option"
    and del :: "'q \<Rightarrow> nat \<Rightarrow> 'q res option"
  assumes ins_law: "inv q \<Longrightarrow> card (dom (abs q)) < cap q \<Longrightarrow>
      \<exists>n q'. ins q k d = Some (Inr (n, q')) \<and> inv q' \<and> cap q' = cap q \<and>
        abs q n = None \<and> abs q' = (abs q)(n \<mapsto> (k, d))"
    and del_law: "inv q \<Longrightarrow> n \<in> dom (abs q) \<Longrightarrow>
      \<exists>q'. del q n = Some (Inr q') \<and> inv q' \<and> cap q' = cap q \<and> abs q' = (abs q)(n := None)"
    and finite_abs: "inv q \<Longrightarrow> finite (dom (abs q))"
begin

text \<open>Removing the entry just inserted restores the contents.\<close>

lemma ins_del:
  assumes "inv q" "card (dom (abs q)) < cap q"
  shows "\<exists>n q1 q2. ins q k d = Some (Inr (n, q1)) \<and> del q1 n = Some (Inr q2) \<and> inv q2 \<and> abs q2 = abs q"
proof -
  obtain n q1 where 1: "ins q k d = Some (Inr (n, q1))" "inv q1" "abs q n = None"
      "abs q1 = (abs q)(n \<mapsto> (k, d))"
    using ins_law [OF assms] by blast
  then obtain q2 where "del q1 n = Some (Inr q2)" "inv q2" "abs q2 = (abs q1)(n := None)"
    using del_law [of q1 n] by auto
  with 1 show ?thesis by (auto simp: fun_upd_idem)
qed

text \<open>Entries other than the one removed keep their handle, key and payload.\<close>

lemma del_other:
  assumes "inv q" "n \<in> dom (abs q)" "m \<noteq> n"
  shows "\<exists>q'. del q n = Some (Inr q') \<and> inv q' \<and> abs q' m = abs q m"
  using del_law [OF assms(1,2)] assms(3) by auto

end

locale handle_pqueue = handle_store inv abs cap ins del
  for inv :: "'q \<Rightarrow> bool" and abs :: "'q \<Rightarrow> nat \<rightharpoonup> int \<times> 'd" and cap ins del +
  fixes top :: "'q \<Rightarrow> nat option"
    and pop :: "'q \<Rightarrow> 'q res option"
  assumes top_None: "inv q \<Longrightarrow> top q = None \<longleftrightarrow> abs q = Map.empty"
    and top_least: "inv q \<Longrightarrow> top q = Some n \<Longrightarrow>
      \<exists>k d. abs q n = Some (k, d) \<and> (\<forall>m k' d'. abs q m = Some (k', d') \<longrightarrow> k \<le> k')"
    and pop_del: "inv q \<Longrightarrow> top q = Some n \<Longrightarrow> pop q = del q n"
begin

lemma pop_law:
  assumes "inv q" "abs q \<noteq> Map.empty"
  shows "\<exists>n k d q'. top q = Some n \<and> abs q n = Some (k, d) \<and> pop q = Some (Inr q') \<and> inv q' \<and>
    cap q' = cap q \<and> abs q' = (abs q)(n := None) \<and> (\<forall>m k' d'. abs q' m = Some (k', d') \<longrightarrow> k \<le> k') \<and>
    card (dom (abs q')) < card (dom (abs q))"
proof -
  obtain n where n: "top q = Some n" using top_None [OF assms(1)] assms(2) by auto
  then obtain k d where kd: "abs q n = Some (k, d)"
      "\<forall>m k' d'. abs q m = Some (k', d') \<longrightarrow> k \<le> k'"
    using top_least [OF assms(1)] by blast
  moreover obtain q' where q': "del q n = Some (Inr q')" "inv q'" "cap q' = cap q"
      "abs q' = (abs q)(n := None)"
    using del_law [OF assms(1), of n] kd by auto
  moreover have "card (dom (abs q')) < card (dom (abs q))"
    using q'(4) kd(1) finite_abs [OF assms(1)] by (auto intro!: psubset_card_mono)
  ultimately show ?thesis using n pop_del [OF assms(1) n] by fastforce
qed

end

lemma pq_inv_alloc: "pq_inv (pqueue_alloc g g' cap)"
  by (auto simp: pq_inv_def pq_struct_def heap_ok_def pqueue_alloc_def used_def)

lemma pq_abs_alloc [simp]: "pq_abs (pqueue_alloc g g' cap) = Map.empty"
  by (rule ext) (simp add: pq_abs_def used_def pqueue_alloc_def)

lemma card_dom_pq_abs: "pq_inv q \<Longrightarrow> card (dom (pq_abs q)) = psize q"
  by (simp add: card_used pq_inv_def)

lemma finite_dom_pq_abs: "finite (dom (pq_abs q))"
  by (simp add: used_def)

interpretation pq: handle_pqueue pq_inv pq_abs pcapacity pqueue_insert pqueue_remove pqueue_top pqueue_pop
proof
  show "\<exists>n q'. pqueue_insert q k d = Some (Inr (n, q')) \<and> pq_inv q' \<and> pcapacity q' = pcapacity q \<and>
      pq_abs q n = None \<and> pq_abs q' = (pq_abs q)(n \<mapsto> (k, d))"
    if "pq_inv q" "card (dom (pq_abs q)) < pcapacity q" for q :: "'a pqueue_t" and k d
    using insert_ok [OF that(1)] that card_dom_pq_abs [OF that(1)] by simp
  show "\<exists>q'. pqueue_remove q n = Some (Inr q') \<and> pq_inv q' \<and> pcapacity q' = pcapacity q \<and>
      pq_abs q' = (pq_abs q)(n := None)"
    if "pq_inv q" "n \<in> dom (pq_abs q)" for q :: "'a pqueue_t" and n
    using remove_ok [OF that(1)] that(2) by simp
  show "finite (dom (pq_abs q))" for q :: "'a pqueue_t" by (simp add: used_def)
  show "pqueue_top q = None \<longleftrightarrow> pq_abs q = Map.empty" if "pq_inv q" for q :: "'a pqueue_t"
  proof -
    have "pq_abs q = Map.empty \<longleftrightarrow> psize q = 0"
      using card_dom_pq_abs [OF that] finite_dom_pq_abs [of q] by (metis card_0_eq dom_eq_empty_conv)
    then show ?thesis by (simp add: pqueue_top_def)
  qed
  show "\<exists>k d. pq_abs q n = Some (k, d) \<and> (\<forall>m k' d'. pq_abs q m = Some (k', d') \<longrightarrow> k \<le> k')"
    if "pq_inv q" "pqueue_top q = Some n" for q :: "'a pqueue_t" and n
    using top_used [OF that] by (auto simp: pq_abs_def split: if_splits)
  show "pqueue_pop q = pqueue_remove q n"
    if "pq_inv q" "pqueue_top q = Some n" for q :: "'a pqueue_t" and n
    using that by (rule pop_eq_remove)
qed

section \<open>Properties\<close>

text \<open>Inserting into a queue that is not full ends, keeps the invariant, and returns the handle of
  a node that was not in use: after it the queue holds exactly the earlier entries and the new one.
  Removing a node by the handle of an entry ends as well, keeps the invariant and takes away
  exactly that entry, so that removing a node just inserted gives back the earlier contents.\<close>

theorem pqueue_insert_remove:
  assumes "pq_inv q" "psize q < pcapacity q"
  shows "\<exists>n q1 q2. pqueue_insert q k d = Some (Inr (n, q1)) \<and> pq_inv q1 \<and>
    pq_abs q n = None \<and> pq_abs q1 = (pq_abs q)(n \<mapsto> (k, d)) \<and>
    pqueue_remove q1 n = Some (Inr q2) \<and> pq_inv q2 \<and> pq_abs q2 = pq_abs q"
proof -
  obtain n q1 where 1: "pqueue_insert q k d = Some (Inr (n, q1))" "pq_inv q1"
      "pq_abs q n = None" "pq_abs q1 = (pq_abs q)(n \<mapsto> (k, d))"
    using pq.ins_law [OF assms(1)] assms card_dom_pq_abs [OF assms(1)] by metis
  moreover obtain q2 where "pqueue_remove q1 n = Some (Inr q2)" "pq_inv q2"
      "pq_abs q2 = (pq_abs q1)(n := None)"
    using pq.del_law [OF 1(2), of n] 1(4) by auto
  ultimately show ?thesis by (auto simp: fun_upd_idem)
qed

theorem pqueue_insert_remove_witness:
  "\<exists>n q1 q2. pqueue_insert (pqueue_alloc (\<lambda>i. \<lparr>heap_id = 7, key = 0, data = 0\<rparr>) (\<lambda>i. 9) 3) 5 (8::nat) =
      Some (Inr (n, q1)) \<and> pq_inv q1 \<and> pq_abs q1 = [n \<mapsto> (5, 8)] \<and>
    pqueue_remove q1 n = Some (Inr q2) \<and> pq_inv q2 \<and> pq_abs q2 = Map.empty"
proof -
  let ?q = "pqueue_alloc (\<lambda>i. \<lparr>heap_id = 7, key = 0, data = 0\<rparr>) (\<lambda>i. 9) 3 :: nat pqueue_t"
  have "psize ?q < pcapacity ?q" by (simp add: pqueue_alloc_def)
  from pqueue_insert_remove [OF pq_inv_alloc this, of 5 8] show ?thesis by auto
qed

text \<open>C22. On a queue that is not empty, \<^verbatim>\<open>pqueue_top\<close> returns an entry whose key is least, and
  \<^verbatim>\<open>pqueue_pop\<close> ends, keeps the invariant and takes away exactly that entry; all the keys that
  remain are at least the key that was popped.\<close>

theorem pqueue_pop_least:
  assumes "pq_inv q" "0 < psize q"
  shows "\<exists>n k d q'. pqueue_top q = Some n \<and> pq_abs q n = Some (k, d) \<and>
    pqueue_node_key q n = k \<and> pqueue_node_data q n = d \<and>
    pqueue_pop q = Some (Inr q') \<and> pq_inv q' \<and> psize q' = psize q - 1 \<and> pq_abs q' = (pq_abs q)(n := None) \<and>
    (\<forall>m k' d'. pq_abs q' m = Some (k', d') \<longrightarrow> k \<le> k')"
proof -
  have "pq_abs q \<noteq> Map.empty"
    using card_dom_pq_abs [OF assms(1)] assms(2) by (metis card.empty dom_empty less_irrefl)
  then obtain n k d q' where 1: "pqueue_top q = Some n" "pq_abs q n = Some (k, d)"
      "pqueue_pop q = Some (Inr q')" "pq_inv q'" "pq_abs q' = (pq_abs q)(n := None)"
      "\<forall>m k' d'. pq_abs q' m = Some (k', d') \<longrightarrow> k \<le> k'"
    using pq.pop_law [OF assms(1)] by blast
  have "psize q' = card (dom (pq_abs q) - {n})" using card_dom_pq_abs [OF 1(4)] 1(5) by simp
  also have "\<dots> = psize q - 1"
    using card_dom_pq_abs [OF assms(1)] 1(2) finite_dom_pq_abs [of q] by (metis card_Diff_singleton domI)
  finally have "psize q' = psize q - 1" .
  moreover have "pqueue_node_key q n = k" "pqueue_node_data q n = d"
    using 1(2) by (auto simp: pq_abs_def pqueue_node_key_def pqueue_node_data_def split: if_splits)
  ultimately show ?thesis using 1 by blast
qed

theorem pqueue_pop_least_witness:
  "\<exists>q n k d. pqueue_insert (pqueue_alloc (\<lambda>i. \<lparr>heap_id = 7, key = 0, data = 0\<rparr>) (\<lambda>i. 9) 3) 5 (8::nat) =
      Some (Inr (n, q)) \<and> pqueue_top q = Some n \<and> (\<exists>q'. pqueue_pop q = Some (Inr q') \<and> psize q' = 0)"
proof -
  let ?q = "pqueue_alloc (\<lambda>i. \<lparr>heap_id = 7, key = 0, data = 0\<rparr>) (\<lambda>i. 9) 3 :: nat pqueue_t"
  have "psize ?q < pcapacity ?q" by (simp add: pqueue_alloc_def)
  from insert_ok [OF pq_inv_alloc this, of 5 8] obtain n q where
    q: "pqueue_insert ?q 5 8 = Some (Inr (n, q))" "pq_inv q" "pq_abs q = [n \<mapsto> (5, 8)]" by auto
  then have "psize q = 1" using card_dom_pq_abs [OF q(2)] by simp
  with pqueue_pop_least [OF q(2)] q show ?thesis by (auto split: if_splits)
qed

text \<open>There is no test for a full queue: an insertion into a queue at its capacity reads
  \<^verbatim>\<open>stack[-1]\<close>, and one into a queue that is not full never does.\<close>

theorem pqueue_insert_full_unsafe:
  assumes "pq_inv q"
  shows "pqueue_insert q k d = Some (Inl Out_Of_Bounds) \<longleftrightarrow> psize q = pcapacity q"
  using insert_ok [OF assms, of k d] assms
  by (cases "psize q < pcapacity q") (auto simp: pqueue_insert_def pq_inv_def pq_struct_def)

theorem pqueue_insert_full_unsafe_witness:
  "pqueue_insert (pqueue_alloc (\<lambda>i. \<lparr>heap_id = 7, key = 0, data = 0\<rparr>) (\<lambda>i. 9) 0) 5 (8::nat) =
     Some (Inl Out_Of_Bounds)"
  using pqueue_insert_full_unsafe [OF pq_inv_alloc, of "\<lambda>i. \<lparr>heap_id = 7, key = 0, data = 0\<rparr>" "\<lambda>i. 9" 0 5 8]
  by (simp add: pqueue_alloc_def)

end
