(* ===== verification/DW_Memory.thy ===== *)
theory DW_Memory
  imports DW_Prelude
begin

text \<open>
  Byte buffers. The messages of the program are C structures laid over \<^verbatim>\<open>unsigned char\<close>
  buffers: a pointer into a buffer is an offset, and a read or a write that is not inside of
  the buffer is the fault \<open>Out_Of_Bounds\<close>. \<open>rd\<close> and \<open>wr\<close> access an unsigned integer of a given
  number of bytes in host byte order, \<open>blit\<close> is \<^verbatim>\<open>memcpy()\<close> into a buffer and \<open>slice\<close> the bytes
  it reads.
\<close>

definition slice :: "bytes \<Rightarrow> nat \<Rightarrow> nat \<Rightarrow> bytes res" where
  "slice b i n = (if i + n \<le> length b then Inr (take n (drop i b)) else Inl Out_Of_Bounds)"

definition blit :: "bytes \<Rightarrow> nat \<Rightarrow> bytes \<Rightarrow> bytes res" where
  "blit b i bs = (if i + length bs \<le> length b then Inr (take i b @ bs @ drop (i + length bs) b)
     else Inl Out_Of_Bounds)"

definition rd :: "nat \<Rightarrow> bytes \<Rightarrow> nat \<Rightarrow> nat res" where
  "rd k b i = rbind (slice b i k) (\<lambda>bs. Inr (le_nat bs))"

definition wr :: "nat \<Rightarrow> bytes \<Rightarrow> nat \<Rightarrow> nat \<Rightarrow> bytes res" where
  "wr k b i v = blit b i (le_bytes k v)"

lemma slice_ok: "i + n \<le> length b \<Longrightarrow> slice b i n = Inr (take n (drop i b))"
  by (simp add: slice_def)

lemma slice_eq_Inr: "slice b i n = Inr bs \<longleftrightarrow> i + n \<le> length b \<and> bs = take n (drop i b)"
  by (auto simp: slice_def)

lemma slice_append:
  assumes "slice b i m = Inr xs" "slice b (i + m) n = Inr ys"
  shows "slice b i (m + n) = Inr (xs @ ys)"
  using assms by (auto simp: slice_eq_Inr take_add drop_drop add.commute add.left_commute)

lemma blit_ok:
  "i + length bs \<le> length b \<Longrightarrow> blit b i bs = Inr (take i b @ bs @ drop (i + length bs) b)"
  by (simp add: blit_def)

lemma blit_eq_Inr:
  "blit b i bs = Inr b' \<longleftrightarrow>
     i + length bs \<le> length b \<and> b' = take i b @ bs @ drop (i + length bs) b"
  by (auto simp: blit_def)

lemma blit_length: "blit b i bs = Inr b' \<Longrightarrow> length b' = length b"
  by (auto simp: blit_eq_Inr)

lemma slice_blit_same: "blit b i bs = Inr b' \<Longrightarrow> slice b' i (length bs) = Inr bs"
  by (auto simp: blit_eq_Inr slice_def)

lemma slice_blit_before:
  assumes "blit b i bs = Inr b'" "j + n \<le> i"
  shows "slice b' j n = slice b j n"
proof -
  have "take n (drop j (take i b @ c)) = take n (drop j b)" if "i \<le> length b" for c
    using that assms(2) by (simp add: drop_take min_absorb1)
  then show ?thesis using assms by (auto simp: blit_eq_Inr slice_def)
qed

lemma slice_blit_after:
  assumes "blit b i bs = Inr b'" "i + length bs \<le> j"
  shows "slice b' j n = slice b j n"
  using assms by (auto simp: blit_eq_Inr slice_def)

lemma rd_ok: "i + k \<le> length b \<Longrightarrow> rd k b i = Inr (le_nat (take k (drop i b)))"
  by (simp add: rd_def slice_ok)

lemma rd_fault: "\<not> i + k \<le> length b \<Longrightarrow> rd k b i = Inl Out_Of_Bounds"
  by (simp add: rd_def slice_def)

lemma rd_bound: "rd k b i = Inr v \<Longrightarrow> v < 256 ^ k"
  using le_nat_bound [of "take k (drop i b)"]
  by (auto simp: rd_def rbind_eq_Inr slice_eq_Inr min_absorb2)

lemma wr_ok: "i + k \<le> length b \<Longrightarrow> \<exists>b'. wr k b i v = Inr b' \<and> length b' = length b"
  by (simp add: wr_def blit_ok)

lemma wr_length: "wr k b i v = Inr b' \<Longrightarrow> length b' = length b"
  by (auto simp: wr_def blit_length)

lemma wr_in_bounds: "wr k b i v = Inr b' \<Longrightarrow> i + k \<le> length b"
  by (auto simp: wr_def blit_eq_Inr)

lemma rd_wr_same: "wr k b i v = Inr b' \<Longrightarrow> rd k b' i = Inr (v mod 256 ^ k)"
  using slice_blit_same [of b i "le_bytes k v" b'] by (simp add: wr_def rd_def le_nat_le_bytes)

lemma rd_wr_other:
  assumes "wr k b i v = Inr b'" "j + n \<le> i \<or> i + k \<le> j"
  shows "rd n b' j = rd n b j"
  using assms slice_blit_before [of b i "le_bytes k v" b' j n]
    slice_blit_after [of b i "le_bytes k v" b' j n]
  by (auto simp: wr_def rd_def)

lemma slice_wr_other:
  assumes "wr k b i v = Inr b'" "j + n \<le> i \<or> i + k \<le> j"
  shows "slice b' j n = slice b j n"
  using assms slice_blit_before [of b i "le_bytes k v" b' j n]
    slice_blit_after [of b i "le_bytes k v" b' j n]
  by (auto simp: wr_def)

lemma rd_blit_other:
  assumes "blit b i bs = Inr b'" "j + n \<le> i \<or> i + length bs \<le> j"
  shows "rd n b' j = rd n b j"
  using assms slice_blit_before [of b i bs b' j n] slice_blit_after [of b i bs b' j n]
  by (auto simp: rd_def)

end
