(* ===== verification/DW_Message.thy ===== *)
theory DW_Message
  imports DW_Memory
begin

text \<open>
  Messages and their command lists: \<^verbatim>\<open>src/message.h\<close> and \<^verbatim>\<open>src/message.c\<close>. A message is a
  12-byte header (\<^verbatim>\<open>req_id\<close>, \<^verbatim>\<open>req_size\<close>, \<^verbatim>\<open>status\<close>) followed by commands of different sizes;
  a \<^verbatim>\<open>message_t*\<close> and a \<^verbatim>\<open>command_t*\<close> are offsets into a byte buffer, \<open>None\<close> is the null pointer.
  Every read of the code is a read of the buffer, so that a traversal that leaves it is a fault.
  The offsets are those of the structures' layout on x86-64 (natural alignment, 4-byte enums).
\<close>

section \<open>Definitions\<close>

text \<open>
  An enum member read from a buffer can hold any 32-bit value: \<open>CMD_OTHER\<close> and \<open>PROTO_OTHER\<close> are
  values that are none of the enumerators.
\<close>

datatype command_type_t = COMPUTE | STORE | LOAD | PSKIP | FORWARD_BEGIN | FORWARD_CONTINUE
  | REPLY | EOM | CMD_OTHER nat

definition command_of_nat :: "nat \<Rightarrow> command_type_t" where
  "command_of_nat n = (if n < 8
     then [COMPUTE, STORE, LOAD, PSKIP, FORWARD_BEGIN, FORWARD_CONTINUE, REPLY, EOM] ! n
     else CMD_OTHER n)"

fun nat_of_command :: "command_type_t \<Rightarrow> nat" where
  "nat_of_command COMPUTE = 0"
| "nat_of_command STORE = 1"
| "nat_of_command LOAD = 2"
| "nat_of_command PSKIP = 3"
| "nat_of_command FORWARD_BEGIN = 4"
| "nat_of_command FORWARD_CONTINUE = 5"
| "nat_of_command REPLY = 6"
| "nat_of_command EOM = 7"
| "nat_of_command (CMD_OTHER n) = n"

datatype proto_t = UDP | TCP | TLS | DPDK | PROTO_OTHER nat

definition proto_of_nat :: "nat \<Rightarrow> proto_t" where
  "proto_of_nat n = (if n < 4 then [UDP, TCP, TLS, DPDK] ! n else PROTO_OTHER n)"

datatype msg_status_t = SUCCESS | TIMEOUT | ERR

fun proto_str :: "proto_t \<Rightarrow> string res" where
  "proto_str UDP = Inr ''UDP''"
| "proto_str TCP = Inr ''TCP''"
| "proto_str TLS = Inr ''SSL''"
| "proto_str DPDK = Inr ''DPDK''"
| "proto_str (PROTO_OTHER n) = Inl Out_Of_Bounds"

fun msg_status_str :: "msg_status_t \<Rightarrow> string" where
  "msg_status_str SUCCESS = ''SUCCESS''"
| "msg_status_str TIMEOUT = ''TIMEOUT''"
| "msg_status_str ERR = ''ERROR''"

fun get_command_name :: "command_type_t \<Rightarrow> string res" where
  "get_command_name COMPUTE = Inr ''COMPUTE''"
| "get_command_name STORE = Inr ''STORE''"
| "get_command_name LOAD = Inr ''LOAD''"
| "get_command_name PSKIP = Inr ''SKIP''"
| "get_command_name FORWARD_BEGIN = Inr ''FORWARD_BEGIN''"
| "get_command_name FORWARD_CONTINUE = Inr ''FORWARD_CONTINUE''"
| "get_command_name REPLY = Inr ''REPLY''"
| "get_command_name EOM = Inr ''EOM''"
| "get_command_name (CMD_OTHER n) = Inl Exit_Failure"

text \<open>The option structures, and the sizes of the structures in bytes.\<close>

record fwd_opts_t =
  pkt_size :: nat
  fwd_host :: nat
  fwd_port :: nat
  timeout :: nat
  retries :: nat
  n_ack :: nat
  on_fail_skip :: nat
  branched :: nat
  proto :: nat

record load_opts_t =
  l_offset :: nat
  load_nbytes :: nat
  l_dev_id :: nat

record store_opts_t =
  s_offset :: nat
  store_nbytes :: nat
  wait_sync :: nat
  s_dev_id :: nat

record comp_opts_t =
  comp_time_us :: nat

record reply_opts_t =
  resp_size :: nat
  mode :: nat
  r_dev_id :: nat

definition BUF_SIZE :: nat where "BUF_SIZE = 16 * 1024 * 1024"

definition sizeof_message_t :: nat where "sizeof_message_t = 12"
definition sizeof_command_t :: nat where "sizeof_command_t = 4"
definition sizeof_fwd_opts_t :: nat where "sizeof_fwd_opts_t = 24"
definition sizeof_load_opts_t :: nat where "sizeof_load_opts_t = 24"
definition sizeof_store_opts_t :: nat where "sizeof_store_opts_t = 24"
definition sizeof_comp_opts_t :: nat where "sizeof_comp_opts_t = 4"
definition sizeof_reply_opts_t :: nat where "sizeof_reply_opts_t = 12"

lemmas sizeof_defs = sizeof_message_t_def sizeof_command_t_def sizeof_fwd_opts_t_def
  sizeof_load_opts_t_def sizeof_store_opts_t_def sizeof_comp_opts_t_def sizeof_reply_opts_t_def

definition get_fwd_opts :: "bytes \<Rightarrow> nat \<Rightarrow> fwd_opts_t res" where
  "get_fwd_opts b cmd =
     (let o0 = cmd + sizeof_command_t in
      rbind (rd 4 b o0) (\<lambda>ps. rbind (rd 4 b (o0 + 4)) (\<lambda>h. rbind (rd 2 b (o0 + 8)) (\<lambda>p.
      rbind (rd 4 b (o0 + 12)) (\<lambda>tmo. rbind (rd 1 b (o0 + 16)) (\<lambda>r. rbind (rd 1 b (o0 + 17)) (\<lambda>na.
      rbind (rd 1 b (o0 + 18)) (\<lambda>ofs. rbind (rd 1 b (o0 + 19)) (\<lambda>br. rbind (rd 4 b (o0 + 20)) (\<lambda>pr.
      Inr \<lparr>pkt_size = ps, fwd_host = h, fwd_port = p, timeout = tmo, retries = r, n_ack = na,
           on_fail_skip = ofs, branched = br, proto = pr\<rparr>))))))))))"

definition get_load_opts :: "bytes \<Rightarrow> nat \<Rightarrow> load_opts_t res" where
  "get_load_opts b cmd =
     (let o0 = cmd + sizeof_command_t in
      rbind (rd 8 b o0) (\<lambda>off. rbind (rd 8 b (o0 + 8)) (\<lambda>n. rbind (rd 1 b (o0 + 16)) (\<lambda>d.
      Inr \<lparr>l_offset = off, load_nbytes = n, l_dev_id = d\<rparr>))))"

definition get_store_opts :: "bytes \<Rightarrow> nat \<Rightarrow> store_opts_t res" where
  "get_store_opts b cmd =
     (let o0 = cmd + sizeof_command_t in
      rbind (rd 8 b o0) (\<lambda>off. rbind (rd 8 b (o0 + 8)) (\<lambda>n. rbind (rd 1 b (o0 + 16)) (\<lambda>w.
      rbind (rd 1 b (o0 + 17)) (\<lambda>d.
      Inr \<lparr>s_offset = off, store_nbytes = n, wait_sync = w, s_dev_id = d\<rparr>)))))"

definition get_comp_opts :: "bytes \<Rightarrow> nat \<Rightarrow> comp_opts_t res" where
  "get_comp_opts b cmd =
     rbind (rd 4 b (cmd + sizeof_command_t)) (\<lambda>us. Inr \<lparr>comp_time_us = us\<rparr>)"

definition get_reply_opts :: "bytes \<Rightarrow> nat \<Rightarrow> reply_opts_t res" where
  "get_reply_opts b cmd =
     (let o0 = cmd + sizeof_command_t in
      rbind (rd 4 b o0) (\<lambda>r. rbind (rd 4 b (o0 + 4)) (\<lambda>m. rbind (rd 1 b (o0 + 8)) (\<lambda>d.
      Inr \<lparr>resp_size = r, mode = m, r_dev_id = d\<rparr>))))"

definition get_cmd :: "bytes \<Rightarrow> nat \<Rightarrow> command_type_t res" where
  "get_cmd b cmd = rbind (rd 4 b cmd) (\<lambda>n. Inr (command_of_nat n))"

definition set_cmd :: "bytes \<Rightarrow> nat \<Rightarrow> command_type_t \<Rightarrow> bytes res" where
  "set_cmd b cmd t = wr 4 b cmd (nat_of_command t)"

definition get_req_id :: "bytes \<Rightarrow> nat \<Rightarrow> nat res" where
  "get_req_id b m = rd 4 b m"

definition set_req_id :: "bytes \<Rightarrow> nat \<Rightarrow> nat \<Rightarrow> bytes res" where
  "set_req_id b m v = wr 4 b m v"

definition get_req_size :: "bytes \<Rightarrow> nat \<Rightarrow> nat res" where
  "get_req_size b m = rd 4 b (m + 4)"

definition set_req_size :: "bytes \<Rightarrow> nat \<Rightarrow> nat \<Rightarrow> bytes res" where
  "set_req_size b m v = wr 4 b (m + 4) v"

definition get_status :: "bytes \<Rightarrow> nat \<Rightarrow> nat res" where
  "get_status b m = rd 4 b (m + 8)"

fun nat_of_status :: "msg_status_t \<Rightarrow> nat" where
  "nat_of_status SUCCESS = 0"
| "nat_of_status TIMEOUT = 1"
| "nat_of_status ERR = 2"

definition put_status :: "bytes \<Rightarrow> nat \<Rightarrow> nat \<Rightarrow> bytes res" where
  "put_status b m v = wr 4 b (m + 8) v"

definition message_first_cmd :: "nat \<Rightarrow> nat" where
  "message_first_cmd m = m + sizeof_message_t"

definition message_end :: "bytes \<Rightarrow> nat \<Rightarrow> nat res" where
  "message_end b m = rbind (get_req_size b m) (\<lambda>n. Inr (m + n))"

fun cmd_type_size :: "command_type_t \<Rightarrow> nat" where
  "cmd_type_size REPLY = sizeof_command_t + sizeof_reply_opts_t"
| "cmd_type_size FORWARD_BEGIN = sizeof_command_t + sizeof_fwd_opts_t"
| "cmd_type_size FORWARD_CONTINUE = sizeof_command_t + sizeof_fwd_opts_t"
| "cmd_type_size COMPUTE = sizeof_command_t + sizeof_comp_opts_t"
| "cmd_type_size LOAD = sizeof_command_t + sizeof_load_opts_t"
| "cmd_type_size STORE = sizeof_command_t + sizeof_store_opts_t"
| "cmd_type_size PSKIP = sizeof_command_t"
| "cmd_type_size EOM = sizeof_command_t"
| "cmd_type_size (CMD_OTHER n) = sizeof_command_t"

definition cmd_in_bounds :: "bytes \<Rightarrow> nat \<Rightarrow> nat \<Rightarrow> bool res" where
  "cmd_in_bounds b cmd msg_end =
     (if cmd + sizeof_command_t > msg_end then Inr False
      else rbind (get_cmd b cmd) (\<lambda>t. Inr (cmd + cmd_type_size t \<le> msg_end)))"

definition cmd_next :: "bytes \<Rightarrow> nat \<Rightarrow> nat res" where
  "cmd_next b cmd = rbind (get_cmd b cmd) (\<lambda>t. Inr (cmd + cmd_type_size t))"

definition cmd_bounded_next :: "bytes \<Rightarrow> nat \<Rightarrow> nat \<Rightarrow> nat option res" where
  "cmd_bounded_next b cmd msg_end =
     rbind (get_cmd b cmd) (\<lambda>t.
       let would_be_next = cmd + cmd_type_size t in
       rbind (cmd_in_bounds b would_be_next msg_end) (\<lambda>ok.
         Inr (if ok then Some would_be_next else None)))"

lemma cmd_type_size_ge: "4 \<le> cmd_type_size t"
  by (cases t) (simp_all add: sizeof_defs)

lemma cmd_bounded_next_Some:
  "cmd_bounded_next b cmd e = Inr (Some p) \<longleftrightarrow>
     (\<exists>t. get_cmd b cmd = Inr t \<and> p = cmd + cmd_type_size t \<and> cmd_in_bounds b p e = Inr True)"
  by (auto simp: cmd_bounded_next_def rbind_eq_Inr Let_def split: if_splits)

lemma cmd_in_bounds_True:
  "cmd_in_bounds b p e = Inr True \<longleftrightarrow>
     (\<exists>t. p + 4 \<le> e \<and> get_cmd b p = Inr t \<and> p + cmd_type_size t \<le> e)"
  by (auto simp: cmd_in_bounds_def rbind_eq_Inr sizeof_defs)

lemma cmd_bounded_next_progress:
  "cmd_bounded_next b cmd e = Inr (Some p) \<Longrightarrow> cmd + 4 \<le> p \<and> p + 4 \<le> e"
  using cmd_type_size_ge by (auto simp: cmd_bounded_next_Some cmd_in_bounds_True)

text \<open>
  \<^verbatim>\<open>cmd_bounded_skip\<close>: the inner \<^verbatim>\<open>do ... while\<close> loop is \<open>skip_context\<close>, the outer loop
  \<open>skip_contexts\<close>. Both end because the pointer only moves forward, and stays in bounds.
\<close>

function skip_context :: "bytes \<Rightarrow> nat \<Rightarrow> int \<Rightarrow> nat \<Rightarrow> nat option res" where
  "skip_context b cmd nested_fwd msg_end =
     rbind (cmd_bounded_next b cmd msg_end) (\<lambda>nx. case nx of
       None \<Rightarrow> Inr None
     | Some would_be_next \<Rightarrow>
         rbind (get_cmd b cmd) (\<lambda>t. rbind (get_cmd b would_be_next) (\<lambda>tn.
           let nested_fwd' =
             (if t = FORWARD_BEGIN then nested_fwd + 1
              else if t = FORWARD_CONTINUE then nested_fwd
              else if t = REPLY then (if tn \<noteq> FORWARD_CONTINUE then nested_fwd - 1 else nested_fwd)
              else nested_fwd)
           in if tn \<noteq> EOM \<and> nested_fwd' > 0
              then skip_context b would_be_next nested_fwd' msg_end
              else Inr (Some would_be_next))))"
  by pat_completeness auto
termination
  by (relation "measure (\<lambda>(b, cmd, n, e). e - cmd)") (auto dest: cmd_bounded_next_progress)

declare skip_context.simps [simp del]

function skip_contexts :: "bytes \<Rightarrow> nat \<Rightarrow> int \<Rightarrow> nat \<Rightarrow> nat option res" where
  "skip_contexts b cmd to_skip msg_end =
     rbind (get_cmd b cmd) (\<lambda>t.
       if t \<noteq> EOM \<and> to_skip > 0
       then rbind (skip_context b cmd 0 msg_end) (\<lambda>nx. case nx of
              None \<Rightarrow> Inr None
            | Some cmd' \<Rightarrow> skip_contexts b cmd' (to_skip - 1) msg_end)
       else Inr (if to_skip > 0 then None else Some cmd))"
  by pat_completeness auto
termination
  by (relation "measure (\<lambda>(b, cmd, n, e). nat n)") auto

declare skip_contexts.simps [simp del]

definition cmd_bounded_skip :: "bytes \<Rightarrow> nat option \<Rightarrow> int \<Rightarrow> nat \<Rightarrow> nat option res" where
  "cmd_bounded_skip b cmd to_skip msg_end =
     (case cmd of
        None \<Rightarrow> Inr None
      | Some c \<Rightarrow> rbind (cmd_in_bounds b c msg_end) (\<lambda>ok.
          if \<not> ok then Inr None else skip_contexts b c to_skip msg_end))"

lemma skip_context_progress:
  "skip_context b cmd n e = Inr (Some p) \<Longrightarrow> cmd + 4 \<le> p \<and> cmd_in_bounds b p e = Inr True"
proof (induction b cmd n e arbitrary: p rule: skip_context.induct)
  case (1 b cmd n e)
  from "1.prems" obtain q t tn where q: "cmd_bounded_next b cmd e = Inr (Some q)"
      "get_cmd b cmd = Inr t" "get_cmd b q = Inr tn"
    by (subst (asm) skip_context.simps) (auto simp: rbind_eq_Inr split: option.splits)
  note pq = cmd_bounded_next_progress [OF q(1)]
  have "q = p \<or> (\<exists>n'. skip_context b q n' e = Inr (Some p) \<and> cmd_in_bounds b p e = Inr True \<and> q + 4 \<le> p)"
    using "1.prems" "1.IH" [OF q(1) refl q(2,3) refl] q
    by (subst (asm) skip_context.simps) (auto simp: Let_def split: if_splits)
  with pq q(1) show ?case by (auto simp: cmd_bounded_next_Some)
qed

lemma cmd_bounded_skip_progress:
  assumes "cmd_bounded_skip b (Some c) 1 e = Inr (Some p)" "get_cmd b c = Inr t" "t \<noteq> EOM"
  shows "c + 4 \<le> p \<and> cmd_in_bounds b p e = Inr True"
proof -
  have "skip_contexts b c 1 e = Inr (Some p)"
    using assms(1) by (auto simp: cmd_bounded_skip_def rbind_eq_Inr split: if_splits)
  then obtain q where q: "skip_context b c 0 e = Inr (Some q)" "skip_contexts b q 0 e = Inr (Some p)"
    using assms(2,3) by (subst (asm) skip_contexts.simps) (auto simp: rbind_eq_Inr split: option.splits)
  from q(2) have "q = p" by (subst (asm) skip_contexts.simps) (auto simp: rbind_eq_Inr)
  with skip_context_progress [OF q(1)] show ?thesis by simp
qed

lemma cmd_bounded_skip_less:
  assumes "cmd_bounded_skip b (Some c) 1 e = Inr (Some p)" "get_cmd b c = Inr t" "t \<noteq> EOM"
  shows "c < p \<and> p < e"
  using cmd_bounded_skip_progress [OF assms] by (auto simp: cmd_in_bounds_True)

text \<open>The loop of \<^verbatim>\<open>cmd_bounded_next_forward\<close>; \<open>Inr None\<close> is both its early \<^verbatim>\<open>return NULL\<close> and its end with a null \<^verbatim>\<open>cmd\<close>,
  for which the function returns \<^verbatim>\<open>NULL\<close> too.\<close>

function next_forward_loop :: "bytes \<Rightarrow> nat option \<Rightarrow> nat \<Rightarrow> nat \<Rightarrow> nat option res" where
  "next_forward_loop b None br msg_end = Inr None"
| "next_forward_loop b (Some cmd) br msg_end =
     rbind (get_cmd b cmd) (\<lambda>t.
       if t = EOM \<or> t = FORWARD_CONTINUE then Inr (Some cmd)
       else if t = FORWARD_BEGIN then
         rbind (cmd_bounded_skip b (Some cmd) 1 msg_end) (\<lambda>nx.
           next_forward_loop b nx br msg_end)
       else
         rbind (cmd_bounded_next b cmd msg_end) (\<lambda>nx. case nx of
           None \<Rightarrow> Inr None
         | Some would_be_next \<Rightarrow>
             rbind (get_cmd b would_be_next) (\<lambda>tn.
               if t = REPLY \<and> (br = 0 \<or> tn \<noteq> FORWARD_CONTINUE) then Inr None
               else next_forward_loop b (Some would_be_next) br msg_end)))"
  by pat_completeness auto
termination
proof (relation "measure (\<lambda>(b, cmd, br, e). case cmd of None \<Rightarrow> 0 | Some c \<Rightarrow> Suc (e - c))", goal_cases)
  case 1
  then show ?case by simp
next
  case (2 b cmd br e t nx)
  then show ?case by (cases nx) (auto dest: cmd_bounded_skip_less)
next
  case (3 b cmd br e t x y tn)
  then show ?case using cmd_bounded_next_progress [of b cmd e y] by auto
qed

declare next_forward_loop.simps [simp del]

definition cmd_bounded_next_forward :: "bytes \<Rightarrow> nat option \<Rightarrow> nat \<Rightarrow> nat option res" where
  "cmd_bounded_next_forward b cmd msg_end =
     (case cmd of
        None \<Rightarrow> Inr None
      | Some c \<Rightarrow> rbind (cmd_in_bounds b c msg_end) (\<lambda>ok.
          if \<not> ok then Inr None
          else rbind (get_cmd b c) (\<lambda>t.
            if \<not> (t = FORWARD_CONTINUE \<or> t = FORWARD_BEGIN) then Inl Exit_Failure
            else rbind (get_fwd_opts b c) (\<lambda>fwd.
              rbind (cmd_bounded_next b c msg_end) (\<lambda>nx.
                rbind (next_forward_loop b nx (branched fwd) msg_end) (\<lambda>r. case r of
                  None \<Rightarrow> Inr None
                | Some p \<Rightarrow> rbind (cmd_in_bounds b p msg_end) (\<lambda>ok2. rbind (get_cmd b p) (\<lambda>tp.
                    Inr (if ok2 \<and> tp = FORWARD_CONTINUE then Some p else None)))))))))"

text \<open>
  The loop of \<^verbatim>\<open>message_copy_tail\<close> that looks for the matching \<^verbatim>\<open>REPLY\<close>, and the copy. The source
  message is \<open>m\<close> in the buffer \<open>b\<close>, the destination \<open>m_dst\<close> in the buffer \<open>d\<close> (the send buffer of
  another connection). The result is the matching \<^verbatim>\<open>REPLY\<close> and the destination buffer.
\<close>

function find_reply :: "bytes \<Rightarrow> nat option \<Rightarrow> nat \<Rightarrow> nat option res" where
  "find_reply b None msg_end = Inr None"
| "find_reply b (Some itr) msg_end =
     rbind (get_cmd b itr) (\<lambda>t.
       if t = EOM \<or> t = REPLY then Inr (Some itr)
       else rbind (cmd_bounded_skip b (Some itr) 1 msg_end) (\<lambda>nx. find_reply b nx msg_end))"
  by pat_completeness auto
termination
proof (relation "measure (\<lambda>(b, cmd, e). case cmd of None \<Rightarrow> 0 | Some c \<Rightarrow> Suc (e - c))", goal_cases)
  case 1
  then show ?case by simp
next
  case (2 b itr e t nx)
  then show ?case by (cases nx) (auto dest: cmd_bounded_skip_less)
qed

declare find_reply.simps [simp del]

definition message_copy_tail ::
    "bytes \<Rightarrow> nat \<Rightarrow> bytes \<Rightarrow> nat \<Rightarrow> nat option \<Rightarrow> (nat option \<times> bytes) res" where
  "message_copy_tail b m d m_dst cmd_opt =
     rbind (get_req_id b m) (\<lambda>rid.
     rbind (set_req_id d m_dst rid) (\<lambda>d1.
     rbind (message_end b m) (\<lambda>msg_end.
     rbind (find_reply b cmd_opt msg_end) (\<lambda>r. case (cmd_opt, r) of
       (Some cmd, Some itr) \<Rightarrow> rbind (cmd_in_bounds b itr msg_end) (\<lambda>ok.
         if \<not> ok then Inr (None, d1)
         else rbind (get_cmd b itr) (\<lambda>t.
           let cmds_len = itr + cmd_type_size t - cmd; dst_itr = message_first_cmd m_dst in
           rbind (get_req_size d1 m_dst) (\<lambda>avail.
             if avail < cmds_len + cmd_type_size EOM then Inr (None, d1)
             else rbind (slice b cmd cmds_len) (\<lambda>bs.
               rbind (blit d1 dst_itr bs) (\<lambda>d2.
               rbind (set_cmd d2 (dst_itr + cmds_len) EOM) (\<lambda>d3.
               rbind (set_req_size d3 m_dst (dst_itr + cmds_len + cmd_type_size EOM - m_dst)) (\<lambda>d4.
                 Inr (Some itr, d4))))))))
     | _ \<Rightarrow> Inr (None, d1)))))"

function msg_num_cmd_loop :: "bytes \<Rightarrow> nat \<Rightarrow> nat \<Rightarrow> nat \<Rightarrow> nat res" where
  "msg_num_cmd_loop b cmd msg_end n =
     rbind (cmd_in_bounds b cmd msg_end) (\<lambda>ok.
       if \<not> ok then Inr n
       else rbind (get_cmd b cmd) (\<lambda>t.
         if t = EOM then Inr n
         else rbind (cmd_next b cmd) (\<lambda>cmd'. msg_num_cmd_loop b cmd' msg_end (n + 1))))"
  by pat_completeness auto
termination
proof (relation "measure (\<lambda>(b, cmd, e, n). e - cmd)", goal_cases)
  case 1
  then show ?case by simp
next
  case (2 b cmd e n ok t cmd')
  moreover have "4 \<le> cmd_type_size t" by (rule cmd_type_size_ge)
  ultimately show ?case by (auto simp: cmd_in_bounds_True cmd_next_def)
qed

declare msg_num_cmd_loop.simps [simp del]

definition msg_num_cmd :: "bytes \<Rightarrow> nat \<Rightarrow> nat res" where
  "msg_num_cmd b m =
     rbind (message_end b m) (\<lambda>e. msg_num_cmd_loop b (message_first_cmd m) e 0)"

section \<open>Memory safety of the traversals\<close>

text \<open>
  In all of this section the message ends inside of the buffer (\<open>e \<le> length b\<close>), which is what
  the receiver has checked; its contents are arbitrary.
\<close>

lemma get_cmd_ok: "p + 4 \<le> length b \<Longrightarrow> \<exists>t. get_cmd b p = Inr t"
  by (simp add: get_cmd_def rd_ok)

lemma get_cmd_in_bounds: "get_cmd b p = Inr t \<Longrightarrow> p + 4 \<le> length b"
  by (auto simp: get_cmd_def rd_def rbind_eq_Inr slice_eq_Inr)

lemma cmd_in_bounds_total: "e \<le> length b \<Longrightarrow> \<exists>x. cmd_in_bounds b p e = Inr x"
  using get_cmd_ok [of p b] by (auto simp: cmd_in_bounds_def sizeof_defs)

lemma cmd_bounded_next_total:
  assumes "e \<le> length b" "p + 4 \<le> length b"
  shows "\<exists>x. cmd_bounded_next b p e = Inr x"
proof -
  obtain t where "get_cmd b p = Inr t" using get_cmd_ok assms(2) by blast
  moreover obtain x where "cmd_in_bounds b (p + cmd_type_size t) e = Inr x"
    using cmd_in_bounds_total assms(1) by blast
  ultimately show ?thesis by (simp add: cmd_bounded_next_def Let_def)
qed

lemma skip_context_total:
  "e \<le> length b \<Longrightarrow> cmd + 4 \<le> length b \<Longrightarrow> \<exists>x. skip_context b cmd n e = Inr x"
proof (induction b cmd n e rule: skip_context.induct)
  case (1 b cmd n e)
  obtain x where x: "cmd_bounded_next b cmd e = Inr x"
    using cmd_bounded_next_total "1.prems" by blast
  show ?case
  proof (cases x)
    case None
    then show ?thesis using x by (subst skip_context.simps) simp
  next
    case (Some q)
    then have "q + 4 \<le> length b" using x cmd_bounded_next_progress [of b cmd e q] "1.prems" by auto
    moreover obtain t tn where "get_cmd b cmd = Inr t" "get_cmd b q = Inr tn"
      using get_cmd_ok "1.prems"(2) calculation by blast
    ultimately show ?thesis using x Some "1.IH" "1.prems"(1)
      by (subst skip_context.simps) (simp add: Let_def)
  qed
qed

lemma skip_contexts_total:
  "e \<le> length b \<Longrightarrow> cmd_in_bounds b cmd e = Inr True \<Longrightarrow>
    \<exists>x. skip_contexts b cmd n e = Inr x \<and> (\<forall>p. x = Some p \<longrightarrow> cmd_in_bounds b p e = Inr True)"
proof (induction b cmd n e rule: skip_contexts.induct)
  case (1 b cmd n e)
  then obtain t where t: "get_cmd b cmd = Inr t" by (auto simp: cmd_in_bounds_True)
  obtain x where x: "skip_context b cmd 0 e = Inr x"
    using skip_context_total [OF "1.prems"(1)] get_cmd_in_bounds [OF t] by blast
  show ?case
  proof (cases "t \<noteq> EOM \<and> n > 0")
    case False
    then show ?thesis using t "1.prems" by (subst skip_contexts.simps) auto
  next
    case True
    with t x "1.IH" [OF t True x] "1.prems"(1) skip_context_progress [of b cmd 0 e] show ?thesis
      by (subst skip_contexts.simps) (auto split: option.splits)
  qed
qed

lemma cmd_bounded_skip_total:
  assumes "e \<le> length b"
  shows "\<exists>x. cmd_bounded_skip b c n e = Inr x \<and> (\<forall>p. x = Some p \<longrightarrow> cmd_in_bounds b p e = Inr True)"
proof (cases c)
  case None
  then show ?thesis by (simp add: cmd_bounded_skip_def)
next
  case (Some p)
  obtain x where "cmd_in_bounds b p e = Inr x" using cmd_in_bounds_total assms by blast
  then show ?thesis using Some skip_contexts_total [OF assms, of p n]
    by (cases x) (auto simp: cmd_bounded_skip_def)
qed

lemma next_forward_loop_total:
  "e \<le> length b \<Longrightarrow> (\<forall>p. c = Some p \<longrightarrow> cmd_in_bounds b p e = Inr True) \<Longrightarrow>
    \<exists>x. next_forward_loop b c br e = Inr x \<and> (\<forall>p. x = Some p \<longrightarrow> cmd_in_bounds b p e = Inr True)"
proof (induction b c br e rule: next_forward_loop.induct)
  case (1 b br e)
  then show ?case by (simp add: next_forward_loop.simps)
next
  case (2 b cmd br e)
  from "2.prems" obtain t where t: "get_cmd b cmd = Inr t" by (auto simp: cmd_in_bounds_True)
  obtain s where s: "cmd_bounded_skip b (Some cmd) 1 e = Inr s"
      "\<forall>p. s = Some p \<longrightarrow> cmd_in_bounds b p e = Inr True"
    using cmd_bounded_skip_total "2.prems" by blast
  obtain x where x: "cmd_bounded_next b cmd e = Inr x"
    using cmd_bounded_next_total "2.prems" get_cmd_in_bounds [OF t] by blast
  have x': "cmd_in_bounds b q e = Inr True \<and> (\<exists>tn. get_cmd b q = Inr tn)" if "x = Some q" for q
    using x that by (auto simp: cmd_bounded_next_Some cmd_in_bounds_True)
  show ?case
  proof (cases "t = EOM \<or> t = FORWARD_CONTINUE \<or> t = FORWARD_BEGIN")
    case True
    then show ?thesis using t s "2.IH"(1) [OF t] "2.prems"
      by (subst next_forward_loop.simps) auto
  next
    case False
    show ?thesis
    proof (cases x)
      case None
      then show ?thesis using False t x by (subst next_forward_loop.simps) simp
    next
      case (Some q)
      then obtain tn where tn: "get_cmd b q = Inr tn" "cmd_in_bounds b q e = Inr True"
        using x' by blast
      show ?thesis
      proof (cases "t = REPLY \<and> (br = 0 \<or> tn \<noteq> FORWARD_CONTINUE)")
        case True
        then show ?thesis using False t x Some tn by (subst next_forward_loop.simps) simp
      next
        case stay: False
        then have "next_forward_loop b (Some cmd) br e = next_forward_loop b (Some q) br e"
          using False t x Some tn by (subst next_forward_loop.simps) auto
        then show ?thesis using "2.IH"(2) [OF t _ _ x Some tn(1) stay] False "2.prems"(1) tn(2) by simp
      qed
    qed
  qed
qed

lemma get_fwd_opts_ok: "c + 28 \<le> length b \<Longrightarrow> \<exists>f. get_fwd_opts b c = Inr f"
  by (simp add: get_fwd_opts_def Let_def sizeof_defs rd_ok)

lemma cmd_bounded_next_forward_total:
  assumes "e \<le> length b"
  shows "(\<exists>x. cmd_bounded_next_forward b c e = Inr x \<and>
      (\<forall>p. x = Some p \<longrightarrow> cmd_in_bounds b p e = Inr True \<and> get_cmd b p = Inr FORWARD_CONTINUE)) \<or>
    (cmd_bounded_next_forward b c e = Inl Exit_Failure \<and>
      (\<exists>q t. c = Some q \<and> get_cmd b q = Inr t \<and> t \<noteq> FORWARD_BEGIN \<and> t \<noteq> FORWARD_CONTINUE))"
proof (cases c)
  case None
  then show ?thesis by (simp add: cmd_bounded_next_forward_def)
next
  case (Some q)
  obtain ok where ok: "cmd_in_bounds b q e = Inr ok" using cmd_in_bounds_total assms by blast
  show ?thesis
  proof (cases ok)
    case False
    then show ?thesis using Some ok by (simp add: cmd_bounded_next_forward_def)
  next
    case True
    then obtain t where t: "get_cmd b q = Inr t" "q + cmd_type_size t \<le> e"
      using ok by (auto simp: cmd_in_bounds_True)
    show ?thesis
    proof (cases "t = FORWARD_CONTINUE \<or> t = FORWARD_BEGIN")
      case False
      then show ?thesis using Some ok True t by (simp add: cmd_bounded_next_forward_def)
    next
      case fwd: True
      then obtain f where f: "get_fwd_opts b q = Inr f"
        using t(2) get_fwd_opts_ok [of q b] assms by (auto simp: sizeof_defs)
      obtain x where x: "cmd_bounded_next b q e = Inr x"
        using cmd_bounded_next_total assms get_cmd_in_bounds [OF t(1)] by blast
      then have "\<forall>p. x = Some p \<longrightarrow> cmd_in_bounds b p e = Inr True"
        by (auto simp: cmd_bounded_next_Some)
      then obtain y where y: "next_forward_loop b x (branched f) e = Inr y"
          "\<forall>p. y = Some p \<longrightarrow> cmd_in_bounds b p e = Inr True"
        using next_forward_loop_total [OF assms] by blast
      then show ?thesis
      proof (cases y)
        case None
        then show ?thesis using Some ok True t fwd f x y by (simp add: cmd_bounded_next_forward_def)
      next
        case (Some p)
        then obtain tp where "get_cmd b p = Inr tp" using y(2) by (auto simp: cmd_in_bounds_True)
        then show ?thesis using \<open>c = Some q\<close> Some ok True t fwd f x y
          by (simp add: cmd_bounded_next_forward_def)
      qed
    qed
  qed
qed

lemma find_reply_total:
  "e \<le> length b \<Longrightarrow> (\<forall>p. c = Some p \<longrightarrow> cmd_in_bounds b p e = Inr True) \<Longrightarrow>
    \<exists>x. find_reply b c e = Inr x \<and> (\<forall>p. x = Some p \<longrightarrow> cmd_in_bounds b p e = Inr True \<and>
      (get_cmd b p = Inr EOM \<or> get_cmd b p = Inr REPLY) \<and> the c \<le> p)"
proof (induction b c e rule: find_reply.induct)
  case (1 b e)
  then show ?case by (simp add: find_reply.simps)
next
  case (2 b cmd e)
  from "2.prems" obtain t where t: "get_cmd b cmd = Inr t" by (auto simp: cmd_in_bounds_True)
  show ?case
  proof (cases "t = EOM \<or> t = REPLY")
    case True
    then show ?thesis using t "2.prems" by (subst find_reply.simps) auto
  next
    case False
    obtain s where s: "cmd_bounded_skip b (Some cmd) 1 e = Inr s"
        "\<forall>p. s = Some p \<longrightarrow> cmd_in_bounds b p e = Inr True"
      using cmd_bounded_skip_total "2.prems" by blast
    have "find_reply b (Some cmd) e = find_reply b s e"
      using False t s by (subst find_reply.simps) simp
    moreover have "\<forall>p. s = Some p \<longrightarrow> cmd \<le> p"
      using cmd_bounded_skip_less [of b cmd e _ t] s t False by auto
    ultimately show ?thesis using "2.IH" [OF t False s(1) "2.prems"(1) s(2)]
      by (cases s) (auto simp: find_reply.simps)
  qed
qed

section \<open>Contexts\<close>

text \<open>
  The contexts that the comments of the code speak of: a simple operation, or a forward. A forward is
  a \<^verbatim>\<open>FORWARD_BEGIN\<close> followed by \<open>n\<close> further destinations of the same body (\<^verbatim>\<open>FORWARD_CONTINUE\<close>),
  the body and its \<^verbatim>\<open>REPLY\<close>, and then by the other branches, each with a body and a \<^verbatim>\<open>REPLY\<close>
  of its own.
\<close>

datatype ctx = Op command_type_t | Fwd nat "ctx list" "ctx list list"

fun ctx_cmds :: "ctx \<Rightarrow> command_type_t list" where
  "ctx_cmds (Op t) = [t]"
| "ctx_cmds (Fwd n body rest) =
     FORWARD_BEGIN # replicate n FORWARD_CONTINUE @ concat (map ctx_cmds body) @
       REPLY # concat (map (\<lambda>br. FORWARD_CONTINUE # concat (map ctx_cmds br) @ [REPLY]) rest)"

fun ctx_wf :: "ctx \<Rightarrow> bool" where
  "ctx_wf (Op t) \<longleftrightarrow> t \<notin> {FORWARD_BEGIN, FORWARD_CONTINUE, REPLY, EOM}"
| "ctx_wf (Fwd n body rest) \<longleftrightarrow> list_all ctx_wf body \<and> list_all (list_all ctx_wf) rest"

definition cmds_len :: "command_type_t list \<Rightarrow> nat" where
  "cmds_len ts = sum_list (map cmd_type_size ts)"

text \<open>\<open>cmds_at b e p ts\<close>: at \<open>p\<close> the buffer holds commands of the types \<open>ts\<close>, all within bounds.\<close>

fun cmds_at :: "bytes \<Rightarrow> nat \<Rightarrow> nat \<Rightarrow> command_type_t list \<Rightarrow> bool" where
  "cmds_at b e p [] \<longleftrightarrow> True"
| "cmds_at b e p (t # ts) \<longleftrightarrow>
     cmd_in_bounds b p e = Inr True \<and> get_cmd b p = Inr t \<and> cmds_at b e (p + cmd_type_size t) ts"

lemma cmds_len_simps [simp]:
  "cmds_len [] = 0" "cmds_len (t # ts) = cmd_type_size t + cmds_len ts"
  "cmds_len (ts @ us) = cmds_len ts + cmds_len us"
  by (simp_all add: cmds_len_def)

lemma cmds_at_append [simp]:
  "cmds_at b e p (ts @ us) \<longleftrightarrow> cmds_at b e p ts \<and> cmds_at b e (p + cmds_len ts) us"
  by (induction ts arbitrary: p) (auto simp: add.assoc)

lemma ctx_cmds_hd:
  "ctx_wf c \<Longrightarrow> \<exists>t ts. ctx_cmds c = t # ts \<and> t \<notin> {FORWARD_CONTINUE, REPLY, EOM}"
  by (cases c) auto

abbreviation nest_after :: "command_type_t \<Rightarrow> command_type_t \<Rightarrow> int \<Rightarrow> int" where
  "nest_after t tn k \<equiv> (if t = FORWARD_BEGIN then k + 1
     else if t = REPLY \<and> tn \<noteq> FORWARD_CONTINUE then k - 1 else k)"

text \<open>
  Both the traversal of a message and that of the client's chain of commands pass a context by counting the open forwards. Their
  common contract: positions \<open>'p\<close> from which commands can be read (\<open>at\<close>) and that are advanced over commands
  (\<open>adv\<close>), a skipping function whose step counts by \<open>nest_after\<close>, and its result \<open>found\<close>.
\<close>

definition passes ::
    "('p \<Rightarrow> command_type_t list \<Rightarrow> bool) \<Rightarrow> ('p \<Rightarrow> command_type_t list \<Rightarrow> 'p) \<Rightarrow> ('p \<Rightarrow> int \<Rightarrow> 'r) \<Rightarrow> command_type_t list \<Rightarrow> bool" where
  "passes at adv skip ts \<longleftrightarrow> (\<forall>p k tn. at p (ts @ [tn]) \<longrightarrow> tn \<notin> {FORWARD_CONTINUE, EOM} \<longrightarrow> 0 < k \<longrightarrow>
     skip p k = skip (adv p ts) k)"

lemma passesD:
  "passes at adv skip ts \<Longrightarrow> at p (ts @ [tn]) \<Longrightarrow> tn \<notin> {FORWARD_CONTINUE, EOM} \<Longrightarrow> 0 < k \<Longrightarrow> skip p k = skip (adv p ts) k"
  by (auto simp: passes_def)

abbreviation branch_cmds :: "ctx list \<Rightarrow> command_type_t list" where
  "branch_cmds br \<equiv> FORWARD_CONTINUE # concat (map ctx_cmds br) @ [REPLY]"

lemma ctxs_hd:
  assumes "list_all ctx_wf cs" "tn \<notin> {FORWARD_CONTINUE, EOM}"
  shows "\<exists>u us. concat (map ctx_cmds cs) @ [tn] = u # us \<and> u \<notin> {FORWARD_CONTINUE, EOM}"
proof (cases cs)
  case Nil
  then show ?thesis using assms by simp
next
  case (Cons d ds)
  then show ?thesis using assms ctx_cmds_hd [of d] by fastforce
qed

locale ctx_walk =
  fixes at :: "'p \<Rightarrow> command_type_t list \<Rightarrow> bool"
    and adv :: "'p \<Rightarrow> command_type_t list \<Rightarrow> 'p"
    and skip :: "'p \<Rightarrow> int \<Rightarrow> 'r"
    and found :: "'p \<Rightarrow> 'r"
  assumes at_append: "at p (ts @ us) \<longleftrightarrow> at p ts \<and> at (adv p ts) us"
    and adv_append: "adv p (ts @ us) = adv (adv p ts) us"
    and adv_Nil: "adv p [] = p"
    and step: "at p [t, tn] \<Longrightarrow> (t = REPLY \<Longrightarrow> 0 < k) \<Longrightarrow>
      skip p k = (if tn \<noteq> EOM \<and> nest_after t tn k > 0 then skip (adv p [t]) (nest_after t tn k) else found (adv p [t]))"
begin

lemma at_Cons: "ts \<noteq> [] \<Longrightarrow> at p (t # ts) \<longleftrightarrow> at p [t] \<and> at (adv p [t]) ts"
  using at_append [of p "[t]" ts] by simp

lemma adv_Cons: "adv p (t # ts) = adv (adv p [t]) ts"
  using adv_append [of p "[t]" ts] by simp

lemma passes_ctxs:
  assumes "list_all ctx_wf cs" "\<And>c. c \<in> set cs \<Longrightarrow> passes at adv skip (ctx_cmds c)"
  shows "passes at adv skip (concat (map ctx_cmds cs))"
  using assms
proof (induction cs)
  case Nil
  then show ?case by (simp add: passes_def adv_Nil)
next
  case (Cons c cs)
  have IH: "passes at adv skip (concat (map ctx_cmds cs))" using Cons by simp
  show ?case unfolding passes_def
  proof (intro allI impI)
    fix p tn and k :: int
    assume at: "at p (concat (map ctx_cmds (c # cs)) @ [tn])" and tn: "tn \<notin> {FORWARD_CONTINUE, EOM}" and k: "0 < k"
    obtain u us where u: "concat (map ctx_cmds cs) @ [tn] = u # us" "u \<notin> {FORWARD_CONTINUE, EOM}"
      using ctxs_hd [of cs tn] Cons.prems(1) tn by auto
    have tail: "at p (ctx_cmds c)" "at (adv p (ctx_cmds c)) (concat (map ctx_cmds cs) @ [tn])"
      using at by (simp_all add: at_append adv_append)
    then have "at p (ctx_cmds c @ [u])" unfolding u(1) by (metis at_append at_Cons)
    then have "skip p k = skip (adv p (ctx_cmds c)) k" using passesD [OF Cons.prems(2)] u(2) k by simp
    also have "\<dots> = skip (adv (adv p (ctx_cmds c)) (concat (map ctx_cmds cs))) k" using passesD [OF IH tail(2) tn k] .
    finally show "skip p k = skip (adv p (concat (map ctx_cmds (c # cs)))) k" by (simp add: adv_append)
  qed
qed

lemma walk_continues:
  assumes "at p (replicate n FORWARD_CONTINUE @ [tn])" "tn \<noteq> EOM" "0 < k"
  shows "skip p k = skip (adv p (replicate n FORWARD_CONTINUE)) k"
  using assms(1)
proof (induction n arbitrary: p)
  case 0
  then show ?case by (simp add: adv_Nil)
next
  case (Suc n)
  obtain u us where u: "replicate n FORWARD_CONTINUE @ [tn] = u # us" "u \<noteq> EOM"
    using assms(2) by (cases n) auto
  have at: "at p [FORWARD_CONTINUE]" "at (adv p [FORWARD_CONTINUE]) (replicate n FORWARD_CONTINUE @ [tn])"
    using Suc.prems by (simp_all add: at_Cons)
  then have "at p [FORWARD_CONTINUE, u]" unfolding u(1) by (metis at_Cons list.distinct(1))
  then have "skip p k = skip (adv p [FORWARD_CONTINUE]) k" using step [of p FORWARD_CONTINUE u k] u(2) assms(3) by simp
  also have "\<dots> = skip (adv (adv p [FORWARD_CONTINUE]) (replicate n FORWARD_CONTINUE)) k"
    using at(2) by (rule Suc.IH)
  finally show ?case by (simp add: adv_Cons [of p FORWARD_CONTINUE "replicate n FORWARD_CONTINUE"])
qed

text \<open>From the \<^verbatim>\<open>REPLY\<close> of a branch, all the later branches are passed, and one level is left.\<close>

lemma walk_branches:
  assumes "\<And>br. br \<in> set rest \<Longrightarrow> passes at adv skip (concat (map ctx_cmds br))"
    "list_all (list_all ctx_wf) rest"
    "at p (REPLY # concat (map branch_cmds rest) @ [tn])" "tn \<noteq> FORWARD_CONTINUE" "0 < k"
  shows "skip p k =
    (let q = adv p (REPLY # concat (map branch_cmds rest)) in
     if tn \<noteq> EOM \<and> 0 < k - 1 then skip q (k - 1) else found q)"
  using assms(1-3)
proof (induction rest arbitrary: p)
  case Nil
  then have "at p [REPLY, tn]" by simp
  from step [OF this, of k] assms(4,5) show ?case by (simp add: Let_def)
next
  case (Cons br rest)
  let ?body = "concat (map ctx_cmds br)"
  let ?p1 = "adv p [REPLY]" let ?p2 = "adv ?p1 [FORWARD_CONTINUE]" let ?p3 = "adv ?p2 ?body"
  have at: "at p [REPLY]" "at ?p1 [FORWARD_CONTINUE]" "at ?p2 ?body" "at ?p3 (REPLY # concat (map branch_cmds rest) @ [tn])"
    using Cons.prems(3)
    by (simp_all add: at_append at_Cons)
  then have at3: "at ?p2 (?body @ [REPLY])" by (simp add: at_append at_Cons)
  obtain u us where u: "?body @ [REPLY] = u # us" "u \<notin> {FORWARD_CONTINUE, EOM}"
    using ctxs_hd [of br REPLY] Cons.prems(2) by auto
  have at2: "at ?p1 [FORWARD_CONTINUE, u]" "at p [REPLY, FORWARD_CONTINUE]"
    using at at3 at_Cons [of us ?p2 u] unfolding u(1) by (cases us; simp add: at_Cons)+
  have "skip p k = skip ?p1 k" using step [OF at2(2), of k] assms(5) by simp
  also have "\<dots> = skip ?p2 k" using step [OF at2(1), of k] u(2) assms(5) by simp
  also have "\<dots> = skip ?p3 k" using passesD [OF Cons.prems(1) at3] assms(5) by simp
  also have "\<dots> = (let q = adv ?p3 (REPLY # concat (map branch_cmds rest)) in
     if tn \<noteq> EOM \<and> 0 < k - 1 then skip q (k - 1) else found q)"
    using Cons.prems at(4) by (intro Cons.IH) auto
  also have "adv ?p3 (REPLY # concat (map branch_cmds rest)) = adv p (REPLY # concat (map branch_cmds (br # rest)))"
    using adv_append [of p "REPLY # FORWARD_CONTINUE # ?body" "REPLY # concat (map branch_cmds rest)"]
      adv_Cons [of p REPLY "FORWARD_CONTINUE # ?body"] adv_Cons [of ?p1 FORWARD_CONTINUE ?body] by simp
  finally show ?case by (simp add: Let_def)
qed

lemma walk_forward:
  assumes "passes at adv skip (concat (map ctx_cmds body))"
    "\<And>br. br \<in> set rest \<Longrightarrow> passes at adv skip (concat (map ctx_cmds br))"
    "ctx_wf (Fwd n body rest)" "at p (ctx_cmds (Fwd n body rest) @ [tn])"
    "tn \<noteq> FORWARD_CONTINUE" "0 \<le> k"
  shows "skip p k =
    (let q = adv p (ctx_cmds (Fwd n body rest)) in if tn \<noteq> EOM \<and> 0 < k then skip q k else found q)"
proof -
  let ?fc = "replicate n FORWARD_CONTINUE" and ?body = "concat (map ctx_cmds body)"
  let ?p1 = "adv p [FORWARD_BEGIN]" let ?p2 = "adv ?p1 ?fc" let ?p3 = "adv ?p2 ?body"
  have at: "at p [FORWARD_BEGIN]" "at ?p1 ?fc" "at ?p2 ?body" "at ?p3 (REPLY # concat (map branch_cmds rest) @ [tn])"
    using assms(4) by (simp_all add: at_append at_Cons)
  then have at3: "at ?p2 (?body @ [REPLY])" by (simp add: at_append at_Cons)
  obtain u us where u: "?body @ [REPLY] = u # us" "u \<notin> {FORWARD_CONTINUE, EOM}"
    using ctxs_hd [of body REPLY] assms(3) by auto
  have "at ?p2 [u]" using at3 at_Cons [of us ?p2 u] unfolding u(1) by (cases us) auto
  then have at2: "at ?p1 (?fc @ [u])" using at(2) by (simp add: at_append)
  have "\<exists>v. at p [FORWARD_BEGIN, v] \<and> v \<noteq> EOM"
  proof (cases n)
    case 0
    then have "at ?p1 [u]" using at2 by simp
    then show ?thesis using at(1) u(2) by (intro exI [of _ u]) (simp add: at_Cons)
  next
    case (Suc j)
    then have "at ?p1 [FORWARD_CONTINUE]" using at2 by (simp add: at_Cons)
    then show ?thesis using at(1) by (intro exI [of _ FORWARD_CONTINUE]) (simp add: at_Cons)
  qed
  then obtain v where v: "at p [FORWARD_BEGIN, v]" "v \<noteq> EOM" by blast
  have "skip p k = skip ?p1 (k + 1)" using step [OF v(1), of k] v(2) assms(6) by simp
  also have "\<dots> = skip ?p2 (k + 1)" using walk_continues [OF at2, of "k + 1"] u(2) assms(6) by simp
  also have "\<dots> = skip ?p3 (k + 1)" using passesD [OF assms(1) at3] assms(6) by simp
  also have "\<dots> = (let q = adv ?p3 (REPLY # concat (map branch_cmds rest)) in
     if tn \<noteq> EOM \<and> 0 < k then skip q k else found q)"
    using walk_branches [OF assms(2) _ at(4) assms(5), of "k + 1"] assms(3,6) by (simp add: Let_def)
  also have "adv ?p3 (REPLY # concat (map branch_cmds rest)) = adv p (ctx_cmds (Fwd n body rest))"
    using adv_append [of p "FORWARD_BEGIN # ?fc @ ?body" "REPLY # concat (map branch_cmds rest)"]
      adv_Cons [of p FORWARD_BEGIN "?fc @ ?body"] by (simp add: adv_append)
  finally show ?thesis by (simp add: Let_def)
qed

lemma passes_ctx: "ctx_wf c \<Longrightarrow> passes at adv skip (ctx_cmds c)"
proof (induction c)
  case (Op t)
  then show ?case by (auto simp: passes_def step)
next
  case (Fwd n body rest)
  have body: "passes at adv skip (concat (map ctx_cmds body))"
    using Fwd by (intro passes_ctxs) (auto simp: list_all_iff)
  have rest: "passes at adv skip (concat (map ctx_cmds br))" if "br \<in> set rest" for br
    using Fwd that by (intro passes_ctxs) (auto simp: list_all_iff)
  show ?case unfolding passes_def
    using walk_forward [OF body rest Fwd.prems] by (auto simp: Let_def simp del: ctx_cmds.simps)
qed

lemma walk_ctx:
  assumes "ctx_wf c" "at p (ctx_cmds c @ [tn])" "tn \<noteq> FORWARD_CONTINUE"
  shows "skip p 0 = found (adv p (ctx_cmds c))"
proof (cases c)
  case (Op t)
  then show ?thesis using assms step [of p t tn 0] by auto
next
  case (Fwd n body rest)
  have "passes at adv skip (concat (map ctx_cmds cs))" if "list_all ctx_wf cs" for cs
    using that by (intro passes_ctxs) (auto simp: list_all_iff passes_ctx)
  then show ?thesis using walk_forward [of body rest n p tn 0] assms Fwd
    by (simp add: list_all_iff Let_def del: ctx_cmds.simps)
qed

end

lemma skip_context_step:
  assumes "cmds_at b e p [t, tn]"
  shows "skip_context b p k e =
    (if tn \<noteq> EOM \<and> nest_after t tn k > 0
     then skip_context b (p + cmd_type_size t) (nest_after t tn k) e
     else Inr (Some (p + cmd_type_size t)))"
proof -
  have "cmd_bounded_next b p e = Inr (Some (p + cmd_type_size t))"
    using assms by (simp add: cmd_bounded_next_Some)
  then show ?thesis using assms by (subst skip_context.simps) (simp add: Let_def)
qed

interpretation msg: ctx_walk "cmds_at b e" "\<lambda>p ts. p + cmds_len ts" "\<lambda>p k. skip_context b p k e" "\<lambda>q. Inr (Some q)"
  for b e
  by unfold_locales (auto simp: skip_context_step simp del: cmds_at.simps)

lemma skip_context_ctx:
  assumes "ctx_wf c" "cmds_at b e p (ctx_cmds c @ [tn])" "tn \<noteq> FORWARD_CONTINUE"
  shows "skip_context b p 0 e = Inr (Some (p + cmds_len (ctx_cmds c)))"
  using msg.walk_ctx [OF assms] .

lemma ctx_list_hd:
  assumes "list_all ctx_wf cs" "tn \<noteq> FORWARD_CONTINUE"
  shows "\<exists>u us. concat (map ctx_cmds cs) @ tn # ts = u # us \<and> u \<noteq> FORWARD_CONTINUE \<and> (cs \<noteq> [] \<longrightarrow> u \<noteq> EOM)"
proof (cases cs)
  case Nil
  then show ?thesis using assms by simp
next
  case (Cons d ds)
  then show ?thesis using ctx_cmds_hd [of d] assms by fastforce
qed

text \<open>The first context of a list of contexts is skipped by \<open>skip_context\<close>.\<close>

lemma skip_context_first:
  assumes "list_all ctx_wf (c # cs)" "cmds_at b e p (concat (map ctx_cmds (c # cs)) @ tn # ts)"
    "tn \<noteq> FORWARD_CONTINUE"
  shows "skip_context b p 0 e = Inr (Some (p + cmds_len (ctx_cmds c)))"
proof -
  obtain u us where u: "concat (map ctx_cmds cs) @ tn # ts = u # us" "u \<noteq> FORWARD_CONTINUE"
    using ctx_list_hd [of cs tn ts] assms(1,3) by auto
  have "cmds_at b e p (ctx_cmds c @ (concat (map ctx_cmds cs) @ tn # ts))"
    using assms(2) by (simp add: add.assoc)
  then have "cmds_at b e p (ctx_cmds c @ [u])" unfolding u(1) by simp
  then show ?thesis using skip_context_ctx [of c b e p u] assms(1) u(2) by simp
qed

lemma skip_contexts_ctxs:
  assumes "list_all ctx_wf cs" "cmds_at b e p (concat (map ctx_cmds cs) @ tn # ts)"
    "tn \<noteq> FORWARD_CONTINUE"
  shows "skip_contexts b p (int (length cs)) e = Inr (Some (p + cmds_len (concat (map ctx_cmds cs))))"
  using assms(1,2)
proof (induction cs arbitrary: p)
  case Nil
  then show ?case by (subst skip_contexts.simps) simp
next
  case (Cons c cs)
  let ?q = "p + cmds_len (ctx_cmds c)"
  have q: "skip_context b p 0 e = Inr (Some ?q)"
    using skip_context_first [OF Cons.prems assms(3)] .
  have IH: "skip_contexts b ?q (int (length cs)) e =
      Inr (Some (?q + cmds_len (concat (map ctx_cmds cs))))"
    using Cons.prems by (intro Cons.IH) (simp_all add: add.assoc)
  obtain t where "get_cmd b p = Inr t" "t \<noteq> EOM"
    using ctx_cmds_hd [of c] Cons.prems by auto
  then show ?case using q IH by (subst skip_contexts.simps) (simp add: add.assoc)
qed

lemma cmds_at_in_bounds: "cmds_at b e p (t # ts) \<Longrightarrow> cmd_in_bounds b p e = Inr True"
  by simp

lemma cmd_bounded_skip_ctxs:
  assumes "list_all ctx_wf cs" "cmds_at b e p (concat (map ctx_cmds cs) @ tn # ts)"
    "tn \<noteq> FORWARD_CONTINUE"
  shows "cmd_bounded_skip b (Some p) (int (length cs)) e =
    Inr (Some (p + cmds_len (concat (map ctx_cmds cs))))"
proof -
  obtain u us where "concat (map ctx_cmds cs) @ tn # ts = u # us"
    using ctx_list_hd [OF assms(1,3)] by blast
  then have "cmd_in_bounds b p e = Inr True" using assms(2) by (metis cmds_at_in_bounds)
  then show ?thesis using skip_contexts_ctxs [OF assms] by (simp add: cmd_bounded_skip_def)
qed

lemma cmd_bounded_skip_first:
  assumes "list_all ctx_wf (c # cs)" "cmds_at b e p (concat (map ctx_cmds (c # cs)) @ tn # ts)"
    "tn \<noteq> FORWARD_CONTINUE"
  shows "cmd_bounded_skip b (Some p) 1 e = Inr (Some (p + cmds_len (ctx_cmds c)))"
proof -
  obtain u us where u: "concat (map ctx_cmds cs) @ tn # ts = u # us" "u \<noteq> FORWARD_CONTINUE"
    using ctx_list_hd [of cs tn ts] assms(1,3) by auto
  have "concat (map ctx_cmds (c # cs)) @ tn # ts = concat (map ctx_cmds [c]) @ u # us"
    using u(1) by simp
  then have "cmds_at b e p (concat (map ctx_cmds [c]) @ u # us)" using assms(2) by (rule subst)
  then show ?thesis using cmd_bounded_skip_ctxs [of "[c]" b e p u us] assms(1) u(2) by simp
qed

text \<open>The search for the next branch passes the contexts of a body.\<close>

lemma next_forward_body:
  assumes "list_all ctx_wf cs" "cmds_at b e p (concat (map ctx_cmds cs) @ REPLY # ts)"
  shows "next_forward_loop b (Some p) br e =
    next_forward_loop b (Some (p + cmds_len (concat (map ctx_cmds cs)))) br e"
  using assms
proof (induction cs arbitrary: p)
  case Nil
  then show ?case by simp
next
  case (Cons c cs)
  let ?q = "p + cmds_len (ctx_cmds c)"
  have skip: "cmd_bounded_skip b (Some p) 1 e = Inr (Some ?q)"
    using cmd_bounded_skip_first [OF Cons.prems] by simp
  have "next_forward_loop b (Some p) br e = next_forward_loop b (Some ?q) br e"
  proof (cases c)
    case (Fwd n body rest)
    then have "get_cmd b p = Inr FORWARD_BEGIN" using Cons.prems by simp
    then show ?thesis using skip by (subst next_forward_loop.simps) simp
  next
    case (Op t)
    obtain u us where u: "concat (map ctx_cmds cs) @ REPLY # ts = u # us" "u \<noteq> FORWARD_CONTINUE"
      using ctx_list_hd [of cs REPLY ts] Cons.prems by auto
    have "cmds_at b e p (t # (concat (map ctx_cmds cs) @ REPLY # ts))" using Cons.prems(2) Op by simp
    then have at: "cmds_at b e p [t, u]" unfolding u(1) by simp
    then have "cmd_bounded_next b p e = Inr (Some ?q)"
      using Op by (simp add: cmd_bounded_next_Some)
    then show ?thesis using at Op Cons.prems(1)
      by (subst next_forward_loop.simps) auto
  qed
  also have "\<dots> = next_forward_loop b (Some (?q + cmds_len (concat (map ctx_cmds cs)))) br e"
    using Cons.prems by (intro Cons.IH) (simp_all add: add.assoc)
  finally show ?case by (simp add: add.assoc)
qed

lemma next_forward_at_reply:
  assumes "cmds_at b e p [REPLY, tn]"
  shows "next_forward_loop b (Some p) br e =
    (if br \<noteq> 0 \<and> tn = FORWARD_CONTINUE then Inr (Some (p + cmd_type_size REPLY)) else Inr None)"
proof -
  have "cmd_bounded_next b p e = Inr (Some (p + cmd_type_size REPLY))"
    using assms by (simp add: cmd_bounded_next_Some)
  then show ?thesis using assms
    by (subst next_forward_loop.simps) (auto simp: next_forward_loop.simps)
qed

lemma find_reply_ctxs:
  assumes "list_all ctx_wf cs" "cmds_at b e p (concat (map ctx_cmds cs) @ REPLY # ts)"
  shows "find_reply b (Some p) e = Inr (Some (p + cmds_len (concat (map ctx_cmds cs))))"
  using assms
proof (induction cs arbitrary: p)
  case Nil
  then show ?case by (simp add: find_reply.simps)
next
  case (Cons c cs)
  let ?q = "p + cmds_len (ctx_cmds c)"
  have "cmd_bounded_skip b (Some p) 1 e = Inr (Some ?q)"
    using cmd_bounded_skip_first [OF Cons.prems] by simp
  moreover obtain t where "get_cmd b p = Inr t" "t \<noteq> EOM" "t \<noteq> REPLY"
    using ctx_cmds_hd [of c] Cons.prems by auto
  ultimately have "find_reply b (Some p) e = find_reply b (Some ?q) e"
    by (subst find_reply.simps) simp
  also have "\<dots> = Inr (Some (?q + cmds_len (concat (map ctx_cmds cs))))"
    using Cons.prems by (intro Cons.IH) (simp_all add: add.assoc)
  finally show ?case by (simp add: add.assoc)
qed

section \<open>Encoded messages\<close>

text \<open>
  The image of a list of commands, each with the bytes of its options, as the client lays them out;
  the traversals read back what was encoded.
\<close>

fun enc_cmds :: "(command_type_t \<times> bytes) list \<Rightarrow> bytes" where
  "enc_cmds [] = []"
| "enc_cmds ((t, opts) # cs) = le_bytes 4 (nat_of_command t) @ opts @ enc_cmds cs"

definition enc_ok :: "command_type_t \<times> bytes \<Rightarrow> bool" where
  "enc_ok c \<longleftrightarrow> (case c of (t, opts) \<Rightarrow>
     length opts + 4 = cmd_type_size t \<and> (case t of CMD_OTHER n \<Rightarrow> 8 \<le> n \<and> n < 2 ^ 32 | _ \<Rightarrow> True))"

definition enc_fwd_opts :: "fwd_opts_t \<Rightarrow> bytes" where
  "enc_fwd_opts f = le_bytes 4 (pkt_size f) @ le_bytes 4 (fwd_host f) @ le_bytes 2 (fwd_port f) @ [0, 0] @
     le_bytes 4 (timeout f) @ le_bytes 1 (retries f) @ le_bytes 1 (n_ack f) @
     le_bytes 1 (on_fail_skip f) @ le_bytes 1 (branched f) @ le_bytes 4 (proto f)"

lemma command_of_nat_of_command:
  assumes "case t of CMD_OTHER n \<Rightarrow> 8 \<le> n \<and> n < 2 ^ 32 | _ \<Rightarrow> True"
  shows "command_of_nat (nat_of_command t mod 256 ^ 4) = t"
  using assms by (cases t) (auto simp: command_of_nat_def)

lemma rd_at: "i = length pre \<Longrightarrow> rd k (pre @ le_bytes k v @ post) i = Inr (v mod 256 ^ k)"
  by (simp add: rd_def slice_def le_nat_le_bytes)

lemma get_cmd_at:
  assumes "case t of CMD_OTHER n \<Rightarrow> 8 \<le> n \<and> n < 2 ^ 32 | _ \<Rightarrow> True"
  shows "get_cmd (pre @ le_bytes 4 (nat_of_command t) @ post) (length pre) = Inr t"
  using command_of_nat_of_command [OF assms] by (simp add: get_cmd_def rd_at)

lemma length_enc_cmds: "list_all enc_ok cs \<Longrightarrow> length (enc_cmds cs) = cmds_len (map fst cs)"
  by (induction cs rule: enc_cmds.induct) (auto simp: enc_ok_def)

lemma cmds_at_enc:
  assumes "list_all enc_ok cs" "length pre + cmds_len (map fst cs) \<le> e"
  shows "cmds_at (pre @ enc_cmds cs @ post) e (length pre) (map fst cs)"
  using assms
proof (induction cs arbitrary: pre)
  case Nil
  then show ?case by simp
next
  case (Cons c cs)
  obtain t opts where c: "c = (t, opts)" by force
  have ok: "length opts + 4 = cmd_type_size t" "case t of CMD_OTHER n \<Rightarrow> 8 \<le> n \<and> n < 2 ^ 32 | _ \<Rightarrow> True"
    using Cons.prems(1) c by (auto simp: enc_ok_def)
  let ?pre = "pre @ le_bytes 4 (nat_of_command t) @ opts"
  have len: "length ?pre = length pre + cmd_type_size t" using ok(1) by simp
  have "cmds_at (?pre @ enc_cmds cs @ post) e (length ?pre) (map fst cs)"
    using Cons.prems c ok(1) by (intro Cons.IH) (simp_all add: len)
  then have "cmds_at (pre @ enc_cmds (c # cs) @ post) e (length pre + cmd_type_size t) (map fst cs)"
    using c len by simp
  moreover have "get_cmd (pre @ enc_cmds (c # cs) @ post) (length pre) = Inr t"
    using get_cmd_at [OF ok(2), of pre "opts @ enc_cmds cs @ post"] c by simp
  ultimately show ?case using Cons.prems(2) c cmd_type_size_ge [of t]
    by (simp add: cmd_in_bounds_True)
qed

lemma get_fwd_opts_enc:
  assumes "pkt_size f < 2 ^ 32" "fwd_host f < 2 ^ 32" "fwd_port f < 2 ^ 16" "timeout f < 2 ^ 32"
    "retries f < 256" "n_ack f < 256" "on_fail_skip f < 256" "branched f < 256" "proto f < 2 ^ 32"
  shows "get_fwd_opts (pre @ le_bytes 4 n @ enc_fwd_opts f @ post) (length pre) = Inr f"
proof -
  let ?l4 = "le_bytes 4" and ?l1 = "le_bytes 1"
  let ?b = "pre @ ?l4 n @ enc_fwd_opts f @ post" and ?o = "length pre + 4"
  note e = enc_fwd_opts_def
  have 1: "rd 4 ?b ?o = Inr (pkt_size f)"
    using rd_at [of ?o "pre @ ?l4 n" 4 "pkt_size f"] assms by (simp add: e)
  have 2: "rd 4 ?b (?o + 4) = Inr (fwd_host f)"
    using rd_at [of "?o + 4" "pre @ ?l4 n @ ?l4 (pkt_size f)" 4 "fwd_host f"] assms by (simp add: e)
  have 3: "rd 2 ?b (?o + 8) = Inr (fwd_port f)"
    using rd_at [of "?o + 8" "pre @ ?l4 n @ ?l4 (pkt_size f) @ ?l4 (fwd_host f)" 2 "fwd_port f"] assms
    by (simp add: e)
  let ?p4 = "pre @ ?l4 n @ ?l4 (pkt_size f) @ ?l4 (fwd_host f) @ le_bytes 2 (fwd_port f) @ [0, 0]"
  have 4: "rd 4 ?b (?o + 12) = Inr (timeout f)"
    using rd_at [of "?o + 12" ?p4 4 "timeout f"] assms by (simp add: e)
  let ?p5 = "?p4 @ ?l4 (timeout f)"
  have 5: "rd 1 ?b (?o + 16) = Inr (retries f)"
    using rd_at [of "?o + 16" ?p5 1 "retries f"] assms by (simp add: e)
  let ?p6 = "?p5 @ ?l1 (retries f)"
  have 6: "rd 1 ?b (?o + 17) = Inr (n_ack f)"
    using rd_at [of "?o + 17" ?p6 1 "n_ack f"] assms by (simp add: e)
  let ?p7 = "?p6 @ ?l1 (n_ack f)"
  have 7: "rd 1 ?b (?o + 18) = Inr (on_fail_skip f)"
    using rd_at [of "?o + 18" ?p7 1 "on_fail_skip f"] assms by (simp add: e)
  let ?p8 = "?p7 @ ?l1 (on_fail_skip f)"
  have 8: "rd 1 ?b (?o + 19) = Inr (branched f)"
    using rd_at [of "?o + 19" ?p8 1 "branched f"] assms by (simp add: e)
  have 9: "rd 4 ?b (?o + 20) = Inr (proto f)"
    using rd_at [of "?o + 20" "?p8 @ ?l1 (branched f)" 4 "proto f"] assms by (simp add: e)
  show ?thesis unfolding get_fwd_opts_def Let_def sizeof_command_t_def 1 2 3 4 5 6 7 8 9 by simp
qed

definition enc_message :: "nat \<Rightarrow> nat \<Rightarrow> nat \<Rightarrow> bytes \<Rightarrow> bytes" where
  "enc_message rid sz st body = le_bytes 4 rid @ le_bytes 4 sz @ le_bytes 4 st @ body"

lemma length_enc_message [simp]: "length (enc_message rid sz st body) = 12 + length body"
  by (simp add: enc_message_def)

lemma get_enc_message:
  assumes "rid < 2 ^ 32" "sz < 2 ^ 32"
  shows "get_req_id (enc_message rid sz st body) 0 = Inr rid"
    "get_req_size (enc_message rid sz st body) 0 = Inr sz"
    "message_end (enc_message rid sz st body) 0 = Inr sz"
  using assms rd_at [of 0 "[]" 4 rid] rd_at [of 4 "le_bytes 4 rid" 4 sz]
  by (simp_all add: get_req_id_def get_req_size_def message_end_def enc_message_def)

lemma cmds_at_enc_message:
  assumes "list_all enc_ok cs" "12 + cmds_len (map fst cs) \<le> e"
  shows "cmds_at (enc_message rid sz st (enc_cmds cs @ post)) e 12 (map fst cs)"
  using cmds_at_enc [OF assms(1), of "le_bytes 4 rid @ le_bytes 4 sz @ le_bytes 4 st" e post] assms(2)
  by (simp add: enc_message_def)

section \<open>Copies of messages\<close>

lemma slice_prefix: "slice b i (m + n) = Inr bs \<Longrightarrow> slice b i m = Inr (take m bs)"
  by (auto simp: slice_eq_Inr min_absorb1)

lemma slice_suffix: "slice b i (m + n) = Inr bs \<Longrightarrow> slice b (i + m) n = Inr (drop m bs)"
  by (auto simp: slice_eq_Inr drop_take add.commute)

lemma get_cmd_slice:
  assumes "slice d i (4 + k) = Inr bs" "slice b p (4 + k) = Inr bs"
  shows "get_cmd d i = get_cmd b p"
  using assms [THEN slice_prefix] by (simp add: get_cmd_def rd_def)

text \<open>Commands that are copied as bytes are the same commands at their new place.\<close>

lemma cmds_at_copy:
  assumes "cmds_at b e p ts" "slice b p (cmds_len ts) = Inr bs" "slice d i (cmds_len ts) = Inr bs"
    "i + cmds_len ts \<le> e'"
  shows "cmds_at d e' i ts"
  using assms
proof (induction ts arbitrary: p i bs)
  case Nil
  then show ?case by simp
next
  case (Cons t ts)
  obtain k where k: "cmd_type_size t = 4 + k" using cmd_type_size_ge le_Suc_ex by blast
  have sl: "slice b p (4 + (k + cmds_len ts)) = Inr bs" "slice d i (4 + (k + cmds_len ts)) = Inr bs"
    using Cons.prems(2,3) k by (simp_all add: add.assoc)
  have "get_cmd d i = Inr t" using get_cmd_slice [OF sl(2,1)] Cons.prems(1) by simp
  moreover have "cmds_at d e' (i + cmd_type_size t) ts"
    using Cons.prems by (intro Cons.IH [of "p + cmd_type_size t" "drop (cmd_type_size t) bs"])
      (auto intro: slice_suffix)
  ultimately show ?case using Cons.prems(4) k by (simp add: cmd_in_bounds_True)
qed

lemma cmds_at_le:
  "cmds_at b e p (ts @ [t]) \<Longrightarrow> p + cmds_len (ts @ [t]) \<le> e"
  by (auto simp: cmd_in_bounds_True)

text \<open>The copy of a list of contexts and its \<^verbatim>\<open>REPLY\<close>, up to the writes to the destination.\<close>

text \<open>The status of a message is not a part of its commands.\<close>

lemma put_status_ok: "m + 12 \<le> length b \<Longrightarrow> \<exists>b'. put_status b m st = Inr b' \<and> length b' = length b"
  using wr_ok [of "m + 8" 4 b st] by (simp add: put_status_def)

lemma cmds_at_put_status:
  assumes "put_status b m st = Inr b'" "cmds_at b e p ts" "m + 12 \<le> p" "e \<le> length b"
  shows "cmds_at b' e p ts"
proof (cases "ts = []")
  case True
  then show ?thesis by simp
next
  case False
  have le: "p + cmds_len ts \<le> e" using assms(2) False cmds_at_le by (cases ts rule: rev_cases) auto
  obtain bs where bs: "slice b p (cmds_len ts) = Inr bs" using le assms(4) by (simp add: slice_def)
  moreover have "slice b' p (cmds_len ts) = slice b p (cmds_len ts)"
    using assms(1,3) by (intro slice_wr_other [of 4 b "m + 8" st]) (auto simp: put_status_def)
  ultimately show ?thesis using cmds_at_copy [OF assms(2) bs] le by simp
qed

lemma get_status_put: "put_status b m st = Inr b' \<Longrightarrow> st < 2 ^ 32 \<Longrightarrow> get_status b' m = Inr st"
  using rd_wr_same [of 4 b "m + 8" st b'] by (simp add: put_status_def get_status_def)

lemma copy_tail_unfold:
  assumes "get_req_id b m = Inr rid" "message_end b m = Inr e" "e \<le> length b"
    "list_all ctx_wf cs" "cmds_at b e c (concat (map ctx_cmds cs) @ [REPLY])"
    "get_req_size d m_dst = Inr avail" "L = cmds_len (concat (map ctx_cmds cs) @ [REPLY])"
    "set_req_id d m_dst rid = Inr d1" "slice b c L = Inr bs"
  shows "message_copy_tail b m d m_dst (Some c) =
    (if avail < L + 4 then Inr (None, d1)
     else rbind (blit d1 (m_dst + 12) bs) (\<lambda>d2. rbind (set_cmd d2 (m_dst + 12 + L) EOM) (\<lambda>d3.
       rbind (set_req_size d3 m_dst (12 + L + 4)) (\<lambda>d4. Inr (Some (c + L - 16), d4)))))"
proof -
  let ?r = "c + cmds_len (concat (map ctx_cmds cs))"
  have "find_reply b (Some c) e = Inr (Some ?r)" using find_reply_ctxs [OF assms(4), of b e c "[]"] assms(5) by simp
  moreover have "cmd_in_bounds b ?r e = Inr True" "get_cmd b ?r = Inr REPLY" using assms(5) by simp_all
  moreover have "get_req_size d1 m_dst = Inr avail"
    using assms(6,8) rd_wr_other [of 4 d m_dst rid d1 "m_dst + 4" 4]
    by (simp add: get_req_size_def set_req_id_def)
  moreover have "?r + cmd_type_size REPLY - c = L" "c + L - 16 = ?r"
    using assms(7) by (simp_all add: sizeof_defs)
  ultimately show ?thesis using assms(1,2,8,9)
    by (simp add: message_copy_tail_def message_first_cmd_def sizeof_defs Let_def)
qed

lemma msg_num_cmd_loop_at:
  assumes "cmds_at b e p (ts @ [EOM])" "EOM \<notin> set ts"
  shows "msg_num_cmd_loop b p e n = Inr (n + length ts)"
  using assms
proof (induction ts arbitrary: p n)
  case Nil
  then show ?case by (subst msg_num_cmd_loop.simps) simp
next
  case (Cons t ts)
  then show ?case by (subst msg_num_cmd_loop.simps) (auto simp: cmd_next_def)
qed

lemma copy_tail_ok:
  assumes "get_req_id b m = Inr rid" "message_end b m = Inr e" "e \<le> length b"
    "list_all ctx_wf cs" "cmds_at b e c (concat (map ctx_cmds cs) @ [REPLY])"
    "get_req_size d m_dst = Inr avail" "L = cmds_len (concat (map ctx_cmds cs) @ [REPLY])"
    "m_dst + 12 + L + 4 \<le> length d" "L + 16 < 2 ^ 32"
  shows "\<exists>r d'. message_copy_tail b m d m_dst (Some c) = Inr (r, d') \<and> length d' = length d \<and>
    r = (if avail < L + 4 then None else Some (c + L - 16)) \<and> get_req_id d' m_dst = Inr rid \<and>
    (r \<noteq> None \<longrightarrow> get_req_size d' m_dst = Inr (L + 16) \<and> message_end d' m_dst = Inr (m_dst + L + 16) \<and>
      cmds_at d' (m_dst + L + 16) (message_first_cmd m_dst) (concat (map ctx_cmds cs) @ [REPLY, EOM]) \<and> slice d' (m_dst + 12) L = slice b c L)"
proof -
  let ?ts = "concat (map ctx_cmds cs) @ [REPLY]"
  obtain d1 where d1: "set_req_id d m_dst rid = Inr d1" "length d1 = length d"
    using wr_ok [of m_dst 4 d rid] assms(8) by (auto simp: set_req_id_def)
  obtain bs where bs: "slice b c L = Inr bs" "length bs = L"
    using cmds_at_le [OF assms(5)] assms(3,7) by (simp add: slice_def)
  note u = copy_tail_unfold [OF assms(1-7) d1(1) bs(1)]
  have rid: "rid < 256 ^ 4" using assms(1) rd_bound [of 4 b m rid] by (simp add: get_req_id_def)
  have id1: "get_req_id d1 m_dst = Inr rid"
    using rd_wr_same [of 4 d m_dst rid d1] d1(1) rid by (simp add: set_req_id_def get_req_id_def)
  obtain d2 where d2: "blit d1 (m_dst + 12) bs = Inr d2" using assms(8) d1 bs by (simp add: blit_ok)
  then have len2: "length d2 = length d" using blit_length d1(2) by metis
  obtain d3 where d3: "wr 4 d2 (m_dst + 12 + L) 7 = Inr d3" "length d3 = length d"
    using wr_ok [of "m_dst + 12 + L" 4 d2 7] assms(8) len2 by auto
  obtain d4 where d4: "wr 4 d3 (m_dst + 4) (12 + L + 4) = Inr d4" "length d4 = length d"
    using wr_ok [of "m_dst + 4" 4 d3 "12 + L + 4"] assms(8) d3 by auto
  have id4: "get_req_id d4 m_dst = Inr rid"
    using id1 rd_wr_other [OF d4(1), of m_dst 4] rd_wr_other [OF d3(1), of m_dst 4]
      rd_blit_other [OF d2, of m_dst 4] bs by (simp add: get_req_id_def)
  have sz: "get_req_size d4 m_dst = Inr (L + 16)"
    using rd_wr_same [OF d4(1)] assms(9) by (simp add: get_req_size_def)
  have sl: "slice d4 (m_dst + 12) L = Inr bs"
    using slice_blit_same [OF d2] bs slice_wr_other [OF d3(1), of "m_dst + 12" L]
      slice_wr_other [OF d4(1), of "m_dst + 12" L] by simp
  then have "cmds_at d4 (m_dst + L + 16) (m_dst + 12) ?ts"
    using cmds_at_copy [OF assms(5), of bs d4 "m_dst + 12" "m_dst + L + 16"] bs assms(7) by simp
  moreover have "get_cmd d4 (m_dst + 12 + L) = Inr EOM"
    using rd_wr_other [OF d4(1), of "m_dst + 12 + L" 4] rd_wr_same [OF d3(1)]
    by (simp add: get_cmd_def command_of_nat_def)
  ultimately have "cmds_at d4 (m_dst + L + 16) (m_dst + 12) (?ts @ [EOM])"
    using assms(7) by (simp add: cmd_in_bounds_True sizeof_defs add.assoc)
  then show ?thesis using u d1 d2 d3 d4 id1 id4 sz sl bs(1)
    by (auto simp: set_cmd_def set_req_size_def message_end_def message_first_cmd_def sizeof_message_t_def)
qed

lemma next_forward_branch:
  assumes "t = FORWARD_BEGIN \<or> t = FORWARD_CONTINUE" "get_fwd_opts b p = Inr f" "list_all ctx_wf body"
  shows "(cmds_at b e p (t # concat (map ctx_cmds body) @ [REPLY, tn]) \<longrightarrow>
      cmd_bounded_next_forward b (Some p) e =
        Inr (if branched f \<noteq> 0 \<and> tn = FORWARD_CONTINUE
             then Some (p + cmds_len (t # concat (map ctx_cmds body) @ [REPLY])) else None)) \<and>
    (cmds_at b e p [t, FORWARD_CONTINUE] \<longrightarrow>
      cmd_bounded_next_forward b (Some p) e = Inr (Some (p + cmd_type_size t)))"
proof (intro conjI impI)
  let ?c = "concat (map ctx_cmds body)" and ?q = "p + cmd_type_size t"
  have step: "cmd_bounded_next b p e = Inr (Some ?q)" if "cmds_at b e p (t # u # us)" for u us
    using that by (simp add: cmd_bounded_next_Some)
  show "cmd_bounded_next_forward b (Some p) e = Inr (Some (p + cmd_type_size t))"
    if "cmds_at b e p [t, FORWARD_CONTINUE]"
    using assms(1,2) step [OF that] that
    by (auto simp: cmd_bounded_next_forward_def next_forward_loop.simps)
  assume at: "cmds_at b e p (t # ?c @ [REPLY, tn])"
  obtain u us where "?c @ [REPLY, tn] = u # us" using ctx_list_hd [OF assms(3), of REPLY "[tn]"] by auto
  then have "cmd_bounded_next b p e = Inr (Some ?q)" using step at by metis
  moreover have "next_forward_loop b (Some ?q) (branched f) e =
      next_forward_loop b (Some (?q + cmds_len ?c)) (branched f) e"
    using next_forward_body [OF assms(3), of b e ?q "[tn]"] at by simp
  moreover have "cmds_at b e (?q + cmds_len ?c) [REPLY, tn]" using at by simp
  ultimately show "cmd_bounded_next_forward b (Some p) e =
      Inr (if branched f \<noteq> 0 \<and> tn = FORWARD_CONTINUE
           then Some (p + cmds_len (t # ?c @ [REPLY])) else None)"
    using at assms(1,2) next_forward_at_reply [of b e "?q + cmds_len ?c" tn "branched f"]
    by (auto simp: cmd_bounded_next_forward_def add.assoc)
qed

section \<open>Properties\<close>

text \<open>C8. Whatever the bytes of a received message are, as long as the message ends inside of the
  buffer the bounded traversals end and read nothing outside of it: \<^verbatim>\<open>cmd_bounded_skip\<close> returns
  \<^verbatim>\<open>NULL\<close> or a command that lies completely before the end of the message, and so does
  \<^verbatim>\<open>cmd_bounded_next_forward\<close>, which returns a \<^verbatim>\<open>FORWARD_CONTINUE\<close>; it leaves the program only
  when it is called on a command that is not a forward.\<close>

theorem traversal_memory_safe:
  assumes "e \<le> length b"
  shows "(\<exists>x. cmd_bounded_skip b c n e = Inr x \<and>
      (\<forall>p. x = Some p \<longrightarrow> cmd_in_bounds b p e = Inr True)) \<and>
    ((\<exists>x. cmd_bounded_next_forward b c e = Inr x \<and>
      (\<forall>p. x = Some p \<longrightarrow> cmd_in_bounds b p e = Inr True \<and> get_cmd b p = Inr FORWARD_CONTINUE)) \<or>
     (cmd_bounded_next_forward b c e = Inl Exit_Failure \<and>
      (\<exists>q t. c = Some q \<and> get_cmd b q = Inr t \<and> t \<noteq> FORWARD_BEGIN \<and> t \<noteq> FORWARD_CONTINUE)))"
  using cmd_bounded_skip_total [OF assms] cmd_bounded_next_forward_total [OF assms] by blast

theorem traversal_memory_safe_witness:
  "\<exists>x. cmd_bounded_skip [4, 0, 0, 0, 9] (Some 0) 3 5 = Inr x"
  using traversal_memory_safe [of 5 "[4, 0, 0, 0, 9]" "Some 0" 3] by auto

text \<open>C20. Skipping counts contexts: if the message holds \<open>n\<close> well-formed contexts followed by a
  further command that is not a \<^verbatim>\<open>FORWARD_CONTINUE\<close>, then skipping \<open>n\<close> from the first of them
  leads exactly to that command, however deeply the forwards among them nest and however many branches they have.\<close>

theorem skip_counts_contexts:
  assumes "list_all ctx_wf cs" "cmds_at b e p (concat (map ctx_cmds cs) @ [t])"
    "t \<noteq> FORWARD_CONTINUE"
  shows "cmd_bounded_skip b (Some p) (int (length cs)) e =
    Inr (Some (p + cmds_len (concat (map ctx_cmds cs))))"
  using cmd_bounded_skip_ctxs [OF assms(1) _ assms(3), of b e p "[]"] assms(2) by simp

definition sample_fwd :: fwd_opts_t where
  "sample_fwd = \<lparr>pkt_size = 1024, fwd_host = 16777343, fwd_port = 36895, timeout = 0, retries = 1, n_ack = 2,
     on_fail_skip = 0, branched = 1, proto = 1\<rparr>"

definition sample_cmds :: "(command_type_t \<times> bytes) list" where
  "sample_cmds =
     [(FORWARD_BEGIN, enc_fwd_opts sample_fwd), (COMPUTE, [8, 0, 0, 0]), (REPLY, replicate 12 0),
      (FORWARD_CONTINUE, enc_fwd_opts sample_fwd), (REPLY, replicate 12 0), (EOM, [])]"

lemma length_enc_fwd_opts [simp]: "length (enc_fwd_opts f) = 24"
  by (simp add: enc_fwd_opts_def)

lemma sample_cmds_at: "cmds_at (enc_cmds sample_cmds) 100 0 (map fst sample_cmds)"
  using cmds_at_enc [of sample_cmds "[]" 100 "[]"]
  by (simp add: sample_cmds_def enc_ok_def sizeof_defs)

theorem skip_counts_contexts_witness:
  "cmd_bounded_skip (enc_cmds sample_cmds) (Some 0) 1 100 = Inr (Some 96)"
  using skip_counts_contexts [of "[Fwd 0 [Op COMPUTE] [[]]]" "enc_cmds sample_cmds" 100 0 EOM] sample_cmds_at
  by (simp add: sample_cmds_def sizeof_defs)

text \<open>The search for the next branch of a multi-forward. From a forward (\<^verbatim>\<open>FORWARD_BEGIN\<close> or
  \<^verbatim>\<open>FORWARD_CONTINUE\<close>) with a body of well-formed contexts and its \<^verbatim>\<open>REPLY\<close>, the result is the
  \<^verbatim>\<open>FORWARD_CONTINUE\<close> right after that \<^verbatim>\<open>REPLY\<close> if the forward is branched and there is one, and
  \<^verbatim>\<open>NULL\<close> otherwise; a \<^verbatim>\<open>FORWARD_CONTINUE\<close> that follows the forward at once is always the result.\<close>

theorem next_forward_finds_branch:
  assumes "t = FORWARD_BEGIN \<or> t = FORWARD_CONTINUE" "get_fwd_opts b p = Inr f" "list_all ctx_wf body"
  shows "(cmds_at b e p (t # concat (map ctx_cmds body) @ [REPLY, tn]) \<longrightarrow>
      cmd_bounded_next_forward b (Some p) e =
        Inr (if branched f \<noteq> 0 \<and> tn = FORWARD_CONTINUE
             then Some (p + cmds_len (t # concat (map ctx_cmds body) @ [REPLY])) else None)) \<and>
    (cmds_at b e p [t, FORWARD_CONTINUE] \<longrightarrow>
      cmd_bounded_next_forward b (Some p) e = Inr (Some (p + cmd_type_size t)))"
  using next_forward_branch [OF assms] .

theorem next_forward_finds_branch_witness:
  "cmd_bounded_next_forward (enc_cmds sample_cmds) (Some 0) 100 = Inr (Some 52)"
proof -
  have "get_fwd_opts (enc_cmds sample_cmds) 0 = Inr sample_fwd"
    using get_fwd_opts_enc [of sample_fwd "[]" "nat_of_command FORWARD_BEGIN" "enc_cmds (tl sample_cmds)"]
    by (simp add: sample_cmds_def sample_fwd_def)
  with next_forward_finds_branch [of FORWARD_BEGIN "enc_cmds sample_cmds" 0 sample_fwd "[Op COMPUTE]" 100
      FORWARD_CONTINUE] sample_cmds_at
  show ?thesis by (simp add: sample_cmds_def sample_fwd_def sizeof_defs)
qed

text \<open>C21. What \<^verbatim>\<open>message_copy_tail\<close> does for a tail that starts with well-formed contexts and their
  matching \<^verbatim>\<open>REPLY\<close>: if the destination announces too little space, \<^verbatim>\<open>NULL\<close> is returned; if it
  announces enough and has it, the matching \<^verbatim>\<open>REPLY\<close> is returned and the destination is a message with
  the request id of the source, with its commands up to and including that \<^verbatim>\<open>REPLY\<close>, byte for byte with all
  their arguments, followed by \<^verbatim>\<open>EOM\<close>, and with the size of just that.\<close>

theorem copy_tail_result:
  assumes "get_req_id b m = Inr rid" "message_end b m = Inr e" "e \<le> length b"
    "list_all ctx_wf cs" "cmds_at b e c (concat (map ctx_cmds cs) @ [REPLY])"
    "get_req_size d m_dst = Inr avail" "L = cmds_len (concat (map ctx_cmds cs) @ [REPLY])"
    "m_dst + 12 + L + 4 \<le> length d" "L + 16 < 2 ^ 32"
  shows "\<exists>r d'. message_copy_tail b m d m_dst (Some c) = Inr (r, d') \<and> length d' = length d \<and>
    r = (if avail < L + 4 then None else Some (c + L - 16)) \<and> get_req_id d' m_dst = Inr rid \<and>
    (r \<noteq> None \<longrightarrow> get_req_size d' m_dst = Inr (L + 16) \<and> message_end d' m_dst = Inr (m_dst + L + 16) \<and>
      cmds_at d' (m_dst + L + 16) (message_first_cmd m_dst) (concat (map ctx_cmds cs) @ [REPLY, EOM]) \<and>
      (\<exists>bs. slice b c L = Inr bs \<and> slice d' (message_first_cmd m_dst) L = Inr bs))"
proof -
  obtain bs where bs: "slice b c L = Inr bs" using cmds_at_le [OF assms(5)] assms(3,7) by (simp add: slice_def)
  have "message_first_cmd m_dst = m_dst + 12" by (simp add: message_first_cmd_def sizeof_message_t_def)
  then show ?thesis using copy_tail_ok [OF assms] bs by auto
qed

definition sample_tail :: "(command_type_t \<times> bytes) list" where
  "sample_tail = [(COMPUTE, [8, 0, 0, 0]), (REPLY, replicate 12 0)]"

definition sample_src :: bytes where
  "sample_src = enc_message 5 36 0 (enc_cmds sample_tail)"

lemma sample_src_facts:
  "get_req_id sample_src 0 = Inr 5" "message_end sample_src 0 = Inr 36" "36 \<le> length sample_src"
  "cmds_at sample_src 36 12 (concat (map ctx_cmds [Op COMPUTE]) @ [REPLY])"
  "list_all ctx_wf [Op COMPUTE]"
  using cmds_at_enc_message [of sample_tail 36 5 36 0 "[]"]
  by (simp_all add: sample_src_def get_enc_message sample_tail_def enc_ok_def sizeof_defs)

theorem copy_tail_result_witness:
  "\<exists>d'. message_copy_tail sample_src 0 (enc_message 0 64 0 (replicate 52 0)) 0 (Some 12) = Inr (Some 20, d') \<and>
     get_req_id d' 0 = Inr 5 \<and> get_req_size d' 0 = Inr 40 \<and> slice d' 12 24 = Inr (enc_cmds sample_tail)"
proof -
  have "get_req_size (enc_message 0 64 0 (replicate 52 0)) 0 = Inr 64" by (rule get_enc_message) simp_all
  moreover have "slice sample_src 12 24 = Inr (enc_cmds sample_tail)"
    by (simp add: sample_src_def enc_message_def slice_def sample_tail_def)
  ultimately show ?thesis
    using copy_tail_result [OF sample_src_facts(1-3,5,4), of "enc_message 0 64 0 (replicate 52 0)" 0 64 24]
    by (auto simp: sizeof_defs message_first_cmd_def)
qed

text \<open>The space check of \<^verbatim>\<open>message_copy_tail\<close> does not count the 12 bytes of the message header:
  for a destination of exactly the announced size, a tail that needs between 4 and 15 bytes less than
  that passes the check and is written past the end of the destination.\<close>

theorem copy_tail_overflows:
  assumes "get_req_id b m = Inr rid" "message_end b m = Inr e" "e \<le> length b"
    "list_all ctx_wf cs" "cmds_at b e c (concat (map ctx_cmds cs) @ [REPLY])"
    "get_req_size d m_dst = Inr avail" "L = cmds_len (concat (map ctx_cmds cs) @ [REPLY])"
    "length d = m_dst + avail" "L + 4 \<le> avail" "avail < L + 16"
  shows "message_copy_tail b m d m_dst (Some c) = Inl Out_Of_Bounds"
proof -
  have "m_dst + 8 \<le> length d"
    using assms(6) by (auto simp: get_req_size_def rd_def rbind_eq_Inr slice_eq_Inr)
  then obtain d1 where d1: "set_req_id d m_dst rid = Inr d1" "length d1 = length d"
    using wr_ok [of m_dst 4 d rid] by (auto simp: set_req_id_def)
  obtain bs where bs: "slice b c L = Inr bs" "length bs = L"
    using cmds_at_le [OF assms(5)] assms(3,7) by (simp add: slice_def)
  show ?thesis
    using copy_tail_unfold [OF assms(1-7) d1(1) bs(1)] assms(8-10) d1(2) bs(2)
    by (auto simp: blit_def set_cmd_def wr_def)
qed

theorem copy_tail_overflows_witness:
  "message_copy_tail sample_src 0 (enc_message 0 28 0 (replicate 16 0)) 0 (Some 12) = Inl Out_Of_Bounds"
proof -
  have "get_req_size (enc_message 0 28 0 (replicate 16 0)) 0 = Inr 28" by (rule get_enc_message) simp_all
  from copy_tail_overflows [OF sample_src_facts(1-3,5,4) this refl] show ?thesis
    by (auto simp: sizeof_defs)
qed

text \<open>Encoding and counting: a message that is laid out as a list of commands with an \<^verbatim>\<open>EOM\<close> at
  its end, and any payload after it, has as many commands as were encoded.\<close>

theorem msg_num_cmd_encoded:
  assumes "list_all enc_ok cs" "EOM \<notin> set (map fst cs)" "rid < 2 ^ 32" "sz < 2 ^ 32"
    "12 + cmds_len (map fst cs) + 4 \<le> sz"
  shows "msg_num_cmd (enc_message rid sz st (enc_cmds (cs @ [(EOM, [])]) @ payload)) 0 = Inr (length cs)"
proof -
  have "enc_ok (EOM, [])" by (simp add: enc_ok_def sizeof_defs)
  then have "cmds_at (enc_message rid sz st (enc_cmds (cs @ [(EOM, [])]) @ payload)) sz 12 (map fst cs @ [EOM])"
    using cmds_at_enc_message [of "cs @ [(EOM, [])]" sz rid sz st payload] assms by (simp add: sizeof_defs)
  then show ?thesis using assms(2-4) msg_num_cmd_loop_at [of _ sz 12 "map fst cs" 0]
    by (simp add: msg_num_cmd_def get_enc_message message_first_cmd_def sizeof_defs)
qed

theorem msg_num_cmd_encoded_witness:
  "msg_num_cmd (enc_message 7 100 0 (enc_cmds ([(COMPUTE, [1, 0, 0, 0])] @ [(EOM, [])]) @ replicate 80 0)) 0 = Inr 1"
  using msg_num_cmd_encoded [of "[(COMPUTE, [1, 0, 0, 0])]" 7 100 0 "replicate 80 0"]
  by (simp add: enc_ok_def sizeof_defs)

end
