(* ===== verification/DW_Request.thy ===== *)
theory DW_Request
  imports DW_Prelude
begin

text \<open>
  The table of requests in flight: \<^verbatim>\<open>src/request.h\<close> and \<^verbatim>\<open>src/request.c\<close>. A \<^verbatim>\<open>req_info_t*\<close> is the
  index of the slot in \<^verbatim>\<open>reqs[]\<close> and \<open>None\<close> the null pointer; \<^verbatim>\<open>message_ptr\<close> and \<^verbatim>\<open>curr_cmd\<close>
  are offsets into the receive buffer of the connection that the request came from. The requests
  of a connection form a doubly linked list through their slots. The MAC address of the DPDK
  transport is left out.
\<close>

section \<open>Definitions\<close>

record req_info_t =
  req_id :: int
  conn_id :: int
  req_target :: sockaddr_in
  fwd_replies_left :: int
  fwd_replies_mask :: int
  fwd_retries :: int
  fwd_timeout :: int
  fwd_on_fail_skip :: int
  message_ptr :: "nat option"
  curr_cmd :: "nat option"
  timeout_node :: "nat option"
  prev :: "nat option"
  nxt :: "nat option"
  sendfile_fd :: int
  sendfile_offset :: int
  sendfile_size :: nat

record req_table =
  reqs :: "nat \<Rightarrow> req_info_t"
  last_reqs :: int

definition MAX_REQS :: nat where
  "MAX_REQS = 65536"

text \<open>\<^verbatim>\<open>req_id % MAX_REQS\<close>: the constant is unsigned, so the id is taken modulo \<open>2 ^ 16\<close>.\<close>

definition req_slot :: "int \<Rightarrow> nat" where
  "req_slot i = nat (i mod int MAX_REQS)"

definition zero_req :: req_info_t where
  "zero_req = \<lparr>req_id = 0, conn_id = 0, req_target = \<lparr>sin_addr = 0, sin_port = 0\<rparr>,
     fwd_replies_left = 0, fwd_replies_mask = 0, fwd_retries = 0, fwd_timeout = 0,
     fwd_on_fail_skip = 0, message_ptr = None, curr_cmd = None, timeout_node = None,
     prev = None, nxt = None, sendfile_fd = 0, sendfile_offset = 0, sendfile_size = 0\<rparr>"

definition upd_req :: "nat \<Rightarrow> (req_info_t \<Rightarrow> req_info_t) \<Rightarrow> 'a req_table_scheme \<Rightarrow> 'a req_table_scheme" where
  "upd_req i f s = s\<lparr>reqs := (reqs s)(i := f (reqs s i))\<rparr>"

definition req_init :: "'a req_table_scheme \<Rightarrow> 'a req_table_scheme" where
  "req_init s = s\<lparr>reqs := \<lambda>i. if i < MAX_REQS then zero_req\<lparr>req_id := -1, conn_id := -1\<rparr> else reqs s i\<rparr>"

definition upd_link :: "nat option \<Rightarrow> (req_info_t \<Rightarrow> req_info_t) \<Rightarrow> 'a req_table_scheme \<Rightarrow> 'a req_table_scheme" where
  "upd_link p f s = (case p of None \<Rightarrow> s | Some i \<Rightarrow> upd_req i f s)"

definition req_unlink :: "nat \<Rightarrow> 'a req_table_scheme \<Rightarrow> nat option \<times> 'a req_table_scheme" where
  "req_unlink r s =
     (let next = nxt (reqs s r);
          s1 = upd_link (nxt (reqs s r)) (prev_update (\<lambda>_. prev (reqs s r))) s;
          s2 = upd_link (prev (reqs s1 r)) (nxt_update (\<lambda>_. nxt (reqs s1 r))) s1;
          s3 = upd_req r (\<lambda>q. q\<lparr>nxt := None, prev := None, req_id := -1, message_ptr := None\<rparr>) s2
      in (next, s3))"

text \<open>\<^verbatim>\<open>atomic_fetch_add\<close> on an \<^verbatim>\<open>atomic_int\<close> wraps around.\<close>

definition req_alloc :: "'a req_table_scheme \<Rightarrow> nat option \<times> 'a req_table_scheme" where
  "req_alloc s =
     (let rid = last_reqs s;
          s1 = s\<lparr>last_reqs := signed_take_bit 31 (last_reqs s + 1)\<rparr>;
          r = req_slot rid
      in if req_id (reqs s1 r) \<noteq> -1 then (None, s1)
         else (Some r, upd_req r (\<lambda>q. q\<lparr>req_id := rid, curr_cmd := None, fwd_replies_left := -1,
                 nxt := None, prev := None\<rparr>) s1))"

definition req_get_by_id :: "int \<Rightarrow> 'a req_table_scheme \<Rightarrow> nat option" where
  "req_get_by_id i s = (if req_id (reqs s (req_slot i)) \<noteq> i then None else Some (req_slot i))"

definition req_get_message :: "nat \<Rightarrow> 'a req_table_scheme \<Rightarrow> nat option" where
  "req_get_message r s = message_ptr (reqs s r)"

section \<open>Well-formed tables\<close>

text \<open>A slot is free, or holds a request whose id belongs to that slot.\<close>

definition req_inv :: "'a req_table_scheme \<Rightarrow> bool" where
  "req_inv s \<longleftrightarrow> (\<forall>i < MAX_REQS. req_id (reqs s i) \<noteq> -1 \<longrightarrow> req_slot (req_id (reqs s i)) = i)"

lemma req_slot_less [simp]: "req_slot i < MAX_REQS"
  by (simp add: req_slot_def MAX_REQS_def nat_less_iff)

lemma reqs_upd_req: "reqs (upd_req i f s) j = (if j = i then f (reqs s i) else reqs s j)"
  by (simp add: upd_req_def)

lemma reqs_upd_link:
  "reqs (upd_link p f s) j = (if p = Some j then f (reqs s j) else reqs s j)"
  by (cases p) (auto simp: upd_link_def upd_req_def)

lemma req_inv_init: "req_inv (req_init s)"
  by (simp add: req_inv_def req_init_def)

lemma reqs_unlink:
  "reqs (snd (req_unlink r s)) j =
     (if j = r then (reqs s j)\<lparr>nxt := None, prev := None, req_id := -1, message_ptr := None\<rparr>
      else
        let q1 = (if nxt (reqs s r) = Some j then (reqs s j)\<lparr>prev := prev (reqs s r)\<rparr> else reqs s j) in
        if prev (reqs s r) = Some j
        then q1\<lparr>nxt := nxt (reqs s r)\<rparr> else q1)"
  by (auto simp: req_unlink_def Let_def reqs_upd_req reqs_upd_link)

lemma req_id_unlink:
  "req_id (reqs (snd (req_unlink r s)) j) = (if j = r then -1 else req_id (reqs s j))"
  by (simp add: reqs_unlink Let_def)

lemma req_inv_unlink [dw_inv]: "req_inv s \<Longrightarrow> req_inv (snd (req_unlink r s))"
  by (auto simp: req_inv_def req_id_unlink)

lemma req_inv_alloc [dw_inv]: "req_inv s \<Longrightarrow> req_inv (snd (req_alloc s))"
  by (auto simp: req_inv_def req_alloc_def Let_def reqs_upd_req)

section \<open>Linked lists of requests\<close>

text \<open>
  \<open>dll s p h xs\<close>: from the slot \<open>h\<close> the \<^verbatim>\<open>next\<close> pointers lead through the slots \<open>xs\<close> and end,
  and the \<^verbatim>\<open>prev\<close> pointers lead back, the first of them to \<open>p\<close>.
\<close>

fun dll :: "'a req_table_scheme \<Rightarrow> nat option \<Rightarrow> nat option \<Rightarrow> nat list \<Rightarrow> bool" where
  "dll s p h [] \<longleftrightarrow> h = None"
| "dll s p h (x # xs) \<longleftrightarrow> h = Some x \<and> prev (reqs s x) = p \<and> dll s (Some x) (nxt (reqs s x)) xs"

lemma dll_cong:
  assumes "\<And>x. x \<in> set xs \<Longrightarrow> nxt (reqs s' x) = nxt (reqs s x) \<and> prev (reqs s' x) = prev (reqs s x)"
  shows "dll s' p h xs = dll s p h xs"
  using assms by (induction xs arbitrary: p h) auto

lemma dll_head: "dll s p h xs \<Longrightarrow> h = (case xs of [] \<Rightarrow> None | x # _ \<Rightarrow> Some x)"
  by (cases xs) auto

lemma dll_prev:
  "dll s p h (xs @ r # ys) \<Longrightarrow> prev (reqs s r) = (if xs = [] then p else Some (last xs))"
  by (induction xs arbitrary: p h) auto

lemma dll_next:
  "dll s p h (xs @ r # ys) \<Longrightarrow> nxt (reqs s r) = (case ys of [] \<Rightarrow> None | y # _ \<Rightarrow> Some y)"
  by (induction xs arbitrary: p h) (auto dest: dll_head)

lemma links_unlink:
  "nxt (reqs (snd (req_unlink r s)) j) =
     (if j = r then None else if prev (reqs s r) = Some j then nxt (reqs s r) else nxt (reqs s j))"
  "prev (reqs (snd (req_unlink r s)) j) =
     (if j = r then None else if nxt (reqs s r) = Some j then prev (reqs s r) else prev (reqs s j))"
  by (auto simp: reqs_unlink Let_def)

text \<open>Unlinking a request takes exactly its slot out of the list it is in.\<close>

lemma dll_unlink:
  assumes "dll s p h (xs @ r # ys)" "distinct (xs @ r # ys)" "\<forall>x \<in> set (xs @ r # ys). p \<noteq> Some x"
  shows "dll (snd (req_unlink r s)) p (if xs = [] then nxt (reqs s r) else h) (xs @ ys)"
  using assms
proof (induction xs arbitrary: p h)
  case Nil
  show ?case
  proof (cases ys)
    case Nil
    with Nil.prems show ?thesis by simp
  next
    case (Cons y zs)
    have y: "nxt (reqs s r) = Some y" "prev (reqs s r) = p" using Nil.prems Cons by simp_all
    have "dll (snd (req_unlink r s)) (Some y) (nxt (reqs s y)) zs = dll s (Some y) (nxt (reqs s y)) zs"
      using Nil.prems Cons y by (intro dll_cong) (auto simp: links_unlink)
    then show ?thesis using Nil.prems Cons y by (auto simp: links_unlink)
  qed
next
  case (Cons x xs)
  have IH: "dll (snd (req_unlink r s)) (Some x) (if xs = [] then nxt (reqs s r) else nxt (reqs s x)) (xs @ ys)"
    using Cons.prems by (intro Cons.IH) auto
  have r: "x \<noteq> r" "prev (reqs s r) = Some x \<longleftrightarrow> xs = []"
    using Cons.prems dll_prev [of s p h "x # xs" r ys] by auto
  have "nxt (reqs s r) \<noteq> Some x"
    using Cons.prems dll_next [of s p h "x # xs" r ys] by (auto split: list.splits)
  then have "nxt (reqs (snd (req_unlink r s)) x) = (if xs = [] then nxt (reqs s r) else nxt (reqs s x))"
      "prev (reqs (snd (req_unlink r s)) x) = p"
    using r Cons.prems by (auto simp: links_unlink)
  with IH Cons.prems show ?case by simp
qed

lemma dll_unlink_other:
  assumes "dll s p h zs" "r \<notin> set zs" "\<forall>z \<in> set zs. nxt (reqs s r) \<noteq> Some z \<and> prev (reqs s r) \<noteq> Some z"
  shows "dll (snd (req_unlink r s)) p h zs"
  using assms by (subst dll_cong [of zs _ s]) (auto simp: links_unlink)

section \<open>Properties\<close>

text \<open>C25. Allocation and lookup of requests. In a well-formed table, allocation takes the slot of the
  next id if that slot is free, and then looking up the id finds that slot; looking up the id of any
  other request still finds that request. It fails exactly if the slot of the next id is in use, and
  then all requests stay as they are. In both cases the table stays well-formed.\<close>

theorem req_alloc_lookup:
  assumes "req_inv s" "last_reqs s \<noteq> -1" "req_alloc s = (res, s')"
  shows "req_inv s' \<and> last_reqs s' = signed_take_bit 31 (last_reqs s + 1) \<and>
    res = (if req_id (reqs s (req_slot (last_reqs s))) = -1 then Some (req_slot (last_reqs s)) else None) \<and>
    (case res of
       None \<Rightarrow> reqs s' = reqs s
     | Some r \<Rightarrow> req_get_by_id (last_reqs s) s' = Some r \<and> fwd_replies_left (reqs s' r) = -1 \<and>
         curr_cmd (reqs s' r) = None \<and> (\<forall>j. j \<noteq> r \<longrightarrow> reqs s' j = reqs s j)) \<and>
    (\<forall>i. i \<noteq> last_reqs s \<longrightarrow> i \<noteq> -1 \<longrightarrow> req_get_by_id i s' = req_get_by_id i s)"
proof -
  let ?r = "req_slot (last_reqs s)" and ?n = "signed_take_bit 31 (last_reqs s + 1)"
  have inv: "req_inv s'" using req_inv_alloc [OF assms(1)] assms(3) by simp
  show ?thesis
  proof (cases "req_id (reqs s ?r) = -1")
    case False
    then have "res = None" "s' = s\<lparr>last_reqs := ?n\<rparr>" using assms(3) by (auto simp: req_alloc_def Let_def)
    then show ?thesis using inv False by (simp add: req_get_by_id_def)
  next
    case True
    then have "res = Some ?r" and s': "s' = upd_req ?r (\<lambda>q. q\<lparr>req_id := last_reqs s, curr_cmd := None,
        fwd_replies_left := -1, nxt := None, prev := None\<rparr>) (s\<lparr>last_reqs := ?n\<rparr>)"
      using assms(3) by (auto simp: req_alloc_def Let_def)
    moreover have "req_get_by_id i s' = req_get_by_id i s" if "i \<noteq> last_reqs s" "i \<noteq> -1" for i
      using that True by (simp add: s' req_get_by_id_def reqs_upd_req)
    ultimately show ?thesis using inv True by (simp add: req_get_by_id_def reqs_upd_req upd_req_def)
  qed
qed

theorem req_alloc_lookup_witness:
  "\<exists>s'. req_alloc (req_init \<lparr>reqs = \<lambda>i. zero_req, last_reqs = 65541\<rparr>) = (Some 5, s') \<and>
     req_get_by_id 65541 s' = Some 5"
proof -
  let ?s = "req_init \<lparr>reqs = \<lambda>i. zero_req, last_reqs = 65541\<rparr>"
  obtain res s' where a: "req_alloc ?s = (res, s')" by (cases "req_alloc ?s")
  have "last_reqs ?s = 65541" "req_slot 65541 = 5" "req_id (reqs ?s 5) = -1"
    by (simp_all add: req_init_def req_slot_def MAX_REQS_def)
  with req_alloc_lookup [OF req_inv_init _ a] a show ?thesis by auto
qed

text \<open>Releasing a request: its id is no longer found, the other ids are found as before, and the
  list of requests that it was in, of which the slots are distinct, is the same list without it.\<close>

theorem req_unlink_list:
  assumes "req_inv s" "dll s None h (xs @ r # ys)" "distinct (xs @ r # ys)" "r < MAX_REQS"
    "req_id (reqs s r) \<noteq> -1" "req_unlink r s = (n, s')"
  shows "req_inv s' \<and> n = (case ys of [] \<Rightarrow> None | y # _ \<Rightarrow> Some y) \<and>
    req_get_by_id (req_id (reqs s r)) s' = None \<and>
    (\<forall>i. i \<noteq> req_id (reqs s r) \<longrightarrow> i \<noteq> -1 \<longrightarrow> req_get_by_id i s' = req_get_by_id i s) \<and>
    dll s' None (if xs = [] then n else h) (xs @ ys)"
proof -
  have s': "s' = snd (req_unlink r s)" "n = nxt (reqs s r)"
    using assms(6) by (auto simp: req_unlink_def Let_def)
  have "req_slot (req_id (reqs s r)) = r" using assms(1,4,5) by (simp add: req_inv_def)
  moreover have "req_inv s'" using req_inv_unlink [OF assms(1)] s' by simp
  moreover have "\<forall>x \<in> set (xs @ r # ys). None \<noteq> Some x" by simp
  from dll_unlink [OF assms(2,3) this] have "dll s' None (if xs = [] then n else h) (xs @ ys)"
    unfolding s' .
  ultimately show ?thesis using assms(5) s' dll_next [OF assms(2)]
    by (auto simp: req_get_by_id_def req_id_unlink)
qed

theorem req_unlink_list_witness:
  "\<exists>s'. req_alloc (req_init \<lparr>reqs = \<lambda>i. zero_req, last_reqs = 7\<rparr>) = (Some 7, s') \<and>
     req_get_by_id 7 (snd (req_unlink 7 s')) = None"
proof -
  let ?s = "snd (req_alloc (req_init \<lparr>reqs = \<lambda>i. zero_req, last_reqs = 7\<rparr>))"
  have slot: "fst (req_alloc (req_init \<lparr>reqs = \<lambda>i. zero_req, last_reqs = 7\<rparr>)) = Some 7"
      "req_id (reqs ?s 7) = 7" "nxt (reqs ?s 7) = None" "prev (reqs ?s 7) = None"
    by (simp_all add: req_alloc_def req_init_def req_slot_def MAX_REQS_def Let_def upd_req_def)
  obtain n s' where u: "req_unlink 7 ?s = (n, s')" by (cases "req_unlink 7 ?s")
  have "dll ?s None (Some 7) ([] @ 7 # [])" using slot by simp
  from req_unlink_list [OF req_inv_alloc [OF req_inv_init] this _ _ _ u] slot u show ?thesis
    by (intro exI [of _ ?s]) (auto simp: MAX_REQS_def prod_eq_iff)
qed

text \<open>The id \<open>-1\<close> marks a free slot and is not rejected by the lookup: as long as the last slot of the table is
  free, \<^verbatim>\<open>req_get_by_id(-1)\<close> returns that free slot, which has no message, instead of \<^verbatim>\<open>NULL\<close>.\<close>

theorem req_get_by_id_minus_one:
  "req_get_by_id (-1) s = (if req_id (reqs s 65535) = -1 then Some 65535 else None) \<and>
   req_get_by_id (-1) (req_init s) = Some 65535 \<and> req_get_message 65535 (req_init s) = None"
  by (simp add: req_get_by_id_def req_slot_def MAX_REQS_def req_init_def req_get_message_def zero_req_def)

end
