(* ===== verification/DW_Connection.thy ===== *)
theory DW_Connection
  imports DW_Message DW_Request
begin

text \<open>
  Connections: \<^verbatim>\<open>src/connection.h\<close> and \<^verbatim>\<open>src/connection.c\<close>. A \<^verbatim>\<open>conn_info_t*\<close> is an index into
  \<^verbatim>\<open>conns[]\<close>; the two buffers of a connection are byte lists (\<open>None\<close> after \<^verbatim>\<open>free()\<close>), and the
  pointers into them (\<^verbatim>\<open>curr_recv_buf\<close>, \<^verbatim>\<open>curr_proc_buf\<close>, \<^verbatim>\<open>curr_send_buf\<close>) are offsets. What a system
  call or an OpenSSL call returns is an argument of the operation that makes it; the bytes that
  a send operation hands to the kernel are a part of its result. The mbufs of the DPDK
  transport are left out.
\<close>

section \<open>Definitions\<close>

definition MAX_CONNS :: nat where "MAX_CONNS = 8192"

datatype conn_status_t = NOT_INIT | READY | SENDING | CONNECTING | SSL_HANDSHAKE | CLOSING | CLOSE

datatype reply_mode_t = REPLY_MODE_NORMAL | REPLY_MODE_SENDFILE | REPLY_MODE_OTHER

text \<open>The error codes that the code tells apart (\<^verbatim>\<open>EWOULDBLOCK\<close> is \<^verbatim>\<open>EAGAIN\<close> on Linux).\<close>

datatype errno_t = EAGAIN | EPIPE | ECONNRESET | EINPROGRESS | E_OTHER

datatype ssl_error_t = SSL_ERROR_WANT_READ | SSL_ERROR_WANT_WRITE | SSL_ERROR_ZERO_RETURN | SSL_ERROR_OTHER

record conn_info_t =
  c_proto :: proto_t
  sock :: int
  status :: conn_status_t
  target :: sockaddr_in
  recv_buf :: "bytes option"
  send_buf :: "bytes option"
  curr_recv_buf :: nat
  curr_recv_size :: nat
  curr_proc_buf :: nat
  curr_send_buf :: nat
  curr_send_size :: nat
  file_fd :: int
  file_offset :: int
  file_remaining :: nat
  reply_mode :: reply_mode_t
  req_list :: "nat option"
  serialize_request :: nat
  parent_thread :: nat
  busy :: bool
  enable_defrag :: bool
  is_listen :: bool
  use_ssl :: bool
  ssl :: "nat option"
  ssl_handshake_done :: bool
  ssl_is_server :: bool

record dw_state = req_table +
  conns :: "nat \<Rightarrow> conn_info_t"

definition upd_conn :: "nat \<Rightarrow> (conn_info_t \<Rightarrow> conn_info_t) \<Rightarrow> dw_state \<Rightarrow> dw_state" where
  "upd_conn i f s = s\<lparr>conns := (conns s)(i := f (conns s i))\<rparr>"

text \<open>The accesses to a buffer: a buffer that was freed is a null pointer.\<close>

definition the_buf :: "bytes option \<Rightarrow> bytes res" where
  "the_buf b = (case b of None \<Rightarrow> Inl Null_Deref | Some bs \<Rightarrow> Inr bs)"

fun conn_status_num :: "conn_status_t \<Rightarrow> nat" where
  "conn_status_num NOT_INIT = 0"
| "conn_status_num READY = 1"
| "conn_status_num SENDING = 2"
| "conn_status_num CONNECTING = 3"
| "conn_status_num SSL_HANDSHAKE = 4"
| "conn_status_num CLOSING = 5"
| "conn_status_num CLOSE = 6"

text \<open>The table of names has \<^verbatim>\<open>STATUS_NUMBER\<close> entries; those without an initializer are null.\<close>

definition conn_status_str :: "conn_status_t \<Rightarrow> string option" where
  "conn_status_str s =
     [Some ''NOT INIT'', Some ''READY'', Some ''SENDING'', Some ''CONNECTING'', Some ''SSL HANDSHAKE'',
      Some ''CLOSE'', None] ! conn_status_num s"

definition conn_do_ssl_handshake :: "int \<Rightarrow> ssl_error_t \<Rightarrow> nat \<Rightarrow> dw_state \<Rightarrow> int \<times> dw_state" where
  "conn_do_ssl_handshake ret err c s =
     (if status (conns s c) \<noteq> SSL_HANDSHAKE then (1, s)
      else if ret \<le> 0 then
        (if err = SSL_ERROR_WANT_READ \<or> err = SSL_ERROR_WANT_WRITE then (0, s) else (-1, s))
      else (1, upd_conn c (\<lambda>x. x\<lparr>ssl_handshake_done := True, status := READY\<rparr>) s))"

definition conn_init :: "dw_state \<Rightarrow> dw_state" where
  "conn_init s = s\<lparr>conns := \<lambda>i. if i < MAX_CONNS
     then (conns s i)\<lparr>recv_buf := None, send_buf := None, sock := -1, busy := False, use_ssl := False,
            ssl := None, ssl_handshake_done := False, ssl_is_server := False\<rparr>
     else conns s i\<rparr>"

definition conn_set_status :: "conn_status_t \<Rightarrow> conn_info_t \<Rightarrow> conn_status_t \<times> conn_info_t" where
  "conn_set_status st c = (status c, c\<lparr>status := st\<rparr>)"

definition conn_set_status_by_id :: "nat \<Rightarrow> conn_status_t \<Rightarrow> dw_state \<Rightarrow> conn_status_t \<times> dw_state" where
  "conn_set_status_by_id i st s =
     (fst (conn_set_status st (conns s i)), upd_conn i (\<lambda>c. snd (conn_set_status st c)) s)"

definition conn_get_status_by_id :: "nat \<Rightarrow> dw_state \<Rightarrow> conn_status_t" where
  "conn_get_status_by_id i s = status (conns s i)"

definition conn_req_add :: "nat \<Rightarrow> dw_state \<Rightarrow> nat option \<times> dw_state" where
  "conn_req_add c s =
     (case req_alloc s of
        (None, s1) \<Rightarrow> (None, s1)
      | (Some r, s1) \<Rightarrow>
          let s2 = upd_req r (\<lambda>q. q\<lparr>conn_id := int c, req_target := target (conns s1 c),
                     nxt := req_list (conns s1 c)\<rparr>) s1;
              s3 = upd_link (nxt (reqs s2 r)) (prev_update (\<lambda>_. Some r)) s2
          in (Some r, upd_conn c (req_list_update (\<lambda>_. Some r)) s3))"

text \<open>The loop of \<^verbatim>\<open>conn_reset\<close> that frees the requests of a connection; the other loop only logs.\<close>

partial_function (option) reset_loop :: "nat option \<Rightarrow> dw_state \<Rightarrow> dw_state option" where
  "reset_loop temp s =
     (case temp of
        None \<Rightarrow> Some s
      | Some r \<Rightarrow> (case req_unlink r s of (n, s') \<Rightarrow> reset_loop n s'))"

definition conn_reset :: "nat \<Rightarrow> dw_state \<Rightarrow> dw_state option" where
  "conn_reset c s = reset_loop (req_list (conns s c)) s"

text \<open>
  \<^verbatim>\<open>conn_req_remove\<close>: with defragmentation, the bytes after the message of the request move down over it,
  and the pointers of the requests that came later (reached over \<^verbatim>\<open>prev\<close>) are corrected. A pointer
  that would leave the buffer, or the shift of a null pointer, is a fault.
\<close>

definition shift_ptr :: "nat \<Rightarrow> nat \<Rightarrow> nat res" where
  "shift_ptr n p = (if n \<le> p then Inr (p - n) else Inl Out_Of_Bounds)"

definition shift_req :: "nat \<Rightarrow> req_info_t \<Rightarrow> req_info_t res" where
  "shift_req n q =
     (case message_ptr q of
        None \<Rightarrow> Inl Null_Deref
      | Some p \<Rightarrow> rbind (shift_ptr n p) (\<lambda>p'.
          let q1 = q\<lparr>message_ptr := Some p'\<rparr> in
          case curr_cmd q1 of
            None \<Rightarrow> Inr q1
          | Some c \<Rightarrow> rbind (shift_ptr n c) (\<lambda>c'. Inr (q1\<lparr>curr_cmd := Some c'\<rparr>))))"

partial_function (option) shift_newer :: "nat \<Rightarrow> nat option \<Rightarrow> dw_state \<Rightarrow> dw_state res option" where
  "shift_newer n temp s =
     (case temp of
        None \<Rightarrow> Some (Inr s)
      | Some r \<Rightarrow>
          (case shift_req n (reqs s r) of
             Inl e \<Rightarrow> Some (Inl e)
           | Inr q \<Rightarrow> shift_newer n (prev q) (upd_req r (\<lambda>_. q) s)))"

definition defrag_conn :: "nat \<Rightarrow> nat \<Rightarrow> conn_info_t \<Rightarrow> conn_info_t res" where
  "defrag_conn p n c =
     rbind (the_buf (recv_buf c)) (\<lambda>b.
       if curr_recv_buf c < p + n then Inl Out_Of_Bounds
       else rbind (slice b (p + n) (curr_recv_buf c - (p + n))) (\<lambda>rest.
         rbind (blit b p rest) (\<lambda>b'. rbind (shift_ptr n (curr_recv_buf c)) (\<lambda>cr.
         rbind (shift_ptr n (curr_proc_buf c)) (\<lambda>cp.
           Inr (c\<lparr>recv_buf := Some b', curr_recv_buf := cr, curr_proc_buf := cp,
                  curr_recv_size := curr_recv_size c + n\<rparr>))))))"

definition req_defrag :: "nat \<Rightarrow> nat \<Rightarrow> dw_state \<Rightarrow> dw_state res option" where
  "req_defrag c r s =
     (case message_ptr (reqs s r) of
        None \<Rightarrow> Some (Inr s)
      | Some p \<Rightarrow>
          if \<not> (enable_defrag (conns s c) \<and> p < BUF_SIZE) then Some (Inr s)
          else
            (case rbind (the_buf (recv_buf (conns s c))) (\<lambda>b. rbind (get_req_size b p) (\<lambda>n.
                    rbind (defrag_conn p n (conns s c)) (\<lambda>c'. Inr (n, c')))) of
               Inl e \<Rightarrow> Some (Inl e)
             | Inr (n, c') \<Rightarrow> shift_newer n (prev (reqs s r)) (upd_conn c (\<lambda>_. c') s)))"

definition conn_req_remove :: "nat \<Rightarrow> nat \<Rightarrow> dw_state \<Rightarrow> (nat option \<times> dw_state) res option" where
  "conn_req_remove c r s =
     (case req_defrag c r s of
        None \<Rightarrow> None
      | Some (Inl e) \<Rightarrow> Some (Inl e)
      | Some (Inr s1) \<Rightarrow>
          let s2 = (if req_list (conns s1 c) = Some r
                    then upd_conn c (req_list_update (\<lambda>_. nxt (reqs s1 r))) s1 else s1)
          in Some (Inr (req_unlink r s2)))"

text \<open>The searches of \<^verbatim>\<open>conns[]\<close>: the index of the first match, or -1.\<close>

definition conn_find :: "(conn_info_t \<Rightarrow> bool) \<Rightarrow> dw_state \<Rightarrow> int" where
  "conn_find P s = (case find (\<lambda>i. P (conns s i)) [0..<MAX_CONNS] of None \<Rightarrow> -1 | Some i \<Rightarrow> int i)"

definition conn_find_existing :: "nat \<Rightarrow> sockaddr_in \<Rightarrow> proto_t \<Rightarrow> dw_state \<Rightarrow> int" where
  "conn_find_existing curr_thread tgt pr s =
     conn_find (\<lambda>c. pr = DPDK \<and> c_proto c = DPDK \<and> parent_thread c = curr_thread \<or>
       sock c \<noteq> -1 \<and> \<not> is_listen c \<and>
       (pr = UDP \<and> parent_thread c = curr_thread \<or>
        pr = TCP \<and> sin_port (target c) = sin_port tgt \<and> sin_addr (target c) = sin_addr tgt \<and> c_proto c = pr)) s"

definition conn_find_sock :: "int \<Rightarrow> dw_state \<Rightarrow> int res" where
  "conn_find_sock sk s = (if sk = -1 then Inl Assert_Failed else Inr (conn_find (\<lambda>c. sock c = sk) s))"

definition conn_del_id :: "int \<Rightarrow> dw_state \<Rightarrow> dw_state res option" where
  "conn_del_id i s =
     (if \<not> (i \<ge> 0 \<and> i < int MAX_CONNS) then Some (Inl Assert_Failed)
      else map_option (\<lambda>s1. Inr (upd_conn (nat i) (sock_update (\<lambda>_. -1)) s1)) (conn_reset (nat i) s))"

definition conn_del_sock :: "int \<Rightarrow> dw_state \<Rightarrow> (int \<times> dw_state) res option" where
  "conn_del_sock sk s =
     (case conn_find_sock sk s of
        Inl e \<Rightarrow> Some (Inl e)
      | Inr i \<Rightarrow>
          if i \<noteq> -1 then map_option (\<lambda>r. rbind r (\<lambda>s1. Inr (i, s1))) (conn_del_id i s)
          else Some (Inr (i, s)))"

definition conn_free :: "int \<Rightarrow> dw_state \<Rightarrow> dw_state option" where
  "conn_free i s =
     (if i < 0 then Some s
      else map_option (\<lambda>s1. upd_conn (nat i) (\<lambda>c.
             (if use_ssl c then c\<lparr>ssl := None\<rparr> else c)
               \<lparr>recv_buf := None, send_buf := None, status := CLOSE, sock := -1, busy := False,
                ssl_handshake_done := False, ssl_is_server := False\<rparr>) s1)
           (conn_reset (nat i) s))"

text \<open>
  \<^verbatim>\<open>conn_alloc\<close>: the first free entry is claimed. The arguments say whether the two \<^verbatim>\<open>calloc()\<close> calls
  return memory and which thread calls.
\<close>

definition fresh_buf :: "bytes res" where
  "fresh_buf = set_cmd (replicate BUF_SIZE 0) (message_first_cmd 0) EOM"

definition conn_fresh ::
    "nat \<Rightarrow> int \<Rightarrow> sockaddr_in \<Rightarrow> proto_t \<Rightarrow> bytes \<Rightarrow> bytes \<Rightarrow> conn_info_t \<Rightarrow> conn_info_t" where
  "conn_fresh curr_thread sk tgt pr rb sb c = c\<lparr>c_proto := pr, target := tgt, sock := sk,
     status := (if pr = TCP then NOT_INIT else READY), recv_buf := Some rb, send_buf := Some sb,
     parent_thread := curr_thread, use_ssl := False, ssl := None, ssl_handshake_done := False,
     ssl_is_server := False, curr_recv_buf := 0, curr_proc_buf := 0, curr_recv_size := BUF_SIZE,
     curr_send_buf := 0, curr_send_size := 0, serialize_request := 0\<rparr>"

definition conn_alloc ::
    "bool \<Rightarrow> bool \<Rightarrow> nat \<Rightarrow> int \<Rightarrow> sockaddr_in \<Rightarrow> proto_t \<Rightarrow> dw_state \<Rightarrow> (int \<times> dw_state) res" where
  "conn_alloc recv_ok send_ok curr_thread sk tgt pr s =
     (case find (\<lambda>i. \<not> busy (conns s i)) [0..<MAX_CONNS] of
        None \<Rightarrow> Inr (-1, s)
      | Some i \<Rightarrow>
          let s1 = upd_conn i (busy_update (\<lambda>_. True)) s in
          if \<not> recv_ok \<or> \<not> send_ok then Inr (-1, s1)
          else rbind fresh_buf (\<lambda>sb. rbind fresh_buf (\<lambda>rb.
            Inr (int i, upd_conn i (conn_fresh curr_thread sk tgt pr rb sb) s1))))"

definition get_send_buf :: "nat \<Rightarrow> conn_info_t \<Rightarrow> nat res" where
  "get_send_buf sz c =
     (if \<not> curr_send_buf c + curr_send_size c + sz \<le> BUF_SIZE then Inl Assert_Failed
      else Inr (curr_send_buf c + curr_send_size c))"

text \<open>
  The new message is placed at \<^verbatim>\<open>send_buf + curr_send_size\<close>; its \<^verbatim>\<open>req_size\<close> announces the space.
\<close>

definition conn_prepare_send_message :: "conn_info_t \<Rightarrow> (nat \<times> conn_info_t) res" where
  "conn_prepare_send_message c =
     rbind (the_buf (send_buf c)) (\<lambda>b.
       rbind (set_req_size b (curr_send_size c)
                (nat ((int BUF_SIZE - int (curr_send_buf c + curr_send_size c)) mod 2 ^ 32))) (\<lambda>b'.
         Inr (curr_send_size c, c\<lparr>send_buf := Some b'\<rparr>)))"

definition conn_prepare_recv_message :: "conn_info_t \<Rightarrow> (nat option \<times> conn_info_t) res" where
  "conn_prepare_recv_message c =
     (let msg_size = nat ((int (curr_recv_buf c) - int (curr_proc_buf c)) mod 2 ^ 64);
          m = curr_proc_buf c in
      if msg_size < sizeof_message_t then Inr (None, c)
      else rbind (the_buf (recv_buf c)) (\<lambda>b. rbind (get_req_size b m) (\<lambda>n.
        if msg_size < n then Inr (None, c)
        else if \<not> (n \<ge> sizeof_message_t \<and> n \<le> BUF_SIZE) then Inl Assert_Failed
        else Inr (Some m, c\<lparr>curr_proc_buf := curr_proc_buf c + n\<rparr>))))"

text \<open>
  The outcomes of the calls that the send operations make: each is the returned number with
  the error code that goes with it. \<open>send_res\<close> lists the outcomes of the consecutive calls of
  \<^verbatim>\<open>send()\<close> in the loop of \<^verbatim>\<open>conn_send_v2\<close>.
\<close>

record send_env =
  sendto_res :: "int \<times> errno_t"
  ssl_write_res :: "int \<times> ssl_error_t"
  send_res :: "(int \<times> errno_t) list"
  sendfile_res :: "int \<times> errno_t"

definition sent_bytes :: "int \<Rightarrow> conn_info_t \<Rightarrow> bytes res" where
  "sent_bytes sent c = rbind (the_buf (send_buf c)) (\<lambda>b. slice b (curr_send_buf c) (nat sent))"

definition advance_send :: "int \<Rightarrow> conn_info_t \<Rightarrow> conn_info_t" where
  "advance_send sent c =
     (let c1 = c\<lparr>curr_send_buf := curr_send_buf c + nat sent, curr_send_size := curr_send_size c - nat sent\<rparr>
      in if curr_send_size c1 = 0 then c1\<lparr>curr_send_buf := 0\<rparr> else c1)"

definition conn_ssl_send :: "send_env \<Rightarrow> conn_info_t \<Rightarrow> (int \<times> bytes \<times> conn_info_t) res" where
  "conn_ssl_send env c =
     (case ssl_write_res env of (sent, err) \<Rightarrow>
        if sent \<le> 0 then
          (if err = SSL_ERROR_WANT_WRITE \<or> err = SSL_ERROR_WANT_READ then Inr (0, [], c)
           else if err = SSL_ERROR_ZERO_RETURN then Inr (0, [], c\<lparr>status := CLOSING\<rparr>)
           else Inr (-1, [], c))
        else rbind (sent_bytes sent c) (\<lambda>out. Inr (sent, out, advance_send sent c)))"

definition conn_send :: "send_env \<Rightarrow> conn_info_t \<Rightarrow> (int \<times> bytes \<times> conn_info_t) res" where
  "conn_send env c =
     (if use_ssl c then conn_ssl_send env c
      else case sendto_res env of (sent, errno) \<Rightarrow>
        if sent = 0 then Inr (0, [], c)
        else if sent = -1 then
          (if errno = EAGAIN then Inr (0, [], snd (conn_set_status SENDING c))
           else if errno = EPIPE \<or> errno = ECONNRESET then Inr (0, [], c\<lparr>status := CLOSING\<rparr>)
           else Inr (-1, [], c))
        else rbind (sent_bytes sent c) (\<lambda>out.
          let c1 = advance_send sent c in
          Inr (sent, out,
            if curr_send_size c1 = 0 \<and> status c1 = SENDING then snd (conn_set_status READY c1) else c1)))"

text \<open>
  The header loop of \<^verbatim>\<open>conn_send_v2\<close>, over the outcomes of its \<^verbatim>\<open>send()\<close> calls. \<open>None\<close>: the loop is still
  spinning after all the outcomes. An error other than the four that are tested is not handled: the
  returned -1 is added to the pointer, which for a pointer to the start of the buffer leaves it.
\<close>

datatype header_end = Header_Sent | Header_Closed

fun send_header_loop ::
    "(int \<times> errno_t) list \<Rightarrow> bytes \<Rightarrow> conn_info_t \<Rightarrow> (header_end \<times> bytes \<times> conn_info_t) res option" where
  "send_header_loop [] out c = (if curr_send_size c = 0 then Some (Inr (Header_Sent, out, c)) else None)"
| "send_header_loop ((sent, errno) # rs) out c =
     (if curr_send_size c = 0 then Some (Inr (Header_Sent, out, c))
      else if sent \<le> 0 \<and> errno = EAGAIN then send_header_loop rs out c
      else if sent \<le> 0 \<and> (errno = EPIPE \<or> errno = ECONNRESET)
      then Some (Inr (Header_Closed, out, c\<lparr>status := CLOSING\<rparr>))
      else if int (curr_send_buf c) + sent < 0 then Some (Inl Out_Of_Bounds)
      else case sent_bytes sent c of
             Inl e \<Rightarrow> Some (Inl e)
           | Inr bs \<Rightarrow> send_header_loop rs (out @ bs)
               (c\<lparr>curr_send_buf := nat (int (curr_send_buf c) + sent),
                  curr_send_size := nat (int (curr_send_size c) - sent)\<rparr>))"

definition send_file_phase :: "int \<times> errno_t \<Rightarrow> conn_info_t \<Rightarrow> int \<times> conn_info_t" where
  "send_file_phase res c =
     (let finish = (\<lambda>c. (1, if file_remaining c = 0
            then snd (conn_set_status READY (c\<lparr>file_fd := -1, file_offset := 0, curr_send_buf := 0\<rparr>)) else c))
      in if file_remaining c > 0 then
           (case res of (released, errno) \<Rightarrow>
              if released = -1 then
                (if errno = EAGAIN then (0, snd (conn_set_status SENDING c))
                 else if errno = EPIPE \<or> errno = ECONNRESET then (-1, c\<lparr>status := CLOSING\<rparr>)
                 else (-1, c))
              else
                let c1 = c\<lparr>file_remaining := file_remaining c - nat released,
                           file_offset := file_offset c + released\<rparr> in
                if file_remaining c1 > 0 then (0, snd (conn_set_status SENDING c1)) else finish c1)
         else finish c)"

definition conn_send_v2 :: "send_env \<Rightarrow> conn_info_t \<Rightarrow> (int \<times> bytes \<times> conn_info_t) res option" where
  "conn_send_v2 env c =
     (case send_header_loop (send_res env) [] c of
        None \<Rightarrow> None
      | Some (Inl e) \<Rightarrow> Some (Inl e)
      | Some (Inr (Header_Closed, out, c1)) \<Rightarrow> Some (Inr (-1, out, c1))
      | Some (Inr (Header_Sent, out, c1)) \<Rightarrow>
          (case send_file_phase (sendfile_res env) c1 of (r, c2) \<Rightarrow> Some (Inr (r, out, c2))))"

definition conn_start_sendfile ::
    "send_env \<Rightarrow> sockaddr_in \<Rightarrow> int \<Rightarrow> int \<Rightarrow> nat \<Rightarrow> conn_info_t \<Rightarrow> (int \<times> bytes \<times> conn_info_t) res option" where
  "conn_start_sendfile env tgt fd off sz c =
     (case rbind (the_buf (send_buf c)) (\<lambda>b. set_req_size b 0 sz) of
        Inl e \<Rightarrow> Some (Inl e)
      | Inr b' \<Rightarrow>
          let c1 = c\<lparr>target := tgt, send_buf := Some b'\<rparr>;
              c2 = (if curr_send_size c1 = 0 then c1\<lparr>curr_send_buf := 0\<rparr> else c1);
              c3 = c2\<lparr>curr_send_size := sizeof_message_t, file_fd := fd, file_offset := off,
                      file_remaining := nat ((int sz - int sizeof_message_t) mod 2 ^ 64)\<rparr>
          in if status c3 = CONNECTING \<or> status c3 = SSL_HANDSHAKE \<or> status c3 = NOT_INIT
             then Some (Inr (0, [], c3))
             else conn_send_v2 env c3)"

definition conn_start_send :: "send_env \<Rightarrow> sockaddr_in \<Rightarrow> conn_info_t \<Rightarrow> (int \<times> bytes \<times> conn_info_t) res" where
  "conn_start_send env tgt c =
     rbind (the_buf (send_buf c)) (\<lambda>b. rbind (get_req_size b (curr_send_size c)) (\<lambda>n.
       let c1 = c\<lparr>target := tgt\<rparr>;
           c2 = (if curr_send_size c1 = 0 then c1\<lparr>curr_send_buf := 0\<rparr> else c1);
           c3 = c2\<lparr>curr_send_size := curr_send_size c2 + n\<rparr>
       in if status c3 = CONNECTING \<or> status c3 = SSL_HANDSHAKE \<or> status c3 = NOT_INIT
          then Inr (0, [], c3) else conn_send env c3))"

text \<open>
  Receiving: the outcome of \<^verbatim>\<open>recvfrom()\<close> or \<^verbatim>\<open>SSL_read()\<close>, the bytes it stores and the source
  address that \<^verbatim>\<open>recvfrom()\<close> leaves in \<^verbatim>\<open>target\<close>.
\<close>

record recv_env =
  recvfrom_res :: "int \<times> errno_t"
  ssl_read_res :: "int \<times> ssl_error_t"
  recv_data :: bytes
  recv_from :: sockaddr_in

definition store_recv :: "int \<Rightarrow> bytes \<Rightarrow> conn_info_t \<Rightarrow> (int \<times> conn_info_t) res" where
  "store_recv received bs c =
     rbind (the_buf (recv_buf c)) (\<lambda>b. rbind (blit b (curr_recv_buf c) bs) (\<lambda>b'.
       Inr (1, c\<lparr>recv_buf := Some b', curr_recv_buf := curr_recv_buf c + nat received,
                 curr_recv_size := curr_recv_size c - nat received\<rparr>)))"

definition conn_ssl_recv :: "recv_env \<Rightarrow> conn_info_t \<Rightarrow> (int \<times> conn_info_t) res" where
  "conn_ssl_recv env c =
     (if status c = SSL_HANDSHAKE then Inr (1, c)
      else case ssl_read_res env of (received, err) \<Rightarrow>
        if received = 0 then Inr (0, c)
        else if received < 0 then
          (if err = SSL_ERROR_WANT_READ \<or> err = SSL_ERROR_WANT_WRITE then Inr (-1, c) else Inr (0, c))
        else store_recv received (recv_data env) c)"

definition conn_recv :: "recv_env \<Rightarrow> conn_info_t \<Rightarrow> (int \<times> conn_info_t) res" where
  "conn_recv env c =
     (if use_ssl c then conn_ssl_recv env c
      else case recvfrom_res env of (received, errno) \<Rightarrow>
        let c1 = c\<lparr>target := recv_from env\<rparr> in
        if received = 0 then Inr (0, c1)
        else if received = -1 \<and> errno = EAGAIN then Inr (-1, c1)
        else if received = -1 then Inr (0, c1)
        else store_recv received (recv_data env) c1)"

definition conn_flush :: "send_env \<Rightarrow> conn_info_t \<Rightarrow> (int \<times> bytes \<times> conn_info_t) res option" where
  "conn_flush env c =
     (if reply_mode c = REPLY_MODE_NORMAL then Some (conn_send env c)
      else if reply_mode c = REPLY_MODE_SENDFILE then conn_send_v2 env c
      else Some (Inr (-1, [], c)))"

text \<open>\<^verbatim>\<open>conn_enable_ssl\<close>: the arguments are what \<^verbatim>\<open>SSL_new()\<close> and \<^verbatim>\<open>SSL_set_fd()\<close> return.\<close>

definition conn_enable_ssl :: "nat option \<Rightarrow> bool \<Rightarrow> int \<Rightarrow> bool \<Rightarrow> dw_state \<Rightarrow> int \<times> dw_state" where
  "conn_enable_ssl new_ssl set_fd_ok i is_server s =
     (if i < 0 \<or> i \<ge> int MAX_CONNS then (-1, s)
      else if sock (conns s (nat i)) < 0 then (-1, s)
      else if use_ssl (conns s (nat i)) then (0, s)
      else case new_ssl of
        None \<Rightarrow> (-1, upd_conn (nat i) (ssl_update (\<lambda>_. None)) s)
      | Some h \<Rightarrow>
          if \<not> set_fd_ok then (-1, upd_conn (nat i) (ssl_update (\<lambda>_. None)) s)
          else (1, upd_conn (nat i) (\<lambda>c. c\<lparr>ssl := Some h, use_ssl := True, ssl_handshake_done := False,
                 ssl_is_server := is_server, status := SSL_HANDSHAKE\<rparr>) s))"

section \<open>Invariant\<close>

definition conn_inv :: "conn_info_t \<Rightarrow> bool" where
  "conn_inv c \<longleftrightarrow>
     map_option length (recv_buf c) = Some BUF_SIZE \<and> map_option length (send_buf c) = Some BUF_SIZE \<and>
     curr_proc_buf c \<le> curr_recv_buf c \<and> curr_recv_buf c + curr_recv_size c = BUF_SIZE \<and>
     curr_send_buf c + curr_send_size c \<le> BUF_SIZE"

lemma conn_invE:
  assumes "conn_inv c"
  obtains rb sb where "recv_buf c = Some rb" "send_buf c = Some sb" "length rb = BUF_SIZE"
    "length sb = BUF_SIZE" "curr_proc_buf c \<le> curr_recv_buf c"
    "curr_recv_buf c + curr_recv_size c = BUF_SIZE" "curr_send_buf c + curr_send_size c \<le> BUF_SIZE"
  using assms by (auto simp: conn_inv_def)

text \<open>The bytes queued for sending, and the received bytes that no message was made of yet.\<close>

definition pending :: "conn_info_t \<Rightarrow> bytes" where
  "pending c = (case send_buf c of None \<Rightarrow> []
     | Some b \<Rightarrow> take (curr_send_size c) (drop (curr_send_buf c) b))"

definition unproc :: "conn_info_t \<Rightarrow> bytes" where
  "unproc c = (case recv_buf c of None \<Rightarrow> []
     | Some b \<Rightarrow> take (curr_recv_buf c - curr_proc_buf c) (drop (curr_proc_buf c) b))"

lemma length_pending: "conn_inv c \<Longrightarrow> length (pending c) = curr_send_size c"
  by (erule conn_invE) (simp add: pending_def)

lemma length_unproc: "conn_inv c \<Longrightarrow> length (unproc c) = curr_recv_buf c - curr_proc_buf c"
  by (erule conn_invE) (simp add: unproc_def)

lemma fresh_buf_ok: "\<exists>b. fresh_buf = Inr b \<and> length b = BUF_SIZE"
  unfolding fresh_buf_def set_cmd_def message_first_cmd_def
  using wr_ok [of "0 + sizeof_message_t" 4 "replicate BUF_SIZE 0" "nat_of_command EOM"]
  by (simp add: sizeof_defs BUF_SIZE_def del: nat_of_command.simps)

lemma conn_inv_fresh: "length rb = BUF_SIZE \<Longrightarrow> length sb = BUF_SIZE \<Longrightarrow> conn_inv (conn_fresh th sk tgt pr rb sb c)"
  by (simp add: conn_inv_def conn_fresh_def)

lemma take_drop_append:
  "m \<le> n \<Longrightarrow> take m (drop i b) @ take (n - m) (drop (i + m) b) = take n (drop i b)"
  by (metis add.commute drop_drop le_add_diff_inverse take_add)

lemma sent_bytes_ok:
  assumes "conn_inv c" "0 \<le> sent" "sent \<le> int (curr_send_size c)"
  shows "sent_bytes sent c = Inr (take (nat sent) (pending c))"
  using assms by (auto elim!: conn_invE simp: sent_bytes_def the_buf_def slice_def pending_def min_def)

lemma advance_send_ok [dw_inv]:
  assumes "conn_inv c" "0 \<le> sent" "sent \<le> int (curr_send_size c)"
  shows "conn_inv (advance_send sent c)" "pending (advance_send sent c) = drop (nat sent) (pending c)"
    "curr_send_size (advance_send sent c) = curr_send_size c - nat sent"
    "status (advance_send sent c) = status c"
  using assms
  by (auto elim!: conn_invE simp: advance_send_def Let_def conn_inv_def pending_def drop_take add.commute
      split: option.splits)

lemma conn_inv_status [simp]: "conn_inv (c\<lparr>status := st\<rparr>) = conn_inv c"
  "pending (c\<lparr>status := st\<rparr>) = pending c" "unproc (c\<lparr>status := st\<rparr>) = unproc c"
  by (simp_all add: conn_inv_def pending_def unproc_def split: option.split)

lemma conn_set_status_snd [simp]: "snd (conn_set_status st c) = c\<lparr>status := st\<rparr>"
  by (simp add: conn_set_status_def)

text \<open>What the kernel and OpenSSL promise of a send: at most the bytes given are taken.\<close>

definition send_env_ok :: "send_env \<Rightarrow> conn_info_t \<Rightarrow> bool" where
  "send_env_ok env c \<longleftrightarrow>
     fst (sendto_res env) \<ge> -1 \<and> fst (sendto_res env) \<le> int (curr_send_size c) \<and>
     fst (ssl_write_res env) \<le> int (curr_send_size c)"

lemma conn_send_stream_aux:
  assumes "conn_inv c" "send_env_ok env c"
  shows "\<exists>r out c'. conn_send env c = Inr (r, out, c') \<and> conn_inv c' \<and> pending c = out @ pending c' \<and>
    (0 < r \<longrightarrow> r = int (length out)) \<and> (r \<le> 0 \<longrightarrow> out = [])"
proof (cases "use_ssl c")
  case True
  obtain sent err where e: "ssl_write_res env = (sent, err)" by force
  show ?thesis
  proof (cases "sent \<le> 0")
    case True
    then show ?thesis using \<open>use_ssl c\<close> e assms(1) by (auto simp: conn_send_def conn_ssl_send_def)
  next
    case False
    have le: "0 \<le> sent" "sent \<le> int (curr_send_size c)" using False e assms(2) by (auto simp: send_env_ok_def)
    note ok = sent_bytes_ok [OF assms(1) le] advance_send_ok(1,2) [OF assms(1) le]
    show ?thesis using \<open>use_ssl c\<close> e False ok le length_pending [OF assms(1)]
      by (auto simp: conn_send_def conn_ssl_send_def min_def)
  qed
next
  case False
  obtain sent err where e: "sendto_res env = (sent, err)" by force
  show ?thesis
  proof (cases "sent \<le> 0")
    case True
    then have "sent = 0 \<or> sent = -1" using e assms(2) by (auto simp: send_env_ok_def)
    then show ?thesis using False e assms(1) by (auto simp: conn_send_def)
  next
    case pos: False
    have le: "0 \<le> sent" "sent \<le> int (curr_send_size c)" using pos e assms(2) by (auto simp: send_env_ok_def)
    note ok = sent_bytes_ok [OF assms(1) le] advance_send_ok(1,2) [OF assms(1) le]
    show ?thesis using False e pos ok le length_pending [OF assms(1)]
      by (auto simp: conn_send_def Let_def min_def)
  qed
qed

section \<open>Receiving and framing\<close>

definition msg_len :: "bytes \<Rightarrow> nat" where
  "msg_len u = le_nat (take 4 (drop 4 u))"

lemma store_recv_ok:
  assumes "conn_inv c" "length bs \<le> curr_recv_size c"
  shows "\<exists>c'. store_recv (int (length bs)) bs c = Inr (1, c') \<and> conn_inv c' \<and>
    unproc c' = unproc c @ bs \<and> pending c' = pending c"
proof -
  obtain rb sb where c: "recv_buf c = Some rb" "send_buf c = Some sb" "length rb = BUF_SIZE"
      "length sb = BUF_SIZE" "curr_proc_buf c \<le> curr_recv_buf c"
      "curr_recv_buf c + curr_recv_size c = BUF_SIZE" "curr_send_buf c + curr_send_size c \<le> BUF_SIZE"
    using assms(1) by (rule conn_invE)
  let ?cr = "curr_recv_buf c" and ?cp = "curr_proc_buf c"
  let ?b = "take ?cr rb @ bs @ drop (?cr + length bs) rb"
  have "take (?cr + length bs - ?cp) (drop ?cp ?b) = take (?cr - ?cp) (drop ?cp rb) @ bs"
    using c assms(2) by (simp add: drop_take)
  then show ?thesis using c assms(2)
    by (auto simp: store_recv_def the_buf_def blit_ok conn_inv_def unproc_def pending_def)
qed

text \<open>What the kernel and OpenSSL promise of a receive: the returned number of bytes was stored, at most the space given.\<close>

definition recv_env_ok :: "recv_env \<Rightarrow> conn_info_t \<Rightarrow> bool" where
  "recv_env_ok env c \<longleftrightarrow>
     (let r = (if use_ssl c then fst (ssl_read_res env) else fst (recvfrom_res env)) in
      -1 \<le> r \<and> (0 < r \<longrightarrow> r = int (length (recv_data env)) \<and> length (recv_data env) \<le> curr_recv_size c))"

lemma conn_inv_target [simp]: "conn_inv (c\<lparr>target := t\<rparr>) = conn_inv c"
  "pending (c\<lparr>target := t\<rparr>) = pending c" "unproc (c\<lparr>target := t\<rparr>) = unproc c"
  by (simp_all add: conn_inv_def pending_def unproc_def split: option.split)

text \<open>The number that the system call of a receive returns; none is made as long as the handshake of TLS lasts.\<close>

definition arrived :: "recv_env \<Rightarrow> conn_info_t \<Rightarrow> int" where
  "arrived env c = (if use_ssl c then if status c = SSL_HANDSHAKE then 0 else fst (ssl_read_res env) else fst (recvfrom_res env))"

lemma conn_recv_aux:
  assumes "conn_inv c" "recv_env_ok env c"
  shows "\<exists>r c'. conn_recv env c = Inr (r, c') \<and> conn_inv c' \<and> pending c' = pending c \<and>
    (if 0 < arrived env c then r = 1 \<and> unproc c' = unproc c @ recv_data env
     else (r = 1 \<longleftrightarrow> use_ssl c \<and> status c = SSL_HANDSHAKE) \<and> unproc c' = unproc c)"
proof (cases "use_ssl c")
  case True
  obtain n err where e: "ssl_read_res env = (n, err)" by force
  show ?thesis
  proof (cases "status c = SSL_HANDSHAKE \<or> n \<le> 0")
    case False
    then have "n = int (length (recv_data env))" "length (recv_data env) \<le> curr_recv_size c"
      using True e assms(2) by (auto simp: recv_env_ok_def)
    with False True e show ?thesis using store_recv_ok [OF assms(1), of "recv_data env"]
      by (auto simp: conn_recv_def conn_ssl_recv_def arrived_def)
  qed (use True e assms(1) in \<open>auto simp: conn_recv_def conn_ssl_recv_def arrived_def\<close>)
next
  case False
  obtain n err where e: "recvfrom_res env = (n, err)" by force
  show ?thesis
  proof (cases "n \<le> 0")
    case True
    then have "n = 0 \<or> n = -1" using False e assms(2) by (auto simp: recv_env_ok_def Let_def)
    then show ?thesis using False e assms(1) by (auto simp: conn_recv_def Let_def arrived_def)
  next
    case pos: False
    then have n: "n = int (length (recv_data env))" "length (recv_data env) \<le> curr_recv_size c"
      using False e assms(2) by (auto simp: recv_env_ok_def)
    have "conn_inv (c\<lparr>target := recv_from env\<rparr>)" using assms(1) by simp
    from store_recv_ok [OF this, of "recv_data env"] n(2) obtain c' where
      "store_recv n (recv_data env) (c\<lparr>target := recv_from env\<rparr>) = Inr (1, c')" "conn_inv c'"
      "unproc c' = unproc c @ recv_data env" "pending c' = pending c" using n(1) by auto
    then show ?thesis using False e pos by (auto simp: conn_recv_def Let_def arrived_def)
  qed
qed

lemma prepare_recv_eq:
  assumes "conn_inv c"
  defines "u \<equiv> unproc c"
  shows "conn_prepare_recv_message c =
    (if length u < 12 \<or> length u < msg_len u then Inr (None, c)
     else if msg_len u < 12 then Inl Assert_Failed
     else Inr (Some (curr_proc_buf c), c\<lparr>curr_proc_buf := curr_proc_buf c + msg_len u\<rparr>))"
proof -
  obtain rb sb where c: "recv_buf c = Some rb" "send_buf c = Some sb" "length rb = BUF_SIZE"
      "length sb = BUF_SIZE" "curr_proc_buf c \<le> curr_recv_buf c"
      "curr_recv_buf c + curr_recv_size c = BUF_SIZE" "curr_send_buf c + curr_send_size c \<le> BUF_SIZE"
    using assms(1) by (rule conn_invE)
  have len: "length u = curr_recv_buf c - curr_proc_buf c" using length_unproc assms by simp
  have sz: "nat ((int (curr_recv_buf c) - int (curr_proc_buf c)) mod 2 ^ 64) = length u"
    using c len by (simp add: BUF_SIZE_def of_nat_diff flip: of_nat_diff)
  have "get_req_size rb (curr_proc_buf c) = Inr (msg_len u)" if "12 \<le> length u"
    using that c len
    by (simp add: get_req_size_def rd_ok msg_len_def u_def unproc_def drop_take add.commute)
  moreover have "length u \<le> BUF_SIZE" using c len by simp
  ultimately show ?thesis unfolding conn_prepare_recv_message_def Let_def sz
    using c by (auto simp: the_buf_def sizeof_defs)
qed

lemma prepare_recv_advance:
  assumes "conn_inv c" "msg_len (unproc c) \<le> length (unproc c)"
  shows "conn_inv (c\<lparr>curr_proc_buf := curr_proc_buf c + msg_len (unproc c)\<rparr>)"
    "unproc (c\<lparr>curr_proc_buf := curr_proc_buf c + msg_len (unproc c)\<rparr>) = drop (msg_len (unproc c)) (unproc c)"
  using assms length_unproc [OF assms(1)]
  by (auto elim!: conn_invE simp: conn_inv_def unproc_def drop_take add.commute)

text \<open>A stream that begins with no complete message.\<close>

definition incomplete :: "bytes \<Rightarrow> bool" where
  "incomplete u \<longleftrightarrow> length u < 12 \<or> length u < msg_len u"

lemma conn_recv_bytes:
  assumes "conn_inv c" "\<not> use_ssl c" "recv_env_ok env c" "0 < fst (recvfrom_res env)"
  shows "\<exists>c'. conn_recv env c = Inr (1, c') \<and> conn_inv c' \<and> unproc c' = unproc c @ recv_data env \<and>
    curr_recv_size c' + length (recv_data env) = curr_recv_size c \<and> req_list c' = req_list c"
proof -
  obtain n e where e: "recvfrom_res env = (n, e)" by force
  let ?c = "c\<lparr>target := recv_from env\<rparr>"
  have n: "n = int (length (recv_data env))" "length (recv_data env) \<le> curr_recv_size c" "0 < n"
    using assms(2-4) e by (auto simp: recv_env_ok_def)
  obtain c' where c': "store_recv (int (length (recv_data env))) (recv_data env) ?c = Inr (1, c')" "conn_inv c'"
      "unproc c' = unproc c @ recv_data env"
    using store_recv_ok [of ?c "recv_data env"] assms(1) n(2) by auto
  then have "curr_recv_size c' = curr_recv_size c - length (recv_data env)" "req_list c' = req_list c"
    by (auto simp: store_recv_def rbind_eq_Inr)
  then show ?thesis using c' e n assms(2) by (auto simp: conn_recv_def)
qed

text \<open>The first message of the unprocessed stream lies in the buffer where the processing goes on.\<close>

lemma unproc_slice:
  assumes "conn_inv c" "unproc c = msg @ rest" "i + k \<le> length msg"
  shows "slice (the (recv_buf c)) (curr_proc_buf c + i) k = slice msg i k"
proof -
  obtain rb where rb: "recv_buf c = Some rb" "length rb = BUF_SIZE" "curr_proc_buf c \<le> curr_recv_buf c"
      "curr_recv_buf c + curr_recv_size c = BUF_SIZE"
    using assms(1) by (rule conn_invE)
  let ?p = "curr_proc_buf c" and ?n = "curr_recv_buf c - curr_proc_buf c"
  have u: "msg @ rest = take ?n (drop ?p rb)" using assms(2) rb(1) by (simp add: unproc_def)
  have len: "i + k \<le> ?n" using arg_cong [OF u, of length] assms(3) by simp
  have "take k (drop i (msg @ rest)) = take k (drop i msg)" using assms(3) by simp
  moreover have "take k (drop i (take ?n (drop ?p rb))) = take k (drop (?p + i) rb)"
    using len by (simp add: drop_take min_def add.commute)
  ultimately show ?thesis using u rb len assms(3) by (simp add: slice_ok)
qed

lemma unproc_rd:
  assumes "conn_inv c" "unproc c = msg @ rest" "i + k \<le> length msg"
  shows "rd k (the (recv_buf c)) (curr_proc_buf c + i) = rd k msg i"
  using unproc_slice [OF assms] by (simp add: rd_def)

section \<open>Queueing messages for sending\<close>

text \<open>
  \<open>queue_message\<close> is what a client of the two functions does: it prepares the message, fills in its bytes
  (header included), and starts the send.
\<close>

definition queue_message ::
    "send_env \<Rightarrow> sockaddr_in \<Rightarrow> bytes \<Rightarrow> conn_info_t \<Rightarrow> (int \<times> bytes \<times> conn_info_t) res" where
  "queue_message env tgt msg c =
     rbind (conn_prepare_send_message c) (\<lambda>(m, c1).
       rbind (the_buf (send_buf c1)) (\<lambda>b. rbind (blit b m msg) (\<lambda>b'.
         conn_start_send env tgt (c1\<lparr>send_buf := Some b'\<rparr>))))"

definition send_ready :: "conn_info_t \<Rightarrow> bool" where
  "send_ready c \<longleftrightarrow> \<not> (status c = CONNECTING \<or> status c = SSL_HANDSHAKE \<or> status c = NOT_INIT)"

text \<open>The connection right before the send of a queued message: the message is at offset \<open>curr_send_size\<close>.\<close>

definition queued :: "sockaddr_in \<Rightarrow> bytes \<Rightarrow> bytes \<Rightarrow> conn_info_t \<Rightarrow> conn_info_t" where
  "queued tgt msg b c =
     c\<lparr>send_buf := Some (take (curr_send_size c) b @ msg @ drop (curr_send_size c + length msg) b),
       target := tgt, curr_send_buf := (if curr_send_size c = 0 then 0 else curr_send_buf c),
       curr_send_size := curr_send_size c + length msg\<rparr>"

lemma queue_message_eq:
  assumes "conn_inv c" "8 \<le> length msg" "msg_len msg = length msg" "curr_send_size c + length msg \<le> BUF_SIZE"
  shows "\<exists>b. length b = BUF_SIZE \<and> take (curr_send_size c) b = take (curr_send_size c) (the (send_buf c)) \<and>
    queue_message env tgt msg c =
      (if send_ready c then conn_send env (queued tgt msg b c) else Inr (0, [], queued tgt msg b c))"
proof -
  obtain sb where c: "send_buf c = Some sb" "length sb = BUF_SIZE"
    using assms(1) by (rule conn_invE)
  let ?k = "curr_send_size c"
  let ?n = "nat ((int BUF_SIZE - int (curr_send_buf c + ?k)) mod 2 ^ 32)"
  obtain b where b: "set_req_size sb ?k ?n = Inr b" "length b = BUF_SIZE"
    using wr_ok [of "?k + 4" 4 sb ?n] c assms(2,4) by (auto simp: set_req_size_def)
  have pre: "take ?k b = take ?k sb"
    using b(1) c assms(2,4) by (auto simp: set_req_size_def wr_def blit_eq_Inr)
  let ?b' = "take ?k b @ msg @ drop (?k + length msg) b"
  have "blit b ?k msg = Inr ?b'" using b assms(4) by (simp add: blit_ok)
  moreover have "get_req_size ?b' ?k = Inr (length msg)"
    using b(2) assms(2-4) by (simp add: get_req_size_def rd_ok msg_len_def)
  ultimately have "queue_message env tgt msg c =
      (if send_ready c then conn_send env (queued tgt msg b c) else Inr (0, [], queued tgt msg b c))"
    using b(1) c by (auto simp: queue_message_def conn_prepare_send_message_def the_buf_def
        conn_start_send_def Let_def send_ready_def queued_def)
  with b(2) pre c show ?thesis by auto
qed

lemma conn_inv_queued:
  assumes "conn_inv c" "length b = BUF_SIZE" "curr_send_buf c + curr_send_size c + length msg \<le> BUF_SIZE"
  shows "conn_inv (queued tgt msg b c)"
  using assms by (auto elim!: conn_invE simp: conn_inv_def queued_def)

lemma pending_queued:
  assumes "conn_inv c" "curr_send_buf c = 0 \<or> curr_send_size c = 0" "length b = BUF_SIZE"
    "take (curr_send_size c) b = take (curr_send_size c) (the (send_buf c))"
    "curr_send_size c + length msg \<le> BUF_SIZE"
  shows "pending (queued tgt msg b c) = pending c @ msg"
  using assms by (auto elim!: conn_invE simp: pending_def queued_def)

lemma pending_queued_partial:
  assumes "conn_inv c" "0 < curr_send_buf c" "curr_send_buf c \<le> curr_send_size c" "length b = BUF_SIZE"
    "take (curr_send_size c) b = take (curr_send_size c) (the (send_buf c))"
    "curr_send_buf c + curr_send_size c + length msg \<le> BUF_SIZE"
  shows "\<exists>stale. length stale = curr_send_buf c \<and>
    pending (queued tgt msg b c) = take (curr_send_size c - curr_send_buf c) (pending c) @ msg @ stale"
proof -
  obtain sb where c: "send_buf c = Some sb" "length sb = BUF_SIZE"
    using assms(1) by (rule conn_invE)
  let ?k = "curr_send_size c" and ?o = "curr_send_buf c"
  let ?st = "take ?o (drop (?k + length msg) b)"
  have "take (?k + length msg) (drop ?o (take ?k b @ msg @ drop (?k + length msg) b)) =
      drop ?o (take ?k b) @ msg @ ?st"
    using assms(2-4,6) by (simp add: take_add)
  moreover have "drop ?o (take ?k b) = take (?k - ?o) (pending c)"
    using c assms(3,5) by (simp add: pending_def drop_take min_def)
  ultimately have "pending (queued tgt msg b c) = take (?k - ?o) (pending c) @ msg @ ?st"
    using assms(2,3) by (auto simp: pending_def queued_def)
  moreover have "length ?st = ?o" using assms(4,6) by simp
  ultimately show ?thesis by blast
qed

section \<open>The requests of a connection\<close>

lemma upd_conn_simps [simp]:
  "reqs (upd_conn i f s) = reqs s" "last_reqs (upd_conn i f s) = last_reqs s"
  "conns (upd_conn i f s) j = (if j = i then f (conns s i) else conns s j)"
  by (simp_all add: upd_conn_def)

lemma upd_req_conns [simp]: "conns (upd_req i f s) = conns s"
  by (simp add: upd_req_def)

lemma req_unlink_conns [simp]: "conns (snd (req_unlink r s)) = conns s"
  by (simp add: req_unlink_def Let_def upd_link_def upd_req_def split: option.split)

lemma req_alloc_conns [simp]: "conns (snd (req_alloc s)) = conns s"
  by (simp add: req_alloc_def Let_def upd_req_def)

lemma dll_upd_conn [simp]: "dll (upd_conn i f s) p h xs = dll s p h xs"
  by (rule dll_cong) simp

lemma req_inv_upd_conn [simp]: "req_inv (upd_conn i f s) = req_inv s"
  by (simp add: req_inv_def)

lemma fst_req_unlink: "fst (req_unlink r s) = nxt (reqs s r)"
  by (simp add: req_unlink_def Let_def)

text \<open>Freeing the requests of a connection ends, and frees exactly the requests of its list.\<close>

lemma reset_loop_ok:
  assumes "dll s None h xs" "distinct xs"
  shows "\<exists>s'. reset_loop h s = Some s' \<and> conns s' = conns s \<and>
    (\<forall>j. if j \<in> set xs then req_id (reqs s' j) = -1 \<and> message_ptr (reqs s' j) = None else reqs s' j = reqs s j)"
  using assms
proof (induction xs arbitrary: h s)
  case Nil
  then show ?case by (subst reset_loop.simps) simp
next
  case (Cons r xs)
  let ?s1 = "snd (req_unlink r s)"
  have r: "h = Some r" "prev (reqs s r) = None" "nxt (reqs s r) = (case xs of [] \<Rightarrow> None | y # _ \<Rightarrow> Some y)"
    using Cons.prems dll_next [of s None h "[]" r xs] by simp_all
  have "dll ?s1 None (nxt (reqs s r)) xs" using dll_unlink [of s None h "[]" r xs] Cons.prems by simp
  from Cons.IH [OF this] Cons.prems obtain s' where s': "reset_loop (nxt (reqs s r)) ?s1 = Some s'"
      "conns s' = conns s"
      "\<forall>j. if j \<in> set xs then req_id (reqs s' j) = -1 \<and> message_ptr (reqs s' j) = None else reqs s' j = reqs ?s1 j"
    by auto
  have "reset_loop h s = Some s'" using r s'(1) fst_req_unlink [of r s]
    by (subst reset_loop.simps) (simp add: case_prod_unfold)
  moreover have "reqs ?s1 j = reqs s j" if "j \<notin> set (r # xs)" for j
    using that r by (auto simp: reqs_unlink Let_def split: list.splits)
  moreover have "req_id (reqs ?s1 r) = -1" "message_ptr (reqs ?s1 r) = None"
    by (simp_all add: reqs_unlink)
  ultimately show ?case using s' Cons.prems by auto
qed

text \<open>The invariant of the table of connections with respect to one connection: its requests form a list.\<close>

definition req_lists :: "nat \<Rightarrow> nat list \<Rightarrow> dw_state \<Rightarrow> bool" where
  "req_lists c xs s \<longleftrightarrow> dll s None (req_list (conns s c)) xs \<and> distinct xs \<and>
     (\<forall>x \<in> set xs. x < MAX_REQS \<and> req_id (reqs s x) \<noteq> -1)"

lemma conn_req_add_ok:
  assumes "req_lists c xs s" "req_inv s" "last_reqs s \<noteq> -1"
    "req_id (reqs s (req_slot (last_reqs s))) = -1"
  shows "\<exists>s'. conn_req_add c s = (Some (req_slot (last_reqs s)), s') \<and> req_inv s' \<and>
    req_lists c (req_slot (last_reqs s) # xs) s' \<and>
    req_get_by_id (last_reqs s) s' = Some (req_slot (last_reqs s)) \<and>
    conn_id (reqs s' (req_slot (last_reqs s))) = int c \<and>
    req_target (reqs s' (req_slot (last_reqs s))) = target (conns s c)"
proof -
  let ?r = "req_slot (last_reqs s)"
  obtain s1 where a: "req_alloc s = (Some ?r, s1)" "s1 = snd (req_alloc s)"
    using assms(4) by (simp add: req_alloc_def Let_def)
  have s1: "req_inv s1" "conns s1 = conns s" "req_id (reqs s1 ?r) = last_reqs s" "prev (reqs s1 ?r) = None"
      "\<And>j. j \<noteq> ?r \<Longrightarrow> reqs s1 j = reqs s j"
    using req_inv_alloc [OF assms(2)] a(2) assms(4)
    by (simp_all add: req_alloc_def Let_def upd_req_def)
  have r: "?r \<notin> set xs" using assms(1,4) by (auto simp: req_lists_def)
  define s2 where "s2 = upd_req ?r (\<lambda>q. q\<lparr>conn_id := int c, req_target := target (conns s1 c),
    nxt := req_list (conns s1 c)\<rparr>) s1"
  define s3 where "s3 = upd_link (req_list (conns s c)) (prev_update (\<lambda>_. Some ?r)) s2"
  define s4 where "s4 = upd_conn c (req_list_update (\<lambda>_. Some ?r)) s3"
  have add: "conn_req_add c s = (Some ?r, s4)"
    using a(1) s1(2) by (simp add: conn_req_add_def Let_def s2_def s3_def s4_def reqs_upd_req)
  have h: "req_list (conns s c) = (case xs of [] \<Rightarrow> None | x # _ \<Rightarrow> Some x)"
    using assms(1) dll_head by (auto simp: req_lists_def)
  have s4_new: "reqs s4 ?r = (reqs s1 ?r)\<lparr>conn_id := int c, req_target := target (conns s c), nxt := req_list (conns s c)\<rparr>"
    using r h s1(1,2) by (cases xs) (auto simp: s4_def s3_def s2_def reqs_upd_link reqs_upd_req)
  have s4_old: "reqs s4 j = (if req_list (conns s c) = Some j then (reqs s j)\<lparr>prev := Some ?r\<rparr> else reqs s j)" if "j \<noteq> ?r" for j
    using that s1 by (cases "req_list (conns s c)") (auto simp: s4_def s3_def s2_def reqs_upd_link reqs_upd_req)
  have "req_list (conns s4 c) = Some ?r" by (simp add: s4_def)
  note s4 = s4_new s4_old this
  have ids: "req_id (reqs s4 j) = req_id (reqs s1 j)" for j
    using s4(1,2) s1(5) by (cases "j = ?r") auto
  have "dll s4 (Some ?r) (req_list (conns s c)) xs"
  proof (cases xs)
    case Nil
    then show ?thesis using h by simp
  next
    case (Cons x ys)
    have "reqs s4 z = reqs s z" if "z \<in> set ys" for z
    proof -
      have "z \<noteq> ?r" "z \<noteq> x" using assms(1) r Cons that by (auto simp: req_lists_def)
      then show ?thesis using s4(2) [of z] h Cons by simp
    qed
    then have "dll s4 (Some x) (nxt (reqs s x)) ys = dll s (Some x) (nxt (reqs s x)) ys"
      by (intro dll_cong) simp
    then show ?thesis using assms(1) r h s4(2) Cons by (auto simp: req_lists_def)
  qed
  moreover have "req_id (reqs s4 x) \<noteq> -1 \<and> x < MAX_REQS" if "x \<in> set xs" for x
  proof -
    have "x \<noteq> ?r" using that r by auto
    then show ?thesis using ids s1(5) assms(1) that by (auto simp: req_lists_def)
  qed
  ultimately have "req_lists c (?r # xs) s4"
    using assms(1,3) r s1(3,4) s4(1,3) by (auto simp: req_lists_def)
  moreover have "req_inv s4" using s1(1) by (simp add: req_inv_def ids)
  moreover have "req_get_by_id (last_reqs s) s4 = Some ?r" using s1(3) by (simp add: req_get_by_id_def ids)
  ultimately show ?thesis using add s4(1) by simp
qed

section \<open>Defragmentation\<close>

text \<open>The requests whose message lies after the removed one: their pointers move down.\<close>

definition shifted :: "nat \<Rightarrow> req_info_t \<Rightarrow> req_info_t" where
  "shifted n q = q\<lparr>message_ptr := map_option (\<lambda>p. p - n) (message_ptr q),
     curr_cmd := map_option (\<lambda>p. p - n) (curr_cmd q)\<rparr>"

definition shift_all :: "nat \<Rightarrow> nat set \<Rightarrow> dw_state \<Rightarrow> dw_state" where
  "shift_all n X s = s\<lparr>reqs := \<lambda>i. if i \<in> X then shifted n (reqs s i) else reqs s i\<rparr>"

definition after_ptr :: "nat \<Rightarrow> req_info_t \<Rightarrow> bool" where
  "after_ptr e q \<longleftrightarrow> (case message_ptr q of None \<Rightarrow> False | Some p \<Rightarrow> e \<le> p) \<and>
     (case curr_cmd q of None \<Rightarrow> True | Some c \<Rightarrow> e \<le> c)"

lemma shift_req_ok: "after_ptr n q \<Longrightarrow> shift_req n q = Inr (shifted n q)"
  by (auto simp: shift_req_def shift_ptr_def after_ptr_def shifted_def Let_def split: option.splits)

lemma after_ptr_mono: "after_ptr e q \<Longrightarrow> n \<le> e \<Longrightarrow> after_ptr n q"
  by (auto simp: after_ptr_def split: option.splits)

fun pchain :: "dw_state \<Rightarrow> nat option \<Rightarrow> nat list \<Rightarrow> bool" where
  "pchain s h [] \<longleftrightarrow> h = None"
| "pchain s h (x # xs) \<longleftrightarrow> h = Some x \<and> pchain s (prev (reqs s x)) xs"

lemma pchain_snoc: "pchain s h xs \<Longrightarrow> dll s (Some x) g (ys @ r # zs) \<Longrightarrow> prev (reqs s x) = h \<Longrightarrow>
    pchain s (prev (reqs s r)) (rev ys @ x # xs)"
proof (induction ys arbitrary: x g xs h)
  case Nil
  then show ?case by simp
next
  case (Cons y ys)
  have "pchain s (Some x) (x # xs)" using Cons.prems by simp
  from Cons.IH [OF this, of y] Cons.prems show ?case by auto
qed

lemma dll_pchain: "dll s None h (xs @ r # ys) \<Longrightarrow> pchain s (prev (reqs s r)) (rev xs)"
  using pchain_snoc [of s None "[]"] by (cases xs) auto

lemma pchain_cong:
  assumes "\<And>x. x \<in> set xs \<Longrightarrow> prev (reqs s' x) = prev (reqs s x)"
  shows "pchain s' h xs = pchain s h xs"
  using assms by (induction xs arbitrary: h) auto

lemma shift_newer_ok:
  assumes "pchain s h xs" "distinct xs" "\<forall>x \<in> set xs. after_ptr n (reqs s x)"
  shows "shift_newer n h s = Some (Inr (shift_all n (set xs) s))"
  using assms
proof (induction xs arbitrary: h s)
  case Nil
  then show ?case by (subst shift_newer.simps) (simp add: shift_all_def)
next
  case (Cons x xs)
  let ?s1 = "upd_req x (\<lambda>_. shifted n (reqs s x)) s"
  have "pchain ?s1 (prev (reqs s x)) xs = pchain s (prev (reqs s x)) xs"
    using Cons.prems(2) by (intro pchain_cong) (auto simp: reqs_upd_req)
  then have "shift_newer n (prev (reqs s x)) ?s1 = Some (Inr (shift_all n (set xs) ?s1))"
    using Cons.prems by (intro Cons.IH) (auto simp: reqs_upd_req)
  moreover have "shift_all n (set xs) ?s1 = shift_all n (set (x # xs)) s"
    using Cons.prems(2) by (auto simp: shift_all_def upd_req_def fun_eq_iff)
  moreover have "prev (shifted n (reqs s x)) = prev (reqs s x)" by (simp add: shifted_def)
  ultimately show ?case using Cons.prems shift_req_ok [of n "reqs s x"]
    by (subst shift_newer.simps) simp
qed

lemma defrag_conn_ok:
  assumes "conn_inv c" "p + n \<le> curr_proc_buf c"
  defines "b \<equiv> the (recv_buf c)"
  shows "\<exists>b'. defrag_conn p n c = Inr (c\<lparr>recv_buf := Some b', curr_recv_buf := curr_recv_buf c - n,
      curr_proc_buf := curr_proc_buf c - n, curr_recv_size := curr_recv_size c + n\<rparr>) \<and>
    length b' = BUF_SIZE \<and> (\<forall>i k. i + k \<le> p \<longrightarrow> slice b' i k = slice b i k) \<and>
    (\<forall>i k. p + n \<le> i \<and> i + k \<le> curr_recv_buf c \<longrightarrow> slice b' (i - n) k = slice b i k)"
proof -
  obtain rb where c: "recv_buf c = Some rb" "length rb = BUF_SIZE" "curr_proc_buf c \<le> curr_recv_buf c"
      "curr_recv_buf c + curr_recv_size c = BUF_SIZE"
    using assms(1) by (rule conn_invE)
  let ?rest = "take (curr_recv_buf c - (p + n)) (drop (p + n) rb)"
  have sl: "slice rb (p + n) (curr_recv_buf c - (p + n)) = Inr ?rest"
    using c assms(2) by (simp add: slice_def)
  have len: "length ?rest = curr_recv_buf c - (p + n)" using c assms(2) by simp
  have "p + length ?rest \<le> length rb" using c assms(2) len by simp
  then obtain b' where b': "blit rb p ?rest = Inr b'" using blit_ok by blast
  have eq: "defrag_conn p n c = Inr (c\<lparr>recv_buf := Some b', curr_recv_buf := curr_recv_buf c - n,
      curr_proc_buf := curr_proc_buf c - n, curr_recv_size := curr_recv_size c + n\<rparr>)"
    using c assms(2) sl b' by (simp add: defrag_conn_def the_buf_def shift_ptr_def)
  have "slice b' (i - n) k = slice b i k" if "p + n \<le> i" "i + k \<le> curr_recv_buf c" for i k
  proof -
    have "slice b' p (curr_recv_buf c - (p + n)) = Inr ?rest"
      using slice_blit_same [OF b'] len by simp
    moreover have "curr_recv_buf c - (p + n) = (i - (p + n)) + (curr_recv_buf c - i)" using that by simp
    ultimately have "slice b' (p + (i - (p + n))) (curr_recv_buf c - i) = Inr (drop (i - (p + n)) ?rest)"
      by (metis slice_suffix)
    then have "slice b' (i - n) (k + (curr_recv_buf c - i - k)) = Inr (drop (i - (p + n)) ?rest)"
      using that by (simp add: add.commute)
    from slice_prefix [OF this] show ?thesis
      using that c by (simp add: slice_def b_def drop_take min_def)
  qed
  moreover have "slice b' i k = slice b i k" if "i + k \<le> p" for i k
    using slice_blit_before [OF b' that] c by (simp add: b_def)
  ultimately show ?thesis using eq blit_length [OF b'] c(2) by metis
qed

lemma conn_inv_defrag:
  assumes "conn_inv c" "p + n \<le> curr_proc_buf c" "length b' = BUF_SIZE"
    "\<forall>i k. p + n \<le> i \<and> i + k \<le> curr_recv_buf c \<longrightarrow> slice b' (i - n) k = slice (the (recv_buf c)) i k"
  defines "c' \<equiv> c\<lparr>recv_buf := Some b', curr_recv_buf := curr_recv_buf c - n,
      curr_proc_buf := curr_proc_buf c - n, curr_recv_size := curr_recv_size c + n\<rparr>"
  shows "conn_inv c'" "unproc c' = unproc c"
proof -
  obtain rb where c: "recv_buf c = Some rb" "length rb = BUF_SIZE" "curr_proc_buf c \<le> curr_recv_buf c"
      "curr_recv_buf c + curr_recv_size c = BUF_SIZE"
    using assms(1) by (rule conn_invE)
  show "conn_inv c'" using assms(1-3) by (auto elim!: conn_invE simp: conn_inv_def c'_def)
  have "slice b' (curr_proc_buf c - n) (curr_recv_buf c - curr_proc_buf c) =
      slice rb (curr_proc_buf c) (curr_recv_buf c - curr_proc_buf c)"
    using assms(2,4) c by simp
  moreover have "curr_proc_buf c - n + (curr_recv_buf c - curr_proc_buf c) \<le> BUF_SIZE" using c assms(2) by simp
  ultimately show "unproc c' = unproc c"
    using c assms(2,3) by (simp add: unproc_def c'_def slice_ok)
qed

lemma dll_shift_all [simp]: "dll (shift_all n X s) p h xs = dll s p h xs"
  by (rule dll_cong) (simp add: shift_all_def shifted_def)

lemma shift_all_simps [simp]:
  "conns (shift_all n X s) = conns s" "req_id (reqs (shift_all n X s) i) = req_id (reqs s i)"
  "nxt (reqs (shift_all n X s) i) = nxt (reqs s i)" "prev (reqs (shift_all n X s) i) = prev (reqs s i)"
  by (simp_all add: shift_all_def shifted_def)

lemma message_ptr_unlink:
  "j \<noteq> r \<Longrightarrow> message_ptr (reqs (snd (req_unlink r s)) j) = message_ptr (reqs s j)"
  "j \<noteq> r \<Longrightarrow> curr_cmd (reqs (snd (req_unlink r s)) j) = curr_cmd (reqs s j)"
  by (simp_all add: reqs_unlink Let_def)

text \<open>
  The layout of the receive buffer: the messages of the requests of the list lie in the processed part of the
  buffer, the messages of later requests (earlier in the list) after the message of \<open>r\<close>, those of
  earlier requests before it.
\<close>

definition laid_out :: "nat \<Rightarrow> nat list \<Rightarrow> nat \<Rightarrow> nat list \<Rightarrow> nat \<Rightarrow> nat \<Rightarrow> dw_state \<Rightarrow> bool" where
  "laid_out c newer r older p n s \<longleftrightarrow>
     conn_inv (conns s c) \<and> enable_defrag (conns s c) \<and> req_lists c (newer @ r # older) s \<and>
     message_ptr (reqs s r) = Some p \<and> get_req_size (the (recv_buf (conns s c))) p = Inr n \<and>
     p + n \<le> curr_proc_buf (conns s c) \<and> list_all (\<lambda>x. after_ptr (p + n) (reqs s x)) newer"

lemma req_defrag_ok:
  assumes "laid_out c newer r older p n s"
  shows "\<exists>b'. let c0 = conns s c;
      c' = c0\<lparr>recv_buf := Some b', curr_recv_buf := curr_recv_buf c0 - n,
               curr_proc_buf := curr_proc_buf c0 - n, curr_recv_size := curr_recv_size c0 + n\<rparr> in
    req_defrag c r s = Some (Inr (shift_all n (set newer) (upd_conn c (\<lambda>_. c') s))) \<and>
    length b' = BUF_SIZE \<and> (\<forall>i k. i + k \<le> p \<longrightarrow> slice b' i k = slice (the (recv_buf c0)) i k) \<and>
    (\<forall>i k. p + n \<le> i \<and> i + k \<le> curr_recv_buf c0 \<longrightarrow> slice b' (i - n) k = slice (the (recv_buf c0)) i k)"
proof -
  let ?c = "conns s c"
  have l: "conn_inv ?c" "enable_defrag ?c" "req_lists c (newer @ r # older) s" "message_ptr (reqs s r) = Some p"
      "get_req_size (the (recv_buf ?c)) p = Inr n" "p + n \<le> curr_proc_buf ?c"
      "\<forall>x \<in> set newer. after_ptr (p + n) (reqs s x)"
    using assms by (simp_all add: laid_out_def list_all_iff)
  obtain rb where rb: "recv_buf ?c = Some rb" "length rb = BUF_SIZE" using l(1) by (rule conn_invE)
  have "p < BUF_SIZE"
    using l(5) rb by (auto simp: get_req_size_def rd_def rbind_eq_Inr slice_eq_Inr)
  obtain b' where b': "defrag_conn p n ?c = Inr (?c\<lparr>recv_buf := Some b', curr_recv_buf := curr_recv_buf ?c - n,
      curr_proc_buf := curr_proc_buf ?c - n, curr_recv_size := curr_recv_size ?c + n\<rparr>)"
      "length b' = BUF_SIZE" "\<forall>i k. i + k \<le> p \<longrightarrow> slice b' i k = slice (the (recv_buf ?c)) i k"
      "\<forall>i k. p + n \<le> i \<and> i + k \<le> curr_recv_buf ?c \<longrightarrow> slice b' (i - n) k = slice (the (recv_buf ?c)) i k"
    using defrag_conn_ok [OF l(1,6)] by blast
  let ?s1 = "upd_conn c (\<lambda>_. ?c\<lparr>recv_buf := Some b', curr_recv_buf := curr_recv_buf ?c - n,
      curr_proc_buf := curr_proc_buf ?c - n, curr_recv_size := curr_recv_size ?c + n\<rparr>) s"
  have "dll ?s1 None (req_list ?c) (newer @ r # older)" "distinct newer" using l(3) by (auto simp: req_lists_def)
  then have "shift_newer n (prev (reqs s r)) ?s1 = Some (Inr (shift_all n (set (rev newer)) ?s1))"
    using dll_pchain [of ?s1] l(7) by (intro shift_newer_ok) (auto intro: after_ptr_mono)
  then have "req_defrag c r s = Some (Inr (shift_all n (set newer) ?s1))"
    using l(2,4,5) rb b'(1) \<open>p < BUF_SIZE\<close> by (simp add: req_defrag_def the_buf_def)
  with b'(2-4) show ?thesis unfolding Let_def by blast
qed

lemma req_lists_unlink:
  assumes "req_lists c (newer @ r # older) s"
  defines "s1 \<equiv> (if req_list (conns s c) = Some r
      then upd_conn c (req_list_update (\<lambda>_. nxt (reqs s r))) s else s)"
  shows "req_lists c (newer @ older) (snd (req_unlink r s1))"
    "fst (req_unlink r s1) = (case older of [] \<Rightarrow> None | y # _ \<Rightarrow> Some y)"
proof -
  have l: "dll s None (req_list (conns s c)) (newer @ r # older)" "distinct (newer @ r # older)"
      "\<forall>x \<in> set (newer @ r # older). x < MAX_REQS \<and> req_id (reqs s x) \<noteq> -1"
    using assms(1) by (auto simp: req_lists_def)
  have h: "req_list (conns s c) = Some r \<longleftrightarrow> newer = []"
    using dll_head [OF l(1)] l(2) by (cases newer) auto
  have s1: "reqs s1 = reqs s" by (simp add: s1_def)
  have "dll s1 None (req_list (conns s c)) (newer @ r # older) =
      dll s None (req_list (conns s c)) (newer @ r # older)" by (rule dll_cong) (simp add: s1)
  then have "dll s1 None (req_list (conns s c)) (newer @ r # older)" using l(1) by simp
  moreover have "\<forall>x \<in> set (newer @ r # older). None \<noteq> Some x" by simp
  ultimately have
    "dll (snd (req_unlink r s1)) None (if newer = [] then nxt (reqs s r) else req_list (conns s c)) (newer @ older)"
    using dll_unlink [of s1 None _ newer r older] l(2) unfolding s1 by blast
  moreover have "req_list (conns (snd (req_unlink r s1)) c) =
      (if newer = [] then nxt (reqs s r) else req_list (conns s c))"
    using h by (simp add: s1_def)
  ultimately show "req_lists c (newer @ older) (snd (req_unlink r s1))"
    using l(2,3) by (auto simp: req_lists_def req_id_unlink s1)
  show "fst (req_unlink r s1) = (case older of [] \<Rightarrow> None | y # _ \<Rightarrow> Some y)"
    using dll_next [OF l(1)] by (simp add: fst_req_unlink s1)
qed

section \<open>Properties\<close>

text \<open>C10. Removing a request with defragmentation keeps every other request of the connection intact:
  the removal ends, the list of requests loses exactly the removed one, the pointers of the later
  requests move down by the size of the removed message and find the same bytes there, the
  messages of the earlier requests stay, and the received bytes that are not processed yet are the same.\<close>

theorem conn_req_remove_defrag:
  assumes "laid_out c newer r older p n s" "req_inv s"
  shows "\<exists>s'. conn_req_remove c r s = Some (Inr (case older of [] \<Rightarrow> None | y # _ \<Rightarrow> Some y, s')) \<and>
    req_inv s' \<and> req_lists c (newer @ older) s' \<and> conn_inv (conns s' c) \<and>
    unproc (conns s' c) = unproc (conns s c) \<and>
    (\<forall>x \<in> set newer. \<forall>q. message_ptr (reqs s x) = Some q \<longrightarrow> message_ptr (reqs s' x) = Some (q - n) \<and>
      (\<forall>k. q + k \<le> curr_recv_buf (conns s c) \<longrightarrow>
        slice (the (recv_buf (conns s' c))) (q - n) k = slice (the (recv_buf (conns s c))) q k)) \<and>
    (\<forall>x \<in> set older. message_ptr (reqs s' x) = message_ptr (reqs s x)) \<and>
    (\<forall>q k. q + k \<le> p \<longrightarrow> slice (the (recv_buf (conns s' c))) q k = slice (the (recv_buf (conns s c))) q k)"
proof -
  let ?c = "conns s c"
  have l: "conn_inv ?c" "p + n \<le> curr_proc_buf ?c" "req_lists c (newer @ r # older) s"
      "\<forall>x \<in> set newer. after_ptr (p + n) (reqs s x)"
    using assms(1) by (simp_all add: laid_out_def list_all_iff)
  obtain b' where b': "req_defrag c r s = Some (Inr (shift_all n (set newer) (upd_conn c (\<lambda>_.
        ?c\<lparr>recv_buf := Some b', curr_recv_buf := curr_recv_buf ?c - n,
        curr_proc_buf := curr_proc_buf ?c - n, curr_recv_size := curr_recv_size ?c + n\<rparr>) s)))"
      "length b' = BUF_SIZE" "\<forall>i k. i + k \<le> p \<longrightarrow> slice b' i k = slice (the (recv_buf ?c)) i k"
      "\<forall>i k. p + n \<le> i \<and> i + k \<le> curr_recv_buf ?c \<longrightarrow> slice b' (i - n) k = slice (the (recv_buf ?c)) i k"
    using req_defrag_ok [OF assms(1)] unfolding Let_def by blast
  define c' where "c' = ?c\<lparr>recv_buf := Some b', curr_recv_buf := curr_recv_buf ?c - n,
      curr_proc_buf := curr_proc_buf ?c - n, curr_recv_size := curr_recv_size ?c + n\<rparr>"
  define s1 where "s1 = shift_all n (set newer) (upd_conn c (\<lambda>_. c') s)"
  define s2 where "s2 = (if req_list (conns s1 c) = Some r
      then upd_conn c (req_list_update (\<lambda>_. nxt (reqs s1 r))) s1 else s1)"
  have "req_lists c (newer @ r # older) s1" using l(3) by (simp add: req_lists_def s1_def c'_def)
  note u = req_lists_unlink [OF this, folded s2_def]
  have "conn_req_remove c r s = Some (Inr (req_unlink r s2))"
    using b'(1) by (simp add: conn_req_remove_def s1_def s2_def c'_def)
  then have rm: "conn_req_remove c r s =
      Some (Inr (case older of [] \<Rightarrow> None | y # _ \<Rightarrow> Some y, snd (req_unlink r s2)))"
    using u(2) by (simp add: prod_eq_iff)
  have ci: "conn_inv c'" "unproc c' = unproc ?c"
    using conn_inv_defrag [OF l(1,2) b'(2,4)] by (simp_all add: c'_def)
  have cs: "conn_inv (conns s2 c)" "unproc (conns s2 c) = unproc ?c" "recv_buf (conns s2 c) = Some b'"
    using ci by (auto simp: s2_def s1_def conn_inv_def unproc_def c'_def split: option.splits)
  have "req_inv s2" using assms(2) by (simp add: s2_def s1_def req_inv_def)
  have mp: "message_ptr (reqs (snd (req_unlink r s2)) x) =
      (if x \<in> set newer then map_option (\<lambda>q. q - n) (message_ptr (reqs s x)) else message_ptr (reqs s x))"
    if "x \<in> set (newer @ older)" for x
  proof -
    have "x \<noteq> r" using that l(3) by (auto simp: req_lists_def)
    moreover have "reqs s2 x = (if x \<in> set newer then shifted n (reqs s x) else reqs s x)"
      by (simp add: s2_def s1_def shift_all_def)
    ultimately show ?thesis by (simp add: message_ptr_unlink shifted_def)
  qed
  have "p + n \<le> q" if "x \<in> set newer" "message_ptr (reqs s x) = Some q" for x q
    using l(4) that by (auto simp: after_ptr_def)
  then show ?thesis using rm u(1) req_inv_unlink [OF \<open>req_inv s2\<close>] cs mp b'(3,4) l(3)
    by (intro exI [of _ "snd (req_unlink r s2)"]) (auto simp: req_lists_def)
qed

definition blank_conn :: conn_info_t where
  "blank_conn = \<lparr>c_proto = TCP, sock = -1, status = NOT_INIT, target = \<lparr>sin_addr = 0, sin_port = 0\<rparr>,
     recv_buf = None, send_buf = None, curr_recv_buf = 0, curr_recv_size = 0, curr_proc_buf = 0,
     curr_send_buf = 0, curr_send_size = 0, file_fd = 0, file_offset = 0, file_remaining = 0,
     reply_mode = REPLY_MODE_NORMAL, req_list = None, serialize_request = 0, parent_thread = 0, busy = False,
     enable_defrag = True, is_listen = False, use_ssl = False, ssl = None, ssl_handshake_done = False,
     ssl_is_server = False\<rparr>"

text \<open>A connection with two received messages of 16 and 12 bytes, whose requests are in the slots 0 and 1.\<close>

definition sample_conn :: conn_info_t where
  "sample_conn = blank_conn\<lparr>
     recv_buf := Some (enc_message 1 16 0 ([9, 9, 9, 9] @ enc_message 2 12 0 (replicate (BUF_SIZE - 28) 0))),
     send_buf := Some (replicate BUF_SIZE 0), curr_recv_buf := 28, curr_proc_buf := 28,
     curr_recv_size := BUF_SIZE - 28, req_list := Some 1, status := READY\<rparr>"

definition sample_state :: dw_state where
  "sample_state = \<lparr>reqs = (\<lambda>i. zero_req\<lparr>req_id := -1\<rparr>)
       (0 := zero_req\<lparr>req_id := 0, message_ptr := Some 0, prev := Some 1\<rparr>,
        1 := zero_req\<lparr>req_id := 1, message_ptr := Some 16, curr_cmd := Some 28, nxt := Some 0\<rparr>),
     last_reqs = 2, conns = \<lambda>i. sample_conn\<rparr>"

lemma sample_conn_inv: "conn_inv sample_conn"
  by (simp add: conn_inv_def sample_conn_def BUF_SIZE_def blank_conn_def)

lemma sample_laid_out: "laid_out 0 [1] 0 [] 0 16 sample_state"
  using sample_conn_inv get_enc_message(2) [of 1 16]
  by (simp add: laid_out_def sample_state_def sample_conn_def req_lists_def zero_req_def MAX_REQS_def
      after_ptr_def blank_conn_def)

lemma sample_req_inv: "req_inv sample_state"
  by (simp add: req_inv_def sample_state_def zero_req_def req_slot_def MAX_REQS_def)

theorem conn_req_remove_defrag_witness:
  "\<exists>s'. conn_req_remove 0 0 sample_state = Some (Inr (None, s')) \<and> req_lists 0 [1] s' \<and>
     message_ptr (reqs s' 1) = Some 0"
  using conn_req_remove_defrag [OF sample_laid_out sample_req_inv]
  by (auto simp: sample_state_def)

text \<open>C24. Sending is a stream: whatever the kernel or OpenSSL answers, as long as it takes no more than it was
  given, \<^verbatim>\<open>conn_send\<close> hands over a prefix of the queued bytes and keeps exactly the rest queued; a positive
  result is the length of that prefix, and any other result means that nothing was taken.\<close>

theorem conn_send_stream:
  assumes "conn_inv c" "send_env_ok env c"
  shows "\<exists>r out c'. conn_send env c = Inr (r, out, c') \<and> conn_inv c' \<and> pending c = out @ pending c' \<and>
    (0 < r \<longrightarrow> r = int (length out)) \<and> (r \<le> 0 \<longrightarrow> out = [])"
  using assms by (rule conn_send_stream_aux)

definition idle_env :: send_env where
  "idle_env = \<lparr>sendto_res = (-1, EAGAIN), ssl_write_res = (-1, SSL_ERROR_WANT_WRITE), send_res = [],
     sendfile_res = (-1, EAGAIN)\<rparr>"

theorem conn_send_stream_witness:
  "\<exists>r out c'. conn_send (idle_env\<lparr>sendto_res := (5, E_OTHER)\<rparr>) (sample_conn\<lparr>curr_send_size := 12\<rparr>) = Inr (r, out, c') \<and>
     pending (sample_conn\<lparr>curr_send_size := 12\<rparr>) = out @ pending c'"
proof -
  have "conn_inv (sample_conn\<lparr>curr_send_size := 12\<rparr>)"
    by (simp add: conn_inv_def sample_conn_def BUF_SIZE_def blank_conn_def)
  moreover have "send_env_ok (idle_env\<lparr>sendto_res := (5, E_OTHER)\<rparr>) (sample_conn\<lparr>curr_send_size := 12\<rparr>)"
    by (simp add: send_env_ok_def idle_env_def)
  ultimately show ?thesis using conn_send_stream by blast
qed

text \<open>Queueing a message on a connection of which no queued byte was sent yet appends the message to the
  bytes to send: what is handed to the kernel and what stays queued are together the earlier queue and the message. While
  the connection is being set up, nothing is sent.\<close>

theorem queue_message_appends:
  assumes "conn_inv c" "curr_send_buf c = 0 \<or> curr_send_size c = 0" "8 \<le> length msg" "msg_len msg = length msg"
    "curr_send_buf c + curr_send_size c + length msg \<le> BUF_SIZE"
    "fst (sendto_res env) \<ge> -1" "fst (sendto_res env) \<le> int (curr_send_size c + length msg)"
    "fst (ssl_write_res env) \<le> int (curr_send_size c + length msg)"
  shows "\<exists>r out c'. queue_message env tgt msg c = Inr (r, out, c') \<and> conn_inv c' \<and>
    pending c @ msg = out @ pending c' \<and> (\<not> send_ready c \<longrightarrow> out = [])"
proof -
  have room: "curr_send_size c + length msg \<le> BUF_SIZE" using assms(5) by simp
  obtain b where b: "length b = BUF_SIZE" "take (curr_send_size c) b = take (curr_send_size c) (the (send_buf c))"
      "queue_message env tgt msg c =
        (if send_ready c then conn_send env (queued tgt msg b c) else Inr (0, [], queued tgt msg b c))"
    using queue_message_eq [OF assms(1,3,4) room] by blast
  have inv: "conn_inv (queued tgt msg b c)" using conn_inv_queued [OF assms(1) b(1) assms(5)] .
  have pend: "pending (queued tgt msg b c) = pending c @ msg"
    using pending_queued [OF assms(1,2) b(1,2) room] .
  have "send_env_ok env (queued tgt msg b c)" using assms(6-8) by (simp add: send_env_ok_def queued_def)
  from conn_send_stream_aux [OF inv this] show ?thesis using b(3) inv pend by auto
qed

lemma msg_len_enc_message: "sz < 2 ^ 32 \<Longrightarrow> msg_len (enc_message rid sz st body) = sz"
  by (simp add: msg_len_def enc_message_def le_nat_le_bytes)

theorem queue_message_appends_witness:
  "\<exists>r out c'. queue_message idle_env \<lparr>sin_addr = 1, sin_port = 2\<rparr> (enc_message 3 12 0 []) sample_conn = Inr (r, out, c') \<and>
     enc_message 3 12 0 [] = out @ pending c'"
  using queue_message_appends [OF sample_conn_inv, of "enc_message 3 12 0 []" idle_env "\<lparr>sin_addr = 1, sin_port = 2\<rparr>"]
    length_pending [OF sample_conn_inv]
  by (simp add: msg_len_enc_message) (auto simp: sample_conn_def blank_conn_def idle_env_def BUF_SIZE_def)

text \<open>C26. Queueing a message while an earlier one is partly sent corrupts the stream: the message is placed
  relative to the start of the buffer instead of after the bytes that are left, so that it
  overwrites the end of them, and stale bytes of the buffer are queued after it.\<close>

theorem queue_message_after_partial_send:
  assumes "conn_inv c" "send_ready c" "\<not> use_ssl c" "sendto_res env = (-1, EAGAIN)"
    "0 < curr_send_buf c" "curr_send_buf c \<le> curr_send_size c" "8 \<le> length msg" "msg_len msg = length msg"
    "curr_send_buf c + curr_send_size c + length msg \<le> BUF_SIZE"
  shows "\<exists>c' stale. queue_message env tgt msg c = Inr (0, [], c') \<and> length stale = curr_send_buf c \<and>
    pending c' = take (curr_send_size c - curr_send_buf c) (pending c) @ msg @ stale"
proof -
  have room: "curr_send_size c + length msg \<le> BUF_SIZE" using assms(9) by simp
  obtain b where b: "length b = BUF_SIZE" "take (curr_send_size c) b = take (curr_send_size c) (the (send_buf c))"
      "queue_message env tgt msg c =
        (if send_ready c then conn_send env (queued tgt msg b c) else Inr (0, [], queued tgt msg b c))"
    using queue_message_eq [OF assms(1,7,8) room] by blast
  have "conn_send env (queued tgt msg b c) = Inr (0, [], (queued tgt msg b c)\<lparr>status := SENDING\<rparr>)"
    using assms(3,4) by (simp add: conn_send_def queued_def)
  then show ?thesis using b(3) assms(2) pending_queued_partial [OF assms(1,5,6) b(1,2) assms(9), of tgt] by auto
qed

theorem queue_message_after_partial_send_witness:
  "\<exists>c' stale. queue_message idle_env \<lparr>sin_addr = 1, sin_port = 2\<rparr> (enc_message 3 12 0 [])
       (sample_conn\<lparr>curr_send_buf := 4, curr_send_size := 20\<rparr>) = Inr (0, [], c') \<and> length stale = 4 \<and>
     pending c' = take 16 (pending (sample_conn\<lparr>curr_send_buf := 4, curr_send_size := 20\<rparr>)) @ enc_message 3 12 0 [] @ stale"
proof -
  let ?c = "sample_conn\<lparr>curr_send_buf := 4, curr_send_size := 20\<rparr>"
  have "conn_inv ?c" "send_ready ?c" "\<not> use_ssl ?c"
    by (simp_all add: conn_inv_def sample_conn_def BUF_SIZE_def blank_conn_def send_ready_def)
  from queue_message_after_partial_send [OF this, of idle_env "enc_message 3 12 0 []"] show ?thesis
    by (simp add: idle_env_def msg_len_enc_message BUF_SIZE_def)
qed

text \<open>C9. Receiving and framing. When \<^verbatim>\<open>recvfrom()\<close> or \<^verbatim>\<open>SSL_read()\<close> returns a positive number of bytes, exactly these bytes are appended
  to the unprocessed ones and the result is 1; otherwise the unprocessed bytes stay as they are, and the result is not 1 (apart from a
  handshake of TLS that is not finished, during which nothing is read). A complete message at their start, whatever follows it, is taken as one message: its bytes are
  in the buffer where the result points, and the bytes after it remain unprocessed. A proper prefix of a
  message is left until more arrives.\<close>

theorem conn_recv_framing:
  assumes "conn_inv c" "recv_env_ok env c"
  shows "(\<exists>r c'. conn_recv env c = Inr (r, c') \<and> conn_inv c' \<and>
      (if 0 < arrived env c then r = 1 \<and> unproc c' = unproc c @ recv_data env
       else (r = 1 \<longleftrightarrow> use_ssl c \<and> status c = SSL_HANDSHAKE) \<and> unproc c' = unproc c)) \<and>
    (\<forall>msg rest. 12 \<le> length msg \<and> msg_len msg = length msg \<and> unproc c = msg @ rest \<longrightarrow>
      (\<exists>c'. conn_prepare_recv_message c = Inr (Some (curr_proc_buf c), c') \<and> conn_inv c' \<and> unproc c' = rest \<and>
        slice (the (recv_buf c')) (curr_proc_buf c) (length msg) = Inr msg)) \<and>
    (\<forall>msg u v. 12 \<le> length msg \<and> msg_len msg = length msg \<and> msg = u @ v \<and> v \<noteq> [] \<and> unproc c = u \<longrightarrow>
      conn_prepare_recv_message c = Inr (None, c))"
proof (intro conjI allI impI)
  show "\<exists>r c'. conn_recv env c = Inr (r, c') \<and> conn_inv c' \<and>
      (if 0 < arrived env c then r = 1 \<and> unproc c' = unproc c @ recv_data env
       else (r = 1 \<longleftrightarrow> use_ssl c \<and> status c = SSL_HANDSHAKE) \<and> unproc c' = unproc c)"
    using conn_recv_aux [OF assms] by meson
next
  fix msg rest
  assume m: "12 \<le> length msg \<and> msg_len msg = length msg \<and> unproc c = msg @ rest"
  then have len: "msg_len (unproc c) = length msg" by (simp add: msg_len_def)
  let ?c = "c\<lparr>curr_proc_buf := curr_proc_buf c + length msg\<rparr>"
  obtain rb where rb: "recv_buf c = Some rb" "length rb = BUF_SIZE" "curr_proc_buf c \<le> curr_recv_buf c"
      "curr_recv_buf c + curr_recv_size c = BUF_SIZE"
    using assms(1) by (rule conn_invE)
  have un: "length (unproc c) = curr_recv_buf c - curr_proc_buf c" using length_unproc [OF assms(1)] .
  have "take (length msg) (unproc c) = msg" using m by simp
  moreover have "length msg \<le> curr_recv_buf c - curr_proc_buf c" using un m by simp
  ultimately have "take (length msg) (drop (curr_proc_buf c) rb) = msg"
    using rb(1) by (simp add: unproc_def min_absorb1)
  then have "slice rb (curr_proc_buf c) (length msg) = Inr msg" using rb un m by (simp add: slice_def)
  moreover have "conn_prepare_recv_message c = Inr (Some (curr_proc_buf c), ?c)"
    using prepare_recv_eq [OF assms(1)] m len by simp
  ultimately show "\<exists>c'. conn_prepare_recv_message c = Inr (Some (curr_proc_buf c), c') \<and> conn_inv c' \<and>
      unproc c' = rest \<and> slice (the (recv_buf c')) (curr_proc_buf c) (length msg) = Inr msg"
    using prepare_recv_advance [OF assms(1)] m len rb by auto
next
  fix msg u v
  assume m: "12 \<le> length msg \<and> msg_len msg = length msg \<and> msg = u @ v \<and> v \<noteq> [] \<and> unproc c = u"
  have "msg_len u = msg_len msg" if "12 \<le> length u" using that m by (simp add: msg_len_def)
  then have "length (unproc c) < 12 \<or> length (unproc c) < msg_len (unproc c)"
    using m by (cases "12 \<le> length u") auto
  then show "conn_prepare_recv_message c = Inr (None, c)" using prepare_recv_eq [OF assms(1)] by simp
qed

theorem conn_recv_framing_witness:
  "(\<exists>c'. conn_recv \<lparr>recvfrom_res = (2, EAGAIN), ssl_read_res = (-1, SSL_ERROR_WANT_READ), recv_data = [5, 6],
       recv_from = \<lparr>sin_addr = 0, sin_port = 0\<rparr>\<rparr> (sample_conn\<lparr>curr_proc_buf := 0\<rparr>) = Inr (1, c') \<and>
     unproc c' = enc_message 1 16 0 [9, 9, 9, 9] @ enc_message 2 12 0 [] @ [5, 6]) \<and>
   (\<exists>c'. conn_prepare_recv_message (sample_conn\<lparr>curr_proc_buf := 0\<rparr>) = Inr (Some 0, c') \<and>
     unproc c' = enc_message 2 12 0 [])"
proof -
  let ?c = "sample_conn\<lparr>curr_proc_buf := 0\<rparr>"
  let ?env = "\<lparr>recvfrom_res = (2, EAGAIN), ssl_read_res = (-1, SSL_ERROR_WANT_READ), recv_data = [5, 6],
    recv_from = \<lparr>sin_addr = 0, sin_port = 0\<rparr>\<rparr>"
  have 1: "conn_inv ?c" by (simp add: conn_inv_def sample_conn_def BUF_SIZE_def blank_conn_def)
  have 2: "recv_env_ok ?env ?c" by (simp add: recv_env_ok_def sample_conn_def blank_conn_def BUF_SIZE_def)
  have 3: "arrived ?env ?c = 2" by (simp add: arrived_def sample_conn_def blank_conn_def)
  have un: "unproc ?c = enc_message 1 16 0 [9, 9, 9, 9] @ enc_message 2 12 0 []"
    by (simp add: unproc_def sample_conn_def blank_conn_def enc_message_def)
  have "msg_len (enc_message 1 16 0 [9, 9, 9, 9]) = 16" by (simp add: msg_len_enc_message)
  moreover have "length (enc_message 1 16 0 [9, 9, 9, 9]) = 16" "curr_proc_buf ?c = 0" by simp_all
  ultimately have "\<exists>c'. conn_prepare_recv_message ?c = Inr (Some 0, c') \<and> unproc c' = enc_message 2 12 0 []"
    using conn_recv_framing [OF 1 2, THEN conjunct2, THEN conjunct1, rule_format,
        of "enc_message 1 16 0 [9, 9, 9, 9]" "enc_message 2 12 0 []"] un by auto
  moreover have "\<exists>c'. conn_recv ?env ?c = Inr (1, c') \<and> unproc c' = unproc ?c @ recv_data ?env"
    using conn_recv_framing [OF 1 2, THEN conjunct1] unfolding 3 by auto
  ultimately show ?thesis unfolding un by simp
qed

text \<open>A message whose header announces fewer bytes than the header itself has stops the program: once its
  header has arrived, \<^verbatim>\<open>conn_prepare_recv_message\<close> fails an assertion, so any peer can end the process. This is the
  only way in which it fails.\<close>

theorem prepare_recv_short_message_aborts:
  assumes "conn_inv c"
  shows "(\<exists>e. conn_prepare_recv_message c = Inl e) \<longleftrightarrow>
    12 \<le> length (unproc c) \<and> msg_len (unproc c) < 12"
  using prepare_recv_eq [OF assms] by auto

theorem prepare_recv_short_message_aborts_witness:
  "\<exists>e. conn_prepare_recv_message (sample_conn\<lparr>recv_buf := Some (enc_message 1 3 0 (replicate (BUF_SIZE - 12) 0)),
     curr_proc_buf := 0, curr_recv_buf := 12, curr_recv_size := BUF_SIZE - 12\<rparr>) = Inl e"
proof -
  let ?c = "sample_conn\<lparr>recv_buf := Some (enc_message 1 3 0 (replicate (BUF_SIZE - 12) 0)),
     curr_proc_buf := 0, curr_recv_buf := 12, curr_recv_size := BUF_SIZE - 12\<rparr>"
  have 1: "conn_inv ?c" by (simp add: conn_inv_def sample_conn_def BUF_SIZE_def blank_conn_def)
  have "unproc ?c = enc_message 1 3 0 []" by (simp add: unproc_def enc_message_def)
  then show ?thesis using prepare_recv_short_message_aborts [OF 1] by (simp add: msg_len_enc_message)
qed

section \<open>The table of connections\<close>

lemma find_Some_upt:
  "find P [0..<n] = Some i \<longleftrightarrow> i < n \<and> P i \<and> (\<forall>j < i. \<not> P j)"
proof
  assume "find P [0..<n] = Some i"
  then show "i < n \<and> P i \<and> (\<forall>j < i. \<not> P j)" by (auto simp: find_Some_iff)
next
  assume "i < n \<and> P i \<and> (\<forall>j < i. \<not> P j)"
  then show "find P [0..<n] = Some i" by (auto simp: find_Some_iff intro!: exI [of _ i])
qed

lemma find_None_upt: "find P [0..<n] = None \<longleftrightarrow> (\<forall>i < n. \<not> P i)"
  by (auto simp: find_None_iff)

text \<open>Allocation of connections: when memory is available, the first entry that is not in use is taken and
  becomes a well-formed connection with empty buffers for the given socket, every other entry stays as it
  is, and \<open>-1\<close> is returned exactly if all the entries are in use. When memory is not available, \<open>-1\<close> is returned
  as well, but the entry stays marked as in use although no connection is in it.\<close>

theorem conn_alloc_result:
  "\<exists>i s'. conn_alloc recv_ok send_ok th sk tgt pr s = Inr (i, s') \<and>
    (if \<forall>j < MAX_CONNS. busy (conns s j) then i = -1 \<and> s' = s
     else \<exists>j < MAX_CONNS. \<not> busy (conns s j) \<and> (\<forall>k < j. busy (conns s k)) \<and> busy (conns s' j) \<and>
       (\<forall>k. k \<noteq> j \<longrightarrow> conns s' k = conns s k) \<and> reqs s' = reqs s \<and>
       (if recv_ok \<and> send_ok
        then i = int j \<and> conn_inv (conns s' j) \<and> sock (conns s' j) = sk \<and> target (conns s' j) = tgt \<and>
          pending (conns s' j) = [] \<and> unproc (conns s' j) = [] \<and>
          status (conns s' j) = (if pr = TCP then NOT_INIT else READY)
        else i = -1 \<and> sock (conns s' j) = sock (conns s j)))"
proof (cases "find (\<lambda>i. \<not> busy (conns s i)) [0..<MAX_CONNS]")
  case None
  moreover from None have "\<forall>j < MAX_CONNS. busy (conns s j)" by (simp add: find_None_upt)
  ultimately show ?thesis by (simp add: conn_alloc_def)
next
  case (Some j)
  then have j: "j < MAX_CONNS" "\<not> busy (conns s j)" "\<forall>k < j. busy (conns s k)"
    by (auto simp: find_Some_upt)
  obtain b where b: "fresh_buf = Inr b" "length b = BUF_SIZE" using fresh_buf_ok by blast
  let ?s1 = "upd_conn j (busy_update (\<lambda>_. True)) s"
  let ?c = "conn_fresh th sk tgt pr b b (conns ?s1 j)"
  have nb: "\<not> (\<forall>j < MAX_CONNS. busy (conns s j))" using j by blast
  have inv: "conn_inv ?c" "busy ?c" "sock ?c = sk" "target ?c = tgt" "pending ?c = []" "unproc ?c = []"
      "status ?c = (if pr = TCP then NOT_INIT else READY)"
    using conn_inv_fresh [OF b(2) b(2)] by (simp_all add: conn_fresh_def pending_def unproc_def)
  show ?thesis
  proof (cases "recv_ok \<and> send_ok")
    case True
    then have "conn_alloc recv_ok send_ok th sk tgt pr s = Inr (int j, upd_conn j (conn_fresh th sk tgt pr b b) ?s1)"
      using Some by (simp add: conn_alloc_def Let_def b(1))
    then show ?thesis unfolding if_not_P [OF nb] if_P [OF True] using j inv
      by (intro exI [of _ "int j"] exI [of _ "upd_conn j (conn_fresh th sk tgt pr b b) ?s1"] exI [of _ j] conjI)
        simp_all
  next
    case False
    then have "conn_alloc recv_ok send_ok th sk tgt pr s = Inr (-1, ?s1)"
      using Some by (simp add: conn_alloc_def Let_def)
    then show ?thesis unfolding if_not_P [OF nb] if_not_P [OF False] using j
      by (intro exI [of _ "-1"] exI [of _ ?s1] exI [of _ j] conjI) simp_all
  qed
qed

theorem conn_alloc_result_witness:
  "\<exists>s'. conn_alloc True True 1 9 \<lparr>sin_addr = 1, sin_port = 2\<rparr> TCP (conn_init sample_state) = Inr (0, s') \<and>
     sock (conns s' 0) = 9 \<and> conn_inv (conns s' 0)"
proof -
  let ?s = "conn_init sample_state"
  have nb: "\<not> busy (conns ?s 0)" "(0 :: nat) < MAX_CONNS" by (simp_all add: conn_init_def MAX_CONNS_def)
  then have ex: "\<not> (\<forall>j < MAX_CONNS. busy (conns ?s j))" by blast
  have z: "j = 0" if "\<forall>k < j. busy (conns ?s k)" for j
    using that nb(1) by (cases "j = 0") auto
  obtain i s' j where "conn_alloc True True 1 9 \<lparr>sin_addr = 1, sin_port = 2\<rparr> TCP ?s = Inr (i, s')"
      "\<forall>k < j. busy (conns ?s k)" "i = int j" "sock (conns s' j) = 9" "conn_inv (conns s' j)"
    using conn_alloc_result [of True True 1 9 "\<lparr>sin_addr = 1, sin_port = 2\<rparr>" TCP ?s] unfolding if_not_P [OF ex] by auto
  then show ?thesis using z by auto
qed

text \<open>Freeing a connection ends, releases the entry for reuse and all the requests of its list, and
  leaves every other connection and request as it is.\<close>

theorem conn_free_releases:
  assumes "req_lists c xs s"
  shows "\<exists>s'. conn_free (int c) s = Some s' \<and> \<not> busy (conns s' c) \<and> sock (conns s' c) = -1 \<and>
    recv_buf (conns s' c) = None \<and> send_buf (conns s' c) = None \<and> status (conns s' c) = CLOSE \<and>
    (\<forall>k. k \<noteq> c \<longrightarrow> conns s' k = conns s k) \<and>
    (\<forall>j. if j \<in> set xs then req_id (reqs s' j) = -1 else reqs s' j = reqs s j)"
proof -
  have "dll s None (req_list (conns s c)) xs" "distinct xs" using assms by (auto simp: req_lists_def)
  then obtain s1 where s1: "conn_reset c s = Some s1" "conns s1 = conns s"
      "\<forall>j. if j \<in> set xs then req_id (reqs s1 j) = -1 \<and> message_ptr (reqs s1 j) = None else reqs s1 j = reqs s j"
    using reset_loop_ok [of s "req_list (conns s c)" xs] unfolding conn_reset_def by blast
  then show ?thesis by (auto simp: conn_free_def)
qed

theorem conn_free_releases_witness:
  "\<exists>s'. conn_free 0 sample_state = Some s' \<and> req_id (reqs s' 1) = -1 \<and> \<not> busy (conns s' 0)"
proof -
  have "req_lists 0 [1, 0] sample_state"
    by (simp add: req_lists_def sample_state_def sample_conn_def zero_req_def MAX_REQS_def)
  from conn_free_releases [OF this] show ?thesis
    by simp (metis insert_iff)
qed

section \<open>Sending a file\<close>

text \<open>
  Outcomes of the header's \<^verbatim>\<open>send()\<close> calls as the kernel may give them for a connection with \<open>n\<close> bytes left, restricted to
  the errors that the loop handles; \<open>taken\<close> is the number of bytes they accept.
\<close>

fun outcomes_ok :: "nat \<Rightarrow> (int \<times> errno_t) list \<Rightarrow> bool" where
  "outcomes_ok n [] \<longleftrightarrow> True"
| "outcomes_ok n ((sent, e) # rs) \<longleftrightarrow> sent \<le> int n \<and> (sent \<le> 0 \<longrightarrow> e = EAGAIN \<or> e = EPIPE \<or> e = ECONNRESET) \<and>
     outcomes_ok (n - nat sent) rs"

definition taken :: "(int \<times> errno_t) list \<Rightarrow> nat" where
  "taken rs = sum_list (map (\<lambda>(n, e). nat n) rs)"

definition step_send :: "int \<Rightarrow> conn_info_t \<Rightarrow> conn_info_t" where
  "step_send n c = c\<lparr>curr_send_buf := nat (int (curr_send_buf c) + n),
     curr_send_size := nat (int (curr_send_size c) - n)\<rparr>"

lemma step_send_ok:
  assumes "conn_inv c" "0 < n" "n \<le> int (curr_send_size c)"
  shows "conn_inv (step_send n c)" "pending (step_send n c) = drop (nat n) (pending c)"
    "curr_send_size (step_send n c) = curr_send_size c - nat n"
  using assms by (auto elim!: conn_invE simp: step_send_def conn_inv_def pending_def drop_take nat_diff_distrib
      nat_add_distrib add.commute)

lemma send_header_loop_stream:
  assumes "conn_inv c" "outcomes_ok (curr_send_size c) rs"
    "send_header_loop rs out c = Some (Inr (h, out', c'))"
  shows "conn_inv c' \<and> file_remaining c' = file_remaining c \<and> file_offset c' = file_offset c \<and>
    (\<exists>bs. out' = out @ bs \<and> pending c = bs @ pending c') \<and>
    (h = Header_Sent \<longrightarrow> pending c' = []) \<and> (h = Header_Closed \<longrightarrow> status c' = CLOSING)"
  using assms
proof (induction rs out c rule: send_header_loop.induct)
  case (1 out c)
  then show ?case using length_pending [of c] by (auto split: if_splits)
next
  case (2 n e rs out c)
  show ?case
  proof (cases "curr_send_size c = 0")
    case True
    then show ?thesis using "2.prems" length_pending [of c] by auto
  next
    case False
    show ?thesis
    proof (cases "n \<le> 0")
      case True
      then show ?thesis using False "2.prems" "2.IH"(1) by (auto split: if_splits)
    next
      case pos: False
      have n: "0 < n" "n \<le> int (curr_send_size c)" using pos "2.prems" by simp_all
      have sb: "sent_bytes n c = Inr (take (nat n) (pending c))"
        using sent_bytes_ok [OF "2.prems"(1)] n by simp
      have "send_header_loop rs (out @ take (nat n) (pending c)) (step_send n c) = Some (Inr (h, out', c'))"
        using "2.prems"(3) False pos sb by (simp add: step_send_def)
      from "2.IH"(2) [OF False _ _ _ sb] pos this step_send_ok [OF "2.prems"(1) n] "2.prems"(2)
      have "conn_inv c' \<and> file_remaining c' = file_remaining (step_send n c) \<and>
          file_offset c' = file_offset (step_send n c) \<and>
          (\<exists>bs. out' = (out @ take (nat n) (pending c)) @ bs \<and> drop (nat n) (pending c) = bs @ pending c') \<and>
          (h = Header_Sent \<longrightarrow> pending c' = []) \<and> (h = Header_Closed \<longrightarrow> status c' = CLOSING)"
        by (simp add: step_send_def)
      moreover have "pending c = take (nat n) (pending c) @ drop (nat n) (pending c)" by simp
      ultimately show ?thesis by (auto simp: step_send_def) (metis append_take_drop_id)+
    qed
  qed
qed

lemma send_header_loop_ends:
  assumes "conn_inv c" "outcomes_ok (curr_send_size c) rs" "curr_send_size c \<le> taken rs"
  shows "\<exists>x. send_header_loop rs out c = Some (Inr x)"
  using assms
proof (induction rs arbitrary: out c)
  case Nil
  then show ?case by (simp add: taken_def)
next
  case (Cons a rs)
  obtain n e where a: "a = (n, e)" by force
  show ?case
  proof (cases "curr_send_size c = 0 \<or> n \<le> 0")
    case True
    then show ?thesis using Cons a by (auto simp: taken_def)
  next
    case False
    then have n: "0 < n" "n \<le> int (curr_send_size c)" using Cons.prems a by simp_all
    have sb: "sent_bytes n c = Inr (take (nat n) (pending c))"
      using sent_bytes_ok [OF Cons.prems(1)] n by simp
    have "\<exists>x. send_header_loop rs (out @ take (nat n) (pending c)) (step_send n c) = Some (Inr x)"
      using step_send_ok [OF Cons.prems(1) n] Cons.prems a by (intro Cons.IH) (auto simp: taken_def)
    then show ?thesis using False n sb a by (simp add: step_send_def)
  qed
qed

text \<open>Sending a file: if the kernel accepts the whole header in the end, \<^verbatim>\<open>conn_send_v2\<close> ends; the header bytes are
  all handed over before the file is, unless the peer closes the connection. Result 1 means that the
  whole file part is sent and the connection is ready again, result 0 that the rest of the
  file waits for the socket to become writable, with the offset and the remaining size moved by what was sent.\<close>

theorem conn_send_v2_result:
  assumes "conn_inv c" "outcomes_ok (curr_send_size c) (send_res env)" "curr_send_size c \<le> taken (send_res env)"
    "sendfile_res env = (k, e)" "-1 \<le> k" "k \<le> int (file_remaining c)"
  shows "\<exists>r out c'. conn_send_v2 env c = Some (Inr (r, out, c')) \<and> r \<in> {-1, 0, 1} \<and>
    (status c' \<noteq> CLOSING \<longrightarrow> out = pending c) \<and>
    (r = 1 \<longrightarrow> out = pending c \<and> file_remaining c' = 0 \<and> status c' = READY) \<and>
    (r = 0 \<longrightarrow> out = pending c \<and> status c' = SENDING \<and> 0 < file_remaining c' \<and>
      file_remaining c' = file_remaining c - nat k \<and> file_offset c' = file_offset c + max k 0) \<and>
    (r = -1 \<longrightarrow> status c' = CLOSING \<or> k = -1)"
proof -
  obtain h out c1 where h: "send_header_loop (send_res env) [] c = Some (Inr (h, out, c1))"
    using send_header_loop_ends [OF assms(1-3)] by fastforce
  note s = send_header_loop_stream [OF assms(1,2) h]
  show ?thesis
  proof (cases h)
    case Header_Closed
    then show ?thesis using h s by (auto simp: conn_send_v2_def)
  next
    case Header_Sent
    then have "out = pending c" "file_remaining c1 = file_remaining c" "file_offset c1 = file_offset c"
      using s by auto
    then show ?thesis using h Header_Sent assms(4-6)
      by (cases "k = -1") (auto simp: conn_send_v2_def send_file_phase_def Let_def max_def)
  qed
qed

theorem conn_send_v2_result_witness:
  "\<exists>r out c'. conn_send_v2 (idle_env\<lparr>send_res := [(-1, EAGAIN), (7, E_OTHER), (5, E_OTHER)], sendfile_res := (100, E_OTHER)\<rparr>)
      (sample_conn\<lparr>curr_send_size := 12, file_remaining := 300\<rparr>) = Some (Inr (r, out, c')) \<and> r \<in> {-1, 0, 1}"
proof -
  let ?c = "sample_conn\<lparr>curr_send_size := 12, file_remaining := 300\<rparr>"
  let ?env = "idle_env\<lparr>send_res := [(-1, EAGAIN), (7, E_OTHER), (5, E_OTHER)], sendfile_res := (100, E_OTHER)\<rparr>"
  have "conn_inv ?c" by (simp add: conn_inv_def sample_conn_def BUF_SIZE_def blank_conn_def)
  moreover have "outcomes_ok (curr_send_size ?c) (send_res ?env)" "curr_send_size ?c \<le> taken (send_res ?env)"
    by (simp_all add: taken_def)
  ultimately show ?thesis using conn_send_v2_result [of ?c ?env 100 E_OTHER] by simp blast
qed

text \<open>An error of \<^verbatim>\<open>send()\<close> other than the ones tested is not handled while the header is sent: the result -1 is used
  as a count, and moves the send pointer in front of the buffer.\<close>

theorem conn_send_v2_other_error:
  assumes "0 < curr_send_size c" "curr_send_buf c = 0" "send_res env = (-1, e) # rs"
    "e \<noteq> EAGAIN" "e \<noteq> EPIPE" "e \<noteq> ECONNRESET"
  shows "conn_send_v2 env c = Some (Inl Out_Of_Bounds)"
  using assms by (simp add: conn_send_v2_def)

theorem conn_send_v2_other_error_witness:
  "conn_send_v2 (idle_env\<lparr>send_res := [(-1, E_OTHER)]\<rparr>) (sample_conn\<lparr>curr_send_size := 12\<rparr>) = Some (Inl Out_Of_Bounds)"
  by (rule conn_send_v2_other_error [of _ _ E_OTHER "[]"]) (simp_all add: sample_conn_def blank_conn_def)

end
