(* ===== verification/DW_Timeout.thy ===== *)
theory DW_Timeout
  imports DW_Timespec DW_PQueue DW_Connection
begin

text \<open>
  The timeouts of forwarded requests (\<^verbatim>\<open>src/dw_node.c\<close>, \<^verbatim>\<open>insert_timeout\<close> and \<^verbatim>\<open>remove_timeout\<close>), and the state of
  a connection worker. The keys of the priority queue are microseconds after an epoch that the queue does not
  record: the time gone by since then is the key of the top entry less the time left on the timer, which is
  always armed for the top. The first argument of the two operations is what \<^verbatim>\<open>timerfd_gettime()\<close> returns; the argument of
  the call of \<^verbatim>\<open>timerfd_settime()\<close>, if there is one, is a part of the result.
\<close>

section \<open>Definitions\<close>

record conn_worker_info_t =
  listen_socks :: "(int \<times> proto_t) list"
  timeout_queue :: "int pqueue_t"
  time_elapsed :: int
  w_worker_id :: int
  active_conns :: int
  active_reqs :: int

text \<open>The key of a new timeout: sums of values of type \<^verbatim>\<open>int\<close>, each of which can overflow.\<close>

definition new_deadline :: "itimerspec \<Rightarrow> int \<Rightarrow> conn_worker_info_t \<Rightarrow> (int \<times> conn_worker_info_t) res" where
  "new_deadline cur micros w =
     (case pqueue_top (timeout_queue w) of
        Some tp \<Rightarrow>
          rbind (c_int (micros + time_elapsed w)) (\<lambda>a.
          rbind (c_int (a + pqueue_node_key (timeout_queue w) tp)) (\<lambda>b.
          rbind (c_int (b - its_to_us cur)) (\<lambda>new_micros. Inr (new_micros, w))))
      | None \<Rightarrow> Inr (micros, w\<lparr>time_elapsed := 0\<rparr>))"

definition insert_timeout ::
    "itimerspec \<Rightarrow> int \<Rightarrow> int \<Rightarrow> conn_worker_info_t \<Rightarrow> 'a req_table_scheme \<Rightarrow>
     (itimerspec option \<times> conn_worker_info_t \<times> 'a req_table_scheme) res option" where
  "insert_timeout cur rid micros w s =
     (case req_get_by_id rid s of
        None \<Rightarrow> Some (Inr (None, w, s))
      | Some r \<Rightarrow>
          if timeout_node (reqs s r) \<noteq> None then Some (Inr (None, w, s))
          else obind (Some (new_deadline cur micros w)) (\<lambda>(new_micros, w1).
            obind (pqueue_insert (timeout_queue w1) new_micros rid) (\<lambda>(n, q).
              Some (Inr (if pqueue_top q = Some n then Some (us_to_its micros) else None,
                w1\<lparr>timeout_queue := q\<rparr>, upd_req r (timeout_node_update (\<lambda>_. Some n)) s)))))"

definition remove_timeout ::
    "itimerspec \<Rightarrow> int \<Rightarrow> conn_worker_info_t \<Rightarrow> 'a req_table_scheme \<Rightarrow>
     (int \<times> itimerspec option \<times> conn_worker_info_t \<times> 'a req_table_scheme) res option" where
  "remove_timeout cur rid w s =
     (case req_get_by_id rid s of
        None \<Rightarrow> Some (Inr (-1, None, w, s))
      | Some r \<Rightarrow>
          (case (timeout_node (reqs s r), pqueue_top (timeout_queue w)) of
             (None, _) \<Rightarrow> Some (Inr (-1, None, w, s))
           | (Some n, None) \<Rightarrow> Some (Inl Null_Deref)
           | (Some n, Some tp) \<Rightarrow>
               let is_top = (tp = n); req_timeout = pqueue_node_key (timeout_queue w) n in
               obind (Some (c_int (pqueue_node_key (timeout_queue w) tp - its_to_us cur))) (\<lambda>elapsed.
               obind (pqueue_remove (timeout_queue w) n) (\<lambda>q.
                 let w1 = w\<lparr>timeout_queue := q\<rparr>;
                     s1 = upd_req r (timeout_node_update (\<lambda>_. None)) s
                 in Some (rbind
                   (if \<not> is_top then Inr (None, w1)
                    else case pqueue_top q of
                        Some tp' \<Rightarrow>
                          rbind (c_int (pqueue_node_key q tp' - elapsed)) (\<lambda>next.
                            Inr (Some (us_to_its next), w1\<lparr>time_elapsed := elapsed\<rparr>))
                      | None \<Rightarrow> Inr (Some (us_to_its 0), w1\<lparr>time_elapsed := 0\<rparr>)) (\<lambda>(tm, w2).
                   rbind (c_int (req_timeout - elapsed)) (\<lambda>left. Inr (left, tm, w2, s1))))))))"

section \<open>Deadlines\<close>

text \<open>
  The reading \<open>cur\<close> of the timer agrees with the queue \<open>q\<close> when \<open>el\<close> microseconds have gone by since the epoch of the
  keys: the timer is armed for the top entry.
\<close>

definition timer_agrees :: "int \<Rightarrow> itimerspec \<Rightarrow> int pqueue_t \<Rightarrow> bool" where
  "timer_agrees el cur q \<longleftrightarrow> (\<forall>tp. pqueue_top q = Some tp \<longrightarrow> its_to_us cur = pqueue_node_key q tp - el)"

lemma pq_key: "pq_abs q n = Some (k, d) \<Longrightarrow> pqueue_node_key q n = k"
  by (auto simp: pq_abs_def pqueue_node_key_def split: if_splits)

lemma pq_top_key_less:
  assumes "pq_inv q" "pq_abs q n = Some (k, d)" "pq_abs q m = Some (k', d')" "k' < k"
  shows "pqueue_top q \<noteq> Some n"
proof
  assume "pqueue_top q = Some n"
  then obtain k0 d0 where "pq_abs q n = Some (k0, d0)" "\<forall>m k' d'. pq_abs q m = Some (k', d') \<longrightarrow> k0 \<le> k'"
    using pq.top_least [OF assms(1)] by blast
  then show False using assms(2-4) by fastforce
qed


text \<open>The key of the top is the least key.\<close>

lemma pq_top_abs:
  assumes "pq_inv q" "pqueue_top q = Some n"
  shows "\<exists>d. pq_abs q n = Some (pqueue_node_key q n, d)"
    and "pq_abs q m = Some (k, d') \<Longrightarrow> pqueue_node_key q n \<le> k"
proof -
  obtain k0 d0 where kd: "pq_abs q n = Some (k0, d0)" "\<forall>m k' d'. pq_abs q m = Some (k', d') \<longrightarrow> k0 \<le> k'"
    using pq.top_least [OF assms] by blast
  note k0 = pq_key [OF kd(1)]
  show "\<exists>d. pq_abs q n = Some (pqueue_node_key q n, d)" using kd(1) k0 by simp
  show "pqueue_node_key q n \<le> k" if "pq_abs q m = Some (k, d')" using kd(2) that k0 by blast
qed

lemma remove_keeps_top_key:
  assumes "pq_inv q" "pq_inv q'" "pq_abs q' = (pq_abs q)(n := None)" "pqueue_top q = Some t" "t \<noteq> n"
    "pqueue_top q' = Some t'"
  shows "pqueue_node_key q' t' = pqueue_node_key q t"
proof -
  obtain d where t: "pq_abs q t = Some (pqueue_node_key q t, d)" using pq_top_abs(1) [OF assms(1,4)] by blast
  obtain d' where t': "pq_abs q' t' = Some (pqueue_node_key q' t', d')" using pq_top_abs(1) [OF assms(2,6)] by blast
  have "pqueue_node_key q' t' \<le> pqueue_node_key q t"
    using t assms(3,5) by (intro pq_top_abs(2) [OF assms(2,6), of t]) auto
  moreover have "pqueue_node_key q t \<le> pqueue_node_key q' t'"
    using t' assms(3) by (intro pq_top_abs(2) [OF assms(1,4), of t']) (auto split: if_splits)
  ultimately show ?thesis by simp
qed

text \<open>The sums that the two operations make are values of type \<^verbatim>\<open>int\<close>.\<close>

definition insert_fits :: "itimerspec \<Rightarrow> int \<Rightarrow> conn_worker_info_t \<Rightarrow> bool" where
  "insert_fits cur micros w \<longleftrightarrow> (\<forall>tp. pqueue_top (timeout_queue w) = Some tp \<longrightarrow>
     (let k = pqueue_node_key (timeout_queue w) tp in
      in_int (micros + time_elapsed w) \<and> in_int (micros + time_elapsed w + k) \<and> in_int (micros + time_elapsed w + k - its_to_us cur)))"

definition remove_fits :: "itimerspec \<Rightarrow> int pqueue_t \<Rightarrow> bool" where
  "remove_fits cur q \<longleftrightarrow> (\<forall>tp. pqueue_top q = Some tp \<longrightarrow>
     (let elapsed = pqueue_node_key q tp - its_to_us cur in
      in_int elapsed \<and> (\<forall>n k d. pq_abs q n = Some (k, d) \<longrightarrow> in_int (k - elapsed))))"

lemma new_deadline_cases:
  "new_deadline cur micros w = (case pqueue_top (timeout_queue w) of
     Some tp \<Rightarrow> if insert_fits cur micros w
       then Inr (micros + time_elapsed w + pqueue_node_key (timeout_queue w) tp - its_to_us cur, w) else Inl Int_Overflow
   | None \<Rightarrow> Inr (micros, w\<lparr>time_elapsed := 0\<rparr>))"
  by (auto simp: new_deadline_def insert_fits_def c_int_def Let_def split: option.splits)

text \<open>A timeout inserted with \<open>micros\<close> microseconds into an empty queue is due after \<open>micros\<close>. Inserted into a queue with other
  timeouts, of which \<open>el\<close> microseconds have gone by, it is due \<open>micros\<close> from now plus \<^verbatim>\<open>time_elapsed\<close>: it is exact only as long
  as \<^verbatim>\<open>time_elapsed\<close>, which the removal of the top entry sets, is 0. No other entry changes, and the timer is set exactly if
  the new entry is the next to expire.\<close>

theorem insert_timeout_deadline:
  assumes "pq_inv (timeout_queue w)" "psize (timeout_queue w) < pcapacity (timeout_queue w)"
    "req_get_by_id rid s = Some r" "timeout_node (reqs s r) = None"
    "timer_agrees el cur (timeout_queue w)" "insert_fits cur micros w"
  shows "\<exists>n tm w' s'. insert_timeout cur rid micros w s = Some (Inr (tm, w', s')) \<and> pq_inv (timeout_queue w') \<and>
    timeout_node (reqs s' r) = Some n \<and> req_get_by_id rid s' = Some r \<and> pq_abs (timeout_queue w) n = None \<and>
    pq_abs (timeout_queue w') = (pq_abs (timeout_queue w))
      (n \<mapsto> (if psize (timeout_queue w) = 0 then micros else el + micros + time_elapsed w, rid)) \<and>
    tm = (if pqueue_top (timeout_queue w') = Some n then Some (us_to_its micros) else None)"
proof -
  let ?q = "timeout_queue w"
  define k where "k = (if psize ?q = 0 then micros else el + micros + time_elapsed w)"
  define w1 where "w1 = (if psize ?q = 0 then w\<lparr>time_elapsed := 0\<rparr> else w)"
  have q1: "timeout_queue w1 = ?q" by (simp add: w1_def)
  obtain n q' where ins: "pqueue_insert ?q k rid = Some (Inr (n, q'))" "pq_inv q'" "pq_abs ?q n = None"
      "pq_abs q' = (pq_abs ?q)(n \<mapsto> (k, rid))"
    using pq.ins_law [OF assms(1)] assms(2) card_dom_pq_abs [OF assms(1)] by metis
  have "new_deadline cur micros w = Inr (k, w1)"
    using assms(5,6) by (auto simp: new_deadline_cases k_def w1_def timer_agrees_def pqueue_top_def)
  then have "insert_timeout cur rid micros w s = Some (Inr (if pqueue_top q' = Some n then Some (us_to_its micros) else None,
      w1\<lparr>timeout_queue := q'\<rparr>, upd_req r (timeout_node_update (\<lambda>_. Some n)) s))"
    using assms(3,4) ins(1) by (simp add: insert_timeout_def q1 obind_def)
  moreover have "req_get_by_id rid (upd_req r (timeout_node_update (\<lambda>_. Some n)) s) = Some r"
    using assms(3) by (auto simp: req_get_by_id_def reqs_upd_req split: if_splits)
  ultimately show ?thesis
    by (intro exI [of _ n] exI conjI) (assumption | use ins in \<open>simp add: reqs_upd_req k_def\<close>)+
qed

text \<open>C29. The removal of a timeout returns the time that was left before it would have expired, and takes out this entry only. When it
  was the next to expire, the timer is set for the next one, on time, or is disarmed when no timeout is left; otherwise the timer
  is left alone.\<close>

theorem remove_timeout_remaining:
  assumes "pq_inv (timeout_queue w)" "req_get_by_id rid s = Some r" "timeout_node (reqs s r) = Some n"
    "pq_abs (timeout_queue w) n = Some (k, d)" "timer_agrees el cur (timeout_queue w)"
    "in_int el" "\<forall>m k' d'. pq_abs (timeout_queue w) m = Some (k', d') \<longrightarrow> in_int (k' - el)"
  shows "\<exists>tm w' s'. remove_timeout cur rid w s = Some (Inr (k - el, tm, w', s')) \<and> pq_inv (timeout_queue w') \<and>
    timeout_node (reqs s' r) = None \<and> pq_abs (timeout_queue w') = (pq_abs (timeout_queue w))(n := None) \<and>
    (case tm of
       None \<Rightarrow> timer_agrees el cur (timeout_queue w') \<and> pqueue_top (timeout_queue w) \<noteq> Some n
     | Some t \<Rightarrow> timer_agrees el t (timeout_queue w') \<and> pqueue_top (timeout_queue w) = Some n \<and>
         (psize (timeout_queue w') = 0 \<longrightarrow> its_to_us t = 0))"
proof -
  let ?q = "timeout_queue w"
  obtain q' where rm: "pqueue_remove ?q n = Some (Inr q')" "pq_inv q'" "pq_abs q' = (pq_abs ?q)(n := None)"
    using pq.del_law [OF assms(1) domI [where m = "pq_abs ?q", OF assms(4)]] by blast
  obtain tp where tp: "pqueue_top ?q = Some tp" using pq.top_None [OF assms(1)] assms(4) by fastforce
  have el: "c_int (pqueue_node_key ?q tp - its_to_us cur) = Inr el"
    using assms(5,6) tp by (simp add: timer_agrees_def)
  have key: "pqueue_node_key ?q n = k" using assms(4) by (rule pq_key)
  have rem: "c_int (k - el) = Inr (k - el)" using assms(7) [rule_format, OF assms(4)] by simp
  let ?s' = "upd_req r (timeout_node_update (\<lambda>_. None)) s"
  have s': "timeout_node (reqs ?s' r) = None" by (simp add: reqs_upd_req)
  show ?thesis
  proof (cases "tp = n")
    case False
    then have "remove_timeout cur rid w s = Some (Inr (k - el, None, w\<lparr>timeout_queue := q'\<rparr>, ?s'))"
      using assms(2,3) tp rm(1) el rem key by (simp add: remove_timeout_def Let_def obind_def)
    moreover have "timer_agrees el cur q'"
      using assms(5) tp remove_keeps_top_key [OF assms(1) rm(2,3) tp False] by (auto simp: timer_agrees_def)
    ultimately show ?thesis using rm s' tp False by (intro exI conjI) (assumption | simp)+
  next
    case True
    show ?thesis
    proof (cases "pqueue_top q'")
      case None
      then have "remove_timeout cur rid w s =
          Some (Inr (k - el, Some (us_to_its 0), w\<lparr>timeout_queue := q', time_elapsed := 0\<rparr>, ?s'))"
        using True assms(2,3) tp rm(1) el rem key by (simp add: remove_timeout_def Let_def obind_def)
      then show ?thesis using rm s' tp True None us_its_id [of 0]
        by (intro exI conjI) (assumption | simp add: timer_agrees_def)+
    next
      case (Some tp')
      then obtain d' where d': "pq_abs q' tp' = Some (pqueue_node_key q' tp', d')" using pq_top_abs(1) [OF rm(2)] by blast
      then have r: "in_int (pqueue_node_key q' tp' - el)" using rm(3) assms(7) by (auto split: if_splits)
      then have "remove_timeout cur rid w s = Some (Inr (k - el, Some (us_to_its (pqueue_node_key q' tp' - el)),
          w\<lparr>timeout_queue := q', time_elapsed := el\<rparr>, ?s'))"
        using True assms(2,3) tp rm(1) el rem key Some by (simp add: remove_timeout_def Let_def obind_def)
      moreover have "timer_agrees el (us_to_its (pqueue_node_key q' tp' - el)) q'"
        using Some us_its_id [of "pqueue_node_key q' tp' - el"] r by (simp add: timer_agrees_def in_int_def)
      moreover have "psize q' \<noteq> 0" using Some by (simp add: pqueue_top_def split: if_splits)
      ultimately show ?thesis using rm s' tp True by (intro exI conjI) (assumption | simp)+
    qed
  qed
qed


text \<open>A worker that waits for one forward: the request 7, due after 500 microseconds, of which 200 have gone by.\<close>

definition waiting_queue :: "int pqueue_t" where
  "waiting_queue = \<lparr>pnodes = [\<lparr>heap_id = 0, key = 0, data = 0\<rparr>, \<lparr>heap_id = 0, key = 500, data = 7\<rparr>],
     heap = [1, 0], stack = [0, 1], psize = 1, pcapacity = 2\<rparr>"

definition waiting_worker :: conn_worker_info_t where
  "waiting_worker = \<lparr>listen_socks = [], timeout_queue = waiting_queue, time_elapsed = 0, w_worker_id = 0,
     active_conns = 1, active_reqs = 1\<rparr>"

definition waiting_reqs :: req_table where
  "waiting_reqs = \<lparr>reqs = \<lambda>i. if i = 7 then zero_req\<lparr>req_id := 7, timeout_node := Some 1\<rparr>
     else zero_req\<lparr>req_id := int i\<rparr>, last_reqs = 9\<rparr>"

lemma waiting_queue_inv: "pq_inv waiting_queue"
  by (simp add: pq_inv_def pq_struct_def heap_ok_def waiting_queue_def hk_def used_def numeral_2_eq_2 less_Suc_eq)

lemma waiting_queue_abs: "pq_abs waiting_queue = [1 \<mapsto> (500, 7)]"
  by (auto simp: pq_abs_def used_def waiting_queue_def fun_eq_iff)

lemma waiting_agrees: "timer_agrees 200 (us_to_its 300) waiting_queue"
  using us_its_id [of 300] by (simp add: timer_agrees_def waiting_queue_def pqueue_top_def pqueue_node_key_def)

theorem insert_timeout_deadline_witness:
  "\<exists>n tm w' s'. insert_timeout (us_to_its 300) 8 1000 waiting_worker waiting_reqs = Some (Inr (tm, w', s')) \<and>
     timeout_node (reqs s' 8) = Some n \<and> pq_abs (timeout_queue w') n = Some (1200, 8)"
proof -
  have "insert_fits (us_to_its 300) 1000 waiting_worker"
    using us_its_id [of 300] by (simp add: insert_fits_def in_int_def waiting_worker_def waiting_queue_def pqueue_top_def pqueue_node_key_def Let_def)
  then show ?thesis
    using insert_timeout_deadline [of waiting_worker 8 waiting_reqs 8 200 "us_to_its 300" 1000] waiting_queue_inv waiting_agrees
    by (auto simp: waiting_worker_def waiting_reqs_def zero_req_def waiting_queue_def req_get_by_id_def req_slot_def MAX_REQS_def)
qed

text \<open>The timeout of a forward comes from the network. With one forward waiting, the largest \<^verbatim>\<open>int\<close> as the timeout of a second one overflows.\<close>

theorem insert_timeout_overflow: "insert_timeout (us_to_its 300) 8 (2 ^ 31 - 1) waiting_worker waiting_reqs = Some (Inl Int_Overflow)"
  by (simp add: insert_timeout_def new_deadline_def c_int_def in_int_def waiting_worker_def waiting_queue_def pqueue_top_def pqueue_node_key_def
      waiting_reqs_def zero_req_def req_get_by_id_def req_slot_def MAX_REQS_def obind_def)

theorem remove_timeout_remaining_witness:
  "\<exists>tm w' s'. remove_timeout (us_to_its 300) 7 waiting_worker waiting_reqs = Some (Inr (300, tm, w', s')) \<and>
     pq_abs (timeout_queue w') = Map.empty"
proof -
  have "timeout_queue waiting_worker = waiting_queue" by (simp add: waiting_worker_def)
  moreover have "req_get_by_id 7 waiting_reqs = Some 7" "timeout_node (reqs waiting_reqs 7) = Some 1"
    by (simp_all add: waiting_reqs_def req_get_by_id_def req_slot_def MAX_REQS_def)
  moreover have "\<forall>m k' d'. pq_abs waiting_queue m = Some (k', d') \<longrightarrow> in_int (k' - 200)"
    by (auto simp: waiting_queue_abs in_int_def split: if_splits)
  ultimately show ?thesis
    using remove_timeout_remaining [of waiting_worker 7 waiting_reqs 7 1 500 7 200 "us_to_its 300"]
      waiting_queue_inv waiting_agrees by (auto simp: waiting_queue_abs in_int_def)
qed

end
