(* ===== verification/DW_Poll.thy ===== *)
theory DW_Poll
  imports DW_Prelude "HOL-Library.Multiset"
begin

text \<open>
  The event multiplexer: \<^verbatim>\<open>src/dw_poll.h\<close> and \<^verbatim>\<open>src/dw_poll.c\<close>, with its three back ends. The arrays of the
  \<^verbatim>\<open>select()\<close> and \<^verbatim>\<open>poll()\<close> back ends with their counts are lists of the entries in use, so that a
  write behind the last of the \<^verbatim>\<open>MAX_POLLFD\<close> entries is the fault \<open>Out_Of_Bounds\<close>. What the kernel
  answers is an argument: the ready sets of \<^verbatim>\<open>select()\<close>, the \<^verbatim>\<open>revents\<close> of \<^verbatim>\<open>poll()\<close>, the events of
  \<^verbatim>\<open>epoll_wait()\<close>, and for \<^verbatim>\<open>epoll_ctl()\<close> a function on the state that the kernel keeps.
\<close>

section \<open>Definitions\<close>

text \<open>
  Flags are 32-bit words. The bits of \<^verbatim>\<open>DW_POLLIN\<close>, \<^verbatim>\<open>DW_POLLOUT\<close>, \<^verbatim>\<open>DW_POLLERR\<close>, \<^verbatim>\<open>DW_POLLHUP\<close> and
  \<^verbatim>\<open>DW_POLLONESHOT\<close> are those of the \<^verbatim>\<open>POLL*\<close> and \<^verbatim>\<open>EPOLL*\<close> constants of Linux.
\<close>

definition POLLIN_BIT :: nat where "POLLIN_BIT = 0"
definition POLLOUT_BIT :: nat where "POLLOUT_BIT = 2"
definition POLLERR_BIT :: nat where "POLLERR_BIT = 3"
definition POLLHUP_BIT :: nat where "POLLHUP_BIT = 4"
definition ONESHOT_BIT :: nat where "ONESHOT_BIT = 30"

definition MAX_POLLFD :: nat where "MAX_POLLFD = 8192"

text \<open>The number of descriptors of an \<^verbatim>\<open>fd_set\<close>.\<close>

definition FD_SETSIZE :: nat where "FD_SETSIZE = 1024"

fun keep_bits :: "nat list \<Rightarrow> u32 \<Rightarrow> u32" where
  "keep_bits [] f = 0"
| "keep_bits (n # ns) f = (if bit f n then set_bit n (keep_bits ns f) else keep_bits ns f)"

definition events_of :: "u32 \<Rightarrow> u32" where
  "events_of flags = keep_bits [POLLIN_BIT, POLLOUT_BIT] flags"

definition flags_of_revents :: "u32 \<Rightarrow> u32" where
  "flags_of_revents r = keep_bits [POLLIN_BIT, POLLOUT_BIT, POLLERR_BIT, POLLHUP_BIT] r"

record sel_entry =
  sel_fd :: int
  sel_aux :: nat
  sel_flags :: u32

record select_fds =
  rd_ent :: "sel_entry list"
  wr_ent :: "sel_entry list"
  rd_fds :: "int list"
  wr_fds :: "int list"
  s_iter :: nat

record poll_entry =
  pfd :: int
  pevents :: u32
  revents :: u32
  paux :: nat
  pflags :: u32

record poll_fds =
  pollfds :: "poll_entry list"
  p_iter :: nat

datatype epoll_op = EPOLL_CTL_ADD | EPOLL_CTL_MOD | EPOLL_CTL_DEL

record 'k epoll_fds =
  ep_kernel :: 'k
  ep_events :: "(u32 \<times> nat) list"
  n_events :: nat
  e_iter :: nat

datatype 'k poll_u = DW_SELECT select_fds | DW_POLL poll_fds | DW_EPOLL "'k epoll_fds"

datatype dw_poll_type_t = T_SELECT | T_POLL | T_EPOLL

record 'k dw_poll_t =
  use_spinning :: bool
  u :: "'k poll_u"

text \<open>\<^verbatim>\<open>epoll_ctl()\<close>: operation, descriptor, events and user data, on the state of the kernel.\<close>

type_synonym 'k epoll_ctl = "epoll_op \<Rightarrow> int \<Rightarrow> u32 \<Rightarrow> nat \<Rightarrow> 'k \<Rightarrow> int \<times> 'k"

definition dw_poll_init :: "'k option \<Rightarrow> dw_poll_type_t \<Rightarrow> bool \<Rightarrow> 'k dw_poll_t res" where
  "dw_poll_init epollfd ty spin =
     (case ty of
        T_SELECT \<Rightarrow> Inr \<lparr>use_spinning = spin, u = DW_SELECT \<lparr>rd_ent = [], wr_ent = [], rd_fds = [], wr_fds = [], s_iter = 0\<rparr>\<rparr>
      | T_POLL \<Rightarrow> Inr \<lparr>use_spinning = spin, u = DW_POLL \<lparr>pollfds = [], p_iter = 0\<rparr>\<rparr>
      | T_EPOLL \<Rightarrow> (case epollfd of
            None \<Rightarrow> Inl Exit_Failure
          | Some k \<Rightarrow> Inr \<lparr>use_spinning = spin,
              u = DW_EPOLL \<lparr>ep_kernel = k, ep_events = [], n_events = 0, e_iter = 0\<rparr>\<rparr>))"

text \<open>Deletion of the entry at \<open>i\<close>: the last entry takes its place.\<close>

definition del_pos :: "nat \<Rightarrow> 'e list \<Rightarrow> 'e list" where
  "del_pos i es =
     (let n = length es - 1 in if i < n then (take n es)[i := es ! n] else take n es)"

definition dw_select_del_rd_pos :: "nat \<Rightarrow> select_fds \<Rightarrow> select_fds" where
  "dw_select_del_rd_pos i p = p\<lparr>rd_ent := del_pos i (rd_ent p)\<rparr>"

definition dw_select_del_wr_pos :: "nat \<Rightarrow> select_fds \<Rightarrow> select_fds" where
  "dw_select_del_wr_pos i p = p\<lparr>wr_ent := del_pos i (wr_ent p)\<rparr>"

definition dw_poll_del_pos :: "nat \<Rightarrow> poll_fds \<Rightarrow> poll_fds" where
  "dw_poll_del_pos i p = p\<lparr>pollfds := del_pos i (pollfds p)\<rparr>"

definition add_entry :: "'e \<Rightarrow> 'e list \<Rightarrow> 'e list res" where
  "add_entry e es = (if length es < MAX_POLLFD then Inr (es @ [e]) else Inl Out_Of_Bounds)"

definition dw_select_add_rd :: "int \<Rightarrow> u32 \<Rightarrow> nat \<Rightarrow> select_fds \<Rightarrow> select_fds res" where
  "dw_select_add_rd fd flags aux p =
     rbind (add_entry \<lparr>sel_fd = fd, sel_aux = aux, sel_flags = flags\<rparr> (rd_ent p)) (\<lambda>es. Inr (p\<lparr>rd_ent := es\<rparr>))"

definition dw_select_add_wr :: "int \<Rightarrow> u32 \<Rightarrow> nat \<Rightarrow> select_fds \<Rightarrow> select_fds res" where
  "dw_select_add_wr fd flags aux p =
     rbind (add_entry \<lparr>sel_fd = fd, sel_aux = aux, sel_flags = flags\<rparr> (wr_ent p)) (\<lambda>es. Inr (p\<lparr>wr_ent := es\<rparr>))"

definition select_add :: "int \<Rightarrow> u32 \<Rightarrow> nat \<Rightarrow> select_fds \<Rightarrow> (int \<times> select_fds) res" where
  "select_add fd flags aux p =
     (if bit flags POLLIN_BIT \<and> length (rd_ent p) = MAX_POLLFD \<or>
         bit flags POLLOUT_BIT \<and> length (wr_ent p) = MAX_POLLFD then Inr (-1, p)
      else rbind (if bit flags POLLIN_BIT then dw_select_add_rd fd flags aux p else Inr p) (\<lambda>p1.
        rbind (if bit flags POLLOUT_BIT then dw_select_add_wr fd flags aux p1 else Inr p1) (\<lambda>p2.
          Inr (0, p2))))"

definition poll_add :: "int \<Rightarrow> u32 \<Rightarrow> nat \<Rightarrow> poll_fds \<Rightarrow> int \<times> poll_fds" where
  "poll_add fd flags aux p =
     (if length (pollfds p) = MAX_POLLFD then (-1, p)
      else (0, p\<lparr>pollfds := pollfds p @ [\<lparr>pfd = fd, pevents = events_of flags, revents = 0, paux = aux,
              pflags = flags\<rparr>]\<rparr>))"

definition dw_poll_add :: "'k epoll_ctl \<Rightarrow> int \<Rightarrow> u32 \<Rightarrow> nat \<Rightarrow> 'k dw_poll_t \<Rightarrow> (int \<times> 'k dw_poll_t) res" where
  "dw_poll_add ctl fd flags aux p =
     (case u p of
        DW_SELECT q \<Rightarrow> rbind (select_add fd flags aux q) (\<lambda>(rv, q'). Inr (rv, p\<lparr>u := DW_SELECT q'\<rparr>))
      | DW_POLL q \<Rightarrow> (case poll_add fd flags aux q of (rv, q') \<Rightarrow> Inr (rv, p\<lparr>u := DW_POLL q'\<rparr>))
      | DW_EPOLL q \<Rightarrow>
          (case ctl EPOLL_CTL_ADD fd (keep_bits [POLLIN_BIT, POLLOUT_BIT, ONESHOT_BIT] flags) aux (ep_kernel q) of
             (rv, k) \<Rightarrow> Inr (rv, p\<lparr>u := DW_EPOLL (q\<lparr>ep_kernel := k\<rparr>)\<rparr>)))"

text \<open>The position of the first entry with the given descriptor, or the number of entries.\<close>

fun find_pos :: "('e \<Rightarrow> bool) \<Rightarrow> 'e list \<Rightarrow> nat" where
  "find_pos P [] = 0"
| "find_pos P (e # es) = (if P e then 0 else Suc (find_pos P es))"

definition mod_ent :: "int \<Rightarrow> u32 \<Rightarrow> bool \<Rightarrow> nat \<Rightarrow> sel_entry list \<Rightarrow> sel_entry list res" where
  "mod_ent fd flags want aux es =
     (let i = find_pos (\<lambda>e. sel_fd e = fd) es in
      if i < length es \<and> \<not> want then Inr (del_pos i es)
      else if i = length es \<and> want then add_entry \<lparr>sel_fd = fd, sel_aux = aux, sel_flags = flags\<rparr> es
      else if i < length es \<and> want
      then Inr (es[i := (es ! i)\<lparr>sel_aux := aux, sel_flags := unset_bit ONESHOT_BIT flags\<rparr>])
      else Inr es)"

definition select_mod :: "int \<Rightarrow> u32 \<Rightarrow> nat \<Rightarrow> select_fds \<Rightarrow> (int \<times> select_fds) res" where
  "select_mod fd flags aux p =
     rbind (mod_ent fd flags (bit flags POLLIN_BIT) aux (rd_ent p)) (\<lambda>rd.
       rbind (mod_ent fd flags (bit flags POLLOUT_BIT) aux (wr_ent p)) (\<lambda>wr.
         Inr (0, p\<lparr>rd_ent := rd, wr_ent := wr\<rparr>)))"

definition poll_mod :: "int \<Rightarrow> u32 \<Rightarrow> nat \<Rightarrow> poll_fds \<Rightarrow> int \<times> poll_fds" where
  "poll_mod fd flags aux p =
     (let i = find_pos (\<lambda>e. pfd e = fd) (pollfds p);
          p1 = (if i < length (pollfds p) then
                  let q = p\<lparr>pollfds := (pollfds p)[i := (pollfds p ! i)\<lparr>pevents := events_of flags\<rparr>]\<rparr> in
                  if events_of flags = 0 then dw_poll_del_pos i q
                  else q\<lparr>pollfds := (pollfds q)[i := (pollfds q ! i)\<lparr>paux := aux,
                           pflags := unset_bit ONESHOT_BIT flags\<rparr>]\<rparr>
                else p)
      in if i = length (pollfds p1) \<and> flags \<noteq> 0 then poll_add fd flags aux p1 else (0, p1))"

definition dw_poll_mod :: "'k epoll_ctl \<Rightarrow> int \<Rightarrow> u32 \<Rightarrow> nat \<Rightarrow> 'k dw_poll_t \<Rightarrow> (int \<times> 'k dw_poll_t) res" where
  "dw_poll_mod ctl fd flags aux p =
     (case u p of
        DW_SELECT q \<Rightarrow> rbind (select_mod fd flags aux q) (\<lambda>(rv, q'). Inr (rv, p\<lparr>u := DW_SELECT q'\<rparr>))
      | DW_POLL q \<Rightarrow> (case poll_mod fd flags aux q of (rv, q') \<Rightarrow> Inr (rv, p\<lparr>u := DW_POLL q'\<rparr>))
      | DW_EPOLL q \<Rightarrow>
          (case (if bit flags POLLIN_BIT \<or> bit flags POLLOUT_BIT
                 then ctl EPOLL_CTL_MOD fd (events_of flags) aux (ep_kernel q)
                 else ctl EPOLL_CTL_DEL fd 0 0 (ep_kernel q)) of
             (rv, k) \<Rightarrow> Inr (rv, p\<lparr>u := DW_EPOLL (q\<lparr>ep_kernel := k\<rparr>)\<rparr>)))"

definition dw_poll_del :: "'k epoll_ctl \<Rightarrow> int \<Rightarrow> 'k dw_poll_t \<Rightarrow> (int \<times> 'k dw_poll_t) res" where
  "dw_poll_del ctl fd p = dw_poll_mod ctl fd 0 0 p"

text \<open>
  \<^verbatim>\<open>dw_poll_wait\<close>: a descriptor that does not fit into an \<^verbatim>\<open>fd_set\<close> is written outside of it. The argument
  holds the answer of the kernel for the back end in use.
\<close>

record wait_env =
  w_rv :: int
  w_rd :: "int list"
  w_wr :: "int list"
  w_revents :: "u32 list"
  w_events :: "(u32 \<times> nat) list"

definition dw_poll_wait :: "wait_env \<Rightarrow> 'k dw_poll_t \<Rightarrow> (int \<times> 'k dw_poll_t) res" where
  "dw_poll_wait env p =
     (case u p of
        DW_SELECT q \<Rightarrow>
          if \<not> list_all (\<lambda>e. 0 \<le> sel_fd e \<and> sel_fd e < int FD_SETSIZE) (rd_ent q @ wr_ent q) then Inl Out_Of_Bounds
          else Inr (w_rv env, p\<lparr>u := DW_SELECT (q\<lparr>rd_fds := w_rd env, wr_fds := w_wr env,
                 s_iter := (if w_rv env > 0 then 0 else length (rd_ent q) + length (wr_ent q))\<rparr>)\<rparr>)
      | DW_POLL q \<Rightarrow>
          Inr (w_rv env, p\<lparr>u := DW_POLL (q\<lparr>
                 pollfds := map (\<lambda>(e, r). e\<lparr>revents := r\<rparr>) (zip (pollfds q) (w_revents env)),
                 p_iter := (if w_rv env > 0 then 0 else length (pollfds q))\<rparr>)\<rparr>)
      | DW_EPOLL q \<Rightarrow>
          Inr (w_rv env, p\<lparr>u := DW_EPOLL (
                 let q1 = q\<lparr>ep_events := w_events env, e_iter := 0\<rparr> in
                 if w_rv env \<ge> 0 then q1\<lparr>n_events := nat (w_rv env)\<rparr> else q1)\<rparr>))"

text \<open>The loops of \<^verbatim>\<open>dw_poll_next\<close> that look for the next ready entry.\<close>

definition next_pos :: "('e \<Rightarrow> bool) \<Rightarrow> nat \<Rightarrow> 'e list \<Rightarrow> nat" where
  "next_pos P i es = i + find_pos P (drop i es)"

definition select_next :: "select_fds \<Rightarrow> (u32 \<times> nat) option \<times> select_fds" where
  "select_next p =
     (let i = next_pos (\<lambda>e. sel_fd e \<in> set (rd_fds p)) (s_iter p) (rd_ent p) in
      if i < length (rd_ent p) then
        (Some (set_bit POLLIN_BIT 0, sel_aux (rd_ent p ! i)),
         if bit (sel_flags (rd_ent p ! i)) ONESHOT_BIT then dw_select_del_rd_pos i (p\<lparr>s_iter := i\<rparr>)
         else p\<lparr>s_iter := i + 1\<rparr>)
      else
        let n_rd = length (rd_ent p);
            j = next_pos (\<lambda>e. sel_fd e \<in> set (wr_fds p)) (i - n_rd) (wr_ent p) in
        if j < length (wr_ent p) then
          (Some (set_bit POLLOUT_BIT 0, sel_aux (wr_ent p ! j)),
           if bit (sel_flags (wr_ent p ! j)) ONESHOT_BIT then dw_select_del_wr_pos j (p\<lparr>s_iter := n_rd + j\<rparr>)
           else p\<lparr>s_iter := n_rd + j + 1\<rparr>)
        else (None, p\<lparr>s_iter := n_rd + j\<rparr>))"

definition poll_next :: "poll_fds \<Rightarrow> (u32 \<times> nat) option \<times> poll_fds" where
  "poll_next p =
     (let i = next_pos (\<lambda>e. revents e \<noteq> 0) (p_iter p) (pollfds p) in
      if i < length (pollfds p) then
        (Some (flags_of_revents (revents (pollfds p ! i)), paux (pollfds p ! i)),
         if bit (pflags (pollfds p ! i)) ONESHOT_BIT then dw_poll_del_pos i (p\<lparr>p_iter := i\<rparr>)
         else p\<lparr>p_iter := i + 1\<rparr>)
      else (None, p\<lparr>p_iter := i\<rparr>))"

definition epoll_next :: "'k epoll_fds \<Rightarrow> (u32 \<times> nat) option \<times> 'k epoll_fds" where
  "epoll_next p =
     (if e_iter p < n_events p \<and> fst (ep_events p ! e_iter p) \<noteq> 0
      then (Some (flags_of_revents (fst (ep_events p ! e_iter p)), snd (ep_events p ! e_iter p)),
            p\<lparr>e_iter := e_iter p + 1\<rparr>)
      else (None, p))"

definition dw_poll_next :: "'k dw_poll_t \<Rightarrow> (u32 \<times> nat) option \<times> 'k dw_poll_t" where
  "dw_poll_next p =
     (case u p of
        DW_SELECT q \<Rightarrow> (case select_next q of (r, q') \<Rightarrow> (r, p\<lparr>u := DW_SELECT q'\<rparr>))
      | DW_POLL q \<Rightarrow> (case poll_next q of (r, q') \<Rightarrow> (r, p\<lparr>u := DW_POLL q'\<rparr>))
      | DW_EPOLL q \<Rightarrow> (case epoll_next q of (r, q') \<Rightarrow> (r, p\<lparr>u := DW_EPOLL q'\<rparr>)))"

section \<open>Scanning a list of entries\<close>

lemma find_pos_le: "find_pos P es \<le> length es"
  by (induction es) auto

lemma find_pos_nth: "find_pos P es < length es \<Longrightarrow> P (es ! find_pos P es)"
  by (induction es) (auto split: if_splits)

lemma find_pos_before: "j < find_pos P es \<Longrightarrow> \<not> P (es ! j)"
proof (induction es arbitrary: j)
  case (Cons e es)
  then show ?case by (cases j) (auto split: if_splits)
qed simp

lemma filter_take_find_pos: "filter P (take (find_pos P es) es) = []"
  by (induction es) auto

lemma find_pos_eq_length: "find_pos P es = length es \<longleftrightarrow> (\<forall>e \<in> set es. \<not> P e)"
  by (induction es) auto

lemma del_pos_split:
  assumes "i < length es"
  shows "\<exists>zs. del_pos i es = take i es @ zs \<and> mset zs = mset (drop (Suc i) es)"
proof -
  obtain x ys where es: "es = take i es @ x # ys" "ys = drop (Suc i) es"
    using id_take_nth_drop [OF assms] by blast
  show ?thesis
  proof (cases ys rule: rev_cases)
    case Nil
    then have "length es = Suc i" using assms es(2) by simp
    then show ?thesis using es Nil by (intro exI [of _ "[]"]) (simp add: del_pos_def)
  next
    case (snoc zs z)
    let ?ts = "take i es"
    have len: "length ?ts = i" using assms by simp
    have e: "es = ?ts @ x # zs @ [z]" using es snoc by simp
    then have l: "length es = Suc (Suc (i + length zs))" using len by (metis add_Suc_right append_Cons
          length_Cons length_append length_append_singleton)
    have "es ! (length es - 1) = z" using e l by (metis append_Cons append_assoc append_is_Nil_conv
          diff_Suc_1 last_conv_nth last_snoc list.discI)
    moreover have "take (length es - 1) es = ?ts @ x # zs"
      using e l len by (metis append_Cons append_assoc butlast_conv_take butlast_snoc)
    ultimately have "del_pos i es = ?ts @ z # zs"
      using l len by (simp add: del_pos_def list_update_append)
    moreover have "mset (z # zs) = mset (drop (Suc i) es)"
      unfolding es(2) [symmetric] snoc by simp
    ultimately show ?thesis by blast
  qed
qed

text \<open>
  The entries that a scan from position \<open>i\<close> has still to report, and the entries that are in the list after the scan:
  those before \<open>i\<close>, and after it those that are not both reported and one-shot.
\<close>

definition scan_todo :: "('e \<Rightarrow> bool) \<Rightarrow> nat \<Rightarrow> 'e list \<Rightarrow> 'e multiset" where
  "scan_todo P i es = filter_mset P (mset (drop i es))"

definition scan_keep :: "('e \<Rightarrow> bool) \<Rightarrow> ('e \<Rightarrow> bool) \<Rightarrow> nat \<Rightarrow> 'e list \<Rightarrow> 'e multiset" where
  "scan_keep P O1 i es = mset (take i es) + filter_mset (\<lambda>e. \<not> (P e \<and> O1 e)) (mset (drop i es))"

lemma scan_skip:
  fixes P :: "'e \<Rightarrow> bool"
  assumes "j = next_pos P i es"
  shows "scan_todo P i es = scan_todo P j es" "scan_keep P O1 i es = scan_keep P O1 j es"
proof -
  let ?n = "find_pos P (drop i es)"
  have d: "drop i es = take ?n (drop i es) @ drop j es"
    using assms append_take_drop_id [of ?n "drop i es"] by (simp add: next_pos_def add.commute)
  have t: "take j es = take i es @ take ?n (drop i es)"
    using assms by (simp add: next_pos_def take_add)
  have no: "\<forall>e \<in> set (take ?n (drop i es)). \<not> P e"
    using filter_take_find_pos [of P "drop i es"] by (simp add: filter_empty_conv)
  have "filter P (take ?n (drop i es)) = []" using no by (simp add: filter_empty_conv)
  moreover have "filter (\<lambda>e. \<not> (P e \<and> O1 e)) (take ?n (drop i es)) = take ?n (drop i es)"
    using no by (simp add: filter_id_conv)
  ultimately have f: "filter_mset P (mset (take ?n (drop i es))) = {#}"
    "filter_mset (\<lambda>e. \<not> (P e \<and> O1 e)) (mset (take ?n (drop i es))) = mset (take ?n (drop i es))"
    by (metis mset.simps(1) mset_filter, metis mset_filter)
  have m: "mset (drop i es) = mset (take ?n (drop i es)) + mset (drop j es)"
    by (subst d) simp
  show "scan_todo P i es = scan_todo P j es" unfolding scan_todo_def m filter_union_mset f by simp
  show "scan_keep P O1 i es = scan_keep P O1 j es" unfolding scan_keep_def m t filter_union_mset mset_append f by simp
qed

lemma scan_some:
  assumes "j = next_pos P i es" "j < length es"
  shows "P (es ! j)"
    and "\<not> O1 (es ! j) \<Longrightarrow> scan_todo P i es = add_mset (es ! j) (scan_todo P (Suc j) es) \<and>
      scan_keep P O1 i es = scan_keep P O1 (Suc j) es"
    and "O1 (es ! j) \<Longrightarrow> scan_todo P i es = add_mset (es ! j) (scan_todo P j (del_pos j es)) \<and>
      scan_keep P O1 i es = scan_keep P O1 j (del_pos j es)"
proof -
  have "find_pos P (drop i es) < length (drop i es)" using assms by (simp add: next_pos_def)
  from find_pos_nth [OF this] assms show P: "P (es ! j)" by (simp add: next_pos_def)
  have d: "drop j es = es ! j # drop (Suc j) es" using assms(2) by (simp add: Cons_nth_drop_Suc)
  have t: "take (Suc j) es = take j es @ [es ! j]" using assms(2) by (simp add: take_Suc_conv_app_nth)
  show "\<not> O1 (es ! j) \<Longrightarrow> scan_todo P i es = add_mset (es ! j) (scan_todo P (Suc j) es) \<and>
      scan_keep P O1 i es = scan_keep P O1 (Suc j) es"
    unfolding scan_skip [OF assms(1)] using P d t by (simp add: scan_todo_def scan_keep_def)
  obtain zs where zs: "del_pos j es = take j es @ zs" "mset zs = mset (drop (Suc j) es)"
    using del_pos_split [OF assms(2)] by blast
  have "drop j (del_pos j es) = zs" "take j (del_pos j es) = take j es" using zs(1) assms(2) by simp_all
  then show "O1 (es ! j) \<Longrightarrow> scan_todo P i es = add_mset (es ! j) (scan_todo P j (del_pos j es)) \<and>
      scan_keep P O1 i es = scan_keep P O1 j (del_pos j es)"
    unfolding scan_skip [OF assms(1)] using P d zs(2) by (simp add: scan_todo_def scan_keep_def)
qed

lemma scan_none:
  assumes "j = next_pos P i es" "\<not> j < length es"
  shows "scan_todo P i es = {#}" "scan_keep P O1 i es = mset es"
  unfolding scan_skip [OF assms(1)] using assms(2) by (simp_all add: scan_todo_def scan_keep_def)

lemma length_del_pos: "i < length es \<Longrightarrow> length (del_pos i es) = length es - 1"
  by (simp add: del_pos_def Let_def)

section \<open>Event sources\<close>

text \<open>
  The callers use \<^verbatim>\<open>dw_poll_next\<close> in a loop until it returns 0. \<open>drain\<close> is that loop, with a bound on the number
  of calls.
\<close>

fun drain :: "('p \<Rightarrow> 'e option \<times> 'p) \<Rightarrow> nat \<Rightarrow> 'p \<Rightarrow> ('e list \<times> 'p) option" where
  "drain nx 0 p = None"
| "drain nx (Suc k) p =
     (case nx p of
        (None, p') \<Rightarrow> Some ([], p')
      | (Some e, p') \<Rightarrow> map_option (\<lambda>(es, q). (e # es, q)) (drain nx k p'))"

locale event_source =
  fixes nx :: "'p \<Rightarrow> 'e option \<times> 'p"
    and todo :: "'p \<Rightarrow> 'e multiset"
    and keeps :: "'p \<Rightarrow> 'r"
    and regs :: "'p \<Rightarrow> 'r"
  assumes nx_None: "nx p = (None, p') \<Longrightarrow> todo p = {#} \<and> regs p' = keeps p"
    and nx_Some: "nx p = (Some e, p') \<Longrightarrow> todo p = add_mset e (todo p') \<and> keeps p' = keeps p"
begin

lemma drain_all:
  "size (todo p) < k \<Longrightarrow> \<exists>es p'. drain nx k p = Some (es, p') \<and> mset es = todo p \<and> regs p' = keeps p"
proof (induction k arbitrary: p)
  case (Suc k)
  obtain r p' where nx: "nx p = (r, p')" by force
  show ?case
  proof (cases r)
    case None
    then show ?thesis using nx nx_None [of p p'] by auto
  next
    case (Some e)
    then have t: "todo p = add_mset e (todo p')" "keeps p' = keeps p" using nx nx_Some by auto
    then obtain es q where "drain nx k p' = Some (es, q)" "mset es = todo p'" "regs q = keeps p'"
      using Suc.IH [of p'] Suc.prems by auto
    then show ?thesis using nx Some t by auto
  qed
qed simp

end

abbreviation poll_ready :: "poll_entry \<Rightarrow> bool" where
  "poll_ready e \<equiv> revents e \<noteq> 0"

abbreviation poll_oneshot :: "poll_entry \<Rightarrow> bool" where
  "poll_oneshot e \<equiv> bit (pflags e) ONESHOT_BIT"

definition poll_todo :: "poll_fds \<Rightarrow> (u32 \<times> nat) multiset" where
  "poll_todo p = image_mset (\<lambda>e. (flags_of_revents (revents e), paux e)) (scan_todo poll_ready (p_iter p) (pollfds p))"

definition poll_keeps :: "poll_fds \<Rightarrow> poll_entry multiset" where
  "poll_keeps p = scan_keep poll_ready poll_oneshot (p_iter p) (pollfds p)"

interpretation pollsrc: event_source poll_next poll_todo poll_keeps "\<lambda>p. mset (pollfds p)"
proof
  fix p p' :: poll_fds and e
  let ?j = "next_pos poll_ready (p_iter p) (pollfds p)"
  show "poll_todo p = {#} \<and> mset (pollfds p') = poll_keeps p" if "poll_next p = (None, p')"
    using that scan_none(1) [OF refl, of poll_ready "p_iter p" "pollfds p"]
      scan_none(2) [OF refl, of poll_ready "p_iter p" "pollfds p" poll_oneshot]
    by (auto simp: poll_next_def Let_def poll_todo_def poll_keeps_def split: if_splits)
  assume n: "poll_next p = (Some e, p')"
  then have j: "?j < length (pollfds p)" by (auto simp: poll_next_def Let_def split: if_splits)
  note s = scan_some(2,3) [OF refl j, of poll_oneshot]
  show "poll_todo p = add_mset e (poll_todo p') \<and> poll_keeps p' = poll_keeps p"
    using n j s
    by (cases "poll_oneshot (pollfds p ! ?j)")
      (auto simp: poll_next_def Let_def poll_todo_def poll_keeps_def dw_poll_del_pos_def split: if_splits)
qed

definition sel_oneshot :: "sel_entry \<Rightarrow> bool" where
  "sel_oneshot e = bit (sel_flags e) ONESHOT_BIT"

definition select_todo :: "select_fds \<Rightarrow> (u32 \<times> nat) multiset" where
  "select_todo p =
     image_mset (\<lambda>e. (set_bit POLLIN_BIT 0, sel_aux e))
       (scan_todo (\<lambda>e. sel_fd e \<in> set (rd_fds p)) (s_iter p) (rd_ent p)) +
     image_mset (\<lambda>e. (set_bit POLLOUT_BIT 0, sel_aux e))
       (scan_todo (\<lambda>e. sel_fd e \<in> set (wr_fds p)) (s_iter p - length (rd_ent p)) (wr_ent p))"

definition select_keeps :: "select_fds \<Rightarrow> sel_entry multiset \<times> sel_entry multiset" where
  "select_keeps p =
     (scan_keep (\<lambda>e. sel_fd e \<in> set (rd_fds p)) sel_oneshot (s_iter p) (rd_ent p),
      scan_keep (\<lambda>e. sel_fd e \<in> set (wr_fds p)) sel_oneshot (s_iter p - length (rd_ent p)) (wr_ent p))"

lemma next_pos_ge: "i \<le> next_pos P i es"
  by (simp add: next_pos_def)

lemma next_pos_le: "i \<le> length es \<Longrightarrow> next_pos P i es \<le> length es"
  using find_pos_le [of P "drop i es"] by (simp add: next_pos_def)

lemma next_pos_beyond: "length es \<le> i \<Longrightarrow> next_pos P i es = i"
  by (simp add: next_pos_def)

lemma next_pos_end:
  "\<not> next_pos P i es < length es \<Longrightarrow> next_pos P i es - length es = i - length es"
  using next_pos_le [of i es P] next_pos_beyond [of es i P] by (cases "i \<le> length es") auto

interpretation selsrc: event_source select_next select_todo select_keeps "\<lambda>p. (mset (rd_ent p), mset (wr_ent p))"
proof
  fix p p' :: select_fds and e
  let ?R = "\<lambda>e. sel_fd e \<in> set (rd_fds p)" and ?W = "\<lambda>e. sel_fd e \<in> set (wr_fds p)"
  let ?n = "length (rd_ent p)"
  let ?i = "next_pos ?R (s_iter p) (rd_ent p)"
  let ?j = "next_pos ?W (?i - ?n) (wr_ent p)"
  have sk: "?i - ?n = s_iter p - ?n" if "\<not> ?i < ?n" using next_pos_end that by blast
  show "select_todo p = {#} \<and> (mset (rd_ent p'), mset (wr_ent p')) = select_keeps p"
    if n: "select_next p = (None, p')"
  proof -
    have ij: "\<not> ?i < ?n" "\<not> ?j < length (wr_ent p)"
      using n by (auto simp: select_next_def Let_def split: if_splits)
    have "p' = p\<lparr>s_iter := ?n + ?j\<rparr>" using n ij by (auto simp: select_next_def Let_def)
    then show ?thesis
      using scan_none(1) [OF refl ij(1)] scan_none(2) [OF refl ij(1), of sel_oneshot]
        scan_none(1) [OF refl ij(2)] scan_none(2) [OF refl ij(2), of sel_oneshot] sk [OF ij(1)]
      by (simp add: select_todo_def select_keeps_def)
  qed
  assume n: "select_next p = (Some e, p')"
  show "select_todo p = add_mset e (select_todo p') \<and> select_keeps p' = select_keeps p"
  proof (cases "?i < ?n")
    case True
    note s = scan_some(2,3) [OF refl True, of sel_oneshot]
    have i: "s_iter p - ?n = 0" using True next_pos_ge [of "s_iter p" ?R "rd_ent p"] by simp
    show ?thesis using n True s i length_del_pos [OF True]
      by (cases "sel_oneshot (rd_ent p ! ?i)")
        (auto simp: select_next_def Let_def select_todo_def select_keeps_def dw_select_del_rd_pos_def sel_oneshot_def)
  next
    case False
    then have j: "?j < length (wr_ent p)" using n by (auto simp: select_next_def Let_def split: if_splits)
    note s = scan_some(2,3) [OF refl j, of sel_oneshot]
    note z = scan_none(1) [OF refl False] scan_none(2) [OF refl False, of sel_oneshot]
    have rd: "scan_todo ?R (?n + k) (rd_ent p) = {#}" "scan_keep ?R sel_oneshot (?n + k) (rd_ent p) = mset (rd_ent p)" for k
      by (simp_all add: scan_todo_def scan_keep_def)
    show ?thesis using n False j s z sk [OF False] rd [of ?j] rd [of "Suc ?j"]
      by (cases "sel_oneshot (wr_ent p ! ?j)")
        (auto simp: select_next_def Let_def select_todo_def select_keeps_def dw_select_del_wr_pos_def sel_oneshot_def)
  qed
qed

section \<open>Changing what is monitored\<close>

lemma mset_del_pos: "i < length es \<Longrightarrow> mset (del_pos i es) = mset (take i es @ drop (Suc i) es)"
  using del_pos_split [of i es] by auto

lemma split_at_key:
  fixes k :: "'e \<Rightarrow> 'k"
  assumes "i < length es" "distinct (map k es)"
  defines "os \<equiv> take i es @ drop (Suc i) es"
  shows "set es = insert (es ! i) (set os)" "distinct (map k os)" "\<forall>x \<in> set os. k x \<noteq> k (es ! i)"
proof -
  have es: "es = take i es @ es ! i # drop (Suc i) es" using id_take_nth_drop [OF assms(1)] .
  have "set es = set (take i es @ es ! i # drop (Suc i) es)" using es by (rule arg_cong)
  then show "set es = insert (es ! i) (set os)" by (auto simp: os_def)
  have "distinct (map k (take i es @ es ! i # drop (Suc i) es))" using assms(2) es by metis
  then show "distinct (map k os)" "\<forall>x \<in> set os. k x \<noteq> k (es ! i)" by (auto simp: os_def image_iff)
qed

lemma del_pos_keys:
  fixes k :: "'e \<Rightarrow> 'k"
  assumes "i < length es" "distinct (map k es)"
  shows "distinct (map k (del_pos i es))" "k ` set (del_pos i es) = k ` set es - {k (es ! i)}"
    "set (del_pos i es) = {e \<in> set es. k e \<noteq> k (es ! i)}"
proof -
  let ?os = "take i es @ drop (Suc i) es"
  note sp = split_at_key [OF assms]
  have s: "set (del_pos i es) = set ?os" using mset_del_pos [OF assms(1)] by (metis set_mset_mset)
  have "mset (map k (del_pos i es)) = mset (map k ?os)" using mset_del_pos [OF assms(1)] by (metis mset_map)
  then show "distinct (map k (del_pos i es))" using sp(2) by (metis mset_eq_imp_distinct_iff)
  show "set (del_pos i es) = {e \<in> set es. k e \<noteq> k (es ! i)}" using s sp(1,3) by auto
  then show "k ` set (del_pos i es) = k ` set es - {k (es ! i)}" using sp(1,3) by auto
qed

lemma find_pos_key:
  assumes "distinct (map k es)" "e \<in> set es"
  shows "find_pos (\<lambda>e'. k e' = k e) es < length es \<and> es ! find_pos (\<lambda>e'. k e' = k e) es = e"
proof -
  let ?i = "find_pos (\<lambda>e'. k e' = k e) es"
  have "?i \<noteq> length es" using assms(2) by (auto simp: find_pos_eq_length)
  then have i: "?i < length es" using find_pos_le le_neq_implies_less by blast
  from find_pos_nth [OF this] have "k (es ! ?i) = k e" .
  then have "es ! ?i = e" using assms i by (metis (no_types, lifting) distinct_map inj_onD nth_mem)
  with i show ?thesis by simp
qed

lemma mod_ent_ok:
  assumes "distinct (map sel_fd es)" "length es < MAX_POLLFD"
  shows "\<exists>es'. mod_ent fd flags want aux es = Inr es' \<and> distinct (map sel_fd es') \<and>
    (\<forall>x. x \<in> sel_fd ` set es' \<longleftrightarrow> (if x = fd then want else x \<in> sel_fd ` set es)) \<and> length es' \<le> Suc (length es)"
proof (cases "fd \<in> sel_fd ` set es")
  case True
  then obtain e where e: "e \<in> set es" "sel_fd e = fd" by blast
  let ?i = "find_pos (\<lambda>e. sel_fd e = fd) es"
  have i: "?i < length es" "es ! ?i = e" using find_pos_key [OF assms(1) e(1)] e(2) by auto
  show ?thesis
  proof (cases want)
    case False
    then have "mod_ent fd flags want aux es = Inr (del_pos ?i es)" using i by (simp add: mod_ent_def Let_def)
    then show ?thesis using del_pos_keys(1,2) [OF i(1) assms(1)] i e(2) False length_del_pos [OF i(1)] by auto
  next
    case True
    let ?es = "es[?i := e\<lparr>sel_aux := aux, sel_flags := unset_bit ONESHOT_BIT flags\<rparr>]"
    have "map sel_fd ?es = map sel_fd es"
      using i by (simp add: map_update) (metis list_update_id nth_map)
    moreover from this have "sel_fd ` set ?es = sel_fd ` set es" by (metis list.set_map)
    moreover have "mod_ent fd flags want aux es = Inr ?es" using True i by (simp add: mod_ent_def Let_def)
    ultimately show ?thesis using assms(1) True \<open>fd \<in> sel_fd ` set es\<close> by auto
  qed
next
  case False
  then have "find_pos (\<lambda>e. sel_fd e = fd) es = length es" by (auto simp: find_pos_eq_length)
  then show ?thesis using False assms by (auto simp: mod_ent_def Let_def add_entry_def)
qed

text \<open>The contract of the back ends: what is monitored for reading and for writing after a change.\<close>

locale poller =
  fixes inv :: "'p \<Rightarrow> bool"
    and room :: "'p \<Rightarrow> bool"
    and mon :: "'p \<Rightarrow> int \<Rightarrow> bool \<times> bool"
    and md :: "int \<Rightarrow> u32 \<Rightarrow> nat \<Rightarrow> 'p \<Rightarrow> (int \<times> 'p) res"
  assumes md_law: "inv p \<Longrightarrow> room p \<Longrightarrow>
    \<exists>p'. md fd flags aux p = Inr (0, p') \<and> inv p' \<and>
      mon p' = (mon p)(fd := (bit flags POLLIN_BIT, bit flags POLLOUT_BIT))"
begin

lemma del_law:
  assumes "inv p" "room p"
  shows "\<exists>p'. md fd 0 0 p = Inr (0, p') \<and> inv p' \<and> mon p' = (mon p)(fd := (False, False))"
  using md_law [OF assms, of fd 0 0] by simp

lemma last_md_wins:
  assumes "inv p" "room p" "md fd flags aux p = Inr (r, p1)" "room p1"
  shows "\<exists>p2. md fd flags' aux' p1 = Inr (0, p2) \<and>
    mon p2 = (mon p)(fd := (bit flags' POLLIN_BIT, bit flags' POLLOUT_BIT))"
  using md_law [OF assms(1,2), of fd flags aux] md_law [of p1 fd flags' aux'] assms(3,4) by auto

end

definition select_inv :: "select_fds \<Rightarrow> bool" where
  "select_inv p \<longleftrightarrow> distinct (map sel_fd (rd_ent p)) \<and> distinct (map sel_fd (wr_ent p)) \<and>
     length (rd_ent p) \<le> MAX_POLLFD \<and> length (wr_ent p) \<le> MAX_POLLFD"

definition select_room :: "select_fds \<Rightarrow> bool" where
  "select_room p \<longleftrightarrow> length (rd_ent p) < MAX_POLLFD \<and> length (wr_ent p) < MAX_POLLFD"

definition select_mon :: "select_fds \<Rightarrow> int \<Rightarrow> bool \<times> bool" where
  "select_mon p fd = (fd \<in> sel_fd ` set (rd_ent p), fd \<in> sel_fd ` set (wr_ent p))"

interpretation selpoll: poller select_inv select_room select_mon select_mod
proof
  fix p fd flags aux
  assume a: "select_inv p" "select_room p"
  obtain rd where rd: "mod_ent fd flags (bit flags POLLIN_BIT) aux (rd_ent p) = Inr rd" "distinct (map sel_fd rd)"
      "\<forall>x. x \<in> sel_fd ` set rd \<longleftrightarrow> (if x = fd then bit flags POLLIN_BIT else x \<in> sel_fd ` set (rd_ent p))"
      "length rd \<le> Suc (length (rd_ent p))"
    using mod_ent_ok [of "rd_ent p"] a unfolding select_inv_def select_room_def by metis
  obtain wr where wr: "mod_ent fd flags (bit flags POLLOUT_BIT) aux (wr_ent p) = Inr wr" "distinct (map sel_fd wr)"
      "\<forall>x. x \<in> sel_fd ` set wr \<longleftrightarrow> (if x = fd then bit flags POLLOUT_BIT else x \<in> sel_fd ` set (wr_ent p))"
      "length wr \<le> Suc (length (wr_ent p))"
    using mod_ent_ok [of "wr_ent p"] a unfolding select_inv_def select_room_def by metis
  have "select_mod fd flags aux p = Inr (0, p\<lparr>rd_ent := rd, wr_ent := wr\<rparr>)" using rd(1) wr(1) by (simp add: select_mod_def)
  moreover have "select_inv (p\<lparr>rd_ent := rd, wr_ent := wr\<rparr>)"
    using rd(2,4) wr(2,4) a(2) by (simp add: select_inv_def select_room_def)
  moreover have "select_mon (p\<lparr>rd_ent := rd, wr_ent := wr\<rparr>) =
      (select_mon p)(fd := (bit flags POLLIN_BIT, bit flags POLLOUT_BIT))"
    using rd(3) wr(3) by (auto simp: select_mon_def fun_eq_iff)
  ultimately show "\<exists>p'. select_mod fd flags aux p = Inr (0, p') \<and> select_inv p' \<and>
      select_mon p' = (select_mon p)(fd := (bit flags POLLIN_BIT, bit flags POLLOUT_BIT))" by blast
qed

lemma bit_keep_bits: "n < 32 \<Longrightarrow> bit (keep_bits ns f) n \<longleftrightarrow> n \<in> set ns \<and> bit f n"
  by (induction ns) (auto simp: bit_set_bit_iff)

lemma bit_events_of [simp]:
  "bit (events_of f) POLLIN_BIT = bit f POLLIN_BIT" "bit (events_of f) POLLOUT_BIT = bit f POLLOUT_BIT"
  by (simp_all add: events_of_def bit_keep_bits POLLIN_BIT_def POLLOUT_BIT_def)

lemma events_of_eq_0: "events_of f = 0 \<longleftrightarrow> \<not> bit f POLLIN_BIT \<and> \<not> bit f POLLOUT_BIT"
proof
  assume "events_of f = 0"
  then show "\<not> bit f POLLIN_BIT \<and> \<not> bit f POLLOUT_BIT" using bit_events_of [of f] by simp
qed (simp add: events_of_def)

definition poll_inv :: "poll_fds \<Rightarrow> bool" where
  "poll_inv p \<longleftrightarrow> distinct (map pfd (pollfds p)) \<and> length (pollfds p) \<le> MAX_POLLFD"

definition poll_room :: "poll_fds \<Rightarrow> bool" where
  "poll_room p \<longleftrightarrow> length (pollfds p) < MAX_POLLFD"

definition poll_mon :: "poll_fds \<Rightarrow> int \<Rightarrow> bool \<times> bool" where
  "poll_mon p fd = (\<exists>e \<in> set (pollfds p). pfd e = fd \<and> bit (pevents e) POLLIN_BIT,
     \<exists>e \<in> set (pollfds p). pfd e = fd \<and> bit (pevents e) POLLOUT_BIT)"

lemma poll_add_law:
  assumes "poll_inv p" "poll_room p" "fd \<notin> pfd ` set (pollfds p)"
  shows "\<exists>p'. poll_add fd flags aux p = (0, p') \<and> poll_inv p' \<and>
    poll_mon p' = (poll_mon p)(fd := (bit flags POLLIN_BIT, bit flags POLLOUT_BIT))"
  using assms by (auto simp: poll_add_def poll_inv_def poll_room_def poll_mon_def fun_eq_iff)

lemma set_list_update_key:
  assumes "distinct (map k es)" "i < length es" "k e' = k (es ! i)"
  shows "set (es[i := e']) = insert e' {e \<in> set es. k e \<noteq> k (es ! i)}" "map k (es[i := e']) = map k es"
proof -
  have "es[i := e'] = take i es @ e' # drop (Suc i) es" using assms(2) by (simp add: upd_conv_take_nth_drop)
  then have "set (es[i := e']) = insert e' (set (take i es @ drop (Suc i) es))" by auto
  then show "set (es[i := e']) = insert e' {e \<in> set es. k e \<noteq> k (es ! i)}"
    using split_at_key(1,3) [OF assms(2,1)] by auto
  show "map k (es[i := e']) = map k es" using assms(2,3) by (simp add: map_update) (metis list_update_id nth_map)
qed

lemma poll_mod_law:
  assumes "poll_inv p" "poll_room p"
  shows "\<exists>p'. poll_mod fd flags aux p = (0, p') \<and> poll_inv p' \<and>
    poll_mon p' = (poll_mon p)(fd := (bit flags POLLIN_BIT, bit flags POLLOUT_BIT))"
proof (cases "fd \<in> pfd ` set (pollfds p)")
  case False
  then have i: "find_pos (\<lambda>e. pfd e = fd) (pollfds p) = length (pollfds p)" by (auto simp: find_pos_eq_length)
  have "poll_mon p fd = (False, False)" using False by (auto simp: poll_mon_def)
  then show ?thesis using i poll_add_law [OF assms False, of flags aux] assms
    by (cases "flags = 0") (auto simp: poll_mod_def Let_def fun_eq_iff)
next
  case True
  let ?es = "pollfds p" let ?i = "find_pos (\<lambda>e. pfd e = fd) ?es"
  obtain e where e: "e \<in> set ?es" "pfd e = fd" using True by blast
  have d: "distinct (map pfd ?es)" using assms(1) by (simp add: poll_inv_def)
  have i: "?i < length ?es" "?es ! ?i = e" using find_pos_key [OF d e(1)] e(2) by auto
  let ?e1 = "e\<lparr>pevents := events_of flags\<rparr>"
  let ?q = "p\<lparr>pollfds := ?es[?i := ?e1]\<rparr>"
  have q: "distinct (map pfd (pollfds ?q))" "set (pollfds ?q) = insert ?e1 {x \<in> set ?es. pfd x \<noteq> fd}"
    using set_list_update_key [of pfd ?es ?i ?e1] d i e(2) by simp_all
  show ?thesis
  proof (cases "events_of flags = 0")
    case False
    let ?e2 = "?e1\<lparr>paux := aux, pflags := unset_bit ONESHOT_BIT flags\<rparr>"
    have "poll_mod fd flags aux p = (0, p\<lparr>pollfds := ?es[?i := ?e2]\<rparr>)"
      using i False by (simp add: poll_mod_def Let_def)
    moreover have "set (?es[?i := ?e2]) = insert ?e2 {x \<in> set ?es. pfd x \<noteq> fd}" "map pfd (?es[?i := ?e2]) = map pfd ?es"
      using set_list_update_key [of pfd ?es ?i ?e2] d i e(2) by simp_all
    ultimately show ?thesis using d assms(1) e(2) by (auto simp: poll_inv_def poll_mon_def fun_eq_iff)
  next
    case True
    let ?r = "dw_poll_del_pos ?i ?q"
    have r: "distinct (map pfd (pollfds ?r))" "set (pollfds ?r) = {x \<in> set ?es. pfd x \<noteq> fd}"
        "length (pollfds ?r) = length ?es - 1"
      using del_pos_keys(1,3) [of ?i "pollfds ?q" pfd] q i e(2) length_del_pos [of ?i "pollfds ?q"]
      by (auto simp: dw_poll_del_pos_def)
    have inv: "poll_inv ?r" "poll_room ?r" using r assms by (simp_all add: poll_inv_def poll_room_def)
    have mon: "poll_mon ?r = (poll_mon p)(fd := (False, False))"
      using r(2) by (auto simp: poll_mon_def fun_eq_iff)
    have fl: "\<not> bit flags POLLIN_BIT" "\<not> bit flags POLLOUT_BIT" using True by (auto simp: events_of_eq_0)
    have nin: "fd \<notin> pfd ` set (pollfds ?r)" using r(2) by auto
    have "poll_mod fd flags aux p =
        (if ?i = length (pollfds ?r) \<and> flags \<noteq> 0 then poll_add fd flags aux ?r else (0, ?r))"
      using i True by (simp add: poll_mod_def Let_def)
    then show ?thesis using poll_add_law [OF inv nin, of flags aux] inv(1) mon fl by auto
  qed
qed

interpretation polpoll: poller poll_inv poll_room poll_mon "\<lambda>fd flags aux p. Inr (poll_mod fd flags aux p)"
  using poll_mod_law by unfold_locales auto

section \<open>Properties\<close>

text \<open>Iterating over the results of a wait with \<^verbatim>\<open>dw_poll_next\<close> in the \<^verbatim>\<open>poll()\<close> back end ends and reports each
  descriptor with a pending event exactly once, with the flags of its events and its user data,
  although one-shot entries are removed during the iteration by moving the last entry into their place; after it,
  exactly the one-shot entries that were reported are gone.\<close>

theorem poll_iteration_complete:
  assumes "0 < w_rv env" "length (w_revents env) = length (pollfds q)"
    "dw_poll_wait env \<lparr>use_spinning = spin, u = DW_POLL q\<rparr> = Inr (rv, p)" "length (pollfds q) < k"
  shows "\<exists>es q'. drain dw_poll_next k p = Some (es, \<lparr>use_spinning = spin, u = DW_POLL q'\<rparr>) \<and>
    (let ws = map (\<lambda>(e, r). e\<lparr>revents := r\<rparr>) (zip (pollfds q) (w_revents env)) in
     mset es = image_mset (\<lambda>e. (flags_of_revents (revents e), paux e)) (filter_mset (\<lambda>e. revents e \<noteq> 0) (mset ws)) \<and>
     mset (pollfds q') = filter_mset (\<lambda>e. \<not> (revents e \<noteq> 0 \<and> bit (pflags e) ONESHOT_BIT)) (mset ws))"
proof -
  let ?ws = "map (\<lambda>(e, r). e\<lparr>revents := r\<rparr>) (zip (pollfds q) (w_revents env))"
  let ?q = "q\<lparr>pollfds := ?ws, p_iter := 0\<rparr>"
  have p: "p = \<lparr>use_spinning = spin, u = DW_POLL ?q\<rparr>"
    using assms(1,3) by (simp add: dw_poll_wait_def)
  have lift: "drain dw_poll_next k \<lparr>use_spinning = spin, u = DW_POLL r\<rparr> =
      map_option (\<lambda>(es, r'). (es, \<lparr>use_spinning = spin, u = DW_POLL r'\<rparr>)) (drain poll_next k r)" for k r
  proof (induction k arbitrary: r)
    case (Suc k)
    obtain e r' where n: "poll_next r = (e, r')" by force
    then show ?case using Suc.IH [of r']
      by (cases e) (auto simp: dw_poll_next_def option.map_comp comp_def case_prod_unfold)
  qed simp
  have todo: "poll_todo ?q = image_mset (\<lambda>e. (flags_of_revents (revents e), paux e)) (filter_mset poll_ready (mset ?ws))"
    "poll_keeps ?q = filter_mset (\<lambda>e. \<not> (poll_ready e \<and> poll_oneshot e)) (mset ?ws)"
    by (simp_all add: poll_todo_def poll_keeps_def scan_todo_def scan_keep_def)
  have "size (poll_todo ?q) \<le> size (mset ?ws)"
    unfolding todo(1) size_image_mset by (rule size_filter_mset_lesseq)
  then have "size (poll_todo ?q) < k" using assms(2,4) by simp
  from pollsrc.drain_all [OF this] obtain es q' where
    "drain poll_next k ?q = Some (es, q')" "mset es = poll_todo ?q" "mset (pollfds q') = poll_keeps ?q" by blast
  then show ?thesis unfolding p lift todo Let_def by auto
qed

definition sample_poll :: poll_fds where
  "sample_poll = \<lparr>pollfds = [\<lparr>pfd = 5, pevents = 1, revents = 0, paux = 50, pflags = set_bit ONESHOT_BIT 1\<rparr>,
     \<lparr>pfd = 6, pevents = 1, revents = 0, paux = 60, pflags = 1\<rparr>], p_iter = 0\<rparr>"

definition sample_wait :: wait_env where
  "sample_wait = \<lparr>w_rv = 2, w_rd = [5], w_wr = [], w_revents = [1, 1], w_events = []\<rparr>"

theorem poll_iteration_complete_witness:
  "\<exists>rv p es p'. dw_poll_wait sample_wait \<lparr>use_spinning = True, u = DW_POLL sample_poll :: unit poll_u\<rparr> = Inr (rv, p) \<and>
     drain dw_poll_next 3 p = Some (es, p')"
proof -
  let ?p = "\<lparr>use_spinning = True, u = DW_POLL sample_poll :: unit poll_u\<rparr>"
  obtain rv p where w: "dw_poll_wait sample_wait ?p = Inr (rv, p)" by (simp add: dw_poll_wait_def)
  from poll_iteration_complete [OF _ _ w, of 3] w show ?thesis
    by (auto simp: sample_wait_def sample_poll_def)
qed

text \<open>The same for the \<^verbatim>\<open>select()\<close> back end: every descriptor of the ready set that is registered for reading is reported
  once as readable, every one registered for writing once as writable, and the one-shot ones among the reported are
  gone afterwards.\<close>

theorem select_iteration_complete:
  assumes "s_iter q = 0" "length (rd_ent q) + length (wr_ent q) < k"
  shows "\<exists>es q'. drain select_next k q = Some (es, q') \<and>
    mset es = image_mset (\<lambda>e. (set_bit POLLIN_BIT 0, sel_aux e)) (filter_mset (\<lambda>e. sel_fd e \<in> set (rd_fds q)) (mset (rd_ent q))) +
      image_mset (\<lambda>e. (set_bit POLLOUT_BIT 0, sel_aux e)) (filter_mset (\<lambda>e. sel_fd e \<in> set (wr_fds q)) (mset (wr_ent q))) \<and>
    mset (rd_ent q') = filter_mset (\<lambda>e. \<not> (sel_fd e \<in> set (rd_fds q) \<and> sel_oneshot e)) (mset (rd_ent q)) \<and>
    mset (wr_ent q') = filter_mset (\<lambda>e. \<not> (sel_fd e \<in> set (wr_fds q) \<and> sel_oneshot e)) (mset (wr_ent q))"
proof -
  have todo: "select_todo q = image_mset (\<lambda>e. (set_bit POLLIN_BIT 0, sel_aux e)) (filter_mset (\<lambda>e. sel_fd e \<in> set (rd_fds q)) (mset (rd_ent q))) +
      image_mset (\<lambda>e. (set_bit POLLOUT_BIT 0, sel_aux e)) (filter_mset (\<lambda>e. sel_fd e \<in> set (wr_fds q)) (mset (wr_ent q)))"
    "select_keeps q = (filter_mset (\<lambda>e. \<not> (sel_fd e \<in> set (rd_fds q) \<and> sel_oneshot e)) (mset (rd_ent q)),
      filter_mset (\<lambda>e. \<not> (sel_fd e \<in> set (wr_fds q) \<and> sel_oneshot e)) (mset (wr_ent q)))"
    using assms(1) by (simp_all add: select_todo_def select_keeps_def scan_todo_def scan_keep_def)
  have "size (select_todo q) \<le> size (mset (rd_ent q)) + size (mset (wr_ent q))"
    unfolding todo(1) size_union size_image_mset by (intro add_mono size_filter_mset_lesseq)
  then have "size (select_todo q) < k" using assms(2) by simp
  from selsrc.drain_all [OF this] show ?thesis unfolding todo by auto
qed

theorem select_iteration_complete_witness:
  "\<exists>es q'. drain select_next 2 \<lparr>rd_ent = [\<lparr>sel_fd = 3, sel_aux = 9, sel_flags = 1\<rparr>], wr_ent = [], rd_fds = [3],
      wr_fds = [], s_iter = 0\<rparr> = Some (es, q') \<and> es = [(set_bit POLLIN_BIT 0, 9)]"
  using select_iteration_complete [of "\<lparr>rd_ent = [\<lparr>sel_fd = 3, sel_aux = 9, sel_flags = 1\<rparr>], wr_ent = [], rd_fds = [3],
      wr_fds = [], s_iter = 0\<rparr>" 2] by auto

text \<open>C27. The \<^verbatim>\<open>select()\<close> and the \<^verbatim>\<open>poll()\<close> back ends agree on what is monitored: as long as there is room, after \<^verbatim>\<open>dw_poll_mod\<close>
  both monitor the descriptor exactly for what the flags ask (nothing, if it is deleted), and all other descriptors as before;
  so back ends that agree before a change agree after it.\<close>

theorem backends_agree:
  assumes "select_inv q" "select_room q" "poll_inv r" "poll_room r" "select_mon q = poll_mon r"
  shows "\<exists>q' r'. dw_poll_mod ctl fd flags aux \<lparr>use_spinning = spin, u = DW_SELECT q\<rparr> = Inr (0, \<lparr>use_spinning = spin, u = DW_SELECT q'\<rparr>) \<and>
    dw_poll_mod ctl fd flags aux \<lparr>use_spinning = spin, u = DW_POLL r\<rparr> = Inr (0, \<lparr>use_spinning = spin, u = DW_POLL r'\<rparr>) \<and>
    select_inv q' \<and> poll_inv r' \<and> select_mon q' = poll_mon r' \<and>
    poll_mon r' = (poll_mon r)(fd := (bit flags POLLIN_BIT, bit flags POLLOUT_BIT))"
  using selpoll.md_law [OF assms(1,2), of fd flags aux] polpoll.md_law [OF assms(3,4), of fd flags aux] assms(5)
  by (auto simp: dw_poll_mod_def)

theorem backends_agree_witness:
  "\<exists>q'. dw_poll_mod (\<lambda>op fd ev aux k. (0, k)) 5 0 0
     \<lparr>use_spinning = True, u = DW_SELECT \<lparr>rd_ent = [\<lparr>sel_fd = 5, sel_aux = 0, sel_flags = 1\<rparr>, \<lparr>sel_fd = 6, sel_aux = 0, sel_flags = 1\<rparr>],
        wr_ent = [], rd_fds = [], wr_fds = [], s_iter = 0\<rparr> :: unit poll_u\<rparr> = Inr (0, \<lparr>use_spinning = True, u = DW_SELECT q'\<rparr>) \<and>
     select_mon q' 5 = (False, False)"
proof -
  let ?q = "\<lparr>rd_ent = [\<lparr>sel_fd = 5, sel_aux = 0, sel_flags = 1\<rparr>, \<lparr>sel_fd = 6, sel_aux = 0, sel_flags = 1\<rparr>],
        wr_ent = [], rd_fds = [], wr_fds = [], s_iter = 0\<rparr>"
  have "select_inv ?q" "select_room ?q" "poll_inv sample_poll" "poll_room sample_poll"
    by (simp_all add: select_inv_def select_room_def poll_inv_def poll_room_def sample_poll_def MAX_POLLFD_def)
  moreover have "select_mon ?q = poll_mon sample_poll"
    by (auto simp: select_mon_def poll_mon_def sample_poll_def POLLIN_BIT_def POLLOUT_BIT_def bit_1_iff)
  ultimately show ?thesis
    using backends_agree [of ?q sample_poll "\<lambda>op fd ev aux k. (0, k)" 5 0 0 True] by (auto simp: fun_eq_iff)
qed

text \<open>When the \<^verbatim>\<open>select()\<close> tables are full, \<^verbatim>\<open>dw_poll_add\<close> reports an error, but \<^verbatim>\<open>dw_poll_mod\<close> does not check: it writes
  a new descriptor behind the end of the table.\<close>

theorem select_mod_overflows:
  assumes "length (rd_ent q) = MAX_POLLFD" "fd \<notin> sel_fd ` set (rd_ent q)" "bit flags POLLIN_BIT"
  shows "dw_poll_add ctl fd flags aux \<lparr>use_spinning = spin, u = DW_SELECT q\<rparr> = Inr (-1, \<lparr>use_spinning = spin, u = DW_SELECT q\<rparr>) \<and>
    dw_poll_mod ctl fd flags aux \<lparr>use_spinning = spin, u = DW_SELECT q\<rparr> = Inl Out_Of_Bounds"
proof -
  have "find_pos (\<lambda>e. sel_fd e = fd) (rd_ent q) = length (rd_ent q)"
    using assms(2) by (auto simp: find_pos_eq_length)
  then show ?thesis using assms(1,3)
    by (simp add: dw_poll_add_def select_add_def dw_poll_mod_def select_mod_def mod_ent_def Let_def add_entry_def)
qed

theorem select_mod_overflows_witness:
  "dw_poll_mod (\<lambda>op fd ev aux k. (0, k)) 7 1 0 \<lparr>use_spinning = True,
     u = DW_SELECT \<lparr>rd_ent = replicate MAX_POLLFD \<lparr>sel_fd = 5, sel_aux = 0, sel_flags = 1\<rparr>,
        wr_ent = [], rd_fds = [], wr_fds = [], s_iter = 0\<rparr> :: unit poll_u\<rparr> = Inl Out_Of_Bounds"
  using select_mod_overflows [of "\<lparr>rd_ent = replicate MAX_POLLFD \<lparr>sel_fd = 5, sel_aux = 0, sel_flags = 1\<rparr>,
        wr_ent = [], rd_fds = [], wr_fds = [], s_iter = 0\<rparr>" 7 1 "\<lambda>op fd ev aux (k :: unit). (0, k)" 0 True]
  by (simp add: POLLIN_BIT_def bit_1_iff image_iff)

end
