(* ===== verification/DW_Storage.thy ===== *)
theory DW_Storage
  imports DW_Connection DW_PQueue
begin

text \<open>
  The storage side of a node (\<^verbatim>\<open>src/dw_node.c\<close>): \<^verbatim>\<open>safe_write\<close>, \<^verbatim>\<open>safe_read\<close>, \<^verbatim>\<open>store\<close>, \<^verbatim>\<open>load\<close> and the events of
  \<^verbatim>\<open>storage_worker\<close>. The result of a function has the trace of its calls in their order: the system calls on the storage file and
  the acknowledgements, which are request ids written to the pipe of a connection worker. What the calls return is an argument.
\<close>

section \<open>Definitions\<close>

text \<open>
  The loops around \<^verbatim>\<open>write()\<close> and \<^verbatim>\<open>read()\<close>, over the outcomes of the consecutive calls. The results are the
  returned value and the bytes written, or the number of bytes read and of seeks to the start; \<open>None\<close>: the loop is
  still running after all the outcomes.
\<close>

fun safe_write :: "int list \<Rightarrow> bytes \<Rightarrow> (int \<times> bytes) option" where
  "safe_write ws [] = Some (0, [])"
| "safe_write [] buf = None"
| "safe_write (w # ws) buf =
     (if w < 0 then Some (-1, [])
      else map_option (\<lambda>(r, out). (r, take (nat w) buf @ out)) (safe_write ws (drop (nat w) buf)))"

fun safe_read :: "int list \<Rightarrow> nat \<Rightarrow> nat \<Rightarrow> (int \<times> nat) option" where
  "safe_read rs last_seek 0 = Some (0, 0)"
| "safe_read [] last_seek len = None"
| "safe_read (r # rs) last_seek len =
     (if r < 0 then Some (-1, 0)
      else if r = 0 then
        (if last_seek > 0 \<and> last_seek = len then Some (0, 0) else safe_read rs len len)
      else map_option (\<lambda>(v, n). (v, nat r + n)) (safe_read rs last_seek (len - nat r)))"

record storage_info_t =
  use_odirect :: bool
  max_storage_size :: nat
  storage_offset :: nat

record storage_worker_info_t =
  periodic_sync_msec :: int
  sync_waiting_queue :: "int pqueue_t"
  storage_info :: storage_info_t

text \<open>The calls: a seek and whether it succeeds, a complete transfer of some bytes, \<^verbatim>\<open>fsync()\<close>, and the write of a request id to the pipe of a worker.\<close>

datatype file_op = Lseek nat bool | Write nat | Read nat | Fsync | Ack int int

text \<open>
  The chunk loops of \<^verbatim>\<open>store\<close> and \<^verbatim>\<open>load\<close>: chunks of at most \<^verbatim>\<open>BUF_SIZE\<close> bytes. \<open>ok i\<close> says whether the
  transfer of the chunk that starts after \<open>i\<close> bytes succeeds.
\<close>

function chunks :: "(nat \<Rightarrow> file_op) \<Rightarrow> (nat \<Rightarrow> bool) \<Rightarrow> nat \<Rightarrow> nat \<Rightarrow> file_op list res" where
  "chunks mk ok moved total_bytes =
     (if moved < total_bytes then
        let bytes = (if total_bytes - moved > BUF_SIZE then BUF_SIZE else total_bytes - moved) in
        if \<not> ok moved then Inl Exit_Failure
        else rbind (chunks mk ok (moved + bytes) total_bytes) (\<lambda>ops. Inr (mk bytes # ops))
      else Inr [])"
  by pat_completeness auto
termination
  by (relation "measure (\<lambda>(mk, ok, d, t). t - d)") (auto simp: BUF_SIZE_def)

declare chunks.simps [simp del]

definition round_up :: "nat \<Rightarrow> nat \<Rightarrow> nat" where
  "round_up blk n = (n + blk - 1) mod 2 ^ 64 div blk * blk"

text \<open>
  \<^verbatim>\<open>store\<close>: \<^verbatim>\<open>offset\<close> is a \<^verbatim>\<open>uint32_t\<close>, so the 64-bit offset of the command is truncated, and the comparison with
  -1 is one with \<open>2 ^ 32 - 1\<close>. \<open>blk\<close> is \<^verbatim>\<open>blk_size\<close>; \<open>seek_ok\<close> is the outcome of \<^verbatim>\<open>lseek()\<close>. One to the given offset that fails ends the
  function; the result of one to the start of the file is not looked at.
\<close>

definition store_total :: "nat \<Rightarrow> storage_info_t \<Rightarrow> store_opts_t \<Rightarrow> nat" where
  "store_total blk si opts = (if use_odirect si then round_up blk (store_nbytes opts) else store_nbytes opts)"

definition store_off :: "nat \<Rightarrow> storage_info_t \<Rightarrow> store_opts_t \<Rightarrow> nat" where
  "store_off blk si opts =
     (let offset = s_offset opts mod 2 ^ 32 in
      if use_odirect si then round_up blk offset mod 2 ^ 32 else offset)"

definition store_seek :: "bool \<Rightarrow> nat \<Rightarrow> nat \<Rightarrow> storage_info_t \<Rightarrow> file_op list \<times> storage_info_t" where
  "store_seek seek_ok total_bytes offset si =
     (if offset \<noteq> 2 ^ 32 - 1 then ([Lseek offset seek_ok], si\<lparr>storage_offset := offset\<rparr>)
      else if (storage_offset si + total_bytes) mod 2 ^ 64 > max_storage_size si
      then ([Lseek 0 seek_ok], si\<lparr>storage_offset := 0\<rparr>)
      else ([], si))"

definition store ::
    "nat \<Rightarrow> bool \<Rightarrow> (nat \<Rightarrow> bool) \<Rightarrow> storage_worker_info_t \<Rightarrow> store_opts_t \<Rightarrow> (file_op list \<times> storage_worker_info_t) res" where
  "store blk seek_ok ok infos opts =
     (let si = storage_info infos in
      if use_odirect si \<and> blk = 0 then Inl Div_By_Zero
      else
        let total_bytes = store_total blk si opts; offset = store_off blk si opts in
        if offset \<noteq> 2 ^ 32 - 1 \<and> \<not> seek_ok then Inr ([Lseek offset False], infos)
        else
          (case store_seek seek_ok total_bytes offset si of (seek, si1) \<Rightarrow>
             rbind (chunks Write ok 0 total_bytes) (\<lambda>ops.
               Inr (seek @ ops @ (if wait_sync opts \<noteq> 0 \<and> periodic_sync_msec infos \<le> 0 then [Fsync] else []),
                    infos\<lparr>storage_info := si1\<lparr>storage_offset := (storage_offset si1 + total_bytes) mod 2 ^ 64\<rparr>\<rparr>))))"

definition load ::
    "bool \<Rightarrow> (nat \<Rightarrow> bool) \<Rightarrow> storage_worker_info_t \<Rightarrow> load_opts_t \<Rightarrow> (file_op list \<times> storage_worker_info_t) res" where
  "load seek_ok ok infos opts =
     (let si = storage_info infos; total_bytes = load_nbytes opts; off = l_offset opts mod 2 ^ 32 in
      if off \<noteq> 2 ^ 32 - 1 \<and> \<not> seek_ok then Inr ([Lseek off False], infos)
      else
        let (seek, si1) =
          (if off \<noteq> 2 ^ 32 - 1 then ([Lseek off True], si\<lparr>storage_offset := off\<rparr>) else ([], si))
        in rbind (chunks Read ok 0 total_bytes) (\<lambda>ops.
             Inr (seek @ ops, infos\<lparr>storage_info := si1\<lparr>storage_offset := (storage_offset si1 + total_bytes) mod 2 ^ 64\<rparr>\<rparr>)))"

text \<open>The requests that a connection worker sends through its pipe, and the events of the worker.\<close>

datatype storage_cmd = S_Store store_opts_t | S_Load load_opts_t | S_Other

record storage_req_t =
  worker_id :: int
  sreq_id :: int
  scmd :: storage_cmd

datatype storage_event = Ev_Termination | Ev_Timer bool | Ev_Storage bool storage_req_t | Ev_Unknown

text \<open>The acknowledgement of all the waiting requests after a periodic sync; \<open>None\<close>: the loop does not end.\<close>

partial_function (option) sync_drain ::
    "int pqueue_t \<Rightarrow> (int \<times> int) list \<Rightarrow> ((int \<times> int) list \<times> int pqueue_t) res option" where
  "sync_drain q acks =
     (if psize q > 0 then
        (case pqueue_top q of
           None \<Rightarrow> Some (Inl Null_Deref)
         | Some n \<Rightarrow>
             (case pqueue_pop q of
                None \<Rightarrow> None
              | Some r \<Rightarrow> (case r of
                  Inl e \<Rightarrow> Some (Inl e)
                | Inr q' \<Rightarrow> sync_drain q' (acks @ [(pqueue_node_key q n, pqueue_node_data q n)]))))
      else Some (Inr (acks, q)))"

text \<open>
  One event: the calls in their order, the new state of the worker, and whether it goes on running. The environment gives the outcomes of the file operations.
\<close>

record stor_env =
  se_blk :: nat
  se_seek_ok :: bool
  se_ok :: "nat \<Rightarrow> bool"

definition acks_ops :: "(int \<times> int) list \<Rightarrow> file_op list" where
  "acks_ops acks = map (\<lambda>(w, r). Ack w r) acks"

definition storage_step ::
    "stor_env \<Rightarrow> storage_event \<Rightarrow> storage_worker_info_t \<Rightarrow> (file_op list \<times> storage_worker_info_t \<times> bool) res option" where
  "storage_step env ev infos =
     (case ev of
        Ev_Termination \<Rightarrow> Some (Inr ([], infos, False))
      | Ev_Timer read_ok \<Rightarrow>
          if \<not> read_ok then Some (Inr ([], infos, False))
          else (case sync_drain (sync_waiting_queue infos) [] of
              None \<Rightarrow> None
            | Some r \<Rightarrow> Some (rbind r (\<lambda>(acks, q). Inr (Fsync # acks_ops acks, infos\<lparr>sync_waiting_queue := q\<rparr>, True))))
      | Ev_Storage read_ok w \<Rightarrow>
          if \<not> read_ok then Some (Inr ([], infos, False))
          else (case scmd w of
              S_Store opts \<Rightarrow>
                (case store (se_blk env) (se_seek_ok env) (se_ok env) infos opts of
                   Inl e \<Rightarrow> Some (Inl e)
                 | Inr (ops, infos1) \<Rightarrow>
                     if wait_sync opts \<noteq> 0 then
                       (if periodic_sync_msec infos \<le> 0
                        then Some (Inr (ops @ [Ack (worker_id w) (sreq_id w)], infos1, True))
                        else
                          (case pqueue_insert (sync_waiting_queue infos1) (worker_id w) (sreq_id w) of
                             None \<Rightarrow> None
                           | Some r \<Rightarrow> Some (rbind r (\<lambda>(n, q).
                               Inr (ops, infos1\<lparr>sync_waiting_queue := q\<rparr>, True)))))
                     else Some (Inr (ops, infos1, True)))
            | S_Load opts \<Rightarrow>
                Some (rbind (load (se_seek_ok env) (se_ok env) infos opts) (\<lambda>(ops, infos1).
                  Inr (ops @ [Ack (worker_id w) (sreq_id w)], infos1, True)))
            | S_Other \<Rightarrow> Some (Inr ([], infos, True)))
      | Ev_Unknown \<Rightarrow> Some (Inr ([], infos, True)))"

text \<open>A list of events, each with the outcomes of its calls.\<close>

fun storage_run ::
    "(stor_env \<times> storage_event) list \<Rightarrow> storage_worker_info_t \<Rightarrow> (file_op list \<times> storage_worker_info_t \<times> bool) res option" where
  "storage_run [] infos = Some (Inr ([], infos, True))"
| "storage_run ((env, ev) # evs) infos =
     obind (storage_step env ev infos) (\<lambda>(ops, infos1, go).
       if \<not> go then Some (Inr (ops, infos1, False))
       else obind (storage_run evs infos1) (\<lambda>(ops', rest). Some (Inr (ops @ ops', rest))))"

section \<open>Transfers\<close>

lemma safe_write_prefix:
  assumes "safe_write ws buf = Some (r, out)"
  shows "(r = 0 \<and> out = buf) \<or> (r = -1 \<and> (\<exists>rest. buf = out @ rest \<and> rest \<noteq> []))"
  using assms
proof (induction ws buf arbitrary: r out rule: safe_write.induct)
  case (3 w ws b bs)
  show ?case
  proof (cases "w < 0")
    case True
    then show ?thesis using "3.prems" by auto
  next
    case False
    then obtain out' where o: "safe_write ws (drop (nat w) (b # bs)) = Some (r, out')" "out = take (nat w) (b # bs) @ out'"
      using "3.prems" by auto
    show ?thesis using "3.IH" [OF False o(1)] o(2) by (metis append.assoc append_take_drop_id)
  qed
qed auto

lemma safe_write_ends:
  assumes "list_all (\<lambda>w. 0 \<le> w) ws" "int (length buf) \<le> sum_list ws"
  shows "safe_write ws buf = Some (0, buf)"
  using assms
proof (induction ws buf rule: safe_write.induct)
  case (3 w ws b bs)
  then have "safe_write ws (drop (nat w) (b # bs)) = Some (0, drop (nat w) (b # bs))"
    using sum_list_nonneg [of ws] by (intro "3.IH") (auto simp: list_all_iff)
  then show ?case using "3.prems" by auto
qed auto

fun op_bytes :: "file_op \<Rightarrow> nat" where
  "op_bytes (Write n) = n"
| "op_bytes (Read n) = n"
| "op_bytes (Lseek n ok) = 0"
| "op_bytes Fsync = 0"
| "op_bytes (Ack w r) = 0"

lemma chunks_ok:
  assumes "\<forall>i. ok i" "m \<le> t"
  shows "\<exists>ns. chunks mk ok m t = Inr (map mk ns) \<and> sum_list ns = t - m \<and> (\<forall>n \<in> set ns. 0 < n \<and> n \<le> BUF_SIZE)"
  using assms
proof (induction mk ok m t rule: chunks.induct)
  case (1 mk ok m t)
  show ?case
  proof (cases "m < t")
    case False
    then show ?thesis using "1.prems"(2) by (subst chunks.simps) (auto intro: exI [of _ "[]"])
  next
    case True
    let ?b = "if t - m > BUF_SIZE then BUF_SIZE else t - m"
    have b: "0 < ?b" "?b \<le> BUF_SIZE" "m + ?b \<le> t" using True by (auto simp: BUF_SIZE_def)
    obtain ns where ns: "chunks mk ok (m + ?b) t = Inr (map mk ns)" "sum_list ns = t - (m + ?b)"
        "\<forall>n \<in> set ns. 0 < n \<and> n \<le> BUF_SIZE"
      using "1.IH" [OF True refl] "1.prems"(1) b(3) by blast
    have "chunks mk ok m t = Inr (map mk (?b # ns))"
      using True ns(1) "1.prems"(1) by (subst chunks.simps) (simp add: Let_def split del: if_split)
    moreover have "sum_list (?b # ns) = t - m" using ns(2) b(3) by simp
    ultimately show ?thesis using ns(3) b by (metis set_ConsD)
  qed
qed

section \<open>Acknowledgements after a sync\<close>

text \<open>The entries of a priority queue as a multiset, from the contract of the queue.\<close>

definition pq_entries :: "'d pqueue_t \<Rightarrow> (int \<times> 'd) multiset" where
  "pq_entries q = image_mset (\<lambda>n. the (pq_abs q n)) (mset_set (dom (pq_abs q)))"

lemma pq_entries_pop:
  assumes "pq_inv q" "pq_abs q n = Some (k, d)" "pq_abs q' = (pq_abs q)(n := None)"
  shows "pq_entries q = add_mset (k, d) (pq_entries q')"
proof -
  have f: "finite (dom (pq_abs q))" by (rule finite_dom_pq_abs)
  have n: "n \<in> dom (pq_abs q)" using assms(2) by (rule domI)
  have "dom (pq_abs q') = dom (pq_abs q) - {n}" using assms(3) by auto
  moreover have "mset_set (dom (pq_abs q)) = add_mset n (mset_set (dom (pq_abs q) - {n}))"
    using mset_set.remove [OF f n] by simp
  moreover have "image_mset (\<lambda>m. the (pq_abs q' m)) (mset_set (dom (pq_abs q) - {n})) =
      image_mset (\<lambda>m. the (pq_abs q m)) (mset_set (dom (pq_abs q) - {n}))"
    using assms(3) f by (intro image_mset_cong) auto
  ultimately show ?thesis using assms(2) by (simp add: pq_entries_def)
qed

lemma pq_entries_insert:
  assumes "pq_abs q n = None" "pq_abs q' = (pq_abs q)(n \<mapsto> (k, d))"
  shows "pq_entries q' = add_mset (k, d) (pq_entries q)"
proof -
  have f: "finite (dom (pq_abs q))" by (rule finite_dom_pq_abs)
  have n: "n \<notin> dom (pq_abs q)" using assms(1) by (metis domIff)
  have "dom (pq_abs q') = insert n (dom (pq_abs q))" using assms(2) by auto
  moreover have "image_mset (\<lambda>m. the (pq_abs q' m)) (mset_set (dom (pq_abs q))) =
      image_mset (\<lambda>m. the (pq_abs q m)) (mset_set (dom (pq_abs q)))"
    using assms n f by (intro image_mset_cong) auto
  ultimately show ?thesis using assms(2) f n by (simp add: pq_entries_def)
qed

lemma pq_entries_empty: "pq_inv q \<Longrightarrow> psize q = 0 \<Longrightarrow> pq_entries q = {#}"
  using card_dom_pq_abs [of q] finite_dom_pq_abs [of q] by (simp add: pq_entries_def)

lemma sync_drain_ok:
  assumes "pq_inv q"
  shows "\<exists>bs q'. sync_drain q acks = Some (Inr (acks @ bs, q')) \<and> pq_inv q' \<and> psize q' = 0 \<and>
    pcapacity q' = pcapacity q \<and> mset bs = pq_entries q \<and> sorted (map fst bs)"
  using assms
proof (induction "psize q" arbitrary: q acks)
  case 0
  then have "sync_drain q acks = Some (Inr (acks @ [], q))" by (subst sync_drain.simps) simp
  then show ?case using 0 pq_entries_empty [of q] by (intro exI [of _ "[]"]) auto
next
  case (Suc m)
  have "pq_abs q \<noteq> Map.empty"
    using card_dom_pq_abs [OF Suc.prems] Suc.hyps(2) by (metis card.empty dom_empty old.nat.distinct(2))
  then obtain n k d q' where p: "pqueue_top q = Some n" "pq_abs q n = Some (k, d)" "pqueue_pop q = Some (Inr q')"
      "pq_inv q'" "pcapacity q' = pcapacity q" "pq_abs q' = (pq_abs q)(n := None)"
      "\<forall>m k' d'. pq_abs q' m = Some (k', d') \<longrightarrow> k \<le> k'"
    using pq.pop_law [OF Suc.prems] by blast
  note e = pq_entries_pop [OF Suc.prems p(2,6)]
  have "dom (pq_abs q') = dom (pq_abs q) - {n}" using p(6) by simp
  then have sz: "m = psize q'"
    using card_dom_pq_abs [OF Suc.prems] card_dom_pq_abs [OF p(4)] Suc.hyps(2) domI [of "pq_abs q", OF p(2)]
    by (metis card_Diff_singleton diff_Suc_1)
  have kd: "pqueue_node_key q n = k" "pqueue_node_data q n = d"
    using p(2) by (auto simp: pq_abs_def pqueue_node_key_def pqueue_node_data_def split: if_splits)
  obtain bs q'' where b: "sync_drain q' (acks @ [(k, d)]) = Some (Inr ((acks @ [(k, d)]) @ bs, q''))" "pq_inv q''"
      "psize q'' = 0" "pcapacity q'' = pcapacity q'" "mset bs = pq_entries q'" "sorted (map fst bs)"
    using Suc.hyps(1) [OF sz p(4)] by blast
  have "sync_drain q acks = Some (Inr (acks @ (k, d) # bs, q''))"
    using Suc.hyps(2) p(1,3) kd b(1) by (subst sync_drain.simps) simp
  moreover have "\<forall>x \<in> set bs. k \<le> fst x"
  proof
    fix x
    assume "x \<in> set bs"
    then have "x \<in># pq_entries q'" using b(5) by (metis set_mset_mset)
    then obtain m' where "m' \<in> dom (pq_abs q')" "x = the (pq_abs q' m')"
      using finite_dom_pq_abs [of q'] by (auto simp: pq_entries_def)
    then have "pq_abs q' m' = Some (fst x, snd x)" by (metis domD option.sel prod.collapse)
    then show "k \<le> fst x" using p(7) by blast
  qed
  ultimately show ?case using b(2-6) e p(5) by (intro exI [of _ "(k, d) # bs"] exI [of _ q'']) auto
qed

section \<open>Properties\<close>

text \<open>The periodic sync acknowledges every waiting store: on a timer event the file is synced, the loop over the waiting
  queue ends, and then each waiting request is acknowledged exactly once to the worker it came from, in the order of the workers;
  the queue is empty afterwards and its invariant holds.\<close>

theorem timer_acks_all:
  assumes "pq_inv (sync_waiting_queue infos)"
  shows "\<exists>acks infos'. storage_step env (Ev_Timer True) infos = Some (Inr (Fsync # acks_ops acks, infos', True)) \<and>
    mset acks = pq_entries (sync_waiting_queue infos) \<and> sorted (map fst acks) \<and>
    pq_inv (sync_waiting_queue infos') \<and> psize (sync_waiting_queue infos') = 0 \<and>
    storage_info infos' = storage_info infos"
proof -
  obtain bs q' where "sync_drain (sync_waiting_queue infos) [] = Some (Inr (bs, q'))" "pq_inv q'" "psize q' = 0"
      "mset bs = pq_entries (sync_waiting_queue infos)" "sorted (map fst bs)"
    using sync_drain_ok [OF assms, of "[]"] by auto
  then show ?thesis by (auto simp: storage_step_def)
qed

definition empty_queue :: "int pqueue_t" where
  "empty_queue = pqueue_alloc (\<lambda>i. \<lparr>heap_id = 0, key = 0, data = 0\<rparr>) (\<lambda>i. 0) 8"

definition sample_storage :: storage_worker_info_t where
  "sample_storage = \<lparr>periodic_sync_msec = 100, sync_waiting_queue = empty_queue,
     storage_info = \<lparr>use_odirect = False, max_storage_size = 1000, storage_offset = 900\<rparr>\<rparr>"

lemma sample_storage_inv: "pq_inv (sync_waiting_queue sample_storage)"
  by (simp add: sample_storage_def empty_queue_def pq_inv_alloc)

theorem timer_acks_all_witness:
  "\<exists>acks infos'. storage_step \<lparr>se_blk = 0, se_seek_ok = True, se_ok = \<lambda>i. True\<rparr> (Ev_Timer True) sample_storage =
     Some (Inr (Fsync # acks, infos', True)) \<and> psize (sync_waiting_queue infos') = 0"
  using timer_acks_all [OF sample_storage_inv] by blast

text \<open>The effect of \<^verbatim>\<open>store\<close> when all transfers succeed.\<close>

lemma store_ok:
  assumes "\<forall>i. ok i" "use_odirect (storage_info infos) \<longrightarrow> 0 < blk"
    "store_seek True (store_total blk (storage_info infos) opts) (store_off blk (storage_info infos) opts) (storage_info infos) = (seek, si1)"
  shows "\<exists>ns. sum_list ns = store_total blk (storage_info infos) opts \<and> (\<forall>n \<in> set ns. 0 < n \<and> n \<le> BUF_SIZE) \<and>
    store blk True ok infos opts = Inr
      (seek @ map Write ns @ (if wait_sync opts \<noteq> 0 \<and> periodic_sync_msec infos \<le> 0 then [Fsync] else []),
       infos\<lparr>storage_info := si1\<lparr>storage_offset :=
         (storage_offset si1 + store_total blk (storage_info infos) opts) mod 2 ^ 64\<rparr>\<rparr>)"
proof -
  obtain ns where ns: "chunks Write ok 0 (store_total blk (storage_info infos) opts) = Inr (map Write ns)"
      "sum_list ns = store_total blk (storage_info infos) opts" "\<forall>n \<in> set ns. 0 < n \<and> n \<le> BUF_SIZE"
    using chunks_ok [OF assms(1), of 0 _ Write] by auto
  have "\<not> (use_odirect (storage_info infos) \<and> blk = 0)" using assms(2) by auto
  then show ?thesis using ns assms(3) by (intro exI [of _ ns]) (simp add: store_def Let_def)
qed






text \<open>With direct I/O there are no sequential stores: the offset -1 that stands for them is rounded up to a multiple of the block
  size before it is tested, and becomes 0 in 32 bits, so that each of these stores seeks to the start of the file.\<close>

theorem store_odirect_never_sequential:
  assumes "\<forall>i. ok i" "use_odirect (storage_info infos)" "blk = 2 ^ k" "1 \<le> k" "k \<le> 32" "s_offset opts = 2 ^ 64 - 1"
  shows "\<exists>ops infos'. store blk True ok infos opts = Inr (Lseek 0 True # ops, infos') \<and>
    storage_offset (storage_info infos') = round_up blk (store_nbytes opts) mod 2 ^ 64"
proof -
  have blk: "2 \<le> blk" "blk \<le> 2 ^ 32"
    using assms(3-5) power_increasing [of 1 k "2 :: nat"] power_increasing [of k 32 "2 :: nat"] by auto
  have p: "2 ^ 32 = 2 ^ (32 - k) * blk" using assms(3,5) by (simp flip: power_add)
  have "(2 ^ 32 - 1 + blk - 1) mod 2 ^ 64 = (blk - 2) + 2 ^ (32 - k) * blk" using blk unfolding p [symmetric] by simp
  moreover have "((blk - 2) + 2 ^ (32 - k) * blk) div blk = 2 ^ (32 - k)"
    using blk(1) div_mult_self1 [of blk "blk - 2" "2 ^ (32 - k)"] by (simp only: div_less)
  ultimately have "round_up blk (2 ^ 32 - 1) = 2 ^ 32" unfolding round_up_def p by simp
  then have off: "store_off blk (storage_info infos) opts = 0"
    using assms(2,6) by (simp add: store_off_def Let_def)
  have t: "store_total blk (storage_info infos) opts = round_up blk (store_nbytes opts)"
    using assms(2) by (simp add: store_total_def)
  have "use_odirect (storage_info infos) \<longrightarrow> 0 < blk" using blk(1) by simp
  from store_ok [OF assms(1) this, of opts "[Lseek 0 True]" "(storage_info infos)\<lparr>storage_offset := 0\<rparr>"]
  show ?thesis unfolding off t by (auto simp: store_seek_def)
qed

theorem store_odirect_never_sequential_witness:
  "\<exists>ops infos'. store 512 True (\<lambda>i. True) (sample_storage\<lparr>storage_info := \<lparr>use_odirect = True, max_storage_size = 1000000, storage_offset = 4096\<rparr>\<rparr>)
      \<lparr>s_offset = 2 ^ 64 - 1, store_nbytes = 200, wait_sync = 0, s_dev_id = 0\<rparr> = Inr (Lseek 0 True # ops, infos')"
  using store_odirect_never_sequential [of "\<lambda>i. True"
      "sample_storage\<lparr>storage_info := \<lparr>use_odirect = True, max_storage_size = 1000000, storage_offset = 4096\<rparr>\<rparr>" 512 9
      "\<lparr>s_offset = 2 ^ 64 - 1, store_nbytes = 200, wait_sync = 0, s_dev_id = 0\<rparr>"] by auto

section \<open>Acknowledgements of a sequence of events\<close>

text \<open>The acknowledgements that an event asks for, and the state of a thread that can take \<open>n\<close> more events.\<close>

fun wants_ack :: "storage_event \<Rightarrow> (int \<times> int) multiset" where
  "wants_ack (Ev_Storage ok w) =
     (case scmd w of
        S_Store opts \<Rightarrow> if wait_sync opts \<noteq> 0 then {#(worker_id w, sreq_id w)#} else {#}
      | S_Load opts \<Rightarrow> {#(worker_id w, sreq_id w)#}
      | S_Other \<Rightarrow> {#})"
| "wants_ack _ = {#}"

fun served_event :: "storage_event \<Rightarrow> bool" where
  "served_event Ev_Termination = False"
| "served_event (Ev_Timer ok) = ok"
| "served_event (Ev_Storage ok w) = ok"
| "served_event Ev_Unknown = True"

definition room_for :: "nat \<Rightarrow> storage_worker_info_t \<Rightarrow> bool" where
  "room_for n si \<longleftrightarrow> pq_inv (sync_waiting_queue si) \<and> psize (sync_waiting_queue si) + n \<le> pcapacity (sync_waiting_queue si)"

definition fair_env :: "stor_env \<Rightarrow> storage_worker_info_t \<Rightarrow> bool" where
  "fair_env env si \<longleftrightarrow> (\<forall>i. se_ok env i) \<and> se_seek_ok env \<and> (use_odirect (storage_info si) \<longrightarrow> 0 < se_blk env)"

text \<open>The acknowledgements in a trace.\<close>

fun acks_of :: "file_op list \<Rightarrow> (int \<times> int) list" where
  "acks_of [] = []"
| "acks_of (Ack w r # ops) = (w, r) # acks_of ops"
| "acks_of (_ # ops) = acks_of ops"

lemma acks_of_append [simp]: "acks_of (a @ b) = acks_of a @ acks_of b"
  by (induction a rule: acks_of.induct) auto

lemma acks_of_acks_ops [simp]: "acks_of (acks_ops xs) = xs"
  by (induction xs) (auto simp: acks_ops_def)

lemma Ack_in_trace: "Ack w r \<in> set ops \<longleftrightarrow> (w, r) \<in> set (acks_of ops)"
  by (induction ops rule: acks_of.induct) auto

text \<open>The operations of a store are its seek and its writes, then the sync.\<close>

definition transfer :: "file_op \<Rightarrow> bool" where
  "transfer op \<longleftrightarrow> (case op of Lseek n ok \<Rightarrow> True | Write n \<Rightarrow> True | _ \<Rightarrow> False)"

lemma store_frame:
  assumes "fair_env env si"
  shows "\<exists>io si'. store (se_blk env) (se_seek_ok env) (se_ok env) si opts =
      Inr (io @ (if wait_sync opts \<noteq> 0 \<and> periodic_sync_msec si \<le> 0 then [Fsync] else []), si') \<and> (\<forall>v. fair_env v si' = fair_env v si) \<and>
    sync_waiting_queue si' = sync_waiting_queue si \<and> periodic_sync_msec si' = periodic_sync_msec si \<and>
    list_all transfer io \<and> sum_list (map op_bytes io) = store_total (se_blk env) (storage_info si) opts"
proof -
  obtain seek si1 where sk: "store_seek True (store_total (se_blk env) (storage_info si) opts)
      (store_off (se_blk env) (storage_info si) opts) (storage_info si) = (seek, si1)" by force
  have u: "use_odirect si1 = use_odirect (storage_info si)" and s: "list_all transfer seek" "sum_list (map op_bytes seek) = 0"
    using sk by (auto simp: store_seek_def transfer_def split: if_splits)
  have e: "\<forall>i. se_ok env i" "use_odirect (storage_info si) \<longrightarrow> 0 < se_blk env" "se_seek_ok env" using assms by (simp_all add: fair_env_def)
  obtain ns where ns: "sum_list ns = store_total (se_blk env) (storage_info si) opts"
      "store (se_blk env) True (se_ok env) si opts = Inr
        (seek @ map Write ns @ (if wait_sync opts \<noteq> 0 \<and> periodic_sync_msec si \<le> 0 then [Fsync] else []),
         si\<lparr>storage_info := si1\<lparr>storage_offset := (storage_offset si1 + store_total (se_blk env) (storage_info si) opts) mod 2 ^ 64\<rparr>\<rparr>)"
    using store_ok [OF e(1,2) sk] by blast
  have "map op_bytes (map Write ns) = ns" "list_all transfer (map Write ns)" by (induction ns) (auto simp: transfer_def)
  then have "list_all transfer (seek @ map Write ns)" "sum_list (map op_bytes (seek @ map Write ns)) = store_total (se_blk env) (storage_info si) opts"
    using s ns(1) by simp_all
  moreover have "store (se_blk env) (se_seek_ok env) (se_ok env) si opts = Inr
        ((seek @ map Write ns) @ (if wait_sync opts \<noteq> 0 \<and> periodic_sync_msec si \<le> 0 then [Fsync] else []),
         si\<lparr>storage_info := si1\<lparr>storage_offset := (storage_offset si1 + store_total (se_blk env) (storage_info si) opts) mod 2 ^ 64\<rparr>\<rparr>)"
    using ns(2) e(3) by simp
  ultimately show ?thesis using e u by (intro exI [of _ "seek @ map Write ns"] exI conjI) (assumption | simp add: fair_env_def)+
qed

lemma load_frame:
  assumes "fair_env env si"
  shows "\<exists>ops si'. load (se_seek_ok env) (se_ok env) si opts = Inr (ops, si') \<and> (\<forall>v. fair_env v si' = fair_env v si) \<and>
    sync_waiting_queue si' = sync_waiting_queue si \<and> periodic_sync_msec si' = periodic_sync_msec si \<and> acks_of ops = []"
proof -
  have "\<forall>i. se_ok env i" "se_seek_ok env" using assms by (simp_all add: fair_env_def)
  then obtain ns where ns: "chunks Read (se_ok env) 0 (load_nbytes opts) = Inr (map Read ns)" using chunks_ok [of "se_ok env" 0 _ Read] by blast
  have "acks_of (map Read ns) = []" by (induction ns) auto
  then show ?thesis using assms ns by (auto simp: load_def fair_env_def Let_def)
qed

lemma transfer_acks: "list_all transfer io \<Longrightarrow> acks_of io = []"
  by (induction io rule: acks_of.induct) (auto simp: transfer_def)

lemma size_pq_entries: "pq_inv q \<Longrightarrow> size (pq_entries q) = psize q"
  by (simp add: pq_entries_def card_used pq_inv_def)

lemma step_acks:
  assumes "served_event ev" "room_for (Suc n) si" "fair_env env si"
  shows "\<exists>ops si'. storage_step env ev si = Some (Inr (ops, si', True)) \<and> room_for n si' \<and> (\<forall>v. fair_env v si' = fair_env v si) \<and>
    periodic_sync_msec si' = periodic_sync_msec si \<and>
    mset (acks_of ops) + pq_entries (sync_waiting_queue si') = wants_ack ev + pq_entries (sync_waiting_queue si) \<and>
    (if ev = Ev_Timer True then (\<exists>acks. ops = Fsync # acks_ops acks) \<and> pq_entries (sync_waiting_queue si') = {#}
     else pq_entries (sync_waiting_queue si) \<subseteq># pq_entries (sync_waiting_queue si'))"
proof (cases ev)
  case (Ev_Timer ok)
  obtain bs q' where "sync_drain (sync_waiting_queue si) [] = Some (Inr (bs, q'))" "pq_inv q'" "psize q' = 0"
      "pcapacity q' = pcapacity (sync_waiting_queue si)" "mset bs = pq_entries (sync_waiting_queue si)"
    using sync_drain_ok [of "sync_waiting_queue si" "[]"] assms(2) by (auto simp: room_for_def)
  then show ?thesis using Ev_Timer assms pq_entries_empty [of q'] by (auto simp: storage_step_def room_for_def fair_env_def)
next
  case (Ev_Storage ok w)
  show ?thesis
  proof (cases "scmd w")
    case (S_Store opts)
    let ?fs = "if wait_sync opts \<noteq> 0 \<and> periodic_sync_msec si \<le> 0 then [Fsync] else []"
    obtain io si' where st: "store (se_blk env) (se_seek_ok env) (se_ok env) si opts = Inr (io @ ?fs, si')" "\<forall>v. fair_env v si' = fair_env v si"
        "sync_waiting_queue si' = sync_waiting_queue si" "periodic_sync_msec si' = periodic_sync_msec si" "list_all transfer io"
      using store_frame [OF assms(3)] by blast
    have a: "acks_of (io @ ?fs) = []" using transfer_acks [OF st(5)] by simp
    let ?q = "sync_waiting_queue si"
    obtain m q where q: "pqueue_insert ?q (worker_id w) (sreq_id w) = Some (Inr (m, q))" "pq_inv q" "pcapacity q = pcapacity ?q"
        "pq_entries q = add_mset (worker_id w, sreq_id w) (pq_entries ?q)"
      using insert_ok [of ?q "worker_id w" "sreq_id w"] pq_entries_insert [of ?q] assms(2) by (auto simp: room_for_def)
    have "psize q = Suc (psize ?q)"
      using size_pq_entries [OF q(2)] size_pq_entries [of ?q] q(4) assms(2) by (simp add: room_for_def)
    then have room: "room_for n (si'\<lparr>sync_waiting_queue := q\<rparr>)" "room_for n si'" using q(2,3) assms(2) st(3) by (simp_all add: room_for_def)
    have f: "fair_env v (si'\<lparr>sync_waiting_queue := q\<rparr>) = fair_env v si" for v using st(2) by (simp add: fair_env_def)
    show ?thesis
    proof (cases "wait_sync opts \<noteq> 0 \<and> \<not> periodic_sync_msec si \<le> 0")
      case True
      then have "storage_step env ev si = Some (Inr (io @ ?fs, si'\<lparr>sync_waiting_queue := q\<rparr>, True))"
        using Ev_Storage S_Store st(1,3) q(1) assms(1) by (simp add: storage_step_def)
      then show ?thesis using True Ev_Storage S_Store room f st(4) a q(4) by (intro exI conjI) (assumption | simp)+
    next
      case False
      let ?as = "if wait_sync opts \<noteq> 0 then [Ack (worker_id w) (sreq_id w)] else []"
      have "storage_step env ev si = Some (Inr ((io @ ?fs) @ ?as, si', True))"
        using False Ev_Storage S_Store st(1) assms(1) by (auto simp: storage_step_def)
      then show ?thesis using False Ev_Storage S_Store room st(2-4) a
        by (intro exI conjI) (assumption | simp only: acks_of_append a | simp)+
    qed
  next
    case (S_Load opts)
    then show ?thesis using load_frame [OF assms(3), of opts] Ev_Storage assms(1,2) by (auto simp: storage_step_def room_for_def)
  qed (use Ev_Storage assms in \<open>auto simp: storage_step_def room_for_def\<close>)
qed (use assms in \<open>auto simp: storage_step_def room_for_def\<close>)

lemma count_mset_balance:
  assumes "mset xs + E' = W + E" "x \<notin># W"
  shows "count (mset xs) x + count E' x = count E x"
  using arg_cong [OF assms(1), of "\<lambda>M. count M x"] assms(2) by (simp add: not_in_iff)

text \<open>A request that neither waits nor comes in is not acknowledged.\<close>

lemma run_no_ack:
  assumes "room_for (length evs) si" "\<forall>(v, ev) \<in> set evs. fair_env v si \<and> served_event ev \<and> (w, r) \<notin># wants_ack ev"
    "(w, r) \<notin># pq_entries (sync_waiting_queue si)"
  shows "\<exists>tr si'. storage_run evs si = Some (Inr (tr, si', True)) \<and> Ack w r \<notin> set tr"
  using assms
proof (induction evs arbitrary: si)
  case (Cons e evs)
  obtain v ev where e: "e = (v, ev)" by force
  obtain ops si1 where s1: "storage_step v ev si = Some (Inr (ops, si1, True))" "room_for (length evs) si1" "\<forall>v. fair_env v si1 = fair_env v si"
      "mset (acks_of ops) + pq_entries (sync_waiting_queue si1) = wants_ack ev + pq_entries (sync_waiting_queue si)"
    using step_acks [of ev "length evs" si v] Cons.prems e by auto
  have "(w, r) \<notin># wants_ack ev" using Cons.prems(2) e by simp
  then have "count (mset (acks_of ops)) (w, r) = 0" "count (pq_entries (sync_waiting_queue si1)) (w, r) = 0"
    using count_mset_balance [OF s1(4), of "(w, r)"] Cons.prems(3) by (auto simp: not_in_iff)
  then have n: "Ack w r \<notin> set ops" "(w, r) \<notin># pq_entries (sync_waiting_queue si1)" by (simp_all add: Ack_in_trace not_in_iff)
  obtain tr si' where "storage_run evs si1 = Some (Inr (tr, si', True))" "Ack w r \<notin> set tr"
    using Cons.IH [OF s1(2) _ n(2)] Cons.prems(2) s1(3) by auto
  then show ?case using e s1(1) n(1) by (simp add: obind_def)
qed simp

text \<open>A request that waits is acknowledged by the first timer event, after the sync.\<close>

lemma run_waiting_ack:
  assumes "room_for (length evs) si" "\<forall>(v, ev) \<in> set evs. fair_env v si \<and> served_event ev \<and> (w, r) \<notin># wants_ack ev"
    "count (pq_entries (sync_waiting_queue si)) (w, r) = 1"
  shows "\<exists>tr si'. storage_run evs si = Some (Inr (tr, si', True)) \<and>
    (if Ev_Timer True \<in> snd ` set evs then \<exists>a b. tr = a @ Ack w r # b \<and> Fsync \<in> set a \<and> Ack w r \<notin> set a \<union> set b else Ack w r \<notin> set tr)"
  using assms
proof (induction evs arbitrary: si)
  case (Cons e evs)
  obtain v ev where e: "e = (v, ev)" by force
  let ?E = "\<lambda>si. pq_entries (sync_waiting_queue si)"
  obtain ops si1 where s1: "storage_step v ev si = Some (Inr (ops, si1, True))" "room_for (length evs) si1" "\<forall>v. fair_env v si1 = fair_env v si"
      "mset (acks_of ops) + ?E si1 = wants_ack ev + ?E si"
      "if ev = Ev_Timer True then (\<exists>acks. ops = Fsync # acks_ops acks) \<and> ?E si1 = {#} else ?E si \<subseteq># ?E si1"
    using step_acks [of ev "length evs" si v] Cons.prems e by auto
  have rest: "\<forall>(v, ev) \<in> set evs. fair_env v si1 \<and> served_event ev \<and> (w, r) \<notin># wants_ack ev" using Cons.prems(2) s1(3) by auto
  have "(w, r) \<notin># wants_ack ev" using Cons.prems(2) e by simp
  note c = count_mset_balance [OF s1(4) this]
  show ?case
  proof (cases "ev = Ev_Timer True")
    case True
    then obtain acks where o: "ops = Fsync # acks_ops acks" "?E si1 = {#}" using s1(5) by auto
    then have one: "count (mset acks) (w, r) = 1" using c Cons.prems(3) by simp
    then have "(w, r) \<in> set acks" by (metis count_mset_0_iff zero_neq_one)
    then obtain xs ys where xy: "acks = xs @ (w, r) # ys" by (auto dest: split_list)
    then have nxy: "(w, r) \<notin> set xs" "(w, r) \<notin> set ys" using one by (simp_all add: count_mset_0_iff)
    obtain tr si' where tr: "storage_run evs si1 = Some (Inr (tr, si', True))" "Ack w r \<notin> set tr"
      using run_no_ack [OF s1(2) rest] o(2) by auto
    let ?a = "Fsync # acks_ops xs" and ?b = "acks_ops ys @ tr"
    have "ops @ tr = ?a @ Ack w r # ?b" using o(1) xy by (simp add: acks_ops_def)
    moreover have "Ack w r \<notin> set ?a \<union> set ?b" using nxy tr(2) by (simp add: Ack_in_trace)
    moreover have "storage_run (e # evs) si = Some (Inr (ops @ tr, si', True))" using e s1(1) tr(1) by (simp add: obind_def)
    moreover have "Ev_Timer True \<in> snd ` set (e # evs)" using e True by simp
    ultimately show ?thesis by (metis list.set_intros(1))
  next
    case False
    then have "1 \<le> count (?E si1) (w, r)" using s1(5) Cons.prems(3) mset_subset_eq_count [of "?E si" "?E si1" "(w, r)"] by simp
    then have "count (mset (acks_of ops)) (w, r) = 0" and n2: "count (?E si1) (w, r) = 1" using c Cons.prems(3) by linarith+
    then have n: "Ack w r \<notin> set ops" by (simp add: Ack_in_trace)
    obtain tr si' where tr: "storage_run evs si1 = Some (Inr (tr, si', True))"
        "if Ev_Timer True \<in> snd ` set evs then \<exists>a b. tr = a @ Ack w r # b \<and> Fsync \<in> set a \<and> Ack w r \<notin> set a \<union> set b else Ack w r \<notin> set tr"
      using Cons.IH [OF s1(2) rest n2] by blast
    have run: "storage_run (e # evs) si = Some (Inr (ops @ tr, si', True))" using e s1(1) tr(1) by (simp add: obind_def)
    have t: "Ev_Timer True \<in> snd ` set (e # evs) \<longleftrightarrow> Ev_Timer True \<in> snd ` set evs" using e False by auto
    have "\<exists>a b. ops @ tr = a @ Ack w r # b \<and> Fsync \<in> set a \<and> Ack w r \<notin> set a \<union> set b" if timer: "Ev_Timer True \<in> snd ` set evs"
    proof -
      obtain a b where "tr = a @ Ack w r # b" "Fsync \<in> set a" "Ack w r \<notin> set a \<union> set b" using tr(2) timer by auto
      then show ?thesis using n by (intro exI [of _ "ops @ a"] exI [of _ b]) simp
    qed
    then show ?thesis using run t tr(2) n by (cases "Ev_Timer True \<in> snd ` set evs") auto
  qed
qed simp

text \<open>C12. A store that waits for the sync is acknowledged exactly once, and only after a sync that follows all its writes. When its
  seek and its transfers succeed, the calls for it write all its data; without periodic sync, \<^verbatim>\<open>fsync()\<close> and then the acknowledgement come after
  them; with it, there is no acknowledgement until the first event of the timer, whose \<^verbatim>\<open>fsync()\<close> comes first, whatever other requests are
  served in between. (The code does not look at what \<^verbatim>\<open>fsync()\<close> returns.)
\<close>

theorem sync_store_acknowledged_after_sync:
  assumes "room_for (Suc (length evs)) si" "fair_env env si" "scmd q = S_Store opts" "wait_sync opts \<noteq> 0"
    "(worker_id q, sreq_id q) \<notin># pq_entries (sync_waiting_queue si)"
    "\<forall>(v, ev) \<in> set evs. fair_env v si \<and> served_event ev \<and> (worker_id q, sreq_id q) \<notin># wants_ack ev"
  shows "\<exists>io tr si'. storage_run ((env, Ev_Storage True q) # evs) si = Some (Inr (io @ tr, si', True)) \<and>
    list_all transfer io \<and> sum_list (map op_bytes io) = store_total (se_blk env) (storage_info si) opts \<and>
    (if periodic_sync_msec si \<le> 0 \<or> Ev_Timer True \<in> snd ` set evs
     then \<exists>a b. tr = a @ Ack (worker_id q) (sreq_id q) # b \<and> Fsync \<in> set a \<and> Ack (worker_id q) (sreq_id q) \<notin> set a \<union> set b
     else Ack (worker_id q) (sreq_id q) \<notin> set tr)"
proof -
  let ?w = "worker_id q" and ?r = "sreq_id q" and ?E = "\<lambda>si. pq_entries (sync_waiting_queue si)" and ?ev = "Ev_Storage True q"
  let ?fs = "if wait_sync opts \<noteq> 0 \<and> periodic_sync_msec si \<le> 0 then [Fsync] else []"
  obtain io si0 where io: "store (se_blk env) (se_seek_ok env) (se_ok env) si opts = Inr (io @ ?fs, si0)" "list_all transfer io"
      "sum_list (map op_bytes io) = store_total (se_blk env) (storage_info si) opts"
    using store_frame [OF assms(2)] by blast
  obtain ops si1 where s1: "storage_step env ?ev si = Some (Inr (ops, si1, True))" "room_for (length evs) si1" "\<forall>v. fair_env v si1 = fair_env v si"
      "mset (acks_of ops) + ?E si1 = wants_ack ?ev + ?E si"
    using step_acks [of ?ev "length evs" si env] assms(1,2) by auto
  have rest: "\<forall>(v, ev) \<in> set evs. fair_env v si1 \<and> served_event ev \<and> (?w, ?r) \<notin># wants_ack ev" using assms(6) s1(3) by auto
  have c: "count (mset (acks_of ops)) (?w, ?r) + count (?E si1) (?w, ?r) = 1"
    using arg_cong [OF s1(4), of "\<lambda>M. count M (?w, ?r)"] assms(3-5) by (simp add: not_in_iff)
  show ?thesis
  proof (cases "periodic_sync_msec si \<le> 0")
    case True
    then have o: "ops = io @ [Fsync, Ack ?w ?r]" using s1(1) io(1) assms(3,4) by (simp add: storage_step_def)
    then have "(?w, ?r) \<notin># ?E si1" using c by (simp add: not_in_iff)
    then obtain tr si' where tr: "storage_run evs si1 = Some (Inr (tr, si', True))" "Ack ?w ?r \<notin> set tr" using run_no_ack [OF s1(2) rest] by blast
    have "storage_run ((env, ?ev) # evs) si = Some (Inr (io @ [Fsync] @ Ack ?w ?r # tr, si', True))" using s1(1) o tr(1) by (simp add: obind_def)
    moreover have "\<exists>a b. [Fsync] @ Ack ?w ?r # tr = a @ Ack ?w ?r # b \<and> Fsync \<in> set a \<and> Ack ?w ?r \<notin> set a \<union> set b"
      using tr(2) by (intro exI [of _ "[Fsync]"] exI [of _ tr]) simp
    ultimately show ?thesis using io(2,3) True by meson
  next
    case False
    then have o: "ops = io" using s1(1) io(1) assms(3,4) by (auto simp: storage_step_def rbind_eq_Inr split: option.splits)
    then have "count (?E si1) (?w, ?r) = 1" using c transfer_acks [OF io(2)] by simp
    then obtain tr si' where "storage_run evs si1 = Some (Inr (tr, si', True))"
        "if Ev_Timer True \<in> snd ` set evs then \<exists>a b. tr = a @ Ack ?w ?r # b \<and> Fsync \<in> set a \<and> Ack ?w ?r \<notin> set a \<union> set b else Ack ?w ?r \<notin> set tr"
      using run_waiting_ack [OF s1(2) rest] by blast
    moreover from this(1) have "storage_run ((env, ?ev) # evs) si = Some (Inr (io @ tr, si', True))" using s1(1) o by (simp add: obind_def)
    ultimately show ?thesis using io(2,3) False by meson
  qed
qed

text \<open>A store of ten bytes, then a load of another request, then the timer.\<close>

theorem sync_store_acknowledged_after_sync_witness:
  "\<exists>io a b si'. storage_run
      [(\<lparr>se_blk = 0, se_seek_ok = True, se_ok = \<lambda>i. True\<rparr>, Ev_Storage True
         \<lparr>worker_id = 3, sreq_id = 77, scmd = S_Store \<lparr>s_offset = 0, store_nbytes = 10, wait_sync = 1, s_dev_id = 0\<rparr>\<rparr>),
       (\<lparr>se_blk = 0, se_seek_ok = True, se_ok = \<lambda>i. True\<rparr>, Ev_Storage True
         \<lparr>worker_id = 3, sreq_id = 78, scmd = S_Load \<lparr>l_offset = 0, load_nbytes = 10, l_dev_id = 0\<rparr>\<rparr>),
       (\<lparr>se_blk = 0, se_seek_ok = True, se_ok = \<lambda>i. True\<rparr>, Ev_Timer True)] sample_storage =
     Some (Inr (io @ a @ Ack 3 77 # b, si', True)) \<and> sum_list (map op_bytes io) = 10 \<and> Fsync \<in> set a"
proof -
  let ?v = "\<lparr>se_blk = 0, se_seek_ok = True, se_ok = \<lambda>i. True\<rparr>"
  let ?evs = "[(?v, Ev_Storage True \<lparr>worker_id = 3, sreq_id = 78, scmd = S_Load \<lparr>l_offset = 0, load_nbytes = 10, l_dev_id = 0\<rparr>\<rparr>), (?v, Ev_Timer True)]"
  have e: "pq_entries (sync_waiting_queue sample_storage) = {#}"
    using pq_entries_empty [OF sample_storage_inv] by (simp add: sample_storage_def empty_queue_def pqueue_alloc_def)
  have f: "fair_env ?v sample_storage" by (simp add: fair_env_def sample_storage_def)
  have r: "room_for (Suc (length ?evs)) sample_storage"
    using sample_storage_inv by (simp add: room_for_def) (simp add: sample_storage_def empty_queue_def pqueue_alloc_def)
  show ?thesis
    using sync_store_acknowledged_after_sync [OF r f, of "\<lparr>worker_id = 3, sreq_id = 77, scmd = S_Store \<lparr>s_offset = 0, store_nbytes = 10, wait_sync = 1, s_dev_id = 0\<rparr>\<rparr>"
        "\<lparr>s_offset = 0, store_nbytes = 10, wait_sync = 1, s_dev_id = 0\<rparr>"] e f
    by (auto simp: store_total_def sample_storage_def)
qed

text \<open>When the seek to the offset of such a store fails, nothing is written or synced, and it is acknowledged all the same.\<close>

theorem failed_seek_acknowledged:
  assumes "\<not> se_seek_ok env" "\<not> use_odirect (storage_info si)" "scmd q = S_Store opts" "wait_sync opts \<noteq> 0" "s_offset opts mod 2 ^ 32 \<noteq> 2 ^ 32 - 1"
    and "periodic_sync_msec si \<le> 0"
  shows "storage_step env (Ev_Storage True q) si =
    Some (Inr ([Lseek (s_offset opts mod 2 ^ 32) False, Ack (worker_id q) (sreq_id q)], si, True))"
  using assms by (simp add: storage_step_def store_def store_off_def Let_def)

end
