(* ===== verification/DW_Act.thy ===== *)
theory DW_Act
  imports DW_Timeout DW_Poll DW_Storage
begin

text \<open>
  The state of a connection worker of a node, and the actions on it. The state is the record \<open>node\<close>: the tables of connections and
  requests, the worker's own fields, the descriptors it polls, the number of system calls made so far, and the trace of
  the effects on the outside. The environment gives the outcome of each system call from the number of calls before it. An
  action goes from a state to a result and the next state, to a fault, or to \<open>None\<close> when it does not return. \<^verbatim>\<open>timerfd_gettime()\<close> on the
  worker's own timer does not fail. The second part has the rules by which invariants and executions of actions are
  derived.
\<close>

section \<open>State and environment\<close>

datatype event_t = LISTEN | STORAGE | TIMER | CONNECT | SOCKET | DISPATCH | STATS | TERMINATION | EVENT_OTHER nat

fun event_num :: "event_t \<Rightarrow> nat" where
  "event_num LISTEN = 0"
| "event_num STORAGE = 1"
| "event_num TIMER = 2"
| "event_num CONNECT = 3"
| "event_num SOCKET = 4"
| "event_num DISPATCH = 5"
| "event_num STATS = 6"
| "event_num TERMINATION = 7"
| "event_num (EVENT_OTHER n) = n"

definition event_of_num :: "nat \<Rightarrow> event_t" where
  "event_of_num n = (if n < 8 then [LISTEN, STORAGE, TIMER, CONNECT, SOCKET, DISPATCH, STATS, TERMINATION] ! n else EVENT_OTHER n)"

unbundle bit_operations_syntax

definition i2l :: "u32 \<Rightarrow> u32 \<Rightarrow> u64" where
  "i2l ln rn = push_bit 32 (ucast ln) OR ucast rn"

definition l2i :: "u64 \<Rightarrow> u32 \<times> u32" where
  "l2i n = (ucast (drop_bit 32 n), ucast n)"

text \<open>The custom data that is registered with a descriptor: the type of the event and a connection or a descriptor.\<close>

definition ev_aux :: "event_t \<Rightarrow> int \<Rightarrow> nat" where
  "ev_aux ev x = unat (i2l (word_of_nat (event_num ev)) (word_of_int x))"

text \<open>\<open>E_Sent c bs\<close>: the bytes \<open>bs\<close> of connection \<open>c\<close> went to the kernel; \<open>E_Storage d w\<close>: \<open>w\<close> was written to the pipe of
  the storage worker \<open>d\<close>; \<open>E_Dispatch t c\<close>: connection \<open>c\<close> was written to the pipe of the connection worker \<open>t\<close>; \<open>E_Register t sk c\<close>:
  its socket \<open>sk\<close> was added to the descriptors of that worker.\<close>

datatype effect = E_Sent nat bytes | E_Compute nat | E_Storage nat storage_req_t | E_Settime itimerspec | E_Close int
  | E_Dispatch nat int | E_Register nat int int

record 'k node =
  tbl :: dw_state
  infos :: conn_worker_info_t
  dw_poll :: "'k dw_poll_t"
  calls :: nat
  trace :: "effect list"

definition MAX_STORAGE_DEVICES :: nat where "MAX_STORAGE_DEVICES = 16"

datatype accept_mode_t = AM_CHILD | AM_SHARED | AM_PARENT

text \<open>
  The fixed settings of a node, and the outcomes of the system calls: \<open>sys_rv\<close> for a call of which only the sign of the
  returned value matters.
\<close>

record 'k node_env =
  ctl :: "'k epoll_ctl"
  this_thread :: nat
  accept_mode :: accept_mode_t
  conn_threads :: nat
  storage_devices :: nat
  storage_fds :: "nat \<Rightarrow> int"
  g_enable_defrag :: bool
  termination_fd :: int
  timer_fd :: int
  stat_fd :: int
  store_reply_fds :: "int list"
  dispatch_fd :: int
  sys_rv :: "nat \<Rightarrow> int"
  sends :: "nat \<Rightarrow> send_env"
  recvs :: "nat \<Rightarrow> recv_env"
  callocs :: "nat \<Rightarrow> bool \<times> bool"
  connects :: "nat \<Rightarrow> int \<times> errno_t"
  accepts :: "nat \<Rightarrow> int \<times> sockaddr_in"
  so_errors :: "nat \<Rightarrow> int"
  ssl_news :: "nat \<Rightarrow> nat option \<times> bool"
  handshakes :: "nat \<Rightarrow> int \<times> ssl_error_t"
  timers :: "nat \<Rightarrow> itimerspec"
  pipe_writes :: "nat \<Rightarrow> int"
  pipe_reads :: "nat \<Rightarrow> int option"
  thread_cnts :: "nat \<Rightarrow> int"

section \<open>Actions\<close>

type_synonym ('k, 'a) act = "'k node \<Rightarrow> ('a \<times> 'k node) res option"

definition ret :: "'a \<Rightarrow> ('k, 'a) act" where
  "ret x n = Some (Inr (x, n))"

definition fail :: "fault \<Rightarrow> ('k, 'a) act" where
  "fail e n = Some (Inl e)"

definition nbind :: "('k, 'a) act \<Rightarrow> ('a \<Rightarrow> ('k, 'b) act) \<Rightarrow> ('k, 'b) act" where
  "nbind m f n = (case m n of None \<Rightarrow> None | Some r \<Rightarrow> (case r of Inl e \<Rightarrow> Some (Inl e) | Inr (x, n') \<Rightarrow> f x n'))"

definition lift :: "'a res \<Rightarrow> ('k, 'a) act" where
  "lift r n = Some (rbind r (\<lambda>x. Inr (x, n)))"

definition gets :: "('k node \<Rightarrow> 'a) \<Rightarrow> ('k, 'a) act" where
  "gets f n = Some (Inr (f n, n))"

definition modify :: "('k node \<Rightarrow> 'k node) \<Rightarrow> ('k, unit) act" where
  "modify f n = Some (Inr ((), f n))"

definition call :: "(nat \<Rightarrow> 'r) \<Rightarrow> ('k, 'r) act" where
  "call f n = Some (Inr (f (calls n), n\<lparr>calls := calls n + 1\<rparr>))"

definition emit :: "effect \<Rightarrow> ('k, unit) act" where
  "emit x = modify (\<lambda>n. n\<lparr>trace := trace n @ [x]\<rparr>)"

text \<open>\<^verbatim>\<open>sys_check()\<close>, \<^verbatim>\<open>check()\<close> and \<^verbatim>\<open>assert()\<close>.\<close>

definition sys_check :: "('k, int) act \<Rightarrow> ('k, int) act" where
  "sys_check m = nbind m (\<lambda>rv. if rv < 0 then fail Exit_Failure else ret rv)"

definition check :: "fault \<Rightarrow> bool \<Rightarrow> ('k, unit) act" where
  "check e b = (if b then ret () else fail e)"

text \<open>The operations of the tables as actions.\<close>

definition on_req :: "nat \<Rightarrow> (req_info_t \<Rightarrow> req_info_t) \<Rightarrow> ('k, unit) act" where
  "on_req r f = modify (\<lambda>n. n\<lparr>tbl := upd_req r f (tbl n)\<rparr>)"

definition on_tbl :: "(dw_state \<Rightarrow> ('a \<times> dw_state) res option) \<Rightarrow> ('k, 'a) act" where
  "on_tbl f n = map_option (\<lambda>r. rbind r (\<lambda>(x, s). Inr (x, n\<lparr>tbl := s\<rparr>))) (f (tbl n))"

definition on_conn :: "nat \<Rightarrow> (conn_info_t \<Rightarrow> ('a \<times> conn_info_t) res) \<Rightarrow> ('k, 'a) act" where
  "on_conn c f = on_tbl (\<lambda>s. Some (rbind (f (conns s c)) (\<lambda>(x, c'). Inr (x, upd_conn c (\<lambda>_. c') s))))"

definition on_infos :: "(conn_worker_info_t \<Rightarrow> conn_worker_info_t) \<Rightarrow> ('k, unit) act" where
  "on_infos f = modify (\<lambda>n. n\<lparr>infos := f (infos n)\<rparr>)"

definition on_poll :: "('k dw_poll_t \<Rightarrow> (int \<times> 'k dw_poll_t) res) \<Rightarrow> ('k, int) act" where
  "on_poll f n = Some (rbind (f (dw_poll n)) (\<lambda>(rv, p). Inr (rv, n\<lparr>dw_poll := p\<rparr>)))"

definition conn_of :: "nat \<Rightarrow> ('k, conn_info_t) act" where
  "conn_of c = gets (\<lambda>n. conns (tbl n) c)"

definition req_of :: "nat \<Rightarrow> ('k, req_info_t) act" where
  "req_of r = gets (\<lambda>n. reqs (tbl n) r)"

text \<open>The buffer that holds the message of a request, and where the message is in it.\<close>

definition msg_of :: "nat \<Rightarrow> ('k, bytes \<times> nat) act" where
  "msg_of r = nbind (req_of r) (\<lambda>q. nbind (conn_of (nat (conn_id q))) (\<lambda>c.
     case message_ptr q of
       None \<Rightarrow> fail Null_Deref
     | Some m \<Rightarrow> nbind (lift (the_buf (recv_buf c))) (\<lambda>b. ret (b, m))))"

text \<open>The timer of the forwards.\<close>

definition set_timer :: "'k node_env \<Rightarrow> itimerspec \<Rightarrow> ('k, unit) act" where
  "set_timer e t = nbind (sys_check (call (sys_rv e))) (\<lambda>_. emit (E_Settime t))"

definition n_insert_timeout :: "'k node_env \<Rightarrow> int \<Rightarrow> int \<Rightarrow> ('k, unit) act" where
  "n_insert_timeout e rid micros =
     nbind (call (timers e)) (\<lambda>cur.
     nbind (\<lambda>n. map_option (\<lambda>r. rbind r (\<lambda>(tm, w, s). Inr (tm, n\<lparr>infos := w, tbl := s\<rparr>)))
                  (insert_timeout cur rid micros (infos n) (tbl n))) (\<lambda>tm.
     case tm of None \<Rightarrow> ret () | Some t \<Rightarrow> set_timer e t))"

definition n_remove_timeout :: "'k node_env \<Rightarrow> int \<Rightarrow> ('k, int) act" where
  "n_remove_timeout e rid =
     nbind (call (timers e)) (\<lambda>cur.
     nbind (\<lambda>n. map_option (\<lambda>r. rbind r (\<lambda>(v, tm, w, s). Inr ((v, tm), n\<lparr>infos := w, tbl := s\<rparr>)))
                  (remove_timeout cur rid (infos n) (tbl n))) (\<lambda>(v, tm).
     nbind (case tm of None \<Rightarrow> ret () | Some t \<Rightarrow> set_timer e t) (\<lambda>_. ret v)))"

text \<open>Sending on a connection.\<close>

definition n_start_send :: "'k node_env \<Rightarrow> nat \<Rightarrow> sockaddr_in \<Rightarrow> ('k, int) act" where
  "n_start_send e c tgt =
     nbind (call (sends e)) (\<lambda>env.
     nbind (on_conn c (\<lambda>x. rbind (conn_start_send env tgt x) (\<lambda>(rv, out, x'). Inr ((rv, out), x')))) (\<lambda>(rv, out).
     nbind (emit (E_Sent c out)) (\<lambda>_. ret rv)))"

definition n_start_sendfile :: "'k node_env \<Rightarrow> nat \<Rightarrow> sockaddr_in \<Rightarrow> int \<Rightarrow> int \<Rightarrow> nat \<Rightarrow> ('k, int) act" where
  "n_start_sendfile e c tgt fd off sz =
     nbind (call (sends e)) (\<lambda>env.
     nbind (on_tbl (\<lambda>s. map_option (\<lambda>r. rbind r (\<lambda>(rv, out, x). Inr ((rv, out), upd_conn c (\<lambda>_. x) s)))
              (conn_start_sendfile env tgt fd off sz (conns s c)))) (\<lambda>(rv, out).
     nbind (emit (E_Sent c out)) (\<lambda>_. ret rv)))"

definition n_flush :: "'k node_env \<Rightarrow> nat \<Rightarrow> ('k, int) act" where
  "n_flush e c =
     nbind (call (sends e)) (\<lambda>env.
     nbind (on_tbl (\<lambda>s. map_option (\<lambda>r. rbind r (\<lambda>(rv, out, x). Inr ((rv, out), upd_conn c (\<lambda>_. x) s)))
              (conn_flush env (conns s c)))) (\<lambda>(rv, out).
     nbind (emit (E_Sent c out)) (\<lambda>_. ret rv)))"


section \<open>Executions\<close>

named_theorems act_simps \<open>the result of an action in a given state\<close>

lemma nbind_ret [act_simps]: "nbind (ret x) f = f x"
  by (simp add: nbind_def ret_def fun_eq_iff)

lemma nbind_gets [act_simps]: "nbind (gets g) f n = f (g n) n"
  by (simp add: nbind_def gets_def)

lemma nbind_conn_of [act_simps]: "nbind (conn_of c) f n = f (conns (tbl n) c) n"
  by (simp add: conn_of_def nbind_gets)

lemma nbind_req_of [act_simps]: "nbind (req_of r) f n = f (reqs (tbl n) r) n"
  by (simp add: req_of_def nbind_gets)

lemma nbind_modify [act_simps]: "nbind (modify g) f n = f () (g n)"
  by (simp add: nbind_def modify_def)

lemma nbind_on_req [act_simps]: "nbind (on_req r g) f n = f () (n\<lparr>tbl := upd_req r g (tbl n)\<rparr>)"
  by (simp add: on_req_def nbind_modify)

lemma nbind_on_infos [act_simps]: "nbind (on_infos g) f n = f () (n\<lparr>infos := g (infos n)\<rparr>)"
  by (simp add: on_infos_def nbind_modify)

lemma nbind_emit [act_simps]: "nbind (emit x) f n = f () (n\<lparr>trace := trace n @ [x]\<rparr>)"
  by (simp add: emit_def nbind_modify)

lemma nbind_call [act_simps]: "nbind (call g) f n = f (g (calls n)) (n\<lparr>calls := calls n + 1\<rparr>)"
  by (simp add: nbind_def call_def)

lemma nbind_lift_Inr [act_simps]: "nbind (lift (Inr x)) f = f x"
  by (simp add: nbind_def lift_def fun_eq_iff)

lemma nbind_lift_Inl [act_simps]: "nbind (lift (Inl e)) f = fail e"
  by (simp add: nbind_def lift_def fail_def fun_eq_iff)

lemma nbind_fail [act_simps]: "nbind (fail e) f = fail e"
  by (simp add: nbind_def fail_def fun_eq_iff)

lemma check_simps [act_simps]: "check e True = ret ()" "check e False = fail e"
  by (simp_all add: check_def)

lemma ret_run [act_simps]: "ret x n = Some (Inr (x, n))"
  by (simp add: ret_def)

lemma fail_run [act_simps]: "fail e n = Some (Inl e)"
  by (simp add: fail_def)

lemma nbind_assoc: "nbind (nbind m f) g = nbind m (\<lambda>x. nbind (f x) g)"
  by (simp add: nbind_def fun_eq_iff split: option.splits sum.splits)

lemma nbind_run: "m n = Some (Inr (x, n')) \<Longrightarrow> nbind m f n = f x n'"
  by (simp add: nbind_def)

lemma nbind_eq_Inr:
  "nbind m f n = Some (Inr (y, n2)) \<longleftrightarrow> (\<exists>x n1. m n = Some (Inr (x, n1)) \<and> f x n1 = Some (Inr (y, n2)))"
  by (auto simp: nbind_def split: option.splits sum.splits)

lemma nbind_on_tbl: "f (tbl n) = Some (Inr (x, s)) \<Longrightarrow> nbind (on_tbl f) g n = g x (n\<lparr>tbl := s\<rparr>)"
  by (simp add: nbind_def on_tbl_def)

lemma nbind_on_conn [act_simps]:
  "f (conns (tbl n) c) = Inr (x, c') \<Longrightarrow> nbind (on_conn c f) g n = g x (n\<lparr>tbl := upd_conn c (\<lambda>_. c') (tbl n)\<rparr>)"
  by (simp add: on_conn_def nbind_on_tbl)

lemma nbind_on_poll: "f (dw_poll n) = Inr (x, p) \<Longrightarrow> nbind (on_poll f) g n = g x (n\<lparr>dw_poll := p\<rparr>)"
  by (simp add: nbind_def on_poll_def)

lemma nbind_msg_of [act_simps]:
  "message_ptr (reqs (tbl n) r) = Some m \<Longrightarrow> recv_buf (conns (tbl n) (nat (conn_id (reqs (tbl n) r)))) = Some b \<Longrightarrow>
   nbind (msg_of r) f n = f (b, m) n"
  by (simp add: msg_of_def nbind_assoc nbind_req_of nbind_conn_of the_buf_def nbind_lift_Inr nbind_ret)

section \<open>Invariants of actions\<close>

text \<open>An action keeps \<open>I\<close> when it leads from a state with \<open>I\<close> to states with \<open>I\<close> only.\<close>

definition keeps :: "('k node \<Rightarrow> bool) \<Rightarrow> ('k, 'a) act \<Rightarrow> bool" where
  "keeps I m \<longleftrightarrow> (\<forall>n x n'. I n \<longrightarrow> m n = Some (Inr (x, n')) \<longrightarrow> I n')"

named_theorems keeps_intros \<open>actions that keep an invariant\<close>

lemma keepsI: "(\<And>n x n'. I n \<Longrightarrow> m n = Some (Inr (x, n')) \<Longrightarrow> I n') \<Longrightarrow> keeps I m"
  by (auto simp: keeps_def)

lemma keepsD: "keeps I m \<Longrightarrow> I n \<Longrightarrow> m n = Some (Inr (x, n')) \<Longrightarrow> I n'"
  by (auto simp: keeps_def)

lemma keeps_ret [keeps_intros]: "keeps I (ret x)"
  by (simp add: keeps_def ret_def)

lemma keeps_fail [keeps_intros]: "keeps I (fail e)"
  by (simp add: keeps_def fail_def)

lemma keeps_none [keeps_intros]: "keeps I (\<lambda>n. None)"
  by (simp add: keeps_def)

lemma keeps_nbind [keeps_intros]: "keeps I m \<Longrightarrow> (\<And>x. keeps I (f x)) \<Longrightarrow> keeps I (nbind m f)"
  by (rule keepsI) (auto simp: nbind_eq_Inr dest: keepsD)

lemma keeps_lift [keeps_intros]: "keeps I (lift r)"
  by (rule keepsI) (auto simp: lift_def rbind_eq_Inr)

lemma keeps_gets [keeps_intros]: "keeps I (gets f)"
  by (simp add: keeps_def gets_def)

lemma keeps_conn_of [keeps_intros]: "keeps I (conn_of c)"
  by (simp add: conn_of_def keeps_gets)

lemma keeps_req_of [keeps_intros]: "keeps I (req_of r)"
  by (simp add: req_of_def keeps_gets)

lemma keeps_check [keeps_intros]: "keeps I (check e b)"
  by (simp add: check_def keeps_intros)

lemma keeps_if [keeps_intros]: "(b \<Longrightarrow> keeps I m) \<Longrightarrow> (\<not> b \<Longrightarrow> keeps I m') \<Longrightarrow> keeps I (if b then m else m')"
  by simp

lemma keeps_case_option [keeps_intros]:
  "(x = None \<Longrightarrow> keeps I m) \<Longrightarrow> (\<And>y. x = Some y \<Longrightarrow> keeps I (f y)) \<Longrightarrow> keeps I (case x of None \<Rightarrow> m | Some y \<Rightarrow> f y)"
  by (cases x) auto

lemma keeps_case_prod [keeps_intros]:
  "(\<And>a b. x = (a, b) \<Longrightarrow> keeps I (f a b)) \<Longrightarrow> keeps I (case x of (a, b) \<Rightarrow> f a b)"
  by (cases x) auto

lemma keeps_Let [keeps_intros]: "(\<And>x. x = t \<Longrightarrow> keeps I (f x)) \<Longrightarrow> keeps I (let x = t in f x)"
  by (simp add: Let_def)

lemma keeps_sys_check [keeps_intros]: "keeps I m \<Longrightarrow> keeps I (sys_check m)"
  unfolding sys_check_def by (intro keeps_intros)

end
