(* ===== verification/DW_Float.thy ===== *)
theory DW_Float
  imports Complex_Main DW_Prelude "HOL-Library.Log_Nat"
begin

text \<open>
  The type \<^verbatim>\<open>double\<close> of C in the binary64 format of IEEE 754: the result of an arithmetic operation is the exact
  rational result, rounded to 53 significant bits, to nearest with ties to even. The two zeros are identified (the program
  never distinguishes them). The conversions to integers truncate, and a value out of the range of the integer type
  is a fault, since C leaves it undefined. The functions of libm are not determined by IEEE 754: they are a parameter.
\<close>

section \<open>Rounding\<close>

datatype double = NaN | Inf bool | Fin rat

definition round_even :: "rat \<Rightarrow> int" where
  "round_even x =
     (let f = \<lfloor>x\<rfloor>; d = x - of_int f in
      if d < 1 / 2 then f else if d > 1 / 2 then f + 1 else if even f then f else f + 1)"

definition pow2 :: "int \<Rightarrow> rat" where
  "pow2 e = (if 0 \<le> e then 2 ^ nat e else 1 / 2 ^ nat (- e))"

definition exponent :: "rat \<Rightarrow> int" where
  "exponent x =
     (let (n, d) = quotient_of \<bar>x\<bar>; e = bitlen n - bitlen d
      in if pow2 e \<le> \<bar>x\<bar> then e else e - 1)"

definition rnd :: "rat \<Rightarrow> double" where
  "rnd x =
     (if x = 0 then Fin 0
      else let u = pow2 (max (exponent x - 52) (-1074)); r = of_int (round_even (x / u)) * u
        in if \<bar>r\<bar> \<ge> 2 ^ 1024 then Inf (x < 0) else Fin r)"

section \<open>Operations\<close>

definition isnan :: "double \<Rightarrow> bool" where
  "isnan x \<longleftrightarrow> x = NaN"

definition d_int :: "int \<Rightarrow> double" where
  "d_int i = rnd (of_int i)"

fun dneg :: "double \<Rightarrow> double" where
  "dneg NaN = NaN"
| "dneg (Inf s) = Inf (\<not> s)"
| "dneg (Fin x) = Fin (- x)"

fun dadd :: "double \<Rightarrow> double \<Rightarrow> double" where
  "dadd (Fin x) (Fin y) = rnd (x + y)"
| "dadd (Inf s) (Inf t) = (if s = t then Inf s else NaN)"
| "dadd (Inf s) (Fin y) = Inf s"
| "dadd (Fin x) (Inf t) = Inf t"
| "dadd NaN y = NaN"
| "dadd x NaN = NaN"

definition dsub :: "double \<Rightarrow> double \<Rightarrow> double" where
  "dsub x y = dadd x (dneg y)"

fun dmul :: "double \<Rightarrow> double \<Rightarrow> double" where
  "dmul (Fin x) (Fin y) = rnd (x * y)"
| "dmul (Inf s) (Inf t) = Inf (s \<noteq> t)"
| "dmul (Inf s) (Fin y) = (if y = 0 then NaN else Inf (s \<noteq> (y < 0)))"
| "dmul (Fin x) (Inf t) = (if x = 0 then NaN else Inf (t \<noteq> (x < 0)))"
| "dmul NaN y = NaN"
| "dmul x NaN = NaN"

text \<open>Division; a finite number over zero is infinite with the sign of the number, zero over zero is not a number.\<close>

fun ddiv :: "double \<Rightarrow> double \<Rightarrow> double" where
  "ddiv (Fin x) (Fin y) = (if y = 0 then (if x = 0 then NaN else Inf (x < 0)) else rnd (x / y))"
| "ddiv (Inf s) (Inf t) = NaN"
| "ddiv (Inf s) (Fin y) = Inf (s \<noteq> (y < 0))"
| "ddiv (Fin x) (Inf t) = Fin 0"
| "ddiv NaN y = NaN"
| "ddiv x NaN = NaN"

fun dlt :: "double \<Rightarrow> double \<Rightarrow> bool" where
  "dlt (Fin x) (Fin y) = (x < y)"
| "dlt (Inf s) (Inf t) = (s \<and> \<not> t)"
| "dlt (Inf s) (Fin y) = s"
| "dlt (Fin x) (Inf t) = (\<not> t)"
| "dlt NaN y = False"
| "dlt x NaN = False"

definition dle :: "double \<Rightarrow> double \<Rightarrow> bool" where
  "dle x y \<longleftrightarrow> dlt x y \<or> x = y \<and> x \<noteq> NaN"

definition dabs :: "double \<Rightarrow> double" where
  "dabs x = (if dlt x (Fin 0) then dneg x else x)"

text \<open>The conversion of a \<^verbatim>\<open>double\<close> to an integer type with values from \<open>lo\<close> to \<open>hi\<close>, and \<^verbatim>\<open>lrint\<close>.\<close>

definition trunc_rat :: "rat \<Rightarrow> int" where
  "trunc_rat x = (if 0 \<le> x then \<lfloor>x\<rfloor> else \<lceil>x\<rceil>)"

definition to_integer :: "int \<Rightarrow> int \<Rightarrow> double \<Rightarrow> int res" where
  "to_integer lo hi x = (case x of
     Fin r \<Rightarrow> if lo \<le> trunc_rat r \<and> trunc_rat r \<le> hi then Inr (trunc_rat r) else Inl Bad_Cast
   | _ \<Rightarrow> Inl Bad_Cast)"

abbreviation to_i32 :: "double \<Rightarrow> int res" where
  "to_i32 \<equiv> to_integer (- (2 ^ 31)) (2 ^ 31 - 1)"

abbreviation to_i64 :: "double \<Rightarrow> int res" where
  "to_i64 \<equiv> to_integer (- (2 ^ 63)) (2 ^ 63 - 1)"

definition to_u32 :: "double \<Rightarrow> nat res" where
  "to_u32 x = rbind (to_integer 0 (2 ^ 32 - 1) x) (\<lambda>i. Inr (nat i))"

definition to_u64 :: "double \<Rightarrow> nat res" where
  "to_u64 x = rbind (to_integer 0 (2 ^ 64 - 1) x) (\<lambda>i. Inr (nat i))"

definition lrint :: "double \<Rightarrow> int res" where
  "lrint x = (case x of
     Fin r \<Rightarrow> if - (2 ^ 63) \<le> round_even r \<and> round_even r < 2 ^ 63 then Inr (round_even r) else Inl Bad_Cast
   | _ \<Rightarrow> Inl Bad_Cast)"

record libm =
  m_log :: "double \<Rightarrow> double"
  m_exp :: "double \<Rightarrow> double"
  m_sqrt :: "double \<Rightarrow> double"

section \<open>Exact results\<close>

lemma round_even_of_int [simp]: "round_even (of_int i) = i"
  by (simp add: round_even_def)

lemma pow2_pos [simp]: "0 < pow2 e"
  by (simp add: pow2_def)

lemma pow2_add: "pow2 (a + b) = pow2 a * pow2 b"
proof -
  have "pow2 e = 2 powi e" for e by (simp add: pow2_def power_int_def field_simps)
  then show ?thesis by (simp add: power_int_add)
qed

lemma pow2_mono: "a \<le> b \<Longrightarrow> pow2 a \<le> pow2 b"
proof -
  assume "a \<le> b"
  then have "1 \<le> pow2 (b - a)" by (simp add: pow2_def)
  with pow2_add [of a "b - a"] show ?thesis
    by (metis add.commute diff_add_cancel mult.right_neutral mult_le_cancel_left_pos pow2_pos)
qed

lemma pow2_le_iff: "pow2 a \<le> pow2 b \<longleftrightarrow> a \<le> b"
proof
  assume le: "pow2 a \<le> pow2 b"
  show "a \<le> b"
  proof (rule ccontr)
    assume "\<not> a \<le> b"
    then have "pow2 (b + 1) \<le> pow2 a" by (intro pow2_mono) simp
    then have "2 * pow2 b \<le> pow2 a" by (simp add: pow2_add) (simp add: pow2_def)
    with le pow2_pos [of b] show False by simp
  qed
qed (rule pow2_mono)

lemma bitlen_pow2_bounds:
  assumes "0 < n"
  shows "pow2 (bitlen n - 1) \<le> of_int n" "of_int n < pow2 (bitlen n)"
proof -
  have "1 \<le> bitlen n" using assms by (simp add: bitlen_alt_def)
  moreover have "2 ^ nat (bitlen n - 1) \<le> n" "n < 2 ^ nat (bitlen n)" using bitlen_bounds [OF assms] by auto
  moreover have "(2 :: rat) ^ nat (bitlen n - 1) = of_int (2 ^ nat (bitlen n - 1))" "(2 :: rat) ^ nat (bitlen n) = of_int (2 ^ nat (bitlen n))" by simp_all
  ultimately show "pow2 (bitlen n - 1) \<le> of_int n" "of_int n < pow2 (bitlen n)"
    unfolding pow2_def by (simp_all only: of_int_le_iff of_int_less_iff if_True) simp_all
qed

lemma exponent_le:
  assumes "x \<noteq> 0"
  shows "pow2 (exponent x) \<le> \<bar>x\<bar>"
proof -
  obtain n d where q: "quotient_of \<bar>x\<bar> = (n, d)" by force
  have d: "0 < d" using quotient_of_denom_pos [OF q] .
  have x: "\<bar>x\<bar> = of_int n / of_int d" using quotient_of_div [OF q] .
  with assms d have n: "0 < n" by (metis of_int_0_less_iff zero_less_abs_iff zero_less_divide_iff order.asym)
  have "pow2 (bitlen n - bitlen d - 1) * pow2 (bitlen d) \<le> of_int n"
    using bitlen_pow2_bounds [OF n] by (simp flip: pow2_add)
  moreover have "pow2 (bitlen n - bitlen d - 1) * of_int d \<le> pow2 (bitlen n - bitlen d - 1) * pow2 (bitlen d)"
    using bitlen_pow2_bounds [OF d] by (intro mult_left_mono) (simp_all add: order.strict_implies_order)
  ultimately have "pow2 (bitlen n - bitlen d - 1) * of_int d \<le> of_int n" by (rule order_trans [rotated])
  then have "pow2 (bitlen n - bitlen d - 1) \<le> \<bar>x\<bar>" using d unfolding x by (simp add: pos_le_divide_eq)
  then show ?thesis by (simp add: exponent_def q Let_def)
qed

lemma pow2_int: "0 \<le> e \<Longrightarrow> pow2 e = of_int (2 ^ nat e)"
  by (simp add: pow2_def)

lemma rnd_exact_less:
  assumes "x = of_int m * pow2 e" "\<bar>m\<bar> < 2 ^ 53" "-1074 \<le> e" "e \<le> 900"
  shows "rnd x = Fin x"
proof (cases "x = 0")
  case True
  then show ?thesis by (simp add: rnd_def)
next
  case False
  define k where "k = max (exponent x - 52) (-1074)"
  have "(of_int \<bar>m\<bar> :: rat) < of_int (2 ^ 53)" using assms(2) by (simp only: of_int_less_iff)
  then have less: "\<bar>x\<bar> < pow2 (53 + e)"
    using pow2_pos [of e] by (simp add: assms(1) abs_mult pow2_add pow2_int [of 53] abs_of_pos)
  then have "pow2 (exponent x) < pow2 (53 + e)" using exponent_le [OF False] by simp
  then have "exponent x < 53 + e" using pow2_mono [of "53 + e" "exponent x"] by force
  then have k: "k \<le> e" using assms(3) by (simp add: k_def)
  have "x / pow2 k = of_int (m * 2 ^ nat (e - k))"
    using k pow2_add [of "e - k" k] pow2_int [of "e - k"] pow2_pos [of k] by (simp add: assms(1) field_simps del: pow2_pos)
  then have r: "of_int (round_even (x / pow2 k)) * pow2 k = x"
    by (metis round_even_of_int nonzero_eq_divide_eq pow2_pos less_irrefl)
  have "\<bar>x\<bar> < pow2 1024" using less pow2_mono [of "53 + e" 1024] assms(4) by simp
  then have "\<not> 2 ^ 1024 \<le> \<bar>x\<bar>" by (simp add: pow2_def)
  with False r show ?thesis by (simp add: rnd_def k_def Let_def)
qed

lemma rnd_exact:
  assumes "x = of_int m * pow2 e" "\<bar>m\<bar> \<le> 2 ^ 53" "-1074 \<le> e" "e < 900"
  shows "rnd x = Fin x"
proof (cases "\<bar>m\<bar> = 2 ^ 53")
  case True
  have p: "pow2 (e + 1) = 2 * pow2 e" by (simp add: pow2_add) (simp add: pow2_def)
  have "m = sgn m * 2 ^ 53" using True by (metis abs_sgn mult.commute mult_sgn_abs)
  then have "(of_int m :: rat) = of_int (sgn m * 2 ^ 53)" by simp
  then have "x = of_int (sgn m * 2 ^ 52) * pow2 (e + 1)" by (simp add: assms(1) p)
  moreover have "\<bar>sgn m * 2 ^ 52\<bar> < (2 ^ 53 :: int)" by (cases m "0 :: int" rule: linorder_cases) auto
  ultimately show ?thesis using assms(3,4) by (intro rnd_exact_less [of x "sgn m * 2 ^ 52" "e + 1"]) auto
next
  case False
  then show ?thesis using assms by (intro rnd_exact_less [of x m e]) auto
qed

text \<open>Integers of at most 53 bits are represented exactly, and so are the results of operations on them that are such integers.\<close>

lemma rnd_of_int [simp]: "\<bar>i\<bar> \<le> 2 ^ 53 \<Longrightarrow> rnd (of_int i) = Fin (of_int i)"
  by (rule rnd_exact [of _ i 0]) (simp_all add: pow2_def)

lemma d_int_exact: "\<bar>i\<bar> \<le> 2 ^ 53 \<Longrightarrow> d_int i = Fin (of_int i)"
  by (simp add: d_int_def)

lemma dadd_int: "\<bar>i + j\<bar> \<le> 2 ^ 53 \<Longrightarrow> dadd (Fin (of_int i)) (Fin (of_int j)) = Fin (of_int (i + j))"
  by (simp flip: of_int_add)

lemma dmul_int: "\<bar>i * j\<bar> \<le> 2 ^ 53 \<Longrightarrow> dmul (Fin (of_int i)) (Fin (of_int j)) = Fin (of_int (i * j))"
  by (simp flip: of_int_mult)

lemma trunc_rat_of_int [simp]: "trunc_rat (of_int i) = i"
  by (simp add: trunc_rat_def)

lemma to_u32_int: "0 \<le> i \<Longrightarrow> i < 2 ^ 32 \<Longrightarrow> to_u32 (Fin (of_int i)) = Inr (nat i)"
  by (simp add: to_u32_def to_integer_def)

lemma to_u64_int: "0 \<le> i \<Longrightarrow> i < 2 ^ 64 \<Longrightarrow> to_u64 (Fin (of_int i)) = Inr (nat i)"
  by (simp add: to_u64_def to_integer_def)

lemma to_u32_bound: "to_u32 x = Inr n \<Longrightarrow> n < 2 ^ 32"
  by (auto simp: to_u32_def to_integer_def rbind_eq_Inr split: double.splits if_splits)

lemma to_u64_bound: "to_u64 x = Inr n \<Longrightarrow> n < 2 ^ 64"
  by (auto simp: to_u64_def to_integer_def rbind_eq_Inr split: double.splits if_splits)

lemma dlt_irrefl [simp]: "\<not> dlt x x"
  by (cases x) auto

lemma dlt_trans: "dlt x y \<Longrightarrow> dlt y z \<Longrightarrow> dlt x z"
  by (cases x; cases y; cases z) auto

lemma not_dlt: "x \<noteq> NaN \<Longrightarrow> y \<noteq> NaN \<Longrightarrow> \<not> dlt x y \<longleftrightarrow> dle y x"
  by (cases x; cases y) (auto simp: dle_def)

lemma dle_antisym: "dle x y \<Longrightarrow> dlt y x \<Longrightarrow> False"
  by (cases x; cases y) (auto simp: dle_def)

end
