(* ===== verification/DW_Strings.thy ===== *)
theory DW_Strings
  imports DW_Float
begin

text \<open>
  The functions of the C library that the parsers of the program use, on strings without the terminating NUL, in the "C"
  locale: \<^verbatim>\<open>strsep\<close>, \<^verbatim>\<open>strtol\<close>, \<^verbatim>\<open>strtod\<close> and the conversions \<^verbatim>\<open>%d\<close> and \<^verbatim>\<open>%lf\<close> of \<^verbatim>\<open>sscanf\<close> as glibc implements them.
\<close>

section \<open>Tokens\<close>

fun strsep :: "string \<Rightarrow> string \<Rightarrow> string \<times> string option" where
  "strsep delim [] = ([], None)"
| "strsep delim (c # cs) =
     (if c \<in> set delim then ([], Some cs)
      else let (tok, rest) = strsep delim cs in (c # tok, rest))"

text \<open>All the tokens that repeated calls of \<^verbatim>\<open>strsep\<close> return.\<close>

fun split_at :: "string \<Rightarrow> string \<Rightarrow> string list" where
  "split_at delim [] = [[]]"
| "split_at delim (c # cs) =
     (if c \<in> set delim then [] # split_at delim cs
      else case split_at delim cs of [] \<Rightarrow> [[c]] | t # ts \<Rightarrow> (c # t) # ts)"

lemma split_at_strsep:
  "split_at delim s = (case strsep delim s of (tok, None) \<Rightarrow> [tok] | (tok, Some rest) \<Rightarrow> tok # split_at delim rest)"
  by (induction delim s rule: strsep.induct) (auto split: prod.splits option.splits)

lemma split_at_append:
  "set t \<inter> set delim = {} \<Longrightarrow> c \<in> set delim \<Longrightarrow> split_at delim (t @ c # s) = t # split_at delim s"
  by (induction t) (auto split: list.splits)

lemma split_at_last: "set t \<inter> set delim = {} \<Longrightarrow> split_at delim t = [t]"
  by (induction t) auto

definition prefixed :: "string \<Rightarrow> string \<Rightarrow> string option" where
  "prefixed p s = (if take (length p) s = p then Some (drop (length p) s) else None)"

section \<open>Numbers\<close>

definition isspace :: "char \<Rightarrow> bool" where
  "isspace c \<longleftrightarrow> of_char c = (32 :: nat) \<or> 9 \<le> (of_char c :: nat) \<and> of_char c \<le> (13 :: nat)"

definition digit :: "char \<Rightarrow> nat option" where
  "digit c = (let n = of_char c :: nat in if 48 \<le> n \<and> n \<le> 57 then Some (n - 48) else None)"

definition hexdigit :: "char \<Rightarrow> nat option" where
  "hexdigit c = (let n = of_char c :: nat in
     if 48 \<le> n \<and> n \<le> 57 then Some (n - 48)
     else if 97 \<le> n \<and> n \<le> 102 then Some (n - 87)
     else if 65 \<le> n \<and> n \<le> 70 then Some (n - 55) else None)"

definition tolower :: "char \<Rightarrow> char" where
  "tolower c = (let n = of_char c :: nat in if 65 \<le> n \<and> n \<le> 90 then char_of (n + 32) else c)"

text \<open>The longest run of digits: its value on top of \<open>acc\<close>, its length and the rest of the string.\<close>

fun digits :: "(char \<Rightarrow> nat option) \<Rightarrow> nat \<Rightarrow> nat \<Rightarrow> nat \<Rightarrow> string \<Rightarrow> nat \<times> nat \<times> string" where
  "digits dg base acc len [] = (acc, len, [])"
| "digits dg base acc len (c # cs) =
     (case dg c of None \<Rightarrow> (acc, len, c # cs) | Some d \<Rightarrow> digits dg base (base * acc + d) (Suc len) cs)"

definition sign :: "string \<Rightarrow> bool \<times> string" where
  "sign s = (case s of
     [] \<Rightarrow> (False, [])
   | c # cs \<Rightarrow> if c = CHR ''-'' then (True, cs) else if c = CHR ''+'' then (False, cs) else (False, s))"

definition signed :: "bool \<Rightarrow> nat \<Rightarrow> int" where
  "signed neg n = (if neg then - int n else int n)"

text \<open>
  \<^verbatim>\<open>strtol\<close> in base 10: the value, saturated to the range of \<^verbatim>\<open>long\<close>, and the rest of the string; \<open>None\<close> when there are no
  digits. The conversion \<^verbatim>\<open>%d\<close> stores the value as an \<^verbatim>\<open>int\<close>.
\<close>

definition strtol :: "string \<Rightarrow> (int \<times> string) option" where
  "strtol s =
     (let (neg, s1) = sign (dropWhile isspace s);
          (n, len, rest) = digits digit 10 0 0 s1
      in if len = 0 then None
         else Some (max (- (2 ^ 63)) (min (2 ^ 63 - 1) (signed neg n)), rest))"

definition scan_d :: "string \<Rightarrow> (int \<times> string) option" where
  "scan_d s = map_option (\<lambda>(v, rest). (i32 v, rest)) (strtol s)"

text \<open>\<^verbatim>\<open>atol\<close> and \<^verbatim>\<open>atoi\<close>, which are 0 when there is no number.\<close>

definition atol :: "string \<Rightarrow> int" where
  "atol s = (case strtol s of None \<Rightarrow> 0 | Some (v, rest) \<Rightarrow> v)"

definition atoi :: "string \<Rightarrow> int" where
  "atoi s = i32 (atol s)"

text \<open>The optional exponent of a number, introduced by one of the given letters.\<close>

definition scan_exponent :: "string \<Rightarrow> string \<Rightarrow> int" where
  "scan_exponent letters s = (case s of
     [] \<Rightarrow> 0
   | c # cs \<Rightarrow>
       if c \<in> set letters
       then (let (neg, s1) = sign cs; (n, len, rest) = digits digit 10 0 0 s1 in signed neg n)
       else 0)"

text \<open>
  A number with an optional fraction: the digits of both parts as one number, how many of them are after the point, how
  many there are, and the rest.
\<close>

definition scan_fraction :: "(char \<Rightarrow> nat option) \<Rightarrow> nat \<Rightarrow> string \<Rightarrow> nat \<times> nat \<times> nat \<times> string" where
  "scan_fraction dg base s =
     (let (n, len, rest) = digits dg base 0 0 s in
      case rest of
        c # cs \<Rightarrow>
          if c = CHR ''.''
          then (let (n', len', rest') = digits dg base n 0 cs in (n', len', len + len', rest'))
          else (n, 0, len, rest)
      | [] \<Rightarrow> (n, 0, len, []))"

definition scale_rat :: "nat \<Rightarrow> int \<Rightarrow> rat" where
  "scale_rat b e = (if 0 \<le> e then of_nat b ^ nat e else 1 / of_nat b ^ nat (- e))"

definition sgn_double :: "bool \<Rightarrow> double \<Rightarrow> double" where
  "sgn_double neg x = (if neg then dneg x else x)"

text \<open>The value that \<^verbatim>\<open>%lf\<close> stores; \<open>None\<close> when no conversion takes place.\<close>

definition scan_lf :: "string \<Rightarrow> double option" where
  "scan_lf s =
     (let (neg, s1) = sign (dropWhile isspace s); low = map tolower s1 in
      case prefixed ''nan'' low of
        Some _ \<Rightarrow> Some NaN
      | None \<Rightarrow> (case prefixed ''inf'' low of
          Some r \<Rightarrow>
            if r \<noteq> [] \<and> hd r = CHR ''i'' \<and> prefixed ''inity'' r = None then None else Some (Inf neg)
        | None \<Rightarrow> (case prefixed ''0x'' low of
            Some r \<Rightarrow>
              (let (n, frac, len, rest) = scan_fraction hexdigit 16 r in
               if len = 0 then None
               else Some (sgn_double neg (rnd (of_nat n * scale_rat 2 (scan_exponent ''p'' rest - 4 * int frac)))))
          | None \<Rightarrow>
              (let (n, frac, len, rest) = scan_fraction digit 10 low in
               if len = 0 then None
               else Some (sgn_double neg (rnd (of_nat n * scale_rat 10 (scan_exponent ''e'' rest - int frac))))))))"

definition atof :: "string \<Rightarrow> double" where
  "atof s = (case scan_lf s of None \<Rightarrow> Fin 0 | Some v \<Rightarrow> v)"

section \<open>Printing\<close>

text \<open>The decimal digits of a number, as \<^verbatim>\<open>printf("%d")\<close> writes them.\<close>

definition dec_char :: "nat \<Rightarrow> char" where
  "dec_char d = char_of (48 + d)"

fun show_nat :: "nat \<Rightarrow> string" where
  "show_nat n = (if n < 10 then [dec_char n] else show_nat (n div 10) @ [dec_char (n mod 10)])"

declare show_nat.simps [simp del]

definition show_int :: "int \<Rightarrow> string" where
  "show_int i = (if i < 0 then CHR ''-'' # show_nat (nat (- i)) else show_nat (nat i))"

lemma digit_dec_char [simp]: "d < 10 \<Longrightarrow> digit (dec_char d) = Some d"
  by (simp add: digit_def dec_char_def Let_def)

lemma digits_append:
  "list_all (\<lambda>c. digit c \<noteq> None) s \<Longrightarrow>
   digits digit 10 acc len (s @ t) = (let (a, l, r) = digits digit 10 acc len s in digits digit 10 a l t)"
  by (induction s arbitrary: acc len) (auto split: option.splits)

lemma show_nat_digits: "list_all (\<lambda>c. digit c \<noteq> None) (show_nat n)"
  by (induction n rule: show_nat.induct) (subst show_nat.simps, auto)

lemma digits_show_nat: "digits digit 10 0 0 (show_nat n) = (n, length (show_nat n), [])"
proof (induction n rule: show_nat.induct)
  case (1 n)
  show ?case
  proof (cases "n < 10")
    case True
    then show ?thesis by (simp add: show_nat.simps [of n])
  next
    case False
    then show ?thesis
      using 1 show_nat_digits [of "n div 10"] by (simp add: show_nat.simps [of n] digits_append)
  qed
qed

lemma digits_show_nat_rest:
  assumes "s = [] \<or> digit (hd s) = None"
  shows "digits digit 10 0 0 (show_nat n @ s) = (n, length (show_nat n), s)"
  using assms by (cases s) (auto simp: digits_append [OF show_nat_digits] digits_show_nat split: option.splits)

lemma show_nat_hd: "show_nat n \<noteq> [] \<and> digit (hd (show_nat n)) \<noteq> None"
  using show_nat_digits [of n] by (cases "show_nat n") (auto simp: show_nat.simps [of n] split: if_splits)

lemma digit_char_facts:
  assumes "digit c \<noteq> None"
  shows "\<not> isspace c" "tolower c = c" "c \<noteq> CHR ''-''" "c \<noteq> CHR ''+''" "c \<noteq> CHR ''n''" "c \<noteq> CHR ''i''" "c \<noteq> CHR ''x''"
    "c \<noteq> CHR ''.''"
  using assms by (auto simp: digit_def isspace_def tolower_def Let_def split: if_splits)

lemma tolower_show_nat [simp]: "map tolower (show_nat n) = show_nat n"
  using show_nat_digits [of n] by (intro map_idI) (auto simp: list_all_iff digit_char_facts)

text \<open>Reading a printed number gives the number, whatever follows that cannot be a part of it.\<close>

lemma scan_lf_show_nat:
  assumes "u = [] \<or> digit (hd u) = None \<and> tolower (hd u) \<notin> {CHR ''.'', CHR ''e'', CHR ''x''} \<and> digit (tolower (hd u)) = None"
  shows "scan_lf (show_nat n @ u) = Some (rnd (of_nat n))"
proof -
  obtain c s where c: "show_nat n = c # s" "digit c \<noteq> None" using show_nat_hd [of n] by (cases "show_nat n") auto
  note f = digit_char_facts [OF c(2)]
  have sg: "sign (dropWhile isspace (show_nat n @ u)) = (False, show_nat n @ u)"
    using f by (simp add: c(1) sign_def)
  have x: "prefixed ''0x'' (show_nat n @ map tolower u) = None"
  proof (cases s)
    case Nil
    then show ?thesis using assms(1) by (cases u) (auto simp: c(1) prefixed_def)
  next
    case (Cons d s')
    then have "digit d \<noteq> None" using show_nat_digits [of n] by (simp add: c(1))
    then show ?thesis using digit_char_facts(7) [of d] by (auto simp: c(1) Cons prefixed_def)
  qed
  have "map tolower u = [] \<or> digit (hd (map tolower u)) = None" using assms by (cases u) auto
  from digits_show_nat_rest [OF this, of n]
  have fr: "scan_fraction digit 10 (show_nat n @ map tolower u) = (n, 0, length (show_nat n), map tolower u)"
    using assms(1) by (cases u) (auto simp: scan_fraction_def)
  have ex: "scan_exponent ''e'' (map tolower u) = 0" using assms(1) by (cases u) (auto simp: scan_exponent_def)
  have "prefixed ''nan'' (show_nat n @ map tolower u) = None" "prefixed ''inf'' (show_nat n @ map tolower u) = None"
    using f by (auto simp: c(1) prefixed_def)
  moreover have "show_nat n \<noteq> []" using c(1) by simp
  ultimately show ?thesis using x by (simp add: scan_lf_def sg fr ex scale_rat_def sgn_double_def)
qed

lemma scan_d_show_nat:
  assumes "n < 2 ^ 31" "s = [] \<or> digit (hd s) = None"
  shows "scan_d (show_nat n @ s) = Some (int n, s)"
proof -
  obtain c t where c: "show_nat n = c # t" "digit c \<noteq> None" using show_nat_hd [of n] by (cases "show_nat n") auto
  note f = digit_char_facts [OF c(2)]
  have "sign (dropWhile isspace (show_nat n @ s)) = (False, show_nat n @ s)" using f by (simp add: c(1) sign_def)
  moreover have "i32 (int n) = int n" using assms(1) by (intro i32_id) auto
  ultimately show ?thesis using digits_show_nat_rest [OF assms(2), of n] assms(1) show_nat_hd [of n]
    by (simp add: scan_d_def strtol_def signed_def min_def max_def)
qed

end
