(* ===== verification/DW_Address.thy ===== *)
theory DW_Address
  imports DW_Strings DW_Message
begin

text \<open>
  Addresses on the command line (\<^verbatim>\<open>src/address_utils.c\<close>). The name resolution \<^verbatim>\<open>gethostbyname\<close> is a parameter: it gives an IPv4 address in
  network byte order, or nothing.
\<close>

section \<open>Definitions\<close>

definition DEFAULT_ADDR :: string where "DEFAULT_ADDR = ''127.0.0.1''"
definition DEFAULT_PORT :: int where "DEFAULT_PORT = 7891"
definition MAX_HOSTPORT_STRLEN :: nat where "MAX_HOSTPORT_STRLEN = 64"

definition htons :: "nat \<Rightarrow> nat" where
  "htons p = p mod 256 * 256 + p div 256 mod 256"

text \<open>The part before the first \<^verbatim>\<open>':'\<close> and, if there is one, the part after it.\<close>

definition split_port :: "string \<Rightarrow> string \<times> string option" where
  "split_port s = (let h = takeWhile (\<lambda>c. c \<noteq> CHR '':'') s in
     (h, if length h = length s then None else Some (drop (Suc (length h)) s)))"

text \<open>\<^verbatim>\<open>strtol\<close> leaves the end pointer at the start when there is no number; the result is then 0.\<close>

definition parse_port :: "string \<Rightarrow> int res" where
  "parse_port s = (case strtol s of
     None \<Rightarrow> if s = [] then Inr 0 else Inl Exit_Failure
   | Some (v, rest) \<Rightarrow> if rest = [] then Inr (i32 v) else Inl Exit_Failure)"

definition addr_parse :: "(string \<Rightarrow> nat option) \<Rightarrow> string \<Rightarrow> sockaddr_in res" where
  "addr_parse resolve hostport_str =
     (if hostport_str = [] then Inl Exit_Failure
      else let (host, port_str) = split_port hostport_str in
        rbind (case port_str of None \<Rightarrow> Inr DEFAULT_PORT | Some ps \<Rightarrow> parse_port ps) (\<lambda>port.
          case resolve (if host = [] then DEFAULT_ADDR else host) of
            None \<Rightarrow> Inl Exit_Failure
          | Some a \<Rightarrow> Inr \<lparr>sin_addr = a, sin_port = htons (nat (port mod 2 ^ 16))\<rparr>))"

fun contains :: "string \<Rightarrow> string \<Rightarrow> bool" where
  "contains sub [] \<longleftrightarrow> sub = []"
| "contains sub (c # cs) \<longleftrightarrow> take (length sub) (c # cs) = sub \<or> contains sub cs"

definition strtok :: "string \<Rightarrow> string \<Rightarrow> (string \<times> string) option" where
  "strtok delim s = (let t = dropWhile (\<lambda>c. c \<in> set delim) s in
     if t = [] then None
     else let tok = takeWhile (\<lambda>c. c \<notin> set delim) t in Some (tok, drop (Suc (length tok)) t))"

definition proto_prefix :: "(string \<times> proto_t) list \<Rightarrow> string \<Rightarrow> (proto_t \<times> string) option" where
  "proto_prefix tab s = map_option (\<lambda>(p, pr). (pr, drop (length p) s)) (List.find (\<lambda>(p, pr). take (length p) s = p) tab)"

definition short_names :: "(string \<times> proto_t) list" where
  "short_names = [(''udp'', UDP), (''tcp'', TCP), (''ssl'', TLS), (''dpdk'', DPDK)]"

definition url_names :: "(string \<times> proto_t) list" where
  "url_names = [(''udp:'', UDP), (''tcp:'', TCP), (''ssl:'', TLS), (''dpdk:'', DPDK)]"

text \<open>The results are the new contents of \<^verbatim>\<open>nodehostport\<close> and of \<^verbatim>\<open>proto\<close>, which stay as they are when the argument does not give them.\<close>

definition addr_proto_parse :: "string \<Rightarrow> string \<Rightarrow> proto_t \<Rightarrow> (string \<times> proto_t) res" where
  "addr_proto_parse arg nodehostport pr0 =
     (if \<not> length arg < MAX_HOSTPORT_STRLEN then Inl Assert_Failed
      else if contains ''::'' arg then Inl Exit_Failure
      else if \<not> contains ''://'' arg then
        (let (pr, rest) = (case proto_prefix short_names arg of
               None \<Rightarrow> (pr0, arg)
             | Some (pr, r) \<Rightarrow> (pr, if r \<noteq> [] \<and> hd r = CHR '':'' then tl r else r))
         in Inr (if rest = [] then nodehostport else rest, pr))
      else
        (case strtok ''/'' arg of
           None \<Rightarrow> Inl Exit_Failure
         | Some (tok, reserve) \<Rightarrow>
             (case proto_prefix url_names tok of
                None \<Rightarrow> Inr (tok, pr0)
              | Some (pr, r) \<Rightarrow>
                  if r \<noteq> [] then Inl Exit_Failure
                  else Inr (case strtok ''/'' reserve of None \<Rightarrow> nodehostport | Some (host, _) \<Rightarrow> host, pr))))"

section \<open>Properties\<close>

lemma htons_htons: "p < 2 ^ 16 \<Longrightarrow> htons (htons p) = p"
proof -
  assume "p < 2 ^ 16"
  then have q: "p div 256 < 256" by auto
  have "p mod 256 * 256 + p div 256 mod 256 = p mod 256 * 256 + p div 256" using q by simp
  then have "htons p = p mod 256 * 256 + p div 256" by (simp add: htons_def)
  moreover have "(p mod 256 * 256 + p div 256) mod 256 = p div 256" using q by simp
  moreover have "(p mod 256 * 256 + p div 256) div 256 = p mod 256" using q by simp
  ultimately have "htons (htons p) = p div 256 * 256 + p mod 256 mod 256" unfolding htons_def [of "htons p"] by simp
  then show ?thesis by simp
qed

lemma strtol_show_nat: "n < 2 ^ 31 \<Longrightarrow> strtol (show_nat n) = Some (int n, [])"
proof -
  assume n: "n < 2 ^ 31"
  obtain c t where c: "show_nat n = c # t" "digit c \<noteq> None" using show_nat_hd [of n] by (cases "show_nat n") auto
  note f = digit_char_facts [OF c(2)]
  have "sign (dropWhile isspace (show_nat n)) = (False, show_nat n)" using f by (simp add: c(1) sign_def)
  then show ?thesis using digits_show_nat [of n] n show_nat_hd [of n] by (simp add: strtol_def signed_def min_def max_def)
qed

lemma split_port_host: "CHR '':'' \<notin> set h \<Longrightarrow> split_port h = (h, None)"
  "CHR '':'' \<notin> set h \<Longrightarrow> split_port (h @ CHR '':'' # r) = (h, Some r)"
proof -
  assume h: "CHR '':'' \<notin> set h"
  have "takeWhile (\<lambda>c. c \<noteq> CHR '':'') h = h" using h by (auto simp: takeWhile_eq_all_conv)
  note 1 = this
  show "split_port h = (h, None)" by (simp add: split_port_def Let_def 1 del: takeWhile_eq_all_conv)
  have 2: "takeWhile (\<lambda>c. c \<noteq> CHR '':'') (h @ CHR '':'' # r) = h" using h by (subst takeWhile_append2) auto
  show "split_port (h @ CHR '':'' # r) = (h, Some r)" unfolding split_port_def Let_def 2 by simp
qed

text \<open>An address \<open>host\<close>, \<open>host:port\<close> or \<open>:port\<close> is parsed into the resolved host and the port in network byte order, with the documented default
  for the part that is missing; a host that cannot be resolved ends the program.
\<close>

theorem addr_parse_hostport:
  assumes "CHR '':'' \<notin> set h" "h \<noteq> [] \<or> po \<noteq> None" "\<forall>p. po = Some p \<longrightarrow> p < 2 ^ 16"
  shows "addr_parse resolve (h @ (case po of None \<Rightarrow> [] | Some p \<Rightarrow> CHR '':'' # show_nat p)) =
    (case resolve (if h = [] then DEFAULT_ADDR else h) of
       None \<Rightarrow> Inl Exit_Failure
     | Some a \<Rightarrow> Inr \<lparr>sin_addr = a, sin_port = htons (case po of None \<Rightarrow> 7891 | Some p \<Rightarrow> p)\<rparr>)"
proof (cases po)
  case None
  then show ?thesis using assms split_port_host(1) [of h] by (simp add: addr_parse_def DEFAULT_PORT_def split: option.splits)
next
  case (Some p)
  have "i32 (int p) = int p" using assms(3) Some by (intro i32_id) auto
  then have "parse_port (show_nat p) = Inr (int p)" using strtol_show_nat [of p] assms(3) Some by (simp add: parse_port_def)
  moreover have "nat (int p mod 65536) = p" using assms(3) Some by auto
  ultimately show ?thesis
    using Some split_port_host(2) [OF assms(1), of "show_nat p"] by (auto simp: addr_parse_def split: option.splits)
qed

text \<open>A port is not checked against 65535: what is above wraps around.\<close>

lemma port_wraps: "parse_port (show_nat 65616) = Inr 65616 \<and> nat (65616 mod 2 ^ 16) = 80"
  using strtol_show_nat [of 65616] i32_id [of 65616] by (simp add: parse_port_def)

lemma strtok_plain: "s \<noteq> [] \<Longrightarrow> CHR ''/'' \<notin> set s \<Longrightarrow> strtok ''/'' s = Some (s, [])"
  "s \<noteq> [] \<Longrightarrow> CHR ''/'' \<notin> set s \<Longrightarrow> strtok ''/'' (s @ CHR ''/'' # r) = Some (s, r)"
  "strtok ''/'' (CHR ''/'' # s) = strtok ''/'' s"
proof -
  assume s: "s \<noteq> []" "CHR ''/'' \<notin> set s"
  have d: "dropWhile (\<lambda>c. c \<in> set ''/'') (s @ r) = s @ r" for r using s by (cases s) auto
  have t: "takeWhile (\<lambda>c. c \<notin> set ''/'') s = s" "takeWhile (\<lambda>c. c \<notin> set ''/'') (s @ CHR ''/'' # r) = s"
    using s by (auto simp: takeWhile_eq_all_conv) (subst takeWhile_append2; auto)
  show "strtok ''/'' s = Some (s, [])" using s(1) d [of "[]"] unfolding strtok_def Let_def append_Nil2 by (simp only: t) simp
  show "strtok ''/'' (s @ CHR ''/'' # r) = Some (s, r)" unfolding strtok_def Let_def d t by simp
qed (simp add: strtok_def)

text \<open>A target \<open>proto://host\<close> sets the protocol and the host part, for each of the four protocols.
\<close>

theorem addr_proto_parse_url:
  assumes "(p, pr) \<in> set short_names" "host \<noteq> []" "CHR ''/'' \<notin> set host" "\<not> contains ''::'' host"
    "length p + 3 + length host < MAX_HOSTPORT_STRLEN"
  shows "addr_proto_parse (p @ ''://'' @ host) old pr0 = Inr (host, pr)"
proof -
  have s: "strtok ''/'' (CHR ''/'' # host) = Some (host, [])" using strtok_plain(1) [OF assms(2,3)] by (simp add: strtok_plain(3))
  have c: "contains ''://'' (p @ ''://'' @ host)" "contains ''::'' (p @ ''://'' @ host) = contains ''::'' host"
    using assms(1) by (auto simp: short_names_def)
  have "strtok ''/'' ((p @ '':'') @ CHR ''/'' # CHR ''/'' # host) = Some (p @ '':'', CHR ''/'' # host)"
    using assms(1) by (intro strtok_plain(2)) (auto simp: short_names_def)
  moreover have "proto_prefix url_names (p @ '':'') = Some (pr, [])"
    using assms(1) by (auto simp: short_names_def proto_prefix_def url_names_def)
  ultimately show ?thesis using s c assms(4,5) by (simp add: addr_proto_parse_def)
qed

section \<open>Concrete inputs\<close>

theorem addr_parse_hostport_witness:
  "addr_parse (\<lambda>h. if h = ''127.0.0.1'' then Some 16777343 else None) ('':'' @ show_nat 80) = Inr \<lparr>sin_addr = 16777343, sin_port = 20480\<rparr>"
  using addr_parse_hostport [of "[]" "Some 80" "\<lambda>h. if h = ''127.0.0.1'' then Some 16777343 else None"]
  by (simp add: DEFAULT_ADDR_def htons_def)

theorem addr_proto_parse_url_witness:
  "addr_proto_parse (''ssl'' @ ''://'' @ ''node1:7000'') ''old'' TCP = Inr (''node1:7000'', TLS)"
  using addr_proto_parse_url [of "''ssl''" TLS "''node1:7000''" "''old''" TCP]
  by (simp add: short_names_def MAX_HOSTPORT_STRLEN_def)

end
