(* ===== verification/DW_Log.thy ===== *)
theory DW_Log
  imports DW_Address
begin

text \<open>
  The printed form of messages (\<^verbatim>\<open>cmd_log\<close> and \<^verbatim>\<open>msg_log\<close> in \<^verbatim>\<open>src/message.c\<close>). A node prints the commands that follow an acknowledged branch
  of a forward in every build, and a command that has no printed form ends the program there.
\<close>

section \<open>Definitions\<close>

text \<open>\<^verbatim>\<open>inet_ntoa\<close> on an address in network byte order, and the two conversions of unsigned fields that are printed with \<^verbatim>\<open>%d\<close> and \<^verbatim>\<open>%ld\<close>.\<close>

definition inet_ntoa :: "nat \<Rightarrow> string" where
  "inet_ntoa a = show_nat (a mod 256) @ ''.'' @ show_nat (a div 2 ^ 8 mod 256) @ ''.'' @ show_nat (a div 2 ^ 16 mod 256) @ ''.'' @
     show_nat (a div 2 ^ 24 mod 256)"

definition fmt_d :: "nat \<Rightarrow> string" where
  "fmt_d n = show_int (signed_take_bit 31 (int n))"

definition fmt_ld :: "nat \<Rightarrow> string" where
  "fmt_ld n = show_int (signed_take_bit 63 (int n))"

text \<open>The address of a forward, and the text of the options of a command.\<close>

definition fwd_url :: "fwd_opts_t \<Rightarrow> string" where
  "fwd_url f = (if proto f = 1 then ''tcp'' else ''udp'') @ ''://'' @ inet_ntoa (fwd_host f) @ '':'' @ show_nat (htons (fwd_port f))"

definition opts_text :: "bytes \<Rightarrow> nat \<Rightarrow> command_type_t \<Rightarrow> string res" where
  "opts_text b c t = (case t of
     STORE \<Rightarrow> rbind (get_store_opts b c) (\<lambda>s.
       Inr (fmt_ld (store_nbytes s) @ ''b,'' @ (if wait_sync s \<noteq> 0 then ''sync'' else ''nosync'') @ '',offset='' @ fmt_ld (s_offset s)))
   | COMPUTE \<Rightarrow> rbind (get_comp_opts b c) (\<lambda>x. Inr (fmt_d (comp_time_us x) @ ''us''))
   | LOAD \<Rightarrow> rbind (get_load_opts b c) (\<lambda>l. Inr (fmt_ld (load_nbytes l) @ ''b,offset='' @ fmt_ld (l_offset l)))
   | FORWARD_BEGIN \<Rightarrow> rbind (get_fwd_opts b c) (\<lambda>f.
       Inr (fwd_url f @ '','' @ show_nat (pkt_size f) @ '',retries='' @ fmt_d (retries f) @ '',timeout='' @ fmt_d (timeout f) @
         '',branched='' @ fmt_d (branched f) @ '',nack='' @ fmt_d (n_ack f)))
   | FORWARD_CONTINUE \<Rightarrow> rbind (get_fwd_opts b c) (\<lambda>f. Inr (fwd_url f @ '','' @ show_nat (pkt_size f)))
   | REPLY \<Rightarrow> rbind (get_reply_opts b c) (\<lambda>r. Inr (fmt_d (resp_size r) @ ''b''))
   | _ \<Rightarrow> Inl Exit_Failure)"

text \<open>The loop: the text, and the command at which it stops.\<close>

function log_loop :: "bytes \<Rightarrow> nat option \<Rightarrow> nat \<Rightarrow> (string \<times> nat option) res" where
  "log_loop b None msg_end = Inr ([], None)"
| "log_loop b (Some c) msg_end =
     rbind (cmd_in_bounds b c msg_end) (\<lambda>ok.
       if \<not> ok then Inr ([], Some c)
       else rbind (get_cmd b c) (\<lambda>t.
         if t = EOM then Inr ([], Some c)
         else rbind (opts_text b c t) (\<lambda>opts. rbind (cmd_bounded_next b c msg_end) (\<lambda>nx.
           rbind (get_command_name t) (\<lambda>name. rbind (log_loop b nx msg_end) (\<lambda>(rest, stop).
             Inr (name @ ''('' @ opts @ '')->'' @ rest, stop)))))))"
  by pat_completeness auto
termination
proof (relation "measure (\<lambda>(b, c, e). case c of None \<Rightarrow> 0 | Some p \<Rightarrow> Suc (e - p))", goal_cases)
  case 1
  then show ?case by simp
next
  case (2 b c e ok t opts nx name)
  then show ?case using cmd_type_size_ge [of t]
    by (cases nx) (auto simp: cmd_bounded_next_Some cmd_in_bounds_True)
qed

declare log_loop.simps [simp del]

text \<open>
  \<^verbatim>\<open>cmd_log\<close>: the text before the number of bytes, and that number; \<open>None\<close> where the code subtracts a pointer from a null pointer.
\<close>

definition cmd_log :: "bytes \<Rightarrow> nat option \<Rightarrow> nat \<Rightarrow> (string \<times> nat option) res" where
  "cmd_log b cmd msg_end =
     rbind (log_loop b cmd msg_end) (\<lambda>(text, stop).
       Inr (text @ ''EOM'', case cmd of None \<Rightarrow> Some 0 | Some p \<Rightarrow> map_option (\<lambda>q. q - p) stop))"

text \<open>\<^verbatim>\<open>msg_log\<close>; the name of the status is read from a table with three entries.\<close>

definition status_name :: "nat \<Rightarrow> string res" where
  "status_name st = (if st < 3 then Inr (msg_status_str ([SUCCESS, TIMEOUT, ERR] ! st)) else Inl Out_Of_Bounds)"

definition msg_log :: "bytes \<Rightarrow> nat \<Rightarrow> string \<Rightarrow> (string \<times> nat option) res" where
  "msg_log b m padding =
     rbind (get_req_id b m) (\<lambda>rid. rbind (get_req_size b m) (\<lambda>sz. rbind (msg_num_cmd b m) (\<lambda>num.
     rbind (get_status b m) (\<lambda>st. rbind (status_name st) (\<lambda>name.
     rbind (cmd_log b (Some (message_first_cmd m)) (m + sz)) (\<lambda>(text, n).
       Inr (padding @ ''message (req_id: '' @ show_nat rid @ '', req_size: '' @ show_nat sz @ '', num: '' @ show_nat num @
         '', status: '' @ name @ ''): '' @ text, n)))))))"

section \<open>Bounds\<close>

text \<open>Only a command without a printed form ends the program, and no byte after the end of the message is read.\<close>

fun printable :: "command_type_t \<Rightarrow> bool" where
  "printable PSKIP = False"
| "printable EOM = False"
| "printable (CMD_OTHER n) = False"
| "printable _ = True"

lemma opts_text_ok:
  assumes "c + cmd_type_size t \<le> length b"
  shows "if printable t then \<exists>s. opts_text b c t = Inr s else opts_text b c t = Inl Exit_Failure"
  using assms
  by (cases t) (simp_all add: opts_text_def get_store_opts_def get_comp_opts_def get_load_opts_def get_fwd_opts_def get_reply_opts_def
      sizeof_defs Let_def rd_ok)

lemma command_name_ok: "printable t \<Longrightarrow> \<exists>s. get_command_name t = Inr s"
  by (cases t) simp_all

lemma log_loop_total:
  assumes "e \<le> length b"
  shows "case log_loop b c e of
      Inl x \<Rightarrow> x = Exit_Failure \<and> (\<exists>p t. cmd_in_bounds b p e = Inr True \<and> get_cmd b p = Inr t \<and> t \<noteq> EOM \<and> \<not> printable t)
    | Inr (text, stop) \<Rightarrow> True"
  using assms
proof (induction b c e rule: log_loop.induct)
  case (1 b e)
  then show ?case by (simp add: log_loop.simps)
next
  case (2 b c e)
  obtain ok where ok: "cmd_in_bounds b c e = Inr ok" using cmd_in_bounds_total [OF 2(2)] by blast
  show ?case
  proof (cases ok)
    case False
    then show ?thesis using ok by (simp add: log_loop.simps)
  next
    case True
    then obtain t where t: "get_cmd b c = Inr t" "c + cmd_type_size t \<le> e" using ok by (auto simp: cmd_in_bounds_True)
    obtain nx where nx: "cmd_bounded_next b c e = Inr nx"
      using cmd_bounded_next_total [OF 2(2), of c] ok True 2(2) by (auto simp: cmd_in_bounds_True)
    consider "t = EOM" | "t \<noteq> EOM" "\<not> printable t" | "printable t" by blast
    then show ?thesis
    proof cases
      case 1
      then show ?thesis using ok True t by (simp add: log_loop.simps)
    next
      case 2
      then show ?thesis using ok True t opts_text_ok [of c t b] \<open>e \<le> length b\<close> by (auto simp: log_loop.simps(2))
    next
      case 3
      then obtain s name where s: "opts_text b c t = Inr s" "get_command_name t = Inr name"
        using opts_text_ok [of c t b] t(2) 2(2) command_name_ok [of t] by auto
      have "t \<noteq> EOM" using 3 by auto
      then have "log_loop b (Some c) e = rbind (log_loop b nx e) (\<lambda>(rest, stop). Inr (name @ ''('' @ s @ '')->'' @ rest, stop))"
        using ok True t(1) s nx by (simp add: log_loop.simps)
      then show ?thesis using 2(1) [OF ok _ t(1) \<open>t \<noteq> EOM\<close> s(1) nx s(2) 2(2)] True
        by (cases "log_loop b nx e") auto
    qed
  qed
qed

section \<open>The text\<close>

text \<open>The text of a sequence of commands in a message.\<close>

fun cmds_text :: "bytes \<Rightarrow> nat \<Rightarrow> command_type_t list \<Rightarrow> string res" where
  "cmds_text b p [] = Inr []"
| "cmds_text b p (t # ts) =
     rbind (get_command_name t) (\<lambda>name. rbind (opts_text b p t) (\<lambda>opts. rbind (cmds_text b (p + cmd_type_size t) ts) (\<lambda>rest.
       Inr (name @ ''('' @ opts @ '')->'' @ rest))))"

lemma log_loop_cmds:
  assumes "cmds_at b e p (ts @ [EOM])" "e \<le> length b" "list_all printable ts"
  shows "\<exists>text. cmds_text b p ts = Inr text \<and> log_loop b (Some p) e = Inr (text, Some (p + cmds_len ts))"
  using assms(1,3)
proof (induction ts arbitrary: p)
  case Nil
  then show ?case by (simp add: log_loop.simps)
next
  case (Cons t ts)
  let ?q = "p + cmd_type_size t"
  have t: "cmd_in_bounds b p e = Inr True" "get_cmd b p = Inr t" "?q \<le> e" "t \<noteq> EOM" and rest: "cmds_at b e ?q (ts @ [EOM])"
    using Cons.prems by (auto simp: cmd_in_bounds_True)
  obtain s name where s: "opts_text b p t = Inr s" "get_command_name t = Inr name"
    using opts_text_ok [of p t b] t(3) assms(2) command_name_ok [of t] Cons.prems(2) by auto
  have "cmd_in_bounds b ?q e = Inr True" using rest by (cases ts) auto
  then have nx: "cmd_bounded_next b p e = Inr (Some ?q)" using t(2) by (simp add: cmd_bounded_next_def)
  obtain tx where "cmds_text b ?q ts = Inr tx" "log_loop b (Some ?q) e = Inr (tx, Some (?q + cmds_len ts))"
    using Cons.IH [OF rest] Cons.prems(2) by auto
  then show ?case using t s nx by (simp add: log_loop.simps(2) add.assoc)
qed

text \<open>
  Printing a message is safe and complete. Whatever the bytes are, printing from any command of a message that lies inside of its
  buffer reads nothing outside of it and ends; it ends the program only at a command that has no printed form. On commands that all
  have one, it prints each with its options in their order and then the number of their bytes.
\<close>

theorem cmd_log_prints:
  assumes "e \<le> length b"
  shows "(cmd_log b c e = Inl x \<longrightarrow> x = Exit_Failure \<and>
      (\<exists>p t. cmd_in_bounds b p e = Inr True \<and> get_cmd b p = Inr t \<and> t \<noteq> EOM \<and> \<not> printable t)) \<and>
    (cmds_at b e p (ts @ [EOM]) \<and> list_all printable ts \<longrightarrow>
      (\<exists>text. cmds_text b p ts = Inr text \<and> cmd_log b (Some p) e = Inr (text @ ''EOM'', Some (cmds_len ts))))"
  using log_loop_total [OF assms, of c] log_loop_cmds [OF _ assms, of p ts]
  by (auto simp: cmd_log_def rbind_eq_Inl split: sum.splits prod.splits)

text \<open>A request to compute for 5 microseconds and to reply with 64 bytes.\<close>

definition log_sample :: bytes where
  "log_sample = enc_cmds [(COMPUTE, [5, 0, 0, 0]), (REPLY, [64, 0, 0, 0, 0, 0, 0, 0, 0, 0, 0, 0]), (EOM, [])]"

theorem cmd_log_prints_witness:
  "cmd_log log_sample (Some 0) 28 = Inr (''COMPUTE(5us)->REPLY(64b)->EOM'', Some 24)"
proof -
  have "cmds_at log_sample 28 0 ([COMPUTE, REPLY] @ [EOM])"
    using cmds_at_enc [of "[(COMPUTE, [5, 0, 0, 0]), (REPLY, [64, 0, 0, 0, 0, 0, 0, 0, 0, 0, 0, 0]), (EOM, [])]" "[]" 28 "[]"]
    by (simp add: log_sample_def enc_ok_def sizeof_defs)
  moreover have "cmds_text log_sample 0 [COMPUTE, REPLY] = Inr ''COMPUTE(5us)->REPLY(64b)->''" by code_simp
  moreover have "28 \<le> length log_sample" by (simp add: log_sample_def)
  ultimately show ?thesis using cmd_log_prints [of 28 log_sample None undefined 0 "[COMPUTE, REPLY]"] by (simp add: sizeof_defs)
qed

text \<open>A command that has no printed form ends the program.\<close>

lemma cmd_log_unknown:
  assumes "cmd_in_bounds b p e = Inr True" "get_cmd b p = Inr t" "t \<noteq> EOM" "\<not> printable t" "e \<le> length b"
  shows "cmd_log b (Some p) e = Inl Exit_Failure"
proof -
  have "p + cmd_type_size t \<le> length b" using assms(1,2,5) by (auto simp: cmd_in_bounds_True)
  then have "opts_text b p t = Inl Exit_Failure" using opts_text_ok [of p t b] assms(4) by simp
  then show ?thesis using assms(1-3) by (simp add: cmd_log_def log_loop.simps(2))
qed

end
