(* ===== verification/DW_Forward.thy ===== *)
theory DW_Forward
  imports DW_Act DW_Log
begin

text \<open>
  The forwards and the replies of a node (\<^verbatim>\<open>src/dw_node.c\<close>): \<^verbatim>\<open>find_forward_reply_id\<close>, \<^verbatim>\<open>single_start_forward\<close>,
  \<^verbatim>\<open>start_forward\<close> and \<^verbatim>\<open>reply\<close>, in the build without DPDK.
\<close>

unbundle bit_operations_syntax

section \<open>Forwards\<close>

text \<open>\<^verbatim>\<open>fwd_addr\<close> overlays \<^verbatim>\<open>fwd_host\<close> and \<^verbatim>\<open>fwd_port\<close>: the comparison of the six bytes is that of the two fields.\<close>

definition get_fwd_addr :: "bytes \<Rightarrow> nat \<Rightarrow> (nat \<times> nat) res" where
  "get_fwd_addr b cmd =
     rbind (rd 4 b (cmd + sizeof_command_t + 4)) (\<lambda>h. rbind (rd 2 b (cmd + sizeof_command_t + 8)) (\<lambda>p. Inr (h, p)))"


lemma next_forward_loop_le:
  "next_forward_loop b c br e = Inr (Some p) \<Longrightarrow> \<exists>q. c = Some q \<and> q \<le> p"
proof (induction b c br e rule: next_forward_loop.induct)
  case (1 b br e)
  then show ?case by (simp add: next_forward_loop.simps)
next
  case (2 b cmd br e)
  obtain t where t: "get_cmd b cmd = Inr t"
    using "2.prems" by (subst (asm) next_forward_loop.simps) (auto simp: rbind_eq_Inr)
  show ?case
  proof (cases "t = EOM \<or> t = FORWARD_CONTINUE")
    case True
    then show ?thesis using "2.prems" t by (subst (asm) next_forward_loop.simps) auto
  next
    case no: False
    show ?thesis
    proof (cases "t = FORWARD_BEGIN")
      case True
      then obtain nx where nx: "cmd_bounded_skip b (Some cmd) 1 e = Inr nx" "next_forward_loop b nx br e = Inr (Some p)"
        using "2.prems" t no by (subst (asm) next_forward_loop.simps) (auto simp: rbind_eq_Inr)
      then show ?thesis using "2.IH"(1) [OF t no True nx] cmd_bounded_skip_less [of b cmd e _ t] t no by fastforce
    next
      case False
      then obtain q tn where q: "cmd_bounded_next b cmd e = Inr (Some q)" "get_cmd b q = Inr tn"
          "\<not> (t = REPLY \<and> (br = 0 \<or> tn \<noteq> FORWARD_CONTINUE))" "next_forward_loop b (Some q) br e = Inr (Some p)"
        using "2.prems" t no by (subst (asm) next_forward_loop.simps) (auto simp: rbind_eq_Inr split: option.splits if_splits)
      then show ?thesis using "2.IH"(2) [OF t no False q(1) refl q(2,3,4)] cmd_bounded_next_progress [OF q(1)] by auto
    qed
  qed
qed

lemma cmd_bounded_next_forward_less:
  assumes "cmd_bounded_next_forward b (Some c) e = Inr (Some p)"
  shows "c < p \<and> p < e"
proof -
  obtain nx br where nx: "cmd_bounded_next b c e = Inr nx" "next_forward_loop b nx br e = Inr (Some p)"
      "cmd_in_bounds b p e = Inr True"
    using assms by (auto simp: cmd_bounded_next_forward_def rbind_eq_Inr split: if_splits option.splits)
  then obtain q where "nx = Some q" "q \<le> p" using next_forward_loop_le by blast
  then show ?thesis using nx(1,3) cmd_bounded_next_progress [of b c e q] by (auto simp: cmd_in_bounds_True)
qed

function find_forward_reply_id :: "bytes \<Rightarrow> nat option \<Rightarrow> nat \<times> nat \<Rightarrow> nat \<Rightarrow> int \<Rightarrow> int res" where
  "find_forward_reply_id b None match_addr msg_end i = Inr (-1)"
| "find_forward_reply_id b (Some cmd) match_addr msg_end i =
     rbind (get_fwd_addr b cmd) (\<lambda>a.
       if a = match_addr then Inr i
       else rbind (cmd_bounded_next_forward b (Some cmd) msg_end) (\<lambda>nx.
         find_forward_reply_id b nx match_addr msg_end (i + 1)))"
  by pat_completeness auto
termination
proof (relation "measure (\<lambda>(b, cmd, a, e, i). case cmd of None \<Rightarrow> 0 | Some c \<Rightarrow> Suc (e - c))", goal_cases)
  case 1
  then show ?case by simp
next
  case (2 b cmd a e i x nx)
  then show ?case by (cases nx) (auto dest: cmd_bounded_next_forward_less)
qed

declare find_forward_reply_id.simps [simp del]

text \<open>The mask of the branches that have answered: \<^verbatim>\<open>mask & (1 << id)\<close> and \<^verbatim>\<open>mask |= (1 << id)\<close>. The shifted 1 is an \<^verbatim>\<open>int\<close>, so a shift by 31 is
  undefined as well.\<close>

definition mask_test :: "int \<Rightarrow> int \<Rightarrow> bool res" where
  "mask_test msk i = (if i < 0 \<or> 31 \<le> i then Inl Bad_Shift else Inr (bit msk (nat i)))"

definition mask_set :: "int \<Rightarrow> int \<Rightarrow> int res" where
  "mask_set msk i = (if i < 0 \<or> 31 \<le> i then Inl Bad_Shift else Inr (i32 (msk OR push_bit (nat i) 1)))"

text \<open>The creation of a connection for a forward; the result is its index, or \<open>None\<close> for the early \<^verbatim>\<open>return NULL\<close>.\<close>

definition setnonblocking :: "'k node_env \<Rightarrow> ('k, unit) act" where
  "setnonblocking e =
     nbind (call (sys_rv e)) (\<lambda>flags. nbind (check Assert_Failed (0 \<le> flags)) (\<lambda>_.
     nbind (sys_check (call (sys_rv e))) (\<lambda>_. ret ())))"

definition n_conn_alloc :: "'k node_env \<Rightarrow> int \<Rightarrow> sockaddr_in \<Rightarrow> proto_t \<Rightarrow> ('k, int) act" where
  "n_conn_alloc e sk tgt pr =
     nbind (call (callocs e)) (\<lambda>(rok, sok).
       on_tbl (\<lambda>s. Some (conn_alloc rok sok (this_thread e) sk tgt pr s)))"

definition n_set_status :: "nat \<Rightarrow> conn_status_t \<Rightarrow> ('k, conn_status_t) act" where
  "n_set_status c st = on_tbl (\<lambda>s. Some (Inr (conn_set_status_by_id c st s)))"

definition n_enable_ssl :: "'k node_env \<Rightarrow> int \<Rightarrow> bool \<Rightarrow> ('k, int) act" where
  "n_enable_ssl e c is_server =
     nbind (call (ssl_news e)) (\<lambda>(h, fd_ok). on_tbl (\<lambda>s. Some (Inr (conn_enable_ssl h fd_ok c is_server s))))"

definition n_conn_free :: "int \<Rightarrow> ('k, unit) act" where
  "n_conn_free c = on_tbl (\<lambda>s. map_option (\<lambda>s'. Inr ((), s')) (conn_free c s))"

definition DW_POLLIN :: u32 where "DW_POLLIN = set_bit POLLIN_BIT 0"
definition DW_POLLOUT :: u32 where "DW_POLLOUT = set_bit POLLOUT_BIT 0"
definition DW_POLLONESHOT :: u32 where "DW_POLLONESHOT = set_bit ONESHOT_BIT 0"

definition connect_forward :: "'k node_env \<Rightarrow> int \<Rightarrow> nat \<Rightarrow> proto_t \<Rightarrow> ('k, nat option) act" where
  "connect_forward e sk c pr =
     nbind (on_poll (dw_poll_add (ctl e) sk (DW_POLLOUT OR DW_POLLIN) (ev_aux CONNECT (int c)))) (\<lambda>rv.
     nbind (check Exit_Failure (rv = 0)) (\<lambda>_.
     nbind (if pr = TLS then n_enable_ssl e (int c) False else ret 0) (\<lambda>hs.
     if hs < 0 then nbind (emit (E_Close sk)) (\<lambda>_. nbind (n_conn_free (int c)) (\<lambda>_. ret None))
     else nbind (call (connects e)) (\<lambda>(rv, errno).
       if rv = -1 \<and> errno \<noteq> EAGAIN \<and> errno \<noteq> EINPROGRESS then ret None
       else if rv = -1 then
         nbind (n_set_status c (if pr = TLS then SSL_HANDSHAKE else CONNECTING)) (\<lambda>_. ret (Some c))
       else if pr = TLS then nbind (n_set_status c SSL_HANDSHAKE) (\<lambda>_. ret (Some c))
       else nbind (n_set_status c READY) (\<lambda>_.
            nbind (on_infos (\<lambda>w. w\<lparr>active_conns := active_conns w + 1\<rparr>)) (\<lambda>_. ret (Some c)))))))"

definition open_forward :: "'k node_env \<Rightarrow> sockaddr_in \<Rightarrow> proto_t \<Rightarrow> ('k, nat option) act" where
  "open_forward e addr pr =
     nbind (sys_check (call (sys_rv e))) (\<lambda>sk.
     nbind (if pr = TCP \<or> pr = TLS then sys_check (call (sys_rv e)) else ret 0) (\<lambda>_.
     nbind (setnonblocking e) (\<lambda>_.
     nbind (n_conn_alloc e sk addr pr) (\<lambda>c.
     if c = -1 then nbind (emit (E_Close sk)) (\<lambda>_. ret None)
     else nbind (on_conn (nat c) (\<lambda>x. Inr ((), x\<lparr>enable_defrag := g_enable_defrag e\<rparr>))) (\<lambda>_.
       if pr = TCP \<or> pr = TLS then connect_forward e sk (nat c) pr else ret (Some (nat c)))))))"

text \<open>The commands \<^verbatim>\<open>FORWARD_CONTINUE\<close> that follow a forward without branches of its own.\<close>

function skip_continue :: "bytes \<Rightarrow> nat option \<Rightarrow> nat \<Rightarrow> nat option res" where
  "skip_continue b None msg_end = Inr None"
| "skip_continue b (Some c) msg_end =
     rbind (get_cmd b c) (\<lambda>t.
       if t = FORWARD_CONTINUE
       then rbind (cmd_bounded_next b c msg_end) (\<lambda>nx. skip_continue b nx msg_end)
       else Inr (Some c))"
  by pat_completeness auto
termination
proof (relation "measure (\<lambda>(b, cmd, e). case cmd of None \<Rightarrow> 0 | Some c \<Rightarrow> Suc (e - c))", goal_cases)
  case 1
  then show ?case by simp
next
  case (2 b c e t nx)
  then show ?case using cmd_bounded_next_progress [of b c e] by (cases nx) auto
qed

declare skip_continue.simps [simp del]

text \<open>
  The message that is sent to the next hop: \<^verbatim>\<open>conn_prepare_send_message\<close>, the copy of the commands, and the header. The
  result says whether the commands fitted.
\<close>

definition build_forward :: "bytes \<Rightarrow> nat \<Rightarrow> nat option \<Rightarrow> int \<Rightarrow> nat \<Rightarrow> conn_info_t \<Rightarrow> (bool \<times> conn_info_t) res" where
  "build_forward b m c rid psz x =
     (if sock x = -1 then Inl Assert_Failed
      else rbind (conn_prepare_send_message x) (\<lambda>(m_dst, x1).
      rbind (the_buf (send_buf x1)) (\<lambda>d. rbind (get_req_size d m_dst) (\<lambda>avail.
      if avail < psz then Inl Assert_Failed
      else rbind (message_copy_tail b m d m_dst c) (\<lambda>(rep, d1). case rep of
          None \<Rightarrow> Inr (False, x1\<lparr>send_buf := Some d1\<rparr>)
        | Some _ \<Rightarrow> rbind (set_req_id d1 m_dst (nat (rid mod 2 ^ 32))) (\<lambda>d2.
            rbind (set_req_size d2 m_dst psz) (\<lambda>d3. Inr (True, x1\<lparr>send_buf := Some d3\<rparr>))))))))"

definition send_forward :: "'k node_env \<Rightarrow> nat \<Rightarrow> bytes \<Rightarrow> nat \<Rightarrow> nat \<Rightarrow> nat \<Rightarrow> fwd_opts_t \<Rightarrow> sockaddr_in \<Rightarrow> nat \<Rightarrow> ('k, nat option) act" where
  "send_forward e r b m msg_end cmd fwd addr fc =
     nbind (lift (rbind (cmd_bounded_next b cmd msg_end) (\<lambda>nx. skip_continue b nx msg_end))) (\<lambda>c.
     nbind (req_of r) (\<lambda>q.
     nbind (on_conn fc (build_forward b m c (req_id q) (pkt_size fwd))) (\<lambda>ok.
     if \<not> ok then ret None
     else nbind (n_start_send e fc addr) (\<lambda>rv.
       if rv < 0 then ret None
       else nbind (if fwd_timeout q \<noteq> 0 then n_insert_timeout e (req_id q) (fwd_timeout q) else ret ()) (\<lambda>_.
            ret (Some cmd))))))"

definition single_start_forward :: "'k node_env \<Rightarrow> nat \<Rightarrow> bytes \<Rightarrow> nat \<Rightarrow> nat \<Rightarrow> ('k, nat option) act" where
  "single_start_forward e r b m cmd =
     nbind (lift (get_fwd_opts b cmd)) (\<lambda>fwd.
     nbind (lift (message_end b m)) (\<lambda>msg_end.
     nbind (req_of r) (\<lambda>q.
     nbind (lift (find_forward_reply_id b (curr_cmd q) (fwd_host fwd, fwd_port fwd) msg_end 0)) (\<lambda>fid.
     let addr = \<lparr>sin_addr = fwd_host fwd, sin_port = fwd_port fwd\<rparr>; pr = proto_of_nat (proto fwd) in
     if fid = -1 then ret None
     else nbind (if fwd_replies_left q \<noteq> -1 then lift (mask_test (fwd_replies_mask q) fid) else ret False) (\<lambda>acked.
       if acked then
         lift (rbind (cmd_bounded_next_forward b (Some cmd) msg_end) (\<lambda>nx.
           rbind (case nx of None \<Rightarrow> cmd_bounded_skip b (curr_cmd q) 1 msg_end | Some c \<Rightarrow> Inr (Some c)) (\<lambda>c.
             rbind (cmd_log b c msg_end) (\<lambda>_. Inr c))))
       else nbind (gets (\<lambda>n. conn_find_existing (this_thread e) addr pr (tbl n))) (\<lambda>fc.
         nbind (if fc = -1 then open_forward e addr pr else ret (Some (nat fc))) (\<lambda>fco. case fco of
             None \<Rightarrow> ret None
           | Some c \<Rightarrow> send_forward e r b m msg_end cmd fwd addr c)))))))"


text \<open>
  The loop of \<^verbatim>\<open>start_forward\<close> over the branches. No step writes to the receive buffer that holds the message, so the
  loop runs on its contents at the start. The result says whether all the branches were started.
\<close>

function forward_branches :: "'k node_env \<Rightarrow> nat \<Rightarrow> bytes \<Rightarrow> nat \<Rightarrow> nat \<Rightarrow> nat option \<Rightarrow> ('k, bool) act" where
  "forward_branches e r b m msg_end None n = Some (Inr (True, n))"
| "forward_branches e r b m msg_end (Some itr) n =
     (case single_start_forward e r b m itr n of
        None \<Rightarrow> None
      | Some (Inl x) \<Rightarrow> Some (Inl x)
      | Some (Inr (None, n')) \<Rightarrow> Some (Inr (False, n'))
      | Some (Inr (Some _, n')) \<Rightarrow>
          (case cmd_bounded_next_forward b (Some itr) msg_end of
             Inl x \<Rightarrow> Some (Inl x)
           | Inr nx \<Rightarrow> forward_branches e r b m msg_end nx n'))"
  by pat_completeness auto
termination
proof (relation "measure (\<lambda>(e, r, b, m, msg_end, cmd, n). case cmd of None \<Rightarrow> 0 | Some c \<Rightarrow> Suc (msg_end - c))", goal_cases)
  case 1
  then show ?case by simp
next
  case (2 e r b m msg_end itr n x2 x2a x1 y x nx)
  then show ?case by (cases nx) (auto dest: cmd_bounded_next_forward_less)
qed

declare forward_branches.simps [simp del]

definition start_forward :: "'k node_env \<Rightarrow> nat \<Rightarrow> nat \<Rightarrow> ('k, nat option) act" where
  "start_forward e r cmd =
     nbind (msg_of r) (\<lambda>(b, m).
     nbind (lift (get_cmd b cmd)) (\<lambda>t.
     nbind (check Assert_Failed (t = FORWARD_BEGIN \<or> t = FORWARD_CONTINUE)) (\<lambda>_.
     nbind (req_of r) (\<lambda>q.
     nbind (if fwd_replies_left q = -1 then
              nbind (lift (get_fwd_opts b cmd)) (\<lambda>fwd.
                on_req r (\<lambda>q. q\<lparr>fwd_replies_left := int (n_ack fwd), fwd_replies_mask := 0,
                  fwd_timeout := i32 (int (timeout fwd)), fwd_retries := int (retries fwd),
                  fwd_on_fail_skip := int (on_fail_skip fwd)\<rparr>))
            else ret ()) (\<lambda>_.
     nbind (lift (message_end b m)) (\<lambda>msg_end.
     nbind (forward_branches e r b m msg_end (Some cmd)) (\<lambda>ok.
     ret (if ok then Some cmd else None))))))))"

section \<open>Replies\<close>

definition mode_of_nat :: "nat \<Rightarrow> reply_mode_t" where
  "mode_of_nat k = (if k = 0 then REPLY_MODE_NORMAL else if k = 1 then REPLY_MODE_SENDFILE else REPLY_MODE_OTHER)"

text \<open>The response that \<^verbatim>\<open>reply\<close> builds: the id and the status of the request \<open>m\<close>, and no commands.\<close>

definition build_reply :: "nat \<Rightarrow> reply_opts_t \<Rightarrow> conn_info_t \<Rightarrow> (unit \<times> conn_info_t) res" where
  "build_reply m opts x =
     rbind (conn_prepare_send_message x) (\<lambda>(m_dst, x1).
     rbind (the_buf (send_buf x1)) (\<lambda>d. rbind (get_req_size d m_dst) (\<lambda>avail.
     if avail < resp_size opts then Inl Assert_Failed
     else rbind (the_buf (recv_buf x1)) (\<lambda>b. rbind (get_req_id b m) (\<lambda>rid. rbind (get_status b m) (\<lambda>st.
       rbind (set_req_id d m_dst rid) (\<lambda>d1. rbind (set_req_size d1 m_dst (resp_size opts)) (\<lambda>d2.
       rbind (set_cmd d2 (message_first_cmd m_dst) EOM) (\<lambda>d3. rbind (put_status d3 m_dst st) (\<lambda>d4.
         Inr ((), x1\<lparr>send_buf := Some d4, reply_mode := mode_of_nat (mode opts)\<rparr>)))))))))))"

definition reply :: "'k node_env \<Rightarrow> nat \<Rightarrow> nat \<Rightarrow> ('k, int) act" where
  "reply e r cmd =
     nbind (msg_of r) (\<lambda>(b, m).
     nbind (lift (get_reply_opts b cmd)) (\<lambda>opts.
     nbind (req_of r) (\<lambda>q.
     let c = nat (conn_id q) in
     nbind (on_conn c (build_reply m opts)) (\<lambda>_.
     nbind (if mode opts = 1 then
              nbind (check Out_Of_Bounds (r_dev_id opts < MAX_STORAGE_DEVICES)) (\<lambda>_.
              nbind (on_req r (\<lambda>q. q\<lparr>sendfile_fd := storage_fds e (r_dev_id opts), sendfile_offset := 0,
                       sendfile_size := resp_size opts\<rparr>)) (\<lambda>_.
                n_start_sendfile e c (req_target q) (storage_fds e (r_dev_id opts)) 0 (resp_size opts)))
            else n_start_send e c (req_target q)) (\<lambda>rv.
     nbind (on_tbl (conn_req_remove c r)) (\<lambda>_.
     nbind (on_infos (\<lambda>w. w\<lparr>active_reqs := active_reqs w - 1\<rparr>)) (\<lambda>_. ret rv)))))))"

section \<open>Closing\<close>

definition close_and_forget :: "'k node_env \<Rightarrow> int \<Rightarrow> ('k, unit) act" where
  "close_and_forget e sk =
     nbind (on_poll (dw_poll_del (ctl e) sk)) (\<lambda>_.
     nbind (on_tbl (conn_del_sock sk)) (\<lambda>_. emit (E_Close sk)))"

text \<open>
  A branch that was acknowledged is not sent again, but the commands after the forward are printed; one that has no printed form ends the
  node.
\<close>

lemma acked_forward_exits:
  assumes "get_fwd_opts b cmd = Inr fwd" "message_end b m = Inr me" "me \<le> length b"
    "find_forward_reply_id b (curr_cmd (reqs (tbl n) r)) (fwd_host fwd, fwd_port fwd) me 0 = Inr i" "i \<noteq> -1"
    "fwd_replies_left (reqs (tbl n) r) \<noteq> -1" "mask_test (fwd_replies_mask (reqs (tbl n) r)) i = Inr True"
    "cmd_bounded_next_forward b (Some cmd) me = Inr None" "cmd_bounded_skip b (curr_cmd (reqs (tbl n) r)) 1 me = Inr (Some p)"
    "cmd_in_bounds b p me = Inr True" "get_cmd b p = Inr t" "t \<noteq> EOM" "\<not> printable t"
  shows "single_start_forward e r b m cmd n = Some (Inl Exit_Failure)"
  using assms cmd_log_unknown [OF assms(10-13,3)] by (simp add: single_start_forward_def act_simps Let_def lift_def)

end
