(* ===== verification/DW_Node.thy ===== *)
theory DW_Node
  imports DW_Forward
begin

text \<open>
  The connection worker of a node (\<^verbatim>\<open>src/dw_node.c\<close>, from \<^verbatim>\<open>process_single_message\<close> to \<^verbatim>\<open>conn_worker\<close>): how the commands of a request
  are executed, how replies to forwards are counted, what happens on a timeout and on each event that the worker polls.
  \<^verbatim>\<open>process_messages\<close>, \<^verbatim>\<open>obtain_messages\<close> and \<^verbatim>\<open>handle_forward_reply\<close> call one another; they have a bound on the depth of the calls as
  their argument, and \<open>None\<close> is the result when it is not enough.
\<close>

section \<open>Executing a request\<close>

text \<open>
  \<^verbatim>\<open>process_single_message\<close>: the loop over the commands. The commands that let it go on (\<^verbatim>\<open>COMPUTE\<close> and a \<^verbatim>\<open>STORE\<close> that does not
  wait) do not write to the message.
\<close>

definition send_storage :: "'k node_env \<Rightarrow> nat \<Rightarrow> bytes \<Rightarrow> nat \<Rightarrow> command_type_t \<Rightarrow> ('k, bool) act" where
  "send_storage e r b cmd t =
     nbind (req_of r) (\<lambda>q. nbind (gets (\<lambda>n. w_worker_id (infos n))) (\<lambda>wid.
     nbind (lift (if t = STORE then rbind (get_store_opts b cmd) (\<lambda>opts. Inr (S_Store opts, s_dev_id opts))
                  else rbind (get_load_opts b cmd) (\<lambda>opts. Inr (S_Load opts, l_dev_id opts)))) (\<lambda>(sc, dev).
     if \<not> dev < storage_devices e then ret False
     else nbind (call (pipe_writes e)) (\<lambda>rv.
       if rv < 0 then ret False
       else nbind (emit (E_Storage dev \<lparr>worker_id = wid, sreq_id = req_id q, scmd = sc\<rparr>)) (\<lambda>_. ret True)))))"

text \<open>What the loop does after a \<^verbatim>\<open>REPLY\<close>.\<close>

definition after_reply :: "'k node_env \<Rightarrow> nat \<Rightarrow> int \<Rightarrow> ('k, int) act" where
  "after_reply e c rv =
     nbind (conn_of c) (\<lambda>x.
     if status x \<noteq> CLOSE \<and> rv = 0 then
       (if status x = SENDING then
          nbind (sys_check (on_poll (dw_poll_mod (ctl e) (sock x) (DW_POLLOUT OR DW_POLLONESHOT) (ev_aux SOCKET (int c)))))
            (\<lambda>_. ret 1)
        else nbind (close_and_forget e (sock x)) (\<lambda>_. ret (-1)))
     else if status x = SENDING then
       nbind (sys_check (on_poll (dw_poll_mod (ctl e) (sock x) (DW_POLLOUT OR DW_POLLONESHOT) (ev_aux SOCKET (int c)))))
         (\<lambda>_. ret 1)
     else ret 1)"

datatype cmd_end = Next_Cmd | Return int

definition exec_cmd :: "'k node_env \<Rightarrow> nat \<Rightarrow> bytes \<Rightarrow> nat \<Rightarrow> nat \<Rightarrow> command_type_t \<Rightarrow> ('k, cmd_end) act" where
  "exec_cmd e r b msg_end cmd t =
     (if t = COMPUTE then
        nbind (lift (get_comp_opts b cmd)) (\<lambda>opts. nbind (emit (E_Compute (comp_time_us opts))) (\<lambda>_. ret Next_Cmd))
      else if t = FORWARD_BEGIN \<or> t = FORWARD_CONTINUE then
        nbind (if t = FORWARD_BEGIN then on_req r (\<lambda>q. q\<lparr>curr_cmd := Some cmd\<rparr>) else ret ()) (\<lambda>_.
        nbind (start_forward e r cmd) (\<lambda>x. ret (Return (if x = None then -1 else 0))))
      else if t = REPLY then
        nbind (req_of r) (\<lambda>q. nbind (reply e r cmd) (\<lambda>rv.
        nbind (after_reply e (nat (conn_id q)) rv) (\<lambda>v. ret (Return v))))
      else if t = STORE \<or> t = LOAD then
        nbind (send_storage e r b cmd t) (\<lambda>ok.
        if \<not> ok then ret (Return (-1))
        else nbind (lift (if t = STORE then rbind (get_store_opts b cmd) (\<lambda>opts. Inr (wait_sync opts \<noteq> 0)) else Inr True)) (\<lambda>waits.
          if \<not> waits then ret Next_Cmd
          else nbind (lift (cmd_bounded_next b cmd msg_end)) (\<lambda>nx.
            nbind (on_req r (\<lambda>q. q\<lparr>curr_cmd := nx\<rparr>)) (\<lambda>_. ret (Return 0)))))
      else ret (Return 0))"


function process_cmds :: "'k node_env \<Rightarrow> nat \<Rightarrow> bytes \<Rightarrow> nat \<Rightarrow> nat option \<Rightarrow> ('k, int) act" where
  "process_cmds e r b msg_end None n = Some (Inr (1, n))"
| "process_cmds e r b msg_end (Some cmd) n =
     (case get_cmd b cmd of
        Inl x \<Rightarrow> Some (Inl x)
      | Inr t \<Rightarrow>
          if t = EOM then Some (Inr (1, n))
          else (case exec_cmd e r b msg_end cmd t n of
              None \<Rightarrow> None
            | Some (Inl x) \<Rightarrow> Some (Inl x)
            | Some (Inr (Return v, n')) \<Rightarrow> Some (Inr (v, n'))
            | Some (Inr (Next_Cmd, n')) \<Rightarrow>
                (case cmd_bounded_skip b (Some cmd) 1 msg_end of
                   Inl x \<Rightarrow> Some (Inl x)
                 | Inr nx \<Rightarrow> process_cmds e r b msg_end nx n')))"
  by pat_completeness auto
termination
proof (relation "measure (\<lambda>(e, r, b, msg_end, cmd, n). case cmd of None \<Rightarrow> 0 | Some c \<Rightarrow> Suc (msg_end - c))", goal_cases)
  case 1
  then show ?case by simp
next
  case 2
  then show ?case by (auto split: option.split dest: cmd_bounded_skip_less)
qed

declare process_cmds.simps [simp del]

definition process_single_message :: "'k node_env \<Rightarrow> nat \<Rightarrow> ('k, int) act" where
  "process_single_message e r =
     nbind (msg_of r) (\<lambda>(b, m). nbind (lift (message_end b m)) (\<lambda>msg_end.
     nbind (req_of r) (\<lambda>q. process_cmds e r b msg_end (curr_cmd q))))"

section \<open>Replies to forwards\<close>

text \<open>
  \<^verbatim>\<open>handle_forward_reply\<close> up to the end of the forward: the reply of one branch. The result is \<open>None\<close> when the reply is dropped or
  more replies are awaited (the code returns -1), and the request when the forward is complete.
\<close>

definition count_reply :: "int \<Rightarrow> nat \<Rightarrow> nat \<times> nat \<Rightarrow> ('k, nat option) act" where
  "count_reply rid st match_addr =
     nbind (gets (\<lambda>n. req_get_by_id rid (tbl n))) (\<lambda>ro. case ro of
       None \<Rightarrow> ret None
     | Some r \<Rightarrow>
         nbind (msg_of r) (\<lambda>(b, m). nbind (lift (message_end b m)) (\<lambda>msg_end.
         nbind (req_of r) (\<lambda>q.
         nbind (lift (find_forward_reply_id b (curr_cmd q) match_addr msg_end 0)) (\<lambda>i.
         if i = -1 then ret None
         else nbind (lift (mask_test (fwd_replies_mask q) i)) (\<lambda>acked.
         if acked then ret None
         else nbind (lift (mask_set (fwd_replies_mask q) i)) (\<lambda>msk.
           nbind (on_req r (\<lambda>q. q\<lparr>fwd_replies_mask := msk, fwd_replies_left := fwd_replies_left q - 1\<rparr>)) (\<lambda>_.
           if fwd_replies_left q - 1 \<le> 0 then
             nbind (on_conn (nat (conn_id q)) (\<lambda>x. rbind (the_buf (recv_buf x)) (\<lambda>b.
                      rbind (put_status b m st) (\<lambda>b'. Inr ((), x\<lparr>recv_buf := Some b'\<rparr>))))) (\<lambda>_.
             nbind (msg_of r) (\<lambda>(b, m).
             nbind (lift (cmd_bounded_skip b (curr_cmd q) 1 msg_end)) (\<lambda>nx.
             nbind (on_req r (\<lambda>q. q\<lparr>curr_cmd := nx, fwd_replies_mask := 0, fwd_replies_left := -1,
                      fwd_timeout := 0, fwd_retries := 0\<rparr>)) (\<lambda>_. ret (Some r)))))
           else ret None))))))))"

text \<open>The three operations that call one another.\<close>

fun process_messages :: "'k node_env \<Rightarrow> nat \<Rightarrow> nat \<Rightarrow> ('k, int) act"
  and handle_forward_reply :: "'k node_env \<Rightarrow> nat \<Rightarrow> int \<Rightarrow> nat \<Rightarrow> nat \<times> nat \<Rightarrow> ('k, int) act"
  and obtain_messages :: "'k node_env \<Rightarrow> nat \<Rightarrow> nat \<Rightarrow> ('k, int) act"
  and obtain_loop :: "'k node_env \<Rightarrow> nat \<Rightarrow> nat \<Rightarrow> ('k, int) act" where
  "process_messages e 0 r = (\<lambda>n. None)"
| "process_messages e (Suc k) r =
     nbind (req_of r) (\<lambda>q. nbind (process_single_message e r) (\<lambda>executed.
     nbind (conn_of (nat (conn_id q))) (\<lambda>x.
     if executed \<noteq> 0 \<and> serialize_request x \<noteq> 0 then obtain_messages e k (nat (conn_id q)) else ret executed)))"
| "handle_forward_reply e 0 rid st a = (\<lambda>n. None)"
| "handle_forward_reply e (Suc k) rid st a =
     nbind (count_reply rid st a) (\<lambda>ro. case ro of
       None \<Rightarrow> ret (-1)
     | Some r \<Rightarrow> nbind (n_remove_timeout e rid) (\<lambda>_. process_messages e k r))"
| "obtain_messages e 0 c = (\<lambda>n. None)"
| "obtain_messages e (Suc k) c =
     nbind (conn_of c) (\<lambda>x.
     if serialize_request x \<noteq> 0 \<and> req_list x \<noteq> None then ret 1 else obtain_loop e k c)"
| "obtain_loop e 0 c = (\<lambda>n. None)"
| "obtain_loop e (Suc k) c =
     nbind (on_conn c conn_prepare_recv_message) (\<lambda>mo. case mo of
       None \<Rightarrow> ret 1
     | Some m \<Rightarrow>
         nbind (conn_of c) (\<lambda>x. nbind (lift (the_buf (recv_buf x))) (\<lambda>b.
         nbind (lift (get_cmd b (message_first_cmd m))) (\<lambda>t.
         if t = EOM then
           nbind (lift (rbind (get_req_id b m) (\<lambda>i. rbind (get_status b m) (\<lambda>st. Inr (i32 (int i), st))))) (\<lambda>(rid, st).
           nbind (handle_forward_reply e k rid st (sin_addr (target x), sin_port (target x))) (\<lambda>v.
           if v = 0 then ret 0 else obtain_loop e k c))
         else
           nbind (on_tbl (\<lambda>s. Some (Inr (conn_req_add c s)))) (\<lambda>ro. case ro of
             None \<Rightarrow> ret 0
           | Some r \<Rightarrow>
               nbind (on_infos (\<lambda>w. w\<lparr>active_reqs := active_reqs w + 1\<rparr>)) (\<lambda>_.
               nbind (on_req r (\<lambda>q. q\<lparr>message_ptr := Some m, curr_cmd := Some (message_first_cmd m)\<rparr>)) (\<lambda>_.
               nbind (lift (get_req_size b m)) (\<lambda>req_size.
               nbind (process_single_message e r) (\<lambda>executed.
               if executed < 0 then ret 0
               else nbind (conn_of c) (\<lambda>x.
                 if executed = 0 \<and> serialize_request x \<noteq> 0 then
                   nbind (on_conn c (\<lambda>x. Inr ((), x\<lparr>curr_proc_buf := curr_proc_buf x + req_size\<rparr>))) (\<lambda>_. ret 1)
                 else obtain_loop e k c))))))))))"


section \<open>Events\<close>

definition establish_conn :: "'k node_env \<Rightarrow> nat \<Rightarrow> ('k, int) act" where
  "establish_conn e c =
     nbind (sys_check (call (sys_rv e))) (\<lambda>_. nbind (call (so_errors e)) (\<lambda>val.
     if val \<noteq> 0 then ret 0
     else nbind (n_set_status c READY) (\<lambda>_. nbind (conn_of c) (\<lambda>x.
       nbind (sys_check (on_poll (dw_poll_mod (ctl e) (sock x) DW_POLLIN (ev_aux SOCKET (int c))))) (\<lambda>_. ret 1)))))"

definition set_msg_status :: "nat \<Rightarrow> nat \<Rightarrow> msg_status_t \<Rightarrow> ('k, unit) act" where
  "set_msg_status c m st =
     on_conn c (\<lambda>x. rbind (the_buf (recv_buf x)) (\<lambda>b.
       rbind (put_status b m (nat_of_status st)) (\<lambda>b'. Inr ((), x\<lparr>recv_buf := Some b'\<rparr>))))"

definition handle_timeout :: "'k node_env \<Rightarrow> nat \<Rightarrow> ('k, unit) act" where
  "handle_timeout e k =
     nbind (gets (\<lambda>n. timeout_queue (infos n))) (\<lambda>tq. case pqueue_top tq of
       None \<Rightarrow> set_timer e (us_to_its 0)
     | Some tp \<Rightarrow>
         let rid = pqueue_node_data tq tp in
         nbind (gets (\<lambda>n. req_get_by_id rid (tbl n))) (\<lambda>ro. case ro of
           None \<Rightarrow> set_timer e (us_to_its 0)
         | Some r \<Rightarrow>
             nbind (n_remove_timeout e rid) (\<lambda>_. nbind (req_of r) (\<lambda>q.
             if fwd_retries q > 0 then
               nbind (on_req r (\<lambda>q. q\<lparr>fwd_retries := fwd_retries q - 1\<rparr>)) (\<lambda>_.
               nbind (process_messages e k r) (\<lambda>_. ret ()))
             else nbind (msg_of r) (\<lambda>(b, m).
               if fwd_on_fail_skip q > 0 then
                 nbind (lift (rbind (message_end b m) (\<lambda>msg_end. cmd_bounded_skip b (curr_cmd q) (fwd_on_fail_skip q) msg_end))) (\<lambda>nx.
                 nbind (on_req r (\<lambda>q. q\<lparr>curr_cmd := nx\<rparr>)) (\<lambda>_.
                 nbind (set_msg_status (nat (conn_id q)) m TIMEOUT) (\<lambda>_.
                 nbind (process_messages e k r) (\<lambda>_. ret ()))))
               else
                 nbind (set_msg_status (nat (conn_id q)) m TIMEOUT) (\<lambda>_.
                 nbind (on_tbl (conn_req_remove (nat (conn_id q)) r)) (\<lambda>_.
                 on_infos (\<lambda>w. w\<lparr>active_reqs := active_reqs w - 1\<rparr>))))))))"

text \<open>
  The error path of \<^verbatim>\<open>exec_request\<close>: for each connection, the first request of its list that waits for a forward to the address of
  the broken connection. A null \<^verbatim>\<open>curr_cmd\<close> is dereferenced.
\<close>

partial_function (option) find_pending :: "sockaddr_in \<Rightarrow> dw_state \<Rightarrow> bytes option \<Rightarrow> nat option \<Rightarrow> nat option \<Rightarrow> (nat \<times> nat \<times> fwd_opts_t) option res option" where
  "find_pending tgt s rb head tmp =
     (case tmp of
        None \<Rightarrow> Some (Inr None)
      | Some r \<Rightarrow>
          (case (curr_cmd (reqs s r), rb) of
             (Some cmd, Some b) \<Rightarrow>
               (case rbind (get_cmd b cmd) (\<lambda>t. if t = FORWARD_BEGIN then rbind (get_fwd_opts b cmd) (\<lambda>f. Inr (Some f)) else Inr None) of
                  Inl x \<Rightarrow> Some (Inl x)
                | Inr fo \<Rightarrow>
                    (case fo of
                       Some f \<Rightarrow> if fwd_host f = sin_addr tgt \<and> fwd_port f = sin_port tgt then Some (Inr (Some (r, cmd, f)))
                         else if nxt (reqs s r) = head then Some (Inr None) else find_pending tgt s rb head (nxt (reqs s r))
                     | None \<Rightarrow> if nxt (reqs s r) = head then Some (Inr None) else find_pending tgt s rb head (nxt (reqs s r))))
           | _ \<Rightarrow> Some (Inl Null_Deref)))"

definition abort_pending :: "'k node_env \<Rightarrow> nat \<Rightarrow> nat \<Rightarrow> nat \<Rightarrow> ('k, unit) act" where
  "abort_pending e k c i =
     nbind (conn_of i) (\<lambda>pc.
     if sock pc = -1 then ret ()
     else nbind (conn_of c) (\<lambda>x.
       nbind (\<lambda>n. map_option (\<lambda>r. rbind r (\<lambda>v. Inr (v, n))) (find_pending (target x) (tbl n) (recv_buf pc) (req_list pc) (req_list pc))) (\<lambda>po.
       case po of
         None \<Rightarrow> ret ()
       | Some (r, cmd, f) \<Rightarrow>
           if retries f > 0 then ret ()
           else nbind (msg_of r) (\<lambda>(b, m).
             nbind (lift (get_req_id b m)) (\<lambda>rid.
             nbind (n_remove_timeout e (i32 (int rid))) (\<lambda>_.
             nbind (lift (message_end b m)) (\<lambda>msg_end.
             nbind (lift (find_reply b (Some cmd) msg_end)) (\<lambda>itr.
             nbind (lift (case itr of None \<Rightarrow> Inr False
                 | Some p \<Rightarrow> rbind (cmd_in_bounds b p msg_end) (\<lambda>ok. rbind (get_cmd b p) (\<lambda>t. Inr (ok \<and> t \<noteq> EOM))))) (\<lambda>graceful.
             if \<not> graceful then close_and_forget e (sock pc)
             else nbind (on_req r (\<lambda>q. q\<lparr>curr_cmd := itr\<rparr>)) (\<lambda>_.
               nbind (set_msg_status i m ERR) (\<lambda>_.
               nbind (process_messages e k r) (\<lambda>_. ret ()))))))))))))"

fun abort_all :: "'k node_env \<Rightarrow> nat \<Rightarrow> nat \<Rightarrow> nat list \<Rightarrow> ('k, unit) act" where
  "abort_all e k c [] = ret ()"
| "abort_all e k c (i # is) = nbind (abort_pending e k c i) (\<lambda>_. abort_all e k c is)"

definition conn_error :: "'k node_env \<Rightarrow> nat \<Rightarrow> nat \<Rightarrow> ('k, unit) act" where
  "conn_error e k c =
     nbind (conn_of c) (\<lambda>x.
     nbind (if c_proto x = TCP \<and> status x = READY then on_infos (\<lambda>w. w\<lparr>active_conns := active_conns w - 1\<rparr>) else ret ()) (\<lambda>_.
     nbind (close_and_forget e (sock x)) (\<lambda>_. abort_all e k c [0..<MAX_CONNS])))"

text \<open>
  The normal path of \<^verbatim>\<open>exec_request\<close> for an event on a connection; the result is false where the code jumps to the error path.
\<close>

definition serve_conn :: "'k node_env \<Rightarrow> nat \<Rightarrow> u32 \<Rightarrow> nat \<Rightarrow> event_t \<Rightarrow> ('k, bool) act" where
  "serve_conn e k pfl c ty =
     nbind (if ty = CONNECT then
              nbind (establish_conn e c) (\<lambda>v. if v = 0 then ret False
                else nbind (on_infos (\<lambda>w. w\<lparr>active_conns := active_conns w + 1\<rparr>)) (\<lambda>_. ret True))
            else ret (\<not> (bit pfl POLLERR_BIT \<or> bit pfl POLLHUP_BIT))) (\<lambda>ok.
     if \<not> ok then ret False
     else nbind (if bit pfl POLLIN_BIT
                 then nbind (call (recvs e)) (\<lambda>env. nbind (on_conn c (conn_recv env)) (\<lambda>v. ret (v \<noteq> 0)))
                 else ret True) (\<lambda>ok.
       if \<not> ok then ret False
       else nbind (if bit pfl POLLOUT_BIT then
              nbind (n_flush e c) (\<lambda>v.
                if v < 0 then ret False
                else nbind (conn_of c) (\<lambda>x.
                  nbind (sys_check (on_poll (dw_poll_mod (ctl e) (sock x)
                    ((if v = 0 then DW_POLLOUT else DW_POLLIN) OR DW_POLLONESHOT) (ev_aux SOCKET (int c))))) (\<lambda>_. ret True)))
            else ret True) (\<lambda>ok.
         if \<not> ok then ret False
         else nbind (obtain_messages e k c) (\<lambda>v. ret (v \<noteq> 0)))))"

definition exec_request :: "'k node_env \<Rightarrow> nat \<Rightarrow> u32 \<Rightarrow> nat \<Rightarrow> event_t \<Rightarrow> ('k, unit) act" where
  "exec_request e k pfl c ty =
     nbind (check Out_Of_Bounds (c < MAX_CONNS)) (\<lambda>_.
     nbind (conn_of c) (\<lambda>x.
     nbind (if status x = SSL_HANDSHAKE
            then nbind (call (handshakes e)) (\<lambda>(rv, err). on_tbl (\<lambda>s. Some (Inr (conn_do_ssl_handshake rv err c s))))
            else ret 1) (\<lambda>hs.
     if hs < 0 then conn_error e k c
     else if hs = 0 then ret ()
     else if ty = TIMER then handle_timeout e k
     else nbind (conn_of c) (\<lambda>x.
       if (ty = SOCKET \<or> ty = CONNECT) \<and> (sock x = -1 \<or> recv_buf x = None) then ret ()
       else nbind (serve_conn e k pfl c ty) (\<lambda>ok. if ok then ret () else conn_error e k c)))))"


section \<open>The worker\<close>

text \<open>What the loop over the events does after one of them: it goes on, it waits for events again, or the worker ends.\<close>

datatype loop_end = Go_On | Wait_Again | Stop

definition poll_type :: "'k dw_poll_t \<Rightarrow> dw_poll_type_t" where
  "poll_type p = (case u p of DW_SELECT _ \<Rightarrow> T_SELECT | DW_POLL _ \<Rightarrow> T_POLL | DW_EPOLL _ \<Rightarrow> T_EPOLL)"

definition accept_conn :: "'k node_env \<Rightarrow> int \<Rightarrow> ('k, loop_end) act" where
  "accept_conn e fd =
     nbind (call (accepts e)) (\<lambda>(sk, addr).
     nbind (check Exit_Failure (0 \<le> sk)) (\<lambda>_.
     nbind (setnonblocking e) (\<lambda>_.
     nbind (sys_check (call (sys_rv e))) (\<lambda>_.
     nbind (gets (\<lambda>n. map_of (listen_socks (infos n)) fd)) (\<lambda>po. case po of
       None \<Rightarrow> nbind (emit (E_Close sk)) (\<lambda>_. ret Go_On)
     | Some p \<Rightarrow>
         nbind (n_conn_alloc e sk addr p) (\<lambda>c.
         if c < 0 then nbind (close_and_forget e sk) (\<lambda>_. ret Go_On)
         else nbind (if p = TLS then n_enable_ssl e c True else nbind (n_set_status (nat c) READY) (\<lambda>_. ret 0)) (\<lambda>hs.
           if hs < 0 then nbind (close_and_forget e sk) (\<lambda>_. nbind (n_conn_free c) (\<lambda>_. ret Go_On))
           else
             nbind (on_conn (nat c) (\<lambda>x. Inr ((), x\<lparr>enable_defrag := g_enable_defrag e\<rparr>))) (\<lambda>_.
             nbind (on_infos (\<lambda>w. w\<lparr>active_conns := active_conns w + 1\<rparr>)) (\<lambda>_.
             nbind (gets (\<lambda>n. (w_worker_id (infos n), poll_type (dw_poll n)))) (\<lambda>(me, pty).
             nbind (if accept_mode e = AM_PARENT then
                      nbind (call (thread_cnts e)) (\<lambda>cnt.
                      if conn_threads e = 0 then fail Div_By_Zero
                      else let t = cnt smod int (conn_threads e) in nbind (check Out_Of_Bounds (0 \<le> t)) (\<lambda>_. ret t))
                    else ret me) (\<lambda>t.
             if accept_mode e = AM_PARENT \<and> pty \<noteq> T_EPOLL then nbind (emit (E_Dispatch (nat t) c)) (\<lambda>_. ret Go_On)
             else if t = me then nbind (on_poll (dw_poll_add (ctl e) sk DW_POLLIN (ev_aux SOCKET c))) (\<lambda>_. ret Go_On)
             else nbind (emit (E_Register (nat t) sk c)) (\<lambda>_. ret Go_On))))))))))))"

definition storage_ack :: "'k node_env \<Rightarrow> nat \<Rightarrow> ('k, loop_end) act" where
  "storage_ack e k =
     nbind (call (pipe_reads e)) (\<lambda>ro. case ro of
       None \<Rightarrow> ret Go_On
     | Some rid \<Rightarrow> nbind (gets (\<lambda>n. req_get_by_id rid (tbl n))) (\<lambda>qo. case qo of
         None \<Rightarrow> ret Go_On
       | Some r \<Rightarrow> nbind (process_messages e k r) (\<lambda>_. ret Go_On)))"

definition dispatched :: "'k node_env \<Rightarrow> int \<Rightarrow> ('k, loop_end) act" where
  "dispatched e fd =
     nbind (check Exit_Failure (fd = dispatch_fd e)) (\<lambda>_.
     nbind (call (pipe_reads e)) (\<lambda>ro. case ro of
       None \<Rightarrow> ret Go_On
     | Some c \<Rightarrow> nbind (check Out_Of_Bounds (0 \<le> c \<and> c < int MAX_CONNS)) (\<lambda>_. nbind (conn_of (nat c)) (\<lambda>x.
         nbind (on_poll (dw_poll_add (ctl e) (sock x) DW_POLLIN (ev_aux SOCKET c))) (\<lambda>_. ret Go_On)))))"

definition sizeof_signalfd_siginfo :: int where "sizeof_signalfd_siginfo = 128"

definition worker_event :: "'k node_env \<Rightarrow> nat \<Rightarrow> u32 \<Rightarrow> nat \<Rightarrow> ('k, loop_end) act" where
  "worker_event e k pfl aux =
     (case l2i (word_of_nat aux) of (ty, dat) \<Rightarrow>
        let ev = event_of_num (unat ty); event_data = sint dat in
        case ev of
          LISTEN \<Rightarrow> accept_conn e event_data
        | STORAGE \<Rightarrow> storage_ack e k
        | DISPATCH \<Rightarrow> dispatched e event_data
        | TERMINATION \<Rightarrow> ret Stop
        | STATS \<Rightarrow> nbind (call (sys_rv e)) (\<lambda>rv. ret (if rv \<noteq> sizeof_signalfd_siginfo then Stop else Wait_Again))
        | _ \<Rightarrow> nbind (check Out_Of_Bounds (0 \<le> event_data)) (\<lambda>_.
                 nbind (exec_request e k pfl (nat event_data) ev) (\<lambda>_. ret Go_On)))"

text \<open>
  One round of the worker: it waits for events and serves them. The result says whether it is still running; \<open>j\<close> bounds the number of events
  and \<open>k\<close> the depth of the calls in one event.
\<close>

fun serve_events :: "'k node_env \<Rightarrow> nat \<Rightarrow> nat \<Rightarrow> ('k, bool) act" where
  "serve_events e k 0 = (\<lambda>n. None)"
| "serve_events e k (Suc j) =
     nbind (\<lambda>n. case dw_poll_next (dw_poll n) of (ev, p) \<Rightarrow> Some (Inr (ev, n\<lparr>dw_poll := p\<rparr>))) (\<lambda>ev. case ev of
       None \<Rightarrow> ret True
     | Some (pfl, aux) \<Rightarrow> nbind (worker_event e k pfl aux) (\<lambda>le. case le of
         Go_On \<Rightarrow> serve_events e k j
       | Wait_Again \<Rightarrow> ret True
       | Stop \<Rightarrow> ret False))"

definition worker_round :: "'k node_env \<Rightarrow> nat \<Rightarrow> nat \<Rightarrow> wait_env \<Rightarrow> bool \<Rightarrow> ('k, bool) act" where
  "worker_round e k j w eintr =
     nbind (on_poll (dw_poll_wait w)) (\<lambda>nfds.
     nbind (check Exit_Failure (nfds \<noteq> -1 \<or> eintr)) (\<lambda>_. serve_events e k j))"

text \<open>The registrations at the start of the worker.\<close>

definition poll_add_checked :: "'k node_env \<Rightarrow> int \<Rightarrow> nat \<Rightarrow> ('k, unit) act" where
  "poll_add_checked e fd aux =
     nbind (on_poll (dw_poll_add (ctl e) fd DW_POLLIN aux)) (\<lambda>rv. check Exit_Failure (rv = 0))"

fun for_each :: "('a \<Rightarrow> ('k, unit) act) \<Rightarrow> 'a list \<Rightarrow> ('k, unit) act" where
  "for_each f [] = ret ()"
| "for_each f (x # xs) = nbind (f x) (\<lambda>_. for_each f xs)"

definition add_listen :: "'k node_env \<Rightarrow> int \<Rightarrow> ('k, unit) act" where
  "add_listen e s =
     (if s < 0 then ret ()
      else nbind (on_tbl (\<lambda>t. Some (rbind (conn_find_sock s t) (\<lambda>c. Inr (c, t))))) (\<lambda>c.
        nbind (check Out_Of_Bounds (0 \<le> c)) (\<lambda>_. nbind (conn_of (nat c)) (\<lambda>x.
        poll_add_checked e s (if c_proto x = TCP \<or> c_proto x = TLS then ev_aux LISTEN s else ev_aux SOCKET c)))))"

definition worker_init :: "'k node_env \<Rightarrow> ('k, unit) act" where
  "worker_init e =
     nbind (gets infos) (\<lambda>w.
     nbind (if accept_mode e \<noteq> AM_PARENT \<or> w_worker_id w = 0 then for_each (add_listen e) (map fst (listen_socks w)) else ret ()) (\<lambda>_.
     nbind (poll_add_checked e (termination_fd e) (ev_aux TERMINATION (termination_fd e))) (\<lambda>_.
     nbind (poll_add_checked e (timer_fd e) (ev_aux TIMER (timer_fd e))) (\<lambda>_.
     nbind (if stat_fd e \<noteq> -1 then poll_add_checked e (stat_fd e) (ev_aux STATS (stat_fd e)) else ret ()) (\<lambda>_.
     nbind (for_each (\<lambda>fd. poll_add_checked e fd (ev_aux STORAGE fd)) (store_reply_fds e)) (\<lambda>_.
     if accept_mode e = AM_PARENT then poll_add_checked e (dispatch_fd e) (ev_aux DISPATCH (dispatch_fd e)) else ret ()))))))"

end
