(* ===== verification/DW_Invariant.thy ===== *)
theory DW_Invariant
  imports DW_Node
begin

text \<open>
  An invariant of the connection worker: the table of requests and the queue of timeouts belong together. The locale
  \<open>node_invariant\<close> states what a predicate on the state has to satisfy to be kept by the few operations that touch request ids and
  timeouts; inside of it, every action of the worker is shown to keep it. The interpretation is the invariant \<open>node_inv\<close>, which
  holds in every state that a worker reaches.
\<close>

section \<open>Operations that only free requests\<close>

text \<open>From \<open>s\<close> to \<open>s'\<close> requests may have been freed; no request has been added and no timeout changed.\<close>

definition sheds :: "'a req_table_scheme \<Rightarrow> 'a req_table_scheme \<Rightarrow> bool" where
  "sheds s s' \<longleftrightarrow> (\<forall>r. timeout_node (reqs s' r) = timeout_node (reqs s r) \<and>
     (req_id (reqs s' r) = req_id (reqs s r) \<or> req_id (reqs s' r) = -1))"

named_theorems sheds_intros \<open>operations on the tables that only free requests\<close>

lemma sheds_refl [sheds_intros]: "sheds s s"
  by (simp add: sheds_def)

lemma sheds_trans: "sheds a b \<Longrightarrow> sheds b c \<Longrightarrow> sheds a c"
  by (auto simp: sheds_def) metis

lemma sheds_same_reqs: "reqs s' = reqs s \<Longrightarrow> sheds s s'"
  by (simp add: sheds_def)

lemma sheds_upd_conn [sheds_intros]: "sheds s (upd_conn c f s)"
  by (simp add: sheds_same_reqs upd_conn_def)

lemma sheds_upd_req:
  "timeout_node (f (reqs s r)) = timeout_node (reqs s r) \<Longrightarrow> req_id (f (reqs s r)) = req_id (reqs s r) \<Longrightarrow> sheds s (upd_req r f s)"
  by (auto simp: sheds_def reqs_upd_req)

lemma sheds_unlink [sheds_intros]: "sheds s (snd (req_unlink r s))"
  by (auto simp: sheds_def reqs_unlink Let_def)

lemma sheds_unlink': "req_unlink r s = (x, s') \<Longrightarrow> sheds s s'"
  using sheds_unlink [of s r] by simp

lemma sheds_reset_loop:
  assumes "reset_loop t s = Some s'"
  shows "sheds s s'"
proof (rule reset_loop.raw_induct [OF _ assms])
  fix f t s s'
  assume IH: "\<And>t s s'. f t s = Some s' \<Longrightarrow> sheds s s'"
    and eq: "(case t of None \<Rightarrow> Some s | Some r \<Rightarrow> (case req_unlink r s of (x, y) \<Rightarrow> f x y)) = Some s'"
  show "sheds s s'"
  proof (cases t)
    case None
    with eq show ?thesis by (simp add: sheds_refl)
  next
    case (Some r)
    obtain x s1 where u: "req_unlink r s = (x, s1)" by force
    with eq Some have "f x s1 = Some s'" by simp
    then show ?thesis using IH sheds_unlink' [OF u] sheds_trans by blast
  qed
qed

lemma sheds_conn_reset: "conn_reset c s = Some s' \<Longrightarrow> sheds s s'"
  by (simp add: conn_reset_def sheds_reset_loop)

lemma shift_req_frame:
  "shift_req k q = Inr q' \<Longrightarrow> timeout_node q' = timeout_node q \<and> req_id q' = req_id q"
  by (auto simp: shift_req_def rbind_eq_Inr Let_def split: option.splits)

lemma sheds_shift_newer:
  assumes "shift_newer k t s = Some res" "res = Inr s'"
  shows "sheds s s'"
proof -
  have "\<forall>s'. res = Inr s' \<longrightarrow> sheds s s'"
  proof (rule shift_newer.raw_induct [OF _ assms(1)])
    fix f and k :: nat and t s res
    assume IH: "\<And>(k :: nat) t s res. f k t s = Some res \<Longrightarrow> \<forall>s'. res = Inr s' \<longrightarrow> sheds s s'"
      and eq: "(case t of None \<Rightarrow> Some (Inr s)
        | Some r \<Rightarrow> (case shift_req k (reqs s r) of Inl e \<Rightarrow> Some (Inl e) | Inr q \<Rightarrow> f k (prev q) (upd_req r (\<lambda>_. q) s))) = Some res"
    show "\<forall>s'. res = Inr s' \<longrightarrow> sheds s s'"
    proof (cases t)
      case None
      with eq show ?thesis by (auto intro: sheds_refl)
    next
      case (Some r)
      show ?thesis
      proof (cases "shift_req k (reqs s r)")
        case (Inl e)
        with eq Some show ?thesis by auto
      next
        case (Inr q)
        then have "sheds s (upd_req r (\<lambda>_. q) s)" using shift_req_frame by (intro sheds_upd_req) auto
        then show ?thesis using eq Some Inr IH [of k "prev q" "upd_req r (\<lambda>_. q) s" res] sheds_trans by auto
      qed
    qed
  qed
  then show ?thesis using assms(2) by blast
qed

lemma sheds_conn_req_remove:
  assumes "conn_req_remove c r s = Some (Inr (x, s'))"
  shows "sheds s s'"
proof -
  obtain s1 where d: "req_defrag c r s = Some (Inr s1)"
    using assms by (auto simp: conn_req_remove_def split: option.splits sum.splits)
  have 1: "sheds s s1"
  proof (cases "message_ptr (reqs s r) = None \<or> s1 = s")
    case True
    then show ?thesis using d by (auto simp: req_defrag_def intro: sheds_refl)
  next
    case False
    then obtain k c' where "shift_newer k (prev (reqs s r)) (upd_conn c (\<lambda>_. c') s) = Some (Inr s1)"
      using d by (auto simp: req_defrag_def split: option.splits if_splits sum.splits)
    then show ?thesis using sheds_shift_newer sheds_trans [OF sheds_upd_conn] by blast
  qed
  obtain s2 where 2: "s2 = s1 \<or> s2 = upd_conn c (req_list_update (\<lambda>_. nxt (reqs s1 r))) s1" "req_unlink r s2 = (x, s')"
    using assms d by (auto simp: conn_req_remove_def Let_def split: if_splits)
  then have "sheds s1 s2" using sheds_refl sheds_upd_conn by blast
  then show ?thesis using 1 sheds_unlink' [OF 2(2)] sheds_trans by blast
qed

lemma sheds_conn_del_sock: "conn_del_sock sk s = Some (Inr (i, s')) \<Longrightarrow> sheds s s'"
  by (auto simp: conn_del_sock_def conn_del_id_def rbind_eq_Inr split: sum.splits if_splits
      intro: sheds_refl sheds_trans [OF sheds_conn_reset sheds_upd_conn])

lemma sheds_conn_free: "conn_free i s = Some s' \<Longrightarrow> sheds s s'"
  by (auto simp: conn_free_def split: if_splits intro: sheds_refl sheds_trans [OF sheds_conn_reset sheds_upd_conn])

lemma sheds_conn_alloc: "conn_alloc a b th sk tgt pr s = Inr (i, s') \<Longrightarrow> sheds s s'"
  by (auto simp: conn_alloc_def Let_def rbind_eq_Inr split: option.splits if_splits
      intro: sheds_refl sheds_upd_conn sheds_trans [OF sheds_upd_conn sheds_upd_conn])

lemma sheds_conn_enable_ssl: "conn_enable_ssl h ok i sv s = (v, s') \<Longrightarrow> sheds s s'"
  by (auto simp: conn_enable_ssl_def split: option.splits if_splits intro: sheds_refl sheds_upd_conn)

lemma sheds_handshake: "conn_do_ssl_handshake rv err c s = (v, s') \<Longrightarrow> sheds s s'"
  by (auto simp: conn_do_ssl_handshake_def split: if_splits intro: sheds_refl sheds_upd_conn)

lemma sheds_set_status: "conn_set_status_by_id c st s = (v, s') \<Longrightarrow> sheds s s'"
  by (auto simp: conn_set_status_by_id_def intro: sheds_upd_conn)


section \<open>What an invariant has to satisfy\<close>

locale node_invariant =
  fixes I :: "'k node \<Rightarrow> bool"
  assumes shed: "I n \<Longrightarrow> sheds (tbl n) (tbl n') \<Longrightarrow> timeout_queue (infos n') = timeout_queue (infos n) \<Longrightarrow> I n'"
    and alloc: "I n \<Longrightarrow> req_alloc (tbl n) = (ro, s') \<Longrightarrow> I (n\<lparr>tbl := s'\<rparr>)"
    and ins: "I n \<Longrightarrow> insert_timeout cur rid us (infos n) (tbl n) = Some (Inr (tm, w, s')) \<Longrightarrow> I (n\<lparr>infos := w, tbl := s'\<rparr>)"
    and rem: "I n \<Longrightarrow> remove_timeout cur rid (infos n) (tbl n) = Some (Inr (v, tm, w, s')) \<Longrightarrow> I (n\<lparr>infos := w, tbl := s'\<rparr>)"
begin

text \<open>The basic actions.\<close>

lemma keeps_on_req [keeps_intros]:
  "(\<And>q. timeout_node (f q) = timeout_node q) \<Longrightarrow> (\<And>q. req_id (f q) = req_id q) \<Longrightarrow> keeps I (on_req r f)"
  by (rule keepsI) (auto simp: on_req_def modify_def sheds_upd_req elim!: shed)

lemma keeps_on_tbl: "(\<And>s x s'. f s = Some (Inr (x, s')) \<Longrightarrow> sheds s s') \<Longrightarrow> keeps I (on_tbl f)"
  by (rule keepsI) (auto simp: on_tbl_def rbind_eq_Inr elim!: shed)

lemma keeps_on_conn [keeps_intros]: "keeps I (on_conn c f)"
  unfolding on_conn_def by (rule keeps_on_tbl) (auto simp: rbind_eq_Inr intro: sheds_upd_conn)

lemma keeps_on_infos [keeps_intros]: "(\<And>w. timeout_queue (f w) = timeout_queue w) \<Longrightarrow> keeps I (on_infos f)"
  by (rule keepsI) (auto simp: on_infos_def modify_def sheds_refl elim!: shed)

lemma keeps_on_poll [keeps_intros]: "keeps I (on_poll f)"
  by (rule keepsI) (auto simp: on_poll_def rbind_eq_Inr sheds_refl elim!: shed)

lemma keeps_call [keeps_intros]: "keeps I (call f)"
  by (rule keepsI) (auto simp: call_def sheds_refl elim!: shed)

lemma keeps_emit [keeps_intros]: "keeps I (emit x)"
  by (rule keepsI) (auto simp: emit_def modify_def sheds_refl elim!: shed)

lemma keeps_msg_of [keeps_intros]: "keeps I (msg_of r)"
  unfolding msg_of_def by (intro keeps_intros)

lemma keeps_set_timer [keeps_intros]: "keeps I (set_timer e t)"
  unfolding set_timer_def by (intro keeps_intros)

lemma keeps_insert [keeps_intros]: "keeps I (n_insert_timeout e rid us)"
proof -
  have "keeps I (\<lambda>n. map_option (\<lambda>r. rbind r (\<lambda>(tm, w, s). Inr (tm, n\<lparr>infos := w, tbl := s\<rparr>)))
      (insert_timeout cur rid us (infos n) (tbl n)))" for cur
    by (rule keepsI) (auto simp: rbind_eq_Inr intro: ins)
  then show ?thesis unfolding n_insert_timeout_def by (intro keeps_intros)
qed

lemma keeps_remove [keeps_intros]: "keeps I (n_remove_timeout e rid)"
proof -
  have "keeps I (\<lambda>n. map_option (\<lambda>r. rbind r (\<lambda>(v, tm, w, s). Inr ((v, tm), n\<lparr>infos := w, tbl := s\<rparr>)))
      (remove_timeout cur rid (infos n) (tbl n)))" for cur
    by (rule keepsI) (auto simp: rbind_eq_Inr intro: rem)
  then show ?thesis unfolding n_remove_timeout_def by (intro keeps_intros)
qed

lemma keeps_upd_conn_tbl: "keeps I (on_tbl (\<lambda>s. map_option (\<lambda>r. rbind r (\<lambda>(rv, out, x). Inr ((rv, out), upd_conn c (\<lambda>_. x) s))) (g (conns s c))))"
  by (rule keeps_on_tbl) (auto simp: rbind_eq_Inr intro: sheds_upd_conn)

lemma keeps_sending [keeps_intros]:
  "keeps I (n_start_send e c tgt)" "keeps I (n_start_sendfile e c tgt fd off sz)" "keeps I (n_flush e c)"
  unfolding n_start_send_def n_start_sendfile_def n_flush_def by (intro keeps_intros keeps_upd_conn_tbl)+

text \<open>The tables.\<close>

lemma keeps_conn_ops [keeps_intros]:
  "keeps I (n_conn_alloc e sk tgt pr)" "keeps I (n_set_status c st)" "keeps I (n_enable_ssl e i sv)" "keeps I (n_conn_free i)"
  "keeps I (on_tbl (conn_req_remove c r))" "keeps I (on_tbl (conn_del_sock sk))"
  "keeps I (on_tbl (\<lambda>s. Some (Inr (conn_do_ssl_handshake rv err c s))))"
  unfolding n_conn_alloc_def n_set_status_def n_enable_ssl_def n_conn_free_def
  by (intro keeps_intros keeps_on_tbl; auto intro: sheds_conn_alloc sheds_set_status sheds_conn_enable_ssl sheds_conn_free
      sheds_conn_req_remove sheds_conn_del_sock sheds_handshake)+

lemma keeps_req_add [keeps_intros]: "keeps I (on_tbl (\<lambda>s. Some (Inr (conn_req_add c s))))"
proof (rule keepsI)
  fix n x n'
  assume "I n" and "on_tbl (\<lambda>s. Some (Inr (conn_req_add c s))) n = Some (Inr (x, n'))"
  then obtain s' where s': "conn_req_add c (tbl n) = (x, s')" "n' = n\<lparr>tbl := s'\<rparr>"
    by (auto simp: on_tbl_def split: prod.splits)
  obtain ro s1 where a: "req_alloc (tbl n) = (ro, s1)" by force
  have "sheds s1 s'"
  proof (cases ro)
    case None
    then show ?thesis using s'(1) a by (simp add: conn_req_add_def sheds_refl)
  next
    case (Some r)
    let ?s2 = "upd_req r (\<lambda>q. q\<lparr>conn_id := int c, req_target := target (conns s1 c), nxt := req_list (conns s1 c)\<rparr>) s1"
    have "sheds s1 ?s2" by (rule sheds_upd_req) simp_all
    moreover have "sheds ?s2 (upd_link (nxt (reqs ?s2 r)) (prev_update (\<lambda>_. Some r)) ?s2)"
      by (auto simp: sheds_def reqs_upd_link)
    ultimately show ?thesis using s'(1) a Some
      by (auto simp: conn_req_add_def Let_def intro: sheds_trans [OF sheds_trans sheds_upd_conn])
  qed
  then show "I n'" using alloc [OF \<open>I n\<close> a] s'(2) shed [of "n\<lparr>tbl := s1\<rparr>" n'] by simp
qed

text \<open>Forwards and replies.\<close>

lemma keeps_setnonblocking [keeps_intros]: "keeps I (setnonblocking e)"
  unfolding setnonblocking_def by (intro keeps_intros)

lemma keeps_open_forward [keeps_intros]: "keeps I (open_forward e addr pr)"
  unfolding open_forward_def connect_forward_def by (intro keeps_intros; simp)

lemma keeps_send_forward [keeps_intros]: "keeps I (send_forward e r b m msg_end cmd fwd addr fc)"
  unfolding send_forward_def by (intro keeps_intros)

lemma keeps_single_start_forward [keeps_intros]: "keeps I (single_start_forward e r b m cmd)"
  unfolding single_start_forward_def by (intro keeps_intros)

lemma keeps_forward_branches [keeps_intros]: "keeps I (forward_branches e r b m msg_end c)"
proof (rule keepsI)
  show "I n'" if "I n" "forward_branches e r b m msg_end c n = Some (Inr (x, n'))" for n x n'
    using that
  proof (induction e r b m msg_end c n rule: forward_branches.induct)
    case (1 e r b m msg_end n)
    then show ?case by (simp add: forward_branches.simps)
  next
    case (2 e r b m msg_end itr n)
    from "2.prems"(2) obtain y n1 where y: "single_start_forward e r b m itr n = Some (Inr (y, n1))"
      by (subst (asm) forward_branches.simps) (auto split: option.splits sum.splits)
    have n1: "I n1" using keepsD [OF keeps_single_start_forward "2.prems"(1) y] .
    show ?case
    proof (cases y)
      case None
      then show ?thesis using y n1 "2.prems"(2) by (subst (asm) forward_branches.simps) auto
    next
      case (Some z)
      then obtain nx where nx: "cmd_bounded_next_forward b (Some itr) msg_end = Inr nx"
        using y "2.prems"(2) by (subst (asm) forward_branches.simps) (auto split: sum.splits)
      with y Some "2.prems"(2) have "forward_branches e r b m msg_end nx n1 = Some (Inr (x, n'))"
        by (subst (asm) forward_branches.simps) simp
      then show ?thesis using "2.IH" [OF y refl refl Some nx n1] by blast
    qed
  qed
qed

lemma keeps_start_forward [keeps_intros]: "keeps I (start_forward e r cmd)"
  unfolding start_forward_def by (intro keeps_intros; simp)

lemma keeps_reply [keeps_intros]: "keeps I (reply e r cmd)"
  unfolding reply_def by (intro keeps_intros; simp)

lemma keeps_close_and_forget [keeps_intros]: "keeps I (close_and_forget e sk)"
  unfolding close_and_forget_def by (intro keeps_intros)

text \<open>The execution of requests and the events.\<close>

lemma keeps_exec_cmd [keeps_intros]: "keeps I (exec_cmd e r b msg_end cmd t)"
  unfolding exec_cmd_def send_storage_def after_reply_def by (intro keeps_intros; simp)

lemma keeps_process_cmds [keeps_intros]: "keeps I (process_cmds e r b msg_end c)"
proof (rule keepsI)
  show "I n'" if "I n" "process_cmds e r b msg_end c n = Some (Inr (x, n'))" for n x n'
    using that
  proof (induction e r b msg_end c n rule: process_cmds.induct)
    case (1 e r b msg_end n)
    then show ?case by (simp add: process_cmds.simps)
  next
    case (2 e r b msg_end cmd n)
    from "2.prems"(2) obtain t where t: "get_cmd b cmd = Inr t"
      by (subst (asm) process_cmds.simps) (auto split: sum.splits)
    show ?case
    proof (cases "t = EOM")
      case True
      then show ?thesis using t "2.prems" by (subst (asm) process_cmds.simps) simp
    next
      case False
      with t "2.prems"(2) obtain y n1 where y: "exec_cmd e r b msg_end cmd t n = Some (Inr (y, n1))"
        by (subst (asm) process_cmds.simps) (auto split: option.splits sum.splits)
      have n1: "I n1" using keepsD [OF keeps_exec_cmd "2.prems"(1) y] .
      show ?thesis
      proof (cases y)
        case (Return v)
        then show ?thesis using t False y n1 "2.prems"(2) by (subst (asm) process_cmds.simps) auto
      next
        case Next_Cmd
        then obtain nx where nx: "cmd_bounded_skip b (Some cmd) 1 msg_end = Inr nx"
          using t False y "2.prems"(2) by (subst (asm) process_cmds.simps) (auto split: sum.splits)
        with t False y Next_Cmd "2.prems"(2) have "process_cmds e r b msg_end nx n1 = Some (Inr (x, n'))"
          by (subst (asm) process_cmds.simps) simp
        then show ?thesis using "2.IH" [OF t False y refl refl Next_Cmd nx n1] by blast
      qed
    qed
  qed
qed

lemma keeps_process_single_message [keeps_intros]: "keeps I (process_single_message e r)"
  unfolding process_single_message_def by (intro keeps_intros)

lemma keeps_count_reply [keeps_intros]: "keeps I (count_reply rid st a)"
  unfolding count_reply_def by (intro keeps_intros; simp)

lemma keeps_messages [keeps_intros]:
  "keeps I (process_messages e k r)" "keeps I (handle_forward_reply e k rid st a)" "keeps I (obtain_messages e k c)"
  "keeps I (obtain_loop e k c)"
proof (induction e k r and e k rid st a and e k c and e k c
    rule: process_messages_handle_forward_reply_obtain_messages_obtain_loop.induct)
qed (simp_all, (intro keeps_intros; simp add: keeps_intros)+)

lemma keeps_establish_conn [keeps_intros]: "keeps I (establish_conn e c)"
  unfolding establish_conn_def by (intro keeps_intros)

lemma keeps_handle_timeout [keeps_intros]: "keeps I (handle_timeout e k)"
  unfolding handle_timeout_def set_msg_status_def by (intro keeps_intros; simp)

lemma keeps_abort_pending [keeps_intros]: "keeps I (abort_pending e k c i)"
proof -
  have "keeps I (\<lambda>n. map_option (\<lambda>r. rbind r (\<lambda>v. Inr (v, n))) (find_pending tgt (tbl n) rb h t))" for tgt rb h t
    by (rule keepsI) (auto simp: rbind_eq_Inr)
  then show ?thesis unfolding abort_pending_def set_msg_status_def by (intro keeps_intros; simp)
qed

lemma keeps_abort_all [keeps_intros]: "keeps I (abort_all e k c is)"
  by (induction "is") (auto intro!: keeps_intros)

lemma keeps_exec_request [keeps_intros]: "keeps I (exec_request e k pfl c ty)"
  unfolding exec_request_def serve_conn_def conn_error_def by (intro keeps_intros; simp)

lemma keeps_worker_event [keeps_intros]: "keeps I (worker_event e k pfl aux)"
proof -
  have "keeps I (accept_conn e fd)" "keeps I (storage_ack e k)" "keeps I (dispatched e fd)" for fd
    unfolding accept_conn_def storage_ack_def dispatched_def by (intro keeps_intros; simp)+
  then show ?thesis unfolding worker_event_def
    by (auto simp: Let_def intro!: keeps_intros split: prod.splits event_t.splits)
qed

lemma keeps_serve_events [keeps_intros]: "keeps I (serve_events e k j)"
proof (induction j)
  case 0
  then show ?case by (simp add: keeps_intros)
next
  case (Suc j)
  have "keeps I (\<lambda>n. case dw_poll_next (dw_poll n) of (ev, p) \<Rightarrow> Some (Inr (ev, n\<lparr>dw_poll := p\<rparr>)))"
    by (rule keepsI) (auto simp: sheds_refl split: prod.splits elim!: shed)
  with Suc show ?case by (auto intro!: keeps_intros split: loop_end.splits)
qed

lemma keeps_worker_round [keeps_intros]: "keeps I (worker_round e k j w eintr)"
  unfolding worker_round_def by (intro keeps_intros)

lemma keeps_worker_init [keeps_intros]: "keeps I (worker_init e)"
proof -
  have each: "keeps I (for_each f xs)" if "\<And>x. keeps I (f x)" for f and xs :: "int list"
    using that by (induction xs) (auto intro!: keeps_intros)
  have "keeps I (poll_add_checked e fd aux)" for fd aux
    unfolding poll_add_checked_def by (intro keeps_intros)
  then show ?thesis unfolding worker_init_def add_listen_def
    by (intro keeps_intros each keeps_on_tbl) (auto simp: rbind_eq_Inr intro: sheds_refl keeps_intros)
qed

end


section \<open>The invariant of the worker\<close>

text \<open>
  The queue of timeouts and the requests point to each other: an entry for a request belongs to the slot of its id, whose
  \<^verbatim>\<open>timeout_node\<close> is that entry, and there are no other entries in use. The slot may have been freed in the meantime.
\<close>

definition timeouts_inv :: "int pqueue_t \<Rightarrow> 'a req_table_scheme \<Rightarrow> bool" where
  "timeouts_inv q s \<longleftrightarrow> pq_inv q \<and> pcapacity q = MAX_REQS \<and>
     (\<forall>x k rid. pq_abs q x = Some (k, rid) \<longrightarrow> timeout_node (reqs s (req_slot rid)) = Some x) \<and>
     (\<forall>r < MAX_REQS. \<forall>x. timeout_node (reqs s r) = Some x \<longrightarrow> (\<exists>k rid. pq_abs q x = Some (k, rid) \<and> req_slot rid = r))"

definition node_inv :: "'k node \<Rightarrow> bool" where
  "node_inv n \<longleftrightarrow> req_inv (tbl n) \<and> timeouts_inv (timeout_queue (infos n)) (tbl n)"

lemma timeouts_inv_frame:
  "(\<And>r. timeout_node (reqs s' r) = timeout_node (reqs s r)) \<Longrightarrow> timeouts_inv q s \<Longrightarrow> timeouts_inv q s'"
  by (simp add: timeouts_inv_def)

lemma req_get_by_id_slot: "req_get_by_id rid s = Some r \<Longrightarrow> r = req_slot rid \<and> r < MAX_REQS \<and> req_id (reqs s r) = rid"
  by (simp add: req_get_by_id_def split: if_splits) (metis req_slot_less)

lemma timeouts_invD:
  assumes "timeouts_inv q s"
  shows "pq_inv q" "pcapacity q = MAX_REQS"
    and "pq_abs q x = Some (k, rid) \<Longrightarrow> timeout_node (reqs s (req_slot rid)) = Some x"
    and "r < MAX_REQS \<Longrightarrow> timeout_node (reqs s r) = Some x \<Longrightarrow> \<exists>k rid. pq_abs q x = Some (k, rid) \<and> req_slot rid = r"
  using assms by (auto simp: timeouts_inv_def)

text \<open>There is room for a timeout of a request that has none.\<close>

lemma timeouts_inv_room:
  assumes "timeouts_inv q s" "r < MAX_REQS" "timeout_node (reqs s r) = None"
  shows "psize q < pcapacity q"
proof -
  let ?f = "\<lambda>x. req_slot (snd (the (pq_abs q x)))"
  have inv: "pq_inv q" "pcapacity q = MAX_REQS" and
    a: "\<And>x k rid. pq_abs q x = Some (k, rid) \<Longrightarrow> timeout_node (reqs s (req_slot rid)) = Some x"
    using assms(1) by (auto simp: timeouts_inv_def)
  have "inj_on ?f (dom (pq_abs q))"
  proof (rule inj_onI)
    fix x y
    assume "x \<in> dom (pq_abs q)" "y \<in> dom (pq_abs q)" "?f x = ?f y"
    then obtain k rid k' rid' where "pq_abs q x = Some (k, rid)" "pq_abs q y = Some (k', rid')" "req_slot rid = req_slot rid'"
      by (auto simp: dom_def)
    then show "x = y" using a by (metis option.inject)
  qed
  moreover have "?f ` dom (pq_abs q) \<subseteq> {..<MAX_REQS} - {r}"
  proof
    fix y
    assume "y \<in> ?f ` dom (pq_abs q)"
    then obtain x k rid where x: "pq_abs q x = Some (k, rid)" "y = req_slot rid" by (auto simp: dom_def)
    then show "y \<in> {..<MAX_REQS} - {r}" using a [OF x(1)] assms(3) by auto
  qed
  ultimately have "card (dom (pq_abs q)) \<le> card ({..<MAX_REQS} - {r})"
    by (intro card_inj_on_le) auto
  also have "\<dots> < MAX_REQS" using assms(2) by (simp add: MAX_REQS_def)
  finally show ?thesis using inv card_dom_pq_abs [OF inv(1)] by simp
qed

lemma insert_timeout_inv:
  assumes "timeouts_inv (timeout_queue w) s"
  shows "insert_timeout cur rid us w s = Some (Inl Int_Overflow) \<and> \<not> insert_fits cur us w \<or>
    (\<exists>tm w' s'. insert_timeout cur rid us w s = Some (Inr (tm, w', s')) \<and> timeouts_inv (timeout_queue w') s' \<and>
      (\<forall>i. req_id (reqs s' i) = req_id (reqs s i)))"
proof (cases "req_get_by_id rid s")
  case None
  then show ?thesis using assms by (simp add: insert_timeout_def)
next
  case (Some r)
  note r = req_get_by_id_slot [OF Some]
  show ?thesis
  proof (cases "timeout_node (reqs s r)")
    case (Some x)
    then show ?thesis using assms \<open>req_get_by_id rid s = Some r\<close> by (simp add: insert_timeout_def)
  next
    case None
    let ?q = "timeout_queue w"
    have inv: "pq_inv ?q" using assms by (simp add: timeouts_inv_def)
    show ?thesis
    proof (cases "new_deadline cur us w")
      case (Inl e)
      then have "e = Int_Overflow \<and> \<not> insert_fits cur us w" by (auto simp: new_deadline_cases split: option.splits if_splits)
      then show ?thesis using Inl None Some by (simp add: insert_timeout_def obind_def)
    next
      case (Inr x)
      obtain k w1 where k: "new_deadline cur us w = Inr (k, w1)" using Inr by (cases x) auto
      then have w1: "timeout_queue w1 = ?q" by (auto simp: new_deadline_cases split: option.splits if_splits)
      obtain x q' where ins: "pqueue_insert ?q k rid = Some (Inr (x, q'))" "pq_inv q'" "pcapacity q' = pcapacity ?q"
          "pq_abs ?q x = None" "pq_abs q' = (pq_abs ?q)(x \<mapsto> (k, rid))"
        using pq.ins_law [OF inv] timeouts_inv_room [OF assms] r None card_dom_pq_abs [OF inv] by metis
      let ?s' = "upd_req r (timeout_node_update (\<lambda>_. Some x)) s"
      have "timeouts_inv q' ?s'"
        unfolding timeouts_inv_def
      proof (intro conjI allI impI)
        show "pq_inv q'" "pcapacity q' = MAX_REQS" using ins timeouts_invD(2) [OF assms] by auto
        show "timeout_node (reqs ?s' (req_slot rid')) = Some y" if "pq_abs q' y = Some (k', rid')" for y k' rid'
          using that ins(5) r None timeouts_invD(3) [OF assms, of y k' rid'] by (cases "y = x") (auto simp: reqs_upd_req)
        show "\<exists>k rid. pq_abs q' y = Some (k, rid) \<and> req_slot rid = i" if "i < MAX_REQS" "timeout_node (reqs ?s' i) = Some y" for i y
          using that ins(4,5) r timeouts_invD(4) [OF assms that(1), of y] by (cases "i = r") (auto simp: reqs_upd_req)
      qed
      then show ?thesis using ins(1) k w1 None Some by (simp add: insert_timeout_def reqs_upd_req obind_def)
    qed
  qed
qed

lemma remove_timeout_inv:
  assumes "timeouts_inv (timeout_queue w) s"
  shows "remove_timeout cur rid w s = Some (Inl Int_Overflow) \<and> \<not> remove_fits cur (timeout_queue w) \<or>
    (\<exists>v tm w' s'. remove_timeout cur rid w s = Some (Inr (v, tm, w', s')) \<and> timeouts_inv (timeout_queue w') s' \<and>
      (\<forall>i. req_id (reqs s' i) = req_id (reqs s i)))"
proof (cases "req_get_by_id rid s")
  case None
  then show ?thesis using assms by (simp add: remove_timeout_def)
next
  case (Some r)
  note r = req_get_by_id_slot [OF Some]
  show ?thesis
  proof (cases "timeout_node (reqs s r)")
    case None
    then show ?thesis using assms Some by (simp add: remove_timeout_def)
  next
    case x: (Some x)
    let ?q = "timeout_queue w"
    have inv: "pq_inv ?q" using assms by (simp add: timeouts_inv_def)
    obtain k rid' where e: "pq_abs ?q x = Some (k, rid')" "req_slot rid' = r"
      using timeouts_invD(4) [OF assms _ x] r by blast
    obtain q' where rm: "pqueue_remove ?q x = Some (Inr q')" "pq_inv q'" "pcapacity q' = pcapacity ?q"
        "pq_abs q' = (pq_abs ?q)(x := None)"
      using pq.del_law [OF inv domI [where m = "pq_abs ?q", OF e(1)]] by blast
    obtain tp where tp: "pqueue_top ?q = Some tp" using pq.top_None [OF inv] e(1) by fastforce
    let ?s' = "upd_req r (timeout_node_update (\<lambda>_. None)) s"
    have "timeouts_inv q' ?s'"
      unfolding timeouts_inv_def
    proof (intro conjI allI impI)
      show "pq_inv q'" "pcapacity q' = MAX_REQS" using rm timeouts_invD(2) [OF assms] by auto
      show "timeout_node (reqs ?s' (req_slot rid2)) = Some y" if "pq_abs q' y = Some (k', rid2)" for y k' rid2
        using that rm(4) x timeouts_invD(3) [OF assms, of y k' rid2] by (auto simp: reqs_upd_req split: if_splits)
      show "\<exists>k rid. pq_abs q' y = Some (k, rid) \<and> req_slot rid = i" if "i < MAX_REQS" "timeout_node (reqs ?s' i) = Some y" for i y
        using that rm(4) e timeouts_invD(4) [OF assms that(1), of y] by (auto simp: reqs_upd_req split: if_splits)
    qed
    moreover have "\<not> remove_fits cur ?q"
      if "remove_timeout cur rid w s = Some (Inl e)" for e
    proof
      assume fits: "remove_fits cur ?q"
      let ?el = "pqueue_node_key ?q tp - its_to_us cur"
      have f: "in_int ?el" "pq_abs ?q y = Some (k', d) \<Longrightarrow> in_int (k' - ?el)" for y k' d using fits tp by (auto simp: remove_fits_def Let_def)
      have "in_int (pqueue_node_key ?q x - ?el)" using f(2) [OF e(1)] pq_key [OF e(1)] by simp
      moreover have "in_int (pqueue_node_key q' y - ?el)" if y: "pqueue_top q' = Some y" for y
        using pq_top_abs(1) [OF rm(2) y] f(2) rm(4) by (auto split: if_splits)
      ultimately show False using that rm(1) tp x Some f(1) by (auto simp: remove_timeout_def Let_def obind_def split: option.splits if_splits)
    qed
    ultimately show ?thesis using rm(1) tp x Some
      by (cases "pqueue_top q'") (auto simp: remove_timeout_def Let_def reqs_upd_req obind_def c_int_def split: if_splits)
  qed
qed

interpretation inv: node_invariant node_inv
proof
  show "node_inv n'" if "node_inv n" "sheds (tbl n) (tbl n')" "timeout_queue (infos n') = timeout_queue (infos n)" for n n' :: "'a node"
  proof -
    have "req_inv (tbl n')" using that(1,2) by (auto simp: node_inv_def req_inv_def sheds_def) metis
    then show ?thesis using that timeouts_inv_frame [of "tbl n'" "tbl n"] by (auto simp: node_inv_def sheds_def)
  qed
  show "node_inv (n\<lparr>tbl := s'\<rparr>)" if "node_inv n" "req_alloc (tbl n) = (ro, s')" for n :: "'a node" and ro s'
  proof -
    have "timeout_node (reqs s' r) = timeout_node (reqs (tbl n) r)" for r
      using that(2) by (auto simp: req_alloc_def Let_def reqs_upd_req split: if_splits)
    then show ?thesis using that req_inv_alloc [of "tbl n"] timeouts_inv_frame [of s' "tbl n"] by (auto simp: node_inv_def)
  qed
  show "node_inv (n\<lparr>infos := w, tbl := s'\<rparr>)"
    if "node_inv n" "insert_timeout cur rid us (infos n) (tbl n) = Some (Inr (tm, w, s'))" for n :: "'a node" and cur rid us tm w s'
    using that insert_timeout_inv [of "infos n" "tbl n" cur rid us] by (auto simp: node_inv_def req_inv_def)
  show "node_inv (n\<lparr>infos := w, tbl := s'\<rparr>)"
    if "node_inv n" "remove_timeout cur rid (infos n) (tbl n) = Some (Inr (v, tm, w, s'))" for n :: "'a node" and cur rid v tm w s'
    using that remove_timeout_inv [of "infos n" "tbl n" cur rid] by (auto simp: node_inv_def req_inv_def)
qed

section \<open>Reachable states\<close>

text \<open>
  The state that \<^verbatim>\<open>main\<close> prepares: an empty table of requests and an empty queue of timeouts with room for \<^verbatim>\<open>MAX_REQS\<close> entries; the connections
  are those of the listening sockets. A worker starts and then serves rounds of events, whatever the system calls return.
\<close>

definition booted :: "'k node \<Rightarrow> bool" where
  "booted n \<longleftrightarrow> (\<forall>r < MAX_REQS. reqs (tbl n) r = zero_req\<lparr>req_id := -1, conn_id := -1\<rparr>) \<and>
     (\<exists>g g'. timeout_queue (infos n) = pqueue_alloc g g' MAX_REQS)"

inductive reachable :: "'k node_env \<Rightarrow> 'k node \<Rightarrow> bool" for e where
  start: "booted n \<Longrightarrow> worker_init e n = Some (Inr ((), n')) \<Longrightarrow> reachable e n'"
| round: "reachable e n \<Longrightarrow> worker_round e k j w eintr n = Some (Inr (True, n')) \<Longrightarrow> reachable e n'"

lemma booted_inv: "booted n \<Longrightarrow> node_inv n"
  by (auto simp: booted_def node_inv_def req_inv_def timeouts_inv_def pq_inv_alloc zero_req_def) (simp_all add: pqueue_alloc_def)

lemma reachable_node_inv: "reachable e n \<Longrightarrow> node_inv n"
proof (induction rule: reachable.induct)
  case (start n n')
  then show ?case using keepsD [OF inv.keeps_worker_init booted_inv] by blast
next
  case (round n k j w eintr n')
  then show ?case using keepsD [OF inv.keeps_worker_round] by blast
qed

text \<open>C5. In every state that a worker reaches, with any results of the system calls, the table of requests is well formed, a timeout belongs
  to one slot and a slot has at most one timeout. So the operations on the timeouts return for every request id: the queue of timeouts never
  overflows, although \<^verbatim>\<open>pqueue_insert\<close> does not check for it, and a removed entry is always one in use. The only fault they can have is the overflow of
  a sum of values of type \<^verbatim>\<open>int\<close>, when a deadline or a difference of deadlines is not in the range of the type.\<close>

theorem reachable_timeouts_safe:
  assumes "reachable e n"
  shows "req_inv (tbl n) \<and> timeouts_inv (timeout_queue (infos n)) (tbl n) \<and>
    ((\<exists>tm w s. insert_timeout cur rid us (infos n) (tbl n) = Some (Inr (tm, w, s)) \<and> timeouts_inv (timeout_queue w) s) \<or>
      insert_timeout cur rid us (infos n) (tbl n) = Some (Inl Int_Overflow) \<and> \<not> insert_fits cur us (infos n)) \<and>
    ((\<exists>v tm w s. remove_timeout cur rid (infos n) (tbl n) = Some (Inr (v, tm, w, s)) \<and> timeouts_inv (timeout_queue w) s) \<or>
      remove_timeout cur rid (infos n) (tbl n) = Some (Inl Int_Overflow) \<and> \<not> remove_fits cur (timeout_queue (infos n)))"
  using reachable_node_inv [OF assms] insert_timeout_inv [of "infos n" "tbl n" cur rid us]
    remove_timeout_inv [of "infos n" "tbl n" cur rid] by (auto simp: node_inv_def)

text \<open>A worker without listening sockets that polls its termination descriptor and its timer.\<close>

definition idle_node_env :: "unit node_env" where
  "idle_node_env = \<lparr>ctl = \<lambda>op fd ev aux k. (0, k), this_thread = 0, accept_mode = AM_CHILD, conn_threads = 1, storage_devices = 0,
     storage_fds = \<lambda>d. -1, g_enable_defrag = True, termination_fd = 3, timer_fd = 4, stat_fd = -1, store_reply_fds = [],
     dispatch_fd = -1, sys_rv = \<lambda>i. 5, sends = \<lambda>i. idle_env, recvs = \<lambda>i. \<lparr>recvfrom_res = (-1, EAGAIN), ssl_read_res = (0, SSL_ERROR_OTHER),
     recv_data = [], recv_from = \<lparr>sin_addr = 0, sin_port = 0\<rparr>\<rparr>, callocs = \<lambda>i. (True, True), connects = \<lambda>i. (-1, EINPROGRESS),
     accepts = \<lambda>i. (6, \<lparr>sin_addr = 0, sin_port = 0\<rparr>), so_errors = \<lambda>i. 0, ssl_news = \<lambda>i. (None, False),
     handshakes = \<lambda>i. (0, SSL_ERROR_WANT_READ), timers = \<lambda>i. us_to_its 0, pipe_writes = \<lambda>i. 0, pipe_reads = \<lambda>i. None,
     thread_cnts = \<lambda>i. 0\<rparr>"

definition idle_node :: "unit node" where
  "idle_node = \<lparr>tbl = conn_init (req_init sample_state),
     infos = waiting_worker\<lparr>timeout_queue := pqueue_alloc (\<lambda>i. \<lparr>heap_id = 0, key = 0, data = 0\<rparr>) (\<lambda>i. 0) MAX_REQS\<rparr>,
     dw_poll = \<lparr>use_spinning = False, u = DW_POLL \<lparr>pollfds = [], p_iter = 0\<rparr>\<rparr>, calls = 0, trace = []\<rparr>"

lemma idle_node_reachable: "\<exists>n. reachable idle_node_env n \<and> pqueue_top (timeout_queue (infos n)) = None"
proof -
  have "booted idle_node"
    by (auto simp: booted_def idle_node_def conn_init_def req_init_def waiting_worker_def)
  moreover have "\<exists>n. worker_init idle_node_env idle_node = Some (Inr ((), n)) \<and> infos n = infos idle_node"
    by (simp add: worker_init_def poll_add_checked_def act_simps idle_node_env_def idle_node_def waiting_worker_def on_poll_def
        dw_poll_add_def poll_add_def MAX_POLLFD_def nbind_def check_def gets_def)
  moreover have "pqueue_top (timeout_queue (infos idle_node)) = None" by (simp add: idle_node_def pqueue_top_def pqueue_alloc_def)
  ultimately show ?thesis using reachable.start by metis
qed

theorem reachable_timeouts_safe_witness:
  "\<exists>n tm w s. reachable idle_node_env n \<and> insert_timeout (us_to_its 0) 5 1000 (infos n) (tbl n) = Some (Inr (tm, w, s))"
proof -
  obtain n where n: "reachable idle_node_env n" "pqueue_top (timeout_queue (infos n)) = None" using idle_node_reachable by blast
  then have "insert_fits (us_to_its 0) 1000 (infos n)" by (simp add: insert_fits_def)
  then show ?thesis using reachable_timeouts_safe [OF n(1), of "us_to_its 0" 5 1000] n(1) by blast
qed

end
