(* ===== verification/DW_Quorum.thy ===== *)
theory DW_Quorum
  imports DW_Node
begin

text \<open>
  The replies to a forward (\<^verbatim>\<open>handle_forward_reply\<close> in \<^verbatim>\<open>src/dw_node.c\<close>): a forward waits for the replies of as many
  different branches as its \<^verbatim>\<open>n_ack\<close> says.
\<close>

unbundle bit_operations_syntax

section \<open>A request that waits for replies\<close>

definition waits_for_forward :: "nat \<Rightarrow> int \<Rightarrow> bytes \<Rightarrow> nat \<Rightarrow> nat \<Rightarrow> nat \<Rightarrow> 'k node \<Rightarrow> bool" where
  "waits_for_forward r rid b m e cmd n \<longleftrightarrow> (let q = reqs (tbl n) r in
     req_get_by_id rid (tbl n) = Some r \<and> message_ptr q = Some m \<and> curr_cmd q = Some cmd \<and>
     recv_buf (conns (tbl n) (nat (conn_id q))) = Some b \<and> message_end b m = Inr e \<and> m + 12 \<le> cmd)"

lemma waits_msg_of: "waits_for_forward r rid b m e cmd n \<Longrightarrow> nbind (msg_of r) f n = f (b, m) n"
  by (simp add: waits_for_forward_def msg_of_def Let_def nbind_assoc act_simps the_buf_def)

text \<open>The effect of one more reply on the counters of the request.\<close>

definition counted :: "nat \<Rightarrow> int \<Rightarrow> int \<Rightarrow> 'k node \<Rightarrow> 'k node" where
  "counted r msk left n = n\<lparr>tbl := upd_req r (\<lambda>q. q\<lparr>fwd_replies_mask := msk, fwd_replies_left := left\<rparr>) (tbl n)\<rparr>"

lemma counted_simps [simp]:
  "fwd_replies_mask (reqs (tbl (counted r msk left n)) r) = msk"
  "fwd_replies_left (reqs (tbl (counted r msk left n)) r) = left"
  "curr_cmd (reqs (tbl (counted r msk left n)) r') = curr_cmd (reqs (tbl n) r')"
  "counted r msk' left' (counted r msk left n) = counted r msk' left' n"
  "conns (tbl (counted r msk left n)) = conns (tbl n)"
  by (simp_all add: counted_def reqs_upd_req upd_req_def)

lemma counted_same:
  "counted r (fwd_replies_mask (reqs (tbl n) r)) (fwd_replies_left (reqs (tbl n) r)) n = n"
  by (simp add: counted_def upd_req_def)

lemma waits_counted [simp]: "waits_for_forward r rid b m e cmd (counted r msk left n) = waits_for_forward r rid b m e cmd n"
  by (auto simp: waits_for_forward_def Let_def counted_def reqs_upd_req req_get_by_id_def upd_req_def)

lemma bit_mask_set:
  assumes "0 \<le> i" "i < 31" "mask_set msk i = Inr msk'" "k < 32"
  shows "bit msk' k \<longleftrightarrow> bit msk k \<or> k = nat i"
proof -
  have k: "min 31 k = k" using assms(4) by simp
  have "msk' = signed_take_bit 31 (msk OR 2 ^ nat i)" using assms(1-3) by (simp add: mask_set_def i32_def)
  then show ?thesis by (auto simp: bit_signed_take_bit_iff k bit_or_iff bit_exp_iff)
qed

lemma count_reply_awaits:
  assumes "waits_for_forward r rid b m e cmd n" "find_forward_reply_id b (Some cmd) a e 0 = Inr i" "i < 31" "-1 \<le> i"
    "0 \<le> i \<Longrightarrow> \<not> bit (fwd_replies_mask (reqs (tbl n) r)) (nat i) \<Longrightarrow> 1 < fwd_replies_left (reqs (tbl n) r)"
  shows "count_reply rid st a n = Some (Inr (None,
    if i = -1 \<or> bit (fwd_replies_mask (reqs (tbl n) r)) (nat i) then n
    else counted r (i32 (fwd_replies_mask (reqs (tbl n) r) OR 2 ^ nat i)) (fwd_replies_left (reqs (tbl n) r) - 1) n))"
proof -
  have w: "req_get_by_id rid (tbl n) = Some r" "message_end b m = Inr e" "curr_cmd (reqs (tbl n) r) = Some cmd"
    using assms(1) by (auto simp: waits_for_forward_def Let_def)
  note run = count_reply_def act_simps w waits_msg_of [OF assms(1)] mask_test_def mask_set_def assms(2)
  have up: "upd_req r (\<lambda>q. q\<lparr>fwd_replies_mask := x, fwd_replies_left := fwd_replies_left q - 1\<rparr>) (tbl n) =
      upd_req r (\<lambda>q. q\<lparr>fwd_replies_mask := x, fwd_replies_left := fwd_replies_left (reqs (tbl n) r) - 1\<rparr>) (tbl n)" for x
    by (simp add: upd_req_def)
  show ?thesis
  proof (cases "0 \<le> i")
    case False
    then show ?thesis using assms(4) by (simp add: run)
  next
    case True
    show ?thesis
    proof (cases "bit (fwd_replies_mask (reqs (tbl n) r)) (nat i)")
      case bit: True
      then show ?thesis using True assms(3) by (simp add: run)
    next
      case False
      then show ?thesis using True assms(3) assms(5) [OF True False] by (simp add: run up counted_def)
    qed
  qed
qed

section \<open>Sequences of replies\<close>

text \<open>Replies that arrive one after the other: each has a status and comes from an address.\<close>

fun feed_replies :: "int \<Rightarrow> (nat \<times> nat \<times> nat) list \<Rightarrow> ('k, nat option list) act" where
  "feed_replies rid [] = ret []"
| "feed_replies rid ((st, a) # rs) =
     nbind (count_reply rid st a) (\<lambda>x. nbind (feed_replies rid rs) (\<lambda>xs. ret (x # xs)))"

text \<open>The branches of the forward at \<open>cmd\<close> that the replies come from; an address that is not one of the forward's does not count.\<close>

definition branches :: "bytes \<Rightarrow> nat \<Rightarrow> nat \<Rightarrow> (nat \<times> nat \<times> nat) list \<Rightarrow> int set" where
  "branches b cmd e rs = {i. 0 \<le> i \<and> (\<exists>(st, a) \<in> set rs. find_forward_reply_id b (Some cmd) a e 0 = Inr i)}"

lemma branches_simps [simp]:
  "branches b cmd e [] = {}"
  "branches b cmd e ((st, a) # rs) =
     (case find_forward_reply_id b (Some cmd) a e 0 of Inr i \<Rightarrow> if 0 \<le> i then insert i (branches b cmd e rs) else branches b cmd e rs
      | Inl x \<Rightarrow> branches b cmd e rs)"
  by (auto simp: branches_def split: sum.splits)

lemma finite_branches [simp]: "finite (branches b cmd e rs)"
  by (induction rs) (auto split: sum.splits)

lemma branches_append: "branches b cmd e (rs @ ss) = branches b cmd e rs \<union> branches b cmd e ss"
  by (auto simp: branches_def)

definition known_branches :: "bytes \<Rightarrow> nat \<Rightarrow> nat \<Rightarrow> (nat \<times> nat \<times> nat) list \<Rightarrow> bool" where
  "known_branches b cmd e rs \<longleftrightarrow>
     (\<forall>(st, a) \<in> set rs. \<exists>i. find_forward_reply_id b (Some cmd) a e 0 = Inr i \<and> -1 \<le> i \<and> i < 31)"

lemma feed_replies_counts:
  assumes "waits_for_forward r rid b m e cmd n" "known_branches b cmd e rs"
    "\<forall>k < 32. bit (fwd_replies_mask (reqs (tbl n) r)) k \<longleftrightarrow> int k \<in> A" "finite A"
    "int (card (branches b cmd e rs - A)) < fwd_replies_left (reqs (tbl n) r)"
  shows "\<exists>msk. feed_replies rid rs n = Some (Inr (replicate (length rs) None,
      counted r msk (fwd_replies_left (reqs (tbl n) r) - int (card (branches b cmd e rs - A))) n)) \<and>
    (\<forall>k < 32. bit msk k \<longleftrightarrow> int k \<in> A \<union> branches b cmd e rs)"
  using assms
proof (induction rs arbitrary: n A)
  case Nil
  then show ?case
    by (intro exI [of _ "fwd_replies_mask (reqs (tbl n) r)"]) (simp add: act_simps counted_same)
next
  case (Cons x rs)
  obtain st a where x: "x = (st, a)" by (cases x)
  obtain i where i: "find_forward_reply_id b (Some cmd) a e 0 = Inr i" "-1 \<le> i" "i < 31"
    using Cons.prems(2) x by (auto simp: known_branches_def)
  have kb: "known_branches b cmd e rs" using Cons.prems(2) by (simp add: known_branches_def)
  let ?q = "reqs (tbl n) r"
  show ?case
  proof (cases "0 \<le> i \<and> i \<notin> A")
    case False
    have nb: "bit (fwd_replies_mask ?q) (nat i)" if "0 \<le> i" using Cons.prems(3) False i that by auto
    then have "count_reply rid st a n = Some (Inr (None, n))"
      using count_reply_awaits [OF Cons.prems(1) i(1,3,2)] i(2) by (cases "0 \<le> i") auto
    moreover have br: "branches b cmd e (x # rs) - A = branches b cmd e rs - A"
        "A \<union> branches b cmd e (x # rs) = A \<union> branches b cmd e rs"
      using x i False by auto
    ultimately show ?thesis
      using Cons.IH [OF Cons.prems(1) kb Cons.prems(3,4)] Cons.prems(5) x
      by (auto simp: nbind_run act_simps)
  next
    case True
    then have nb: "\<not> bit (fwd_replies_mask ?q) (nat i)" using Cons.prems(3) i by auto
    have br: "branches b cmd e (x # rs) - A = insert i (branches b cmd e rs - insert i A)"
      using x i True by auto
    have card: "card (branches b cmd e (x # rs) - A) = Suc (card (branches b cmd e rs - insert i A))"
      unfolding br by (subst card_insert_disjoint) auto
    define msk where "msk = i32 (fwd_replies_mask ?q OR 2 ^ nat i)"
    have ms: "mask_set (fwd_replies_mask ?q) i = Inr msk" using True i by (simp add: mask_set_def msk_def)
    have c: "count_reply rid st a n = Some (Inr (None, counted r msk (fwd_replies_left ?q - 1) n))"
      using count_reply_awaits [OF Cons.prems(1) i(1,3,2)] True nb Cons.prems(5) card by (simp add: msk_def)
    have bits: "\<forall>k < 32. bit msk k \<longleftrightarrow> int k \<in> insert i A"
      using bit_mask_set [OF _ i(3) ms] True Cons.prems(3) by auto
    obtain msk' where "feed_replies rid rs (counted r msk (fwd_replies_left ?q - 1) n) = Some (Inr (replicate (length rs) None,
        counted r msk' (fwd_replies_left ?q - 1 - int (card (branches b cmd e rs - insert i A))) n))"
        "\<forall>k < 32. bit msk' k \<longleftrightarrow> int k \<in> insert i A \<union> branches b cmd e rs"
      using Cons.IH [of "counted r msk (fwd_replies_left ?q - 1) n" "insert i A"] Cons.prems(1,4,5) kb bits card by auto
    then show ?thesis using c x i True card by (auto simp: nbind_run act_simps algebra_simps)
  qed
qed

text \<open>The reply that completes the forward.\<close>

lemma count_reply_completes:
  assumes "waits_for_forward r rid b m e cmd n" "find_forward_reply_id b (Some cmd) a e 0 = Inr i" "0 \<le> i" "i < 31"
    "\<not> bit (fwd_replies_mask (reqs (tbl n) r)) (nat i)" "fwd_replies_left (reqs (tbl n) r) \<le> 1"
    "put_status b m st = Inr b'" "cmd_bounded_skip b' (Some cmd) 1 e = Inr nx"
  shows "\<exists>n'. count_reply rid st a n = Some (Inr (Some r, n')) \<and> curr_cmd (reqs (tbl n') r) = nx \<and>
    fwd_replies_left (reqs (tbl n') r) = -1 \<and> recv_buf (conns (tbl n') (nat (conn_id (reqs (tbl n') r)))) = Some b' \<and>
    message_ptr (reqs (tbl n') r) = Some m"
proof -
  have w: "req_get_by_id rid (tbl n) = Some r" "message_end b m = Inr e" "curr_cmd (reqs (tbl n) r) = Some cmd"
      "recv_buf (conns (tbl n) (nat (conn_id (reqs (tbl n) r)))) = Some b" "message_ptr (reqs (tbl n) r) = Some m"
    using assms(1) by (auto simp: waits_for_forward_def Let_def)
  have i: "\<not> i < 0" "\<not> 31 \<le> i" "i \<noteq> -1" using assms(3,4) by auto
  show ?thesis
    by (simp add: count_reply_def act_simps w waits_msg_of [OF assms(1)] mask_test_def mask_set_def i assms(2,5-8)
        the_buf_def reqs_upd_req upd_conn_def upd_req_def)
qed

text \<open>C4. A forward with \<^verbatim>\<open>n_ack = L\<close> waits for the replies of \<open>L\<close> different branches, in whatever order the replies arrive. As long as fewer
  branches have answered, every reply is counted at most once for its branch and not at all if it comes from another address, and the
  request stays at the forward; the reply of the \<open>L\<close>-th branch, and no other, ends the forward: the request goes on
  after the whole context of the forward, with the status of that reply.\<close>

theorem forward_quorum:
  assumes "waits_for_forward r rid b m e cmd n" "fwd_replies_mask (reqs (tbl n) r) = 0"
    "fwd_replies_left (reqs (tbl n) r) = int L" "known_branches b cmd e (rs @ [(st, a)])" "card (branches b cmd e rs) < L"
    "e \<le> length b" "list_all ctx_wf (c # cs)" "cmds_at b e cmd (concat (map ctx_cmds (c # cs)) @ [t])" "t \<noteq> FORWARD_CONTINUE"
    "st < 2 ^ 32"
  shows "\<exists>n1 x n2. feed_replies rid rs n = Some (Inr (replicate (length rs) None, n1)) \<and>
    fwd_replies_left (reqs (tbl n1) r) = int L - int (card (branches b cmd e rs)) \<and> waits_for_forward r rid b m e cmd n1 \<and>
    count_reply rid st a n1 = Some (Inr (x, n2)) \<and>
    (if card (branches b cmd e (rs @ [(st, a)])) < L then x = None \<and> waits_for_forward r rid b m e cmd n2
     else x = Some r \<and> curr_cmd (reqs (tbl n2) r) = Some (cmd + cmds_len (ctx_cmds c)) \<and>
       fwd_replies_left (reqs (tbl n2) r) = -1 \<and>
       (\<exists>b'. recv_buf (conns (tbl n2) (nat (conn_id (reqs (tbl n2) r)))) = Some b' \<and> get_status b' m = Inr st))"
proof -
  obtain msk where msk: "feed_replies rid rs n = Some (Inr (replicate (length rs) None,
      counted r msk (int L - int (card (branches b cmd e rs))) n))" "\<forall>k < 32. bit msk k \<longleftrightarrow> int k \<in> branches b cmd e rs"
    using feed_replies_counts [OF assms(1), of rs "{}"] assms(2-5) by (auto simp: known_branches_def)
  define n1 where "n1 = counted r msk (int L - int (card (branches b cmd e rs))) n"
  have w1: "waits_for_forward r rid b m e cmd n1" using assms(1) by (simp add: n1_def)
  obtain i where i: "find_forward_reply_id b (Some cmd) a e 0 = Inr i" "-1 \<le> i" "i < 31"
    using assms(4) by (auto simp: known_branches_def)
  have br: "branches b cmd e (rs @ [(st, a)]) = (if 0 \<le> i then insert i (branches b cmd e rs) else branches b cmd e rs)"
    using i(1) by (simp add: branches_append)
  have bit: "bit (fwd_replies_mask (reqs (tbl n1) r)) (nat i) \<longleftrightarrow> i \<in> branches b cmd e rs" if "0 \<le> i"
    using that i(3) msk(2) by (simp add: n1_def)
  have "\<exists>x n2. count_reply rid st a n1 = Some (Inr (x, n2)) \<and>
    (if card (branches b cmd e (rs @ [(st, a)])) < L then x = None \<and> waits_for_forward r rid b m e cmd n2
     else x = Some r \<and> curr_cmd (reqs (tbl n2) r) = Some (cmd + cmds_len (ctx_cmds c)) \<and> fwd_replies_left (reqs (tbl n2) r) = -1 \<and>
       (\<exists>b'. recv_buf (conns (tbl n2) (nat (conn_id (reqs (tbl n2) r)))) = Some b' \<and> get_status b' m = Inr st))"
  proof (cases "card (branches b cmd e (rs @ [(st, a)])) < L")
    case True
    then have "1 < fwd_replies_left (reqs (tbl n1) r)" if "0 \<le> i" "\<not> bit (fwd_replies_mask (reqs (tbl n1) r)) (nat i)"
      using that bit br by (simp add: n1_def)
    from count_reply_awaits [OF w1 i(1,3,2) this] show ?thesis using True w1 by auto
  next
    case False
    then have i0: "0 \<le> i" "i \<notin> branches b cmd e rs" using assms(5) br by (auto simp: insert_absorb split: if_splits)
    then have "card (branches b cmd e rs) = L - 1" using False assms(5) br by simp
    then have left: "fwd_replies_left (reqs (tbl n1) r) \<le> 1" using assms(5) by (simp add: n1_def)
    have "cmd + 4 \<le> e" using cmds_at_le [of b e cmd "concat (map ctx_cmds (c # cs))" t] assms(8) cmd_type_size_ge [of t] by simp
    moreover have mc: "m + 12 \<le> cmd" using assms(1) by (simp add: waits_for_forward_def Let_def)
    ultimately obtain b' where b': "put_status b m st = Inr b'" using put_status_ok [of m b st] assms(6) by auto
    have "cmds_at b' e cmd (concat (map ctx_cmds (c # cs)) @ [t])"
      using cmds_at_put_status [OF b' assms(8) mc assms(6)] .
    then have "cmd_bounded_skip b' (Some cmd) 1 e = Inr (Some (cmd + cmds_len (ctx_cmds c)))"
      using cmd_bounded_skip_first [OF assms(7) _ assms(9), of b' e cmd "[]"] by simp
    from count_reply_completes [OF w1 i(1) i0(1) i(3) _ left b' this] show ?thesis
      using False bit [OF i0(1)] i0(2) get_status_put [OF b' assms(10)] by auto
  qed
  then show ?thesis using msk(1) w1 by (auto simp: n1_def)
qed


text \<open>A request whose message holds a forward with two branches and that waits for one reply.\<close>

definition fwd_bytes :: bytes where
  "fwd_bytes = enc_message 7 112 0 (enc_cmds sample_cmds)"

definition fwd_node :: "unit node" where
  "fwd_node = \<lparr>tbl = \<lparr>reqs = \<lambda>i. if i = 7 then zero_req\<lparr>req_id := 7, message_ptr := Some 0, curr_cmd := Some 12, fwd_replies_left := 1\<rparr>
       else zero_req\<lparr>req_id := -1\<rparr>, last_reqs = 8, conns = \<lambda>c. sample_conn\<lparr>recv_buf := Some fwd_bytes\<rparr>\<rparr>,
     infos = waiting_worker, dw_poll = \<lparr>use_spinning = False, u = DW_POLL \<lparr>pollfds = [], p_iter = 0\<rparr>\<rparr>, calls = 0, trace = []\<rparr>"

lemma fwd_bytes_facts:
  "message_end fwd_bytes 0 = Inr 112" "cmds_at fwd_bytes 112 12 (map fst sample_cmds)" "length fwd_bytes = 112"
  "find_forward_reply_id fwd_bytes (Some 12) (16777343, 36895) 112 0 = Inr 0"
proof -
  show "message_end fwd_bytes 0 = Inr 112" by (simp add: fwd_bytes_def get_enc_message)
  show "length fwd_bytes = 112"
    by (simp add: fwd_bytes_def sample_cmds_def length_enc_cmds enc_ok_def sizeof_defs)
  show "cmds_at fwd_bytes 112 12 (map fst sample_cmds)"
    using cmds_at_enc_message [of sample_cmds 112 7 112 0 "[]"]
    by (simp add: fwd_bytes_def sample_cmds_def enc_ok_def sizeof_defs)
  have "get_fwd_opts fwd_bytes 12 = Inr sample_fwd"
    using get_fwd_opts_enc [of sample_fwd "le_bytes 4 7 @ le_bytes 4 112 @ le_bytes 4 0" "nat_of_command FORWARD_BEGIN" "enc_cmds (tl sample_cmds)"]
    by (simp add: fwd_bytes_def enc_message_def sample_cmds_def sample_fwd_def)
  then have "get_fwd_addr fwd_bytes 12 = Inr (16777343, 36895)"
    by (auto simp: get_fwd_opts_def get_fwd_addr_def Let_def rbind_eq_Inr sample_fwd_def)
  then show "find_forward_reply_id fwd_bytes (Some 12) (16777343, 36895) 112 0 = Inr 0"
    by (simp add: find_forward_reply_id.simps)
qed

theorem forward_quorum_witness:
  "\<exists>n'. count_reply 7 0 (16777343, 36895) fwd_node = Some (Inr (Some 7, n')) \<and> curr_cmd (reqs (tbl n') 7) = Some 108"
proof -
  have "waits_for_forward 7 7 fwd_bytes 0 112 12 fwd_node"
    by (simp add: waits_for_forward_def fwd_node_def fwd_bytes_facts req_get_by_id_def req_slot_def MAX_REQS_def)
  moreover have "fwd_replies_mask (reqs (tbl fwd_node) 7) = 0" "fwd_replies_left (reqs (tbl fwd_node) 7) = int 1"
    by (simp_all add: fwd_node_def zero_req_def)
  moreover have "known_branches fwd_bytes 12 112 ([] @ [(0, 16777343, 36895)])"
      "branches fwd_bytes 12 112 ([] @ [(0, 16777343, 36895)]) = {0}"
    by (simp_all add: known_branches_def fwd_bytes_facts)
  ultimately show ?thesis
    using forward_quorum [of 7 7 fwd_bytes 0 112 12 fwd_node 1 "[]" 0 "(16777343, 36895)" "Fwd 0 [Op COMPUTE] [[]]" "[]" EOM]
      fwd_bytes_facts by (auto simp: sample_cmds_def act_simps sizeof_defs)
qed

end
