(* ===== verification/DW_Distrib.thy ===== *)
theory DW_Distrib
  imports DW_Float
begin

text \<open>
  Values drawn from a probability distribution, a sequence or a file (\<^verbatim>\<open>src/distrib.h\<close>, \<^verbatim>\<open>src/distrib.c\<close>). The generator
  \<^verbatim>\<open>drand48_r\<close> of the C library is the 48-bit linear congruential generator that POSIX prescribes; its state
  (\<^verbatim>\<open>rnd_buf\<close>) is passed along explicitly.
\<close>

section \<open>Data\<close>

datatype pd_type_t = PD_NONE | FIXED | UNIF | EXPON | NORM | LOGNORM | GAMMA | ARITH_SEQ | GEO_SEQ | SFILE

record pd_spec_t =
  prob :: pd_type_t
  pd_val :: double
  pd_std :: double
  pd_min :: double
  pd_max :: double
  samples :: "double list"
  num_samples :: nat
  cur_sample :: nat

text \<open>Fields that an initialiser of C leaves out are zero.\<close>

definition pd_zero :: pd_spec_t where
  "pd_zero = \<lparr>prob = PD_NONE, pd_val = Fin 0, pd_std = Fin 0, pd_min = Fin 0, pd_max = Fin 0,
     samples = [], num_samples = 0, cur_sample = 0\<rparr>"

definition pd_build_fixed :: "double \<Rightarrow> pd_spec_t" where
  "pd_build_fixed v = pd_zero\<lparr>prob := FIXED, pd_val := v, pd_min := NaN, pd_max := NaN\<rparr>"

definition pd_build_none :: pd_spec_t where
  "pd_build_none = pd_zero\<lparr>prob := PD_NONE, pd_val := NaN, pd_min := NaN, pd_max := NaN\<rparr>"

definition pd_is_none :: "pd_spec_t \<Rightarrow> bool" where
  "pd_is_none p \<longleftrightarrow> prob p = PD_NONE"

section \<open>Random numbers\<close>

type_synonym rng = "48 word"

definition drand48_r :: "rng \<Rightarrow> double \<times> rng" where
  "drand48_r g = (let g' = 0x5DEECE66D * g + 0xB in (Fin (of_nat (unat g') / 2 ^ 48), g'))"

definition pd_init :: "int \<Rightarrow> rng" where
  "pd_init seed = word_of_int (seed mod 2 ^ 32 * 2 ^ 16 + 0x330E)"

definition expon :: "libm \<Rightarrow> double \<Rightarrow> rng \<Rightarrow> double \<times> rng" where
  "expon lm lambda g =
     (let (x, g') = drand48_r g in (ddiv (dneg (m_log lm (dsub (Fin 1) x))) lambda, g'))"

fun gaussian_sum :: "nat \<Rightarrow> double \<Rightarrow> rng \<Rightarrow> double \<times> rng" where
  "gaussian_sum 0 y g = (y, g)"
| "gaussian_sum (Suc n) y g =
     (let (x, g') = drand48_r g in gaussian_sum n (dadd y (dsub x (Fin (1 / 2)))) g')"

definition gaussian :: "libm \<Rightarrow> double \<Rightarrow> double \<Rightarrow> rng \<Rightarrow> double \<times> rng" where
  "gaussian lm avg std g =
     (let (y, g') = gaussian_sum (4 * 4) (Fin 0) g;
          y' = dmul y (ddiv (m_sqrt lm (Fin 12)) (Fin 4))
      in (dadd (dmul y' std) avg, g'))"

fun gamma_sum :: "libm \<Rightarrow> nat \<Rightarrow> double \<Rightarrow> double \<Rightarrow> rng \<Rightarrow> double \<times> rng" where
  "gamma_sum lm 0 scale x g = (x, g)"
| "gamma_sum lm (Suc k) scale x g =
     (let (e, g') = expon lm (ddiv (Fin 1) scale) g in gamma_sum lm k scale (dadd x e) g')"

definition distr_gamma :: "libm \<Rightarrow> double \<Rightarrow> double \<Rightarrow> rng \<Rightarrow> (double \<times> rng) res" where
  "distr_gamma lm avg std g =
     (let scale = ddiv (dmul std std) avg in
      rbind (lrint (ddiv avg scale)) (\<lambda>l.
        let k = i32 l in
        if \<not> dlt (dabs (dsub (d_int k) (ddiv avg scale))) (rnd (1 / 100000)) then Inl Exit_Failure
        else Inr (gamma_sum lm (nat k) scale (Fin 0) g)))"

section \<open>Sampling\<close>

text \<open>
  One pass through the \<^verbatim>\<open>switch\<close> of \<^verbatim>\<open>pd_sample\<close>: whether the function returns at once, the value, the updated
  specification and generator.
\<close>

definition clamp :: "double \<Rightarrow> pd_spec_t \<Rightarrow> pd_spec_t" where
  "clamp v p =
     (if dle (pd_max p) v then p\<lparr>pd_val := pd_max p\<rparr>
      else if dle v (pd_min p) then p\<lparr>pd_val := pd_min p\<rparr>
      else p\<lparr>pd_val := v\<rparr>)"

definition pd_draw :: "libm \<Rightarrow> pd_spec_t \<Rightarrow> rng \<Rightarrow> (bool \<times> double \<times> pd_spec_t \<times> rng) res" where
  "pd_draw lm p g =
     (case prob p of
        PD_NONE \<Rightarrow> Inl Exit_Failure
      | FIXED \<Rightarrow> Inr (True, pd_val p, p, g)
      | UNIF \<Rightarrow>
          (let (x, g') = drand48_r g
           in Inr (True, dadd (pd_min p) (dmul (dsub (pd_max p) (pd_min p)) x), p, g'))
      | EXPON \<Rightarrow> (let (v, g') = expon lm (ddiv (Fin 1) (pd_val p)) g in Inr (False, v, p, g'))
      | NORM \<Rightarrow> (let (v, g') = gaussian lm (pd_val p) (pd_std p) g in Inr (False, v, p, g'))
      | LOGNORM \<Rightarrow>
          (let m2 = dmul (pd_val p) (pd_val p);
               s2 = dmul (pd_std p) (pd_std p);
               xavg = m_log lm (ddiv m2 (m_sqrt lm (dadd m2 s2)));
               xdev = m_sqrt lm (m_log lm (dadd (Fin 1) (ddiv s2 m2)));
               (v, g') = gaussian lm xavg xdev g
           in Inr (False, m_exp lm v, p, g'))
      | GAMMA \<Rightarrow> rbind (distr_gamma lm (pd_val p) (pd_std p) g) (\<lambda>(v, g'). Inr (False, v, p, g'))
      | ARITH_SEQ \<Rightarrow> Inr (False, pd_val p, clamp (dadd (pd_val p) (pd_std p)) p, g)
      | GEO_SEQ \<Rightarrow> Inr (False, pd_val p, clamp (dmul (pd_val p) (pd_std p)) p, g)
      | SFILE \<Rightarrow>
          if cur_sample p \<ge> length (samples p) then Inl Out_Of_Bounds
          else if num_samples p = 0 then Inl Div_By_Zero
          else Inr (False, samples p ! cur_sample p, p\<lparr>cur_sample := (cur_sample p + 1) mod num_samples p\<rparr>, g))"

definition out_of_range :: "pd_spec_t \<Rightarrow> double \<Rightarrow> bool" where
  "out_of_range p v \<longleftrightarrow>
     \<not> isnan (pd_min p) \<and> dlt v (pd_min p) \<or> \<not> isnan (pd_max p) \<and> dlt (pd_max p) v"

text \<open>\<^verbatim>\<open>goto retry\<close> may go on forever: the result is then \<open>None\<close>.\<close>

partial_function (option) pd_sample ::
    "libm \<Rightarrow> pd_spec_t \<Rightarrow> rng \<Rightarrow> (double \<times> pd_spec_t \<times> rng) res option" where
  "pd_sample lm p g =
     (case pd_draw lm p g of
        Inl e \<Rightarrow> Some (Inl e)
      | Inr r \<Rightarrow>
          if fst r \<or> \<not> out_of_range (fst (snd (snd r))) (fst (snd r)) then Some (Inr (snd r))
          else pd_sample lm (fst (snd (snd r))) (snd (snd (snd r))))"

definition pd_len :: "libm \<Rightarrow> pd_spec_t \<Rightarrow> int res" where
  "pd_len lm p =
     (case prob p of
        ARITH_SEQ \<Rightarrow> to_i32 (ddiv (dsub (dadd (pd_max p) (pd_std p)) (pd_min p)) (pd_std p))
      | GEO_SEQ \<Rightarrow>
          if \<not> dlt (Fin 0) (m_log lm (pd_std p)) then Inl Exit_Failure
          else to_i32 (dadd (ddiv (m_log lm (ddiv (pd_max p) (pd_min p))) (m_log lm (pd_std p))) (Fin 1))
      | SFILE \<Rightarrow> Inr (i32 (int (num_samples p)))
      | _ \<Rightarrow> Inr (-1))"

definition pd_avg :: "libm \<Rightarrow> pd_spec_t \<Rightarrow> double res" where
  "pd_avg lm p =
     (case prob p of
        ARITH_SEQ \<Rightarrow> Inr (ddiv (dadd (pd_min p) (pd_max p)) (Fin 2))
      | GEO_SEQ \<Rightarrow> Inr (m_sqrt lm (dmul (pd_min p) (pd_max p)))
      | SFILE \<Rightarrow>
          if length (samples p) < num_samples p then Inl Out_Of_Bounds
          else Inr (ddiv (fold (\<lambda>x s. dadd s x) (take (num_samples p) (samples p)) (Fin 0)) (d_int (int (num_samples p))))
      | _ \<Rightarrow> Inr (pd_val p))"

section \<open>Samples stay within the bounds\<close>

lemma drand48_r_unit: "drand48_r g = (x, g') \<Longrightarrow> \<exists>r. x = Fin r \<and> 0 \<le> r \<and> r < 1"
proof -
  assume "drand48_r g = (x, g')"
  then have "x = Fin (of_nat (unat g') / 2 ^ 48)" by (auto simp: drand48_r_def Let_def)
  moreover have "unat g' < 2 ^ 48" using unsigned_less [of g', where ?'a = nat] by simp
  then have "(of_nat (unat g') :: rat) < of_nat (2 ^ 48)" by (simp only: of_nat_less_iff)
  ultimately show ?thesis by (intro exI [of _ "of_nat (unat g') / 2 ^ 48"]) (simp del: of_nat_unat)
qed

lemma pd_draw_bounds: "pd_draw lm p g = Inr (b, v, p', g') \<Longrightarrow> pd_min p' = pd_min p \<and> pd_max p' = pd_max p \<and> prob p' = prob p"
  by (auto simp: pd_draw_def clamp_def Let_def rbind_eq_Inr split: pd_type_t.splits if_splits prod.splits)

lemma out_of_range_cong:
  "pd_min p' = pd_min p \<Longrightarrow> pd_max p' = pd_max p \<Longrightarrow> out_of_range p' v = out_of_range p v"
  by (simp add: out_of_range_def)

lemma pd_sample_in_range:
  assumes "pd_sample lm p g = Some (Inr (v, p', g'))" "prob p \<noteq> FIXED" "prob p \<noteq> UNIF"
  shows "\<not> out_of_range p v \<and> pd_min p' = pd_min p \<and> pd_max p' = pd_max p \<and> prob p' = prob p"
proof -
  have "\<forall>v p' g'. y = Inr (v, p', g') \<longrightarrow> prob p \<noteq> FIXED \<longrightarrow> prob p \<noteq> UNIF \<longrightarrow>
      \<not> out_of_range p v \<and> pd_min p' = pd_min p \<and> pd_max p' = pd_max p \<and> prob p' = prob p"
    if "pd_sample lm p g = Some y" for lm p g y
  proof (rule pd_sample.raw_induct [OF _ that], goal_cases)
    case (1 sample lm p g y)
    show ?case
    proof (cases "pd_draw lm p g")
      case (Inl e)
      then show ?thesis using 1(2) by auto
    next
      case (Inr r)
      obtain b v0 p0 g0 where r: "r = (b, v0, p0, g0)" by (cases r)
      have d: "pd_min p0 = pd_min p" "pd_max p0 = pd_max p" "prob p0 = prob p"
        using pd_draw_bounds [of lm p g b v0 p0 g0] Inr r by auto
      have b: "prob p \<noteq> FIXED \<Longrightarrow> prob p \<noteq> UNIF \<Longrightarrow> \<not> b"
        using Inr by (auto simp: r pd_draw_def Let_def rbind_eq_Inr split: pd_type_t.splits if_splits prod.splits)
      show ?thesis using 1(2) 1(1) [of lm p0 g0 y] Inr r d b
        by (auto split: if_splits simp: out_of_range_cong [OF d(1,2)])
    qed
  qed
  with assms show ?thesis by blast
qed

text \<open>A value of a sequence that is out of range is replaced by one that is not.\<close>

lemma clamp_in_range:
  assumes "\<not> dlt (pd_max p) (pd_min p)"
  shows "\<not> out_of_range (clamp v p) (pd_val (clamp v p))"
  using assms by (cases v; cases "pd_min p"; cases "pd_max p") (auto simp: clamp_def out_of_range_def isnan_def dle_def)

definition is_seq :: "pd_spec_t \<Rightarrow> bool" where
  "is_seq p \<longleftrightarrow> prob p = ARITH_SEQ \<or> prob p = GEO_SEQ"

text \<open>The specification after one value of a sequence has been taken.\<close>

definition seq_next :: "pd_spec_t \<Rightarrow> pd_spec_t" where
  "seq_next p = clamp ((if prob p = ARITH_SEQ then dadd else dmul) (pd_val p) (pd_std p)) p"

lemma seq_draw: "is_seq p \<Longrightarrow> pd_draw lm p g = Inr (False, pd_val p, seq_next p, g)"
  by (auto simp: is_seq_def pd_draw_def seq_next_def)

lemma seq_next_simps [simp]:
  "pd_min (seq_next p) = pd_min p" "pd_max (seq_next p) = pd_max p" "prob (seq_next p) = prob p"
  "pd_std (seq_next p) = pd_std p" "is_seq (seq_next p) = is_seq p"
  by (auto simp: seq_next_def clamp_def is_seq_def)

lemma out_of_range_seq_next [simp]: "out_of_range (seq_next p) v = out_of_range p v"
  by (simp add: out_of_range_def)

lemma seq_sample_step:
  "is_seq p \<Longrightarrow> pd_sample lm p g =
     (if out_of_range p (pd_val p) then pd_sample lm (seq_next p) g else Some (Inr (pd_val p, seq_next p, g)))"
  by (subst pd_sample.simps) (simp add: seq_draw)

lemma seq_sample_returns:
  assumes "is_seq p" "\<not> dlt (pd_max p) (pd_min p)"
  shows "pd_sample lm p g =
    (if out_of_range p (pd_val p) then Some (Inr (pd_val (seq_next p), seq_next (seq_next p), g))
     else Some (Inr (pd_val p, seq_next p, g)))"
proof -
  have "\<not> out_of_range (seq_next p) (pd_val (seq_next p))"
    using clamp_in_range [OF assms(2)] by (simp add: seq_next_def)
  then show ?thesis using assms(1) by (simp add: seq_sample_step [of p] seq_sample_step [of "seq_next p"])
qed

text \<open>Sampling from an arithmetic or geometric sequence always returns when the upper bound is not below the lower one, after at
  most one retry, whatever the floating-point values are; the returned value is not out of range, and the next call
  starts from the next element of the sequence.
\<close>

theorem pd_sample_seq_returns:
  assumes "is_seq p" "\<not> dlt (pd_max p) (pd_min p)"
  shows "\<exists>v p'. pd_sample lm p g = Some (Inr (v, seq_next p', g)) \<and> p' \<in> {p, seq_next p} \<and> v = pd_val p' \<and> \<not> out_of_range p v"
proof (cases "out_of_range p (pd_val p)")
  case True
  have "\<not> out_of_range p (pd_val (seq_next p))"
    using clamp_in_range [OF assms(2)] by (metis out_of_range_seq_next seq_next_def)
  with True seq_sample_returns [OF assms, of lm g] show ?thesis by auto
next
  case False
  with seq_sample_returns [OF assms, of lm g] show ?thesis by auto
qed

text \<open>With the bounds the wrong way round, which \<^verbatim>\<open>pd_parse\<close> accepts, the loop of retries never ends.\<close>

definition finite_seq :: "pd_spec_t \<Rightarrow> bool" where
  "finite_seq p \<longleftrightarrow> is_seq p \<and> (\<exists>v s lo hi. pd_val p = Fin v \<and> pd_std p = Fin s \<and> pd_min p = Fin lo \<and> pd_max p = Fin hi \<and> hi < lo)"

lemma rnd_not_NaN [simp]: "rnd x \<noteq> NaN"
  by (simp add: rnd_def Let_def)

lemma finite_seq_next: "finite_seq p \<Longrightarrow> finite_seq (seq_next p)"
  unfolding finite_seq_def
proof (elim conjE exE, intro conjI)
  fix v s lo hi
  assume p: "is_seq p" "pd_val p = Fin v" "pd_std p = Fin s" "pd_min p = Fin lo" "pd_max p = Fin hi" "hi < lo"
  show "is_seq (seq_next p)" using p by simp
  have "\<exists>w. pd_val (clamp x p) = Fin w" if "x \<noteq> NaN" for x
    using that p by (cases x) (auto simp: clamp_def dle_def)
  then have "\<exists>w. pd_val (seq_next p) = Fin w" using p by (simp add: seq_next_def)
  then show "\<exists>v s lo hi. pd_val (seq_next p) = Fin v \<and> pd_std (seq_next p) = Fin s \<and>
      pd_min (seq_next p) = Fin lo \<and> pd_max (seq_next p) = Fin hi \<and> hi < lo" using p by auto
qed

theorem seq_reversed_bounds_hang:
  assumes "finite_seq p"
  shows "pd_sample lm p g = None"
proof -
  have "\<not> finite_seq p" if "pd_sample lm p g = Some y" for y
  proof (rule pd_sample.raw_induct [OF _ that], goal_cases)
    case (1 sample lm p g y)
    show ?case
    proof
      assume f: "finite_seq p"
      then have "is_seq p" "out_of_range p (pd_val p)"
        by (auto simp: finite_seq_def out_of_range_def isnan_def)
      then show False using 1(2) 1(1) [of lm "seq_next p" g y] finite_seq_next [OF f] by (simp add: seq_draw)
    qed
  qed
  then show ?thesis using assms by (cases "pd_sample lm p g") auto
qed

section \<open>The values of a sequence\<close>

text \<open>A number of consecutive samples.\<close>

fun pd_take :: "libm \<Rightarrow> nat \<Rightarrow> pd_spec_t \<Rightarrow> rng \<Rightarrow> double list res option" where
  "pd_take lm 0 p g = Some (Inr [])"
| "pd_take lm (Suc n) p g =
     (case pd_sample lm p g of
        None \<Rightarrow> None
      | Some (Inl e) \<Rightarrow> Some (Inl e)
      | Some (Inr (v, p', g')) \<Rightarrow> map_option (\<lambda>r. rbind r (\<lambda>vs. Inr (v # vs))) (pd_take lm n p' g'))"

definition int_ramp :: "int \<Rightarrow> int \<Rightarrow> int \<Rightarrow> int \<Rightarrow> pd_spec_t \<Rightarrow> bool" where
  "int_ramp a s lo hi p \<longleftrightarrow> prob p = ARITH_SEQ \<and> pd_val p = Fin (of_int a) \<and> pd_std p = Fin (of_int s) \<and>
     pd_min p = Fin (of_int lo) \<and> pd_max p = Fin (of_int hi) \<and> lo \<le> a \<and> a \<le> hi \<and> 0 < s \<and>
     - (2 ^ 52) \<le> lo \<and> hi \<le> 2 ^ 52 \<and> s \<le> 2 ^ 52"

lemma int_ramp_next: "int_ramp a s lo hi p \<Longrightarrow> int_ramp (min hi (a + s)) s lo hi (seq_next p)"
  by (auto simp: int_ramp_def seq_next_def dadd_int clamp_def dle_def min_def simp del: dadd.simps of_int_add)

lemma int_ramp_sample: "int_ramp a s lo hi p \<Longrightarrow> pd_sample lm p g = Some (Inr (Fin (of_int a), seq_next p, g))"
  using seq_sample_step [of p lm g] by (simp add: int_ramp_def is_seq_def out_of_range_def isnan_def)

text \<open>The values of an arithmetic sequence with integral parameters of at most 52 bits are exactly
  \<open>a, a + s, a + 2s, ...\<close> from the current value on, up to the upper bound, which is then repeated forever.
\<close>

theorem arith_seq_values:
  assumes "int_ramp a s lo hi p"
  shows "pd_take lm n p g = Some (Inr (map (\<lambda>k. Fin (of_int (min hi (a + int k * s)))) [0..<n]))"
  using assms
proof (induction n arbitrary: a p)
  case 0
  then show ?case by simp
next
  case (Suc n)
  have a: "min hi a = a" "0 < s" using Suc.prems by (auto simp: int_ramp_def)
  have "min hi (min hi (a + s) + int k * s) = min hi (a + int (Suc k) * s)" for k
  proof -
    have "0 \<le> int k * s" using a by simp
    then show ?thesis by (simp add: min_def algebra_simps)
  qed
  then show ?case
    using Suc.IH [OF int_ramp_next [OF Suc.prems]] int_ramp_sample [OF Suc.prems, of lm g] a
    by (simp add: map_upt_Suc_cons del: upt_Suc)
qed

text \<open>The values read from a file are returned in order, over and over.\<close>

definition sample_file :: "pd_spec_t \<Rightarrow> bool" where
  "sample_file p \<longleftrightarrow> prob p = SFILE \<and> pd_min p = NaN \<and> pd_max p = NaN \<and> num_samples p = length (samples p) \<and>
     cur_sample p < length (samples p)"

lemma file_samples:
  assumes "sample_file p"
  shows "pd_take lm n p g = Some (Inr (map (\<lambda>k. samples p ! ((cur_sample p + k) mod length (samples p))) [0..<n]))"
  using assms
proof (induction n arbitrary: p)
  case 0
  then show ?case by simp
next
  case (Suc n)
  let ?p = "p\<lparr>cur_sample := (cur_sample p + 1) mod num_samples p\<rparr>"
  have p: "0 < length (samples p)" "cur_sample p mod length (samples p) = cur_sample p" "num_samples p = length (samples p)"
    using Suc.prems by (auto simp: sample_file_def)
  have "sample_file ?p" using Suc.prems p by (simp add: sample_file_def)
  moreover have "pd_sample lm p g = Some (Inr (samples p ! cur_sample p, ?p, g))"
    using Suc.prems p(1) by (subst pd_sample.simps) (simp add: sample_file_def pd_draw_def out_of_range_def isnan_def)
  moreover have "((cur_sample p + 1) mod m + k) mod m = (cur_sample p + Suc k) mod m" for k m
    by (simp add: mod_add_left_eq)
  ultimately show ?case using Suc.IH [of ?p] p by (simp add: map_upt_Suc_cons del: upt_Suc)
qed

section \<open>Concrete inputs\<close>

definition no_libm :: libm where
  "no_libm = \<lparr>m_log = (\<lambda>x. x), m_exp = (\<lambda>x. x), m_sqrt = (\<lambda>x. x)\<rparr>"

text \<open>The specification of \<^verbatim>\<open>aseq:min=10:max=25:step=10\<close>.\<close>

definition ramp_spec :: pd_spec_t where
  "ramp_spec = pd_zero\<lparr>prob := ARITH_SEQ, pd_val := Fin 10, pd_std := Fin 10, pd_min := Fin 10, pd_max := Fin 25\<rparr>"

theorem arith_seq_values_witness:
  "pd_take no_libm 4 ramp_spec 0 = Some (Inr [Fin 10, Fin 20, Fin 25, Fin 25])"
proof -
  have "int_ramp 10 10 10 25 ramp_spec" by (simp add: int_ramp_def ramp_spec_def)
  from arith_seq_values [OF this, of no_libm 4 0] show ?thesis by (simp add: upt_rec)
qed

theorem pd_sample_seq_returns_witness:
  "\<exists>v p'. pd_sample no_libm ramp_spec 0 = Some (Inr (v, seq_next p', 0)) \<and> \<not> out_of_range ramp_spec v"
  using pd_sample_seq_returns [of ramp_spec no_libm 0] by (fastforce simp: is_seq_def ramp_spec_def)

end
