(* ===== verification/DW_Distrib_Parse.thy ===== *)
theory DW_Distrib_Parse
  imports DW_Distrib DW_Strings
begin

text \<open>
  The syntax of values and distributions on the command line (\<^verbatim>\<open>pd_parse*\<close>, \<^verbatim>\<open>pd_load_file\<close> and \<^verbatim>\<open>sscanf_unit\<close> in \<^verbatim>\<open>src/distrib.c\<close>).
  A file system is a function from file names to contents; memory allocation succeeds.
\<close>

section \<open>Values with units\<close>

definition sscanf_fmt :: "string \<Rightarrow> string \<Rightarrow> double option" where
  "sscanf_fmt str prefix = (case prefixed prefix str of None \<Rightarrow> None | Some r \<Rightarrow> scan_lf r)"

text \<open>The value stored when the result of the function is 1, \<open>None\<close> for any other result.\<close>

definition sscanf_time_us :: "string \<Rightarrow> string \<Rightarrow> double option res" where
  "sscanf_time_us str prefix =
     (case (if str = [] then None else sscanf_fmt str prefix) of
        None \<Rightarrow> Inr None
      | Some v \<Rightarrow>
          if last str \<noteq> CHR ''s'' then Inr (Some v)
          else if length str < 2 then Inl Exit_Failure
          else
            (let c = str ! (length str - 2) in
             if c = CHR ''n'' then Inr (Some (ddiv v (Fin 1000)))
             else if c = CHR ''u'' then Inr (Some v)
             else if c = CHR ''m'' then Inr (Some (dmul v (Fin 1000)))
             else if digit c = None then Inl Exit_Failure
             else Inr (Some (dmul v (Fin 1000000)))))"

definition sscanf_unit :: "string \<Rightarrow> string \<Rightarrow> bool \<Rightarrow> double option res" where
  "sscanf_unit str prefix is_time =
     (case (if str = [] then None else sscanf_fmt str prefix) of
        None \<Rightarrow> Inr None
      | Some v \<Rightarrow>
          (let c = last str in
           if c = CHR ''k'' \<or> c = CHR ''K'' then Inr (Some (dmul v (Fin 1000)))
           else if c = CHR ''m'' \<or> c = CHR ''M'' then Inr (Some (dmul v (Fin 1000000)))
           else if c = CHR ''g'' \<or> c = CHR ''G'' then Inr (Some (dmul v (Fin 1000000000)))
           else if c = CHR ''s'' then (if \<not> is_time then Inl Exit_Failure else sscanf_time_us str prefix)
           else Inr (Some v)))"

section \<open>Files of samples\<close>

text \<open>\<^verbatim>\<open>fgets\<close> with a buffer for \<open>n\<close> characters and the NUL.\<close>

fun fgets :: "nat \<Rightarrow> string \<Rightarrow> string \<times> string" where
  "fgets 0 s = ([], s)"
| "fgets n [] = ([], [])"
| "fgets (Suc n) (c # cs) =
     (if of_char c = (10 :: nat) then ([c], cs) else let (l, r) = fgets n cs in (c # l, r))"

lemma fgets_length: "fgets n s = (l, r) \<Longrightarrow> length l + length r = length s \<and> (0 < n \<and> s \<noteq> [] \<longrightarrow> l \<noteq> [])"
  by (induction n s arbitrary: l r rule: fgets.induct) (auto split: prod.splits if_splits)

function file_lines :: "string \<Rightarrow> string list" where
  "file_lines s = (if s = [] then [] else let (l, r) = fgets 255 s in l # file_lines r)"
  by pat_completeness auto
termination
proof (relation "measure length", goal_cases)
  case (2 s x l r)
  then show ?case using fgets_length [of 255 s l r] by (cases l) auto
qed simp

declare file_lines.simps [simp del]

text \<open>A line contributes the value of its column; lines whose column is not a number are ignored.\<close>

fun load_lines :: "int \<Rightarrow> string \<Rightarrow> string list \<Rightarrow> double list res" where
  "load_lines col sep [] = Inr []"
| "load_lines col sep (line # ls) =
     (let toks = split_at sep line in
      if col < 0 \<or> int (length toks) \<le> col then Inl Exit_Failure
      else rbind (load_lines col sep ls) (\<lambda>vs.
        Inr (case scan_lf (toks ! nat col) of None \<Rightarrow> vs | Some v \<Rightarrow> v # vs)))"

text \<open>With no samples at all the last \<^verbatim>\<open>realloc\<close> is given the size 0 and returns a null pointer, so the \<^verbatim>\<open>check\<close> fails.\<close>

definition pd_load_file :: "(string \<Rightarrow> string option) \<Rightarrow> string \<Rightarrow> int \<Rightarrow> string \<Rightarrow> pd_spec_t \<Rightarrow> pd_spec_t res" where
  "pd_load_file fs fname col sep p =
     (case fs fname of
        None \<Rightarrow> Inl Exit_Failure
      | Some content \<Rightarrow> rbind (load_lines col sep (file_lines content)) (\<lambda>vs.
          if vs = [] then Inl Exit_Failure
          else Inr (p\<lparr>samples := vs, num_samples := length vs, cur_sample := 0\<rparr>)))"

section \<open>Distributions\<close>

record pd_parse_t =
  pp :: pd_spec_t
  fcol :: int
  ffname :: "string option"
  fsep :: string
  pxavg :: double
  pxstd :: double
  gk :: double
  gscale :: double
  file_unit_us :: double

definition kind_of :: "string \<Rightarrow> pd_type_t option" where
  "kind_of tok =
     (if tok = ''none'' then Some PD_NONE
      else if tok = ''unif'' then Some UNIF
      else if tok = ''exp'' then Some EXPON
      else if tok = ''norm'' then Some NORM
      else if tok = ''lognorm'' then Some LOGNORM
      else if tok = ''gamma'' then Some GAMMA
      else if tok = ''aseq'' then Some ARITH_SEQ
      else if tok = ''gseq'' then Some GEO_SEQ
      else if tok = ''file'' then Some SFILE
      else None)"

definition pd_blank :: pd_spec_t where
  "pd_blank = pd_zero\<lparr>prob := FIXED, pd_val := NaN, pd_std := NaN, pd_min := NaN, pd_max := NaN\<rparr>"

definition pd_first :: "bool \<Rightarrow> string \<Rightarrow> pd_spec_t res" where
  "pd_first is_time tok =
     (case kind_of tok of
        Some k \<Rightarrow> Inr (pd_blank\<lparr>prob := k\<rparr>)
      | None \<Rightarrow> rbind (sscanf_unit tok '''' is_time) (\<lambda>ov. case ov of
          Some v \<Rightarrow> Inr (pd_blank\<lparr>pd_val := v, prob := FIXED\<rparr>)
        | None \<Rightarrow> Inl Exit_Failure))"

text \<open>One alternative of the condition of the loop: on success the value is stored and the token is done.\<close>

definition try_scan ::
    "double option res \<Rightarrow> (double \<Rightarrow> pd_parse_t \<Rightarrow> pd_parse_t) \<Rightarrow> pd_parse_t \<Rightarrow> (unit \<Rightarrow> pd_parse_t res) \<Rightarrow> pd_parse_t res" where
  "try_scan scan store st other = rbind scan (\<lambda>ov. case ov of Some v \<Rightarrow> Inr (store v st) | None \<Rightarrow> other ())"

definition on_pp :: "(pd_spec_t \<Rightarrow> pd_spec_t) \<Rightarrow> pd_parse_t \<Rightarrow> pd_parse_t" where
  "on_pp f st = st\<lparr>pp := f (pp st)\<rparr>"

definition file_unit :: "bool \<Rightarrow> string \<Rightarrow> double option" where
  "file_unit is_time u =
     (if u = ''k'' \<or> u = ''K'' then Some (Fin 1000)
      else if u = ''m'' \<or> u = ''M'' then Some (Fin 1000000)
      else if u = ''g'' \<or> u = ''G'' then Some (Fin 1000000000)
      else if is_time \<and> u = ''s'' then Some (Fin 1000000)
      else if is_time \<and> u = ''ms'' then Some (Fin 1000)
      else if is_time \<and> u = ''us'' then Some (Fin 1)
      else if is_time \<and> u = ''ns'' then Some (rnd (1 / 1000))
      else None)"

definition file_token :: "bool \<Rightarrow> string \<Rightarrow> pd_parse_t \<Rightarrow> pd_parse_t res" where
  "file_token is_time tok st =
     (case prefixed ''sep='' tok of
        Some sp \<Rightarrow> if sp = [] then Inl Exit_Failure else Inr (st\<lparr>fsep := sp\<rparr>)
      | None \<Rightarrow> (case prefixed ''unit='' tok of
          Some u \<Rightarrow> (case file_unit is_time u of None \<Rightarrow> Inl Exit_Failure | Some f \<Rightarrow> Inr (st\<lparr>file_unit_us := f\<rparr>))
        | None \<Rightarrow> Inr (st\<lparr>ffname := Some tok\<rparr>)))"

definition pd_token :: "bool \<Rightarrow> string \<Rightarrow> pd_parse_t \<Rightarrow> pd_parse_t res" where
  "pd_token is_time tok st =
     (let k = prob (pp st); none = Inr None in
      try_scan (sscanf_unit tok ''min='' is_time) (\<lambda>v. on_pp (\<lambda>p. p\<lparr>pd_min := v\<rparr>)) st (\<lambda>_.
      try_scan (sscanf_unit tok ''max='' is_time) (\<lambda>v. on_pp (\<lambda>p. p\<lparr>pd_max := v\<rparr>)) st (\<lambda>_.
      try_scan (sscanf_unit tok ''std='' is_time) (\<lambda>v. on_pp (\<lambda>p. p\<lparr>pd_std := v\<rparr>)) st (\<lambda>_.
      try_scan (sscanf_unit tok ''k='' False) (\<lambda>v st. st\<lparr>gk := v\<rparr>) st (\<lambda>_.
      try_scan (sscanf_unit tok ''scale='' False) (\<lambda>v st. st\<lparr>gscale := v\<rparr>) st (\<lambda>_.
      try_scan (sscanf_unit tok ''avg='' is_time) (\<lambda>v. on_pp (\<lambda>p. p\<lparr>pd_val := v\<rparr>)) st (\<lambda>_.
      try_scan (if k = ARITH_SEQ \<or> k = GEO_SEQ then sscanf_unit tok ''step='' is_time else none)
        (\<lambda>v. on_pp (\<lambda>p. p\<lparr>pd_std := v\<rparr>)) st (\<lambda>_.
      case (if k = SFILE then Option.bind (prefixed ''col='' tok) scan_d else None) of
        Some (c, rest) \<Rightarrow> Inr (st\<lparr>fcol := c\<rparr>)
      | None \<Rightarrow>
          try_scan (if k = LOGNORM then Inr (sscanf_fmt tok ''xavg='') else none) (\<lambda>v st. st\<lparr>pxavg := v\<rparr>) st (\<lambda>_.
          try_scan (if k = LOGNORM then Inr (sscanf_fmt tok ''xstd='') else none) (\<lambda>v st. st\<lparr>pxstd := v\<rparr>) st (\<lambda>_.
          try_scan (sscanf_unit tok '''' is_time) (\<lambda>v. on_pp (\<lambda>p. p\<lparr>pd_val := v\<rparr>)) st (\<lambda>_.
          if k = SFILE then file_token is_time tok st else Inl Exit_Failure)))))))))))"

text \<open>The default values that depend on the kind of distribution, in the order of the code.\<close>

definition gamma_moments :: "libm \<Rightarrow> pd_parse_t \<Rightarrow> pd_spec_t \<Rightarrow> pd_spec_t" where
  "gamma_moments lm st p =
     (if prob p = GAMMA \<and> \<not> isnan (gk st) \<and> \<not> isnan (gscale st)
      then p\<lparr>pd_val := dmul (gk st) (gscale st), pd_std := dmul (m_sqrt lm (gk st)) (gscale st)\<rparr> else p)"

definition seq_step :: "pd_type_t \<Rightarrow> double \<Rightarrow> pd_spec_t \<Rightarrow> pd_spec_t" where
  "seq_step k step p = (if prob p = k \<and> isnan (pd_std p) then p\<lparr>pd_std := step\<rparr> else p)"

definition seq_start :: "pd_type_t \<Rightarrow> double \<Rightarrow> pd_spec_t \<Rightarrow> pd_spec_t" where
  "seq_start k neutral p =
     (if prob p = k \<and> isnan (pd_val p)
      then p\<lparr>pd_val := if dle neutral (pd_std p) then pd_min p else pd_max p\<rparr> else p)"

definition lognorm_avg :: "libm \<Rightarrow> pd_parse_t \<Rightarrow> pd_spec_t \<Rightarrow> pd_spec_t" where
  "lognorm_avg lm st p =
     (if prob p = LOGNORM \<and> isnan (pd_val p) \<and> \<not> isnan (pxavg st) \<and> \<not> isnan (pxstd st)
      then p\<lparr>pd_val := m_exp lm (dadd (pxavg st) (ddiv (dmul (pxstd st) (pxstd st)) (Fin 2)))\<rparr> else p)"

definition lognorm_std :: "libm \<Rightarrow> pd_parse_t \<Rightarrow> pd_spec_t \<Rightarrow> pd_spec_t" where
  "lognorm_std lm st p =
     (let xvar = dmul (pxstd st) (pxstd st) in
      if prob p = LOGNORM \<and> isnan (pd_std p) \<and> \<not> isnan (pxavg st) \<and> \<not> isnan (pxstd st)
      then p\<lparr>pd_std := m_sqrt lm (dmul (dsub (m_exp lm xvar) (Fin 1))
                          (m_exp lm (dadd (dmul (Fin 2) (pxavg st)) xvar)))\<rparr>
      else p)"

definition pd_defaults :: "libm \<Rightarrow> pd_parse_t \<Rightarrow> pd_spec_t" where
  "pd_defaults lm st =
     lognorm_std lm st (lognorm_avg lm st
       (seq_start GEO_SEQ (Fin 1) (seq_start ARITH_SEQ (Fin 0)
         (seq_step GEO_SEQ (Fin 2) (seq_step ARITH_SEQ (Fin 1) (gamma_moments lm st (pp st)))))))"

lemmas defaults_defs = gamma_moments_def seq_step_def seq_start_def lognorm_avg_def lognorm_std_def Let_def

definition pd_checks :: "pd_spec_t \<Rightarrow> bool" where
  "pd_checks p \<longleftrightarrow>
     (prob p \<noteq> FIXED \<or> \<not> isnan (pd_val p)) \<and>
     (prob p \<noteq> UNIF \<or> \<not> isnan (pd_min p) \<and> \<not> isnan (pd_max p)) \<and>
     (prob p \<noteq> EXPON \<or> \<not> isnan (pd_val p) \<and> isnan (pd_std p)) \<and>
     (prob p \<noteq> NORM \<or> \<not> isnan (pd_val p) \<and> \<not> isnan (pd_std p)) \<and>
     (prob p \<noteq> LOGNORM \<or> \<not> isnan (pd_val p) \<and> \<not> isnan (pd_std p)) \<and>
     (prob p \<noteq> GAMMA \<or> \<not> isnan (pd_val p) \<and> \<not> isnan (pd_std p)) \<and>
     (prob p \<noteq> ARITH_SEQ \<or> \<not> isnan (pd_val p) \<and>
        (dle (Fin 0) (pd_std p) \<and> \<not> isnan (pd_max p) \<or> dlt (pd_std p) (Fin 0) \<and> \<not> isnan (pd_min p))) \<and>
     (prob p \<noteq> GEO_SEQ \<or> \<not> isnan (pd_val p) \<and>
        (dle (Fin 1) (pd_std p) \<and> \<not> isnan (pd_max p) \<or> dlt (pd_std p) (Fin 1) \<and> \<not> isnan (pd_min p)))"

definition pd_load :: "(string \<Rightarrow> string option) \<Rightarrow> pd_parse_t \<Rightarrow> pd_parse_t res" where
  "pd_load fs st =
     (if prob (pp st) \<noteq> SFILE then Inr st
      else case ffname st of
        None \<Rightarrow> Inl Exit_Failure
      | Some fname \<Rightarrow> rbind (pd_load_file fs fname (fcol st) (fsep st) (pp st)) (\<lambda>p.
          Inr (st\<lparr>pp := p\<lparr>samples := map (\<lambda>x. dmul x (file_unit_us st)) (samples p)\<rparr>\<rparr>)))"

definition pd_parse_internal :: "libm \<Rightarrow> (string \<Rightarrow> string option) \<Rightarrow> string \<Rightarrow> bool \<Rightarrow> pd_spec_t res" where
  "pd_parse_internal lm fs s is_time =
     (let toks = split_at '':'' s in
      rbind (pd_first is_time (hd toks)) (\<lambda>p.
      rbind (rfold (\<lambda>st tok. pd_token is_time tok st)
               \<lparr>pp = p, fcol = 0, ffname = None, fsep = '','', pxavg = NaN, pxstd = NaN, gk = NaN, gscale = NaN,
                file_unit_us = Fin 1\<rparr> (tl toks)) (\<lambda>st.
      rbind (pd_load fs st) (\<lambda>st'.
        let q = pd_defaults lm st' in if pd_checks q then Inr q else Inl Exit_Failure))))"

definition pd_parse :: "libm \<Rightarrow> (string \<Rightarrow> string option) \<Rightarrow> string \<Rightarrow> pd_spec_t res" where
  "pd_parse lm fs s = pd_parse_internal lm fs s False"

definition pd_parse_time :: "libm \<Rightarrow> (string \<Rightarrow> string option) \<Rightarrow> string \<Rightarrow> pd_spec_t res" where
  "pd_parse_time lm fs s = pd_parse_internal lm fs s True"

definition pd_parse_bytes :: "libm \<Rightarrow> (string \<Rightarrow> string option) \<Rightarrow> string \<Rightarrow> pd_spec_t res" where
  "pd_parse_bytes lm fs s =
     pd_parse_internal lm fs (if s \<noteq> [] \<and> (last s = CHR ''b'' \<or> last s = CHR ''B'') then butlast s else s) False"

section \<open>Parsed specifications can be sampled\<close>





lemma default_keeps [simp]:
  "prob (gamma_moments lm st p) = prob p" "prob (seq_step k d p) = prob p" "prob (seq_start k d p) = prob p" "prob (lognorm_avg lm st p) = prob p" "prob (lognorm_std lm st p) = prob p"
  "samples (gamma_moments lm st p) = samples p" "samples (seq_step k d p) = samples p" "samples (seq_start k d p) = samples p" "samples (lognorm_avg lm st p) = samples p" "samples (lognorm_std lm st p) = samples p"
  "num_samples (gamma_moments lm st p) = num_samples p" "num_samples (seq_step k d p) = num_samples p" "num_samples (seq_start k d p) = num_samples p" "num_samples (lognorm_avg lm st p) = num_samples p" "num_samples (lognorm_std lm st p) = num_samples p"
  "cur_sample (gamma_moments lm st p) = cur_sample p" "cur_sample (seq_step k d p) = cur_sample p" "cur_sample (seq_start k d p) = cur_sample p" "cur_sample (lognorm_avg lm st p) = cur_sample p" "cur_sample (lognorm_std lm st p) = cur_sample p"
  by (simp_all add: defaults_defs)

lemma pd_defaults_fixed: "prob (pp st) = FIXED \<Longrightarrow> pd_defaults lm st = pp st"
  by (simp add: pd_defaults_def defaults_defs)

lemma pd_defaults_keeps [simp]:
  "prob (pd_defaults lm st) = prob (pp st)" "samples (pd_defaults lm st) = samples (pp st)"
  "num_samples (pd_defaults lm st) = num_samples (pp st)" "cur_sample (pd_defaults lm st) = cur_sample (pp st)"
  by (simp_all add: pd_defaults_def)











section \<open>Numbers with units\<close>

definition unit_factors :: "(string \<times> int) list" where
  "unit_factors = [('''', 1), (''us'', 1), (''ms'', 1000), (''s'', 1000000), (''k'', 1000), (''m'', 1000000), (''g'', 1000000000)]"

lemma show_nat_no_colon: "set (show_nat n) \<inter> {CHR '':''} = {}"
  using show_nat_digits [of n] by (auto simp: list_all_iff digit_def Let_def)

lemma kind_of_number: "kind_of (show_nat n @ u) = None"
proof -
  obtain c t where c: "show_nat n = c # t" "digit c \<noteq> None" using show_nat_hd [of n] by (cases "show_nat n") auto
  then have "c \<noteq> CHR ''n'' \<and> c \<noteq> CHR ''u'' \<and> c \<noteq> CHR ''e'' \<and> c \<noteq> CHR ''l'' \<and> c \<noteq> CHR ''g'' \<and> c \<noteq> CHR ''a'' \<and> c \<noteq> CHR ''f''"
    by (intro conjI notI) (simp_all add: digit_def)
  then show ?thesis by (simp add: kind_of_def c(1))
qed

lemma scan_lf_unit: "(u, f) \<in> set unit_factors \<Longrightarrow> scan_lf (show_nat n @ u) = Some (rnd (of_nat n))"
  by (rule scan_lf_show_nat) (auto simp: unit_factors_def digit_def tolower_def)

lemma show_nat_last: "digit (last (show_nat n)) \<noteq> None"
  using show_nat_digits [of n] show_nat_hd [of n] by (auto simp: list_all_iff dest: last_in_set)

lemma dmul_nat: "int n * f \<le> 2 ^ 53 \<Longrightarrow> 0 \<le> f \<Longrightarrow> dmul (Fin (of_nat n)) (Fin (of_int f)) = Fin (of_int (int n * f))"
  using dmul_int [of "int n" f] by simp

lemma sscanf_unit_number:
  assumes "(u, f) \<in> set unit_factors" "int n * f \<le> 2 ^ 53"
  shows "sscanf_unit (show_nat n @ u) '''' True = Inr (Some (Fin (of_int (int n * f))))"
proof -
  have f: "0 < f" using assms(1) by (auto simp: unit_factors_def)
  then have "int n * 1 \<le> int n * f" by (intro mult_left_mono) auto
  then have n: "\<bar>int n\<bar> \<le> 2 ^ 53" using assms(2) by simp
  have "rnd (of_nat n) = Fin (of_nat n)" using rnd_of_int [OF n] by simp
  then have lf: "sscanf_fmt (show_nat n @ u) '''' = Some (Fin (of_nat n))"
    using scan_lf_unit [OF assms(1), of n] by (simp add: sscanf_fmt_def prefixed_def)
  have ne: "show_nat n \<noteq> []" using show_nat_hd by auto
  have l: "digit (last (show_nat n)) \<noteq> None" by (rule show_nat_last)
  have pen: "show_nat n ! (length (show_nat n) - Suc 0) = last (show_nat n)"
    using ne by (simp add: last_conv_nth)
  have letter: "digit c = None" if "c \<in> set ''numkgsKMG''" for c using that by (auto simp: digit_def)
  have nl: "last (show_nat n) \<noteq> c" if "c \<in> set ''numkgsKMG''" for c using l letter [OF that] by auto
  note run = sscanf_unit_def sscanf_time_us_def lf ne l pen nl nth_append Let_def
  have "u = [] \<and> f = 1 \<or> u = ''us'' \<and> f = 1 \<or> u = ''ms'' \<and> f = 1000 \<or> u = ''s'' \<and> f = 1000000 \<or>
      u = ''k'' \<and> f = 1000 \<or> u = ''m'' \<and> f = 1000000 \<or> u = ''g'' \<and> f = 1000000000"
    using assms(1) by (simp add: unit_factors_def)
  with dmul_nat [OF assms(2)] f show ?thesis
    by (elim disjE conjE) (use lf in \<open>simp_all add: run del: dmul.simps\<close>)
qed

text \<open>Round trip of values: a printed number, followed by one of the units of \<open>unit_factors\<close>, is parsed by \<^verbatim>\<open>pd_parse_time\<close> as the fixed value
  of the number in microseconds, exactly as long as the result has at most 53 bits.
\<close>

theorem pd_parse_time_roundtrip:
  assumes "(u, f) \<in> set unit_factors" "int n * f \<le> 2 ^ 53"
  shows "pd_parse_time lm fs (show_nat n @ u) = Inr (pd_blank\<lparr>pd_val := Fin (of_int (int n * f))\<rparr>)"
proof -
  have "set u \<inter> {CHR '':''} = {}" using assms(1) by (auto simp: unit_factors_def)
  then have "set (show_nat n @ u) \<inter> set '':'' = {}" using show_nat_no_colon [of n] by auto
  then have toks: "split_at '':'' (show_nat n @ u) = [show_nat n @ u]" by (rule split_at_last)
  show ?thesis
    using sscanf_unit_number [OF assms]
    by (simp add: pd_parse_time_def pd_parse_internal_def toks pd_first_def kind_of_number pd_load_def pd_defaults_fixed
        pd_checks_def pd_blank_def isnan_def Let_def del: of_int_mult)
qed

section \<open>Concrete inputs\<close>

theorem pd_parse_time_roundtrip_witness:
  "pd_parse_time no_libm Map.empty (show_nat 25 @ ''ms'') = Inr (pd_blank\<lparr>pd_val := Fin 25000\<rparr>)"
  using pd_parse_time_roundtrip [of "''ms''" 1000 25 no_libm Map.empty] by (simp add: unit_factors_def)

lemma parse_number: "pd_parse no_libm Map.empty ''7'' = Inr (pd_blank\<lparr>pd_val := Fin 7\<rparr>)"
proof -
  have "scan_lf ''7'' = Some (rnd (of_int 7))"
    using scan_lf_show_nat [of "[]" 7] by (simp add: show_nat.simps dec_char_def char_of_def bit_0)
  then have "scan_lf ''7'' = Some (Fin 7)" using rnd_of_int [of 7] by simp
  then show ?thesis
    by (simp add: pd_parse_def pd_parse_internal_def pd_first_def kind_of_def sscanf_unit_def sscanf_fmt_def prefixed_def pd_load_def
        pd_defaults_fixed pd_checks_def pd_blank_def isnan_def Let_def)
qed


end
