(* ===== verification/DW_Ccmd.thy ===== *)
theory DW_Ccmd
  imports DW_Queue DW_Message DW_Distrib
begin

text \<open>
  The chain of commands of the client (\<^verbatim>\<open>src/ccmd.h\<close>, \<^verbatim>\<open>src/ccmd.c\<close>): the template from which every request is built. The
  nodes are allocated one after the other in a store and linked by their \<^verbatim>\<open>next\<close> pointers; a pointer to a node is its index in the store.
  The queue of the program holds a pointer to every node.
\<close>

section \<open>Data\<close>

record ccmd_node_t =
  ccmd :: command_type_t
  cpd_val :: pd_spec_t
  cpd_val2 :: pd_spec_t
  cstore :: store_opts_t
  cload :: load_opts_t
  cfwd :: fwd_opts_t
  cresp :: reply_opts_t
  n_skip :: int
  n_every :: int
  cnext :: "nat option"

record ccmd_t =
  cqueue :: "nat queue_t"
  cnodes :: "ccmd_node_t list"

definition calloc_node :: ccmd_node_t where
  "calloc_node = \<lparr>ccmd = COMPUTE, cpd_val = pd_zero, cpd_val2 = pd_zero,
     cstore = \<lparr>s_offset = 0, store_nbytes = 0, wait_sync = 0, s_dev_id = 0\<rparr>,
     cload = \<lparr>l_offset = 0, load_nbytes = 0, l_dev_id = 0\<rparr>,
     cfwd = \<lparr>pkt_size = 0, fwd_host = 0, fwd_port = 0, timeout = 0, retries = 0, n_ack = 0,
             on_fail_skip = 0, branched = 0, proto = 0\<rparr>,
     cresp = \<lparr>resp_size = 0, mode = 0, r_dev_id = 0\<rparr>, n_skip = 0, n_every = 0, cnext = None\<rparr>"

definition cnode :: "ccmd_node_t list \<Rightarrow> nat \<Rightarrow> ccmd_node_t res" where
  "cnode ns a = (if a < length ns then Inr (ns ! a) else Inl Out_Of_Bounds)"

definition ccmd_first :: "ccmd_t \<Rightarrow> nat option res" where
  "ccmd_first s = (if qsize (cqueue s) = 0 then Inr None
     else rbind (queue_node_data (cqueue s) (queue_head (cqueue s))) (\<lambda>a. Inr (Some a)))"

definition ccmd_last :: "ccmd_t \<Rightarrow> nat option res" where
  "ccmd_last s = (if qsize (cqueue s) = 0 then Inr None
     else rbind (queue_node_data (cqueue s) (queue_tail (cqueue s))) (\<lambda>a. Inr (Some a)))"

section \<open>Building the chain\<close>

definition ccmd_add :: "ccmd_t \<Rightarrow> command_type_t \<Rightarrow> pd_spec_t \<Rightarrow> ccmd_t res" where
  "ccmd_add s cmd pd =
     (let new_node = calloc_node\<lparr>ccmd := cmd, cpd_val := pd\<rparr>; a = length (cnodes s) in
      rbind
        (if qsize (cqueue s) \<ge> 1 then
           rbind (ccmd_last s) (\<lambda>l. case l of
             None \<Rightarrow> Inl Null_Deref
           | Some la \<Rightarrow> rbind (cnode (cnodes s) la) (\<lambda>n. Inr ((cnodes s)[la := n\<lparr>cnext := Some a\<rparr>])))
         else Inr (cnodes s)) (\<lambda>ns.
      rbind (queue_enqueue (cqueue s) (int (nat_of_command cmd)) a) (\<lambda>(p, q).
        Inr (s\<lparr>cqueue := q, cnodes := ns @ [new_node]\<rparr>))))"

section \<open>Skipping\<close>

text \<open>
  The inner loop of \<^verbatim>\<open>ccmd_skip\<close>, from a node that exists; a null pointer as the result also stands for the early \<^verbatim>\<open>return NULL\<close>.
  The outer \<open>None\<close>: the loop does not end.
\<close>

partial_function (option) ccmd_skip_ctx :: "ccmd_node_t list \<Rightarrow> nat \<Rightarrow> int \<Rightarrow> nat option res option" where
  "ccmd_skip_ctx ns itr nested_fwd =
     (case cnode ns itr of
        Inl e \<Rightarrow> Some (Inl e)
      | Inr n \<Rightarrow>
          if ccmd n = REPLY \<and> \<not> nested_fwd > 0 then Some (Inr None)
          else
            (case (if ccmd n = FORWARD_BEGIN then Inr (nested_fwd + 1)
                   else if ccmd n = REPLY then
                     (case cnext n of
                        None \<Rightarrow> Inr nested_fwd
                      | Some a \<Rightarrow> rbind (cnode ns a) (\<lambda>nn.
                          Inr (if ccmd nn \<noteq> FORWARD_CONTINUE then nested_fwd - 1 else nested_fwd)))
                   else Inr nested_fwd) of
               Inl e \<Rightarrow> Some (Inl e)
             | Inr nested' \<Rightarrow>
                 (case cnext n of
                    None \<Rightarrow> Some (Inr None)
                  | Some a \<Rightarrow> if nested' > 0 then ccmd_skip_ctx ns a nested' else Some (Inr (Some a)))))"

function ccmd_skip :: "ccmd_node_t list \<Rightarrow> nat option \<Rightarrow> int \<Rightarrow> nat option res option" where
  "ccmd_skip ns node to_skip =
     (case node of
        None \<Rightarrow> Some (Inr None)
      | Some itr \<Rightarrow>
          if to_skip > 0 then
            (case ccmd_skip_ctx ns itr 0 of
               None \<Rightarrow> None
             | Some (Inl e) \<Rightarrow> Some (Inl e)
             | Some (Inr itr') \<Rightarrow> ccmd_skip ns itr' (to_skip - 1))
          else Some (Inr (Some itr)))"
  by pat_completeness auto
termination
  by (relation "measure (\<lambda>(ns, node, n). nat n)") auto

declare ccmd_skip.simps [simp del]

section \<open>Writing a request\<close>

definition enc_store_opts :: "store_opts_t \<Rightarrow> bytes" where
  "enc_store_opts s = le_bytes 8 (s_offset s) @ le_bytes 8 (store_nbytes s) @ le_bytes 1 (wait_sync s) @
     le_bytes 1 (s_dev_id s) @ replicate 6 0"

definition enc_load_opts :: "load_opts_t \<Rightarrow> bytes" where
  "enc_load_opts l = le_bytes 8 (l_offset l) @ le_bytes 8 (load_nbytes l) @ le_bytes 1 (l_dev_id l) @ replicate 7 0"

definition enc_reply_opts :: "reply_opts_t \<Rightarrow> bytes" where
  "enc_reply_opts r = le_bytes 4 (resp_size r) @ le_bytes 4 (mode r) @ le_bytes 1 (r_dev_id r) @ replicate 3 0"

text \<open>A sample, converted to an integer type, with the specification and the generator afterwards.\<close>

definition sample_as ::
    "libm \<Rightarrow> (double \<Rightarrow> nat res) \<Rightarrow> pd_spec_t \<Rightarrow> rng \<Rightarrow> (nat \<times> pd_spec_t \<times> rng) res option" where
  "sample_as lm conv p g =
     map_option (\<lambda>r. rbind r (\<lambda>(v, p', g'). rbind (conv v) (\<lambda>n. Inr (n, p', g')))) (pd_sample lm p g)"

text \<open>The options that a node other than a \<^verbatim>\<open>PSKIP\<close> writes after its command, and the node afterwards.\<close>

definition ccmd_opts :: "libm \<Rightarrow> ccmd_node_t \<Rightarrow> rng \<Rightarrow> (bytes \<times> ccmd_node_t \<times> rng) res option" where
  "ccmd_opts lm n g =
     (if ccmd n = STORE then
        obind (sample_as lm to_u64 (cpd_val2 n) g) (\<lambda>(off, p2, g1).
        obind (sample_as lm to_u64 (cpd_val n) g1) (\<lambda>(nb, p1, g2).
          Some (Inr (enc_store_opts ((cstore n)\<lparr>s_offset := off, store_nbytes := nb\<rparr>), n\<lparr>cpd_val := p1, cpd_val2 := p2\<rparr>, g2))))
      else if ccmd n = COMPUTE then
        obind (sample_as lm to_u32 (cpd_val n) g) (\<lambda>(us, p1, g1). Some (Inr (le_bytes 4 us, n\<lparr>cpd_val := p1\<rparr>, g1)))
      else if ccmd n = LOAD then
        obind (sample_as lm to_u64 (cpd_val2 n) g) (\<lambda>(off, p2, g1).
        obind (sample_as lm to_u64 (cpd_val n) g1) (\<lambda>(nb, p1, g2).
          Some (Inr (enc_load_opts ((cload n)\<lparr>l_offset := off, load_nbytes := nb\<rparr>), n\<lparr>cpd_val := p1, cpd_val2 := p2\<rparr>, g2))))
      else if ccmd n = REPLY then
        obind (sample_as lm to_u32 (cpd_val n) g) (\<lambda>(sz, p1, g1).
          Some (Inr (enc_reply_opts ((cresp n)\<lparr>resp_size := sz\<rparr>), n\<lparr>cpd_val := p1\<rparr>, g1)))
      else if ccmd n = FORWARD_BEGIN \<or> ccmd n = FORWARD_CONTINUE then
        obind (sample_as lm to_u32 (cpd_val n) g) (\<lambda>(sz, p1, g1).
          Some (Inr (enc_fwd_opts ((cfwd n)\<lparr>pkt_size := sz\<rparr>), n\<lparr>cpd_val := p1\<rparr>, g1)))
      else Some (Inl Exit_Failure))"

text \<open>The node that follows a \<^verbatim>\<open>PSKIP\<close>; \<^verbatim>\<open>n_every\<close> is converted to an unsigned integer for the remainder.\<close>

definition skip_target :: "ccmd_node_t list \<Rightarrow> ccmd_node_t \<Rightarrow> nat \<Rightarrow> double \<Rightarrow> nat option res option" where
  "skip_target ns n req_id x =
     (let every = nat (n_every n mod 2 ^ 32) in
      if every = 0 then Some (Inl Div_By_Zero)
      else if req_id mod every = 0 \<and> dle x (pd_val (cpd_val n)) then ccmd_skip ns (cnext n) (n_skip n)
      else Some (Inr (cnext n)))"

text \<open>The loop of \<^verbatim>\<open>ccmd_dump\<close> for the message \<open>m\<close> in the buffer \<open>b\<close>: the returned number, the buffer, the nodes and the generator.\<close>

partial_function (option) dump_loop ::
    "libm \<Rightarrow> nat \<Rightarrow> ccmd_node_t list \<Rightarrow> nat option \<Rightarrow> bytes \<Rightarrow> nat \<Rightarrow> nat \<Rightarrow> rng \<Rightarrow> (nat \<times> bytes \<times> ccmd_node_t list \<times> rng) res option"
  where
  "dump_loop lm m ns itr b cmd avail g =
     (case itr of
        None \<Rightarrow>
          if avail < cmd_type_size EOM then Some (Inr (0, b, ns, g))
          else Some (rbind (set_cmd b cmd EOM) (\<lambda>b'. Inr (1, b', ns, g)))
      | Some a \<Rightarrow>
          (case rbind (cnode ns a) (\<lambda>n. rbind (set_cmd b cmd (ccmd n)) (\<lambda>b'. Inr (n, b'))) of
             Inl e \<Rightarrow> Some (Inl e)
           | Inr (n, b1) \<Rightarrow>
               if avail < cmd_type_size (ccmd n) then Some (Inr (0, b1, ns, g))
               else
                 let avail' = avail - cmd_type_size (ccmd n) in
                 if ccmd n = PSKIP then
                   (let (x, g1) = drand48_r g in
                    case obind (Some (get_req_id b1 m)) (\<lambda>rid. skip_target ns n rid x) of
                      None \<Rightarrow> None
                    | Some (Inl e) \<Rightarrow> Some (Inl e)
                    | Some (Inr itr') \<Rightarrow> dump_loop lm m ns itr' b1 cmd avail' g1)
                 else
                   (case obind (ccmd_opts lm n g) (\<lambda>(opts, n', g1).
                           Some (rbind (blit b1 (cmd + sizeof_command_t) opts) (\<lambda>b2.
                                 rbind (message_end b2 m) (\<lambda>e. rbind (cmd_bounded_next b2 cmd e) (\<lambda>nx.
                                   Inr (b2, nx, n', g1)))))) of
                      None \<Rightarrow> None
                    | Some (Inl e) \<Rightarrow> Some (Inl e)
                    | Some (Inr (b2, nx, n', g1)) \<Rightarrow>
                        (case nx of
                           None \<Rightarrow> Some (Inr (0, b2, ns[a := n'], g1))
                         | Some cmd' \<Rightarrow> dump_loop lm m (ns[a := n']) (cnext n) b2 cmd' avail' g1))))"

definition ccmd_dump :: "libm \<Rightarrow> ccmd_t \<Rightarrow> bytes \<Rightarrow> nat \<Rightarrow> rng \<Rightarrow> (nat \<times> bytes \<times> ccmd_t \<times> rng) res option" where
  "ccmd_dump lm s b m g =
     (case rbind (queue_node_data (cqueue s) (queue_head (cqueue s))) (\<lambda>a. rbind (get_req_size b m) (\<lambda>n. Inr (a, n))) of
        Inl e \<Rightarrow> Some (Inl e)
      | Inr (a, req_size) \<Rightarrow>
          map_option (\<lambda>r. rbind r (\<lambda>(rv, b', ns, g'). Inr (rv, b', s\<lparr>cnodes := ns\<rparr>, g')))
            (dump_loop lm m (cnodes s) (Some a) b (message_first_cmd m) req_size g))"

section \<open>Releasing the chain\<close>

text \<open>The nodes that \<^verbatim>\<open>ccmd_destroy\<close> frees, in order; the queue is freed afterwards.\<close>

partial_function (option) free_chain :: "ccmd_node_t list \<Rightarrow> nat option \<Rightarrow> nat list \<Rightarrow> nat list res option" where
  "free_chain ns p freed =
     (case p of
        None \<Rightarrow> Some (Inr freed)
      | Some a \<Rightarrow>
          (case (if a \<in> set freed then Inl Out_Of_Bounds else cnode ns a) of
             Inl e \<Rightarrow> Some (Inl e)
           | Inr n \<Rightarrow> free_chain ns (cnext n) (freed @ [a])))"

definition ccmd_destroy :: "ccmd_t \<Rightarrow> nat list res option" where
  "ccmd_destroy s = (case ccmd_first s of Inl e \<Rightarrow> Some (Inl e) | Inr a \<Rightarrow> free_chain (cnodes s) a [])"

section \<open>Linked segments\<close>

text \<open>\<open>seg ns p as q\<close>: the pointers from \<open>p\<close> on lead through the nodes \<open>as\<close> to \<open>q\<close>.\<close>

fun seg :: "ccmd_node_t list \<Rightarrow> nat option \<Rightarrow> nat list \<Rightarrow> nat option \<Rightarrow> bool" where
  "seg ns p [] q \<longleftrightarrow> p = q"
| "seg ns p (a # as) q \<longleftrightarrow> p = Some a \<and> a < length ns \<and> seg ns (cnext (ns ! a)) as q"

abbreviation chain :: "ccmd_node_t list \<Rightarrow> nat option \<Rightarrow> nat list \<Rightarrow> bool" where
  "chain ns p as \<equiv> seg ns p as None"

lemma seg_append: "seg ns p (as @ bs) q \<longleftrightarrow> (\<exists>r. seg ns p as r \<and> seg ns r bs q)"
  by (induction as arbitrary: p) auto

lemma seg_upd: "a \<notin> set as \<Longrightarrow> seg (ns[a := n]) p as q \<longleftrightarrow> seg ns p as q"
  by (induction as arbitrary: p) auto

lemma seg_more: "seg ns p as q \<Longrightarrow> seg (ns @ ms) p as q"
  by (induction as arbitrary: p) (auto simp: nth_append)

lemma seg_in_store: "seg ns p as q \<Longrightarrow> a \<in> set as \<Longrightarrow> a < length ns"
  by (induction as arbitrary: p) auto

lemma seg_link:
  assumes "seg ns p as (Some l)" "l \<notin> set as" "l < length ns" "cnext new = None"
  shows "chain (ns[l := (ns ! l)\<lparr>cnext := Some (length ns)\<rparr>] @ [new]) p (as @ [l, length ns])"
proof -
  have "seg (ns[l := (ns ! l)\<lparr>cnext := Some (length ns)\<rparr>] @ [new]) p as (Some l)"
    using assms(1,2) by (intro seg_more) (simp add: seg_upd)
  then show ?thesis using assms(3,4) by (auto simp: seg_append nth_append)
qed

section \<open>The chain that is built\<close>

definition ptrs :: "ccmd_t \<Rightarrow> nat list" where
  "ptrs s = map snd (contents (cqueue s))"

lemma ccmd_last_ptr: "stack_inv (cqueue s) \<Longrightarrow> ptrs s \<noteq> [] \<Longrightarrow> ccmd_last s = Inr (Some (last (ptrs s)))"
  using queue_tail_last [of "cqueue s"]
  by (auto simp: ptrs_def ccmd_last_def queue_node_data_def rbind_eq_Inr last_map stack_inv_def queue_tail_def contents_def)

lemma ccmd_head_ptr:
  "stack_inv (cqueue s) \<Longrightarrow> ptrs s \<noteq> [] \<Longrightarrow> queue_node_data (cqueue s) (queue_head (cqueue s)) = Inr (hd (ptrs s))"
  using queue_head_first [of "cqueue s", OF stack_inv_imp_queue_inv]
  by (auto simp: ptrs_def queue_node_data_def rbind_eq_Inr hd_map dest: arg_cong [where f = snd])

lemma length_ptrs: "stack_inv (cqueue s) \<Longrightarrow> int (length (ptrs s)) = qsize (cqueue s)"
  by (simp add: ptrs_def stack_inv_def)

lemma enqueue_ptrs:
  assumes "stack_inv (cqueue s)"
  shows "\<exists>p q. queue_enqueue (cqueue s) k a = Inr (p, q) \<and> stack_inv q \<and> capacity q = capacity (cqueue s) \<and>
    map snd (contents q) = (if int (length (ptrs s)) < capacity (cqueue s) then ptrs s @ [a] else ptrs s)"
proof -
  note i = stack_inv_imp_queue_inv [OF assms]
  obtain p q where e: "queue_enqueue (cqueue s) k a = Inr (p, q)" using enqueue_total [OF i] by blast
  show ?thesis
    using e enqueue_contents [OF i e] enqueue_inv [OF i e] enqueue_stack_inv [OF assms e] length_ptrs [OF assms]
    by (auto simp: ptrs_def)
qed

text \<open>The nodes that are linked after \<open>k\<close> calls of \<open>ccmd_add\<close> on a queue with \<open>cap\<close> slots.\<close>

definition linked :: "nat \<Rightarrow> nat \<Rightarrow> nat list" where
  "linked cap k = (if k \<le> cap then [0..<k] else [0..<cap] @ [k - 1])"

definition built :: "nat \<Rightarrow> (command_type_t \<times> pd_spec_t) list \<Rightarrow> ccmd_t \<Rightarrow> bool" where
  "built cap cs s \<longleftrightarrow> stack_inv (cqueue s) \<and> capacity (cqueue s) = int cap \<and> 1 < cap \<and>
     ptrs s = [0..<min (length cs) cap] \<and> map (\<lambda>n. (ccmd n, cpd_val n)) (cnodes s) = cs \<and>
     chain (cnodes s) (if cs = [] then None else Some 0) (linked cap (length cs))"

lemma built_length: "built cap cs s \<Longrightarrow> length (cnodes s) = length cs"
  unfolding built_def by (metis length_map)

lemma linked_split:
  assumes "0 < k" "1 < cap"
  shows "\<exists>as l. linked cap (Suc k) = as @ [l, k] \<and> linked cap k = as @ [l] @ (if k \<le> cap then [] else [k - 1]) \<and>
    l = last [0..<min k cap] \<and> l \<notin> set as \<and> l < k"
proof -
  let ?l = "min k cap - 1"
  have "[0..<min k cap] = [0..<?l] @ [?l]" using assms by (cases "min k cap") auto
  moreover have "[0..<cap] = [0..<?l] @ [?l]" if "cap \<le> k" using calculation that by (simp add: min_def split: if_splits)
  ultimately show ?thesis using assms
    by (intro exI [of _ "[0..<?l]"] exI [of _ ?l]) (auto simp: linked_def min_def split: if_splits)
qed

lemma built_add:
  assumes "built cap cs s"
  shows "\<exists>s'. ccmd_add s c pd = Inr s' \<and> built cap (cs @ [(c, pd)]) s'"
proof -
  let ?k = "length cs" and ?new = "calloc_node\<lparr>ccmd := c, cpd_val := pd\<rparr>"
  have b: "stack_inv (cqueue s)" "capacity (cqueue s) = int cap" "1 < cap" "ptrs s = [0..<min ?k cap]"
    "map (\<lambda>n. (ccmd n, cpd_val n)) (cnodes s) = cs" "chain (cnodes s) (if cs = [] then None else Some 0) (linked cap ?k)"
    using assms by (auto simp: built_def)
  have len: "length (cnodes s) = ?k" by (rule built_length [OF assms])
  obtain p q where q: "queue_enqueue (cqueue s) (int (nat_of_command c)) ?k = Inr (p, q)" "stack_inv q"
      "capacity q = int cap" "map snd (contents q) = [0..<min (Suc ?k) cap]"
    using enqueue_ptrs [OF b(1), of "int (nat_of_command c)" ?k] b(2,4) by (auto simp: min_def split: if_splits)
  have sz: "qsize (cqueue s) = int (min ?k cap)" using length_ptrs [OF b(1)] b(4) by simp
  show ?thesis
  proof (cases "?k = 0")
    case True
    then have "ccmd_add s c pd = Inr (s\<lparr>cqueue := q, cnodes := [?new]\<rparr>)"
      using q(1) sz len by (simp add: ccmd_add_def Let_def)
    then show ?thesis using True q b(3) by (auto simp: built_def ptrs_def linked_def calloc_node_def)
  next
    case False
    then obtain as l where al: "linked cap (Suc ?k) = as @ [l, ?k]" "l = last [0..<min ?k cap]" "l \<notin> set as" "l < ?k"
        "linked cap ?k = as @ [l] @ (if ?k \<le> cap then [] else [?k - 1])"
      using linked_split [of ?k cap] b(3) by auto
    have "ptrs s \<noteq> []" using False b(3,4) by simp
    then have "ccmd_last s = Inr (Some l)" using ccmd_last_ptr [OF b(1)] b(4) al(2) by simp
    moreover have "1 \<le> qsize (cqueue s)" using sz False b(3) by (cases cs) auto
    ultimately have add: "ccmd_add s c pd =
        Inr (s\<lparr>cqueue := q, cnodes := (cnodes s)[l := (cnodes s ! l)\<lparr>cnext := Some ?k\<rparr>] @ [?new]\<rparr>)"
      using q(1) len al(4) by (simp add: ccmd_add_def Let_def cnode_def)
    have "seg (cnodes s) (Some 0) as (Some l)" using b(6) False al(5) by (auto simp: seg_append)
    from seg_link [OF this al(3), of ?new] len al(4)
    have "chain ((cnodes s)[l := (cnodes s ! l)\<lparr>cnext := Some ?k\<rparr>] @ [?new]) (Some 0) (linked cap (Suc ?k))"
      by (simp add: al(1) calloc_node_def)
    moreover have "map (\<lambda>n. (ccmd n, cpd_val n)) ((cnodes s)[l := (cnodes s ! l)\<lparr>cnext := Some ?k\<rparr>]) =
        (map (\<lambda>n. (ccmd n, cpd_val n)) (cnodes s))[l := map (\<lambda>n. (ccmd n, cpd_val n)) (cnodes s) ! l]"
      using al(4) len by (simp add: map_update)
    then have "map (\<lambda>n. (ccmd n, cpd_val n)) ((cnodes s)[l := (cnodes s ! l)\<lparr>cnext := Some ?k\<rparr>]) = cs" by (simp only: b(5) list_update_id)
    ultimately have "built cap (cs @ [(c, pd)])
        (s\<lparr>cqueue := q, cnodes := (cnodes s)[l := (cnodes s ! l)\<lparr>cnext := Some ?k\<rparr>] @ [?new]\<rparr>)"
      using q(2-4) b(3) by (simp add: built_def ptrs_def)
    with add show ?thesis by blast
  qed
qed

text \<open>The chain that \<^verbatim>\<open>ccmd_add\<close> builds: on an empty queue with \<open>cap\<close> slots no call faults, and from the first node the
  chain leads through the added commands in their order as long as there are at most \<open>cap\<close> of them; of the commands beyond the
  capacity only the last one stays in the chain.
\<close>

theorem ccmd_chain_built:
  assumes "1 < cap"
  shows "\<exists>s. rfold (\<lambda>s (c, pd). ccmd_add s c pd) \<lparr>cqueue = queue_alloc garbage cap, cnodes = []\<rparr> cs = Inr s \<and>
    chain (cnodes s) (if cs = [] then None else Some 0) (linked cap (length cs)) \<and>
    map (\<lambda>a. (ccmd (cnodes s ! a), cpd_val (cnodes s ! a))) (linked cap (length cs)) =
      (if length cs \<le> cap then cs else take cap cs @ [last cs])"
proof -
  have "\<exists>s'. rfold (\<lambda>s (c, pd). ccmd_add s c pd) s cs = Inr s' \<and> built cap (bs @ cs) s'" if "built cap bs s" for s bs
    using that
  proof (induction cs arbitrary: bs s)
    case Nil
    then show ?case by simp
  next
    case (Cons c cs)
    obtain s1 where s1: "ccmd_add s (fst c) (snd c) = Inr s1" "built cap (bs @ [c]) s1"
      using built_add [OF Cons.prems, of "fst c" "snd c"] by auto
    then show ?case using Cons.IH [OF s1(2)] by (cases c) auto
  qed
  moreover have "built cap [] \<lparr>cqueue = queue_alloc garbage cap, cnodes = []\<rparr>"
    using assms stack_inv_alloc [of cap garbage] by (simp add: built_def ptrs_def linked_def) (simp add: queue_alloc_def)
  ultimately obtain s where s: "rfold (\<lambda>s (c, pd). ccmd_add s c pd) \<lparr>cqueue = queue_alloc garbage cap, cnodes = []\<rparr> cs = Inr s"
      "built cap cs s" by force
  let ?f = "\<lambda>n. (ccmd n, cpd_val n)"
  have cs: "map ?f (cnodes s) = cs" and len: "length (cnodes s) = length cs"
    using s(2) built_length [OF s(2)] by (auto simp: built_def)
  have nth: "?f (cnodes s ! a) = cs ! a" if "a < length cs" for a using that len cs by (metis (no_types, lifting) nth_map)
  have "map (\<lambda>a. ?f (cnodes s ! a)) (linked cap (length cs)) = (if length cs \<le> cap then cs else take cap cs @ [last cs])"
  proof (cases "length cs \<le> cap")
    case True
    then show ?thesis using nth by (auto simp: linked_def intro!: nth_equalityI)
  next
    case False
    then have "last cs = cs ! (length cs - 1)" by (intro last_conv_nth) auto
    then show ?thesis using False nth by (auto simp: linked_def intro!: nth_equalityI)
  qed
  then show ?thesis using s by (auto simp: built_def)
qed

section \<open>Skipping contexts of the chain\<close>

text \<open>A position is the list of the nodes from there to the end of the chain.\<close>

definition chain_at :: "ccmd_node_t list \<Rightarrow> nat list \<Rightarrow> command_type_t list \<Rightarrow> bool" where
  "chain_at ns as ts \<longleftrightarrow> (as \<noteq> [] \<longrightarrow> chain ns (Some (hd as)) as) \<and> length ts \<le> length as \<and>
     map (\<lambda>a. ccmd (ns ! a)) (take (length ts) as) = ts \<and> EOM \<notin> set ts"

lemma chain_drop: "chain ns p as \<Longrightarrow> n < length as \<Longrightarrow> chain ns (Some (as ! n)) (drop n as)"
proof (induction as arbitrary: p n)
  case (Cons a as)
  then show ?case by (cases n) auto
qed simp

lemma chain_at_append: "chain_at ns as (ts @ us) \<longleftrightarrow> chain_at ns as ts \<and> chain_at ns (drop (length ts) as) us"
proof -
  let ?n = "length ts"
  have "chain ns (Some (hd (drop ?n as))) (drop ?n as)" if "as \<noteq> [] \<longrightarrow> chain ns (Some (hd as)) as" "drop ?n as \<noteq> []"
    using that chain_drop [of ns "Some (hd as)" as ?n] by (auto simp: hd_drop_conv_nth)
  moreover have "map f (take (?n + length us) as) = ts @ us \<longleftrightarrow> map f (take ?n as) = ts \<and> map f (take (length us) (drop ?n as)) = us"
    if "?n \<le> length as" for f using that by (auto simp: take_add append_eq_append_conv)
  ultimately show ?thesis by (auto simp: chain_at_def le_diff_conv2)
qed

lemma ccmd_skip_ctx_step:
  assumes "chain_at ns as [t, tn]" "t = REPLY \<Longrightarrow> 0 < k"
  shows "ccmd_skip_ctx ns (hd as) k = (if tn \<noteq> EOM \<and> nest_after t tn k > 0
    then ccmd_skip_ctx ns (hd (drop (length [t]) as)) (nest_after t tn k) else Some (Inr (Some (hd (drop (length [t]) as)))))"
proof -
  obtain a b bs where as: "as = a # b # bs" using assms(1) by (cases as; cases "tl as") (auto simp: chain_at_def)
  have n: "a < length ns" "b < length ns" "cnext (ns ! a) = Some b" "ccmd (ns ! a) = t" "ccmd (ns ! b) = tn" "tn \<noteq> EOM"
    using assms(1) by (auto simp: as chain_at_def)
  show ?thesis using n assms(2) by (subst ccmd_skip_ctx.simps) (auto simp: as cnode_def)
qed

interpretation cc: ctx_walk "chain_at ns" "\<lambda>as ts. drop (length ts) as" "\<lambda>as k. ccmd_skip_ctx ns (hd as) k"
  "\<lambda>as. Some (Inr (Some (hd as)))" for ns
  by unfold_locales (rule chain_at_append, simp add: add.commute, simp, rule ccmd_skip_ctx_step)

lemma ccmd_skip_ctxs:
  assumes "list_all ctx_wf cs" "chain_at ns as (concat (map ctx_cmds cs) @ tn # ts)" "tn \<noteq> FORWARD_CONTINUE"
  shows "ccmd_skip ns (Some (hd as)) (int (length cs)) = Some (Inr (Some (hd (drop (length (concat (map ctx_cmds cs))) as))))"
  using assms(1,2)
proof (induction cs arbitrary: as)
  case Nil
  then show ?case by (subst ccmd_skip.simps) simp
next
  case (Cons c cs)
  let ?as = "drop (length (ctx_cmds c)) as"
  obtain u us where u: "concat (map ctx_cmds cs) @ tn # ts = u # us" "u \<noteq> FORWARD_CONTINUE"
    using ctx_list_hd [of cs tn ts] Cons.prems(1) assms(3) by auto
  have at: "chain_at ns as (ctx_cmds c)" "chain_at ns ?as (concat (map ctx_cmds cs) @ tn # ts)"
    using Cons.prems(2) by (simp_all add: chain_at_append)
  have "chain_at ns ?as [u]" using at(2) chain_at_append [of ns ?as "[u]" us] unfolding u(1) by simp
  then have "chain_at ns as (ctx_cmds c @ [u])" using at(1) by (simp add: chain_at_append)
  then have "ccmd_skip_ctx ns (hd as) 0 = Some (Inr (Some (hd ?as)))"
    using cc.walk_ctx [of c ns as u] Cons.prems(1) u(2) by simp
  then show ?case using Cons.IH [OF _ at(2)] Cons.prems(1)
    by (subst ccmd_skip.simps) (simp add: add.commute)
qed

text \<open>C31. The two ways to skip contexts agree: on a chain of nodes and on a message that hold the same well-formed commands, \<^verbatim>\<open>ccmd_skip\<close> on the
  client and \<^verbatim>\<open>cmd_bounded_skip\<close> on a node stop at the same command, the one after the skipped contexts.
\<close>

theorem skip_levels_agree:
  assumes "list_all ctx_wf cs" "tn \<noteq> FORWARD_CONTINUE"
    "chain_at ns as (concat (map ctx_cmds cs) @ tn # ts)" "cmds_at b e p (concat (map ctx_cmds cs) @ tn # ts)"
  shows "\<exists>i < length as.
    ccmd_skip ns (Some (hd as)) (int (length cs)) = Some (Inr (Some (as ! i))) \<and>
    cmd_bounded_skip b (Some p) (int (length cs)) e = Inr (Some (p + cmds_len (map (\<lambda>a. ccmd (ns ! a)) (take i as)))) \<and>
    ccmd (ns ! (as ! i)) = tn"
proof -
  let ?u = "concat (map ctx_cmds cs)" let ?i = "length ?u"
  have i: "?i < length as" "map (\<lambda>a. ccmd (ns ! a)) (take (?i + Suc (length ts)) as) = ?u @ tn # ts"
    using assms(3) by (auto simp: chain_at_def)
  have "map (\<lambda>a. ccmd (ns ! a)) (take ?i as) = take ?i (map (\<lambda>a. ccmd (ns ! a)) (take (?i + Suc (length ts)) as))"
    by (simp add: take_map min_absorb1)
  then have u: "map (\<lambda>a. ccmd (ns ! a)) (take ?i as) = ?u" using i(2) by simp
  have "map (\<lambda>a. ccmd (ns ! a)) (take (?i + Suc (length ts)) as) ! ?i = tn" by (simp only: i(2) nth_append_length)
  then have "ccmd (ns ! (as ! ?i)) = tn" using i(1) by simp
  moreover have "hd (drop ?i as) = as ! ?i" using i(1) by (rule hd_drop_conv_nth)
  ultimately show ?thesis
    using i(1) u ccmd_skip_ctxs [OF assms(1,3,2)] cmd_bounded_skip_ctxs [OF assms(1,4,2)] by (intro exI [of _ ?i]) simp
qed

section \<open>The commands of a request\<close>

text \<open>
  What a template produces for the request \<open>rid\<close>, without regard to buffers: \<open>emits lm rid ns p g out k ns' g'\<close> when the nodes from \<open>p\<close> on
  give the commands \<open>out\<close> with their options, passing \<open>k\<close> nodes of the type \<^verbatim>\<open>PSKIP\<close>, and leave the nodes \<open>ns'\<close> and the generator \<open>g'\<close>.
\<close>

inductive emits ::
    "libm \<Rightarrow> nat \<Rightarrow> ccmd_node_t list \<Rightarrow> nat option \<Rightarrow> rng \<Rightarrow> (command_type_t \<times> bytes) list \<Rightarrow> nat \<Rightarrow> ccmd_node_t list \<Rightarrow> rng \<Rightarrow> bool"
  for lm rid where
  emits_end: "emits lm rid ns None g [] 0 ns g"
| emits_cmd: "a < length ns \<Longrightarrow> ccmd (ns ! a) \<noteq> PSKIP \<Longrightarrow> ccmd_opts lm (ns ! a) g = Some (Inr (opts, n', g1)) \<Longrightarrow>
    emits lm rid (ns[a := n']) (cnext (ns ! a)) g1 out k ns' g' \<Longrightarrow>
    emits lm rid ns (Some a) g ((ccmd (ns ! a), opts) # out) k ns' g'"
| emits_skip: "a < length ns \<Longrightarrow> ccmd (ns ! a) = PSKIP \<Longrightarrow> drand48_r g = (x, g1) \<Longrightarrow>
    skip_target ns (ns ! a) rid x = Some (Inr p) \<Longrightarrow> emits lm rid ns p g1 out k ns' g' \<Longrightarrow>
    emits lm rid ns (Some a) g out (Suc k) ns' g'"

lemma length_enc_opts [simp]:
  "length (enc_store_opts s) = 24" "length (enc_load_opts l) = 24" "length (enc_reply_opts r) = 12"
  by (simp_all add: enc_store_opts_def enc_load_opts_def enc_reply_opts_def)

lemma length_enc_fwd [simp]: "length (enc_fwd_opts f) = 24"
  by (simp add: enc_fwd_opts_def)

lemma ccmd_opts_enc_ok: "ccmd_opts lm n g = Some (Inr (opts, n', g')) \<Longrightarrow> enc_ok (ccmd n, opts)"
  by (auto simp: ccmd_opts_def obind_eq_Inr enc_ok_def sizeof_defs split: if_splits)

lemma emits_enc_ok: "emits lm rid ns p g out k ns' g' \<Longrightarrow> list_all enc_ok out"
  by (induction rule: emits.induct) (auto dest: ccmd_opts_enc_ok)

lemma cmd_type_size_le: "cmd_type_size t \<le> 28"
  by (cases t) (simp_all add: sizeof_defs)

lemma bounded_next_room:
  assumes "get_cmd b cmd = Inr t" "cmd + cmd_type_size t + 28 \<le> e" "e \<le> length b"
  shows "cmd_bounded_next b cmd e = Inr (Some (cmd + cmd_type_size t))"
proof -
  obtain u where "get_cmd b (cmd + cmd_type_size t) = Inr u" using get_cmd_ok [of "cmd + cmd_type_size t" b] assms by auto
  then show ?thesis using assms cmd_type_size_le [of u]
    by (simp add: cmd_bounded_next_def cmd_in_bounds_def sizeof_command_t_def)
qed

text \<open>The loop writes the commands one after the other and closes them with \<^verbatim>\<open>EOM\<close>; what is before them in the buffer stays.\<close>

lemma dump_loop_emits:
  assumes "emits lm rid ns p g out k ns' g'"
    "get_req_id b m = Inr rid" "get_req_size b m = Inr sz" "m + 12 \<le> cmd" "m + sz \<le> length b"
    "cmd + cmds_len (map fst out) + 28 \<le> m + sz" "cmds_len (map fst out) + 4 * k + 4 \<le> avail"
  shows "\<exists>b'. dump_loop lm m ns p b cmd avail g = Some (Inr (1, b', ns', g')) \<and> length b' = length b \<and>
    slice b' cmd (cmds_len (map fst out) + 4) = Inr (enc_cmds (out @ [(EOM, [])])) \<and>
    (\<forall>j n. j + n \<le> cmd \<longrightarrow> slice b' j n = slice b j n)"
  using assms
proof (induction arbitrary: b cmd avail rule: emits.induct)
  case (emits_end ns g)
  obtain b' where b': "set_cmd b cmd EOM = Inr b'" "length b' = length b"
    using wr_ok [of cmd 4 b] emits_end.prems by (auto simp: set_cmd_def)
  have "dump_loop lm m ns None b cmd avail g = Some (Inr (1, b', ns, g))"
    using emits_end.prems b' by (subst dump_loop.simps) (simp add: sizeof_defs)
  moreover have "slice b' cmd 4 = Inr (enc_cmds [(EOM, [])])"
    using b'(1) slice_blit_same [of b cmd "le_bytes 4 7" b'] by (simp add: set_cmd_def wr_def)
  moreover have "\<forall>j n. j + n \<le> cmd \<longrightarrow> slice b' j n = slice b j n"
    using b'(1) by (auto simp: set_cmd_def intro: slice_wr_other)
  ultimately show ?case using b'(2) by auto
next
  case (emits_cmd a ns g opts n' g1 out k ns' g')
  let ?t = "ccmd (ns ! a)"
  have ok: "length opts + 4 = cmd_type_size ?t" using ccmd_opts_enc_ok [OF emits_cmd.hyps(3)] by (simp add: enc_ok_def)
  have room: "cmd + cmd_type_size ?t + cmds_len (map fst out) + 28 \<le> m + sz" using emits_cmd.prems by simp
  obtain b1 where b1: "set_cmd b cmd ?t = Inr b1" "length b1 = length b"
    using wr_ok [of cmd 4 b] room emits_cmd.prems by (auto simp: set_cmd_def)
  then obtain b2 where b2: "blit b1 (cmd + 4) opts = Inr b2" "length b2 = length b"
    using room ok emits_cmd.prems by (simp add: blit_def)
  have keep: "slice b2 j n = slice b j n" if "j + n \<le> cmd" for j n
    using that b1(1) slice_blit_before [OF b2(1), of j n] by (simp add: set_cmd_def slice_wr_other)
  have "slice b1 cmd 4 = Inr (le_bytes 4 (nat_of_command ?t))"
    using b1(1) slice_blit_same [of b cmd _ b1] by (metis length_le_bytes set_cmd_def wr_def)
  then have "slice b2 cmd 4 = Inr (le_bytes 4 (nat_of_command ?t))" using slice_blit_before [OF b2(1), of cmd 4] by simp
  from slice_append [OF this, of "length opts" opts] slice_blit_same [OF b2(1)]
  have here: "slice b2 cmd (cmd_type_size ?t) = Inr (le_bytes 4 (nat_of_command ?t) @ opts)" using ok by (simp add: add.commute)
  have hdr: "get_req_id b2 m = Inr rid" "get_req_size b2 m = Inr sz"
    using emits_cmd.prems(1-3) keep by (simp_all add: get_req_id_def get_req_size_def rd_def)
  have "case ?t of CMD_OTHER n \<Rightarrow> 8 \<le> n \<and> n < 2 ^ 32 | _ \<Rightarrow> True" using ccmd_opts_enc_ok [OF emits_cmd.hyps(3)] by (simp add: enc_ok_def)
  then have "get_cmd b2 cmd = Inr ?t"
    using \<open>slice b2 cmd 4 = _\<close> command_of_nat_of_command [of ?t] by (simp add: get_cmd_def rd_def le_nat_le_bytes)
  then have nx: "cmd_bounded_next b2 cmd (m + sz) = Inr (Some (cmd + cmd_type_size ?t))"
    using room emits_cmd.prems(4) b2(2) by (intro bounded_next_room) auto
  have "cmds_len (map fst out) + 4 * k + 4 \<le> avail - cmd_type_size ?t" using emits_cmd.prems(6) by simp
  then obtain b' where b': "dump_loop lm m (ns[a := n']) (cnext (ns ! a)) b2 (cmd + cmd_type_size ?t) (avail - cmd_type_size ?t) g1 =
        Some (Inr (1, b', ns', g'))" "length b' = length b2"
      "slice b' (cmd + cmd_type_size ?t) (cmds_len (map fst out) + 4) = Inr (enc_cmds (out @ [(EOM, [])]))"
      "\<forall>j n. j + n \<le> cmd + cmd_type_size ?t \<longrightarrow> slice b' j n = slice b2 j n"
    using emits_cmd.IH [of b2 "cmd + cmd_type_size ?t" "avail - cmd_type_size ?t"] emits_cmd.prems hdr room b2(2) by auto
  have "dump_loop lm m ns (Some a) b cmd avail g = Some (Inr (1, b', ns', g'))"
    using emits_cmd.hyps emits_cmd.prems(6) b1(1) b2(1) hdr nx b'(1)
    by (subst dump_loop.simps) (simp add: cnode_def obind_def message_end_def sizeof_command_t_def Let_def)
  moreover have "slice b' cmd (cmd_type_size ?t + (cmds_len (map fst out) + 4)) =
      Inr ((le_bytes 4 (nat_of_command ?t) @ opts) @ enc_cmds (out @ [(EOM, [])]))"
    using b'(3,4) here by (intro slice_append) auto
  ultimately show ?case using b' b2(2) keep by (auto simp: add.assoc)
next
  case (emits_skip a ns g x g1 p out k ns' g')
  obtain b1 where b1: "set_cmd b cmd PSKIP = Inr b1" "length b1 = length b"
    using wr_ok [of cmd 4 b] emits_skip.prems by (auto simp: set_cmd_def)
  have keep: "slice b1 j n = slice b j n" if "j + n \<le> cmd" for j n
    using that b1(1) by (simp add: set_cmd_def slice_wr_other)
  have hdr: "get_req_id b1 m = Inr rid" "get_req_size b1 m = Inr sz"
    using emits_skip.prems(1-3) keep by (simp_all add: get_req_id_def get_req_size_def rd_def)
  have "cmds_len (map fst out) + 4 * k + 4 \<le> avail - 4" using emits_skip.prems(6) by simp
  then obtain b' where b': "dump_loop lm m ns p b1 cmd (avail - 4) g1 = Some (Inr (1, b', ns', g'))" "length b' = length b1"
      "slice b' cmd (cmds_len (map fst out) + 4) = Inr (enc_cmds (out @ [(EOM, [])]))"
      "\<forall>j n. j + n \<le> cmd \<longrightarrow> slice b' j n = slice b1 j n"
    using emits_skip.IH [of b1 cmd "avail - 4"] emits_skip.prems hdr b1(2) by auto
  have "dump_loop lm m ns (Some a) b cmd avail g = Some (Inr (1, b', ns', g'))"
    using emits_skip.hyps emits_skip.prems(6) b1(1) hdr b'(1)
    by (subst dump_loop.simps) (simp add: cnode_def obind_def sizeof_command_t_def Let_def)
  then show ?case using b' b1(2) keep by auto
qed

text \<open>The whole of \<^verbatim>\<open>ccmd_dump\<close>.\<close>

lemma ccmd_dump_ok:
  assumes "stack_inv (cqueue s)" "ptrs s \<noteq> []" "get_req_id b m = Inr rid" "get_req_size b m = Inr sz" "m + sz \<le> length b"
    "emits lm rid (cnodes s) (Some (hd (ptrs s))) g out k ns' g'"
    "12 + cmds_len (map fst out) + 28 \<le> sz" "cmds_len (map fst out) + 4 * k + 4 \<le> sz"
  shows "\<exists>b'. ccmd_dump lm s b m g = Some (Inr (1, b', s\<lparr>cnodes := ns'\<rparr>, g')) \<and> length b' = length b \<and>
    slice b' (m + 12) (cmds_len (map fst out) + 4) = Inr (enc_cmds (out @ [(EOM, [])])) \<and>
    cmds_at b' (m + sz) (m + 12) (map fst out @ [EOM]) \<and>
    (\<forall>j n. j + n \<le> m + 12 \<longrightarrow> slice b' j n = slice b j n)"
proof -
  have room: "m + 12 + cmds_len (map fst out) + 28 \<le> m + sz" using assms(7) by simp
  obtain b' where b': "dump_loop lm m (cnodes s) (Some (hd (ptrs s))) b (m + 12) sz g = Some (Inr (1, b', ns', g'))"
      "length b' = length b" "slice b' (m + 12) (cmds_len (map fst out) + 4) = Inr (enc_cmds (out @ [(EOM, [])]))"
      "\<forall>j n. j + n \<le> m + 12 \<longrightarrow> slice b' j n = slice b j n"
    using dump_loop_emits [OF assms(6,3,4) order_refl assms(5) room assms(8)] by blast
  let ?cs = "out @ [(EOM, [])]"
  have ok: "list_all enc_ok ?cs" using emits_enc_ok [OF assms(6)] by (simp add: enc_ok_def sizeof_defs)
  have len: "cmds_len (map fst ?cs) = cmds_len (map fst out) + 4" by (simp add: sizeof_defs)
  have sl: "slice (enc_cmds ?cs) 0 (cmds_len (map fst ?cs)) = Inr (enc_cmds ?cs)"
    using length_enc_cmds [OF ok] by (simp add: slice_def)
  have at0: "cmds_at (enc_cmds ?cs) (cmds_len (map fst ?cs)) 0 (map fst ?cs)"
    using cmds_at_enc [OF ok, of "[]" "cmds_len (map fst ?cs)" "[]"] by simp
  have sl': "slice b' (m + 12) (cmds_len (map fst ?cs)) = Inr (enc_cmds ?cs)" unfolding len by (rule b'(3))
  have "cmds_at b' (m + sz) (m + 12) (map fst ?cs)"
    by (rule cmds_at_copy [OF at0 sl sl']) (use assms(7) len in linarith)
  moreover have "ccmd_dump lm s b m g = Some (Inr (1, b', s\<lparr>cnodes := ns'\<rparr>, g'))"
    using b'(1) assms(4) ccmd_head_ptr [OF assms(1,2)] by (simp add: ccmd_dump_def message_first_cmd_def sizeof_message_t_def)
  ultimately show ?thesis using b' by auto
qed

text \<open>C19. A request is built completely: when the template gives the commands \<open>out\<close> for the request and the message has room for them, for \<^verbatim>\<open>EOM\<close> and for
  the largest command (whatever the bytes of the buffer are), \<^verbatim>\<open>ccmd_dump\<close> returns 1 and the message holds exactly the encoded commands,
  followed by \<^verbatim>\<open>EOM\<close>; the header and everything else before the commands is unchanged.
\<close>

theorem ccmd_dump_encodes:
  assumes "stack_inv (cqueue s)" "ptrs s \<noteq> []" "get_req_id b m = Inr rid" "get_req_size b m = Inr sz" "m + sz \<le> length b"
    "emits lm rid (cnodes s) (Some (hd (ptrs s))) g out k ns' g'"
    "12 + cmds_len (map fst out) + 28 \<le> sz" "cmds_len (map fst out) + 4 * k + 4 \<le> sz"
  shows "\<exists>b'. ccmd_dump lm s b m g = Some (Inr (1, b', s\<lparr>cnodes := ns'\<rparr>, g')) \<and> length b' = length b \<and>
    slice b' (m + 12) (cmds_len (map fst out) + 4) = Inr (enc_cmds (out @ [(EOM, [])])) \<and>
    cmds_at b' (m + sz) (m + 12) (map fst out @ [EOM]) \<and>
    (\<forall>j n. j + n \<le> m + 12 \<longrightarrow> slice b' j n = slice b j n)"
  using ccmd_dump_ok [OF assms] .

section \<open>Concrete inputs\<close>

text \<open>A template of two commands, \<^verbatim>\<open>COMPUTE\<close> for 1000 us and \<^verbatim>\<open>REPLY\<close> of 64 bytes.\<close>

definition sample_chain :: ccmd_t where
  "sample_chain =
     \<lparr>cqueue = \<lparr>nodes = [\<lparr>heap_id = 0, key = 0, data = 0\<rparr>, \<lparr>heap_id = 0, key = 6, data = 1\<rparr>], head = 0, tail = 1, qsize = 2, capacity = 2\<rparr>,
      cnodes = [calloc_node\<lparr>ccmd := COMPUTE, cpd_val := pd_build_fixed (Fin 1000), cnext := Some 1\<rparr>,
                calloc_node\<lparr>ccmd := REPLY, cpd_val := pd_build_fixed (Fin 64)\<rparr>]\<rparr>"

definition sample_out :: "(command_type_t \<times> bytes) list" where
  "sample_out = [(COMPUTE, le_bytes 4 1000), (REPLY, enc_reply_opts \<lparr>resp_size = 64, mode = 0, r_dev_id = 0\<rparr>)]"

lemma fixed_sample: "pd_sample lm (pd_build_fixed v) g = Some (Inr (v, pd_build_fixed v, g))"
  by (subst pd_sample.simps) (simp add: pd_draw_def pd_build_fixed_def pd_zero_def)

lemma fixed_sample_u32: "0 \<le> i \<Longrightarrow> i < 2 ^ 32 \<Longrightarrow> sample_as lm to_u32 (pd_build_fixed (Fin (of_int i))) g = Some (Inr (nat i, pd_build_fixed (Fin (of_int i)), g))"
  by (simp add: sample_as_def fixed_sample to_u32_int)

lemma sample_emits: "emits no_libm rid (cnodes sample_chain) (Some 0) g sample_out 0 (cnodes sample_chain) g"
proof -
  let ?ns = "cnodes sample_chain"
  have o: "ccmd_opts no_libm (?ns ! 0) g = Some (Inr (le_bytes 4 1000, ?ns ! 0, g))"
      "ccmd_opts no_libm (?ns ! 1) g = Some (Inr (enc_reply_opts \<lparr>resp_size = 64, mode = 0, r_dev_id = 0\<rparr>, ?ns ! 1, g))"
    using fixed_sample_u32 [of 1000 no_libm g] fixed_sample_u32 [of 64 no_libm g]
    by (simp_all add: ccmd_opts_def obind_def sample_chain_def calloc_node_def)
  have "emits no_libm rid ?ns (Some 1) g [(ccmd (?ns ! 1), enc_reply_opts \<lparr>resp_size = 64, mode = 0, r_dev_id = 0\<rparr>)] 0 ?ns g"
    by (rule emits_cmd [OF _ _ o(2)]) (simp_all add: emits_end sample_chain_def calloc_node_def)
  then have "emits no_libm rid ?ns (Some 0) g
      ((ccmd (?ns ! 0), le_bytes 4 1000) # [(ccmd (?ns ! 1), enc_reply_opts \<lparr>resp_size = 64, mode = 0, r_dev_id = 0\<rparr>)]) 0 ?ns g"
    by (intro emits_cmd [OF _ _ o(1)]) (simp_all add: sample_chain_def)
  then show ?thesis by (simp add: sample_out_def sample_chain_def)
qed

theorem ccmd_dump_encodes_witness:
  "\<exists>b'. ccmd_dump no_libm sample_chain (enc_message 7 80 0 (replicate 68 0)) 0 0 = Some (Inr (1, b', sample_chain, 0)) \<and>
    cmds_at b' 80 12 [COMPUTE, REPLY, EOM]"
proof -
  have "stack_inv (cqueue sample_chain)" "ptrs sample_chain = [0, 1]"
    by (simp_all add: sample_chain_def stack_inv_def ptrs_def contents_def ring_pos_def upt_rec)
  moreover have "sample_chain\<lparr>cnodes := cnodes sample_chain\<rparr> = sample_chain" by simp
  ultimately show ?thesis
    using ccmd_dump_encodes [of sample_chain "enc_message 7 80 0 (replicate 68 0)" 0 7 80 no_libm 0 sample_out 0 "cnodes sample_chain" 0]
      sample_emits [of 7 0] get_enc_message [of 7 80 0 "replicate 68 0"] by (auto simp: sample_out_def sizeof_defs)
qed

theorem ccmd_chain_built_witness:
  "\<exists>s. rfold (\<lambda>s (c, pd). ccmd_add s c pd) \<lparr>cqueue = queue_alloc (\<lambda>_. \<lparr>heap_id = 0, key = 0, data = 0\<rparr>) 2, cnodes = []\<rparr>
      [(COMPUTE, pd_zero), (STORE, pd_zero), (LOAD, pd_zero), (REPLY, pd_zero)] = Inr s \<and>
    map (\<lambda>a. ccmd (cnodes s ! a)) [0, 1, 3] = [COMPUTE, STORE, REPLY]"
  using ccmd_chain_built [of 2 "\<lambda>_. \<lparr>heap_id = 0, key = 0, data = 0\<rparr>" "[(COMPUTE, pd_zero), (STORE, pd_zero), (LOAD, pd_zero), (REPLY, pd_zero)]"]
  by (auto simp: linked_def upt_rec numeral_3_eq_3)

theorem skip_levels_agree_witness:
  "ccmd_skip (cnodes sample_chain) (Some 0) 1 = Some (Inr (Some 1)) \<and>
   cmd_bounded_skip (enc_cmds sample_out) (Some 0) 1 24 = Inr (Some 8)"
proof -
  have "chain_at (cnodes sample_chain) [0, 1] [COMPUTE, REPLY]"
    by (simp add: chain_at_def sample_chain_def calloc_node_def)
  moreover have "cmds_at (enc_cmds sample_out) 24 0 [COMPUTE, REPLY]"
    using cmds_at_enc [of sample_out "[]" 24 "[]"] by (simp add: sample_out_def enc_ok_def sizeof_defs)
  ultimately have "\<exists>i < 2. ccmd_skip (cnodes sample_chain) (Some 0) 1 = Some (Inr (Some ([0, 1] ! i))) \<and>
      cmd_bounded_skip (enc_cmds sample_out) (Some 0) 1 24 =
        Inr (Some (cmds_len (map (\<lambda>a. ccmd (cnodes sample_chain ! a)) (take i [0, 1])))) \<and>
      ccmd (cnodes sample_chain ! ([0, 1] ! i)) = REPLY"
    using skip_levels_agree [of "[Op COMPUTE]" REPLY "cnodes sample_chain" "[0, 1]" "[]" "enc_cmds sample_out" 24 0]
    by (simp add: numeral_2_eq_2)
  then obtain i where i: "i < 2" "ccmd_skip (cnodes sample_chain) (Some 0) 1 = Some (Inr (Some ([0, 1] ! i)))"
      "cmd_bounded_skip (enc_cmds sample_out) (Some 0) 1 24 = Inr (Some (cmds_len (map (\<lambda>a. ccmd (cnodes sample_chain ! a)) (take i [0, 1]))))"
      "ccmd (cnodes sample_chain ! ([0, 1] ! i)) = REPLY" by blast
  moreover have "i = 1" using i(1,4) by (cases i) (auto simp: sample_chain_def calloc_node_def)
  ultimately show ?thesis by (simp add: sample_chain_def calloc_node_def sizeof_defs)
qed

text \<open>
  The default offset -1 of \<^verbatim>\<open>STORE\<close> and \<^verbatim>\<open>LOAD\<close> is converted from \<^verbatim>\<open>double\<close> to an unsigned 64-bit integer, which C does not define.
\<close>

lemma default_offset_undefined:
  "ccmd n \<in> {STORE, LOAD} \<Longrightarrow> cpd_val2 n = pd_build_fixed (Fin (-1)) \<Longrightarrow> ccmd_opts lm n g = Some (Inl Bad_Cast)"
  by (auto simp: ccmd_opts_def obind_def sample_as_def fixed_sample to_u64_def to_integer_def trunc_rat_def)

end
