(* ===== verification/DW_Affinity.thy ===== *)
theory DW_Affinity
  imports DW_Strings
begin

text \<open>
  Lists of processors and the round-robin iteration over them (\<^verbatim>\<open>src/thread_affinity.c\<close>). A \<^verbatim>\<open>cpu_set_t\<close> is a set of numbers below
  1024; the macros of glibc ignore other numbers.
\<close>

section \<open>Processor sets\<close>

type_synonym cpu_set_t = "int set"

definition CPU_SET :: "int \<Rightarrow> cpu_set_t \<Rightarrow> cpu_set_t" where
  "CPU_SET cpu m = (if 0 \<le> cpu \<and> cpu < 1024 then insert cpu m else m)"

definition CPU_ISSET :: "int \<Rightarrow> cpu_set_t \<Rightarrow> bool" where
  "CPU_ISSET cpu m \<longleftrightarrow> 0 \<le> cpu \<and> cpu < 1024 \<and> cpu \<in> m"

section \<open>Parsing\<close>

text \<open>The numbers that \<^verbatim>\<open>sscanf(tok, "%d-%d:%d", ...)\<close> converts.\<close>

definition scan_range :: "string \<Rightarrow> int list" where
  "scan_range tok =
     (case scan_d tok of
        None \<Rightarrow> []
      | Some (a, r) \<Rightarrow> (case prefixed ''-'' r of
          None \<Rightarrow> [a]
        | Some r1 \<Rightarrow> (case scan_d r1 of
            None \<Rightarrow> [a]
          | Some (b, r2) \<Rightarrow> (case prefixed '':'' r2 of
              None \<Rightarrow> [a, b]
            | Some r3 \<Rightarrow> (case scan_d r3 of None \<Rightarrow> [a, b] | Some (c, r4) \<Rightarrow> [a, b, c])))))"

definition scan_single :: "string \<Rightarrow> int option" where
  "scan_single tok = (case scan_d tok of
     Some (v, r) \<Rightarrow> Some v
   | None \<Rightarrow> map_option fst (Option.bind (prefixed ''-'' tok) scan_d))"

function set_range :: "int \<Rightarrow> int \<Rightarrow> int \<Rightarrow> cpu_set_t \<Rightarrow> cpu_set_t res" where
  "set_range i hi step m =
     (if i \<le> hi \<and> 0 < step then
        (if i + step \<ge> 2 ^ 31 then Inl Int_Overflow else set_range (i + step) hi step (CPU_SET i m))
      else Inr m)"
  by pat_completeness auto
termination
  by (relation "measure (\<lambda>(i, hi, step, m). nat (hi + 1 - i))") auto

declare set_range.simps [simp del]

text \<open>One token of the list; the step is a variable of the function and keeps its value from one token to the next.\<close>

definition aff_token :: "int \<Rightarrow> int \<times> cpu_set_t \<Rightarrow> string \<Rightarrow> (int \<times> cpu_set_t) res" where
  "aff_token ncpu st tok =
     (let (step, m) = st; vs = scan_range tok in
      if length vs \<ge> 2 then
        (let step' = (if length vs = 3 then vs ! 2 else step);
             lo = min (vs ! 0) (vs ! 1); hi = max (vs ! 0) (vs ! 1) in
         if \<not> (0 \<le> lo \<and> lo < ncpu) \<or> \<not> (0 \<le> hi \<and> hi < ncpu) \<or> \<not> step' > 0 then Inl Exit_Failure
         else rbind (set_range lo hi step' m) (\<lambda>m'. Inr (step', m')))
      else case scan_single tok of
        None \<Rightarrow> Inl Exit_Failure
      | Some v \<Rightarrow>
          if v = - (2 ^ 31) then Inl Int_Overflow
          else if \<not> \<bar>v\<bar> < ncpu then Inl Exit_Failure
          else Inr (step, CPU_SET \<bar>v\<bar> m))"

definition aff_list_parse :: "string \<Rightarrow> int \<Rightarrow> cpu_set_t res" where
  "aff_list_parse str ncpu = rbind (rfold (aff_token ncpu) (1, {}) (split_at '','' str)) (\<lambda>(step, m). Inr m)"

section \<open>Iteration\<close>

text \<open>\<^verbatim>\<open>aff_it_next\<close>; \<open>None\<close>: the loop does not end.\<close>

partial_function (option) aff_it_next :: "int \<Rightarrow> cpu_set_t \<Rightarrow> int \<Rightarrow> int res option" where
  "aff_it_next it m ncpu =
     (if it + 1 \<ge> 2 ^ 31 then Some (Inl Int_Overflow)
      else if ncpu = 0 then Some (Inl Div_By_Zero)
      else let it' = (it + 1) smod ncpu in if CPU_ISSET it' m then Some (Inr it') else aff_it_next it' m ncpu)"

definition aff_it_init :: "cpu_set_t \<Rightarrow> int \<Rightarrow> int res option" where
  "aff_it_init m ncpu = aff_it_next (-1) m ncpu"

text \<open>\<^verbatim>\<open>aff_pin_to\<close>: the mask given to \<^verbatim>\<open>pthread_setaffinity_np\<close>.\<close>

definition aff_pin_to :: "int \<Rightarrow> cpu_set_t" where
  "aff_pin_to core_id = CPU_SET core_id {}"

section \<open>The set that a list denotes\<close>

datatype cpus = Single nat | Range nat nat | Steps nat nat nat

fun show_cpus :: "cpus \<Rightarrow> string" where
  "show_cpus (Single a) = show_nat a"
| "show_cpus (Range a b) = show_nat a @ ''-'' @ show_nat b"
| "show_cpus (Steps a b s) = show_nat a @ ''-'' @ show_nat b @ '':'' @ show_nat s"

fun show_list :: "cpus list \<Rightarrow> string" where
  "show_list [] = []"
| "show_list [c] = show_cpus c"
| "show_list (c # cs) = show_cpus c @ '','' @ show_list cs"

text \<open>The processors of an entry and the step after it, given the step before it.\<close>

fun denotes :: "nat \<Rightarrow> cpus \<Rightarrow> nat set \<times> nat" where
  "denotes step (Single a) = ({a}, step)"
| "denotes step (Range a b) = ({a + k * step | k. a + k * step \<le> b}, step)"
| "denotes step (Steps a b s) = ({a + k * s | k. a + k * s \<le> b}, s)"

fun denoted :: "nat \<Rightarrow> cpus list \<Rightarrow> nat set" where
  "denoted step [] = {}"
| "denoted step (c # cs) = (let (m, step') = denotes step c in m \<union> denoted step' cs)"

fun cpus_ok :: "nat \<Rightarrow> cpus \<Rightarrow> bool" where
  "cpus_ok ncpu (Single a) \<longleftrightarrow> a < ncpu"
| "cpus_ok ncpu (Range a b) \<longleftrightarrow> a \<le> b \<and> b < ncpu"
| "cpus_ok ncpu (Steps a b s) \<longleftrightarrow> a \<le> b \<and> b < ncpu \<and> 0 < s \<and> s < 2 ^ 30"

lemma set_range_eq:
  assumes "0 < s" "s < 2 ^ 30" "b < 1024"
  shows "set_range (int a) (int b) (int s) m = Inr (m \<union> int ` {a + k * s | k. a + k * s \<le> b})"
proof (induction "b + 1 - a" arbitrary: a m rule: less_induct)
  case less
  show ?case
  proof (cases "a \<le> b")
    case True
    have dec: "b + 1 - (a + s) < b + 1 - a" using True assms(1) by simp
    have "{a + k * s | k. a + k * s \<le> b} = insert a {a + s + k * s | k. a + s + k * s \<le> b}"
    proof (intro set_eqI iffI)
      fix x
      assume "x \<in> {a + k * s | k. a + k * s \<le> b}"
      then obtain k where "x = a + k * s" "a + k * s \<le> b" by blast
      then show "x \<in> insert a {a + s + k * s | k. a + s + k * s \<le> b}" by (cases k) auto
    next
      fix x
      assume "x \<in> insert a {a + s + k * s | k. a + s + k * s \<le> b}"
      then consider "x = a" | k where "x = a + s + k * s" "a + s + k * s \<le> b" by blast
      then show "x \<in> {a + k * s | k. a + k * s \<le> b}"
      proof cases
        case 1
        then show ?thesis using True by (intro CollectI exI [of _ 0]) simp
      next
        case (2 k)
        then show ?thesis by (intro CollectI exI [of _ "Suc k"]) simp
      qed
    qed
    moreover have "set_range (int (a + s)) (int b) (int s) (insert (int a) m) =
        Inr (insert (int a) m \<union> int ` {a + s + k * s | k. a + s + k * s \<le> b})" using less [OF dec] .
    ultimately show ?thesis using True assms by (subst set_range.simps) (simp add: CPU_SET_def)
  next
    case False
    then have "{a + k * s | k. a + k * s \<le> b} = {}" by auto
    then show ?thesis using False by (subst set_range.simps) simp
  qed
qed

lemma punctuation [simp]: "digit CHR ''-'' = None" "digit CHR '':'' = None" "digit CHR '','' = None"
  by (simp_all add: digit_def)

lemma scan_range_show:
  assumes "a < 2 ^ 31" "b < 2 ^ 31" "s < 2 ^ 31"
  shows "scan_range (show_nat a) = [int a]" "scan_range (show_nat a @ ''-'' @ show_nat b) = [int a, int b]"
    "scan_range (show_nat a @ ''-'' @ show_nat b @ '':'' @ show_nat s) = [int a, int b, int s]"
  using scan_d_show_nat [of a "[]"] scan_d_show_nat [of a "''-'' @ show_nat b"] scan_d_show_nat [of b "[]"]
    scan_d_show_nat [of a "''-'' @ show_nat b @ '':'' @ show_nat s"] scan_d_show_nat [of b "'':'' @ show_nat s"]
    scan_d_show_nat [of s "[]"] assms
  by (simp_all add: scan_range_def prefixed_def)

lemma aff_token_denotes:
  assumes "cpus_ok ncpu c" "ncpu \<le> 1024" "0 < step" "step < 2 ^ 30"
  shows "aff_token (int ncpu) (int step, m) (show_cpus c) =
      Inr (int (snd (denotes step c)), m \<union> int ` fst (denotes step c))"
    "0 < snd (denotes step c) \<and> snd (denotes step c) < 2 ^ 30"
proof -
  have "aff_token (int ncpu) (int step, m) (show_nat a) = Inr (int step, insert (int a) m)" if "a < ncpu" for a
    using that assms(2) scan_range_show(1) [of a 0 0] scan_d_show_nat [of a "[]"]
    by (simp add: aff_token_def scan_single_def CPU_SET_def)
  moreover have "aff_token (int ncpu) (int step, m) (show_nat a @ ''-'' @ show_nat b) =
      Inr (int step, m \<union> int ` {a + k * step | k. a + k * step \<le> b})" if "a \<le> b" "b < ncpu" for a b
    using that assms(2-4) scan_range_show(2) [of a b 0] set_range_eq [of step b a m] by (simp add: aff_token_def)
  moreover have "aff_token (int ncpu) (int step, m) (show_nat a @ ''-'' @ show_nat b @ '':'' @ show_nat s) =
      Inr (int s, m \<union> int ` {a + k * s | k. a + k * s \<le> b})" if "a \<le> b" "b < ncpu" "0 < s" "s < 2 ^ 30" for a b s
    using that assms(2) scan_range_show(3) [of a b s] set_range_eq [of s b a m] by (simp add: aff_token_def)
  ultimately show "aff_token (int ncpu) (int step, m) (show_cpus c) =
      Inr (int (snd (denotes step c)), m \<union> int ` fst (denotes step c))"
    using assms(1) by (cases c) auto
  show "0 < snd (denotes step c) \<and> snd (denotes step c) < 2 ^ 30" using assms by (cases c) auto
qed

lemma show_nat_chars: "c \<in> set (show_nat n) \<Longrightarrow> digit c \<noteq> None"
  using show_nat_digits [of n] by (auto simp: list_all_iff)

lemma show_cpus_no_comma: "set (show_cpus c) \<inter> set '','' = {}"
  by (cases c) (auto dest: show_nat_chars)

lemma split_show_list: "cs \<noteq> [] \<Longrightarrow> split_at '','' (show_list cs) = map show_cpus cs"
proof (induction cs rule: show_list.induct)
  case (2 c)
  then show ?case using split_at_last [OF show_cpus_no_comma] by simp
next
  case (3 c d cs)
  then show ?case using split_at_append [OF show_cpus_no_comma, of "CHR '',''" c "show_list (d # cs)"] by simp
qed simp

lemma aff_tokens_denoted:
  assumes "list_all (cpus_ok ncpu) cs" "ncpu \<le> 1024" "0 < step" "step < 2 ^ 30"
  shows "\<exists>step'. rfold (aff_token (int ncpu)) (int step, m) (map show_cpus cs) = Inr (step', m \<union> int ` denoted step cs)"
  using assms
proof (induction cs arbitrary: step m)
  case Nil
  then show ?case by simp
next
  case (Cons c cs)
  note t = aff_token_denotes(1) [of ncpu c step m] aff_token_denotes(2) [of ncpu c step]
  obtain step' where "rfold (aff_token (int ncpu)) (int (snd (denotes step c)), m \<union> int ` fst (denotes step c)) (map show_cpus cs) =
      Inr (step', (m \<union> int ` fst (denotes step c)) \<union> int ` denoted (snd (denotes step c)) cs)"
    using Cons.IH [of "snd (denotes step c)" "m \<union> int ` fst (denotes step c)"] Cons.prems t by auto
  then show ?case using t Cons.prems by (auto simp: Let_def image_Un Un_assoc split: prod.splits)
qed

text \<open>
  The set that a list denotes in the syntax of \<^verbatim>\<open>taskset\<close>, which the manual refers to: the union of its entries, where a step
  belongs to the range it is written after.
\<close>

fun cpus_of :: "cpus \<Rightarrow> nat set" where
  "cpus_of (Single a) = {a}"
| "cpus_of (Range a b) = {a..b}"
| "cpus_of (Steps a b s) = {a + k * s | k. a + k * s \<le> b}"

fun is_range :: "cpus \<Rightarrow> bool" where
  "is_range (Range a b) = True"
| "is_range c = False"

text \<open>No range without a step after one with a step.\<close>

fun own_steps :: "cpus list \<Rightarrow> bool" where
  "own_steps [] = True"
| "own_steps (Steps a b s # cs) \<longleftrightarrow> \<not> list_ex is_range cs"
| "own_steps (c # cs) \<longleftrightarrow> own_steps cs"

lemma denoted_no_range: "\<not> list_ex is_range cs \<Longrightarrow> denoted step cs = \<Union> (cpus_of ` set cs)"
proof (induction cs arbitrary: step)
  case (Cons c cs)
  then show ?case by (cases c) auto
qed simp

lemma range_by_one: "{a + k * 1 | k. a + k * 1 \<le> b} = {a..b :: nat}"
  by (auto intro: exI [of _ "x - a" for x] simp: le_iff_add)

lemma denoted_own_steps: "own_steps cs \<Longrightarrow> denoted 1 cs = \<Union> (cpus_of ` set cs)"
proof (induction cs)
  case (Cons c cs)
  then show ?case using range_by_one by (cases c) (auto simp: denoted_no_range)
qed simp

text \<open>C32. A list of processors is read with the meaning that \<^verbatim>\<open>taskset\<close> gives it: for entries \<open>a\<close>, \<open>a-b\<close> and \<open>a-b:s\<close> below the number of
  processors, the parsed set is the union of the sets of the entries, each range with its own step, provided that no range
  without a step follows one with a step, for which the code departs from that syntax.
\<close>

theorem aff_list_parse_taskset:
  assumes "cs \<noteq> []" "list_all (cpus_ok ncpu) cs" "ncpu \<le> 1024" "own_steps cs"
  shows "aff_list_parse (show_list cs) (int ncpu) = Inr (int ` \<Union> (cpus_of ` set cs))"
  using aff_tokens_denoted [OF assms(2,3), of 1 "{}"] split_show_list [OF assms(1)] denoted_own_steps [OF assms(4)]
  by (auto simp: aff_list_parse_def)

text \<open>The step of a range stays in force for the ranges after it, until another step is given: after \<open>a-b:s\<close>, the range \<open>c-d\<close> is
  read as \<open>c-d:s\<close>. The variable of the step is initialised before the loop over the entries and never reset.
\<close>

theorem aff_step_carries_over:
  assumes "cpus_ok ncpu (Steps a b s)" "cpus_ok ncpu (Range c d)" "ncpu \<le> 1024"
  shows "aff_list_parse (show_list [Steps a b s, Range c d]) (int ncpu) = aff_list_parse (show_list [Steps a b s, Steps c d s]) (int ncpu)"
proof -
  have ok: "list_all (cpus_ok ncpu) [Steps a b s, Range c d]" "list_all (cpus_ok ncpu) [Steps a b s, Steps c d s]" using assms by auto
  show ?thesis
    using aff_tokens_denoted [OF ok(1) assms(3), of 1 "{}"] aff_tokens_denoted [OF ok(2) assms(3), of 1 "{}"]
      split_show_list [of "[Steps a b s, Range c d]"] split_show_list [of "[Steps a b s, Steps c d s]"]
    by (auto simp: aff_list_parse_def)
qed

lemma aff_it_next_at:
  assumes "0 < ncpu" "ncpu < 2 ^ 31" "-1 \<le> it" "it < ncpu"
    "CPU_ISSET ((it + int k) mod ncpu) m" "0 < k" "\<forall>j. 0 < j \<longrightarrow> j < k \<longrightarrow> \<not> CPU_ISSET ((it + int j) mod ncpu) m"
  shows "aff_it_next it m ncpu = Some (Inr ((it + int k) mod ncpu))"
  using assms(3-)
proof (induction k arbitrary: it)
  case (Suc k)
  have md: "(it + 1) smod ncpu = (it + 1) mod ncpu" using Suc.prems(1) assms(1) by (simp add: smod_nonneg_int)
  let ?it = "(it + 1) mod ncpu"
  have rg: "-1 \<le> ?it" "?it < ncpu" using assms(1) by (auto intro: order_trans [OF _ pos_mod_sign])
  have sh: "(?it + int j) mod ncpu = (it + int (Suc j)) mod ncpu" for j using mod_add_left_eq [of "it + 1" ncpu "int j"] by (simp add: algebra_simps)
  show ?case
  proof (cases "k = 0")
    case True
    then show ?thesis using Suc.prems assms md by (subst aff_it_next.simps) (simp add: Let_def)
  next
    case False
    have "\<not> CPU_ISSET ?it m" using Suc.prems(5) False by (auto dest: spec [of _ 1])
    moreover have "aff_it_next ?it m ncpu = Some (Inr ((?it + int k) mod ncpu))"
    proof (rule Suc.IH [OF rg])
      show "CPU_ISSET ((?it + int k) mod ncpu) m" using Suc.prems(3) by (simp only: sh)
      show "0 < k" using False by simp
      show "\<forall>j. 0 < j \<longrightarrow> j < k \<longrightarrow> \<not> CPU_ISSET ((?it + int j) mod ncpu) m"
        using Suc.prems(5) by (simp only: sh) auto
    qed
    ultimately show ?thesis using Suc.prems(1,2) assms(1,2) md sh [of k] by (subst aff_it_next.simps) (simp add: Let_def)
  qed
qed simp

text \<open>C33. The round-robin iteration ends as long as some processor below the number of processors is in the set, and returns the next one in
  cyclic order: none of the processors passed on the way is in the set.
\<close>

theorem aff_it_next_cyclic:
  assumes "0 < ncpu" "ncpu < 2 ^ 31" "-1 \<le> it" "it < ncpu" "CPU_ISSET c m" "c < ncpu"
  shows "\<exists>k. 0 < k \<and> k \<le> nat ncpu \<and> aff_it_next it m ncpu = Some (Inr ((it + int k) mod ncpu)) \<and>
    CPU_ISSET ((it + int k) mod ncpu) m \<and> (\<forall>j. 0 < j \<longrightarrow> j < k \<longrightarrow> \<not> CPU_ISSET ((it + int j) mod ncpu) m)"
proof -
  let ?P = "\<lambda>k. 0 < k \<and> CPU_ISSET ((it + int k) mod ncpu) m"
  let ?k = "nat ((c - it - 1) mod ncpu) + 1"
  have "0 \<le> c" using assms(5) by (simp add: CPU_ISSET_def)
  have "(it + int ?k) mod ncpu = c"
    using assms(1,6) \<open>0 \<le> c\<close> mod_add_right_eq [of "it + 1" "c - it - 1" ncpu] by (simp add: algebra_simps)
  then have P: "?P ?k" using assms(5) by simp
  have "?k \<le> nat ncpu" using assms(1) by (simp add: Suc_le_eq nat_mono_iff)
  moreover have L: "?P (LEAST k. ?P k)" by (rule LeastI [of ?P, OF P])
  moreover have "(LEAST k. ?P k) \<le> ?k" by (rule Least_le [of ?P, OF P])
  moreover have "\<forall>j. 0 < j \<longrightarrow> j < (LEAST k. ?P k) \<longrightarrow> \<not> CPU_ISSET ((it + int j) mod ncpu) m" using not_less_Least by blast
  ultimately show ?thesis using aff_it_next_at [OF assms(1-4), of "LEAST k. ?P k" m] by (intro exI [of _ "LEAST k. ?P k"]) auto
qed

section \<open>Concrete inputs\<close>

lemma steps_0_6_2: "{0 + k * (2 :: nat) | k. 0 + k * 2 \<le> 6} = {0, 2, 4, 6}"
proof (intro set_eqI iffI)
  fix x
  assume "x \<in> {0 + k * (2 :: nat) | k. 0 + k * 2 \<le> 6}"
  then obtain k where "x = k * 2" "k \<le> 3" by auto
  then show "x \<in> {0, 2, 4, 6}" by (auto simp: le_Suc_eq numeral_3_eq_3)
next
  fix x :: nat
  assume "x \<in> {0, 2, 4, 6}"
  then show "x \<in> {0 + k * 2 | k. 0 + k * 2 \<le> 6}"
    by (intro CollectI exI [of _ "x div 2"]) auto
qed

theorem aff_list_parse_taskset_witness:
  "aff_list_parse (show_list [Single 3, Range 9 10, Steps 0 6 2]) 16 = Inr {0, 2, 3, 4, 6, 9, 10}"
proof -
  have "{9..10} = {9, 10 :: nat}" by auto
  then have "int ` \<Union> (cpus_of ` set [Single 3, Range 9 10, Steps 0 6 2]) = {0, 2, 3, 4, 6, 9, 10}" using steps_0_6_2 by auto
  then show ?thesis using aff_list_parse_taskset [of "[Single 3, Range 9 10, Steps 0 6 2]" 16] by simp
qed

text \<open>On \<^verbatim>\<open>0-6:2,8-10\<close> processor 9 is left out.\<close>

lemma step_carries_over_example:
  "aff_list_parse (show_list [Steps 0 6 2, Range 8 10]) 16 = aff_list_parse (show_list [Steps 0 6 2, Steps 8 10 2]) 16"
  using aff_step_carries_over [of 16 0 6 2 8 10] by simp

theorem aff_it_next_cyclic_witness:
  "\<exists>k. 0 < k \<and> aff_it_next (-1) {5} 8 = Some (Inr ((-1 + int k) mod 8)) \<and> CPU_ISSET ((-1 + int k) mod 8) {5}"
  using aff_it_next_cyclic [of 8 "-1" 5 "{5}"] by (auto simp: CPU_ISSET_def)

end
