(* ===== verification/DW_Client_Args.thy ===== *)
theory DW_Client_Args
  imports DW_Ccmd DW_Distrib_Parse DW_Address
begin

text \<open>
  The options of the client that build the chain of commands (\<^verbatim>\<open>argp_client_parse_opt\<close> in \<^verbatim>\<open>src/dw_client.c\<close>): each option is an operation on the
  chain and on the bookkeeping of open forwards. Buffers and variables that the code reads before it sets them are arguments: \<open>junk\<close> is the
  contents of \<^verbatim>\<open>fwdhostport\<close>, \<open>junk_val\<close> that of \<^verbatim>\<open>val\<close>.
\<close>

section \<open>State\<close>

definition default_resp_size :: int where "default_resp_size = 512"
definition MIN_REPLY_SIZE :: int where "MIN_REPLY_SIZE = 12"

record client_args =
  chain_of :: ccmd_t
  store_offset_pd :: pd_spec_t
  load_offset_pd :: pd_spec_t
  last_resp_size :: pd_spec_t
  reserved_fwd_replies :: "unit queue_t"
  last_reserved_used :: "nat option"
  fwd_scope :: int
  branching_degree :: int
  curr_forward_begin :: "nat option"

record parse_env =
  pe_libm :: libm
  pe_files :: "string \<Rightarrow> string option"
  pe_resolve :: "string \<Rightarrow> nat option"

text \<open>An update through a pointer to a node, and through \<^verbatim>\<open>ccmd_last(ccmd)\<close>.\<close>

definition upd_node :: "nat option \<Rightarrow> (ccmd_node_t \<Rightarrow> ccmd_node_t) \<Rightarrow> ccmd_t \<Rightarrow> ccmd_t res" where
  "upd_node p f s = (case p of
     None \<Rightarrow> Inl Null_Deref
   | Some a \<Rightarrow> rbind (cnode (cnodes s) a) (\<lambda>n. Inr (s\<lparr>cnodes := (cnodes s)[a := f n]\<rparr>)))"

definition upd_last :: "(ccmd_node_t \<Rightarrow> ccmd_node_t) \<Rightarrow> ccmd_t \<Rightarrow> ccmd_t res" where
  "upd_last f s = rbind (ccmd_last s) (\<lambda>l. upd_node l f s)"

definition last_cmd :: "ccmd_t \<Rightarrow> command_type_t res" where
  "last_cmd s = rbind (ccmd_last s) (\<lambda>l. case l of
     None \<Rightarrow> Inl Null_Deref
   | Some a \<Rightarrow> rbind (cnode (cnodes s) a) (\<lambda>n. Inr (ccmd n)))"

text \<open>\<^verbatim>\<open>ccmd_add\<close> followed by updates of the last node.\<close>

definition add_with :: "command_type_t \<Rightarrow> pd_spec_t \<Rightarrow> (ccmd_node_t \<Rightarrow> ccmd_node_t) \<Rightarrow> client_args \<Rightarrow> client_args res" where
  "add_with cmd pd f ar =
     rbind (ccmd_add (chain_of ar) cmd pd) (\<lambda>s. rbind (upd_last f s) (\<lambda>s'. Inr (ar\<lparr>chain_of := s'\<rparr>)))"

section \<open>Simple commands\<close>

definition opt_comp_time :: "parse_env \<Rightarrow> string \<Rightarrow> client_args \<Rightarrow> client_args res" where
  "opt_comp_time pe arg ar =
     rbind (pd_parse_time (pe_libm pe) (pe_files pe) arg) (\<lambda>v.
     rbind (ccmd_add (chain_of ar) COMPUTE v) (\<lambda>s. Inr (ar\<lparr>chain_of := s\<rparr>)))"

record data_opts =
  o_val :: pd_spec_t
  o_off :: pd_spec_t
  o_sync :: nat
  o_dev :: nat

text \<open>A value in brackets: the rest after the closing bracket must exist.\<close>

definition bracketed :: "parse_env \<Rightarrow> string \<Rightarrow> (pd_spec_t \<times> string option) res" where
  "bracketed pe a = (case strsep '']'' a of
     (tok, None) \<Rightarrow> Inl Exit_Failure
   | (tok, Some rest) \<Rightarrow> rbind (pd_parse_bytes (pe_libm pe) (pe_files pe) tok) (\<lambda>v. Inr (v, Some rest)))"

definition bare :: "parse_env \<Rightarrow> string \<Rightarrow> (pd_spec_t \<times> string option) res" where
  "bare pe a = (case strsep '','' a of (tok, rest) \<Rightarrow>
     rbind (pd_parse_bytes (pe_libm pe) (pe_files pe) tok) (\<lambda>v. Inr (v, rest)))"

definition store_step :: "parse_env \<Rightarrow> string \<Rightarrow> data_opts \<Rightarrow> (data_opts \<times> string option) res" where
  "store_step pe arg d =
     (case prefixed ''nosync'' arg of
        Some a \<Rightarrow> Inr (d\<lparr>o_sync := 0\<rparr>, Some a)
      | None \<Rightarrow> (case prefixed ''sync'' arg of
          Some a \<Rightarrow> Inr (d\<lparr>o_sync := 1\<rparr>, Some a)
        | None \<Rightarrow> (case prefixed ''offset=['' arg of
            Some a \<Rightarrow> rbind (bracketed pe a) (\<lambda>(v, rest). Inr (d\<lparr>o_off := v\<rparr>, rest))
          | None \<Rightarrow> (case prefixed ''size=['' arg of
              Some a \<Rightarrow> rbind (bracketed pe a) (\<lambda>(v, rest). Inr (d\<lparr>o_val := v\<rparr>, rest))
            | None \<Rightarrow> (case prefixed ''dev='' arg of
                Some a \<Rightarrow> (case strsep '','' a of (tok, rest) \<Rightarrow> Inr (d\<lparr>o_dev := nat (atoi tok mod 256)\<rparr>, rest))
              | None \<Rightarrow> rbind (bare pe arg) (\<lambda>(v, rest). Inr (d\<lparr>o_val := v\<rparr>, rest)))))))"

definition load_step :: "parse_env \<Rightarrow> string \<Rightarrow> data_opts \<Rightarrow> (data_opts \<times> string option) res" where
  "load_step pe arg d =
     (case prefixed ''size=['' arg of
        Some a \<Rightarrow> rbind (bracketed pe a) (\<lambda>(v, rest). Inr (d\<lparr>o_val := v\<rparr>, rest))
      | None \<Rightarrow> (case prefixed ''offset=['' arg of
          Some a \<Rightarrow> rbind (bracketed pe a) (\<lambda>(v, rest). Inr (d\<lparr>o_off := v\<rparr>, rest))
        | None \<Rightarrow> (case prefixed ''dev='' arg of
            Some a \<Rightarrow> (case strsep '','' a of (tok, rest) \<Rightarrow>
              let dev = nat (atoi tok mod 256) in
              if \<not> dev > 0 then Inl Exit_Failure else Inr (d\<lparr>o_dev := dev\<rparr>, rest))
          | None \<Rightarrow> rbind (bare pe arg) (\<lambda>(v, rest). Inr (d\<lparr>o_val := v\<rparr>, rest)))))"

text \<open>The remaining argument after an optional comma; the loop goes on while it is not empty.\<close>

definition after_comma :: "string option \<Rightarrow> string option" where
  "after_comma r = (case r of
     None \<Rightarrow> None
   | Some s \<Rightarrow> let t = (if s \<noteq> [] \<and> hd s = CHR '','' then tl s else s) in if t = [] then None else Some t)"

lemma strsep_shorter: "strsep d s = (tok, Some rest) \<Longrightarrow> length rest < length s"
  by (induction d s arbitrary: tok rule: strsep.induct) (auto split: if_splits prod.splits)

lemma prefixed_length: "prefixed p s = Some r \<Longrightarrow> length s = length p + length r"
proof -
  assume "prefixed p s = Some r"
  then have "take (length p) s = p" "r = drop (length p) s" by (simp_all add: prefixed_def split: if_splits)
  then show ?thesis using append_take_drop_id [of "length p" s] by (metis length_append)
qed

lemma bracketed_shorter: "bracketed pe a = Inr (v, Some rest) \<Longrightarrow> length rest < length a"
  by (auto simp: bracketed_def rbind_eq_Inr dest: strsep_shorter split: prod.splits option.splits)

lemma bare_shorter: "bare pe a = Inr (v, Some rest) \<Longrightarrow> length rest < length a"
  by (auto simp: bare_def rbind_eq_Inr dest: strsep_shorter split: prod.splits)

lemma after_comma_le: "after_comma r = Some t \<Longrightarrow> \<exists>s. r = Some s \<and> length t \<le> length s"
  by (auto simp: after_comma_def Let_def split: option.splits if_splits)

lemma prefixed_step: "p \<noteq> [] \<Longrightarrow> prefixed p a = Some r \<Longrightarrow> length rest \<le> length r \<Longrightarrow> length rest < length a"
  using prefixed_length [of p a r] by (cases p) auto

lemma bracketed_step: "p \<noteq> [] \<Longrightarrow> prefixed p a = Some r \<Longrightarrow> bracketed pe r = Inr (v, Some rest) \<Longrightarrow> length rest < length a"
  using bracketed_shorter [of pe r v rest] prefixed_step [of p a r rest] by simp

lemma strsep_step: "p \<noteq> [] \<Longrightarrow> prefixed p a = Some r \<Longrightarrow> strsep d r = (tok, Some rest) \<Longrightarrow> length rest < length a"
  using strsep_shorter [of d r tok rest] prefixed_step [of p a r rest] by simp

lemmas step_shorter = prefixed_step bracketed_step strsep_step bare_shorter

lemma store_step_shorter: "store_step pe a d = Inr (d', Some rest) \<Longrightarrow> length rest < length a"
  unfolding store_step_def
  by (auto simp: rbind_eq_Inr split: option.splits prod.splits intro: step_shorter [rotated] step_shorter)

lemma load_step_shorter: "load_step pe a d = Inr (d', Some rest) \<Longrightarrow> length rest < length a"
  unfolding load_step_def
  by (auto simp: rbind_eq_Inr Let_def split: option.splits prod.splits if_splits intro: step_shorter [rotated] step_shorter)

function store_loop :: "parse_env \<Rightarrow> string \<Rightarrow> data_opts \<Rightarrow> data_opts res" where
  "store_loop pe arg d = rbind (store_step pe arg d) (\<lambda>r. case after_comma (snd r) of
     None \<Rightarrow> Inr (fst r) | Some a \<Rightarrow> store_loop pe a (fst r))"
  by pat_completeness auto
termination
  by (relation "measure (\<lambda>(pe, arg, d). length arg)") (auto dest!: after_comma_le store_step_shorter)

function load_loop :: "parse_env \<Rightarrow> string \<Rightarrow> data_opts \<Rightarrow> data_opts res" where
  "load_loop pe arg d = rbind (load_step pe arg d) (\<lambda>r. case after_comma (snd r) of
     None \<Rightarrow> Inr (fst r) | Some a \<Rightarrow> load_loop pe a (fst r))"
  by pat_completeness auto
termination
  by (relation "measure (\<lambda>(pe, arg, d). length arg)") (auto dest!: after_comma_le load_step_shorter)

declare store_loop.simps [simp del] load_loop.simps [simp del]

definition opt_store :: "parse_env \<Rightarrow> string \<Rightarrow> client_args \<Rightarrow> client_args res" where
  "opt_store pe arg ar =
     rbind (store_loop pe arg \<lparr>o_val = pd_build_none, o_off = store_offset_pd ar, o_sync = 1, o_dev = 0\<rparr>) (\<lambda>d.
       if pd_is_none (o_val d) then Inl Exit_Failure
       else add_with STORE (o_val d) (\<lambda>n. n\<lparr>cpd_val2 := o_off d, cstore := (cstore n)\<lparr>wait_sync := o_sync d, s_dev_id := o_dev d\<rparr>\<rparr>) ar)"

definition opt_load :: "parse_env \<Rightarrow> string \<Rightarrow> client_args \<Rightarrow> client_args res" where
  "opt_load pe arg ar =
     rbind (load_loop pe arg \<lparr>o_val = pd_build_none, o_off = load_offset_pd ar, o_sync = 0, o_dev = 0\<rparr>) (\<lambda>d.
       if pd_is_none (o_val d) then Inl Exit_Failure
       else add_with LOAD (o_val d) (\<lambda>n. n\<lparr>cpd_val2 := o_off d, cload := (cload n)\<lparr>l_dev_id := o_dev d\<rparr>\<rparr>) ar)"

text \<open>A token of \<^verbatim>\<open>--skip\<close>: the probability, the number of contexts and the period.\<close>

definition skip_token :: "double \<times> int \<times> int \<Rightarrow> string \<Rightarrow> (double \<times> int \<times> int) res" where
  "skip_token st tok =
     (let (pr, n, every) = st in
      case scan_d tok of
        Some (v, r) \<Rightarrow> if v \<ge> 1 then Inr (pr, v, every) else Inl Exit_Failure
      | None \<Rightarrow> (case sscanf_fmt tok ''prob='' of
          Some v \<Rightarrow> if dle (Fin 0) v \<and> dle v (Fin 1) then Inr (v, n, every) else Inl Exit_Failure
        | None \<Rightarrow> (case Option.bind (prefixed ''every='' tok) scan_d of
            Some (v, r) \<Rightarrow> if v \<ge> 1 then Inr (pr, n, v) else Inl Exit_Failure
          | None \<Rightarrow> Inl Exit_Failure)))"

definition opt_skip :: "string \<Rightarrow> client_args \<Rightarrow> client_args res" where
  "opt_skip arg ar =
     rbind (rfold skip_token (Fin 1, -1, 1) (split_at '','' arg)) (\<lambda>(pr, n, every).
       if n = -1 then Inl Exit_Failure
       else add_with PSKIP (pd_build_fixed pr) (\<lambda>x. x\<lparr>n_skip := n, n_every := every\<rparr>) ar)"

section \<open>Forwards\<close>

text \<open>\<^verbatim>\<open>%x:%x:%x:%x:%x:%x\<close>\<close>

definition scan_x :: "string \<Rightarrow> (nat \<times> string) option" where
  "scan_x s =
     (let (neg, s1) = sign (dropWhile isspace s);
          s2 = (case prefixed ''0x'' (map tolower s1) of Some r \<Rightarrow> r | None \<Rightarrow> s1);
          (n, len, rest) = digits hexdigit 16 0 0 s2
      in if len = 0 then None else Some (nat (signed neg n mod 256), rest))"

fun scan_mac :: "nat \<Rightarrow> string \<Rightarrow> nat list" where
  "scan_mac 0 s = []"
| "scan_mac (Suc k) s = (case scan_x s of
     None \<Rightarrow> []
   | Some (v, r) \<Rightarrow> v # (if k = 0 then [] else case prefixed '':'' r of None \<Rightarrow> [] | Some r' \<Rightarrow> scan_mac k r'))"

text \<open>The union of the address fields: a MAC address overlays the host and the port.\<close>

definition fwd_target :: "parse_env \<Rightarrow> string \<Rightarrow> proto_t \<Rightarrow> (nat \<times> nat) res" where
  "fwd_target pe hostport pr =
     (if pr = DPDK then
        (let mac = scan_mac 6 hostport in
         if length mac \<noteq> 6 then Inl Exit_Failure
         else Inr (mac ! 0 + 256 * (mac ! 1 + 256 * (mac ! 2 + 256 * mac ! 3)), mac ! 4 + 256 * mac ! 5))
      else rbind (addr_parse (pe_resolve pe) hostport) (\<lambda>a. Inr (sin_addr a, sin_port a)))"

definition nat_of_proto :: "proto_t \<Rightarrow> nat" where
  "nat_of_proto pr = (case pr of UDP \<Rightarrow> 0 | TCP \<Rightarrow> 1 | TLS \<Rightarrow> 2 | DPDK \<Rightarrow> 3 | PROTO_OTHER n \<Rightarrow> n)"

record fwd_parse =
  fp_args :: client_args
  timeout_us :: double
  retry_num :: int
  nack :: int
  fbranched :: bool
  multi_fwds :: int
  fwd_itr_start :: "nat option"

definition set_target :: "nat \<times> nat \<Rightarrow> proto_t \<Rightarrow> ccmd_node_t \<Rightarrow> ccmd_node_t" where
  "set_target t pr n = n\<lparr>cfwd := (cfwd n)\<lparr>on_fail_skip := 1, proto := nat_of_proto pr, fwd_host := fst t, fwd_port := snd t\<rparr>\<rparr>"

definition add_address :: "parse_env \<Rightarrow> string \<Rightarrow> proto_t \<Rightarrow> fwd_parse \<Rightarrow> fwd_parse res" where
  "add_address pe hostport pr f =
     rbind (ccmd_add (chain_of (fp_args f)) FORWARD_BEGIN (pd_build_fixed (d_int default_resp_size))) (\<lambda>s.
     rbind (ccmd_last s) (\<lambda>l.
     rbind (fwd_target pe hostport pr) (\<lambda>t.
     rbind (upd_last (set_target t pr) s) (\<lambda>s'.
       let ar = (fp_args f)\<lparr>chain_of := s'\<rparr>;
           ar' = (if multi_fwds f = 0 \<and> branching_degree ar = 0 then ar\<lparr>curr_forward_begin := l\<rparr> else ar)
       in Inr (f\<lparr>fp_args := ar', fwd_itr_start := if multi_fwds f = 0 then l else fwd_itr_start f,
                 multi_fwds := multi_fwds f + 1\<rparr>)))))"

definition fwd_address :: "parse_env \<Rightarrow> string \<Rightarrow> string \<Rightarrow> fwd_parse \<Rightarrow> fwd_parse res" where
  "fwd_address pe junk tok f = rbind (addr_proto_parse tok junk TCP) (\<lambda>(hostport, pr). add_address pe hostport pr f)"

definition fwd_token :: "parse_env \<Rightarrow> string \<Rightarrow> fwd_parse \<Rightarrow> string \<Rightarrow> fwd_parse res" where
  "fwd_token pe junk f tok =
     (case Option.bind (prefixed ''retry='' tok) scan_d of
        Some (v, r) \<Rightarrow> Inr (f\<lparr>retry_num := v\<rparr>)
      | None \<Rightarrow> (case Option.bind (prefixed ''retries='' tok) scan_d of
          Some (v, r) \<Rightarrow> Inr (f\<lparr>retry_num := v\<rparr>)
        | None \<Rightarrow> rbind (sscanf_unit tok ''timeout='' True) (\<lambda>tv. case tv of
            Some v \<Rightarrow> Inr (f\<lparr>timeout_us := v\<rparr>)
          | None \<Rightarrow> (case Option.bind (prefixed ''nack='' tok) scan_d of
              Some (v, r) \<Rightarrow> Inr (f\<lparr>nack := v\<rparr>)
            | None \<Rightarrow>
                if prefixed ''branch'' tok \<noteq> None
                then Inr (f\<lparr>fbranched := True,
                            fp_args := (fp_args f)\<lparr>branching_degree := branching_degree (fp_args f) + 1\<rparr>\<rparr>)
                else fwd_address pe junk tok f))))"

text \<open>The reply that closes the previous branch, with the reserved size.\<close>

definition reserved_reply :: "client_args \<Rightarrow> client_args res" where
  "reserved_reply ar =
     rbind (queue_node_key (reserved_fwd_replies ar) (queue_tail (reserved_fwd_replies ar))) (\<lambda>k.
     rbind (ccmd_add (chain_of ar) REPLY (pd_build_fixed (d_int k))) (\<lambda>s.
     rbind (queue_dequeue_tail (reserved_fwd_replies ar)) (\<lambda>q.
       Inr (ar\<lparr>chain_of := s, reserved_fwd_replies := q\<rparr>))))"

definition close_branch :: "client_args \<Rightarrow> client_args res" where
  "close_branch ar =
     (if branching_degree ar > 0
      then rbind (last_cmd (chain_of ar)) (\<lambda>c. if c \<noteq> REPLY then reserved_reply ar else Inr ar)
      else Inr ar)"

text \<open>
  The parameters of the first forward of the context, and the change of the following ones to \<^verbatim>\<open>FORWARD_CONTINUE\<close> (\<open>None\<close>: the list of
  nodes does not end). \<^verbatim>\<open>n_ack\<close>, \<^verbatim>\<open>retries\<close> and \<^verbatim>\<open>timeout\<close> are unsigned fields of 8, 8 and 32 bits.
\<close>

definition begin_params :: "int \<Rightarrow> int \<Rightarrow> int \<Rightarrow> bool \<Rightarrow> ccmd_node_t \<Rightarrow> ccmd_node_t" where
  "begin_params nk tmo rtr br n =
     n\<lparr>cfwd := (cfwd n)\<lparr>n_ack := nat ((int (n_ack (cfwd n)) + nk) mod 256), timeout := nat (tmo mod 2 ^ 32),
         retries := nat (rtr mod 256), branched := of_bool br\<rparr>\<rparr>"

definition continue_params :: "bool \<Rightarrow> ccmd_node_t \<Rightarrow> ccmd_node_t" where
  "continue_params br n =
     n\<lparr>ccmd := FORWARD_CONTINUE,
       cfwd := (cfwd n)\<lparr>timeout := 2 ^ 32 - 1, retries := 255, branched := of_bool br, n_ack := 0\<rparr>\<rparr>"

partial_function (option) mark_continue :: "bool \<Rightarrow> nat option \<Rightarrow> ccmd_node_t list \<Rightarrow> ccmd_node_t list res option" where
  "mark_continue br p ns =
     (case p of
        None \<Rightarrow> Some (Inr ns)
      | Some a \<Rightarrow> (case cnode ns a of
          Inl e \<Rightarrow> Some (Inl e)
        | Inr n \<Rightarrow> mark_continue br (cnext n) (ns[a := continue_params br n])))"

definition next_of :: "ccmd_node_t list \<Rightarrow> nat option \<Rightarrow> nat option res" where
  "next_of ns p = (case p of None \<Rightarrow> Inl Null_Deref | Some a \<Rightarrow> rbind (cnode ns a) (\<lambda>n. Inr (cnext n)))"

definition opt_forward :: "parse_env \<Rightarrow> string \<Rightarrow> string \<Rightarrow> client_args \<Rightarrow> client_args res option" where
  "opt_forward pe junk arg ar =
     obind (Some (rbind (close_branch ar) (\<lambda>ar1.
       rfold (fwd_token pe junk) \<lparr>fp_args = ar1, timeout_us = Fin 10000000, retry_num = 0, nack = -1, fbranched = False,
                                  multi_fwds = 0, fwd_itr_start = None\<rparr> (split_at '','' arg)))) (\<lambda>f.
     let nk = (if nack f \<le> 0 \<or> \<not> fbranched f \<and> nack f > multi_fwds f then multi_fwds f else nack f);
         ar2 = (if \<not> fbranched f then (fp_args f)\<lparr>branching_degree := 0, curr_forward_begin := fwd_itr_start f\<rparr> else fp_args f)
     in obind (Some (if branching_degree ar2 \<le> 1
                     then rbind (to_i32 (timeout_us f)) (\<lambda>tmo.
                          upd_node (curr_forward_begin ar2) (begin_params nk tmo (retry_num f) (fbranched f)) (chain_of ar2))
                     else Inr (chain_of ar2))) (\<lambda>s.
        obind (Some (if fwd_itr_start f = curr_forward_begin ar2 then next_of (cnodes s) (fwd_itr_start f)
                     else Inr (fwd_itr_start f))) (\<lambda>itr.
        obind (mark_continue (fbranched f) itr (cnodes s)) (\<lambda>ns.
          Some (rbind (queue_enqueue (reserved_fwd_replies ar2) default_resp_size ()) (\<lambda>(p, q).
            Inr (ar2\<lparr>chain_of := s\<lparr>cnodes := ns\<rparr>, reserved_fwd_replies := q, fwd_scope := fwd_scope ar2 + 1\<rparr>)))))))"

section \<open>Replies\<close>

text \<open>The tokens of \<^verbatim>\<open>--rs\<close>: the size, the mode and the device.\<close>

definition reply_token :: "parse_env \<Rightarrow> pd_spec_t \<times> nat \<times> int \<Rightarrow> string \<Rightarrow> (pd_spec_t \<times> nat \<times> int) res" where
  "reply_token pe st tok =
     (let (v, md, dev) = st in
      case prefixed ''dev='' tok of
        Some r \<Rightarrow> if atoi r \<ge> 0 then Inr (v, md, atoi r) else Inl Exit_Failure
      | None \<Rightarrow>
          if prefixed ''sendfile'' tok \<noteq> None then Inr (v, 1, dev)
          else rbind (pd_parse_bytes (pe_libm pe) (pe_files pe) tok) (\<lambda>v'. Inr (v', md, dev)))"

text \<open>The tokens that the loop sees: it stops when nothing is left after a comma.\<close>

definition reply_tokens :: "string \<Rightarrow> string list" where
  "reply_tokens arg = (let ts = split_at '','' arg in if length ts > 1 \<and> last ts = [] then butlast ts else ts)"

definition clamp_reply :: "pd_spec_t \<Rightarrow> pd_spec_t" where
  "clamp_reply v =
     (let v1 = (if dlt (pd_min v) (d_int MIN_REPLY_SIZE) then v\<lparr>pd_min := d_int MIN_REPLY_SIZE\<rparr> else v)
      in if dlt (d_int (int BUF_SIZE)) (pd_max v1) then v1\<lparr>pd_max := d_int (int BUF_SIZE)\<rparr> else v1)"

definition opt_reply :: "parse_env \<Rightarrow> pd_spec_t \<Rightarrow> string option \<Rightarrow> client_args \<Rightarrow> client_args res" where
  "opt_reply pe junk_val arg ar =
     rbind (case arg of
       None \<Rightarrow> Inr (pd_build_none, 0, 0)
     | Some a \<Rightarrow> rfold (reply_token pe) (junk_val, 0, 0) (reply_tokens a)) (\<lambda>(v0, md, dev).
     let v = clamp_reply (if pd_is_none v0 then pd_build_fixed (d_int default_resp_size) else v0);
         set_resp = (\<lambda>n. n\<lparr>cresp := (cresp n)\<lparr>mode := md, r_dev_id := nat (dev mod 256)\<rparr>\<rparr>) in
     if qsize (cqueue (chain_of ar)) \<le> 0 then add_with REPLY v set_resp ar
     else if fwd_scope ar \<le> 0 then
       rbind (last_cmd (chain_of ar)) (\<lambda>c. rbind (ccmd_last (chain_of ar)) (\<lambda>l.
         if c = REPLY \<and> l \<noteq> last_reserved_used ar
         then rbind (upd_last (\<lambda>n. n\<lparr>cpd_val := v\<rparr>) (chain_of ar)) (\<lambda>s. Inr (ar\<lparr>chain_of := s\<rparr>))
         else add_with REPLY v set_resp ar))
     else
       rbind (queue_dequeue_tail (reserved_fwd_replies ar)) (\<lambda>q.
       rbind (add_with REPLY v set_resp (ar\<lparr>reserved_fwd_replies := q\<rparr>)) (\<lambda>ar1.
       rbind (ccmd_last (chain_of ar1)) (\<lambda>l.
         Inr (ar1\<lparr>last_reserved_used := l, fwd_scope := fwd_scope ar1 - 1\<rparr>)))))"

section \<open>The end of the options\<close>

text \<open>The replies that are still reserved; each pass takes one of them.\<close>

function exhaust :: "client_args \<Rightarrow> client_args res" where
  "exhaust ar =
     (if qsize (reserved_fwd_replies ar) > 0 \<and> fwd_scope ar > 0 then
        rbind (reserved_reply ar) (\<lambda>ar1. rbind (ccmd_last (chain_of ar1)) (\<lambda>l.
          exhaust (ar1\<lparr>last_reserved_used := l, fwd_scope := fwd_scope ar1 - 1\<rparr>)))
      else Inr ar)"
  by pat_completeness auto
termination
  by (relation "measure (\<lambda>ar. nat (fwd_scope ar))") (auto simp: reserved_reply_def rbind_eq_Inr)

declare exhaust.simps [simp del]

definition finish_chain :: "client_args \<Rightarrow> client_args res" where
  "finish_chain ar =
     rbind (exhaust ar) (\<lambda>ar1.
       if qsize (reserved_fwd_replies ar1) \<noteq> 0 then Inl Exit_Failure
       else rbind (ccmd_last (chain_of ar1)) (\<lambda>l.
         rbind (if l = last_reserved_used ar1 then Inr True else rbind (last_cmd (chain_of ar1)) (\<lambda>c. Inr (c \<noteq> REPLY))) (\<lambda>more.
           if more then rbind (ccmd_add (chain_of ar1) REPLY (last_resp_size ar1)) (\<lambda>s. Inr (ar1\<lparr>chain_of := s\<rparr>))
           else Inr ar1)))"

section \<open>Well-linked chains\<close>

abbreviation types :: "ccmd_t \<Rightarrow> command_type_t list" where
  "types s \<equiv> map ccmd (cnodes s)"

text \<open>A chain within the capacity: all its nodes are linked in the order of the store.\<close>

definition good :: "nat \<Rightarrow> ccmd_t \<Rightarrow> bool" where
  "good cap s \<longleftrightarrow> built cap (map (\<lambda>n. (ccmd n, cpd_val n)) (cnodes s)) s \<and> length (cnodes s) \<le> cap"

lemma good_last: "good cap s \<Longrightarrow> ccmd_last s = Inr (if cnodes s = [] then None else Some (length (cnodes s) - 1))"
proof -
  assume g: "good cap s"
  then have b: "stack_inv (cqueue s)" "ptrs s = [0..<length (cnodes s)]" by (auto simp: good_def built_def min_def)
  have "qsize (cqueue s) = int (length (cnodes s))" using length_ptrs [OF b(1)] b(2) by simp
  then show ?thesis using ccmd_last_ptr [OF b(1)] b(2) by (cases "cnodes s") (auto simp: ccmd_last_def)
qed

lemma good_size: "good cap s \<Longrightarrow> qsize (cqueue s) = int (length (cnodes s))"
  using length_ptrs [of s] by (auto simp: good_def built_def min_def)

lemma good_last_cmd: "good cap s \<Longrightarrow> cnodes s \<noteq> [] \<Longrightarrow> last_cmd s = Inr (last (types s))"
  using good_last [of cap s] by (simp add: last_cmd_def cnode_def last_conv_nth)

lemma good_chain: "good cap s \<Longrightarrow> chain (cnodes s) (if cnodes s = [] then None else Some 0) [0..<length (cnodes s)]"
  by (auto simp: good_def built_def linked_def)

lemma ccmd_add_length: "ccmd_add s c pd = Inr s' \<Longrightarrow> length (cnodes s') = Suc (length (cnodes s))"
  by (auto simp: ccmd_add_def Let_def rbind_eq_Inr split: if_splits option.splits prod.splits)

lemma good_add:
  assumes "good cap s" "length (cnodes s) < cap"
  shows "\<exists>s'. ccmd_add s c pd = Inr s' \<and> good cap s' \<and> types s' = types s @ [c]"
proof -
  obtain s' where s': "ccmd_add s c pd = Inr s'" "built cap (map (\<lambda>n. (ccmd n, cpd_val n)) (cnodes s) @ [(c, pd)]) s'"
    using built_add [of cap "map (\<lambda>n. (ccmd n, cpd_val n)) (cnodes s)" s c pd] assms(1) by (auto simp: good_def)
  then have m: "map (\<lambda>n. (ccmd n, cpd_val n)) (cnodes s') = map (\<lambda>n. (ccmd n, cpd_val n)) (cnodes s) @ [(c, pd)]"
    by (simp add: built_def)
  then have "map fst (map (\<lambda>n. (ccmd n, cpd_val n)) (cnodes s')) = map fst (map (\<lambda>n. (ccmd n, cpd_val n)) (cnodes s) @ [(c, pd)])"
    by simp
  then have "types s' = types s @ [c]" by (simp add: comp_def)
  then show ?thesis using s' m assms(2) ccmd_add_length [OF s'(1)] by (auto simp: good_def)
qed

lemma good_addD:
  assumes "good cap s" "ccmd_add s c pd = Inr s'" "length (cnodes s') \<le> cap"
  shows "good cap s' \<and> types s' = types s @ [c]"
  using good_add [OF assms(1), of c pd] ccmd_add_length [OF assms(2)] assms(2,3) by auto

lemma seg_same_links:
  assumes "length ns' = length ns" "\<forall>i < length ns. cnext (ns' ! i) = cnext (ns ! i)"
  shows "seg ns' p as q = seg ns p as q"
  using assms by (induction as arbitrary: p) auto

lemma good_nodes:
  assumes "good cap s" "length ns = length (cnodes s)" "\<forall>i < length ns. cnext (ns ! i) = cnext (cnodes s ! i)"
  shows "good cap (s\<lparr>cnodes := ns\<rparr>)"
proof -
  have len: "length (cnodes s) \<le> cap" using assms(1) by (simp add: good_def)
  have "chain ns (if cnodes s = [] then None else Some 0) (linked cap (length (cnodes s)))"
    using good_chain [OF assms(1)] seg_same_links [OF assms(2)] assms(2,3) len by (simp add: linked_def)
  moreover have "cnodes s = [] \<longleftrightarrow> ns = []" using assms(2) by auto
  ultimately show ?thesis using assms(1,2) by (auto simp: good_def built_def ptrs_def)
qed

lemma good_upd:
  assumes "good cap s" "a < length (cnodes s)" "\<And>n. cnext (f n) = cnext n"
  shows "\<exists>s'. upd_node (Some a) f s = Inr s' \<and> good cap s' \<and> cnodes s' = (cnodes s)[a := f (cnodes s ! a)]"
  using assms good_nodes [OF assms(1), of "(cnodes s)[a := f (cnodes s ! a)]"]
  by (auto simp: upd_node_def cnode_def nth_list_update)

text \<open>Updates that keep the links and the types.\<close>

definition harmless :: "(ccmd_node_t \<Rightarrow> ccmd_node_t) \<Rightarrow> bool" where
  "harmless f \<longleftrightarrow> (\<forall>n. cnext (f n) = cnext n \<and> ccmd (f n) = ccmd n)"

lemma map_ccmd_upd: "harmless f \<Longrightarrow> map ccmd (ns[a := f (ns ! a)]) = map ccmd ns"
  by (cases "a < length ns") (auto simp: harmless_def map_update list_update_same_conv list_update_beyond)

lemma good_upd_last:
  assumes "good cap s" "cnodes s \<noteq> []" "harmless f"
  shows "\<exists>s'. upd_last f s = Inr s' \<and> good cap s' \<and> types s' = types s \<and> length (cnodes s') = length (cnodes s)"
  using good_upd [OF assms(1), of "length (cnodes s) - 1" f] good_last [OF assms(1)] assms(2,3) map_ccmd_upd [OF assms(3)]
  by (auto simp: upd_last_def harmless_def)

lemma good_upd_lastD:
  assumes "good cap s" "cnodes s \<noteq> []" "harmless f" "upd_last f s = Inr s'"
  shows "good cap s' \<and> types s' = types s \<and> length (cnodes s') = length (cnodes s)"
  using good_upd_last [OF assms(1-3)] assms(4) by auto

lemma upd_last_length: "upd_last f s = Inr s' \<Longrightarrow> length (cnodes s') = length (cnodes s)"
  by (auto simp: upd_last_def upd_node_def rbind_eq_Inr split: option.splits)

lemma good_add_with:
  assumes "good cap (chain_of ar)" "add_with c pd f ar = Inr ar'" "length (cnodes (chain_of ar')) \<le> cap" "harmless f"
  shows "good cap (chain_of ar') \<and> types (chain_of ar') = types (chain_of ar) @ [c] \<and> ar' = ar\<lparr>chain_of := chain_of ar'\<rparr>"
proof -
  obtain s s' where s: "ccmd_add (chain_of ar) c pd = Inr s" "upd_last f s = Inr s'" "ar' = ar\<lparr>chain_of := s'\<rparr>"
    using assms(2) by (auto simp: add_with_def rbind_eq_Inr)
  have len: "length (cnodes s) \<le> cap" using assms(3) s upd_last_length [OF s(2)] by simp
  note g = good_addD [OF assms(1) s(1) len]
  have "cnodes s \<noteq> []" using ccmd_add_length [OF s(1)] by auto
  then show ?thesis using good_upd_lastD [OF _ _ assms(4) s(2)] g s(3) by auto
qed

section \<open>Balanced templates\<close>

text \<open>The number of open forwards after some commands; a \<^verbatim>\<open>REPLY\<close> without an open forward answers the client.\<close>

fun depth :: "nat \<Rightarrow> command_type_t list \<Rightarrow> nat" where
  "depth d [] = d"
| "depth d (t # ts) = depth (if t = FORWARD_BEGIN then d + 1 else if t = REPLY then d - 1 else d) ts"

lemma depth_append: "depth d (ts @ us) = depth (depth d ts) us"
  by (induction ts arbitrary: d) auto

text \<open>
  The bookkeeping of the options without branches: \<^verbatim>\<open>fwd_scope\<close> and the reserved replies count the open forwards, and a last
  \<^verbatim>\<open>REPLY\<close> that is not the last reserved one is a reply to the client.
\<close>

definition args_inv :: "nat \<Rightarrow> client_args \<Rightarrow> bool" where
  "args_inv cap ar \<longleftrightarrow> (let ts = types (chain_of ar); q = reserved_fwd_replies ar in
     good cap (chain_of ar) \<and> stack_inv q \<and> capacity q = int cap \<and> branching_degree ar = 0 \<and>
     fwd_scope ar = int (depth 0 ts) \<and> qsize q = int (depth 0 ts) \<and>
     (\<forall>a. last_reserved_used ar = Some a \<longrightarrow> a < length ts) \<and>
     (ts \<noteq> [] \<and> last ts = REPLY \<and> last_reserved_used ar \<noteq> Some (length ts - 1) \<longrightarrow> depth 0 (butlast ts) = 0))"

lemma depth_le: "depth d ts \<le> d + length ts"
proof (induction ts arbitrary: d)
  case (Cons t ts)
  show ?case using Cons [of "if t = FORWARD_BEGIN then d + 1 else if t = REPLY then d - 1 else d"] by (auto split: if_splits)
qed simp

lemma args_inv_op:
  assumes "args_inv cap ar" "good cap s" "types s = types (chain_of ar) @ [c]" "c \<notin> {FORWARD_BEGIN, REPLY}"
  shows "args_inv cap (ar\<lparr>chain_of := s\<rparr>)"
proof -
  have len: "length (cnodes s) = Suc (length (cnodes (chain_of ar)))"
    using arg_cong [OF assms(3), of length] by simp
  show ?thesis using assms len by (auto simp: args_inv_def Let_def depth_append less_SucI)
qed

lemma inv_comp_time:
  assumes "args_inv cap ar" "opt_comp_time pe arg ar = Inr ar'" "length (cnodes (chain_of ar')) \<le> cap"
  shows "args_inv cap ar'"
proof -
  obtain v s where s: "ccmd_add (chain_of ar) COMPUTE v = Inr s" "ar' = ar\<lparr>chain_of := s\<rparr>"
    using assms(2) by (auto simp: opt_comp_time_def rbind_eq_Inr)
  have "good cap (chain_of ar)" using assms(1) by (simp add: args_inv_def Let_def)
  from good_addD [OF this s(1)] show ?thesis using args_inv_op [OF assms(1), of s COMPUTE] assms(3) s(2) by simp
qed

lemma inv_add_with:
  assumes "args_inv cap ar" "add_with c pd f ar = Inr ar'" "length (cnodes (chain_of ar')) \<le> cap" "harmless f"
    "c \<notin> {FORWARD_BEGIN, REPLY}"
  shows "args_inv cap ar'"
proof -
  have "good cap (chain_of ar)" using assms(1) by (simp add: args_inv_def Let_def)
  from good_add_with [OF this assms(2-4)] show ?thesis using args_inv_op [OF assms(1) _ _ assms(5)] by metis
qed

lemma inv_store: "args_inv cap ar \<Longrightarrow> opt_store pe arg ar = Inr ar' \<Longrightarrow> length (cnodes (chain_of ar')) \<le> cap \<Longrightarrow> args_inv cap ar'"
  by (auto simp: opt_store_def rbind_eq_Inr harmless_def split: if_splits intro: inv_add_with)

lemma inv_load: "args_inv cap ar \<Longrightarrow> opt_load pe arg ar = Inr ar' \<Longrightarrow> length (cnodes (chain_of ar')) \<le> cap \<Longrightarrow> args_inv cap ar'"
  by (auto simp: opt_load_def rbind_eq_Inr harmless_def split: if_splits intro: inv_add_with)

lemma inv_skip: "args_inv cap ar \<Longrightarrow> opt_skip arg ar = Inr ar' \<Longrightarrow> length (cnodes (chain_of ar')) \<le> cap \<Longrightarrow> args_inv cap ar'"
  by (auto simp: opt_skip_def rbind_eq_Inr harmless_def split: if_splits prod.splits intro: inv_add_with)

text \<open>A reply that closes an open forward, reserved or given by the user.\<close>

lemma args_inv_close:
  assumes "args_inv cap ar" "good cap s" "types s = types (chain_of ar) @ [REPLY]" "0 < depth 0 (types (chain_of ar))"
    "stack_inv q" "capacity q = int cap" "qsize q = qsize (reserved_fwd_replies ar) - 1"
  shows "args_inv cap (ar\<lparr>chain_of := s, reserved_fwd_replies := q, last_reserved_used := Some (length (cnodes s) - 1),
    fwd_scope := fwd_scope ar - 1\<rparr>)"
proof -
  have len: "length (cnodes s) = Suc (length (cnodes (chain_of ar)))"
    using arg_cong [OF assms(3), of length] by simp
  show ?thesis using assms len by (auto simp: args_inv_def Let_def depth_append of_nat_diff)
qed

lemma args_inv_answer:
  assumes "args_inv cap ar" "good cap s" "types s = types (chain_of ar) @ [REPLY]" "depth 0 (types (chain_of ar)) = 0"
  shows "args_inv cap (ar\<lparr>chain_of := s\<rparr>)"
proof -
  have len: "length (cnodes s) = Suc (length (cnodes (chain_of ar)))"
    using arg_cong [OF assms(3), of length] by simp
  show ?thesis using assms len by (auto simp: args_inv_def Let_def depth_append less_SucI)
qed

lemma dequeue_size:
  assumes "stack_inv q" "0 < qsize q" "queue_dequeue_tail q = Inr q'"
  shows "stack_inv q' \<and> capacity q' = capacity q \<and> qsize q' = qsize q - 1"
  using dequeue_tail_stack [OF assms(1)] assms(2,3) by (auto simp: queue_dequeue_tail_def split: if_splits)

lemma inv_reply:
  assumes "args_inv cap ar" "opt_reply pe jv arg ar = Inr ar'" "length (cnodes (chain_of ar')) \<le> cap"
  shows "args_inv cap ar'"
proof -
  let ?s = "chain_of ar" and ?q = "reserved_fwd_replies ar"
  have g: "good cap ?s" "stack_inv ?q" "capacity ?q = int cap" "fwd_scope ar = int (depth 0 (types ?s))"
      "qsize ?q = int (depth 0 (types ?s))"
    using assms(1) by (auto simp: args_inv_def Let_def)
  obtain v md dev where r: "(let set_resp = (\<lambda>n. n\<lparr>cresp := (cresp n)\<lparr>mode := md, r_dev_id := nat (dev mod 256)\<rparr>\<rparr>) in
     if qsize (cqueue ?s) \<le> 0 then add_with REPLY v set_resp ar
     else if fwd_scope ar \<le> 0 then
       rbind (last_cmd ?s) (\<lambda>c. rbind (ccmd_last ?s) (\<lambda>l.
         if c = REPLY \<and> l \<noteq> last_reserved_used ar
         then rbind (upd_last (\<lambda>n. n\<lparr>cpd_val := v\<rparr>) ?s) (\<lambda>s. Inr (ar\<lparr>chain_of := s\<rparr>))
         else add_with REPLY v set_resp ar))
     else
       rbind (queue_dequeue_tail ?q) (\<lambda>q.
       rbind (add_with REPLY v set_resp (ar\<lparr>reserved_fwd_replies := q\<rparr>)) (\<lambda>ar1.
       rbind (ccmd_last (chain_of ar1)) (\<lambda>l.
         Inr (ar1\<lparr>last_reserved_used := l, fwd_scope := fwd_scope ar1 - 1\<rparr>))))) = Inr ar'"
    using assms(2) by (auto simp: opt_reply_def rbind_eq_Inr Let_def)
  have h: "harmless (\<lambda>n. n\<lparr>cresp := (cresp n)\<lparr>mode := md, r_dev_id := nat (dev mod 256)\<rparr>\<rparr>)" "harmless (\<lambda>n. n\<lparr>cpd_val := v\<rparr>)"
    by (simp_all add: harmless_def)
  have answer: "args_inv cap ar'" if "add_with REPLY v (\<lambda>n. n\<lparr>cresp := (cresp n)\<lparr>mode := md, r_dev_id := nat (dev mod 256)\<rparr>\<rparr>) ar = Inr ar'"
      "depth 0 (types ?s) = 0"
    using good_add_with [OF g(1) that(1) assms(3) h(1)] args_inv_answer [OF assms(1), of "chain_of ar'"] that(2) by metis
  consider "cnodes ?s = []" | "cnodes ?s \<noteq> []" "fwd_scope ar \<le> 0" | "cnodes ?s \<noteq> []" "0 < fwd_scope ar" by fastforce
  then show ?thesis
  proof cases
    case 1
    then show ?thesis using r answer good_size [OF g(1)] by simp
  next
    case 2
    then have d: "depth 0 (types ?s) = 0" using g(4) by simp
    have u: "args_inv cap ar'" if "upd_last (\<lambda>n. n\<lparr>cpd_val := v\<rparr>) ?s = Inr s" "ar' = ar\<lparr>chain_of := s\<rparr>" for s
      using good_upd_lastD [OF g(1) 2(1) h(2) that(1)] that(2) assms(1) by (auto simp: args_inv_def Let_def)
    show ?thesis using 2 r answer [OF _ d] u good_size [OF g(1)]
      by (auto simp: rbind_eq_Inr Let_def split: if_splits)
  next
    case 3
    then have d: "0 < depth 0 (types ?s)" "0 < qsize ?q" using g(4,5) by simp_all
    obtain q ar1 l where q: "queue_dequeue_tail ?q = Inr q"
        "add_with REPLY v (\<lambda>n. n\<lparr>cresp := (cresp n)\<lparr>mode := md, r_dev_id := nat (dev mod 256)\<rparr>\<rparr>) (ar\<lparr>reserved_fwd_replies := q\<rparr>) = Inr ar1"
        "ccmd_last (chain_of ar1) = Inr l" "ar' = ar1\<lparr>last_reserved_used := l, fwd_scope := fwd_scope ar1 - 1\<rparr>"
      using r 3 good_size [OF g(1)] by (auto simp: rbind_eq_Inr Let_def split: if_splits)
    have ar1: "good cap (chain_of ar1)" "types (chain_of ar1) = types ?s @ [REPLY]"
        "ar1 = (ar\<lparr>reserved_fwd_replies := q\<rparr>)\<lparr>chain_of := chain_of ar1\<rparr>"
      using good_add_with [OF _ q(2) _ h(1)] g(1) assms(3) q(4) by auto
    have "cnodes (chain_of ar1) \<noteq> []" using ar1(2) by (metis Nil_is_append_conv list.map_disc_iff not_Cons_self2)
    then have "l = Some (length (cnodes (chain_of ar1)) - 1)" using q(3) good_last [OF ar1(1)] by simp
    moreover define s1 where "s1 = chain_of ar1"
    ultimately have e: "ar1 = ar\<lparr>reserved_fwd_replies := q, chain_of := s1\<rparr>" "l = Some (length (cnodes s1) - 1)"
      using ar1(3) by simp_all
    have "ar' = ar\<lparr>chain_of := s1, reserved_fwd_replies := q, last_reserved_used := Some (length (cnodes s1) - 1),
        fwd_scope := fwd_scope ar - 1\<rparr>"
      unfolding q(4) e by simp
    then show ?thesis using args_inv_close [OF assms(1) ar1(1,2) d(1)] dequeue_size [OF g(2) d(2) q(1)] g(3) by (simp add: s1_def)
  qed
qed

section \<open>Forwards in the template\<close>

text \<open>The chain after the addresses of a forward have been added: \<open>j\<close> new nodes at the end of the chain that was there before.\<close>

definition fwd_inv :: "nat \<Rightarrow> client_args \<Rightarrow> fwd_parse \<Rightarrow> nat \<Rightarrow> bool" where
  "fwd_inv cap ar f j \<longleftrightarrow> (let ar1 = fp_args f in
     good cap (chain_of ar1) \<and> types (chain_of ar1) = types (chain_of ar) @ replicate j FORWARD_BEGIN \<and>
     multi_fwds f = int j \<and> fwd_itr_start f = (if j = 0 then None else Some (length (cnodes (chain_of ar)))) \<and>
     reserved_fwd_replies ar1 = reserved_fwd_replies ar \<and> last_reserved_used ar1 = last_reserved_used ar \<and>
     fwd_scope ar1 = fwd_scope ar \<and> (fbranched f \<longleftrightarrow> 0 < branching_degree ar1) \<and> 0 \<le> branching_degree ar1)"

lemma fwd_token_cases:
  "fwd_token pe junk f tok = Inr f' \<Longrightarrow>
   fwd_address pe junk tok f = Inr f' \<or>
   fp_args f' = fp_args f \<and> multi_fwds f' = multi_fwds f \<and> fwd_itr_start f' = fwd_itr_start f \<and> fbranched f' = fbranched f \<or>
   f' = f\<lparr>fbranched := True, fp_args := (fp_args f)\<lparr>branching_degree := branching_degree (fp_args f) + 1\<rparr>\<rparr>"
  unfolding fwd_token_def by (auto simp: rbind_eq_Inr split: option.splits if_splits)

text \<open>What an address adds.\<close>

lemma fwd_addressD:
  assumes "fwd_address pe junk tok f = Inr f'"
  shows "\<exists>s l t pr s'. ccmd_add (chain_of (fp_args f)) FORWARD_BEGIN (pd_build_fixed (d_int default_resp_size)) = Inr s \<and>
    ccmd_last s = Inr l \<and> upd_last (set_target t pr) s = Inr s' \<and> multi_fwds f' = multi_fwds f + 1 \<and>
    fwd_itr_start f' = (if multi_fwds f = 0 then l else fwd_itr_start f) \<and> fbranched f' = fbranched f \<and>
    (\<exists>b. fp_args f' = (fp_args f)\<lparr>chain_of := s', curr_forward_begin := b\<rparr>)"
proof -
  obtain hp pr where "add_address pe hp pr f = Inr f'" using assms by (auto simp: fwd_address_def rbind_eq_Inr)
  then obtain s l t s' where s: "ccmd_add (chain_of (fp_args f)) FORWARD_BEGIN (pd_build_fixed (d_int default_resp_size)) = Inr s"
      "ccmd_last s = Inr l" "upd_last (set_target t pr) s = Inr s'"
      "f' = f\<lparr>fp_args := (if multi_fwds f = 0 \<and> branching_degree (fp_args f) = 0
          then (fp_args f)\<lparr>chain_of := s', curr_forward_begin := l\<rparr> else (fp_args f)\<lparr>chain_of := s'\<rparr>),
        fwd_itr_start := if multi_fwds f = 0 then l else fwd_itr_start f, multi_fwds := multi_fwds f + 1\<rparr>"
    unfolding add_address_def rbind_eq_Inr Let_def by auto
  have "\<exists>b. fp_args f' = (fp_args f)\<lparr>chain_of := s', curr_forward_begin := b\<rparr>"
    unfolding s(4) by (cases "multi_fwds f = 0 \<and> branching_degree (fp_args f) = 0")
      (auto intro: exI [of _ "curr_forward_begin (fp_args f)"])
  then show ?thesis using s by (intro exI [of _ s] exI [of _ l] exI [of _ t] exI [of _ pr] exI [of _ s']) simp
qed

lemma fwd_token_length: "fwd_token pe junk f tok = Inr f' \<Longrightarrow> length (cnodes (chain_of (fp_args f))) \<le> length (cnodes (chain_of (fp_args f')))"
  by (drule fwd_token_cases) (auto dest!: fwd_addressD ccmd_add_length upd_last_length)

lemma fwd_tokens_length:
  "rfold (fwd_token pe junk) f toks = Inr f' \<Longrightarrow> length (cnodes (chain_of (fp_args f))) \<le> length (cnodes (chain_of (fp_args f')))"
  by (induction toks arbitrary: f) (auto simp: rbind_eq_Inr dest: fwd_token_length intro: order_trans)

lemma harmless_target: "harmless (set_target t pr)"
  by (simp add: harmless_def set_target_def)

lemma fwd_address_inv:
  assumes "fwd_inv cap ar f j" "fwd_address pe junk tok f = Inr f'" "length (cnodes (chain_of (fp_args f'))) \<le> cap"
  shows "fwd_inv cap ar f' (Suc j)"
proof -
  let ?s = "chain_of (fp_args f)"
  obtain s l t pr s' b where a: "ccmd_add ?s FORWARD_BEGIN (pd_build_fixed (d_int default_resp_size)) = Inr s"
      "ccmd_last s = Inr l" "upd_last (set_target t pr) s = Inr s'" "multi_fwds f' = multi_fwds f + 1"
      "fwd_itr_start f' = (if multi_fwds f = 0 then l else fwd_itr_start f)" "fbranched f' = fbranched f"
      "fp_args f' = (fp_args f)\<lparr>chain_of := s', curr_forward_begin := b\<rparr>"
    using fwd_addressD [OF assms(2)] by blast
  have i: "good cap ?s" "types ?s = types (chain_of ar) @ replicate j FORWARD_BEGIN" using assms(1) by (auto simp: fwd_inv_def Let_def)
  have "length (cnodes s) \<le> cap" using assms(3) upd_last_length [OF a(3)] by (simp add: a(7))
  then have g: "good cap s" "types s = types ?s @ [FORWARD_BEGIN]" using good_addD [OF i(1) a(1)] by auto
  have ne: "cnodes s \<noteq> []" using ccmd_add_length [OF a(1)] by auto
  have g': "good cap s'" "types s' = types s" using good_upd_lastD [OF g(1) ne harmless_target a(3)] by auto
  have "length (cnodes ?s) = length (cnodes (chain_of ar)) + j" using arg_cong [OF i(2), of length] by simp
  then have "l = Some (length (cnodes (chain_of ar)) + j)" using a(2) good_last [OF g(1)] ne ccmd_add_length [OF a(1)] by simp
  moreover have "types s' = types (chain_of ar) @ replicate (Suc j) FORWARD_BEGIN"
    using g' g(2) i(2) by (simp add: replicate_append_same)
  ultimately show ?thesis using assms(1) g'(1) by (auto simp: fwd_inv_def Let_def a(4-7) simp del: replicate_Suc)
qed

lemma fwd_token_inv:
  assumes "fwd_inv cap ar f j" "fwd_token pe junk f tok = Inr f'" "length (cnodes (chain_of (fp_args f'))) \<le> cap"
  shows "\<exists>j'. fwd_inv cap ar f' j'"
  using fwd_token_cases [OF assms(2)]
proof (elim disjE)
  assume "fwd_address pe junk tok f = Inr f'"
  then show ?thesis using fwd_address_inv [OF assms(1) _ assms(3)] by blast
qed (use assms(1) in \<open>auto simp: fwd_inv_def Let_def intro!: exI [of _ j]\<close>)

lemma fwd_tokens_inv:
  assumes "fwd_inv cap ar f j" "rfold (fwd_token pe junk) f toks = Inr f'" "length (cnodes (chain_of (fp_args f'))) \<le> cap"
  shows "\<exists>j'. fwd_inv cap ar f' j'"
  using assms
proof (induction toks arbitrary: f j)
  case Nil
  then show ?case by auto
next
  case (Cons tok toks)
  then obtain f1 where f1: "fwd_token pe junk f tok = Inr f1" "rfold (fwd_token pe junk) f1 toks = Inr f'"
    by (auto simp: rbind_eq_Inr)
  then have "length (cnodes (chain_of (fp_args f1))) \<le> cap" using fwd_tokens_length [OF f1(2)] Cons.prems(3) by simp
  then show ?case using fwd_token_inv [OF Cons.prems(1) f1(1)] Cons.IH [OF _ f1(2) Cons.prems(3)] by blast
qed

text \<open>All nodes from a position of the chain on become \<^verbatim>\<open>FORWARD_CONTINUE\<close>.\<close>

lemma mark_continue_chain:
  assumes "chain ns p as" "distinct as"
  shows "\<exists>ns'. mark_continue br p ns = Some (Inr ns') \<and> length ns' = length ns \<and>
    (\<forall>i < length ns. ns' ! i = (if i \<in> set as then continue_params br (ns ! i) else ns ! i))"
  using assms
proof (induction as arbitrary: p ns)
  case Nil
  then show ?case by (intro exI [of _ ns]) (simp add: mark_continue.simps)
next
  case (Cons a as)
  let ?ns = "ns[a := continue_params br (ns ! a)]"
  have a: "p = Some a" "a < length ns" "chain ns (cnext (ns ! a)) as" "a \<notin> set as" "distinct as" using Cons.prems by auto
  have "chain ?ns (cnext (ns ! a)) as" using a by (simp add: seg_upd)
  then obtain ns' where "mark_continue br (cnext (ns ! a)) ?ns = Some (Inr ns')" "length ns' = length ns"
      "\<forall>i < length ns. ns' ! i = (if i \<in> set as then continue_params br (?ns ! i) else ?ns ! i)"
    using Cons.IH [of ?ns "cnext (ns ! a)"] a(5) by auto
  then show ?case using a by (intro exI [of _ ns'] conjI) (subst mark_continue.simps, auto simp: cnode_def nth_list_update)
qed

lemma chain_next:
  assumes "chain ns p [0..<n]" "a < n"
  shows "chain ns (cnext (ns ! a)) [Suc a..<n]"
proof -
  have "[0..<n] = [0..<a] @ a # [Suc a..<n]" using assms(2) upt_add_eq_append [of 0 a "n - a"] by (simp add: upt_conv_Cons)
  then show ?thesis using assms(1) by (auto simp: seg_append)
qed

lemma mark_continue_length: "mark_continue br p ns = Some (Inr ns') \<Longrightarrow> length ns' = length ns"
proof -
  have "\<forall>ns'. y = Inr ns' \<longrightarrow> length ns' = length ns" if "mark_continue br p ns = Some y" for br p ns y
  proof (rule mark_continue.raw_induct [OF _ that], goal_cases)
    case (1 mark br p ns y)
    show ?case
    proof (cases p)
      case None
      then show ?thesis using 1(2) by auto
    next
      case (Some a)
      then show ?thesis using 1(2) 1(1) by (cases "cnode ns a") fastforce+
    qed
  qed
  then show "mark_continue br p ns = Some (Inr ns') \<Longrightarrow> length ns' = length ns" by blast
qed

lemma enqueue_size:
  assumes "stack_inv q" "qsize q < capacity q" "queue_enqueue q k d = Inr (p, q')"
  shows "stack_inv q' \<and> capacity q' = capacity q \<and> qsize q' = qsize q + 1"
  using enqueue_stack_inv [OF assms(1,3)] enqueue_inv [OF stack_inv_imp_queue_inv [OF assms(1)] assms(3)]
    enqueue_space [OF stack_inv_imp_queue_inv [OF assms(1)]] assms(2,3) by auto

lemma upd_node_length: "upd_node p f s = Inr s' \<Longrightarrow> length (cnodes s') = length (cnodes s)"
  by (auto simp: upd_node_def rbind_eq_Inr split: option.splits)

text \<open>The steps of an option without a branch.\<close>

lemma opt_forwardD:
  assumes "branching_degree ar = 0" "opt_forward pe junk arg ar = Some (Inr ar')" "branching_degree ar' = 0"
    "length (cnodes (chain_of ar')) \<le> cap" "fwd_inv cap ar (fp0 \<lparr>fp_args := ar\<rparr>) 0"
    "fp0 = \<lparr>fp_args = ar, timeout_us = Fin 10000000, retry_num = 0, nack = -1, fbranched = False, multi_fwds = 0, fwd_itr_start = None\<rparr>"
  shows "\<exists>f j nk tmo s itr ns q p. fwd_inv cap ar f j \<and> \<not> fbranched f \<and>
    upd_node (fwd_itr_start f) (begin_params nk tmo (retry_num f) False) (chain_of (fp_args f)) = Inr s \<and>
    next_of (cnodes s) (fwd_itr_start f) = Inr itr \<and> mark_continue False itr (cnodes s) = Some (Inr ns) \<and>
    queue_enqueue (reserved_fwd_replies ar) default_resp_size () = Inr (p, q) \<and>
    ar' = (fp_args f)\<lparr>branching_degree := 0, curr_forward_begin := fwd_itr_start f, chain_of := s\<lparr>cnodes := ns\<rparr>,
      reserved_fwd_replies := q, fwd_scope := fwd_scope ar + 1\<rparr>"
proof -
  obtain f nk ar2 s itr ns p q where f: "rfold (fwd_token pe junk) fp0 (split_at '','' arg) = Inr f"
      "ar2 = (if \<not> fbranched f then (fp_args f)\<lparr>branching_degree := 0, curr_forward_begin := fwd_itr_start f\<rparr> else fp_args f)"
      "(if branching_degree ar2 \<le> 1
        then rbind (to_i32 (timeout_us f)) (\<lambda>tmo.
             upd_node (curr_forward_begin ar2) (begin_params nk tmo (retry_num f) (fbranched f)) (chain_of ar2))
        else Inr (chain_of ar2)) = Inr s"
      "(if fwd_itr_start f = curr_forward_begin ar2 then next_of (cnodes s) (fwd_itr_start f) else Inr (fwd_itr_start f)) = Inr itr"
      "mark_continue (fbranched f) itr (cnodes s) = Some (Inr ns)"
      "queue_enqueue (reserved_fwd_replies ar2) default_resp_size () = Inr (p, q)"
      "ar' = ar2\<lparr>chain_of := s\<lparr>cnodes := ns\<rparr>, reserved_fwd_replies := q, fwd_scope := fwd_scope ar2 + 1\<rparr>"
    using assms(2) unfolding opt_forward_def obind_eq_Inr option.inject rbind_eq_Inr Let_def close_branch_def assms(1,6) by force
  have "length (cnodes (chain_of (fp_args f))) \<le> cap"
    using assms(4) f(2,7) mark_continue_length [OF f(5)] f(3)
    by (auto simp: rbind_eq_Inr dest!: upd_node_length split: if_splits)
  moreover have "fwd_inv cap ar fp0 0" using assms(5,6) by simp
  ultimately obtain j where j: "fwd_inv cap ar f j" using fwd_tokens_inv [OF _ f(1)] by blast
  have nb: "\<not> fbranched f"
  proof
    assume "fbranched f"
    then show False using j f(2,7) assms(3) by (auto simp: fwd_inv_def Let_def)
  qed
  then have ar2: "ar2 = (fp_args f)\<lparr>branching_degree := 0, curr_forward_begin := fwd_itr_start f\<rparr>" using f(2) by simp
  then obtain tmo where "upd_node (fwd_itr_start f) (begin_params nk tmo (retry_num f) False) (chain_of (fp_args f)) = Inr s"
    using f(3) nb by (auto simp: rbind_eq_Inr)
  then show ?thesis using j nb f(4-7) ar2
    by (intro exI [of _ f] exI [of _ j] exI [of _ nk] exI [of _ tmo] exI [of _ s] exI [of _ itr] exI [of _ ns] exI [of _ q] exI [of _ p])
      (auto simp: fwd_inv_def Let_def)
qed

lemma inv_forward:
  assumes "args_inv cap ar" "opt_forward pe junk arg ar = Some (Inr ar')" "length (cnodes (chain_of ar')) \<le> cap" "branching_degree ar' = 0"
  shows "args_inv cap ar'"
proof -
  let ?ts = "types (chain_of ar)" and ?m = "length (cnodes (chain_of ar))"
  let ?f0 = "\<lparr>fp_args = ar, timeout_us = Fin 10000000, retry_num = 0, nack = -1, fbranched = False, multi_fwds = 0, fwd_itr_start = None\<rparr>"
  have i: "good cap (chain_of ar)" "branching_degree ar = 0" "stack_inv (reserved_fwd_replies ar)" "capacity (reserved_fwd_replies ar) = int cap"
      "fwd_scope ar = int (depth 0 ?ts)" "qsize (reserved_fwd_replies ar) = int (depth 0 ?ts)"
      "\<forall>a. last_reserved_used ar = Some a \<longrightarrow> a < length ?ts"
    using assms(1) by (auto simp: args_inv_def Let_def)
  have "fwd_inv cap ar (?f0\<lparr>fp_args := ar\<rparr>) 0" using i(1,2) by (simp add: fwd_inv_def Let_def)
  then obtain f j nk tmo s itr ns q p where f: "fwd_inv cap ar f j"
      "upd_node (fwd_itr_start f) (begin_params nk tmo (retry_num f) False) (chain_of (fp_args f)) = Inr s"
      "next_of (cnodes s) (fwd_itr_start f) = Inr itr" "mark_continue False itr (cnodes s) = Some (Inr ns)"
      "queue_enqueue (reserved_fwd_replies ar) default_resp_size () = Inr (p, q)"
      "ar' = (fp_args f)\<lparr>branching_degree := 0, curr_forward_begin := fwd_itr_start f, chain_of := s\<lparr>cnodes := ns\<rparr>,
        reserved_fwd_replies := q, fwd_scope := fwd_scope ar + 1\<rparr>"
    using opt_forwardD [OF i(2) assms(2,4,3) _ refl] by blast
  let ?s1 = "chain_of (fp_args f)"
  have g1: "good cap ?s1" "types ?s1 = ?ts @ replicate j FORWARD_BEGIN" "last_reserved_used (fp_args f) = last_reserved_used ar"
    using f(1) by (auto simp: fwd_inv_def Let_def)
  have j: "0 < j" "fwd_itr_start f = Some ?m"
    using f(1,2) by (auto simp: fwd_inv_def Let_def upd_node_def split: if_splits)
  have len1: "length (cnodes ?s1) = ?m + j" using arg_cong [OF g1(2), of length] by simp
  have hb: "harmless (begin_params nk tmo (retry_num f) False)" by (simp add: harmless_def begin_params_def)
  have s: "good cap s" "types s = types ?s1" "length (cnodes s) = ?m + j"
    using good_upd [OF g1(1), of ?m "begin_params nk tmo (retry_num f) False"] f(2) hb len1 j map_ccmd_upd [OF hb]
    by (auto simp: harmless_def)
  have itr: "itr = cnext (cnodes s ! ?m)" using f(3) j s(3) by (auto simp: next_of_def cnode_def)
  have "cnodes s \<noteq> []" using s(3) j(1) by auto
  then have "chain (cnodes s) (Some 0) [0..<?m + j]" using good_chain [OF s(1)] s(3) by simp
  then have "chain (cnodes s) itr [Suc ?m..<?m + j]" unfolding itr using j(1) by (intro chain_next) auto
  from mark_continue_chain [OF this, of False] obtain ns' where ns': "mark_continue False itr (cnodes s) = Some (Inr ns')"
      "length ns' = length (cnodes s)" "\<forall>k < length (cnodes s). ns' ! k = (if k \<in> set [Suc ?m..<?m + j] then continue_params False (cnodes s ! k) else cnodes s ! k)"
    by auto
  have ns: "ns = ns'" using ns'(1) f(4) by simp
  have g: "good cap (s\<lparr>cnodes := ns\<rparr>)"
    using ns' by (intro good_nodes [OF s(1)]) (auto simp: ns continue_params_def)
  have ty: "map ccmd ns = ?ts @ FORWARD_BEGIN # replicate (j - 1) FORWARD_CONTINUE"
  proof (rule nth_equalityI)
    show "length (map ccmd ns) = length (?ts @ FORWARD_BEGIN # replicate (j - 1) FORWARD_CONTINUE)"
      using ns'(2) s(3) j(1) by (simp add: ns)
    fix k
    assume "k < length (map ccmd ns)"
    then have k: "k < ?m + j" using ns'(2) s(3) by (simp add: ns)
    have "ccmd (cnodes s ! k) = (?ts @ replicate j FORWARD_BEGIN) ! k"
      using k s(2,3) g1(2) by (metis nth_map)
    then show "map ccmd ns ! k = (?ts @ FORWARD_BEGIN # replicate (j - 1) FORWARD_CONTINUE) ! k"
      using k ns'(2,3) s(3) by (auto simp: ns nth_append nth_Cons' continue_params_def)
  qed
  have d: "depth 0 (map ccmd ns) = Suc (depth 0 ?ts)"
  proof -
    have "depth k (replicate n FORWARD_CONTINUE) = k" for k n by (induction n) auto
    then show ?thesis by (simp add: ty depth_append)
  qed
  have "depth 0 ?ts < cap" using depth_le [of 0 ?ts] g1(1) len1 j(1) by (simp add: good_def)
  then have q: "stack_inv q" "capacity q = int cap" "qsize q = int (Suc (depth 0 ?ts))"
    using enqueue_size [OF i(3) _ f(5)] i(4,6) by auto
  have "last (map ccmd ns) \<noteq> REPLY" by (simp add: ty)
  moreover have "length ?ts \<le> length ns" using ns'(2) s(3) by (simp add: ns)
  ultimately show ?thesis using g q d i(5,7) g1(3) f(6) by (fastforce simp: args_inv_def Let_def)
qed

section \<open>The finished template\<close>

definition init_args :: "nat \<Rightarrow> pd_spec_t \<Rightarrow> (nat \<Rightarrow> nat node_t) \<Rightarrow> (nat \<Rightarrow> unit node_t) \<Rightarrow> client_args" where
  "init_args cap off g h =
     \<lparr>chain_of = \<lparr>cqueue = queue_alloc g cap, cnodes = []\<rparr>, store_offset_pd = off, load_offset_pd = off,
      last_resp_size = pd_build_fixed (d_int default_resp_size), reserved_fwd_replies = queue_alloc h cap,
      last_reserved_used = None, fwd_scope = 0, branching_degree = 0, curr_forward_begin = None\<rparr>"

text \<open>The states that sequences of options without branches reach, as long as the chain is within its capacity.\<close>

inductive template :: "parse_env \<Rightarrow> nat \<Rightarrow> client_args \<Rightarrow> bool" for pe cap where
  template_init: "1 < cap \<Longrightarrow> template pe cap (init_args cap off g h)"
| template_offsets: "template pe cap ar \<Longrightarrow> template pe cap (ar\<lparr>store_offset_pd := a, load_offset_pd := b\<rparr>)"
| template_option: "template pe cap ar \<Longrightarrow> length (cnodes (chain_of ar')) \<le> cap \<Longrightarrow>
    opt_comp_time pe arg ar = Inr ar' \<or> opt_store pe arg ar = Inr ar' \<or> opt_load pe arg ar = Inr ar' \<or> opt_skip arg ar = Inr ar' \<or>
    opt_reply pe junk_val (if given then Some arg else None) ar = Inr ar' \<or>
    (opt_forward pe junk arg ar = Some (Inr ar') \<and> branching_degree ar' = 0) \<Longrightarrow>
    template pe cap ar'"

lemma template_inv: "template pe cap ar \<Longrightarrow> args_inv cap ar"
proof (induction rule: template.induct)
  case (template_init off g h)
  have "built cap [] \<lparr>cqueue = queue_alloc g cap, cnodes = []\<rparr>"
    using template_init stack_inv_alloc [of cap g] by (simp add: built_def ptrs_def linked_def) (simp add: queue_alloc_def)
  then show ?case using template_init stack_inv_alloc [of cap h]
    by (simp add: args_inv_def init_args_def good_def Let_def) (simp add: queue_alloc_def)
next
  case (template_offsets ar a b)
  then show ?case by (simp add: args_inv_def Let_def)
next
  case (template_option ar ar' arg junk_val given junk)
  note I = template_option.IH and L = template_option.hyps(2)
  note keep = inv_comp_time [OF I _ L] inv_store [OF I _ L] inv_load [OF I _ L] inv_skip [OF I _ L] inv_reply [OF I _ L] inv_forward [OF I _ L]
  from template_option.hyps(3) show ?case by (elim disjE conjE) (erule keep | erule keep, assumption)+
qed

lemma reserved_reply_inv:
  assumes "args_inv cap ar" "0 < depth 0 (types (chain_of ar))" "length (cnodes (chain_of ar)) < cap"
  shows "\<exists>s q. reserved_reply ar = Inr (ar\<lparr>chain_of := s, reserved_fwd_replies := q\<rparr>) \<and> good cap s \<and>
    types s = types (chain_of ar) @ [REPLY] \<and> stack_inv q \<and> capacity q = int cap \<and> qsize q = qsize (reserved_fwd_replies ar) - 1"
proof -
  let ?q = "reserved_fwd_replies ar"
  have i: "good cap (chain_of ar)" "stack_inv ?q" "capacity ?q = int cap" "0 < qsize ?q"
    using assms(1,2) by (auto simp: args_inv_def Let_def)
  then have "contents ?q \<noteq> []" by (simp add: contents_def)
  then obtain k where k: "queue_node_key ?q (queue_tail ?q) = Inr k"
    using queue_tail_last [OF i(2)] by (auto simp: queue_node_key_def rbind_eq_Inr)
  obtain s where s: "ccmd_add (chain_of ar) REPLY (pd_build_fixed (d_int k)) = Inr s" "good cap s" "types s = types (chain_of ar) @ [REPLY]"
    using good_add [OF i(1) assms(3)] by blast
  obtain q where q: "queue_dequeue_tail ?q = Inr q" using dequeue_tail_stack [OF i(2)] by blast
  show ?thesis using k s q dequeue_size [OF i(2,4) q] i(3) by (auto simp: reserved_reply_def)
qed

lemma exhaust_inv:
  assumes "args_inv cap ar" "length (cnodes (chain_of ar)) + depth 0 (types (chain_of ar)) \<le> cap"
  shows "\<exists>ar'. exhaust ar = Inr ar' \<and> args_inv cap ar' \<and> depth 0 (types (chain_of ar')) = 0 \<and> last_resp_size ar' = last_resp_size ar \<and>
    types (chain_of ar') = types (chain_of ar) @ replicate (depth 0 (types (chain_of ar))) REPLY"
  using assms
proof (induction "depth 0 (types (chain_of ar))" arbitrary: ar)
  case 0
  then have "exhaust ar = Inr ar" by (subst exhaust.simps) (simp add: args_inv_def Let_def)
  then show ?case using 0 by auto
next
  case (Suc d)
  obtain s q where r: "reserved_reply ar = Inr (ar\<lparr>chain_of := s, reserved_fwd_replies := q\<rparr>)" "good cap s"
      "types s = types (chain_of ar) @ [REPLY]" "stack_inv q" "capacity q = int cap" "qsize q = qsize (reserved_fwd_replies ar) - 1"
    using reserved_reply_inv [OF Suc.prems(1)] Suc.prems(2) Suc.hyps(2) by auto
  let ?ar = "ar\<lparr>chain_of := s, reserved_fwd_replies := q, last_reserved_used := Some (length (cnodes s) - 1), fwd_scope := fwd_scope ar - 1\<rparr>"
  have len: "length (cnodes s) = Suc (length (cnodes (chain_of ar)))" using arg_cong [OF r(3), of length] by simp
  then have "ccmd_last s = Inr (Some (length (cnodes s) - 1))" using good_last [OF r(2)] by auto
  moreover have "0 < qsize (reserved_fwd_replies ar)" "0 < fwd_scope ar"
    using Suc.prems(1) Suc.hyps(2) by (auto simp: args_inv_def Let_def)
  ultimately have ex: "exhaust ar = exhaust ?ar" using r(1) by (subst exhaust.simps) simp
  have inv: "args_inv cap ?ar" using args_inv_close [OF Suc.prems(1) r(2,3) _ r(4-6)] Suc.hyps(2) by simp
  have d: "d = depth 0 (types (chain_of ?ar))" using r(3) Suc.hyps(2) by (simp add: depth_append)
  obtain ar' where "exhaust ?ar = Inr ar'" "args_inv cap ar'" "depth 0 (types (chain_of ar')) = 0" "last_resp_size ar' = last_resp_size ar"
      "types (chain_of ar') = types s @ replicate d REPLY"
    using Suc.hyps(1) [OF d inv] Suc.prems(2) Suc.hyps(2) d len by auto
  then show ?case using ex r(3) by (intro exI [of _ ar']) (simp flip: Suc.hyps(2))
qed

text \<open>C35. Every template that is built from options without branches is balanced: finishing it does not fault while there is room for the
  missing replies, it only appends replies, each forward is closed by a reply of its own, and the template ends with a reply to the client. All
  its nodes are linked in order.
\<close>

theorem template_balanced:
  assumes "template pe cap ar" "length (cnodes (chain_of ar)) + depth 0 (types (chain_of ar)) < cap"
  shows "\<exists>ar' us n. finish_chain ar = Inr ar' \<and> types (chain_of ar') = us @ [REPLY] \<and> depth 0 us = 0 \<and>
    us @ [REPLY] = types (chain_of ar) @ replicate n REPLY \<and>
    chain (cnodes (chain_of ar')) (Some 0) [0..<length (cnodes (chain_of ar'))]"
proof -
  let ?d = "depth 0 (types (chain_of ar))"
  obtain ar1 where e: "exhaust ar = Inr ar1" "args_inv cap ar1" "depth 0 (types (chain_of ar1)) = 0" "last_resp_size ar1 = last_resp_size ar"
      "types (chain_of ar1) = types (chain_of ar) @ replicate ?d REPLY"
    using exhaust_inv [OF template_inv [OF assms(1)]] assms(2) by auto
  let ?s = "chain_of ar1"
  have i: "good cap ?s" "qsize (reserved_fwd_replies ar1) = 0" using e(2,3) by (auto simp: args_inv_def Let_def)
  have len: "length (cnodes ?s) < cap" using arg_cong [OF e(5), of length] assms(2) by simp
  note last = good_last [OF i(1)]
  obtain s where s: "ccmd_add ?s REPLY (last_resp_size ar1) = Inr s" "good cap s" "types s = types ?s @ [REPLY]"
    using good_add [OF i(1) len] by blast
  show ?thesis
  proof (cases "cnodes ?s = [] \<or> last (types ?s) \<noteq> REPLY \<or> last_reserved_used ar1 = Some (length (cnodes ?s) - 1)")
    case True
    have "cnodes ?s = [] \<Longrightarrow> last_reserved_used ar1 = None" using e(2) by (cases "last_reserved_used ar1") (auto simp: args_inv_def Let_def)
    then have "finish_chain ar = Inr (ar1\<lparr>chain_of := s\<rparr>)"
      using True e(1) i(2) s(1) last good_last_cmd [OF i(1)] by (auto simp: finish_chain_def)
    moreover have "cnodes s \<noteq> []" using s(3) by (metis Nil_is_append_conv list.map_disc_iff not_Cons_self2)
    moreover have "types ?s @ [REPLY] = types (chain_of ar) @ replicate (Suc ?d) REPLY" using e(5) by (simp add: replicate_append_same)
    ultimately show ?thesis using s e(3) good_chain [OF s(2)]
      by (intro exI [of _ "ar1\<lparr>chain_of := s\<rparr>"] exI [of _ "types ?s"] exI [of _ "Suc ?d"]) simp
  next
    case False
    then have "finish_chain ar = Inr ar1"
      using e(1) i(2) last good_last_cmd [OF i(1)] by (auto simp: finish_chain_def)
    moreover have "types ?s = butlast (types ?s) @ [REPLY]" using False by (metis append_butlast_last_id list.map_disc_iff)
    moreover have "depth 0 (butlast (types ?s)) = 0" using e(2) False by (auto simp: args_inv_def Let_def)
    ultimately show ?thesis using False e(5) good_chain [OF i(1)]
      by (intro exI [of _ ar1] exI [of _ "butlast (types ?s)"] exI [of _ ?d]) simp
  qed
qed

section \<open>Concrete inputs\<close>

definition no_env :: parse_env where
  "no_env = \<lparr>pe_libm = no_libm, pe_files = Map.empty, pe_resolve = Map.empty\<rparr>"

definition sample_args :: client_args where
  "sample_args = init_args 4 pd_zero (\<lambda>_. \<lparr>heap_id = 0, key = 0, data = 0\<rparr>) (\<lambda>_. \<lparr>heap_id = 0, key = 0, data = ()\<rparr>)"

lemma sample_skip:
  "\<exists>ar. opt_skip ''2'' sample_args = Inr ar \<and> types (chain_of ar) = [PSKIP] \<and> template no_env 4 ar"
proof -
  have t: "template no_env 4 sample_args" by (simp add: sample_args_def template_init)
  then have g: "good 4 (chain_of sample_args)" using template_inv by (auto simp: args_inv_def Let_def)
  have e: "cnodes (chain_of sample_args) = []" by (simp add: sample_args_def init_args_def)
  let ?f = "\<lambda>x. x\<lparr>n_skip := 2, n_every := 1\<rparr>"
  obtain s where s: "ccmd_add (chain_of sample_args) PSKIP (pd_build_fixed (Fin 1)) = Inr s" "good 4 s" "types s = [PSKIP]"
    using good_add [OF g, of PSKIP "pd_build_fixed (Fin 1)"] e by auto
  then obtain s' where s': "upd_last ?f s = Inr s'" "good 4 s'" "types s' = [PSKIP]"
    using good_upd_last [of 4 s ?f] by (auto simp: harmless_def)
  have "scan_d ''2'' = Some (2, [])"
    using scan_d_show_nat [of 2 "[]"] by (simp add: show_nat.simps dec_char_def char_of_def bit_0)
  then have o: "opt_skip ''2'' sample_args = Inr (sample_args\<lparr>chain_of := s'\<rparr>)"
    using s s' by (simp add: opt_skip_def skip_token_def add_with_def)
  moreover have "length (cnodes s') = 1" using arg_cong [OF s'(3), of length] by simp
  then have "template no_env 4 (sample_args\<lparr>chain_of := s'\<rparr>)"
    using template_option [OF t, of "sample_args\<lparr>chain_of := s'\<rparr>" "''2''"] o by simp
  ultimately show ?thesis using s'(3) by auto
qed

theorem template_balanced_witness:
  "\<exists>ar ar'. opt_skip ''2'' sample_args = Inr ar \<and> finish_chain ar = Inr ar' \<and> last (types (chain_of ar')) = REPLY"
proof -
  obtain ar where ar: "opt_skip ''2'' sample_args = Inr ar" "types (chain_of ar) = [PSKIP]" "template no_env 4 ar"
    using sample_skip by (elim exE conjE) (rule that, assumption+)
  have "length (cnodes (chain_of ar)) = 1" using arg_cong [OF ar(2), of length] by simp
  then have room: "length (cnodes (chain_of ar)) + depth 0 (types (chain_of ar)) < 4" by (simp only: ar(2)) simp
  obtain ar' us where "finish_chain ar = Inr ar'" "types (chain_of ar') = us @ [REPLY]"
    using template_balanced [OF ar(3) room] by blast
  then show ?thesis using ar(1) by (metis last_snoc)
qed

end
