(* ===== verification/DW_Client.thy ===== *)
theory DW_Client
  imports DW_Ccmd DW_Connection DW_Timespec
begin

text \<open>
  The two threads of the client (\<^verbatim>\<open>src/dw_client.c\<close>, the build without \<^verbatim>\<open>DPDK_ENABLED\<close>): \<^verbatim>\<open>thread_sender\<close> sends the requests of a session at
  the given rate, \<^verbatim>\<open>thread_receiver\<close> opens the sessions, takes the replies and records their latency. Clock readings and the outcomes of
  system calls are arguments. The two arrays of time stamps of a thread are functions on the indices below \<^verbatim>\<open>MAX_PKTS\<close>; every access
  is checked against that bound.
\<close>

section \<open>Settings and time stamps\<close>

definition MAX_PKTS :: int where "MAX_PKTS = 1000000"

record client_cfg =
  use_per_session_output :: bool
  use_nano :: bool
  use_wait_spinning :: bool
  ramp_step_secs :: nat
  num_pkts :: nat
  pkts_per_session :: nat
  conn_retry_num :: nat
  client_proto :: proto_t
  serveraddr :: sockaddr_in
  my_port :: nat
  ts_start :: timespec
  cl_libm :: libm

text \<open>The end of the options: the number of packets is rounded up to whole sessions; \<^verbatim>\<open>num_sessions\<close> is converted to \<^verbatim>\<open>unsigned long\<close>.\<close>

definition round_pkts :: "bool \<Rightarrow> u64 \<Rightarrow> u64 \<Rightarrow> (u64 \<times> u64) res" where
  "round_pkts per_session num num_sessions =
     (if num_sessions = 0 then Inl Div_By_Zero
      else let n = (num + num_sessions - 1) div num_sessions * num_sessions; pps = n div num_sessions in
        if n > word_of_int MAX_PKTS \<or> per_session \<and> pps > word_of_int MAX_PKTS then Inl Exit_Failure else Inr (n, pps))"

record stamps =
  usecs_send :: "nat \<Rightarrow> int"
  usecs_elapsed :: "nat \<Rightarrow> int"

definition no_stamps :: stamps where
  "no_stamps = \<lparr>usecs_send = \<lambda>_. 0, usecs_elapsed = \<lambda>_. 0\<rparr>"

text \<open>\<^verbatim>\<open>idx\<close>: \<^verbatim>\<open>pkts_per_session\<close> is an \<^verbatim>\<open>unsigned long\<close>, so the remainder is computed on unsigned numbers.\<close>

definition idx :: "client_cfg \<Rightarrow> int \<Rightarrow> int res" where
  "idx cfg pkt_id =
     (if use_per_session_output cfg \<and> pkts_per_session cfg = 0 then Inl Div_By_Zero
      else let val = (if use_per_session_output cfg then i32 ((pkt_id mod 2 ^ 64) mod int (pkts_per_session cfg)) else pkt_id)
      in if \<not> val < MAX_PKTS then Inl Assert_Failed else Inr val)"

text \<open>The index of an access \<^verbatim>\<open>usecs_send[thread_id][idx(pkt_id)]\<close>.\<close>

definition slot :: "client_cfg \<Rightarrow> int \<Rightarrow> nat res" where
  "slot cfg pkt_id = rbind (idx cfg pkt_id) (\<lambda>v. if v < 0 then Inl Out_Of_Bounds else Inr (nat v))"

definition i64 :: "int \<Rightarrow> int" where
  "i64 x = signed_take_bit 63 x"

text \<open>\<^verbatim>\<open>process_reply\<close> for the message \<open>m\<close> in the buffer \<open>b\<close>: the returned number and the stamps.\<close>

definition reply_time :: "client_cfg \<Rightarrow> timespec \<Rightarrow> int" where
  "reply_time cfg ts_now =
     (if use_nano cfg
      then (tv_sec ts_now - tv_sec (ts_start cfg)) * 1000000000 + (tv_nsec ts_now - tv_nsec (ts_start cfg))
      else (tv_sec ts_now - tv_sec (ts_start cfg)) * 1000000 + (tv_nsec ts_now - tv_nsec (ts_start cfg)) sdiv 1000)"

definition process_reply :: "client_cfg \<Rightarrow> timespec \<Rightarrow> bytes \<Rightarrow> nat \<Rightarrow> stamps \<Rightarrow> (int \<times> stamps) res" where
  "process_reply cfg ts_now b m st =
     rbind (get_req_id b m) (\<lambda>pkt_id. rbind (get_status b m) (\<lambda>s.
       if s \<noteq> nat_of_status SUCCESS then Inr (if s = nat_of_status ERR then -1 else -2, st)
       else rbind (slot cfg (i32 (int pkt_id))) (\<lambda>i.
         Inr (1, st\<lparr>usecs_elapsed := (usecs_elapsed st)(i := i64 (reply_time cfg ts_now - usecs_send st i))\<rparr>))))"

section \<open>The sender thread\<close>

record sender_t =
  s_stamps :: stamps
  s_conn :: conn_info_t
  ts_now :: timespec
  chain :: ccmd_t
  send_pkt_size_pd :: pd_spec_t
  send_period_us_pd :: pd_spec_t
  send_rate_pd :: pd_spec_t
  rand_state :: rng

text \<open>What the system calls of one pass return: the clock before the request is sent, the outcome of the send, the clock readings
  while spinning, the result of \<^verbatim>\<open>clock_nanosleep\<close> (which reports an error as a positive number).\<close>

record pass_env =
  ts_send :: timespec
  pass_send :: send_env
  spins :: "timespec list"
  nanosleep_rv :: int

definition stamp_send :: "client_cfg \<Rightarrow> timespec \<Rightarrow> int \<Rightarrow> stamps \<Rightarrow> stamps res" where
  "stamp_send cfg t pkt_id st =
     rbind (slot cfg pkt_id) (\<lambda>i. Inr
       \<lparr>usecs_send = (usecs_send st)(i := if use_nano cfg then ts_sub_ns t (ts_start cfg) else ts_sub_us t (ts_start cfg)),
        usecs_elapsed = (usecs_elapsed st)(i := 0)\<rparr>)"

text \<open>
  The request: it is written behind the pending bytes of the send buffer and handed to \<^verbatim>\<open>conn_start_send\<close>. The result is whether the thread goes
  on, and the bytes that went to the kernel; a request that does not fit is left out.
\<close>

definition send_request :: "client_cfg \<Rightarrow> send_env \<Rightarrow> int \<Rightarrow> sender_t \<Rightarrow> (bool \<times> bytes \<times> sender_t) res option" where
  "send_request cfg env pkt_id s =
     obind (Some (rbind (conn_prepare_send_message (s_conn s)) (\<lambda>(m, c). rbind (the_buf (send_buf c)) (\<lambda>b.
       rbind (set_req_id b m (nat (pkt_id mod 2 ^ 32))) (\<lambda>b1. Inr (m, c, b1)))))) (\<lambda>(m, c, b1).
     obind (sample_as (cl_libm cfg) to_u32 (send_pkt_size_pd s) (rand_state s)) (\<lambda>(pkt_size, p, g).
     obind (Some (get_req_size b1 m)) (\<lambda>room.
     let s1 = s\<lparr>send_pkt_size_pd := p, rand_state := g\<rparr> in
     if pkt_size > room then Some (Inr (True, [], s1\<lparr>s_conn := c\<lparr>send_buf := Some b1\<rparr>\<rparr>))
     else obind (Some (set_req_size b1 m pkt_size)) (\<lambda>b2.
       obind (ccmd_dump (cl_libm cfg) (chain s1) b2 m g) (\<lambda>(ok, b3, ch, g').
       let c3 = c\<lparr>send_buf := Some b3\<rparr>; s2 = s1\<lparr>chain := ch, rand_state := g', s_conn := c3\<rparr> in
       if ok = 0 then Some (Inr (True, [], s2))
       else obind (Some (rbind (get_req_size b3 m) (\<lambda>n. if \<not> n \<le> BUF_SIZE then Inl Assert_Failed else
              conn_start_send env (target c3) c3))) (\<lambda>(rv, out, c4).
         Some (Inr (rv \<noteq> 0, out, s2\<lparr>s_conn := c4\<rparr>))))))))"

text \<open>The change of the rate between two steps of the ramp, once for each step passed.\<close>

fun ramp_loop :: "libm \<Rightarrow> nat \<Rightarrow> sender_t \<Rightarrow> sender_t res option" where
  "ramp_loop lm 0 s = Some (Inr s)"
| "ramp_loop lm (Suc k) s =
     obind (Some (to_i32 (ddiv (d_int 1000000) (pd_val (send_period_us_pd s))))) (\<lambda>old_rate.
     obind (pd_sample lm (send_rate_pd s) (rand_state s)) (\<lambda>(v, p, g).
     obind (Some (to_i32 v)) (\<lambda>rate.
       if \<not> rate > 0 then Some (Inl Exit_Failure)
       else ramp_loop lm k (s\<lparr>send_rate_pd := p, rand_state := g,
              send_period_us_pd := (send_period_us_pd s)\<lparr>pd_val := ddiv (d_int 1000000) (d_int rate)\<rparr>\<rparr>))))"

definition ramp_step :: "client_cfg \<Rightarrow> stamps \<Rightarrow> int \<Rightarrow> int res" where
  "ramp_step cfg st pkt_id = rbind (slot cfg pkt_id) (\<lambda>i.
     Inr (i32 (usecs_send st i sdiv (if use_nano cfg then 1000000000 else 1000000) sdiv int (ramp_step_secs cfg))))"

definition ramp :: "client_cfg \<Rightarrow> int \<Rightarrow> sender_t \<Rightarrow> sender_t res option" where
  "ramp cfg pkt_id s =
     (if ramp_step_secs cfg \<noteq> 0 \<and> pkt_id > 0 then
        obind (Some (rbind (ramp_step cfg (s_stamps s) (pkt_id - 1)) (\<lambda>prev.
          rbind (ramp_step cfg (s_stamps s) pkt_id) (\<lambda>step. Inr (nat (step - prev)))))) (\<lambda>k. ramp_loop (cl_libm cfg) k s)
      else Some (Inr s))"

text \<open>The wait until the time of the next request: spinning on the clock (\<open>None\<close>: all readings are still too early), or sleeping.\<close>

fun spin :: "timespec list \<Rightarrow> timespec \<Rightarrow> unit option" where
  "spin [] d = None"
| "spin (t # ts) d = (if ts_leq t d then spin ts d else Some ())"

definition wait_next :: "client_cfg \<Rightarrow> pass_env \<Rightarrow> sender_t \<Rightarrow> sender_t res option" where
  "wait_next cfg env s =
     obind (pd_sample (cl_libm cfg) (send_period_us_pd s) (rand_state s)) (\<lambda>(v, p, g).
     obind (Some (to_u64 (dmul v (d_int 1000)))) (\<lambda>period_ns.
       let t = ts_add (ts_now s) \<lparr>tv_sec = int (period_ns div 1000000000), tv_nsec = int (period_ns mod 1000000000)\<rparr>;
           s' = s\<lparr>send_period_us_pd := p, rand_state := g, ts_now := t\<rparr> in
       if use_wait_spinning cfg then map_option (\<lambda>_. Inr s') (spin (spins env) t)
       else if nanosleep_rv env < 0 then Some (Inl Exit_Failure) else Some (Inr s')))"

text \<open>One pass of the loop of \<^verbatim>\<open>thread_sender\<close>, and the thread: the bytes sent by all its passes.\<close>

definition sender_pass :: "client_cfg \<Rightarrow> pass_env \<Rightarrow> int \<Rightarrow> sender_t \<Rightarrow> (bool \<times> bytes \<times> sender_t) res option" where
  "sender_pass cfg env pkt_id s =
     obind (Some (stamp_send cfg (ts_send env) pkt_id (s_stamps s))) (\<lambda>st.
     obind (send_request cfg (pass_send env) pkt_id (s\<lparr>s_stamps := st\<rparr>)) (\<lambda>(go, out, s1).
     if \<not> go then Some (Inr (False, out, s1))
     else obind (ramp cfg pkt_id s1) (\<lambda>s2. obind (wait_next cfg env s2) (\<lambda>s3. Some (Inr (True, out, s3))))))"

fun thread_sender :: "client_cfg \<Rightarrow> int \<Rightarrow> pass_env list \<Rightarrow> sender_t \<Rightarrow> (bytes list \<times> sender_t) res option" where
  "thread_sender cfg pkt_id [] s = Some (Inr ([], s))"
| "thread_sender cfg pkt_id (env # envs) s =
     obind (sender_pass cfg env pkt_id s) (\<lambda>(go, out, s1).
     if \<not> go then Some (Inr ([out], s1))
     else obind (thread_sender cfg (pkt_id + 1) envs s1) (\<lambda>(outs, s2). Some (Inr (out # outs, s2))))"


section \<open>Sessions\<close>

text \<open>What the system calls of one attempt to connect return.\<close>

record connect_env =
  socket_rv :: int
  nodelay_rv :: int
  reuse_rv :: int
  bind_rv :: int
  connect_rv :: "int \<times> errno_t"

definition try_connect :: "client_cfg \<Rightarrow> connect_env \<Rightarrow> int res" where
  "try_connect cfg e =
     (if (client_proto cfg = TCP \<or> client_proto cfg = TLS) \<and> (socket_rv e < 0 \<or> nodelay_rv e < 0) then Inl Exit_Failure
      else if my_port cfg \<noteq> 0 \<and> reuse_rv e < 0 then Inl Exit_Failure
      else if bind_rv e < 0 then Inl Exit_Failure
      else Inr (fst (connect_rv e)))"

text \<open>The attempts to connect: the returned number of the last one and its socket.\<close>

fun connect_loop :: "client_cfg \<Rightarrow> connect_env list \<Rightarrow> int \<times> int \<Rightarrow> (int \<times> int) res" where
  "connect_loop cfg [] r = Inr r"
| "connect_loop cfg (e # es) r =
     rbind (try_connect cfg e) (\<lambda>rv.
       if rv = 0 \<or> rv = -1 \<and> snd (connect_rv e) = EINPROGRESS then Inr (0, socket_rv e)
       else connect_loop cfg es (rv, socket_rv e))"

fun handshake_loop :: "(int \<times> ssl_error_t) list \<Rightarrow> nat \<Rightarrow> int \<times> dw_state \<Rightarrow> int \<times> dw_state" where
  "handshake_loop [] c r = r"
| "handshake_loop ((ret, err) # hs) c (rv, s) =
     (case conn_do_ssl_handshake ret err c s of (rv', s') \<Rightarrow>
        if rv' = 1 \<or> rv' = -1 then (rv', s') else handshake_loop hs c (rv', s'))"

record session_env =
  attempts :: "connect_env list"
  allocs :: "bool \<times> bool"
  ssl_new :: "nat option"
  ssl_fd_ok :: bool
  shakes :: "(int \<times> ssl_error_t) list"

text \<open>The state of a receiver thread; \<open>outputs\<close> are the calls of \<^verbatim>\<open>output_result\<close>: send time, latency, packet and session.\<close>

record receiver_t =
  tbl :: dw_state
  r_conn_id :: int
  r_stamps :: stamps
  num_success :: int
  num_error :: int
  num_timedout :: int
  i_incr :: int
  outputs :: "(int \<times> int \<times> int \<times> int) list"

definition pkt_i :: "receiver_t \<Rightarrow> int" where
  "pkt_i r = num_success r + num_error r + num_timedout r"

datatype session_start = Connected | Skipped | Thread_Ends

text \<open>The packets of the session that are given up when it breaks.\<close>

definition skip_session :: "client_cfg \<Rightarrow> receiver_t \<Rightarrow> receiver_t" where
  "skip_session cfg r =
     (let n = int (pkts_per_session cfg) - pkt_i r mod int (pkts_per_session cfg)
      in r\<lparr>num_error := num_error r + n, i_incr := n\<rparr>)"

text \<open>The start of a session up to the point where the sender thread is created.\<close>

definition tls_session :: "session_env \<Rightarrow> nat \<Rightarrow> receiver_t \<Rightarrow> (session_start \<times> receiver_t) option" where
  "tls_session e c r =
     (case conn_enable_ssl (ssl_new e) (ssl_fd_ok e) (int c) False (tbl r) of (rv, s) \<Rightarrow>
        if rv < 0 then map_option (\<lambda>s'. (Thread_Ends, r\<lparr>tbl := s'\<rparr>)) (conn_free (int c) s)
        else case handshake_loop (take 25 (shakes e)) c (0, s) of (rv', s') \<Rightarrow>
          if rv' = 1 then Some (Connected, r\<lparr>tbl := s'\<rparr>)
          else map_option (\<lambda>s''. (Thread_Ends, r\<lparr>tbl := s''\<rparr>)) (conn_free (int c) s'))"

definition open_session :: "client_cfg \<Rightarrow> session_env \<Rightarrow> nat \<Rightarrow> receiver_t \<Rightarrow> (session_start \<times> receiver_t) res option" where
  "open_session cfg e thread_id r =
     obind (Some (connect_loop cfg (take (conn_retry_num cfg + 1) (attempts e)) (0, 0))) (\<lambda>(rv, sk).
     if rv \<noteq> 0 then Some (Inr (Skipped, skip_session cfg (r\<lparr>r_conn_id := -1\<rparr>)))
     else obind (Some (conn_alloc (fst (allocs e)) (snd (allocs e)) thread_id sk (serveraddr cfg) (client_proto cfg) (tbl r))) (\<lambda>(c, s).
       if c = -1 then Some (Inl Exit_Failure)
       else let r1 = r\<lparr>tbl := s, r_conn_id := c\<rparr> in
         if client_proto cfg = TLS then map_option Inr (tls_session e (nat c) r1)
         else Some (Inr (Connected, r1\<lparr>tbl := snd (conn_set_status_by_id (nat c) READY s)\<rparr>))))"

section \<open>Replies\<close>

text \<open>
  One pass of the loop that receives: \<open>Again\<close> when nothing was received or a long reply is not complete; then the bytes after its
  \<^verbatim>\<open>EOM\<close> are dropped and its announced size is reduced by their number. \<open>Jump\<close> is the \<^verbatim>\<open>goto skip\<close> of a reply without room for the end mark.
\<close>

datatype recv_end = Received | Again | Broken | Jump

definition cut_long_reply :: "conn_info_t \<Rightarrow> (recv_end \<times> conn_info_t) res" where
  "cut_long_reply c =
     (let m = curr_proc_buf c; msg_size = nat ((int (curr_recv_buf c) - int m) mod 2 ^ 64) in
      if msg_size > sizeof_message_t then
        rbind (the_buf (recv_buf c)) (\<lambda>b. rbind (get_cmd b (message_first_cmd m)) (\<lambda>t. rbind (get_req_size b m) (\<lambda>n.
          if t = EOM \<and> n > msg_size then
            rbind (message_end b m) (\<lambda>me. rbind (cmd_bounded_next b (message_first_cmd m) me) (\<lambda>nx. case nx of
              None \<Rightarrow> Inr (Jump, c)
            | Some p \<Rightarrow>
                let diff = int (curr_recv_buf c) - int p in
                rbind (set_req_size b m (nat ((int n - diff) mod 2 ^ 32))) (\<lambda>b'.
                  Inr (Again, c\<lparr>recv_buf := Some b', curr_recv_buf := p,
                              curr_recv_size := nat ((int (curr_recv_size c) + diff) mod 2 ^ 64)\<rparr>))))
          else Inr (Received, c))))
      else Inr (Received, c))"

definition recv_pass :: "recv_env \<Rightarrow> conn_info_t \<Rightarrow> (recv_end \<times> conn_info_t) res" where
  "recv_pass env c =
     rbind (conn_recv env c) (\<lambda>(rv, c1).
       if rv = 0 then Inr (Broken, c1)
       else rbind (cut_long_reply c1) (\<lambda>(e, c2). Inr (if e = Received \<and> rv = -1 then Again else e, c2)))"

fun recv_loop :: "recv_env list \<Rightarrow> conn_info_t \<Rightarrow> (recv_end \<times> conn_info_t) res option" where
  "recv_loop [] c = None"
| "recv_loop (env # envs) c =
     obind (Some (recv_pass env c)) (\<lambda>(e, c1). if e = Again then recv_loop envs c1 else Some (Inr (e, c1)))"

text \<open>The loop over the complete replies; the clock is read at the \<open>k\<close>-th of them.\<close>

definition count_result :: "int \<Rightarrow> receiver_t \<Rightarrow> receiver_t" where
  "count_result rv r =
     (if rv = 1 then r\<lparr>num_success := num_success r + 1, i_incr := 1\<rparr>
      else if rv = -1 then r\<lparr>num_error := num_error r + 1, i_incr := 1\<rparr>
      else r\<lparr>num_timedout := num_timedout r + 1, i_incr := 1\<rparr>)"

partial_function (option) take_replies ::
    "client_cfg \<Rightarrow> (nat \<Rightarrow> timespec) \<Rightarrow> nat \<Rightarrow> conn_info_t \<Rightarrow> receiver_t \<Rightarrow> (conn_info_t \<times> receiver_t) res option" where
  "take_replies cfg clk k c r =
     (case conn_prepare_recv_message c of
        Inl e \<Rightarrow> Some (Inl e)
      | Inr (None, c1) \<Rightarrow> Some (Inr (c1, r))
      | Inr (Some m, c1) \<Rightarrow>
          (case rbind (the_buf (recv_buf c1)) (\<lambda>b. process_reply cfg (clk k) b m (r_stamps r)) of
             Inl e \<Rightarrow> Some (Inl e)
           | Inr (rv, st) \<Rightarrow> take_replies cfg clk (Suc k) c1 (count_result rv (r\<lparr>r_stamps := st\<rparr>))))"

text \<open>The part of the round that waits for replies; \<open>pkt_i\<close> keeps the value from the start of the round.\<close>

definition receive_part :: "client_cfg \<Rightarrow> recv_env list \<Rightarrow> (nat \<Rightarrow> timespec) \<Rightarrow> receiver_t \<Rightarrow> receiver_t res option" where
  "receive_part cfg envs clk r =
     (let i = nat (r_conn_id r) in
      if r_conn_id r < 0 \<or> i \<ge> MAX_CONNS then Some (Inl Null_Deref)
      else obind (recv_loop envs (conns (tbl r) i)) (\<lambda>(e, c).
        let r1 = r\<lparr>tbl := upd_conn i (\<lambda>_. c) (tbl r)\<rparr> in
        if e = Broken then Some (Inr (skip_session cfg r1))
        else if e = Jump then Some (Inr r1)
        else obind (take_replies cfg clk 0 c r1) (\<lambda>(c', r2). Some (Inr (r2\<lparr>tbl := upd_conn i (\<lambda>_. c') (tbl r2)\<rparr>)))))"

text \<open>The end of the round at the label \<^verbatim>\<open>skip\<close>.\<close>

definition output_pkt :: "client_cfg \<Rightarrow> int \<Rightarrow> receiver_t \<Rightarrow> int \<Rightarrow> receiver_t res" where
  "output_pkt cfg sess r pkt_id =
     rbind (slot cfg pkt_id) (\<lambda>i.
       if usecs_send (r_stamps r) i \<noteq> 0
       then Inr (r\<lparr>outputs := outputs r @ [(usecs_send (r_stamps r) i, usecs_elapsed (r_stamps r) i, pkt_id, sess)]\<rparr>)
       else Inr r)"

definition session_output :: "client_cfg \<Rightarrow> int \<Rightarrow> receiver_t \<Rightarrow> receiver_t res" where
  "session_output cfg pkt r =
     (let P = pkts_per_session cfg; first = pkt + i_incr r - (int P - 1) in
      rbind (rfold (output_pkt cfg (pkt div int P)) r (map (\<lambda>j. first + int j) [0..<P])) (\<lambda>r'. Inr (r'\<lparr>r_stamps := no_stamps\<rparr>)))"

definition end_round :: "client_cfg \<Rightarrow> int \<Rightarrow> receiver_t \<Rightarrow> receiver_t res option" where
  "end_round cfg pkt r =
     (if (pkt + i_incr r) mod int (pkts_per_session cfg) = 0 then
        obind (Some (if use_per_session_output cfg then session_output cfg pkt r else Inr r)) (\<lambda>r1.
          if r_conn_id r1 \<noteq> -1
          then map_option (\<lambda>s. Inr (r1\<lparr>tbl := s, r_conn_id := -1\<rparr>)) (conn_free (r_conn_id r1) (tbl r1))
          else Some (Inr r1))
      else Some (Inr r))"

definition final_output :: "client_cfg \<Rightarrow> receiver_t \<Rightarrow> receiver_t res" where
  "final_output cfg r =
     (if use_per_session_output cfg then Inr r
      else rfold (\<lambda>r i. rbind (slot cfg i) (\<lambda>k. Inr (r\<lparr>outputs := outputs r @
             [(usecs_send (r_stamps r) k, usecs_elapsed (r_stamps r) k, i, i div int (pkts_per_session cfg))]\<rparr>)))
           r (map int [0..<num_pkts cfg]))"


text \<open>
  One round of \<^verbatim>\<open>thread_receiver\<close>: whether the thread goes on, and its state. \<open>meanwhile\<close> is what the sender thread does to the stamps and to
  the send buffer until the receive returns.
\<close>

definition receiver_round ::
    "client_cfg \<Rightarrow> nat \<Rightarrow> session_env \<Rightarrow> recv_env list \<Rightarrow> (nat \<Rightarrow> timespec) \<Rightarrow> (receiver_t \<Rightarrow> receiver_t) \<Rightarrow> receiver_t \<Rightarrow>
     (bool \<times> receiver_t) res option" where
  "receiver_round cfg thread_id senv envs clk meanwhile r =
     obind (if pkt_i r mod int (pkts_per_session cfg) = 0 then open_session cfg senv thread_id r else Some (Inr (Connected, r))) (\<lambda>(start, r1).
       if start = Thread_Ends then Some (Inr (False, r1))
       else obind (if start = Skipped then Some (Inr r1) else receive_part cfg envs clk (meanwhile r1)) (\<lambda>r2.
         obind (end_round cfg (pkt_i r) r2) (\<lambda>r3. Some (Inr (True, r3)))))"

section \<open>The whole receiver thread\<close>

text \<open>
  The outcomes of one round, and the loop of \<^verbatim>\<open>thread_receiver\<close>: whether it ended by its condition, and the state; \<open>None\<close>: it is still
  running after the given rounds.
\<close>

record round_env =
  re_session :: session_env
  re_recvs :: "recv_env list"
  re_clock :: "nat \<Rightarrow> timespec"
  re_sender :: "receiver_t \<Rightarrow> receiver_t"

fun receiver_loop :: "client_cfg \<Rightarrow> nat \<Rightarrow> round_env list \<Rightarrow> receiver_t \<Rightarrow> (bool \<times> receiver_t) res option" where
  "receiver_loop cfg thread_id [] r = (if pkt_i r < int (num_pkts cfg) then None else Some (Inr (True, r)))"
| "receiver_loop cfg thread_id (e # es) r =
     (if pkt_i r < int (num_pkts cfg) then
        obind (receiver_round cfg thread_id (re_session e) (re_recvs e) (re_clock e) (re_sender e) r) (\<lambda>(go, r').
          if go then receiver_loop cfg thread_id es r' else Some (Inr (False, r')))
      else Some (Inr (True, r)))"

definition thread_receiver :: "client_cfg \<Rightarrow> nat \<Rightarrow> round_env list \<Rightarrow> dw_state \<Rightarrow> receiver_t res option" where
  "thread_receiver cfg thread_id es s =
     obind (receiver_loop cfg thread_id es
       \<lparr>tbl = s, r_conn_id = 0, r_stamps = no_stamps, num_success = 0, num_error = 0, num_timedout = 0, i_incr = 0, outputs = []\<rparr>)
       (\<lambda>(finished, r). Some (if finished then final_output cfg r else Inr r))"

section \<open>Packet numbers and latencies\<close>

text \<open>A number rounded up to a multiple, in word arithmetic without wrap-around.\<close>

lemma round_up_word:
  fixes a b :: "'a::len word"
  assumes "0 < unat b" "unat a + unat b \<le> 2 ^ LENGTH('a)"
  shows "unat ((a + b - 1) div b) = (unat a + unat b - 1) div unat b"
    and "unat ((a + b - 1) div b * b) = (unat a + unat b - 1) div unat b * unat b"
proof -
  have "a + b - 1 = word_of_nat (unat a + unat b - 1)" using assms(1) by (simp add: of_nat_diff)
  then have "unat (a + b - 1) = (unat a + unat b - 1) mod 2 ^ LENGTH('a)" by (simp only: unat_of_nat)
  moreover have "unat a + unat b - 1 < 2 ^ LENGTH('a)" using assms by linarith
  ultimately have s: "unat (a + b - 1) = unat a + unat b - 1" by simp
  show d: "unat ((a + b - 1) div b) = (unat a + unat b - 1) div unat b" by (simp add: unat_div s)
  have "(unat a + unat b - 1) div unat b * unat b \<le> unat a + unat b - 1" by (rule div_times_less_eq_dividend)
  also have "\<dots> < 2 ^ LENGTH('a)" using assms by linarith
  finally show "unat ((a + b - 1) div b * b) = (unat a + unat b - 1) div unat b * unat b"
    by (simp only: unat_mult_lem [THEN iffD1] d unat_word_ariths(2) mod_less)
qed

lemma ceiling_multiple:
  fixes a b :: nat
  assumes "0 < b"
  shows "a \<le> (a + b - 1) div b * b" "(a + b - 1) div b * b < a + b"
proof -
  have "(a + b - 1) div b * b + (a + b - 1) mod b = a + b - 1" by simp
  moreover have "(a + b - 1) mod b < b" using assms by simp
  ultimately show "a \<le> (a + b - 1) div b * b" "(a + b - 1) div b * b < a + b" using assms by linarith+
qed

lemma i32_nat_id: "int n < 2 ^ 31 \<Longrightarrow> i32 (int n) = int n"
  by (rule i32_id) simp_all

text \<open>Settings whose packet numbers come from \<^verbatim>\<open>round_pkts\<close>.\<close>

definition settled :: "client_cfg \<Rightarrow> bool" where
  "settled cfg \<longleftrightarrow> int (num_pkts cfg) \<le> MAX_PKTS \<and> 0 < pkts_per_session cfg \<and> pkts_per_session cfg dvd num_pkts cfg"

lemma slot_settled:
  assumes "settled cfg" "pkt < num_pkts cfg"
  shows "\<exists>i. slot cfg (int pkt) = Inr i \<and> int i < MAX_PKTS \<and>
    i = (if use_per_session_output cfg then pkt mod pkts_per_session cfg else pkt)"
proof -
  let ?P = "pkts_per_session cfg"
  have p: "int pkt < 1000000" "0 < ?P" using assms by (auto simp: settled_def MAX_PKTS_def)
  then have m: "int pkt mod 2 ^ 64 = int pkt" by simp
  have le: "pkt mod ?P \<le> pkt" by (rule mod_less_eq_dividend)
  then have b: "pkt mod ?P < 1000000" using p by linarith
  then have "int (pkt mod ?P) < 2 ^ 31" by simp
  then have "i32 (int pkt mod int ?P) = int (pkt mod ?P)" by (simp only: zmod_int [symmetric] i32_nat_id)
  then show ?thesis using p m b by (auto simp: slot_def idx_def MAX_PKTS_def Let_def simp del: of_nat_mod)
qed

text \<open>The end of the options: when the sum does not wrap around, the number of packets is rounded up to the next multiple of the number of
  sessions, and accepted settings keep every packet number within the arrays of time stamps.
\<close>

theorem pkts_rounded:
  fixes num ns :: u64
  assumes "0 < unat ns" "unat num + unat ns \<le> 2 ^ 64"
  shows "\<exists>n p. unat n = unat p * unat ns \<and> unat num \<le> unat n \<and> unat n < unat num + unat ns \<and>
    round_pkts ps num ns = (if 1000000 < unat n then Inl Exit_Failure else Inr (n, p)) \<and>
    (\<forall>cfg pkt. unat n \<le> 1000000 \<and> num_pkts cfg = unat n \<and> pkts_per_session cfg = unat p \<and> pkt < unat n \<longrightarrow>
      (\<exists>i. slot cfg (int pkt) = Inr i \<and> int i < MAX_PKTS))"
proof -
  let ?n = "(num + ns - 1) div ns * ns" and ?p = "(num + ns - 1) div ns"
  have u: "unat ?p = (unat num + unat ns - 1) div unat ns" "unat ?n = (unat num + unat ns - 1) div unat ns * unat ns"
    using round_up_word [of ns num] assms by simp_all
  have c: "unat num \<le> unat ?n" "unat ?n < unat num + unat ns" "unat ?n = unat ?p * unat ns"
    using ceiling_multiple [OF assms(1), of "unat num"] u by simp_all
  have pp: "?n div ns = ?p"
    by (rule word_unat_eq_iff [THEN iffD2]) (use u assms(1) in \<open>simp add: unat_div\<close>)
  have lt: "(w > word_of_int MAX_PKTS) = (1000000 < unat w)" for w :: u64
    by (simp add: word_less_nat_alt MAX_PKTS_def)
  have ns0: "ns \<noteq> 0" using assms(1) by auto
  have "unat ?p \<le> unat ?n" using c(3) assms(1) by simp
  then have r: "round_pkts ps num ns = (if 1000000 < unat ?n then Inl Exit_Failure else Inr (?n, ?p))"
    using ns0 by (auto simp: round_pkts_def Let_def pp lt)
  have acc: "\<exists>i. slot cfg (int pkt) = Inr i \<and> int i < MAX_PKTS"
    if "unat ?n \<le> 1000000" "num_pkts cfg = unat ?n" "pkts_per_session cfg = unat ?p" "pkt < unat ?n" for cfg pkt
  proof -
    have "0 < pkts_per_session cfg" using that(3,4) c(3) by (auto intro: gr_zeroI)
    moreover have "num_pkts cfg \<le> 1000000" using that(1,2) by (simp only:)
    moreover have "pkts_per_session cfg dvd num_pkts cfg" using that(2,3) c(3) by (metis dvd_triv_left)
    ultimately have "settled cfg" by (simp add: settled_def MAX_PKTS_def)
    then show ?thesis using slot_settled [of cfg pkt] that by auto
  qed
  show ?thesis using c r acc by (intro exI [of _ ?n] exI [of _ ?p]) blast
qed

text \<open>1000 packets over 3 sessions.\<close>

theorem pkts_rounded_witness:
  "unat (3 :: u64) = 3 \<and> (\<exists>n p. unat n = unat p * 3 \<and> 1000 \<le> unat n \<and> unat n < 1003 \<and> round_pkts True 1000 3 = Inr (n, p))"
proof -
  have a: "0 < unat (3 :: u64)" "unat (1000 :: u64) + unat (3 :: u64) \<le> 2 ^ 64" by simp_all
  obtain n p where "unat n = unat p * unat (3 :: u64)" "unat (1000 :: u64) \<le> unat n" "unat n < unat (1000 :: u64) + unat (3 :: u64)"
    "round_pkts True 1000 3 = (if 1000000 < unat n then Inl Exit_Failure else Inr (n, p))"
    using pkts_rounded [OF a, of True] by blast
  then show ?thesis by (intro conjI exI [of _ n] exI [of _ p]) auto
qed


text \<open>The stamp of a reply and the stamp of a request against the time that the clock readings denote.\<close>

lemma sdiv_1000_bounds: "x - 1000 < (x sdiv 1000) * 1000" "(x sdiv 1000) * 1000 < x + 1000" for x :: int
proof -
  have "x sdiv 1000 * 1000 + x smod 1000 = x" by (rule sdiv_mult_smod_eq)
  moreover have "\<bar>x smod 1000\<bar> < 1000" by (simp add: smod_int_alt_def abs_mult)
  ultimately show "x - 1000 < (x sdiv 1000) * 1000" "(x sdiv 1000) * 1000 < x + 1000" by linarith+
qed

lemma reply_time_bounds:
  fixes cfg t
  defines "d \<equiv> ts_ns t - ts_ns (ts_start cfg)"
  shows "use_nano cfg \<Longrightarrow> reply_time cfg t = d"
    and "\<not> use_nano cfg \<Longrightarrow> d - 1000 < reply_time cfg t * 1000 \<and> reply_time cfg t * 1000 < d + 1000"
  using sdiv_1000_bounds [of "tv_nsec t - tv_nsec (ts_start cfg)"] unfolding d_def
  by (auto simp: reply_time_def ts_ns_def algebra_simps)

lemma send_stamp_bounds:
  assumes "ts_norm t" "ts_norm (ts_start cfg)"
  defines "d \<equiv> ts_ns t - ts_ns (ts_start cfg)"
  shows "ts_sub_us t (ts_start cfg) * 1000 \<le> d" "d - 1000 < ts_sub_us t (ts_start cfg) * 1000"
proof -
  have "d div 1000 * 1000 + d mod 1000 = d" "0 \<le> d mod 1000" "d mod 1000 < 1000" by simp_all
  then show "ts_sub_us t (ts_start cfg) * 1000 \<le> d" "d - 1000 < ts_sub_us t (ts_start cfg) * 1000"
    using ts_sub_us_eq [OF assms(1,2)] unfolding d_def [symmetric] by simp_all
qed

lemma i64_id: "- (2 ^ 63) \<le> x \<Longrightarrow> x < 2 ^ 63 \<Longrightarrow> i64 x = x"
  by (simp add: i64_def signed_take_bit_int_eq_self)

text \<open>C13. The recorded latency of a request: the sender stamps the request of an accepted packet number, and the reply with the same number and
  status success stores the time between the two clock readings, exactly in nanoseconds with \<^verbatim>\<open>--nanoseconds\<close>, and otherwise in
  microseconds with an error below one microsecond downwards and two upwards; it is never negative, and no other latency changes.
\<close>

theorem latency_recorded:
  assumes "settled cfg" "pkt < num_pkts cfg" "get_req_id b m = Inr pkt" "get_status b m = Inr (nat_of_status SUCCESS)"
    and "ts_norm t1" "ts_norm (ts_start cfg)" "ts_ns t1 \<le> ts_ns t2" "ts_ns t2 - ts_ns t1 < 2 ^ 62"
  shows "\<exists>i st1. slot cfg (int pkt) = Inr i \<and> stamp_send cfg t1 (int pkt) st = Inr st1 \<and> usecs_elapsed st1 i = 0 \<and>
    (\<forall>st'. usecs_send st' i = usecs_send st1 i \<longrightarrow>
      (\<exists>l. process_reply cfg t2 b m st' = Inr (1, st'\<lparr>usecs_elapsed := (usecs_elapsed st')(i := l)\<rparr>) \<and> 0 \<le> l \<and>
        (if use_nano cfg then l = ts_ns t2 - ts_ns t1
         else ts_ns t2 - ts_ns t1 - 1000 < l * 1000 \<and> l * 1000 < ts_ns t2 - ts_ns t1 + 2000)))"
proof -
  let ?s = "ts_start cfg"
  obtain i where i: "slot cfg (int pkt) = Inr i" using slot_settled [OF assms(1,2)] by blast
  have p: "i32 (int pkt) = int pkt" using assms(1,2) by (intro i32_nat_id) (simp add: settled_def MAX_PKTS_def)
  define sent where "sent = (if use_nano cfg then ts_sub_ns t1 ?s else ts_sub_us t1 ?s)"
  define l where "l = reply_time cfg t2 - sent"
  have b: "if use_nano cfg then l = ts_ns t2 - ts_ns t1
    else ts_ns t2 - ts_ns t1 - 1000 < l * 1000 \<and> l * 1000 < ts_ns t2 - ts_ns t1 + 2000"
    using reply_time_bounds [of cfg t2] send_stamp_bounds [OF assms(5,6)]
    by (auto simp: l_def sent_def ts_sub_ns_eq)
  then have z: "0 \<le> l" "l < 2 ^ 62 + 2000" using assms(7,8) by (auto split: if_splits)
  then have "i64 l = l" by (intro i64_id) simp_all
  then have r: "process_reply cfg t2 b m st' = Inr (1, st'\<lparr>usecs_elapsed := (usecs_elapsed st')(i := l)\<rparr>)"
    if "usecs_send st' i = sent" for st' using that i p assms(3,4) by (simp add: process_reply_def l_def)
  show ?thesis using i r b z(1)
    by (intro exI [of _ i] exI [of _ "\<lparr>usecs_send = (usecs_send st)(i := sent), usecs_elapsed = (usecs_elapsed st)(i := 0)\<rparr>"]
        conjI allI impI exI [of _ l]) (simp_all add: stamp_send_def sent_def)
qed


text \<open>A reply sent at 0.5 microseconds after the start and received 2.5 microseconds later, in a new second.\<close>

definition sample_cfg :: client_cfg where
  "sample_cfg = \<lparr>use_per_session_output = True, use_nano = False, use_wait_spinning = False, ramp_step_secs = 0, num_pkts = 4,
     pkts_per_session = 2, conn_retry_num = 0, client_proto = TCP, serveraddr = \<lparr>sin_addr = 0, sin_port = 0\<rparr>, my_port = 0,
     ts_start = \<lparr>tv_sec = 0, tv_nsec = 999999000\<rparr>, cl_libm = no_libm\<rparr>"

lemma settled_sample: "settled sample_cfg"
  by (simp add: settled_def sample_cfg_def MAX_PKTS_def)

theorem latency_recorded_witness:
  "\<exists>st2. process_reply sample_cfg \<lparr>tv_sec = 1, tv_nsec = 2000\<rparr> (replicate 12 0) 0
     \<lparr>usecs_send = \<lambda>_. ts_sub_us \<lparr>tv_sec = 0, tv_nsec = 999999500\<rparr> (ts_start sample_cfg), usecs_elapsed = \<lambda>_. 0\<rparr> = Inr (1, st2) \<and>
     0 \<le> usecs_elapsed st2 0 \<and> usecs_elapsed st2 0 \<le> 4"
proof -
  let ?t1 = "\<lparr>tv_sec = 0, tv_nsec = 999999500\<rparr>" and ?t2 = "\<lparr>tv_sec = 1, tv_nsec = 2000\<rparr>"
  let ?st = "\<lparr>usecs_send = \<lambda>_. ts_sub_us ?t1 (ts_start sample_cfg), usecs_elapsed = \<lambda>_. 0\<rparr>"
  have h: "0 < num_pkts sample_cfg" "get_req_id (replicate 12 0) 0 = Inr 0"
    "get_status (replicate 12 0) 0 = Inr (nat_of_status SUCCESS)" "ts_norm ?t1" "ts_norm (ts_start sample_cfg)"
    "ts_ns ?t1 \<le> ts_ns ?t2" "ts_ns ?t2 - ts_ns ?t1 < 2 ^ 62"
    by (simp_all add: sample_cfg_def get_req_id_def get_status_def rd_def slice_def numeral_eq_Suc ts_norm_def ts_ns_def)
  obtain i st1 where i: "slot sample_cfg 0 = Inr i" "stamp_send sample_cfg ?t1 0 no_stamps = Inr st1"
      "usecs_send st' i = usecs_send st1 i \<Longrightarrow>
       \<exists>l. process_reply sample_cfg ?t2 (replicate 12 0) 0 st' = Inr (1, st'\<lparr>usecs_elapsed := (usecs_elapsed st')(i := l)\<rparr>) \<and> 0 \<le> l \<and>
         (if use_nano sample_cfg then l = ts_ns ?t2 - ts_ns ?t1
          else ts_ns ?t2 - ts_ns ?t1 - 1000 < l * 1000 \<and> l * 1000 < ts_ns ?t2 - ts_ns ?t1 + 2000)" for st'
    using latency_recorded [OF settled_sample h, of no_stamps] by auto
  have i0: "i = 0" using i(1) by (simp add: slot_def idx_def sample_cfg_def i32_def MAX_PKTS_def)
  have "usecs_send ?st i = usecs_send st1 i" using i(1,2) by (auto simp: stamp_send_def sample_cfg_def)
  from i(3) [OF this] show ?thesis by (auto simp: i0 sample_cfg_def ts_ns_def)
qed

section \<open>Taking replies\<close>

definition reply_id :: "bytes \<Rightarrow> nat" where "reply_id msg = le_nat (take 4 msg)"
definition reply_status :: "bytes \<Rightarrow> nat" where "reply_status msg = le_nat (take 4 (drop 8 msg))"

text \<open>A complete message with the number of an accepted packet.\<close>

definition whole_reply :: "client_cfg \<Rightarrow> bytes \<Rightarrow> bool" where
  "whole_reply cfg msg \<longleftrightarrow> 12 \<le> length msg \<and> msg_len msg = length msg \<and> reply_id msg < num_pkts cfg"

text \<open>The number that \<^verbatim>\<open>process_reply\<close> returns, by the status of the message.\<close>

definition verdict :: "bytes \<Rightarrow> int" where
  "verdict msg = (if reply_status msg = nat_of_status SUCCESS then 1 else if reply_status msg = nat_of_status ERR then -1 else -2)"

lemma header_reads:
  assumes "conn_inv c" "unproc c = msg @ rest" "12 \<le> length msg"
  shows "get_req_id (the (recv_buf c)) (curr_proc_buf c) = Inr (reply_id msg)"
    "get_status (the (recv_buf c)) (curr_proc_buf c) = Inr (reply_status msg)" "recv_buf c = Some (the (recv_buf c))"
  using unproc_rd [OF assms(1,2), of 0 4] unproc_rd [OF assms(1,2), of 8 4] assms(1,3)
  by (auto simp: get_req_id_def get_status_def rd_ok reply_id_def reply_status_def elim: conn_invE)

lemma process_reply_verdict:
  assumes "settled cfg" "get_req_id b m = Inr (reply_id msg)" "get_status b m = Inr (reply_status msg)" "reply_id msg < num_pkts cfg"
  shows "\<exists>st'. process_reply cfg t b m st = Inr (verdict msg, st') \<and> usecs_send st' = usecs_send st"
proof -
  have "i32 (int (reply_id msg)) = int (reply_id msg)"
    using assms(1,4) by (intro i32_nat_id) (simp add: settled_def MAX_PKTS_def)
  then show ?thesis using assms slot_settled [OF assms(1,4)] by (auto simp: process_reply_def verdict_def)
qed

definition tallied :: "bytes list \<Rightarrow> receiver_t \<Rightarrow> receiver_t \<Rightarrow> bool" where
  "tallied msgs r r' \<longleftrightarrow>
     num_success r' = num_success r + int (length (filter (\<lambda>m. verdict m = 1) msgs)) \<and>
     num_error r' = num_error r + int (length (filter (\<lambda>m. verdict m = -1) msgs)) \<and>
     num_timedout r' = num_timedout r + int (length (filter (\<lambda>m. verdict m = -2) msgs)) \<and>
     (msgs \<noteq> [] \<longrightarrow> i_incr r' = 1) \<and> (msgs = [] \<longrightarrow> i_incr r' = i_incr r) \<and>
     tbl r' = tbl r \<and> r_conn_id r' = r_conn_id r \<and> outputs r' = outputs r \<and> usecs_send (r_stamps r') = usecs_send (r_stamps r)"

lemma take_replies_stream:
  assumes "settled cfg" "conn_inv c" "unproc c = concat msgs @ rest" "\<forall>m \<in> set msgs. whole_reply cfg m" "incomplete rest"
  shows "\<exists>c' r'. take_replies cfg clk k c r = Some (Inr (c', r')) \<and> conn_inv c' \<and> unproc c' = rest \<and>
    curr_recv_size c' = curr_recv_size c \<and> req_list c' = req_list c \<and> tallied msgs r r'"
  using assms(2-4)
proof (induction msgs arbitrary: c k r)
  case Nil
  then have "conn_prepare_recv_message c = Inr (None, c)"
    using prepare_recv_eq [OF Nil(1)] assms(5) by (simp add: incomplete_def)
  then have "take_replies cfg clk k c r = Some (Inr (c, r))" by (subst take_replies.simps) simp
  then show ?case using Nil by (auto simp: tallied_def)
next
  case (Cons msg msgs)
  have w: "12 \<le> length msg" "msg_len msg = length msg" "reply_id msg < num_pkts cfg" using Cons.prems(3) by (auto simp: whole_reply_def)
  have u: "unproc c = msg @ (concat msgs @ rest)" using Cons.prems(2) by simp
  have ml: "msg_len (unproc c) = length msg" using w u by (simp add: msg_len_def)
  let ?c = "c\<lparr>curr_proc_buf := curr_proc_buf c + length msg\<rparr>"
  have pr: "conn_prepare_recv_message c = Inr (Some (curr_proc_buf c), ?c)"
    using prepare_recv_eq [OF Cons.prems(1)] w u ml by simp
  have c: "conn_inv ?c" "unproc ?c = concat msgs @ rest" using prepare_recv_advance [OF Cons.prems(1)] ml u by auto
  obtain st where st: "process_reply cfg (clk k) (the (recv_buf c)) (curr_proc_buf c) (r_stamps r) = Inr (verdict msg, st)"
      "usecs_send st = usecs_send (r_stamps r)"
    using process_reply_verdict [OF assms(1) header_reads(1,2) [OF Cons.prems(1) u w(1)] w(3)] by blast
  let ?r = "count_result (verdict msg) (r\<lparr>r_stamps := st\<rparr>)"
  have "take_replies cfg clk k c r = take_replies cfg clk (Suc k) ?c ?r"
    using pr st(1) header_reads(3) [OF Cons.prems(1) u w(1)]
    by (subst take_replies.simps) (cases "recv_buf c", simp_all add: the_buf_def)
  moreover obtain c' r' where "take_replies cfg clk (Suc k) ?c ?r = Some (Inr (c', r'))" "conn_inv c'" "unproc c' = rest"
      "curr_recv_size c' = curr_recv_size ?c" "req_list c' = req_list ?c" "tallied msgs ?r r'"
    using Cons.IH [OF c, of "Suc k" ?r] Cons.prems(3) by auto
  moreover have "tallied (msg # msgs) r r'" using \<open>tallied msgs ?r r'\<close> st(2)
    by (auto simp: tallied_def count_result_def verdict_def split: if_splits)
  ultimately show ?case by auto
qed


text \<open>
  \<open>arrives cfg env c msgs rest\<close>: a receive on the connection \<open>c\<close> completes the replies \<open>msgs\<close> and leaves the first bytes \<open>rest\<close> of a
  further one.
\<close>

definition arrives :: "client_cfg \<Rightarrow> recv_env \<Rightarrow> conn_info_t \<Rightarrow> bytes list \<Rightarrow> bytes \<Rightarrow> bool" where
  "arrives cfg env c msgs rest \<longleftrightarrow>
     conn_inv c \<and> \<not> use_ssl c \<and> recv_env_ok env c \<and> 0 < fst (recvfrom_res env) \<and>
     unproc c @ recv_data env = concat msgs @ rest \<and> msgs \<noteq> [] \<and> 16 \<le> length (hd msgs) \<and>
     (\<forall>m \<in> set msgs. whole_reply cfg m) \<and> incomplete rest"

lemma cut_whole_reply:
  assumes "conn_inv c" "unproc c = msg @ rest" "16 \<le> length msg" "msg_len msg = length msg"
  shows "cut_long_reply c = Inr (Received, c)"
proof -
  obtain rb where rb: "recv_buf c = Some rb" "length rb = BUF_SIZE" "curr_proc_buf c \<le> curr_recv_buf c"
      "curr_recv_buf c + curr_recv_size c = BUF_SIZE"
    using assms(1) by (rule conn_invE)
  let ?p = "curr_proc_buf c" and ?n = "curr_recv_buf c - curr_proc_buf c"
  have u: "msg @ rest = take ?n (drop ?p rb)" using assms(2) rb(1) by (simp add: unproc_def)
  have len: "length msg \<le> ?n" using arg_cong [OF u, of length] by simp
  have sz: "nat ((int (curr_recv_buf c) - int ?p) mod 2 ^ 64) = ?n"
    using rb by (simp add: BUF_SIZE_def flip: of_nat_diff)
  have "take 4 (drop 4 (msg @ rest)) = take 4 (drop 4 (drop ?p rb))"
    using len assms(3) unfolding u by (simp add: drop_take min_def)
  then have g: "get_req_size rb ?p = Inr (length msg)"
    using assms(3,4) rb len by (simp add: get_req_size_def rd_ok msg_len_def add.commute)
  have "\<exists>t. get_cmd rb (message_first_cmd ?p) = Inr t"
    using rb len assms(3) by (simp add: get_cmd_def rd_ok message_first_cmd_def sizeof_defs)
  then show ?thesis using g sz rb(1) len by (auto simp: cut_long_reply_def Let_def the_buf_def)
qed

lemma receive_arrives:
  assumes "settled cfg" "r_conn_id r = int i" "i < MAX_CONNS" "arrives cfg env (conns (tbl r) i) msgs rest"
  shows "\<exists>r2 c. receive_part cfg (env # envs) clk r = Some (Inr (r2\<lparr>tbl := upd_conn i (\<lambda>_. c) (tbl r)\<rparr>)) \<and>
    tallied msgs (r\<lparr>tbl := tbl r2\<rparr>) r2 \<and> conn_inv c \<and> unproc c = rest \<and>
    curr_recv_size c + length (recv_data env) = curr_recv_size (conns (tbl r) i) \<and> req_list c = req_list (conns (tbl r) i)"
proof -
  let ?c = "conns (tbl r) i"
  obtain msg ms where ms: "msgs = msg # ms" using assms(4) by (cases msgs) (auto simp: arrives_def)
  have a: "unproc ?c @ recv_data env = msg @ (concat ms @ rest)" "16 \<le> length msg" "msg_len msg = length msg"
    using assms(4) ms by (auto simp: arrives_def whole_reply_def)
  obtain c1 where c1: "conn_recv env ?c = Inr (1, c1)" "conn_inv c1" "unproc c1 = unproc ?c @ recv_data env"
      "curr_recv_size c1 + length (recv_data env) = curr_recv_size ?c" "req_list c1 = req_list ?c"
    using conn_recv_bytes [of ?c env] assms(4) by (auto simp: arrives_def)
  have "cut_long_reply c1 = Inr (Received, c1)" using cut_whole_reply [OF c1(2) _ a(2,3)] c1(3) a(1) by simp
  then have rp: "recv_loop (env # envs) ?c = Some (Inr (Received, c1))" using c1(1) by (simp add: recv_pass_def obind_def)
  let ?r1 = "r\<lparr>tbl := upd_conn i (\<lambda>_. c1) (tbl r)\<rparr>"
  obtain c2 r2 where t: "take_replies cfg clk 0 c1 ?r1 = Some (Inr (c2, r2))" "conn_inv c2" "unproc c2 = rest"
      "curr_recv_size c2 = curr_recv_size c1" "tallied msgs ?r1 r2" "req_list c2 = req_list c1"
    using take_replies_stream [OF assms(1) c1(2), of msgs rest clk 0 ?r1] c1(3) assms(4) by (auto simp: arrives_def)
  have "tbl r2 = upd_conn i (\<lambda>_. c1) (tbl r)" using t(5) by (simp add: tallied_def)
  moreover from this have "upd_conn i (\<lambda>_. c2) (tbl r2) = upd_conn i (\<lambda>_. c2) (tbl r)" by (simp add: upd_conn_def)
  moreover have "receive_part cfg (env # envs) clk r = Some (Inr (r2\<lparr>tbl := upd_conn i (\<lambda>_. c2) (tbl r2)\<rparr>))"
    using rp t(1) assms(2,3) by (simp add: receive_part_def obind_def Let_def)
  ultimately show ?thesis using t c1(4,5) by (intro exI [of _ r2] exI [of _ c2]) (auto simp: tallied_def)
qed

lemma tallied_pkt_i:
  assumes "tallied msgs r r'"
  shows "pkt_i r' = pkt_i r + int (length msgs)"
proof -
  have "int (length msgs) = int (length (filter (\<lambda>m. verdict m = 1) msgs)) + int (length (filter (\<lambda>m. verdict m = -1) msgs)) +
      int (length (filter (\<lambda>m. verdict m = -2) msgs))"
    by (induction msgs) (auto simp: verdict_def)
  then show ?thesis using assms by (simp add: tallied_def pkt_i_def)
qed

text \<open>C14. The replies that a receive completes are taken one by one, each counted once by its status, however the stream was cut
  into receives; the bytes of an incomplete further reply are left for the next round. The room in the receive buffer shrinks by
  all bytes received: taking replies does not give any of it back.
\<close>

theorem replies_counted:
  assumes "settled cfg" "r_conn_id r = int i" "i < MAX_CONNS" "arrives cfg env (conns (tbl r) i) msgs rest"
  shows "\<exists>r'. receive_part cfg (env # envs) clk r = Some (Inr r') \<and> pkt_i r' = pkt_i r + int (length msgs) \<and>
    num_success r' = num_success r + int (length (filter (\<lambda>m. reply_status m = nat_of_status SUCCESS) msgs)) \<and>
    num_error r' = num_error r + int (length (filter (\<lambda>m. reply_status m = nat_of_status ERR) msgs)) \<and>
    unproc (conns (tbl r') i) = rest \<and>
    curr_recv_size (conns (tbl r') i) + length (recv_data env) = curr_recv_size (conns (tbl r) i)"
proof -
  obtain r2 c where r: "receive_part cfg (env # envs) clk r = Some (Inr (r2\<lparr>tbl := upd_conn i (\<lambda>_. c) (tbl r)\<rparr>))"
      "tallied msgs (r\<lparr>tbl := tbl r2\<rparr>) r2" "unproc c = rest"
      "curr_recv_size c + length (recv_data env) = curr_recv_size (conns (tbl r) i)"
    using receive_arrives [OF assms, of envs clk] by blast
  have v: "(verdict m = 1) = (reply_status m = nat_of_status SUCCESS)" "(verdict m = -1) = (reply_status m = nat_of_status ERR)" for m
    by (simp_all add: verdict_def)
  show ?thesis using r tallied_pkt_i [OF r(2)]
    by (intro exI [of _ "r2\<lparr>tbl := upd_conn i (\<lambda>_. c) (tbl r)\<rparr>"]) (auto simp: tallied_def v pkt_i_def upd_conn_def)
qed


text \<open>The end of a session is missed when its last two or more replies arrive together: the round adds one to the packet number from
  before the replies, so the test for the end of a session fails although the session is complete, and the socket, the
  connection and the sender thread are neither closed nor joined.
\<close>

theorem session_end_missed:
  assumes "settled cfg" "r_conn_id r = int i" "i < MAX_CONNS" "arrives cfg env (conns (tbl r) i) msgs rest"
    and "2 \<le> length msgs" "length msgs \<le> pkts_per_session cfg" "(pkt_i r + int (length msgs)) mod int (pkts_per_session cfg) = 0"
  shows "\<exists>r'. receive_part cfg (env # envs) clk r = Some (Inr r') \<and> pkt_i r' mod int (pkts_per_session cfg) = 0 \<and>
    end_round cfg (pkt_i r) r' = Some (Inr r') \<and> r_conn_id r' = int i"
proof -
  let ?P = "int (pkts_per_session cfg)" and ?n = "int (length msgs)"
  obtain r2 c where r: "receive_part cfg (env # envs) clk r = Some (Inr (r2\<lparr>tbl := upd_conn i (\<lambda>_. c) (tbl r)\<rparr>))"
      "tallied msgs (r\<lparr>tbl := tbl r2\<rparr>) r2"
    using receive_arrives [OF assms(1-4), of envs clk] by blast
  have i: "i_incr r2 = 1" "r_conn_id r2 = int i" using r(2) assms(2,5) by (auto simp: tallied_def)
  have p: "pkt_i r2 = pkt_i r + ?n" using tallied_pkt_i [OF r(2)] by (simp add: pkt_i_def)
  have "(pkt_i r + 1) mod ?P \<noteq> 0"
  proof
    assume "(pkt_i r + 1) mod ?P = 0"
    then have "?P dvd (pkt_i r + ?n) - (pkt_i r + 1)" using assms(7) by (metis dvd_diff mod_0_imp_dvd)
    then have "?P dvd ?n - 1" by simp
    then have "?P \<le> ?n - 1" using assms(5) by (intro zdvd_imp_le) simp_all
    then show False using assms(6) by simp
  qed
  then show ?thesis using r(1) i p assms(7)
    by (intro exI [of _ "r2\<lparr>tbl := upd_conn i (\<lambda>_. c) (tbl r)\<rparr>"]) (simp add: end_round_def pkt_i_def)
qed

text \<open>When the bytes received in a session fill the receive buffer, the session is broken: the kernel is asked for zero bytes, and what it
  answers (whenever it does not ask to try again) is taken for the end of the stream. All requests of the session that have no reply yet are counted as errors.
\<close>

theorem reply_buffer_exhausted:
  assumes "r_conn_id r = int i" "i < MAX_CONNS" "conn_inv (conns (tbl r) i)" "\<not> use_ssl (conns (tbl r) i)"
    and "curr_recv_size (conns (tbl r) i) = 0" "unproc (conns (tbl r) i) = []"
    and "\<forall>env \<in> set envs. recv_env_ok env (conns (tbl r) i)" "\<exists>env \<in> set envs. recvfrom_res env \<noteq> (-1, EAGAIN)"
  shows "\<exists>c. receive_part cfg envs clk r = Some (Inr (skip_session cfg (r\<lparr>tbl := upd_conn i (\<lambda>_. c) (tbl r)\<rparr>)))"
proof -
  have "\<exists>c'. recv_loop envs c = Some (Inr (Broken, c'))"
    if "conn_inv c" "\<not> use_ssl c" "curr_recv_size c = 0" "unproc c = []" "\<forall>env \<in> set envs. recv_env_ok env c"
      "\<exists>env \<in> set envs. recvfrom_res env \<noteq> (-1, EAGAIN)" for c
    using that
  proof (induction envs arbitrary: c)
    case Nil
    then show ?case by simp
  next
    case (Cons env envs)
    obtain n e where e: "recvfrom_res env = (n, e)" by force
    let ?c = "c\<lparr>target := recv_from env\<rparr>"
    have n: "n = 0 \<or> n = -1" using Cons.prems(2,3,5) e by (auto simp: recv_env_ok_def)
    have z: "curr_recv_buf c = curr_proc_buf c"
      using length_unproc [OF Cons.prems(1)] Cons.prems(1,4) by (auto elim: conn_invE)
    have ok: "\<forall>env \<in> set envs. recv_env_ok env ?c" using Cons.prems(5) by (auto simp: recv_env_ok_def)
    show ?case
    proof (cases "n = -1 \<and> e = EAGAIN")
      case True
      then have "recv_loop (env # envs) c = recv_loop envs ?c"
        using e z Cons.prems(2) by (simp add: recv_pass_def conn_recv_def cut_long_reply_def sizeof_defs obind_def)
      then show ?thesis using Cons.IH [of ?c] Cons.prems ok True e by simp
    next
      case False
      then have "recv_loop (env # envs) c = Some (Inr (Broken, ?c))"
        using e n Cons.prems(2) by (auto simp: recv_pass_def conn_recv_def obind_def)
      then show ?thesis by blast
    qed
  qed
  from this [OF assms(3-8)] show ?thesis using assms(1,2) by (auto simp: receive_part_def obind_def Let_def)
qed

section \<open>Output of a session\<close>

lemma slot_per_session:
  assumes "use_per_session_output cfg" "0 < pkts_per_session cfg" "int (pkts_per_session cfg) \<le> MAX_PKTS" "0 \<le> pkt" "pkt < 2 ^ 64"
  shows "slot cfg pkt = Inr (nat (pkt mod int (pkts_per_session cfg)))"
proof -
  let ?P = "int (pkts_per_session cfg)"
  have m: "0 \<le> pkt mod ?P" "pkt mod ?P < ?P" using assms(2) by simp_all
  then have "i32 (pkt mod ?P) = pkt mod ?P" using assms(3) by (intro i32_id) (auto simp: MAX_PKTS_def)
  then show ?thesis using assms m by (auto simp: slot_def idx_def MAX_PKTS_def Let_def)
qed

lemma map_shift_upt: "map (\<lambda>j. g (Suc j)) [0..<Suc q] = map g [1..<Suc q] @ [g (Suc q)]"
  by (induction q) auto

lemma output_all:
  assumes "\<forall>p \<in> set ps. slot cfg p = Inr (f p) \<and> usecs_send (r_stamps r) (f p) \<noteq> 0"
  shows "rfold (output_pkt cfg sess) r ps =
    Inr (r\<lparr>outputs := outputs r @ map (\<lambda>p. (usecs_send (r_stamps r) (f p), usecs_elapsed (r_stamps r) (f p), p, sess)) ps\<rparr>)"
  using assms by (induction ps arbitrary: r) (auto simp: output_pkt_def)

text \<open>With per-session output, the first packet of a session is reported last and under the number of the first packet of the next
  session: the numbers run from the second packet of the session to one past its last.
\<close>

theorem session_output_shifted:
  assumes "settled cfg" "use_per_session_output cfg" "i_incr r = 1" "k < num_pkts cfg div pkts_per_session cfg"
    and "pkt = int (k * pkts_per_session cfg + (pkts_per_session cfg - 1))"
    and "\<forall>j < pkts_per_session cfg. usecs_send (r_stamps r) j \<noteq> 0"
  shows "\<exists>r'. session_output cfg pkt r = Inr r' \<and> r_stamps r' = no_stamps \<and>
    outputs r' = outputs r @ map (\<lambda>j. (usecs_send (r_stamps r) j, usecs_elapsed (r_stamps r) j, int (k * pkts_per_session cfg + j), int k))
        [1..<pkts_per_session cfg] @
      [(usecs_send (r_stamps r) 0, usecs_elapsed (r_stamps r) 0, int ((k + 1) * pkts_per_session cfg), int k)]"
proof -
  let ?P = "pkts_per_session cfg" and ?st = "r_stamps r"
  have "(k + 1) * ?P \<le> num_pkts cfg div ?P * ?P" using assms(4) by (intro mult_le_mono1) simp
  then have kp: "k * ?P + ?P \<le> num_pkts cfg" using assms(1) by (simp add: settled_def)
  then have P: "0 < ?P" "int ?P \<le> MAX_PKTS" "int (num_pkts cfg) \<le> 1000000"
    using assms(1) by (auto simp: settled_def MAX_PKTS_def)
  define f where "f p = nat (p mod int ?P)" for p
  let ?ps = "map (\<lambda>j. pkt + 1 - (int ?P - 1) + int j) [0..<?P]"
  have ps: "?ps = map (\<lambda>j. int (k * ?P + j)) [1..<?P] @ [int ((k + 1) * ?P)]"
  proof -
    obtain q where q: "?P = Suc q" using P(1) by (cases ?P) auto
    have "?ps = map (\<lambda>j. int (k * ?P + Suc j)) [0..<Suc q]" using assms(5) q by simp
    also have "\<dots> = map (\<lambda>j. int (k * ?P + j)) [1..<?P] @ [int (k * ?P + ?P)]" 
      unfolding q by (rule map_shift_upt)
    also have "k * ?P + ?P = (k + 1) * ?P" by simp
    finally show ?thesis .
  qed
  have s: "slot cfg p = Inr (f p) \<and> usecs_send ?st (f p) \<noteq> 0" if "p \<in> set ?ps" for p
  proof -
    obtain x where x: "p = int x" "x \<le> num_pkts cfg"
    proof (cases "p = int ((k + 1) * ?P)")
      case True
      then show thesis using kp by (intro that [of "(k + 1) * ?P"]) simp_all
    next
      case False
      then obtain j where "p = int (k * ?P + j)" "j < ?P" using \<open>p \<in> set ?ps\<close> unfolding ps by auto
      then show thesis using kp by (intro that [of "k * ?P + j"]) simp_all
    qed
    then have p: "0 \<le> p" "p < 2 ^ 64" using P(3) by simp_all
    have "f p < ?P" using P(1) by (simp add: f_def nat_less_iff)
    then show ?thesis using slot_per_session [OF assms(2) P(1,2) p] assms(6) by (simp add: f_def)
  qed
  have "(k * ?P + (?P - 1)) div ?P = k" using P(1) by (subst div_mult_self3) simp_all
  then have "pkt div int ?P = int k" unfolding assms(5) by (simp only: zdiv_int [symmetric])
  then have "session_output cfg pkt r = Inr (r\<lparr>outputs := outputs r @ map (\<lambda>p. (usecs_send ?st (f p), usecs_elapsed ?st (f p), p, int k)) ?ps,
      r_stamps := no_stamps\<rparr>)"
    using output_all [of ?ps cfg f r "int k"] s assms(3) by (simp add: session_output_def Let_def)
  moreover have "f (int (k * ?P + j)) = j" if "j < ?P" for j
    unfolding f_def using that by (simp only: zmod_int [symmetric] nat_int) simp
  moreover have "f (int ((k + 1) * ?P)) = 0" unfolding f_def by (simp only: zmod_int [symmetric] nat_int) simp
  ultimately show ?thesis unfolding ps by (auto simp: comp_def)
qed


lemma session_output_keeps:
  assumes "settled cfg" "0 < num_pkts cfg" "use_per_session_output cfg" "0 \<le> pkt + i_incr r - (int (pkts_per_session cfg) - 1)"
    "pkt + i_incr r < 2 ^ 63"
  shows "\<exists>r'. session_output cfg pkt r = Inr r' \<and> tbl r' = tbl r \<and> r_conn_id r' = r_conn_id r \<and> pkt_i r' = pkt_i r"
proof -
  let ?P = "pkts_per_session cfg" and ?first = "pkt + i_incr r - (int (pkts_per_session cfg) - 1)"
  have P: "0 < ?P" "int ?P \<le> MAX_PKTS" using assms(1,2) dvd_imp_le [of ?P "num_pkts cfg"] by (auto simp: settled_def)
  have s: "\<exists>i. slot cfg p = Inr i" if "p \<in> set (map (\<lambda>j. ?first + int j) [0..<?P])" for p
    using that slot_per_session [OF assms(3) P, of p] assms(4,5) by auto
  have "\<exists>r'. rfold (output_pkt cfg sess) r ps = Inr r' \<and> tbl r' = tbl r \<and> r_conn_id r' = r_conn_id r \<and> pkt_i r' = pkt_i r"
    if "\<forall>p \<in> set ps. \<exists>i. slot cfg p = Inr i" for ps sess r
    using that by (induction ps arbitrary: r) (fastforce simp: output_pkt_def pkt_i_def)+
  from this [of "map (\<lambda>j. ?first + int j) [0..<?P]" "pkt div int ?P" r] s show ?thesis
    by (auto simp: session_output_def Let_def pkt_i_def)
qed

text \<open>A round that takes the last reply of a session alone closes the session: the connection is released, its buffers are freed, and
  the next round opens a new one; a round that takes an earlier reply leaves it open.
\<close>

theorem session_closed:
  assumes "settled cfg" "r_conn_id r = int i" "i < MAX_CONNS" "arrives cfg env (conns (tbl r) i) [msg] rest"
    and "req_list (conns (tbl r) i) = None" "0 \<le> pkt_i r" "pkt_i r < int (num_pkts cfg)"
  shows "\<exists>r' r''. receive_part cfg (env # envs) clk r = Some (Inr r') \<and> pkt_i r' = pkt_i r + 1 \<and>
    end_round cfg (pkt_i r) r' = Some (Inr r'') \<and> pkt_i r'' = pkt_i r' \<and>
    (if pkt_i r' mod int (pkts_per_session cfg) = 0
     then r_conn_id r'' = -1 \<and> \<not> busy (conns (tbl r'') i) \<and> recv_buf (conns (tbl r'') i) = None \<and> send_buf (conns (tbl r'') i) = None
     else r'' = r')"
proof -
  let ?P = "int (pkts_per_session cfg)"
  obtain r2 c where r: "receive_part cfg (env # envs) clk r = Some (Inr (r2\<lparr>tbl := upd_conn i (\<lambda>_. c) (tbl r)\<rparr>))"
      "tallied [msg] (r\<lparr>tbl := tbl r2\<rparr>) r2" "req_list c = None"
    using receive_arrives [OF assms(1-4), of envs clk] assms(5) by auto
  let ?r = "r2\<lparr>tbl := upd_conn i (\<lambda>_. c) (tbl r)\<rparr>"
  have i: "i_incr ?r = 1" "r_conn_id ?r = int i" "pkt_i ?r = pkt_i r + 1"
    using r(2) assms(2) tallied_pkt_i [OF r(2)] by (auto simp: tallied_def pkt_i_def)
  show ?thesis
  proof (cases "(pkt_i r + 1) mod ?P = 0")
    case False
    then show ?thesis using r(1) i by (intro exI [of _ ?r]) (simp add: end_round_def)
  next
    case True
    have n: "0 < num_pkts cfg" using assms(6,7) by simp
    have "0 < ?P" using assms(1) by (simp add: settled_def)
    then have "?P \<le> pkt_i r + 1" using True assms(6) by (intro zdvd_imp_le) (auto simp: dvd_eq_mod_eq_0)
    moreover have "pkt_i r + 1 < 2 ^ 63" using assms(1,7) by (simp add: settled_def MAX_PKTS_def)
    ultimately obtain r1 where r1: "(if use_per_session_output cfg then session_output cfg (pkt_i r) ?r else Inr ?r) = Inr r1"
        "tbl r1 = tbl ?r" "r_conn_id r1 = int i" "pkt_i r1 = pkt_i ?r"
      using session_output_keeps [OF assms(1) n, of "pkt_i r" ?r] i by (cases "use_per_session_output cfg") auto
    have "reset_loop None s = Some s" for s by (subst reset_loop.simps) simp
    then obtain s where s: "conn_free (int i) (tbl ?r) = Some s" "\<not> busy (conns s i)" "recv_buf (conns s i) = None" "send_buf (conns s i) = None"
      using r(3) by (auto simp: conn_free_def conn_reset_def upd_conn_def)
    then have "end_round cfg (pkt_i r) ?r = Some (Inr (r1\<lparr>tbl := s, r_conn_id := -1\<rparr>))"
      using True r1 i by (simp add: end_round_def obind_def)
    then show ?thesis using r(1) i r1(4) s True
      by (intro exI [of _ ?r] exI [of _ "r1\<lparr>tbl := s, r_conn_id := -1\<rparr>"]) (simp add: pkt_i_def)
  qed
qed

section \<open>Concrete inputs\<close>

definition sample_reply :: bytes where
  "sample_reply = [0, 0, 0, 0, 16, 0, 0, 0, 0, 0, 0, 0, 0, 0, 0, 0]"

definition open_conn :: conn_info_t where
  "open_conn = blank_conn\<lparr>recv_buf := Some (replicate BUF_SIZE 0), send_buf := Some (replicate BUF_SIZE 0), curr_recv_size := BUF_SIZE\<rparr>"

definition full_conn :: conn_info_t where
  "full_conn = open_conn\<lparr>curr_recv_buf := BUF_SIZE, curr_proc_buf := BUF_SIZE, curr_recv_size := 0\<rparr>"

definition two_replies :: recv_env where
  "two_replies = \<lparr>recvfrom_res = (32, E_OTHER), ssl_read_res = (0, SSL_ERROR_OTHER), recv_data = sample_reply @ sample_reply,
     recv_from = \<lparr>sin_addr = 0, sin_port = 0\<rparr>\<rparr>"

definition sample_receiver :: "conn_info_t \<Rightarrow> receiver_t" where
  "sample_receiver c = \<lparr>tbl = sample_state\<lparr>conns := \<lambda>_. c\<rparr>, r_conn_id = 0, r_stamps = \<lparr>usecs_send = \<lambda>_. 7, usecs_elapsed = \<lambda>_. 0\<rparr>,
     num_success = 0, num_error = 0, num_timedout = 0, i_incr = 1, outputs = []\<rparr>"

lemma sample_conns: "conn_inv open_conn" "conn_inv full_conn" "\<not> use_ssl open_conn" "\<not> use_ssl full_conn" "unproc open_conn = []"
  "unproc full_conn = []" "curr_recv_size full_conn = 0" "curr_recv_size open_conn = BUF_SIZE"
  by (simp_all add: open_conn_def full_conn_def conn_inv_def unproc_def blank_conn_def)

lemma sample_arrives: "arrives sample_cfg two_replies open_conn [sample_reply, sample_reply] []"
proof -
  have "whole_reply sample_cfg sample_reply"
    by (simp add: whole_reply_def sample_reply_def msg_len_def reply_id_def sample_cfg_def)
  moreover have "recv_env_ok two_replies open_conn"
    by (simp add: recv_env_ok_def two_replies_def sample_conns sample_reply_def BUF_SIZE_def)
  ultimately show ?thesis
    by (simp add: arrives_def sample_conns incomplete_def) (simp add: two_replies_def sample_reply_def)
qed

lemma sample_receiver_conn: "r_conn_id (sample_receiver c) = int 0" "conns (tbl (sample_receiver c)) 0 = c" "pkt_i (sample_receiver c) = 0"
  by (simp_all add: sample_receiver_def pkt_i_def)

lemma sample_receiver_arrives: "arrives sample_cfg two_replies (conns (tbl (sample_receiver open_conn)) 0) [sample_reply, sample_reply] []"
  by (simp only: sample_receiver_conn sample_arrives)

lemma zero_less_MAX_CONNS: "0 < MAX_CONNS"
  by (simp add: MAX_CONNS_def)

theorem replies_counted_witness:
  "\<exists>r'. receive_part sample_cfg [two_replies] (\<lambda>_. ts_start sample_cfg) (sample_receiver open_conn) = Some (Inr r') \<and>
     pkt_i r' = 2 \<and> num_success r' = 2"
proof -
  have "filter (\<lambda>m. reply_status m = nat_of_status SUCCESS) [sample_reply, sample_reply] = [sample_reply, sample_reply]"
    by (simp add: reply_status_def sample_reply_def)
  moreover have "num_success (sample_receiver open_conn) = 0" by (simp add: sample_receiver_def)
  ultimately show ?thesis
    using replies_counted [OF settled_sample sample_receiver_conn(1) zero_less_MAX_CONNS sample_receiver_arrives, of "[]" "\<lambda>_. ts_start sample_cfg"]
    by (auto simp: sample_receiver_conn)
qed

theorem session_end_missed_witness:
  "\<exists>r'. receive_part sample_cfg [two_replies] (\<lambda>_. ts_start sample_cfg) (sample_receiver open_conn) = Some (Inr r') \<and>
     end_round sample_cfg 0 r' = Some (Inr r') \<and> r_conn_id r' = 0"
proof -
  have h: "2 \<le> length [sample_reply, sample_reply]" "length [sample_reply, sample_reply] \<le> pkts_per_session sample_cfg"
    "(pkt_i (sample_receiver open_conn) + int (length [sample_reply, sample_reply])) mod int (pkts_per_session sample_cfg) = 0"
    by (simp_all add: sample_cfg_def sample_receiver_conn)
  show ?thesis
    using session_end_missed [OF settled_sample sample_receiver_conn(1) zero_less_MAX_CONNS sample_receiver_arrives h,
        of "[]" "\<lambda>_. ts_start sample_cfg"] by (auto simp: sample_receiver_conn)
qed

theorem reply_buffer_exhausted_witness:
  "\<exists>r'. receive_part sample_cfg [two_replies\<lparr>recvfrom_res := (0, E_OTHER)\<rparr>] (\<lambda>_. ts_start sample_cfg) (sample_receiver full_conn) =
     Some (Inr r') \<and> num_error r' = 2"
proof -
  let ?e = "two_replies\<lparr>recvfrom_res := (0, E_OTHER)\<rparr>" and ?r = "sample_receiver full_conn"
  have "\<exists>c. receive_part sample_cfg [?e] (\<lambda>_. ts_start sample_cfg) ?r =
      Some (Inr (skip_session sample_cfg (?r\<lparr>tbl := upd_conn 0 (\<lambda>_. c) (tbl ?r)\<rparr>)))"
    by (rule reply_buffer_exhausted)
      (simp_all add: sample_receiver_conn sample_conns zero_less_MAX_CONNS recv_env_ok_def two_replies_def)
  then show ?thesis by (auto simp: skip_session_def pkt_i_def sample_receiver_def sample_cfg_def)
qed

theorem session_output_shifted_witness:
  "\<exists>r'. session_output sample_cfg 1 (sample_receiver open_conn) = Inr r' \<and> outputs r' = [(7, 0, 1, 0), (7, 0, 2, 0)]"
proof -
  let ?r = "sample_receiver open_conn"
  have h: "use_per_session_output sample_cfg" "i_incr ?r = 1" "0 < num_pkts sample_cfg div pkts_per_session sample_cfg"
    "1 = int (0 * pkts_per_session sample_cfg + (pkts_per_session sample_cfg - 1))"
    "\<forall>j < pkts_per_session sample_cfg. usecs_send (r_stamps ?r) j \<noteq> 0"
    by (simp_all add: sample_cfg_def sample_receiver_def)
  have "[Suc 0..<2] = [1]" by (simp add: upt_rec)
  then show ?thesis using session_output_shifted [OF settled_sample h] by (auto simp: sample_cfg_def sample_receiver_def)
qed

theorem session_closed_witness:
  "\<exists>r' r''. receive_part sample_cfg [two_replies\<lparr>recvfrom_res := (16, E_OTHER), recv_data := sample_reply\<rparr>] (\<lambda>_. ts_start sample_cfg)
       ((sample_receiver open_conn)\<lparr>num_error := 1\<rparr>) = Some (Inr r') \<and>
     end_round sample_cfg 1 r' = Some (Inr r'') \<and> r_conn_id r'' = -1"
proof -
  let ?e = "two_replies\<lparr>recvfrom_res := (16, E_OTHER), recv_data := sample_reply\<rparr>" and ?r = "(sample_receiver open_conn)\<lparr>num_error := 1\<rparr>"
  have w: "whole_reply sample_cfg sample_reply" using sample_arrives by (simp add: arrives_def)
  have "recv_env_ok ?e open_conn" by (simp add: recv_env_ok_def sample_conns sample_reply_def BUF_SIZE_def)
  then have "arrives sample_cfg ?e open_conn [sample_reply] []"
    using w by (simp add: arrives_def sample_conns incomplete_def) (simp add: sample_reply_def)
  then have a: "arrives sample_cfg ?e (conns (tbl ?r) 0) [sample_reply] []" using sample_receiver_conn by simp
  have h: "r_conn_id ?r = int 0" "req_list (conns (tbl ?r) 0) = None" "0 \<le> pkt_i ?r" "pkt_i ?r < int (num_pkts sample_cfg)" "pkt_i ?r = 1"
    by (simp_all add: sample_receiver_def pkt_i_def sample_cfg_def open_conn_def blank_conn_def)
  show ?thesis
    using session_closed [OF settled_sample h(1) zero_less_MAX_CONNS a h(2-4), of "[]" "\<lambda>_. ts_start sample_cfg"] h(5)
    by (auto simp: sample_cfg_def)
qed

section \<open>A server that cannot be reached\<close>

text \<open>All attempts of a session fail, and there is at least one.\<close>

definition refused :: "client_cfg \<Rightarrow> session_env \<Rightarrow> bool" where
  "refused cfg e \<longleftrightarrow> length (attempts e) = conn_retry_num cfg + 1 \<and>
     (\<forall>c \<in> set (attempts e). \<exists>rv. try_connect cfg c = Inr rv \<and> rv \<noteq> 0 \<and> (rv = -1 \<longrightarrow> snd (connect_rv c) \<noteq> EINPROGRESS))"

lemma connect_loop_refused:
  assumes "\<forall>c \<in> set cs. \<exists>rv. try_connect cfg c = Inr rv \<and> rv \<noteq> 0 \<and> (rv = -1 \<longrightarrow> snd (connect_rv c) \<noteq> EINPROGRESS)" "cs \<noteq> []"
  shows "\<exists>rv sk. connect_loop cfg cs r = Inr (rv, sk) \<and> rv \<noteq> 0"
  using assms
proof (induction cs arbitrary: r)
  case (Cons c cs)
  then obtain rv where "connect_loop cfg (c # cs) r = connect_loop cfg cs (rv, socket_rv c)" "rv \<noteq> 0" by fastforce
  then show ?case using Cons by (cases "cs = []") auto
qed simp

lemma refused_round:
  assumes "settled cfg" "refused cfg senv" "pkt_i r = int (k * pkts_per_session cfg)" "k * pkts_per_session cfg < num_pkts cfg" "r_stamps r = no_stamps"
  shows "receiver_round cfg t senv envs clk f r =
    Some (Inr (True, r\<lparr>r_conn_id := -1, num_error := num_error r + int (pkts_per_session cfg), i_incr := int (pkts_per_session cfg)\<rparr>))"
    (is "_ = Some (Inr (True, ?r))")
proof -
  let ?P = "pkts_per_session cfg"
  have P: "0 < ?P" "int ?P \<le> MAX_PKTS" "int (num_pkts cfg) \<le> MAX_PKTS"
    using assms(1,4) dvd_imp_le [of ?P "num_pkts cfg"] by (auto simp: settled_def)
  have "attempts senv \<noteq> []" using assms(2) by (auto simp: refused_def)
  then obtain rv sk where c: "connect_loop cfg (attempts senv) (0, 0) = Inr (rv, sk)" "rv \<noteq> 0"
    using connect_loop_refused [of "attempts senv" cfg] assms(2) unfolding refused_def by blast
  have m: "pkt_i r mod int ?P = 0" using assms(3) by simp
  have "open_session cfg senv t r = Some (Inr (Skipped, ?r))"
    using c assms(2) m by (simp add: open_session_def refused_def obind_def skip_session_def pkt_i_def Let_def)
  moreover have "end_round cfg (pkt_i r) ?r = Some (Inr ?r)"
  proof (cases "use_per_session_output cfg")
    case True
    let ?ps = "map (\<lambda>j. pkt_i r + int ?P - (int ?P - 1) + int j) [0..<?P]"
    have "0 \<le> pkt_i r" "pkt_i r < 1000000" using assms(3,4) P(3) by (simp_all add: MAX_PKTS_def del: of_nat_mult)
    then have "\<exists>i. slot cfg p = Inr i" if "p \<in> set ?ps" for p
      using that slot_per_session [OF True P(1,2), of p] P(2) by (auto simp: MAX_PKTS_def)
    then have "output_pkt cfg sess ?r p = Inr ?r" if "p \<in> set ?ps" for sess p
      using that assms(5) by (fastforce simp: output_pkt_def no_stamps_def)
    then have "rfold (output_pkt cfg sess) ?r ?ps = Inr ?r" for sess by (rule rfold_same)
    then have "session_output cfg (pkt_i r) ?r = Inr ?r" using assms(5) by (simp add: session_output_def Let_def)
    then show ?thesis using True m by (simp add: end_round_def obind_def)
  qed (use m in \<open>simp add: end_round_def obind_def\<close>)
  ultimately show ?thesis using m by (simp add: receiver_round_def obind_def)
qed

lemma refused_rounds:
  assumes "settled cfg" "\<forall>e \<in> set es. refused cfg (re_session e)" "num_pkts cfg = (k + length es) * pkts_per_session cfg"
    and "pkt_i r = int (k * pkts_per_session cfg)" "r_stamps r = no_stamps"
  shows "\<exists>r'. receiver_loop cfg t es r = Some (Inr (True, r')) \<and> num_error r' = num_error r + int (length es * pkts_per_session cfg) \<and>
    num_success r' = num_success r \<and> num_timedout r' = num_timedout r \<and> r_stamps r' = no_stamps \<and> tbl r' = tbl r \<and> outputs r' = outputs r"
  using assms(2-5)
proof (induction es arbitrary: k r)
  case Nil
  then show ?case by simp
next
  case (Cons e es)
  let ?P = "pkts_per_session cfg"
  let ?r = "r\<lparr>r_conn_id := -1, num_error := num_error r + int ?P, i_incr := int ?P\<rparr>"
  have lt: "k * ?P < num_pkts cfg" using Cons.prems(2) assms(1) by (simp add: settled_def add_mult_distrib)
  have "receiver_round cfg t (re_session e) (re_recvs e) (re_clock e) (re_sender e) r = Some (Inr (True, ?r))"
    using refused_round [OF assms(1) _ Cons.prems(3) lt Cons.prems(4)] Cons.prems(1) by simp
  moreover have "pkt_i ?r = int (Suc k * ?P)" using Cons.prems(3) by (simp add: pkt_i_def)
  then obtain r' where "receiver_loop cfg t es ?r = Some (Inr (True, r'))" "num_error r' = num_error ?r + int (length es * ?P)"
      "num_success r' = num_success ?r" "num_timedout r' = num_timedout ?r" "r_stamps r' = no_stamps" "tbl r' = tbl ?r" "outputs r' = outputs ?r"
    using Cons.IH [of "Suc k" ?r] Cons.prems by auto
  moreover have "pkt_i r < int (num_pkts cfg)" using lt Cons.prems(3) by (simp del: of_nat_mult)
  ultimately show ?case by (intro exI [of _ r']) (simp add: obind_def algebra_simps)
qed

text \<open>The output for packets that were never sent: nothing per session, else a line with the times 0 for each of them.\<close>

definition silent :: "client_cfg \<Rightarrow> (int \<times> int \<times> int \<times> int) list" where
  "silent cfg = (if use_per_session_output cfg then [] else map (\<lambda>i. (0, 0, int i, int i div int (pkts_per_session cfg))) [0..<num_pkts cfg])"

lemma outputs_silent:
  assumes "\<forall>i \<in> set xs. \<exists>k. slot cfg i = Inr k" "r_stamps r = no_stamps"
  shows "rfold (\<lambda>r i. rbind (slot cfg i) (\<lambda>k. Inr (r\<lparr>outputs := outputs r @
      [(usecs_send (r_stamps r) k, usecs_elapsed (r_stamps r) k, i, i div int (pkts_per_session cfg))]\<rparr>))) r xs =
    Inr (r\<lparr>outputs := outputs r @ map (\<lambda>i. (0, 0, i, i div int (pkts_per_session cfg))) xs\<rparr>)"
  using assms by (induction xs arbitrary: r) (auto simp: no_stamps_def)

text \<open>When no connection can be made, the receiver thread still ends, after one round per session: every packet counts as an error, none is
  counted as answered, the connection table is untouched, and the output holds no time of any packet.
\<close>

theorem unreachable_server:
  assumes "settled cfg" "length es = num_pkts cfg div pkts_per_session cfg" "\<forall>e \<in> set es. refused cfg (re_session e)"
  shows "\<exists>r. thread_receiver cfg t es s = Some (Inr r) \<and> num_error r = int (num_pkts cfg) \<and> num_success r = 0 \<and> num_timedout r = 0 \<and> tbl r = s \<and>
    outputs r = silent cfg"
proof -
  let ?P = "pkts_per_session cfg"
  let ?r = "\<lparr>tbl = s, r_conn_id = 0, r_stamps = no_stamps, num_success = 0, num_error = 0, num_timedout = 0, i_incr = 0, outputs = []\<rparr>"
  have n: "length es * ?P = num_pkts cfg" using assms(1,2) by (simp add: settled_def)
  obtain r' where r: "receiver_loop cfg t es ?r = Some (Inr (True, r'))" "num_error r' = int (num_pkts cfg)"
      "num_success r' = 0" "num_timedout r' = 0" "r_stamps r' = no_stamps" "tbl r' = s" "outputs r' = []"
    using refused_rounds [OF assms(1,3), of 0 ?r t] n by (auto simp: pkt_i_def)
  have "final_output cfg r' = Inr (r'\<lparr>outputs := silent cfg\<rparr>)"
  proof (cases "use_per_session_output cfg")
    case True
    then show ?thesis using r(7) by (cases r') (simp add: final_output_def silent_def)
  next
    case False
    have "\<exists>k. slot cfg (int i) = Inr k" if "i < num_pkts cfg" for i using slot_settled [OF assms(1) that] by blast
    then show ?thesis using False outputs_silent [of "map int [0..<num_pkts cfg]" cfg r'] r(5,7)
      by (auto simp: final_output_def silent_def comp_def)
  qed
  then show ?thesis using r by (auto simp: thread_receiver_def obind_def)
qed

text \<open>Two sessions of two packets, with one attempt each that is refused.\<close>

definition refused_round_env :: round_env where
  "refused_round_env = \<lparr>re_session = \<lparr>attempts = [\<lparr>socket_rv = 5, nodelay_rv = 0, reuse_rv = 0, bind_rv = 0, connect_rv = (-1, E_OTHER)\<rparr>],
     allocs = (True, True), ssl_new = None, ssl_fd_ok = False, shakes = []\<rparr>, re_recvs = [], re_clock = \<lambda>_. ts_start sample_cfg, re_sender = id\<rparr>"

theorem unreachable_server_witness:
  "\<exists>r. thread_receiver sample_cfg 0 [refused_round_env, refused_round_env] sample_state = Some (Inr r) \<and> num_error r = 4"
proof -
  have h: "length [refused_round_env, refused_round_env] = num_pkts sample_cfg div pkts_per_session sample_cfg"
    "\<forall>e \<in> set [refused_round_env, refused_round_env]. refused sample_cfg (re_session e)"
    by (simp_all add: sample_cfg_def refused_def refused_round_env_def try_connect_def)
  show ?thesis using unreachable_server [OF settled_sample h, of 0 sample_state] by (auto simp: sample_cfg_def)
qed

end
