(* ===== verification/DW_Proxy.thy ===== *)
theory DW_Proxy
  imports DW_Address
begin

text \<open>
  The delaying proxy (\<^verbatim>\<open>src/dw_proxy.c\<close>): for every accepted client one thread connects to the server and relays what the client
  sends, and a second one relays what the server sends. The outcomes of the system calls are arguments: what each \<^verbatim>\<open>read()\<close>
  returns (\<open>None\<close> for -1) and how many bytes each \<^verbatim>\<open>write()\<close> accepts at most (a negative number for -1). The buffers of the
  threads are allocated successfully, and sleeping has no effect.
\<close>

section \<open>Relaying\<close>

text \<open>
  The inner loop that writes out a fragment: the outcomes of \<^verbatim>\<open>write()\<close> that are left; \<open>None\<close> while the loop has not ended after all
  the given outcomes.
\<close>

fun write_all :: "bytes \<Rightarrow> int list \<Rightarrow> (bytes \<times> int list) res option" where
  "write_all buf [] = None"
| "write_all buf (w # ws) =
     (if w < 0 then Some (Inl Exit_Failure)
      else let n = min (nat w) (length buf) in
        if n < length buf
        then map_option (\<lambda>r. rbind r (\<lambda>(out, rest). Inr (take n buf @ out, rest))) (write_all (drop n buf) ws)
        else Some (Inr (take n buf, ws)))"

text \<open>
  The loop of \<^verbatim>\<open>receiver()\<close> and \<^verbatim>\<open>sender()\<close> with buffers of \<open>frag_size\<close> bytes: the bytes that were written. An error of \<^verbatim>\<open>read()\<close> ends it
  like the end of the stream; a \<^verbatim>\<open>read()\<close> never returns more than the size of the buffer.
\<close>

fun relay :: "nat \<Rightarrow> bytes option list \<Rightarrow> int list \<Rightarrow> bytes res option" where
  "relay frag_size [] ws = None"
| "relay frag_size (None # rs) ws = Some (Inr [])"
| "relay frag_size (Some bs # rs) ws =
     (if length bs > frag_size then Some (Inl Out_Of_Bounds)
      else if bs = [] then Some (Inr [])
      else case write_all bs ws of
        None \<Rightarrow> None
      | Some (Inl e) \<Rightarrow> Some (Inl e)
      | Some (Inr (out, ws')) \<Rightarrow> map_option (\<lambda>r. rbind r (\<lambda>rest. Inr (out @ rest))) (relay frag_size rs ws'))"

section \<open>Flows\<close>

record flow_t =
  fd_client :: int
  fd_server :: int

definition MAX_FLOWS :: nat where "MAX_FLOWS = 16"

text \<open>\<^verbatim>\<open>do_connect\<close>: the outcomes of \<^verbatim>\<open>socket()\<close> and \<^verbatim>\<open>connect()\<close>.\<close>

definition do_connect :: "int \<Rightarrow> int \<Rightarrow> flow_t \<Rightarrow> (bool \<times> flow_t) res" where
  "do_connect sock rv p_flow =
     (if sock = -1 then Inl Exit_Failure else Inr (rv \<noteq> -1, p_flow\<lparr>fd_server := sock\<rparr>))"

text \<open>
  The two threads of a flow, with the bytes that they write and the descriptors that they close. \<open>created\<close> is the outcome of
  \<^verbatim>\<open>pthread_create\<close>, and \<open>killed\<close> that of \<^verbatim>\<open>pthread_kill\<close>, which wakes the other thread up.
\<close>

definition receiver :: "nat \<Rightarrow> bytes option list \<Rightarrow> int list \<Rightarrow> flow_t \<Rightarrow> (bytes \<times> int list) res option" where
  "receiver frag_size rs ws p_flow =
     map_option (\<lambda>r. rbind r (\<lambda>out. Inr (out, [fd_server p_flow, fd_client p_flow]))) (relay frag_size rs ws)"

definition sender ::
    "nat \<Rightarrow> int \<Rightarrow> int \<Rightarrow> int \<Rightarrow> int \<Rightarrow> bytes option list \<Rightarrow> int list \<Rightarrow> flow_t \<Rightarrow> (bytes \<times> int list \<times> flow_t) res option" where
  "sender frag_size sock rv created killed rs ws p_flow =
     (case do_connect sock rv p_flow of
        Inl e \<Rightarrow> Some (Inl e)
      | Inr (ok, flow) \<Rightarrow>
          if \<not> ok then Some (Inr ([], [], flow))
          else if created \<noteq> 0 then Some (Inl Exit_Failure)
          else map_option (\<lambda>r. rbind r (\<lambda>out.
                 if killed \<noteq> 0 then Inl Exit_Failure else Inr (out, [fd_server flow, fd_client flow], flow)))
                 (relay frag_size rs ws))"

text \<open>The loop of \<^verbatim>\<open>main\<close>, over the results of \<^verbatim>\<open>accept()\<close> and of \<^verbatim>\<open>pthread_create()\<close>: the flows that are served.\<close>

fun accept_loop :: "(int \<times> int) list \<Rightarrow> flow_t list \<Rightarrow> flow_t list res" where
  "accept_loop [] flows = Inr flows"
| "accept_loop ((new_fd, created) # rs) flows =
     (if new_fd = -1 then Inl Exit_Failure
      else if \<not> length flows < MAX_FLOWS then Inl Exit_Failure
      else if created \<noteq> 0 then Inl Exit_Failure
      else accept_loop rs (flows @ [\<lparr>fd_client = new_fd, fd_server = 0\<rparr>]))"

section \<open>Transparency\<close>

text \<open>The stream that a sequence of reads delivers, up to the end of the stream or an error.\<close>

fun stream_of :: "bytes option list \<Rightarrow> bytes" where
  "stream_of [] = []"
| "stream_of (None # rs) = []"
| "stream_of (Some bs # rs) = (if bs = [] then [] else bs @ stream_of rs)"

definition ends :: "nat \<Rightarrow> bytes option list \<Rightarrow> bool" where
  "ends frag_size rs \<longleftrightarrow> (\<forall>bs. Some bs \<in> set rs \<longrightarrow> length bs \<le> frag_size) \<and> (None \<in> set rs \<or> Some [] \<in> set rs)"

lemma write_all_complete:
  assumes "\<forall>w\<in>set ws. 0 < w" "length bs \<le> length ws" "bs \<noteq> []"
  shows "\<exists>used. write_all bs ws = Some (Inr (bs, drop used ws)) \<and> 0 < used \<and> used \<le> length bs"
  using assms
proof (induction bs ws rule: write_all.induct)
  case (2 bs w ws)
  let ?n = "min (nat w) (length bs)"
  have w: "0 < w" "0 < ?n" using "2.prems" by auto
  show ?case
  proof (cases "?n < length bs")
    case True
    then have "drop ?n bs \<noteq> []" "length (drop ?n bs) \<le> length ws" using "2.prems" w by auto
    then obtain used where u: "write_all (drop ?n bs) ws = Some (Inr (drop ?n bs, drop used ws))"
        "0 < used" "used \<le> length (drop ?n bs)"
      using "2.IH" [of ?n] True "2.prems"(1) w by auto
    then have "write_all bs (w # ws) = Some (Inr (bs, drop (Suc used) (w # ws)))"
      using True w by (simp add: Let_def)
    then show ?thesis using u w by (intro exI [of _ "Suc used"]) auto
  next
    case False
    then have "write_all bs (w # ws) = Some (Inr (bs, drop 1 (w # ws)))" using w by (simp add: Let_def)
    then show ?thesis using "2.prems"(3) by (intro exI [of _ 1]) (cases bs; simp)
  qed
qed simp

text \<open>C34. The proxy is transparent: when every \<^verbatim>\<open>write()\<close> makes progress and the stream ends, the loop of a thread ends as well, and it has written
  exactly the bytes that it read, in order and without loss, however the reads and the partial writes divide them.
\<close>

theorem relay_transparent:
  assumes "ends frag_size rs" "\<forall>w\<in>set ws. 0 < w" "length (stream_of rs) \<le> length ws"
  shows "relay frag_size rs ws = Some (Inr (stream_of rs))"
  using assms
proof (induction rs ws rule: relay.induct)
  case (1 frag_size ws)
  then show ?case by (simp add: ends_def)
next
  case (2 frag_size rs ws)
  then show ?case by simp
next
  case (3 frag_size bs rs ws)
  show ?case
  proof (cases "bs = []")
    case True
    then show ?thesis by simp
  next
    case False
    obtain used where u: "write_all bs ws = Some (Inr (bs, drop used ws))" "used \<le> length bs"
      using write_all_complete [of ws bs] "3.prems" False by auto
    have f: "length bs \<le> frag_size" "ends frag_size rs" using "3.prems"(1) False by (auto simp: ends_def)
    have "\<forall>w\<in>set (drop used ws). 0 < w" using "3.prems"(2) by (auto dest: in_set_dropD)
    then have "relay frag_size rs (drop used ws) = Some (Inr (stream_of rs))"
      using "3.IH" [OF _ False u(1)] f "3.prems"(3) u(2) False by simp
    then show ?thesis using u f(1) False by simp
  qed
qed

theorem relay_transparent_witness:
  "relay 4 [Some [1, 2, 3], Some [4], Some []] [2, 5, 1, 7] = Some (Inr [1, 2, 3, 4])"
  using relay_transparent [of 4 "[Some [1, 2, 3], Some [4], Some []]" "[2, 5, 1, 7]"] by (auto simp: ends_def)

text \<open>
  Flows are never given back: the program ends with the 17th connection, even when all the earlier ones have been closed.
\<close>

lemma accept_loop_limit:
  "length flows \<le> MAX_FLOWS \<Longrightarrow> MAX_FLOWS < length flows + length rs \<Longrightarrow> accept_loop rs flows = Inl Exit_Failure"
  by (induction rs flows rule: accept_loop.induct) auto

section \<open>The program\<close>

text \<open>
  The options, in the order of the command line; \<open>None\<close> when the program ends after printing its usage. The product of the delay is
  computed on \<^verbatim>\<open>long\<close>, where an overflow is not defined, and then converted to \<^verbatim>\<open>unsigned long\<close>.
\<close>

record proxy_cfg =
  bind_addr :: sockaddr_in
  dest_addr :: sockaddr_in
  delay_us :: u64
  frag_size :: u64

definition set_delay :: "string \<Rightarrow> proxy_cfg \<Rightarrow> proxy_cfg res" where
  "set_delay arg cfg =
     (let v = atol arg * 1000 in if v < - (2 ^ 63) \<or> v \<ge> 2 ^ 63 then Inl Int_Overflow else Inr (cfg\<lparr>delay_us := word_of_int v\<rparr>))"

fun proxy_opts :: "(string \<Rightarrow> nat option) \<Rightarrow> string list \<Rightarrow> proxy_cfg \<Rightarrow> proxy_cfg option res" where
  "proxy_opts resolve [] cfg = Inr (Some cfg)"
| "proxy_opts resolve (opt # argv) cfg =
     (if opt = ''-h'' \<or> opt = ''--help'' then Inr None
      else if opt = ''-b'' \<or> opt = ''--bind'' then
        (case argv of [] \<Rightarrow> Inl Exit_Failure
         | arg # rest \<Rightarrow> rbind (addr_parse resolve arg) (\<lambda>a. proxy_opts resolve rest (cfg\<lparr>bind_addr := a\<rparr>)))
      else if opt = ''--to'' then
        (case argv of [] \<Rightarrow> Inl Exit_Failure
         | arg # rest \<Rightarrow> rbind (addr_parse resolve arg) (\<lambda>a. proxy_opts resolve rest (cfg\<lparr>dest_addr := a\<rparr>)))
      else if opt = ''-d'' \<or> opt = ''--delay'' then
        (case argv of [] \<Rightarrow> Inl Exit_Failure | arg # rest \<Rightarrow> rbind (set_delay arg cfg) (proxy_opts resolve rest))
      else if opt = ''-f'' \<or> opt = ''--frag'' then
        (case argv of [] \<Rightarrow> Inl Exit_Failure | arg # rest \<Rightarrow> proxy_opts resolve rest (cfg\<lparr>frag_size := word_of_int (atol arg)\<rparr>))
      else Inl Exit_Failure)"

text \<open>The outcomes of the system calls that open the listening socket.\<close>

record proxy_env =
  socket_rv :: int
  setsockopt_rv :: int
  bind_rv :: int
  listen_rv :: int

text \<open>\<^verbatim>\<open>main\<close>: the settings and the flows after the given connections; \<open>None\<close> when it only printed its usage.\<close>

definition proxy_main :: "(string \<Rightarrow> nat option) \<Rightarrow> string list \<Rightarrow> proxy_env \<Rightarrow> (int \<times> int) list \<Rightarrow> (proxy_cfg \<times> flow_t list) option res" where
  "proxy_main resolve argv e conns =
     rbind (addr_parse resolve ''127.0.0.1:7891'') (\<lambda>addr.
     rbind (proxy_opts resolve argv \<lparr>bind_addr = addr, dest_addr = addr, delay_us = 0, frag_size = word_of_nat BUF_SIZE\<rparr>) (\<lambda>r. case r of
       None \<Rightarrow> Inr None
     | Some cfg \<Rightarrow>
         if bind_addr cfg = dest_addr cfg then Inl Exit_Failure
         else if socket_rv e = -1 \<or> setsockopt_rv e < 0 \<or> bind_rv e = -1 \<or> listen_rv e = -1 then Inl Exit_Failure
         else rbind (accept_loop conns []) (\<lambda>flows. Inr (Some (cfg, flows)))))"

text \<open>Without an address the program does not start: both addresses have the same default.\<close>

lemma proxy_needs_address:
  assumes "set argv \<inter> {''-b'', ''--bind'', ''--to''} = {}" "proxy_main resolve argv e conns = Inr (Some r)"
  shows False
proof -
  have "proxy_opts resolve argv cfg = Inr (Some cfg') \<Longrightarrow> bind_addr cfg' = bind_addr cfg \<and> dest_addr cfg' = dest_addr cfg" for cfg cfg'
    using assms(1)
  proof (induction resolve argv cfg rule: proxy_opts.induct)
    case (2 resolve opt argv cfg)
    then show ?case by (cases argv) (auto simp: rbind_eq_Inr set_delay_def Let_def split: if_splits)
  qed simp
  then show False using assms(2) by (fastforce simp: proxy_main_def rbind_eq_Inr split: option.splits if_splits)
qed

end
