(* ===== verification/DW_Service.thy ===== *)
theory DW_Service
  imports DW_Invariant DW_Quorum
begin

text \<open>
  What a node does for a client whose request asks for local work only: the commands are carried out in their order and the response is
  sent, in one call of \<^verbatim>\<open>process_single_message\<close> (\<^verbatim>\<open>src/dw_node.c\<close>).
\<close>

section \<open>Local commands\<close>

text \<open>
  The effects of the commands \<open>ts\<close> at \<open>p\<close> when each of them lets the worker go on at once: \<^verbatim>\<open>COMPUTE\<close>, and a \<^verbatim>\<open>STORE\<close> to an existing device
  that does not wait for the sync.
\<close>

fun local_effects :: "'k node_env \<Rightarrow> int \<Rightarrow> int \<Rightarrow> bytes \<Rightarrow> nat \<Rightarrow> command_type_t list \<Rightarrow> effect list option" where
  "local_effects e wid rid b p [] = Some []"
| "local_effects e wid rid b p (t # ts) =
     (let rest = local_effects e wid rid b (p + cmd_type_size t) ts in
      if t = COMPUTE then
        (case get_comp_opts b p of Inl _ \<Rightarrow> None | Inr opts \<Rightarrow> map_option ((#) (E_Compute (comp_time_us opts))) rest)
      else if t = STORE then
        (case get_store_opts b p of Inl _ \<Rightarrow> None
         | Inr opts \<Rightarrow> if wait_sync opts = 0 \<and> s_dev_id opts < storage_devices e
             then map_option ((#) (E_Storage (s_dev_id opts) \<lparr>worker_id = wid, sreq_id = rid, scmd = S_Store opts\<rparr>)) rest else None)
      else None)"

definition n_stores :: "command_type_t list \<Rightarrow> nat" where
  "n_stores ts = length (filter (\<lambda>t. t = STORE) ts)"

lemma n_stores_simps [simp]: "n_stores [] = 0" "n_stores (STORE # ts) = Suc (n_stores ts)" "t \<noteq> STORE \<Longrightarrow> n_stores (t # ts) = n_stores ts"
  by (simp_all add: n_stores_def)

lemma exec_compute:
  assumes "get_comp_opts b p = Inr opts"
  shows "exec_cmd e r b me p COMPUTE n = Some (Inr (Next_Cmd, n\<lparr>trace := trace n @ [E_Compute (comp_time_us opts)]\<rparr>))"
  using assms by (simp add: exec_cmd_def act_simps)

lemma exec_store:
  assumes "get_store_opts b p = Inr opts" "wait_sync opts = 0" "s_dev_id opts < storage_devices e" "0 \<le> pipe_writes e (calls n)"
  shows "exec_cmd e r b me p STORE n = Some (Inr (Next_Cmd, n\<lparr>calls := calls n + 1, trace := trace n @
    [E_Storage (s_dev_id opts) \<lparr>worker_id = w_worker_id (infos n), sreq_id = req_id (reqs (tbl n) r), scmd = S_Store opts\<rparr>]\<rparr>))"
proof -
  have "send_storage e r b p STORE n = Some (Inr (True, n\<lparr>calls := calls n + 1, trace := trace n @
    [E_Storage (s_dev_id opts) \<lparr>worker_id = w_worker_id (infos n), sreq_id = req_id (reqs (tbl n) r), scmd = S_Store opts\<rparr>]\<rparr>))"
    using assms by (simp add: send_storage_def act_simps)
  then show ?thesis using assms(1,2) by (simp add: exec_cmd_def nbind_def lift_def ret_def)
qed

lemma process_cmds_next:
  assumes "get_cmd b p = Inr t" "t \<noteq> EOM" "exec_cmd e r b me p t n = Some (Inr (Next_Cmd, n'))" "cmd_bounded_skip b (Some p) 1 me = Inr (Some q)"
  shows "process_cmds e r b me (Some p) n = process_cmds e r b me (Some q) n'"
  using assms by (subst process_cmds.simps) simp

lemma local_effects_types: "local_effects e wid rid b p ts = Some effs \<Longrightarrow> set ts \<subseteq> {COMPUTE, STORE}"
  by (induction ts arbitrary: p effs) (auto simp: Let_def split: if_splits sum.splits)

lemma skip_local:
  assumes "set (a # ts) \<subseteq> {COMPUTE, STORE}" "cmds_at b me p ((a # ts) @ t # us)" "t \<noteq> FORWARD_CONTINUE"
  shows "cmd_bounded_skip b (Some p) 1 me = Inr (Some (p + cmd_type_size a))"
proof -
  have "list_all ctx_wf (Op a # map Op ts)" using assms(1) by (auto simp: list_all_iff)
  moreover have "concat (map ctx_cmds (Op a # map Op ts)) = a # ts" by (induction ts) auto
  ultimately show ?thesis using cmd_bounded_skip_first [of "Op a" "map Op ts" b me p t us] assms(2,3) by simp
qed

lemma process_cmds_local:
  assumes "local_effects e (w_worker_id (infos n)) (req_id (reqs (tbl n) r)) b p ts = Some effs"
    "cmds_at b me p (ts @ t # us)" "t \<noteq> FORWARD_CONTINUE" "\<forall>k. 0 \<le> pipe_writes e k"
  shows "process_cmds e r b me (Some p) n =
    process_cmds e r b me (Some (p + cmds_len ts)) (n\<lparr>calls := calls n + n_stores ts, trace := trace n @ effs\<rparr>)"
  using assms(1,2)
proof (induction ts arbitrary: p n effs)
  case Nil
  then show ?case by simp
next
  case (Cons a ts)
  have a: "set (a # ts) \<subseteq> {COMPUTE, STORE}" using local_effects_types [OF Cons.prems(1)] .
  let ?q = "p + cmd_type_size a"
  have q: "cmd_bounded_skip b (Some p) 1 me = Inr (Some ?q)" using skip_local [OF a Cons.prems(2) assms(3)] .
  have g: "get_cmd b p = Inr a" "a \<noteq> EOM" "cmds_at b me ?q (ts @ t # us)" using Cons.prems(2) a by auto
  obtain x effs' where x: "effs = x # effs'" "local_effects e (w_worker_id (infos n)) (req_id (reqs (tbl n) r)) b ?q ts = Some effs'"
      "exec_cmd e r b me p a n = Some (Inr (Next_Cmd, n\<lparr>calls := calls n + n_stores [a], trace := trace n @ [x]\<rparr>))"
  proof (cases "a = COMPUTE")
    case True
    then show thesis using Cons.prems(1) by (auto simp: Let_def exec_compute intro!: that split: sum.splits)
  next
    case False
    then have "a = STORE" using a by simp
    then show thesis using Cons.prems(1) assms(4) by (auto simp: Let_def exec_store intro!: that split: sum.splits if_splits)
  qed
  have "process_cmds e r b me (Some p) n =
      process_cmds e r b me (Some ?q) (n\<lparr>calls := calls n + n_stores [a], trace := trace n @ [x]\<rparr>)"
    using process_cmds_next [OF g(1,2) x(3) q] .
  also have "\<dots> = process_cmds e r b me (Some (?q + cmds_len ts))
      (n\<lparr>calls := calls n + n_stores [a] + n_stores ts, trace := (trace n @ [x]) @ effs'\<rparr>)"
    using Cons.IH [of "n\<lparr>calls := calls n + n_stores [a], trace := trace n @ [x]\<rparr>" ?q effs'] x(2) g(3) by simp
  also have "calls n + n_stores [a] + n_stores ts = calls n + n_stores (a # ts)" by (simp add: n_stores_def)
  finally show ?case using x(1) by (simp add: add.assoc)
qed

section \<open>The response\<close>

text \<open>\<open>response rid sz st out\<close>: the bytes \<open>out\<close> are a message of \<open>sz\<close> bytes with the id \<open>rid\<close>, the status \<open>st\<close> and no commands.\<close>

definition response :: "nat \<Rightarrow> nat \<Rightarrow> nat \<Rightarrow> bytes \<Rightarrow> bool" where
  "response rid sz st out \<longleftrightarrow> length out = sz \<and> get_req_id out 0 = Inr rid \<and> get_req_size out 0 = Inr sz \<and>
     get_status out 0 = Inr st \<and> get_cmd out (message_first_cmd 0) = Inr EOM"

lemma rd_take: "i + k \<le> n \<Longrightarrow> n \<le> length d \<Longrightarrow> rd k (take n d) i = rd k d i"
  by (simp add: rd_ok take_drop [symmetric] drop_take min_def)

lemmas field_defs = get_req_id_def get_req_size_def get_status_def get_cmd_def set_req_id_def set_req_size_def set_cmd_def put_status_def
  message_first_cmd_def sizeof_message_t_def

text \<open>The four writes of the header of a response into a buffer.\<close>

lemma header_written:
  assumes "16 \<le> sz" "sz \<le> length d" "sz < 2 ^ 32" "rid < 2 ^ 32" "st < 2 ^ 32"
  shows "\<exists>d1 d2 d3 d4. set_req_id d 0 rid = Inr d1 \<and> set_req_size d1 0 sz = Inr d2 \<and> set_cmd d2 (message_first_cmd 0) EOM = Inr d3 \<and>
    put_status d3 0 st = Inr d4 \<and> length d4 = length d \<and> response rid sz st (take sz d4)"
proof -
  obtain d1 where d1: "set_req_id d 0 rid = Inr d1" "length d1 = length d" using wr_ok [of 0 4 d rid] assms by (auto simp: set_req_id_def)
  obtain d2 where d2: "set_req_size d1 0 sz = Inr d2" "length d2 = length d" using wr_ok [of 4 4 d1 sz] assms d1 by (auto simp: set_req_size_def)
  obtain d3 where d3: "set_cmd d2 (message_first_cmd 0) EOM = Inr d3" "length d3 = length d"
    using wr_ok [of 12 4 d2 "nat_of_command EOM"] assms d2 by (auto simp: set_cmd_def message_first_cmd_def sizeof_message_t_def)
  obtain d4 where d4: "put_status d3 0 st = Inr d4" "length d4 = length d" using wr_ok [of 8 4 d3 st] assms d3 by (auto simp: put_status_def)
  have w: "wr 4 d 0 rid = Inr d1" "wr 4 d1 4 sz = Inr d2" "wr 4 d2 12 (nat_of_command EOM) = Inr d3" "wr 4 d3 8 st = Inr d4"
    using d1 d2 d3 d4 by (simp_all add: field_defs)
  have "rd 4 d4 0 = Inr rid" using rd_wr_same [OF w(1)] rd_wr_other [OF w(2)] rd_wr_other [OF w(3)] rd_wr_other [OF w(4)] assms(4) by simp
  moreover have "rd 4 d4 4 = Inr sz" using rd_wr_same [OF w(2)] rd_wr_other [OF w(3)] rd_wr_other [OF w(4)] assms(3) by simp
  moreover have "rd 4 d4 12 = Inr (nat_of_command EOM)" using rd_wr_same [OF w(3)] rd_wr_other [OF w(4)] by simp
  moreover have "rd 4 d4 8 = Inr st" using rd_wr_same [OF w(4)] assms(5) by simp
  ultimately have "response rid sz st (take sz d4)"
    using assms(1,2) d4(2) by (simp add: response_def field_defs rd_take command_of_nat_def)
  then show ?thesis using d1 d2 d3 d4 by blast
qed

text \<open>A connection with nothing left to send.\<close>

definition idle :: "conn_info_t \<Rightarrow> bool" where
  "idle x \<longleftrightarrow> conn_inv x \<and> curr_send_size x = 0 \<and> curr_send_buf x = 0 \<and> status x = READY \<and> \<not> use_ssl x"

lemma idle_prepare:
  assumes "idle x"
  shows "\<exists>d. conn_prepare_send_message x = Inr (0, x\<lparr>send_buf := Some d\<rparr>) \<and> length d = BUF_SIZE \<and> get_req_size d 0 = Inr BUF_SIZE \<and>
    get_status d 0 = get_status (the (send_buf x)) 0"
proof -
  obtain sb where sb: "send_buf x = Some sb" "length sb = BUF_SIZE" using assms by (auto simp: idle_def elim: conn_invE)
  have e: "nat ((int BUF_SIZE - int (curr_send_buf x + curr_send_size x)) mod 2 ^ 32) = BUF_SIZE" "BUF_SIZE < 2 ^ 32" "curr_send_size x = 0"
    using assms by (auto simp: idle_def BUF_SIZE_def)
  obtain d where d: "set_req_size sb 0 BUF_SIZE = Inr d" "length d = BUF_SIZE"
    using wr_ok [of 4 4 sb BUF_SIZE] sb by (auto simp: set_req_size_def BUF_SIZE_def)
  have "get_req_size d 0 = Inr BUF_SIZE"
    using d(1) rd_wr_same [of 4 sb 4 BUF_SIZE d] e(2) by (simp add: set_req_size_def get_req_size_def)
  moreover have "get_status d 0 = get_status sb 0" using d(1) rd_wr_other [of 4 sb 4 BUF_SIZE d 8 4] by (simp add: set_req_size_def get_status_def)
  ultimately show ?thesis using sb e(1,3) d by (auto simp: conn_prepare_send_message_def the_buf_def)
qed

lemma build_reply_ok:
  assumes "idle x" "recv_buf x = Some b" "get_req_id b m = Inr rid" "get_status b m = Inr st" "16 \<le> resp_size opts" "resp_size opts \<le> BUF_SIZE"
  shows "\<exists>d. build_reply m opts x = Inr ((), x\<lparr>send_buf := Some d, reply_mode := mode_of_nat (mode opts)\<rparr>) \<and> length d = BUF_SIZE \<and>
    response rid (resp_size opts) st (take (resp_size opts) d)"
proof -
  obtain d where d: "conn_prepare_send_message x = Inr (0, x\<lparr>send_buf := Some d\<rparr>)" "length d = BUF_SIZE" "get_req_size d 0 = Inr BUF_SIZE"
    using idle_prepare [OF assms(1)] by blast
  have b: "rid < 2 ^ 32" "st < 2 ^ 32" using rd_bound assms(3,4) by (fastforce simp: get_req_id_def get_status_def)+
  have "resp_size opts < 2 ^ 32" using assms(6) by (simp add: BUF_SIZE_def)
  then obtain d1 d2 d3 d4 where w: "set_req_id d 0 rid = Inr d1" "set_req_size d1 0 (resp_size opts) = Inr d2"
      "set_cmd d2 (message_first_cmd 0) EOM = Inr d3" "put_status d3 0 st = Inr d4" "length d4 = BUF_SIZE"
      "response rid (resp_size opts) st (take (resp_size opts) d4)"
    using header_written [of "resp_size opts" d rid st] assms(5,6) b d(2) by auto
  then show ?thesis using d(1,3) assms(2-4,6) by (auto simp: build_reply_def the_buf_def)
qed

lemma start_send_all:
  assumes "idle x" "send_buf x = Some d" "length d = BUF_SIZE" "get_req_size d 0 = Inr sz" "0 < sz" "sz \<le> BUF_SIZE"
    "fst (sendto_res env) = int sz"
  shows "\<exists>x'. conn_start_send env tgt x = Inr (int sz, take sz d, x') \<and> idle x' \<and> recv_buf x' = recv_buf x \<and>
    curr_proc_buf x' = curr_proc_buf x \<and> curr_recv_buf x' = curr_recv_buf x \<and> enable_defrag x' = enable_defrag x \<and> req_list x' = req_list x \<and>
    serialize_request x' = serialize_request x \<and> send_buf x' = Some d"
proof -
  obtain er where s: "sendto_res env = (int sz, er)" using assms(7) by (cases "sendto_res env") auto
  let ?x = "x\<lparr>target := tgt, curr_send_buf := 0, curr_send_size := sz\<rparr>"
  have i: "curr_send_size x = 0" "curr_send_buf x = 0" "status x = READY" "\<not> use_ssl x" "conn_inv x" using assms(1) by (auto simp: idle_def)
  have "sent_bytes (int sz) ?x = Inr (take sz d)" using assms(2,3,6) by (simp add: sent_bytes_def the_buf_def slice_ok)
  then show ?thesis using s i assms(2-6)
    by (auto simp: conn_start_send_def the_buf_def Let_def conn_send_def advance_send_def idle_def conn_inv_def)
qed

lemma upd_conn_twice: "upd_conn c f (upd_conn c g s) = upd_conn c (\<lambda>x. f (g x)) s"
  by (simp add: upd_conn_def)

lemma n_start_send_run:
  assumes "conn_start_send (sends e (calls n)) tgt (conns (tbl n) c) = Inr (rv, out, x)"
  shows "nbind (n_start_send e c tgt) f n =
    f rv (n\<lparr>calls := calls n + 1, tbl := upd_conn c (\<lambda>_. x) (tbl n), trace := trace n @ [E_Sent c out]\<rparr>)"
  using assms by (simp add: n_start_send_def nbind_assoc act_simps)

text \<open>
  \<open>same_stream x x'\<close>: as far as the received stream and sending go, the connection is as before. \<open>freed r s s'\<close>: the table has lost the
  request \<open>r\<close> and no other.
\<close>

definition same_stream :: "conn_info_t \<Rightarrow> conn_info_t \<Rightarrow> bool" where
  "same_stream x x' \<longleftrightarrow> (idle x \<longrightarrow> idle x') \<and> unproc x' = unproc x \<and> enable_defrag x' = enable_defrag x \<and>
     serialize_request x' = serialize_request x"

definition freed :: "nat \<Rightarrow> dw_state \<Rightarrow> dw_state \<Rightarrow> bool" where
  "freed r s s' \<longleftrightarrow> last_reqs s' = last_reqs s \<and> (\<forall>j. req_id (reqs s' j) = (if j = r then -1 else req_id (reqs s j)))"

lemma same_stream_trans: "same_stream x y \<Longrightarrow> same_stream y z \<Longrightarrow> same_stream x z"
  by (simp add: same_stream_def)

lemma last_reqs_unlink [simp]: "last_reqs (snd (req_unlink r s)) = last_reqs s"
  by (simp add: req_unlink_def Let_def upd_link_def upd_req_def split: option.split)

lemma conn_req_remove_laid_out:
  assumes "laid_out c newer r older p k s"
  shows "\<exists>v s'. conn_req_remove c r s = Some (Inr (v, s')) \<and> req_lists c (newer @ older) s' \<and> freed r s s' \<and>
    same_stream (conns s c) (conns s' c)"
proof -
  let ?c = "conns s c"
  obtain b' where b': "req_defrag c r s = Some (Inr (shift_all k (set newer) (upd_conn c (\<lambda>_.
        ?c\<lparr>recv_buf := Some b', curr_recv_buf := curr_recv_buf ?c - k,
        curr_proc_buf := curr_proc_buf ?c - k, curr_recv_size := curr_recv_size ?c + k\<rparr>) s)))"
      "length b' = BUF_SIZE"
      "\<forall>i n. p + k \<le> i \<and> i + n \<le> curr_recv_buf ?c \<longrightarrow> slice b' (i - k) n = slice (the (recv_buf ?c)) i n"
    using req_defrag_ok [OF assms] unfolding Let_def by blast
  have l: "conn_inv ?c" "p + k \<le> curr_proc_buf ?c" using assms by (simp_all add: laid_out_def)
  note ci = conn_inv_defrag [OF l b'(2,3)]
  define s1 where "s1 = shift_all k (set newer) (upd_conn c (\<lambda>_. ?c\<lparr>recv_buf := Some b', curr_recv_buf := curr_recv_buf ?c - k,
        curr_proc_buf := curr_proc_buf ?c - k, curr_recv_size := curr_recv_size ?c + k\<rparr>) s)"
  define s2 where "s2 = (if req_list (conns s1 c) = Some r then upd_conn c (req_list_update (\<lambda>_. nxt (reqs s1 r))) s1 else s1)"
  have "req_lists c (newer @ r # older) s1" using assms by (simp add: laid_out_def req_lists_def s1_def)
  note u = req_lists_unlink [OF this, folded s2_def]
  have "conn_req_remove c r s = Some (Inr (req_unlink r s2))"
    using b'(1) by (simp add: conn_req_remove_def s1_def s2_def)
  moreover have "freed r s (snd (req_unlink r s2))"
    by (simp add: freed_def req_id_unlink) (simp add: s2_def s1_def shift_all_def shifted_def)
  moreover have "same_stream ?c (conns (snd (req_unlink r s2)) c)"
    using ci by (auto simp: s2_def s1_def same_stream_def idle_def conn_inv_def unproc_def split: option.splits)
  ultimately show ?thesis using u(1) by (metis prod.collapse)
qed

lemma laid_out_sent:
  assumes "laid_out c newer r older p k s" "conn_inv x" "recv_buf x = recv_buf (conns s c)" "curr_proc_buf x = curr_proc_buf (conns s c)"
    "enable_defrag x = enable_defrag (conns s c)" "req_list x = req_list (conns s c)"
  shows "laid_out c newer r older p k (upd_conn c (\<lambda>_. x) s)"
  using assms by (simp add: laid_out_def req_lists_def)

text \<open>The whole of \<^verbatim>\<open>reply\<close> on an idle connection when the kernel takes all bytes.\<close>

lemma reply_sent:
  assumes l: "laid_out c newer r older m len (tbl n)" and c: "conn_id (reqs (tbl n) r) = int c"
    and i: "idle (conns (tbl n) c)" and b: "recv_buf (conns (tbl n) c) = Some b"
    and o: "get_reply_opts b cmd = Inr opts" "mode opts = 0" "16 \<le> resp_size opts" "resp_size opts \<le> BUF_SIZE"
    and h: "get_req_id b m = Inr rid" "get_status b m = Inr st"
    and k: "fst (sendto_res (sends e (calls n))) = int (resp_size opts)"
  shows "\<exists>out n'. reply e r cmd n = Some (Inr (int (resp_size opts), n')) \<and> trace n' = trace n @ [E_Sent c out] \<and>
    response rid (resp_size opts) st out \<and> req_lists c (newer @ older) (tbl n') \<and> freed r (tbl n) (tbl n') \<and>
    same_stream (conns (tbl n) c) (conns (tbl n') c) \<and> infos n' = (infos n)\<lparr>active_reqs := active_reqs (infos n) - 1\<rparr>"
proof -
  let ?q = "reqs (tbl n) r"
  define x where "x = conns (tbl n) c"
  have mp: "message_ptr ?q = Some m" using l by (simp add: laid_out_def)
  obtain d where d: "build_reply m opts x = Inr ((), x\<lparr>send_buf := Some d, reply_mode := mode_of_nat (mode opts)\<rparr>)" "length d = BUF_SIZE"
      "response rid (resp_size opts) st (take (resp_size opts) d)"
    using build_reply_ok [OF i b h o(3,4)] unfolding x_def by blast
  let ?x1 = "x\<lparr>send_buf := Some d, reply_mode := mode_of_nat (mode opts)\<rparr>"
  have i1: "idle ?x1" using i d(2) by (auto simp: idle_def conn_inv_def x_def)
  have "get_req_size d 0 = Inr (resp_size opts)"
    using d(2,3) o(3,4) rd_take [of 4 4 "resp_size opts" d] by (simp add: response_def get_req_size_def)
  then obtain x2 where x2: "conn_start_send (sends e (calls n)) (req_target ?q) ?x1 = Inr (int (resp_size opts), take (resp_size opts) d, x2)"
      "idle x2" "recv_buf x2 = recv_buf x" "curr_proc_buf x2 = curr_proc_buf x" "enable_defrag x2 = enable_defrag x" "req_list x2 = req_list x"
      "curr_recv_buf x2 = curr_recv_buf x" "serialize_request x2 = serialize_request x"
    using start_send_all [OF i1, of d "resp_size opts" "sends e (calls n)" "req_target ?q"] d(2) o(3,4) k by auto
  let ?s = "upd_conn c (\<lambda>_. x2) (tbl n)"
  have "laid_out c newer r older m len ?s" using laid_out_sent [OF l, of x2] x2 by (simp add: idle_def x_def)
  then obtain v s' where s': "conn_req_remove c r ?s = Some (Inr (v, s'))" "req_lists c (newer @ older) s'" "freed r ?s s'"
      "same_stream (conns ?s c) (conns s' c)"
    using conn_req_remove_laid_out by blast
  have "same_stream x x2" using x2 by (simp add: same_stream_def unproc_def split: option.split)
  then have st: "same_stream x (conns s' c)" using s'(4) by (auto intro: same_stream_trans)
  let ?n' = "n\<lparr>tbl := s', infos := (infos n)\<lparr>active_reqs := active_reqs (infos n) - 1\<rparr>, calls := calls n + 1,
    trace := trace n @ [E_Sent c (take (resp_size opts) d)]\<rparr>"
  have "reply e r cmd n = Some (Inr (int (resp_size opts), ?n'))"
    using o b c d(1) x2(1) s'(1)
    by (simp add: reply_def nbind_msg_of [OF mp] act_simps n_start_send_run Let_def upd_conn_twice x_def [symmetric] nbind_on_tbl)
  then show ?thesis using d(3) s' st by (intro exI [of _ "take (resp_size opts) d"] exI [of _ ?n']) (simp add: freed_def x_def)
qed

lemma exec_reply:
  assumes "reply e r cmd n = Some (Inr (rv, n'))" "rv \<noteq> 0" "conn_id (reqs (tbl n) r) = int c" "status (conns (tbl n') c) = READY"
  shows "exec_cmd e r b me cmd REPLY n = Some (Inr (Return 1, n'))"
  using assms by (simp add: exec_cmd_def nbind_assoc act_simps nbind_run [where m = "reply e r cmd", OF assms(1)] after_reply_def)

section \<open>A forward to the next node\<close>

text \<open>
  \<open>request_copy rid sz ts bs out\<close>: the bytes \<open>out\<close> are a request of \<open>sz\<close> bytes with the id \<open>rid\<close> and the commands \<open>ts\<close>, which are the
  bytes \<open>bs\<close>, followed by \<^verbatim>\<open>EOM\<close>.
\<close>

definition request_copy :: "nat \<Rightarrow> nat \<Rightarrow> command_type_t list \<Rightarrow> bytes \<Rightarrow> bytes \<Rightarrow> bool" where
  "request_copy rid sz ts bs out \<longleftrightarrow> length out = sz \<and> get_req_id out 0 = Inr rid \<and> get_req_size out 0 = Inr sz \<and>
     cmds_at out sz (message_first_cmd 0) (ts @ [EOM]) \<and> slice out (message_first_cmd 0) (cmds_len ts) = Inr bs"

lemma slice_take: "i + k \<le> n \<Longrightarrow> n \<le> length d \<Longrightarrow> slice (take n d) i k = slice d i k"
  by (simp add: slice_def drop_take min_def)

text \<open>The header fields of the copy are overwritten with the id and the size of the forward.\<close>

lemma header_forwarded:
  assumes "cmds_at d (L + 16) 12 (ts @ [EOM])" "slice d 12 L = Inr bs" "L = cmds_len ts" "L + 16 \<le> sz" "sz \<le> length d" "sz < 2 ^ 32" "rid < 2 ^ 32"
  shows "\<exists>d1 d2. set_req_id d 0 rid = Inr d1 \<and> set_req_size d1 0 sz = Inr d2 \<and> length d2 = length d \<and> request_copy rid sz ts bs (take sz d2)"
proof -
  obtain d1 where d1: "wr 4 d 0 rid = Inr d1" "length d1 = length d" using wr_ok [of 0 4 d rid] assms(4,5) by auto
  obtain d2 where d2: "wr 4 d1 4 sz = Inr d2" "length d2 = length d" using wr_ok [of 4 4 d1 sz] assms(4,5) d1(2) by auto
  have "rd 4 d2 0 = Inr rid" using rd_wr_same [OF d1(1)] rd_wr_other [OF d2(1), of 0 4] assms(7) by simp
  moreover have "rd 4 d2 4 = Inr sz" using rd_wr_same [OF d2(1)] assms(6) by simp
  moreover have sl: "slice (take sz d2) 12 k = slice d 12 k" if "k \<le> L + 4" for k
    using that assms(4,5) d2(2) slice_take [of 12 k sz d2] slice_wr_other [OF d1(1), of 12 k] slice_wr_other [OF d2(1), of 12 k] by simp
  moreover have "cmds_at (take sz d2) sz 12 (ts @ [EOM])"
  proof -
    have l: "cmds_len (ts @ [EOM]) = L + 4" using assms(3) by (simp add: sizeof_defs)
    then obtain bs' where "slice d 12 (cmds_len (ts @ [EOM])) = Inr bs'" using assms(4,5) by (simp add: slice_def)
    then show ?thesis using cmds_at_copy [OF assms(1), of bs' "take sz d2" 12 sz] sl [of "L + 4"] l assms(4) by simp
  qed
  ultimately have "request_copy rid sz ts bs (take sz d2)"
    using assms(2-5) d2(2) sl [of L] by (simp add: request_copy_def field_defs rd_take)
  then show ?thesis using d1(1) d2 by (simp add: set_req_id_def set_req_size_def)
qed

lemma build_forward_ok:
  assumes "idle x" "sock x \<noteq> -1" "get_req_id b m = Inr cid" "message_end b m = Inr me" "me \<le> length b" "list_all ctx_wf body"
    "cmds_at b me q (concat (map ctx_cmds body) @ [REPLY])" "ts = concat (map ctx_cmds body) @ [REPLY]" "slice b q (cmds_len ts) = Inr bs"
    "cmds_len ts + 16 \<le> sz" "sz \<le> BUF_SIZE" "0 \<le> rid" "rid < 2 ^ 32"
  shows "\<exists>d. build_forward b m (Some q) rid sz x = Inr (True, x\<lparr>send_buf := Some d\<rparr>) \<and> length d = BUF_SIZE \<and>
    request_copy (nat rid) sz ts bs (take sz d)"
proof -
  have B: "BUF_SIZE < 2 ^ 32" by (simp add: BUF_SIZE_def)
  obtain d where d: "conn_prepare_send_message x = Inr (0, x\<lparr>send_buf := Some d\<rparr>)" "length d = BUF_SIZE" "get_req_size d 0 = Inr BUF_SIZE"
    using idle_prepare [OF assms(1)] by blast
  obtain r d' where c: "message_copy_tail b m d 0 (Some q) = Inr (Some r, d')" "length d' = BUF_SIZE"
      "cmds_at d' (cmds_len ts + 16) 12 (ts @ [EOM])" "slice d' 12 (cmds_len ts) = Inr bs"
    using copy_tail_ok [OF assms(3-7) d(3), of "cmds_len ts"] assms(8-11) d(2) B by (auto simp: message_first_cmd_def sizeof_message_t_def)
  obtain d1 d2 where h: "set_req_id d' 0 (nat rid) = Inr d1" "set_req_size d1 0 sz = Inr d2" "length d2 = BUF_SIZE"
      "request_copy (nat rid) sz ts bs (take sz d2)"
    using header_forwarded [OF c(3,4) refl assms(10), of "nat rid"] assms(11-13) c(2) B by (auto simp: nat_less_iff)
  have "nat (rid mod 2 ^ 32) = nat rid" using assms(12,13) by simp
  then show ?thesis using d c h assms(2,11) by (auto simp: build_forward_def the_buf_def)
qed

text \<open>Arming the timeout of a forward changes the timer and the entry of the request only.\<close>

lemma insert_timeout_frame:
  "insert_timeout cur rid us w s = Some (Inr (tm, w', s')) \<Longrightarrow> s' = s \<or> (\<exists>r x. s' = upd_req r (timeout_node_update (\<lambda>_. x)) s)"
  by (auto simp: insert_timeout_def obind_eq_Inr split: option.splits if_splits)

lemma n_insert_timeout_runs:
  assumes "timeouts_inv (timeout_queue (infos n)) (tbl n)" "\<forall>j. 0 \<le> sys_rv e j" "insert_fits (timers e (calls n)) us (infos n)"
  shows "\<exists>n' evs. n_insert_timeout e rid us n = Some (Inr ((), n')) \<and> trace n' = trace n @ evs \<and> set evs \<subseteq> range E_Settime \<and>
    (tbl n' = tbl n \<or> (\<exists>r x. tbl n' = upd_req r (timeout_node_update (\<lambda>_. x)) (tbl n)))"
proof -
  obtain tm w s where i: "insert_timeout (timers e (calls n)) rid us (infos n) (tbl n) = Some (Inr (tm, w, s))"
    using insert_timeout_inv [OF assms(1)] assms(3) by blast
  note fr = insert_timeout_frame [OF i]
  have "\<not> sys_rv e j < 0" for j using assms(2) by (simp add: not_less)
  then show ?thesis using i fr
    by (cases tm) (auto simp: n_insert_timeout_def act_simps nbind_def set_timer_def sys_check_def call_def ret_def emit_def modify_def)
qed

text \<open>The requests of two tables agree in all fields but the entry of the timeout.\<close>

definition req_same :: "'a req_table_scheme \<Rightarrow> 'a req_table_scheme \<Rightarrow> bool" where
  "req_same s s' \<longleftrightarrow> (\<forall>i. (reqs s' i)\<lparr>timeout_node := None\<rparr> = (reqs s i)\<lparr>timeout_node := None\<rparr>)"

lemma req_same_fields:
  assumes "req_same s s'"
  shows "message_ptr (reqs s' i) = message_ptr (reqs s i)" "curr_cmd (reqs s' i) = curr_cmd (reqs s i)" "conn_id (reqs s' i) = conn_id (reqs s i)"
    "req_id (reqs s' i) = req_id (reqs s i)" "fwd_replies_left (reqs s' i) = fwd_replies_left (reqs s i)"
    "fwd_replies_mask (reqs s' i) = fwd_replies_mask (reqs s i)"
proof -
  have e: "(reqs s' i)\<lparr>timeout_node := None\<rparr> = (reqs s i)\<lparr>timeout_node := None\<rparr>" using assms by (simp add: req_same_def)
  show "message_ptr (reqs s' i) = message_ptr (reqs s i)" using arg_cong [OF e, of message_ptr] by simp
  show "curr_cmd (reqs s' i) = curr_cmd (reqs s i)" using arg_cong [OF e, of curr_cmd] by simp
  show "conn_id (reqs s' i) = conn_id (reqs s i)" using arg_cong [OF e, of conn_id] by simp
  show "req_id (reqs s' i) = req_id (reqs s i)" using arg_cong [OF e, of req_id] by simp
  show "fwd_replies_left (reqs s' i) = fwd_replies_left (reqs s i)" using arg_cong [OF e, of fwd_replies_left] by simp
  show "fwd_replies_mask (reqs s' i) = fwd_replies_mask (reqs s i)" using arg_cong [OF e, of fwd_replies_mask] by simp
qed

lemma req_same_timeout: "s' = s \<or> (\<exists>r x. s' = upd_req r (timeout_node_update (\<lambda>_. x)) s) \<Longrightarrow> req_same s s'"
  by (auto simp: req_same_def reqs_upd_req)

lemma skip_continue_none:
  assumes "cmds_at b me q (t # ts)" "t \<noteq> FORWARD_CONTINUE"
  shows "skip_continue b (Some q) me = Inr (Some q)"
  using assms by (subst skip_continue.simps) simp

text \<open>The branch is handed to the connection of the next node, and its timeout is armed.\<close>

lemma send_forward_ok:
  assumes x: "idle (conns (tbl n) fc)" "sock (conns (tbl n) fc) \<noteq> -1"
    and m: "get_req_id b m = Inr cid" "message_end b m = Inr me" "me \<le> length b"
    and t: "list_all ctx_wf body" "cmds_at b me p (FORWARD_BEGIN # concat (map ctx_cmds body) @ [REPLY])"
      "ts = concat (map ctx_cmds body) @ [REPLY]" "slice b (p + cmd_type_size FORWARD_BEGIN) (cmds_len ts) = Inr bs"
    and z: "cmds_len ts + 16 \<le> pkt_size f" "pkt_size f \<le> BUF_SIZE" "0 \<le> req_id (reqs (tbl n) r)" "req_id (reqs (tbl n) r) < 2 ^ 32"
    and k: "fst (sendto_res (sends e (calls n))) = int (pkt_size f)" "\<forall>j. 0 \<le> sys_rv e j" "timeouts_inv (timeout_queue (infos n)) (tbl n)"
      "fwd_timeout (reqs (tbl n) r) \<noteq> 0 \<longrightarrow> insert_fits (timers e (calls n + 1)) (fwd_timeout (reqs (tbl n) r)) (infos n)"
  shows "\<exists>n' out evs. send_forward e r b m me p f addr fc n = Some (Inr (Some p, n')) \<and> trace n' = trace n @ E_Sent fc out # evs \<and>
    set evs \<subseteq> range E_Settime \<and> request_copy (nat (req_id (reqs (tbl n) r))) (pkt_size f) ts bs out \<and> req_same (tbl n) (tbl n') \<and>
    (\<forall>j. j \<noteq> fc \<longrightarrow> conns (tbl n') j = conns (tbl n) j)"
proof -
  let ?q = "p + cmd_type_size FORWARD_BEGIN" and ?x = "conns (tbl n) fc" and ?r = "reqs (tbl n) r"
  obtain u us where u: "concat (map ctx_cmds body) @ [REPLY] = u # us" "u \<notin> {FORWARD_CONTINUE, EOM}"
    using ctxs_hd [OF t(1), of REPLY] by auto
  have at: "cmds_at b me ?q (u # us)" using t(2) u(1) by simp
  have "cmd_bounded_next b p me = Inr (Some ?q)" using t(2) at by (simp add: cmd_bounded_next_Some)
  then have nx: "rbind (cmd_bounded_next b p me) (\<lambda>nx. skip_continue b nx me) = Inr (Some ?q)" using skip_continue_none [OF at] u(2) by simp
  obtain d where d: "build_forward b m (Some ?q) (req_id ?r) (pkt_size f) ?x = Inr (True, ?x\<lparr>send_buf := Some d\<rparr>)" "length d = BUF_SIZE"
      "request_copy (nat (req_id ?r)) (pkt_size f) ts bs (take (pkt_size f) d)"
    using build_forward_ok [OF x m t(1) _ t(3,4) z] t(2) by auto
  have i1: "idle (?x\<lparr>send_buf := Some d\<rparr>)" using x(1) d(2) by (auto simp: idle_def conn_inv_def)
  have g: "get_req_size d 0 = Inr (pkt_size f)" using d(2,3) z(1,2) rd_take [of 4 4 "pkt_size f" d] by (simp add: request_copy_def get_req_size_def)
  obtain x2 where x2: "conn_start_send (sends e (calls n)) addr (?x\<lparr>send_buf := Some d\<rparr>) = Inr (int (pkt_size f), take (pkt_size f) d, x2)"
    using start_send_all [OF i1 _ d(2) g, of "sends e (calls n)" addr] z(1,2) k(1) by auto
  let ?n = "n\<lparr>calls := calls n + 1, tbl := upd_conn fc (\<lambda>_. x2) (tbl n), trace := trace n @ [E_Sent fc (take (pkt_size f) d)]\<rparr>"
  have inv: "timeouts_inv (timeout_queue (infos ?n)) (tbl ?n)" using timeouts_inv_frame [of "tbl ?n" "tbl n"] k(3) by simp
  have run: "send_forward e r b m me p f addr fc n =
      nbind (if fwd_timeout ?r \<noteq> 0 then n_insert_timeout e (req_id ?r) (fwd_timeout ?r) else ret ()) (\<lambda>_. ret (Some p)) ?n"
    using d(1) x2 nx by (simp add: send_forward_def act_simps n_start_send_run upd_conn_twice)
  show ?thesis
  proof (cases "fwd_timeout ?r = 0")
    case True
    then show ?thesis using run d(3) by (intro exI [of _ ?n] exI [of _ "take (pkt_size f) d"] exI [of _ "[]"]) (simp add: act_simps req_same_def)
  next
    case False
    have fits: "insert_fits (timers e (calls ?n)) (fwd_timeout ?r) (infos ?n)" using k(4) False by simp
    obtain n' evs where n': "n_insert_timeout e (req_id ?r) (fwd_timeout ?r) ?n = Some (Inr ((), n'))" "trace n' = trace ?n @ evs"
        "set evs \<subseteq> range E_Settime" "tbl n' = tbl ?n \<or> (\<exists>r x. tbl n' = upd_req r (timeout_node_update (\<lambda>_. x)) (tbl ?n))"
      using n_insert_timeout_runs [OF inv k(2) fits] by blast
    have "send_forward e r b m me p f addr fc n = Some (Inr (Some p, n'))" using run False n'(1) by (simp add: nbind_def ret_def)
    moreover have "req_same (tbl n) (tbl n')" using req_same_timeout [OF n'(4)] by (simp add: req_same_def)
    moreover have "conns (tbl n') j = conns (tbl n) j" if "j \<noteq> fc" for j using n'(4) that by auto
    ultimately show ?thesis using n'(2,3) d(3) by (intro exI [of _ n'] exI [of _ "take (pkt_size f) d"] exI [of _ evs]) simp
  qed
qed

lemma fwd_addr_of_opts: "get_fwd_opts b p = Inr f \<Longrightarrow> get_fwd_addr b p = Inr (fwd_host f, fwd_port f)"
  by (auto simp: get_fwd_opts_def get_fwd_addr_def Let_def rbind_eq_Inr)

text \<open>The bookkeeping of a forward that starts.\<close>

definition fwd_started :: "nat \<Rightarrow> fwd_opts_t \<Rightarrow> req_info_t \<Rightarrow> req_info_t" where
  "fwd_started p f q = q\<lparr>curr_cmd := Some p, fwd_replies_left := int (n_ack f), fwd_replies_mask := 0,
     fwd_timeout := i32 (int (timeout f)), fwd_retries := int (retries f), fwd_on_fail_skip := int (on_fail_skip f)\<rparr>"

lemma start_forward_single:
  assumes q: "message_ptr (reqs (tbl n) r) = Some m" "recv_buf (conns (tbl n) (nat (conn_id (reqs (tbl n) r)))) = Some b"
      "fwd_replies_left (reqs (tbl n) r) = -1" "curr_cmd (reqs (tbl n) r) = Some p"
    and c: "get_cmd b p = Inr FORWARD_BEGIN" "get_fwd_opts b p = Inr f" "message_end b m = Inr me" "cmd_bounded_next_forward b (Some p) me = Inr None"
    and s: "conn_find_existing (this_thread e) \<lparr>sin_addr = fwd_host f, sin_port = fwd_port f\<rparr> (proto_of_nat (proto f)) (tbl n) = int fc"
    and n1: "n1 = n\<lparr>tbl := upd_req r (fwd_started p f) (tbl n)\<rparr>"
    and r: "send_forward e r b m me p f \<lparr>sin_addr = fwd_host f, sin_port = fwd_port f\<rparr> fc n1 = Some (Inr (Some p, n'))"
  shows "start_forward e r p n = Some (Inr (Some p, n'))"
proof -
  let ?g = "\<lambda>q. q\<lparr>fwd_replies_left := int (n_ack f), fwd_replies_mask := 0, fwd_timeout := i32 (int (timeout f)),
     fwd_retries := int (retries f), fwd_on_fail_skip := int (on_fail_skip f)\<rparr>"
  have "reqs (upd_req r ?g (tbl n)) = reqs (upd_req r (fwd_started p f) (tbl n))"
    using q(4) by (auto simp: reqs_upd_req fwd_started_def fun_eq_iff)
  then have n1': "n\<lparr>tbl := upd_req r ?g (tbl n)\<rparr> = n1" unfolding n1 by (simp add: upd_req_def)
  have "find_forward_reply_id b (Some p) (fwd_host f, fwd_port f) me 0 = Inr 0"
    using fwd_addr_of_opts [OF c(2)] by (subst find_forward_reply_id.simps) simp
  moreover have "mask_test 0 0 = Inr False" by (simp add: mask_test_def)
  moreover have "conn_find_existing t a pr (tbl n1) = conn_find_existing t a pr (tbl n)" for t a pr
    by (simp add: n1 conn_find_existing_def conn_find_def)
  moreover have "reqs (tbl n1) r = fwd_started p f (reqs (tbl n) r)" by (simp add: n1 reqs_upd_req)
  ultimately have "single_start_forward e r b m p n1 = Some (Inr (Some p, n'))"
    using c(2,3) s r by (simp add: single_start_forward_def act_simps Let_def fwd_started_def)
  then have "forward_branches e r b m me (Some p) n1 = Some (Inr (True, n'))"
    using c(4) by (simp add: forward_branches.simps)
  then show ?thesis using q c(1-3) n1'
    by (simp add: start_forward_def nbind_msg_of act_simps nbind_run [where m = "forward_branches e r b m me (Some p)"])
qed

text \<open>C3. A forward to one node over an open connection: the node sends a single message to it, with the node's own id of the request, the
  packet size of the forward and exactly the commands of the branch up to and including its \<^verbatim>\<open>REPLY\<close>, byte for byte, then \<^verbatim>\<open>EOM\<close>. After that
  at most the timer is set (the deadline of a forward with a timeout is in the range of \<^verbatim>\<open>int\<close>). The request is left waiting at the forward for the number of replies that the forward asks for, and no other
  connection changes.
\<close>

theorem forward_sent:
  assumes q: "message_ptr (reqs (tbl n) r) = Some m" "conn_id (reqs (tbl n) r) = int c" "recv_buf (conns (tbl n) c) = Some b"
      "fwd_replies_left (reqs (tbl n) r) = -1" "curr_cmd (reqs (tbl n) r) = Some p" "req_get_by_id rid (tbl n) = Some r" "0 \<le> rid" "rid < 2 ^ 32"
    and m: "get_req_id b m = Inr cid" "message_end b m = Inr me" "me \<le> length b" "m + 12 \<le> p"
    and t: "list_all ctx_wf body" "cmds_at b me p (FORWARD_BEGIN # concat (map ctx_cmds body) @ [REPLY, tn])" "tn \<noteq> FORWARD_CONTINUE"
      "ts = concat (map ctx_cmds body) @ [REPLY]" "slice b (p + cmd_type_size FORWARD_BEGIN) (cmds_len ts) = Inr bs"
    and f: "get_fwd_opts b p = Inr f" "cmds_len ts + 16 \<le> pkt_size f" "pkt_size f \<le> BUF_SIZE"
    and s: "conn_find_existing (this_thread e) \<lparr>sin_addr = fwd_host f, sin_port = fwd_port f\<rparr> (proto_of_nat (proto f)) (tbl n) = int fc"
      "fc \<noteq> c" "idle (conns (tbl n) fc)" "sock (conns (tbl n) fc) \<noteq> -1"
    and k: "\<forall>j. fst (sendto_res (sends e j)) = int (pkt_size f)" "\<forall>j. 0 \<le> sys_rv e j" "timeouts_inv (timeout_queue (infos n)) (tbl n)"
      "timeout f \<noteq> 0 \<longrightarrow> insert_fits (timers e (calls n + 1)) (i32 (int (timeout f))) (infos n)"
  shows "\<exists>n' out evs. process_single_message e r n = Some (Inr (0, n')) \<and> trace n' = trace n @ E_Sent fc out # evs \<and>
    set evs \<subseteq> range E_Settime \<and> request_copy (nat rid) (pkt_size f) ts bs out \<and> waits_for_forward r rid b m me p n' \<and>
    fwd_replies_left (reqs (tbl n') r) = int (n_ack f) \<and> fwd_replies_mask (reqs (tbl n') r) = 0 \<and>
    (\<forall>j. j \<noteq> fc \<longrightarrow> conns (tbl n') j = conns (tbl n) j)"
proof -
  have rid: "r = req_slot rid" "req_id (reqs (tbl n) r) = rid" using req_get_by_id_slot [OF q(6)] by auto
  define n1 where "n1 = n\<lparr>tbl := upd_req r (fwd_started p f) (tbl n)\<rparr>"
  have n1: "conns (tbl n1) = conns (tbl n)" "req_id (reqs (tbl n1) r) = rid" "infos n1 = infos n" "trace n1 = trace n"
      "reqs (tbl n1) r = fwd_started p f (reqs (tbl n) r)"
    using rid by (simp_all add: n1_def reqs_upd_req fwd_started_def)
  have inv: "timeouts_inv (timeout_queue (infos n1)) (tbl n1)"
    unfolding n1(3) by (rule timeouts_inv_frame [OF _ k(3)]) (simp add: n1_def reqs_upd_req fwd_started_def)
  let ?a = "\<lparr>sin_addr = fwd_host f, sin_port = fwd_port f\<rparr>"
  have "idle (conns (tbl n1) fc)" "sock (conns (tbl n1) fc) \<noteq> -1" using s(3,4) n1(1) by simp_all
  moreover have "cmds_at b me p (FORWARD_BEGIN # concat (map ctx_cmds body) @ [REPLY])" using t(2) by simp
  moreover have "fwd_timeout (reqs (tbl n1) r) = i32 (int (timeout f))" "calls n1 = calls n" using n1(5) by (simp_all add: fwd_started_def n1_def)
  then have "fwd_timeout (reqs (tbl n1) r) \<noteq> 0 \<longrightarrow> insert_fits (timers e (calls n1 + 1)) (fwd_timeout (reqs (tbl n1) r)) (infos n1)"
    using k(4) n1(3) i32_id [of 0] by auto
  ultimately obtain n' out evs where n': "send_forward e r b m me p f ?a fc n1 = Some (Inr (Some p, n'))" "trace n' = trace n1 @ E_Sent fc out # evs"
      "set evs \<subseteq> range E_Settime" "request_copy (nat (req_id (reqs (tbl n1) r))) (pkt_size f) ts bs out" "req_same (tbl n1) (tbl n')"
      "\<forall>j. j \<noteq> fc \<longrightarrow> conns (tbl n') j = conns (tbl n1) j"
    using send_forward_ok [OF _ _ m(1-3) t(1) _ t(4,5) f(2,3), of n1 fc r e ?a] k inv n1(2) q(7,8) by auto
  have nf: "cmd_bounded_next_forward b (Some p) me = Inr None"
    using next_forward_branch [of FORWARD_BEGIN b p f body me tn] f(1) t(1-3) by simp
  have g: "get_cmd b p = Inr FORWARD_BEGIN" using t(2) by simp
  have "start_forward e r p n = Some (Inr (Some p, n'))"
    using start_forward_single [OF q(1) _ q(4,5) g f(1) m(2) nf s(1) n1_def n'(1)] q(2,3) by simp
  moreover have "(reqs (tbl n) r)\<lparr>curr_cmd := Some p\<rparr> = reqs (tbl n) r" using q(5) by (cases "reqs (tbl n) r") simp
  then have "n\<lparr>tbl := upd_req r (\<lambda>q. q\<lparr>curr_cmd := Some p\<rparr>) (tbl n)\<rparr> = n" by (simp add: upd_req_def)
  ultimately have "exec_cmd e r b me p FORWARD_BEGIN n = Some (Inr (Return 0, n'))"
    by (simp add: exec_cmd_def act_simps nbind_run [where m = "start_forward e r p"])
  then have "process_cmds e r b me (Some p) n = Some (Inr (0, n'))" using g by (subst process_cmds.simps) simp
  then have "process_single_message e r n = Some (Inr (0, n'))"
    using q(1-3,5) m(2) by (simp add: process_single_message_def nbind_msg_of act_simps)
  moreover note sf = req_same_fields [OF n'(5), of r]
  moreover have "waits_for_forward r rid b m me p n'"
    using sf n1 q(1-3) s(2) n'(6) m(2,4) rid q(7) by (auto simp: waits_for_forward_def Let_def req_get_by_id_def fwd_started_def)
  ultimately show ?thesis using n' n1 by (intro exI [of _ n'] exI [of _ out] exI [of _ evs]) (simp add: fwd_started_def)
qed

section \<open>A request with local work\<close>

text \<open>A request for local work is served in one call: its commands are carried out in the order of the message, each \<^verbatim>\<open>COMPUTE\<close> for its
  time and each \<^verbatim>\<open>STORE\<close> handed to its storage worker under the id of the request, and then exactly one response goes to the client, with
  the client's id, the recorded status, the requested size and no commands. The request is freed, and the other requests
  of the connection stay as they are in their list.
\<close>

lemma local_served:
  assumes l: "laid_out c newer r older m len (tbl n)" and c: "conn_id (reqs (tbl n) r) = int c"
    and i: "idle (conns (tbl n) c)" and b: "recv_buf (conns (tbl n) c) = Some b" and p: "curr_cmd (reqs (tbl n) r) = Some p"
    and t: "cmds_at b (m + len) p (ts @ [REPLY])" "local_effects e (w_worker_id (infos n)) (req_id (reqs (tbl n) r)) b p ts = Some effs"
    and o: "get_reply_opts b (p + cmds_len ts) = Inr opts" "mode opts = 0" "16 \<le> resp_size opts" "resp_size opts \<le> BUF_SIZE"
    and h: "get_req_id b m = Inr rid" "get_status b m = Inr st"
    and k: "\<forall>j. 0 \<le> pipe_writes e j" "\<forall>j. fst (sendto_res (sends e j)) = int (resp_size opts)"
  shows "\<exists>out n'. process_single_message e r n = Some (Inr (1, n')) \<and> trace n' = trace n @ effs @ [E_Sent c out] \<and>
    response rid (resp_size opts) st out \<and> req_lists c (newer @ older) (tbl n') \<and> freed r (tbl n) (tbl n') \<and>
    same_stream (conns (tbl n) c) (conns (tbl n') c) \<and> infos n' = (infos n)\<lparr>active_reqs := active_reqs (infos n) - 1\<rparr>"
proof -
  let ?n = "n\<lparr>calls := calls n + n_stores ts, trace := trace n @ effs\<rparr>" and ?q = "p + cmds_len ts"
  have mp: "message_ptr (reqs (tbl n) r) = Some m" "get_req_size b m = Inr len" using l b by (auto simp: laid_out_def)
  obtain out n' where r: "reply e r ?q ?n = Some (Inr (int (resp_size opts), n'))" "trace n' = trace ?n @ [E_Sent c out]"
      "response rid (resp_size opts) st out" "req_lists c (newer @ older) (tbl n')" "freed r (tbl n) (tbl n')"
      "same_stream (conns (tbl n) c) (conns (tbl n') c)" "infos n' = (infos n)\<lparr>active_reqs := active_reqs (infos n) - 1\<rparr>"
    using reply_sent [of c newer r older m len ?n b ?q opts rid st e] l c i b o h k(2) by auto
  have "status (conns (tbl n') c) = READY" using r(6) i by (simp add: same_stream_def idle_def)
  note ex = exec_reply [OF r(1) _ _ this]
  have "process_single_message e r n = process_cmds e r b (m + len) (Some p) n"
    using mp b c p by (simp add: process_single_message_def nbind_msg_of act_simps message_end_def)
  also have "\<dots> = process_cmds e r b (m + len) (Some ?q) ?n" using process_cmds_local [OF t(2) _ _ k(1)] t(1) by blast
  also have "\<dots> = Some (Inr (1, n'))" using ex o(3) c t(1) by (subst process_cmds.simps) simp
  finally show ?thesis using r by auto
qed

section \<open>A concrete request\<close>

text \<open>A request to compute for 5 microseconds and to reply with 64 bytes.\<close>

definition served_bytes :: bytes where
  "served_bytes = [7, 0, 0, 0, 40, 0, 0, 0, 0, 0, 0, 0, 0, 0, 0, 0, 5, 0, 0, 0, 6, 0, 0, 0, 64, 0, 0, 0, 0, 0, 0, 0, 0, 0, 0, 0, 7, 0, 0, 0] @
     replicate (BUF_SIZE - 40) 0"

definition served_conn :: conn_info_t where
  "served_conn = blank_conn\<lparr>recv_buf := Some served_bytes, send_buf := Some (replicate BUF_SIZE 0), curr_recv_buf := 40, curr_proc_buf := 40,
     curr_recv_size := BUF_SIZE - 40, req_list := Some 0, status := READY\<rparr>"

definition served_env :: "unit node_env" where
  "served_env = idle_node_env\<lparr>sends := \<lambda>i. idle_env\<lparr>sendto_res := (64, E_OTHER)\<rparr>\<rparr>"

lemma served_fields:
  "length served_bytes = BUF_SIZE" "get_req_size served_bytes 0 = Inr 40" "get_req_id served_bytes 0 = Inr 7" "get_status served_bytes 0 = Inr 0"
  "get_comp_opts served_bytes 12 = Inr \<lparr>comp_time_us = 5\<rparr>"
  "get_reply_opts served_bytes 20 = Inr \<lparr>resp_size = 64, mode = 0, r_dev_id = 0\<rparr>"
  "get_cmd served_bytes 12 = Inr COMPUTE" "get_cmd served_bytes 20 = Inr REPLY"
proof -
  show l: "length served_bytes = BUF_SIZE" by (simp add: served_bytes_def BUF_SIZE_def)
  have r: "rd 4 served_bytes i = Inr (le_nat (take 4 (drop i served_bytes)))" "rd (Suc 0) served_bytes i = Inr (le_nat (take 1 (drop i served_bytes)))"
    if "i < 100" for i using that l by (simp_all add: rd_ok BUF_SIZE_def)
  show "get_req_size served_bytes 0 = Inr 40" "get_req_id served_bytes 0 = Inr 7" "get_status served_bytes 0 = Inr 0"
    "get_comp_opts served_bytes 12 = Inr \<lparr>comp_time_us = 5\<rparr>" "get_reply_opts served_bytes 20 = Inr \<lparr>resp_size = 64, mode = 0, r_dev_id = 0\<rparr>"
    "get_cmd served_bytes 12 = Inr COMPUTE" "get_cmd served_bytes 20 = Inr REPLY"
    by (simp_all add: field_defs get_comp_opts_def get_reply_opts_def sizeof_defs r Let_def command_of_nat_def) (simp_all add: served_bytes_def)
qed

section \<open>A concrete forward\<close>

text \<open>A request to forward to port 80 of the host 1 over TCP, in a packet of 100 bytes, a reply of 64 bytes, with a timeout of one millisecond.\<close>

definition fwd_bytes :: bytes where
  "fwd_bytes = [7, 0, 0, 0, 60, 0, 0, 0, 0, 0, 0, 0, 4, 0, 0, 0, 100, 0, 0, 0, 1, 0, 0, 0, 80, 0, 0, 0, 232, 3, 0, 0, 0, 1, 0, 0, 1, 0, 0, 0,
     6, 0, 0, 0, 64, 0, 0, 0, 0, 0, 0, 0, 0, 0, 0, 0, 7, 0, 0, 0] @ replicate (BUF_SIZE - 60) 0"

definition fwd_sample_opts :: fwd_opts_t where
  "fwd_sample_opts = \<lparr>pkt_size = 100, fwd_host = 1, fwd_port = 80, timeout = 1000, retries = 0, n_ack = 1, on_fail_skip = 0, branched = 0, proto = 1\<rparr>"

definition fwd_conn :: conn_info_t where
  "fwd_conn = blank_conn\<lparr>sock := 9, target := \<lparr>sin_addr = 1, sin_port = 80\<rparr>, recv_buf := Some (replicate BUF_SIZE 0),
     send_buf := Some (replicate BUF_SIZE 0), curr_recv_size := BUF_SIZE, status := READY\<rparr>"

definition fwd_node :: "unit node" where
  "fwd_node = idle_node\<lparr>tbl := \<lparr>reqs = (\<lambda>i. zero_req\<lparr>req_id := -1\<rparr>)
       (0 := zero_req\<lparr>req_id := 0, fwd_replies_left := -1, message_ptr := Some 0, curr_cmd := Some 12\<rparr>),
     last_reqs = 1, conns = (\<lambda>i. served_conn\<lparr>recv_buf := Some fwd_bytes\<rparr>)(1 := fwd_conn)\<rparr>\<rparr>"

definition fwd_env :: "unit node_env" where
  "fwd_env = idle_node_env\<lparr>sends := \<lambda>i. idle_env\<lparr>sendto_res := (100, E_OTHER)\<rparr>\<rparr>"

lemma fwd_fields:
  "length fwd_bytes = BUF_SIZE" "get_req_size fwd_bytes 0 = Inr 60" "get_req_id fwd_bytes 0 = Inr 7" "get_fwd_opts fwd_bytes 12 = Inr fwd_sample_opts"
  "get_cmd fwd_bytes 12 = Inr FORWARD_BEGIN" "get_cmd fwd_bytes 40 = Inr REPLY" "get_cmd fwd_bytes 56 = Inr EOM"
  "slice fwd_bytes 40 16 = Inr [6, 0, 0, 0, 64, 0, 0, 0, 0, 0, 0, 0, 0, 0, 0, 0]"
proof -
  show l: "length fwd_bytes = BUF_SIZE" by (simp add: fwd_bytes_def BUF_SIZE_def)
  have r: "rd k fwd_bytes i = Inr (le_nat (take k (drop i fwd_bytes)))" if "i < 100" "k < 10" for i k using that l by (simp add: rd_ok BUF_SIZE_def)
  show "get_req_size fwd_bytes 0 = Inr 60" "get_req_id fwd_bytes 0 = Inr 7" "get_fwd_opts fwd_bytes 12 = Inr fwd_sample_opts"
    "get_cmd fwd_bytes 12 = Inr FORWARD_BEGIN" "get_cmd fwd_bytes 40 = Inr REPLY" "get_cmd fwd_bytes 56 = Inr EOM"
    by (simp_all add: field_defs get_fwd_opts_def sizeof_defs r Let_def command_of_nat_def fwd_sample_opts_def) (simp_all add: fwd_bytes_def)
  show "slice fwd_bytes 40 16 = Inr [6, 0, 0, 0, 64, 0, 0, 0, 0, 0, 0, 0, 0, 0, 0, 0]"
    using l by (simp add: slice_ok BUF_SIZE_def) (simp add: fwd_bytes_def)
qed

theorem forward_sent_witness:
  "\<exists>n' out evs. process_single_message fwd_env 0 fwd_node = Some (Inr (0, n')) \<and> trace n' = E_Sent 1 out # evs \<and>
    request_copy 0 100 [REPLY] [6, 0, 0, 0, 64, 0, 0, 0, 0, 0, 0, 0, 0, 0, 0, 0] out \<and> fwd_replies_left (reqs (tbl n') 0) = 1"
proof -
  let ?a = "\<lparr>sin_addr = fwd_host fwd_sample_opts, sin_port = fwd_port fwd_sample_opts\<rparr>"
  have q: "message_ptr (reqs (tbl fwd_node) 0) = Some 0" "conn_id (reqs (tbl fwd_node) 0) = int 0" "recv_buf (conns (tbl fwd_node) 0) = Some fwd_bytes"
      "fwd_replies_left (reqs (tbl fwd_node) 0) = -1" "curr_cmd (reqs (tbl fwd_node) 0) = Some 12" "req_get_by_id 0 (tbl fwd_node) = Some 0"
    by (simp_all add: fwd_node_def zero_req_def req_get_by_id_def req_slot_def)
  have "fwd_conn = conns (tbl fwd_node) 1" by (simp add: fwd_node_def)
  moreover have "idle fwd_conn" "sock fwd_conn = 9" by (simp_all add: idle_def fwd_conn_def conn_inv_def blank_conn_def)
  ultimately have s: "idle (conns (tbl fwd_node) 1)" "sock (conns (tbl fwd_node) 1) \<noteq> -1" by simp_all
  have "0 < MAX_CONNS" "Suc 0 < MAX_CONNS" by (simp_all add: MAX_CONNS_def)
  then have "[0..<MAX_CONNS] = 0 # 1 # [Suc (Suc 0)..<MAX_CONNS]" by (metis One_nat_def upt_conv_Cons)
  then have f: "conn_find_existing (this_thread fwd_env) ?a (proto_of_nat (proto fwd_sample_opts)) (tbl fwd_node) = int 1"
    by (simp add: conn_find_existing_def conn_find_def fwd_node_def fwd_sample_opts_def proto_of_nat_def fwd_conn_def served_conn_def blank_conn_def)
  have t: "timeouts_inv (timeout_queue (infos fwd_node)) (tbl fwd_node)"
    by (auto simp: fwd_node_def timeouts_inv_def zero_req_def idle_node_def pq_inv_alloc waiting_worker_def) (simp_all add: pqueue_alloc_def)
  have u: "insert_fits cur us (infos fwd_node)" for cur us
    by (simp add: insert_fits_def fwd_node_def idle_node_def waiting_worker_def pqueue_top_def pqueue_alloc_def)
  have c: "cmds_at fwd_bytes 60 12 (FORWARD_BEGIN # concat (map ctx_cmds []) @ [REPLY, EOM])"
    by (simp add: cmd_in_bounds_def fwd_fields sizeof_defs)
  have "cmds_len (concat (map ctx_cmds []) @ [REPLY]) = 16" "12 + cmd_type_size FORWARD_BEGIN = 40" by (simp_all add: sizeof_defs)
  then show ?thesis
    using forward_sent [OF q _ _ fwd_fields(3), of 60 "[]" EOM "[REPLY]" _ fwd_sample_opts fwd_env 1] c fwd_fields(1,2,4,8) f s t u
    by (auto simp: message_end_def BUF_SIZE_def fwd_sample_opts_def fwd_env_def idle_node_env_def fwd_node_def idle_node_def)
qed

end
