(* ===== verification/DW_Stream.thy ===== *)
theory DW_Stream
  imports DW_Service
begin

text \<open>
  A worker that receives a stream of requests (\<^verbatim>\<open>obtain_messages\<close> and the normal path of \<^verbatim>\<open>exec_request\<close> in \<^verbatim>\<open>src/dw_node.c\<close>): however the
  stream was cut into receives, each request for local work that it completes is answered, in the order of arrival.
\<close>

section \<open>Requests in a stream\<close>

text \<open>
  \<open>local_request e wid rid R w effs\<close>: the bytes \<open>w\<close> are a whole message with commands for local work and a \<^verbatim>\<open>REPLY\<close> of \<open>R\<close> bytes; served as
  the request \<open>rid\<close> by the worker \<open>wid\<close>, it has the effects \<open>effs\<close>. \<open>requests\<close>: the same for a list of messages with consecutive ids.
\<close>

definition local_request :: "'k node_env \<Rightarrow> int \<Rightarrow> int \<Rightarrow> nat \<Rightarrow> bytes \<Rightarrow> effect list \<Rightarrow> bool" where
  "local_request e wid rid R w effs \<longleftrightarrow> msg_len w = length w \<and>
     (\<exists>ts opts. cmds_at w (length w) 12 (ts @ [REPLY]) \<and> local_effects e wid rid w 12 ts = Some effs \<and>
        get_reply_opts w (12 + cmds_len ts) = Inr opts \<and> mode opts = 0 \<and> resp_size opts = R)"

fun requests :: "'k node_env \<Rightarrow> int \<Rightarrow> nat \<Rightarrow> int \<Rightarrow> bytes list \<Rightarrow> effect list list \<Rightarrow> bool" where
  "requests e wid R rid [] effss \<longleftrightarrow> effss = []"
| "requests e wid R rid (w # ws) effss \<longleftrightarrow>
     (case effss of [] \<Rightarrow> False | effs # effss' \<Rightarrow> local_request e wid rid R w effs \<and> requests e wid R (rid + 1) ws effss')"

text \<open>\<open>answer R w out\<close>: \<open>out\<close> is the response to the message \<open>w\<close>, with its id and its status.\<close>

definition answer :: "nat \<Rightarrow> bytes \<Rightarrow> bytes \<Rightarrow> bool" where
  "answer R w out \<longleftrightarrow> (\<exists>rid st. get_req_id w 0 = Inr rid \<and> get_status w 0 = Inr st \<and> response rid R st out)"

text \<open>A worker whose connection \<open>c\<close> has nothing left to send, with the requests \<open>xs\<close> in progress.\<close>

definition ready :: "nat \<Rightarrow> nat list \<Rightarrow> 'k node \<Rightarrow> bool" where
  "ready c xs n \<longleftrightarrow> idle (conns (tbl n) c) \<and> enable_defrag (conns (tbl n) c) \<and> req_lists c xs (tbl n) \<and> req_inv (tbl n) \<and>
     (serialize_request (conns (tbl n) c) \<noteq> 0 \<longrightarrow> xs = [])"

section \<open>The message in the buffer\<close>

lemma local_effects_copy:
  assumes "\<And>i k. i + k \<le> N \<Longrightarrow> rd k b (p + i) = rd k w i" "cmds_at w N i ts"
  shows "local_effects e wid rid b (p + i) ts = local_effects e wid rid w i ts"
  using assms(2)
proof (induction ts arbitrary: i)
  case Nil
  then show ?case by simp
next
  case (Cons t ts)
  have i: "i + cmd_type_size t \<le> N" "cmds_at w N (i + cmd_type_size t) ts"
    using Cons.prems by (auto simp: cmd_in_bounds_def rbind_eq_Inr split: if_splits)
  have "get_comp_opts b (p + i) = get_comp_opts w i" if "t = COMPUTE"
    using that i(1) assms(1) [of "i + 4" 4] by (simp add: get_comp_opts_def sizeof_defs add.assoc)
  moreover have "get_store_opts b (p + i) = get_store_opts w i" if "t = STORE"
    using that i(1) assms(1) [of "i + 4" 8] assms(1) [of "i + 12" 8] assms(1) [of "i + 20" 1] assms(1) [of "i + 21" 1]
    by (simp add: get_store_opts_def sizeof_defs Let_def add.assoc)
  moreover have "local_effects e wid rid b (p + i + cmd_type_size t) ts = local_effects e wid rid w (i + cmd_type_size t) ts"
    using Cons.IH [OF i(2)] by (simp add: add.assoc)
  ultimately show ?case by (simp add: Let_def)
qed

text \<open>The first message of the stream and what the worker reads of it in the buffer.\<close>

lemma request_in_buffer:
  assumes "conn_inv x" "unproc x = w @ rest" "cmds_at w (length w) 12 (ts @ [REPLY])" "msg_len w = length w"
    "local_effects e wid rid w 12 ts = Some effs" "get_reply_opts w (12 + cmds_len ts) = Inr opts"
  defines "b \<equiv> the (recv_buf x)" and "p \<equiv> curr_proc_buf x"
  shows "cmds_at b (p + length w) (p + 12) (ts @ [REPLY])" "local_effects e wid rid b (p + 12) ts = Some effs"
    "get_reply_opts b (p + 12 + cmds_len ts) = Inr opts" "get_req_size b p = Inr (length w)" "28 \<le> length w"
    "get_req_id b p = get_req_id w 0" "get_status b p = get_status w 0"
proof -
  have len: "12 + cmds_len ts + 16 \<le> length w" using cmds_at_le [OF assms(3)] by (simp add: sizeof_defs)
  then show "28 \<le> length w" by simp
  have r: "rd k b (p + i) = rd k w i" if "i + k \<le> length w" for i k
    using unproc_rd [OF assms(1,2) that] by (simp add: b_def p_def)
  have sl: "slice b (p + 12) k = slice w 12 k" if "12 + k \<le> length w" for k
    using unproc_slice [OF assms(1,2) that] by (simp add: b_def p_def)
  have fits: "12 + cmds_len (ts @ [REPLY]) \<le> length w" using len by (simp add: sizeof_defs)
  then have "slice w 12 (cmds_len (ts @ [REPLY])) = Inr (take (cmds_len (ts @ [REPLY])) (drop 12 w))" by (intro slice_ok)
  then show "cmds_at b (p + length w) (p + 12) (ts @ [REPLY])"
    using cmds_at_copy [OF assms(3), of _ b "p + 12" "p + length w"] sl [OF fits] fits by simp
  have "cmds_at w (length w) 12 ts" using assms(3) by (simp add: cmds_at_append)
  then show "local_effects e wid rid b (p + 12) ts = Some effs"
    using local_effects_copy [of "length w" b p w 12 ts e wid rid] r assms(5) by simp
  let ?q = "12 + cmds_len ts"
  show "get_reply_opts b (p + 12 + cmds_len ts) = Inr opts"
    using assms(6) r [of "?q + 4" 4] r [of "?q + 8" 4] r [of "?q + 12" 1] len
    by (simp add: get_reply_opts_def sizeof_defs Let_def add.assoc)
  show "get_req_size b p = Inr (length w)"
    using r [of 4 4] len assms(4) by (simp add: get_req_size_def rd_ok msg_len_def)
  show "get_req_id b p = get_req_id w 0" "get_status b p = get_status w 0"
    using r [of 0 4] r [of 8 4] len by (simp_all add: get_req_id_def get_status_def)
qed

section \<open>One request\<close>

lemma conn_req_add_frame:
  assumes "req_id (reqs s (req_slot (last_reqs s))) = -1"
  shows "conns (snd (conn_req_add c s)) = (conns s)(c := (conns s c)\<lparr>req_list := Some (req_slot (last_reqs s))\<rparr>)"
    "last_reqs (snd (conn_req_add c s)) = signed_take_bit 31 (last_reqs s + 1)"
    "req_id (reqs (snd (conn_req_add c s)) j) = (if j = req_slot (last_reqs s) then last_reqs s else req_id (reqs s j))"
  using assms by (simp_all add: conn_req_add_def req_alloc_def Let_def upd_conn_def upd_req_def upd_link_def split: option.split)

text \<open>What the worker does with the next complete message: it registers a request, serves it, and goes on as before with the rest.\<close>

lemma obtain_step:
  assumes n: "ready c xs n" "unproc (conns (tbl n) c) = w @ rest"
    and w: "local_request e (w_worker_id (infos n)) (last_reqs (tbl n)) R w effs" "16 \<le> R" "R \<le> BUF_SIZE"
    and l: "0 \<le> last_reqs (tbl n)" "last_reqs (tbl n) + 1 < 2 ^ 31" "req_id (reqs (tbl n) (req_slot (last_reqs (tbl n)))) = -1"
    and k: "\<forall>j. 0 \<le> pipe_writes e j" "\<forall>j. fst (sendto_res (sends e j)) = int R"
  shows "\<exists>n' out. obtain_loop e (Suc k) c n = obtain_loop e k c n' \<and> trace n' = trace n @ effs @ [E_Sent c out] \<and> answer R w out \<and>
    ready c xs n' \<and> unproc (conns (tbl n') c) = rest \<and> last_reqs (tbl n') = last_reqs (tbl n) + 1 \<and>
    (\<forall>j. req_id (reqs (tbl n') j) = req_id (reqs (tbl n) j)) \<and> infos n' = infos n"
proof -
  let ?x = "conns (tbl n) c" and ?r = "req_slot (last_reqs (tbl n))"
  have x: "conn_inv ?x" "idle ?x" "req_lists c xs (tbl n)" "req_inv (tbl n)" using n(1) by (auto simp: ready_def idle_def)
  obtain ts opts where t: "msg_len w = length w" "cmds_at w (length w) 12 (ts @ [REPLY])"
      "local_effects e (w_worker_id (infos n)) (last_reqs (tbl n)) w 12 ts = Some effs"
      "get_reply_opts w (12 + cmds_len ts) = Inr opts" "mode opts = 0" "resp_size opts = R"
    using w(1) by (auto simp: local_request_def)
  define b where "b = the (recv_buf ?x)"
  define m where "m = curr_proc_buf ?x"
  note q = request_in_buffer [OF x(1) n(2) t(2,1,3,4), folded b_def m_def]
  have b: "recv_buf ?x = Some b" using x(1) by (auto simp: b_def elim: conn_invE)
  obtain rid st where h: "get_req_id w 0 = Inr rid" "get_status w 0 = Inr st"
    using q(5) by (simp add: get_req_id_def get_status_def rd_ok)
  have ml: "msg_len (unproc ?x) = length w" using n(2) t(1) q(5) by (simp add: msg_len_def)
  let ?x1 = "?x\<lparr>curr_proc_buf := m + length w\<rparr>"
  have pr: "conn_prepare_recv_message ?x = Inr (Some m, ?x1)"
    using prepare_recv_eq [OF x(1)] ml n(2) q(5) by (simp add: m_def)
  have x1: "conn_inv ?x1" "unproc ?x1 = rest" using prepare_recv_advance [OF x(1)] ml n(2) by (simp_all add: m_def)
  let ?s1 = "upd_conn c (\<lambda>_. ?x1) (tbl n)"
  have "req_lists c xs ?s1" "req_inv ?s1" "last_reqs ?s1 \<noteq> -1" "req_id (reqs ?s1 (req_slot (last_reqs ?s1))) = -1"
    using x(3,4) l by (simp_all add: req_lists_def)
  note add = conn_req_add_ok [OF this] and fr = conn_req_add_frame [OF this(4), of c]
  obtain s2 where s2: "conn_req_add c ?s1 = (Some ?r, s2)" "req_inv s2" "req_lists c (?r # xs) s2" "conn_id (reqs s2 ?r) = int c"
    using add by auto
  have f2: "conns s2 c = ?x1\<lparr>req_list := Some ?r\<rparr>" "last_reqs s2 = last_reqs (tbl n) + 1"
      "\<And>j. req_id (reqs s2 j) = (if j = ?r then last_reqs (tbl n) else req_id (reqs (tbl n) j))"
    using fr l(1,2) s2(1) by (simp_all add: signed_take_bit_int_eq_self)
  let ?u = "\<lambda>q. q\<lparr>message_ptr := Some m, curr_cmd := Some (message_first_cmd m)\<rparr>"
  define n3 where "n3 = n\<lparr>infos := (infos n)\<lparr>active_reqs := active_reqs (infos n) + 1\<rparr>, tbl := upd_req ?r ?u s2\<rparr>"
  have c3: "conns (tbl n3) c = ?x1\<lparr>req_list := Some ?r\<rparr>" "reqs (tbl n3) ?r = ?u (reqs s2 ?r)"
      "\<And>j. req_id (reqs (tbl n3) j) = (if j = ?r then last_reqs (tbl n) else req_id (reqs (tbl n) j))" "last_reqs (tbl n3) = last_reqs (tbl n) + 1"
    using f2 by (simp_all add: n3_def reqs_upd_req) (simp add: upd_req_def)
  have "dll (tbl n3) p h ys = dll s2 p h ys" for p h ys by (rule dll_cong) (simp add: n3_def reqs_upd_req)
  then have "req_lists c (?r # xs) (tbl n3)" using s2(3) by (auto simp: req_lists_def n3_def reqs_upd_req)
  then have "laid_out c [] ?r xs m (length w) (tbl n3)"
    using n(1) x1(1) q(4) b by (simp add: laid_out_def c3 ready_def conn_inv_def)
  moreover have "idle (conns (tbl n3) c)" using x(2) x1(1) by (simp add: c3 idle_def conn_inv_def)
  moreover have "w_worker_id (infos n3) = w_worker_id (infos n)" by (simp add: n3_def)
  ultimately obtain out n' where n': "process_single_message e ?r n3 = Some (Inr (1, n'))" "trace n' = trace n3 @ effs @ [E_Sent c out]"
      "response rid R st out" "req_lists c xs (tbl n')" "freed ?r (tbl n3) (tbl n')"
      "same_stream (conns (tbl n3) c) (conns (tbl n') c)" "infos n' = (infos n3)\<lparr>active_reqs := active_reqs (infos n3) - 1\<rparr>"
    using local_served [of c "[]" ?r xs m "length w" n3 b "m + 12" ts e effs opts rid st] q b h t(5,6) w(2,3) k s2(4) c3 f2(3)
    by (auto simp: message_first_cmd_def sizeof_message_t_def)
  have "get_cmd b (message_first_cmd m) = Inr (hd (ts @ [REPLY]))" "hd (ts @ [REPLY]) \<noteq> EOM"
    using q(1) local_effects_types [OF t(3)] by (cases ts; auto simp: message_first_cmd_def sizeof_message_t_def)+
  then have "obtain_loop e (Suc k) c n = obtain_loop e k c n'"
    using pr b q(4) s2(1) n'(1) by (simp add: act_simps the_buf_def nbind_on_tbl n3_def nbind_run [where m = "process_single_message e ?r"])
  moreover have "infos n' = infos n" using n'(7) by (simp add: n3_def)
  moreover have "ready c xs n'" "unproc (conns (tbl n') c) = rest"
    using n'(4-6) n(1) x1 x(2) l(3) by (auto simp: ready_def same_stream_def freed_def req_inv_def c3 idle_def conn_inv_def unproc_def)
  moreover have "\<forall>j. req_id (reqs (tbl n') j) = req_id (reqs (tbl n) j)" "last_reqs (tbl n') = last_reqs (tbl n) + 1"
    using n'(5) c3(3,4) l(3) by (auto simp: freed_def)
  moreover have "trace n3 = trace n" by (simp add: n3_def)
  ultimately show ?thesis using n'(2,3) h by (intro exI [of _ n'] exI [of _ out]) (auto simp: answer_def)
qed

section \<open>A stream of requests\<close>

text \<open>The loop of \<^verbatim>\<open>obtain_messages\<close>: one step of fuel for each message, and one to see that there is no further one.\<close>

lemma obtain_loop_served:
  assumes "ready c xs n" "unproc (conns (tbl n) c) = concat ws @ rest" "incomplete rest"
    "requests e (w_worker_id (infos n)) R (last_reqs (tbl n)) ws effss" "16 \<le> R" "R \<le> BUF_SIZE"
    "0 \<le> last_reqs (tbl n)" "last_reqs (tbl n) + int (length ws) < 2 ^ 31"
    "\<forall>i < length ws. req_id (reqs (tbl n) (req_slot (last_reqs (tbl n) + int i))) = -1"
    "\<forall>j. 0 \<le> pipe_writes e j" "\<forall>j. fst (sendto_res (sends e j)) = int R" "length ws < k"
  shows "\<exists>n' outs. obtain_loop e k c n = Some (Inr (1, n')) \<and> list_all2 (answer R) ws outs \<and>
    trace n' = trace n @ concat (map2 (\<lambda>effs out. effs @ [E_Sent c out]) effss outs) \<and>
    ready c xs n' \<and> unproc (conns (tbl n') c) = rest \<and> last_reqs (tbl n') = last_reqs (tbl n) + int (length ws) \<and>
    infos n' = infos n"
  using assms(1,2,4,7-9,12)
proof (induction ws arbitrary: n effss k)
  case Nil
  have "conn_inv (conns (tbl n) c)" using Nil(1) by (simp add: ready_def idle_def)
  then have "conn_prepare_recv_message (conns (tbl n) c) = Inr (None, conns (tbl n) c)"
    using prepare_recv_eq Nil(2) assms(3) by (simp add: incomplete_def)
  moreover have "upd_conn c (\<lambda>_. conns (tbl n) c) (tbl n) = tbl n" by (simp add: upd_conn_def)
  ultimately have "obtain_loop e k c n = Some (Inr (1, n))" using Nil(7) by (cases k) (simp_all add: act_simps)
  then show ?case using Nil by (intro exI [of _ n] exI [of _ "[]"]) simp
next
  case (Cons w ws)
  obtain k' where k: "k = Suc k'" "length ws < k'" using Cons.prems(7) by (cases k) auto
  obtain effs effss' where r: "effss = effs # effss'" "local_request e (w_worker_id (infos n)) (last_reqs (tbl n)) R w effs"
      "requests e (w_worker_id (infos n)) R (last_reqs (tbl n) + 1) ws effss'"
    using Cons.prems(3) by (auto split: list.splits)
  have "req_id (reqs (tbl n) (req_slot (last_reqs (tbl n)))) = -1" using spec [OF Cons.prems(6), of 0] by simp
  then obtain n1 out where n1: "obtain_loop e k c n = obtain_loop e k' c n1" "trace n1 = trace n @ effs @ [E_Sent c out]" "answer R w out"
      "ready c xs n1" "unproc (conns (tbl n1) c) = concat ws @ rest" "last_reqs (tbl n1) = last_reqs (tbl n) + 1"
      "\<forall>j. req_id (reqs (tbl n1) j) = req_id (reqs (tbl n) j)" "infos n1 = infos n"
    using obtain_step [OF Cons.prems(1) _ r(2) assms(5,6), of "concat ws @ rest" k'] Cons.prems(2,4,5) assms(10,11) k(1) by auto
  have "\<forall>i < length ws. req_id (reqs (tbl n1) (req_slot (last_reqs (tbl n1) + int i))) = -1"
    using Cons.prems(6) n1(6,7) by (auto simp: algebra_simps dest: spec [of _ "Suc _"])
  then obtain n' outs where n': "obtain_loop e k' c n1 = Some (Inr (1, n'))" "list_all2 (answer R) ws outs"
      "trace n' = trace n1 @ concat (map2 (\<lambda>effs out. effs @ [E_Sent c out]) effss' outs)" "ready c xs n'"
      "unproc (conns (tbl n') c) = rest" "last_reqs (tbl n') = last_reqs (tbl n1) + int (length ws)" "infos n' = infos n1"
    using Cons.IH [OF n1(4,5) _ _ _ _ k(2), of effss'] r(3) Cons.prems(4,5) n1(6,8) by auto
  then show ?case using n1 r(1) by (intro exI [of _ n'] exI [of _ "out # outs"]) simp
qed

lemma pollin_bits: "bit DW_POLLIN POLLIN_BIT" "\<not> bit DW_POLLIN POLLOUT_BIT" "\<not> bit DW_POLLIN POLLERR_BIT" "\<not> bit DW_POLLIN POLLHUP_BIT"
  by (simp_all add: DW_POLLIN_def POLLIN_BIT_def POLLOUT_BIT_def POLLERR_BIT_def POLLHUP_BIT_def bit_simps)

text \<open>A receive on a ready connection; the polled event says that there is something to read and nothing else.\<close>

lemma conn_recv_idle:
  assumes "idle x" "recv_env_ok env x" "0 < fst (recvfrom_res env)"
  shows "\<exists>x'. conn_recv env x = Inr (1, x') \<and> idle x' \<and> unproc x' = unproc x @ recv_data env \<and> enable_defrag x' = enable_defrag x \<and>
    serialize_request x' = serialize_request x \<and> req_list x' = req_list x"
proof -
  have i: "conn_inv x" "\<not> use_ssl x" using assms(1) by (simp_all add: idle_def)
  obtain x' where x': "conn_recv env x = Inr (1, x')" "conn_inv x'" "unproc x' = unproc x @ recv_data env" "req_list x' = req_list x"
    using conn_recv_bytes [OF i assms(2,3)] by blast
  then have "status x' = status x" "curr_send_size x' = curr_send_size x" "curr_send_buf x' = curr_send_buf x" "use_ssl x' = use_ssl x"
      "enable_defrag x' = enable_defrag x" "serialize_request x' = serialize_request x"
    using i(2) assms(3) by (auto simp: conn_recv_def store_recv_def rbind_eq_Inr split: if_splits prod.splits)
  then show ?thesis using x' assms(1) by (simp add: idle_def)
qed

text \<open>The handler of the event.\<close>

lemma request_stream:
  assumes "ready c xs n" "c < MAX_CONNS" "sock (conns (tbl n) c) \<noteq> -1"
    "recv_env_ok (recvs e (calls n)) (conns (tbl n) c)" "0 < fst (recvfrom_res (recvs e (calls n)))"
    "unproc (conns (tbl n) c) @ recv_data (recvs e (calls n)) = concat ws @ rest" "incomplete rest"
    "requests e (w_worker_id (infos n)) R (last_reqs (tbl n)) ws effss" "16 \<le> R" "R \<le> BUF_SIZE"
    "0 \<le> last_reqs (tbl n)" "last_reqs (tbl n) + int (length ws) < 2 ^ 31"
    "\<forall>i < length ws. req_id (reqs (tbl n) (req_slot (last_reqs (tbl n) + int i))) = -1"
    "\<forall>j. 0 \<le> pipe_writes e j" "\<forall>j. fst (sendto_res (sends e j)) = int R" "Suc (length ws) < k"
  shows "\<exists>n' outs. exec_request e k DW_POLLIN c SOCKET n = Some (Inr ((), n')) \<and> list_all2 (answer R) ws outs \<and>
    trace n' = trace n @ concat (map2 (\<lambda>effs out. effs @ [E_Sent c out]) effss outs) \<and>
    ready c xs n' \<and> unproc (conns (tbl n') c) = rest \<and> infos n' = infos n"
proof -
  let ?x = "conns (tbl n) c"
  obtain x where x: "conn_recv (recvs e (calls n)) ?x = Inr (1, x)" "idle x" "unproc x = concat ws @ rest" "enable_defrag x = enable_defrag ?x"
      "serialize_request x = serialize_request ?x" "req_list x = req_list ?x"
    using conn_recv_idle [OF _ assms(4,5)] assms(1,6) by (auto simp: ready_def)
  define n1 where "n1 = n\<lparr>calls := calls n + 1, tbl := upd_conn c (\<lambda>_. x) (tbl n)\<rparr>"
  have r: "ready c xs n1" using assms(1) x by (simp add: ready_def n1_def req_lists_def)
  obtain k' where k: "k = Suc k'" "length ws < k'" using assms(16) by (cases k) auto
  have "unproc (conns (tbl n1) c) = concat ws @ rest" "infos n1 = infos n" "last_reqs (tbl n1) = last_reqs (tbl n)" "reqs (tbl n1) = reqs (tbl n)"
      "trace n1 = trace n"
    using x(3) by (simp_all add: n1_def)
  note n1 = this
  obtain n' outs where n': "obtain_loop e k' c n1 = Some (Inr (1, n'))" "list_all2 (answer R) ws outs"
      "trace n' = trace n @ concat (map2 (\<lambda>effs out. effs @ [E_Sent c out]) effss outs)" "ready c xs n'" "unproc (conns (tbl n') c) = rest"
      "infos n' = infos n"
    using obtain_loop_served [OF r n1(1) assms(7) _ assms(9,10) _ _ _ assms(14,15) k(2), of effss] n1 assms(8,11-13) by auto
  have "req_list (conns (tbl n1) c) = None" if "serialize_request (conns (tbl n1) c) \<noteq> 0"
    using that r dll_head by (fastforce simp: ready_def req_lists_def)
  then have "obtain_messages e k c n1 = Some (Inr (1, n'))" using n'(1) k(1) by (auto simp: act_simps)
  then have "serve_conn e k DW_POLLIN c SOCKET n = Some (Inr (True, n'))"
    using x(1) by (simp add: serve_conn_def act_simps nbind_assoc pollin_bits n1_def nbind_run [where m = "obtain_messages e k c"])
  moreover have "status ?x = READY" "recv_buf ?x \<noteq> None" using assms(1) by (auto simp: ready_def idle_def elim: conn_invE)
  ultimately have "exec_request e k DW_POLLIN c SOCKET n = Some (Inr ((), n'))"
    using assms(2,3) by (auto simp: exec_request_def act_simps nbind_run [where m = "serve_conn e k DW_POLLIN c SOCKET"])
  then show ?thesis using n' by auto
qed

text \<open>C2. However the stream of a client is cut into receives, the worker answers every request for local work that a receive completes, in the
  order of arrival: for each of them it carries out the commands in their order and then sends exactly one response with the id and
  the status of that request, and the incomplete rest of the stream waits for the next receive. At the end the connection is ready
  again, no request is left over, and the depth of calls needed is two more than the number of requests.
\<close>

theorem stream_served:
  assumes "ready c xs n" "c < MAX_CONNS" "sock (conns (tbl n) c) \<noteq> -1"
    "recv_env_ok (recvs e (calls n)) (conns (tbl n) c)" "0 < fst (recvfrom_res (recvs e (calls n)))"
    "unproc (conns (tbl n) c) @ recv_data (recvs e (calls n)) = concat ws @ rest" "incomplete rest"
    "requests e (w_worker_id (infos n)) R (last_reqs (tbl n)) ws effss" "16 \<le> R" "R \<le> BUF_SIZE"
    "0 \<le> last_reqs (tbl n)" "last_reqs (tbl n) + int (length ws) < 2 ^ 31"
    "\<forall>i < length ws. req_id (reqs (tbl n) (req_slot (last_reqs (tbl n) + int i))) = -1"
    "\<forall>j. 0 \<le> pipe_writes e j" "\<forall>j. fst (sendto_res (sends e j)) = int R" "Suc (length ws) < k"
  shows "\<exists>n' outs. exec_request e k DW_POLLIN c SOCKET n = Some (Inr ((), n')) \<and> list_all2 (answer R) ws outs \<and>
    trace n' = trace n @ concat (map2 (\<lambda>effs out. effs @ [E_Sent c out]) effss outs) \<and>
    ready c xs n' \<and> unproc (conns (tbl n') c) = rest \<and> infos n' = infos n"
  using request_stream [OF assms] .

section \<open>A concrete stream\<close>

text \<open>Two requests of 40 bytes (compute for 5 microseconds, reply with 64 bytes) and the first bytes of a third, received at once.\<close>

definition req_bytes :: bytes where
  "req_bytes = take 40 served_bytes"

definition stream_conn :: conn_info_t where
  "stream_conn = blank_conn\<lparr>sock := 9, recv_buf := Some (replicate BUF_SIZE 0), send_buf := Some (replicate BUF_SIZE 0), curr_recv_size := BUF_SIZE,
     status := READY\<rparr>"

definition stream_node :: "unit node" where
  "stream_node = idle_node\<lparr>tbl := \<lparr>reqs = \<lambda>i. zero_req\<lparr>req_id := -1\<rparr>, last_reqs = 7, conns = \<lambda>i. stream_conn\<rparr>\<rparr>"

definition received :: "bytes \<Rightarrow> recv_env" where
  "received d = \<lparr>recvfrom_res = (int (length d), E_OTHER), ssl_read_res = (0, SSL_ERROR_OTHER), recv_data = d,
     recv_from = \<lparr>sin_addr = 0, sin_port = 0\<rparr>\<rparr>"

definition stream_env :: "unit node_env" where
  "stream_env = served_env\<lparr>recvs := \<lambda>i. received (req_bytes @ req_bytes @ [7, 0, 0])\<rparr>"

lemma req_bytes_request: "local_request stream_env wid rid 64 req_bytes [E_Compute 5]" "length req_bytes = 40"
proof -
  have l: "length req_bytes = 40" by (simp add: req_bytes_def served_fields BUF_SIZE_def)
  have r: "rd k req_bytes i = rd k served_bytes i" if "i + k \<le> 40" for i k
    using that rd_take [of i k 40 served_bytes] by (simp add: req_bytes_def served_fields BUF_SIZE_def)
  have "msg_len req_bytes = 40" by (simp add: req_bytes_def served_bytes_def msg_len_def)
  moreover have "get_cmd req_bytes 12 = Inr COMPUTE" "get_cmd req_bytes 20 = Inr REPLY"
    "get_comp_opts req_bytes 12 = Inr \<lparr>comp_time_us = 5\<rparr>" "get_reply_opts req_bytes 20 = Inr \<lparr>resp_size = 64, mode = 0, r_dev_id = 0\<rparr>"
    using served_fields(5-8) r
    by (simp_all add: get_cmd_def get_comp_opts_def get_reply_opts_def sizeof_defs Let_def)
  ultimately show "local_request stream_env wid rid 64 req_bytes [E_Compute 5]"
    using l by (auto simp: local_request_def cmd_in_bounds_def sizeof_defs Let_def intro!: exI [of _ "[COMPUTE]"])
  show "length req_bytes = 40" by (rule l)
qed

theorem stream_served_witness:
  "\<exists>n' out1 out2. exec_request stream_env 4 DW_POLLIN 0 SOCKET stream_node = Some (Inr ((), n')) \<and>
    trace n' = [E_Compute 5, E_Sent 0 out1, E_Compute 5, E_Sent 0 out2] \<and> answer 64 req_bytes out2 \<and>
    unproc (conns (tbl n') 0) = [7, 0, 0]"
proof -
  have "conn_inv stream_conn" "unproc stream_conn = []" by (simp_all add: stream_conn_def conn_inv_def unproc_def blank_conn_def)
  then have r: "ready 0 [] stream_node" "unproc (conns (tbl stream_node) 0) = []"
    by (simp_all add: ready_def idle_def stream_node_def req_lists_def req_inv_def zero_req_def) (simp_all add: stream_conn_def blank_conn_def)
  have c: "0 < MAX_CONNS" "sock (conns (tbl stream_node) 0) \<noteq> -1" "recv_env_ok (recvs stream_env (calls stream_node)) (conns (tbl stream_node) 0)"
    "0 < fst (recvfrom_res (recvs stream_env (calls stream_node)))"
    using req_bytes_request(2)
    by (simp_all add: MAX_CONNS_def stream_node_def recv_env_ok_def) (simp_all add: stream_conn_def stream_env_def received_def blank_conn_def BUF_SIZE_def)
  have d: "unproc (conns (tbl stream_node) 0) @ recv_data (recvs stream_env (calls stream_node)) = concat [req_bytes, req_bytes] @ [7, 0, 0]"
    using r(2) by (simp add: stream_env_def received_def)
  have q: "requests stream_env (w_worker_id (infos stream_node)) 64 (last_reqs (tbl stream_node)) [req_bytes, req_bytes] [[E_Compute 5], [E_Compute 5]]"
    using req_bytes_request(1) by simp
  have l: "last_reqs (tbl stream_node) = 7" "\<forall>i < length [req_bytes, req_bytes]. req_id (reqs (tbl stream_node) (req_slot (last_reqs (tbl stream_node) + int i))) = -1"
    "\<forall>j. 0 \<le> pipe_writes stream_env j" "\<forall>j. fst (sendto_res (sends stream_env j)) = int 64" "trace stream_node = []"
    by (simp_all add: stream_node_def stream_env_def served_env_def idle_node_env_def idle_node_def)
  have "\<exists>n' outs. exec_request stream_env 4 DW_POLLIN 0 SOCKET stream_node = Some (Inr ((), n')) \<and>
      list_all2 (answer 64) [req_bytes, req_bytes] outs \<and>
      trace n' = trace stream_node @ concat (map2 (\<lambda>effs out. effs @ [E_Sent 0 out]) [[E_Compute 5], [E_Compute 5]] outs) \<and>
      ready 0 [] n' \<and> unproc (conns (tbl n') 0) = [7, 0, 0] \<and> infos n' = infos stream_node"
    using stream_served [OF r(1) c d _ q _ _ _ _ l(2-4), of 4] l(1) by (simp add: incomplete_def BUF_SIZE_def)
  then show ?thesis using l(5) by (force simp: list_all2_Cons1)
qed

end
