(* ===== verification/DW_End_To_End.thy ===== *)
theory DW_End_To_End
  imports DW_Stream DW_Client
begin

text \<open>
  A session from end to end: the sender thread of the client (\<^verbatim>\<open>src/dw_client.c\<close>, \<^verbatim>\<open>src/ccmd.c\<close>), the worker of a node (\<^verbatim>\<open>src/dw_node.c\<close>) and the
  receiver thread of the client, connected by streams of bytes.
\<close>

section \<open>The requests of the sender\<close>

text \<open>\<open>request_bytes pkt sz cs w\<close>: the bytes \<open>w\<close> are the request \<open>pkt\<close> of \<open>sz\<close> bytes, with the status \<^verbatim>\<open>SUCCESS\<close> and the commands \<open>cs\<close>.\<close>

definition request_bytes :: "nat \<Rightarrow> nat \<Rightarrow> (command_type_t \<times> bytes) list \<Rightarrow> bytes \<Rightarrow> bool" where
  "request_bytes pkt sz cs w \<longleftrightarrow> length w = sz \<and> get_req_id w 0 = Inr pkt \<and> get_req_size w 0 = Inr sz \<and>
     get_status w 0 = Inr (nat_of_status SUCCESS) \<and> slice w 12 (cmds_len (map fst cs) + 4) = Inr (enc_cmds (cs @ [(EOM, [])]))"

text \<open>
  A connection of the client with nothing left to send. The client never writes the status of a request, so the send buffer has to hold
  the one of an earlier request, or the zeros it was allocated with.
\<close>

definition clean :: "conn_info_t \<Rightarrow> bool" where
  "clean x \<longleftrightarrow> idle x \<and> get_status (the (send_buf x)) 0 = Inr (nat_of_status SUCCESS)"

text \<open>
  A sender whose settings are fixed values: every request has the size \<open>sz\<close>, the commands \<open>cs\<close> with room for them, and the pause after it is
  \<open>v\<close> microseconds.
\<close>

definition steady :: "client_cfg \<Rightarrow> nat \<Rightarrow> (command_type_t \<times> bytes) list \<Rightarrow> double \<Rightarrow> sender_t \<Rightarrow> bool" where
  "steady cfg sz cs v s \<longleftrightarrow>
     stack_inv (cqueue (chain s)) \<and> ptrs (chain s) \<noteq> [] \<and> 12 + cmds_len (map fst cs) + 28 \<le> sz \<and> sz \<le> BUF_SIZE \<and>
     (\<forall>rid g. emits (cl_libm cfg) rid (cnodes (chain s)) (Some (hd (ptrs (chain s)))) g cs 0 (cnodes (chain s)) g) \<and>
     (\<forall>g. sample_as (cl_libm cfg) to_u32 (send_pkt_size_pd s) g = Some (Inr (sz, send_pkt_size_pd s, g))) \<and>
     (\<forall>g. pd_sample (cl_libm cfg) (send_period_us_pd s) g = Some (Inr (v, send_period_us_pd s, g))) \<and>
     (\<exists>ns. to_u64 (dmul v (d_int 1000)) = Inr ns) \<and> ramp_step_secs cfg = 0 \<and> \<not> use_wait_spinning cfg"

lemma header_set:
  assumes "length d = BUF_SIZE" "pkt < 2 ^ 32" "sz < 2 ^ 32"
  shows "\<exists>b1 b2. set_req_id d 0 pkt = Inr b1 \<and> get_req_size b1 0 = get_req_size d 0 \<and> set_req_size b1 0 sz = Inr b2 \<and> length b2 = BUF_SIZE \<and>
    get_req_id b2 0 = Inr pkt \<and> get_req_size b2 0 = Inr sz \<and> get_status b2 0 = get_status d 0"
proof -
  obtain b1 where b1: "wr 4 d 0 pkt = Inr b1" "length b1 = length d" using wr_ok [of 0 4 d pkt] assms(1) by (auto simp: BUF_SIZE_def)
  obtain b2 where b2: "wr 4 b1 4 sz = Inr b2" "length b2 = length d" using wr_ok [of 4 4 b1 sz] b1(2) assms(1) by (auto simp: BUF_SIZE_def)
  have "rd 4 b2 0 = Inr pkt" using rd_wr_same [OF b1(1)] rd_wr_other [OF b2(1), of 0 4] assms(2) by simp
  moreover have "rd 4 b2 4 = Inr sz" using rd_wr_same [OF b2(1)] assms(3) by simp
  moreover have "rd 4 b2 8 = rd 4 d 8" using rd_wr_other [OF b1(1), of 8 4] rd_wr_other [OF b2(1), of 8 4] by simp
  moreover have "rd 4 b1 4 = rd 4 d 4" using rd_wr_other [OF b1(1), of 4 4] by simp
  ultimately show ?thesis using b1 b2 assms(1)
    by (auto simp: set_req_id_def get_req_size_def set_req_size_def get_req_id_def get_status_def)
qed

lemma request_sent:
  assumes s: "steady cfg sz cs v s" "clean (s_conn s)" and p: "pkt < 2 ^ 31" and k: "fst (sendto_res env) = int sz"
  shows "\<exists>w s'. send_request cfg env (int pkt) s = Some (Inr (True, w, s')) \<and> request_bytes pkt sz cs w \<and> steady cfg sz cs v s' \<and>
    clean (s_conn s') \<and> s_stamps s' = s_stamps s"
proof -
  let ?x = "s_conn s" and ?g = "rand_state s"
  have i: "idle ?x" using s(2) by (simp add: clean_def)
  have st: "stack_inv (cqueue (chain s))" "ptrs (chain s) \<noteq> []" "12 + cmds_len (map fst cs) + 28 \<le> sz" "sz \<le> BUF_SIZE"
      "emits (cl_libm cfg) pkt (cnodes (chain s)) (Some (hd (ptrs (chain s)))) ?g cs 0 (cnodes (chain s)) ?g"
      "sample_as (cl_libm cfg) to_u32 (send_pkt_size_pd s) ?g = Some (Inr (sz, send_pkt_size_pd s, ?g))"
    using s(1) by (auto simp: steady_def)
  obtain d where d: "conn_prepare_send_message ?x = Inr (0, ?x\<lparr>send_buf := Some d\<rparr>)" "length d = BUF_SIZE" "get_req_size d 0 = Inr BUF_SIZE"
      "get_status d 0 = Inr (nat_of_status SUCCESS)"
    using idle_prepare [OF i] s(2) by (auto simp: clean_def)
  have "sz < 2 ^ 32" using st(4) by (simp add: BUF_SIZE_def)
  then obtain b1 b2 where b: "set_req_id d 0 pkt = Inr b1" "get_req_size b1 0 = Inr BUF_SIZE" "set_req_size b1 0 sz = Inr b2" "length b2 = BUF_SIZE"
      "get_req_id b2 0 = Inr pkt" "get_req_size b2 0 = Inr sz" "get_status b2 0 = Inr (nat_of_status SUCCESS)"
    using header_set [OF d(2), of pkt sz] p d(3,4) by auto
  obtain b3 where b3: "ccmd_dump (cl_libm cfg) (chain s) b2 0 ?g = Some (Inr (1, b3, chain s, ?g))" "length b3 = BUF_SIZE"
      "slice b3 12 (cmds_len (map fst cs) + 4) = Inr (enc_cmds (cs @ [(EOM, [])]))" "\<forall>j n. j + n \<le> 12 \<longrightarrow> slice b3 j n = slice b2 j n"
    using ccmd_dump_ok [OF st(1,2) b(5,6) _ st(5,3)] st(3,4) b(4) by auto
  have h: "get_req_id b3 0 = Inr pkt" "get_req_size b3 0 = Inr sz" "get_status b3 0 = Inr (nat_of_status SUCCESS)"
    using b(5-7) b3(4) by (simp_all add: get_req_id_def get_req_size_def get_status_def rd_def)
  let ?x3 = "?x\<lparr>send_buf := Some b3\<rparr>"
  have "idle ?x3" using i b3(2) by (auto simp: idle_def conn_inv_def)
  then obtain x' where x': "conn_start_send env (target ?x) ?x3 = Inr (int sz, take sz b3, x')" "idle x'" "send_buf x' = Some b3"
    using start_send_all [of ?x3 b3 sz env "target ?x"] b3(2) h(2) st(3,4) k by auto
  let ?s' = "s\<lparr>s_conn := x'\<rparr>"
  have "s\<lparr>send_pkt_size_pd := send_pkt_size_pd s, rand_state := ?g\<rparr> = s" by simp
  then have "send_request cfg env (int pkt) s = Some (Inr (True, take sz b3, ?s'))"
    using d(1,3) b(1-3) st(3,4,6) b3(1) h(2) x'(1) p by (simp add: send_request_def obind_def the_buf_def)
  moreover have "request_bytes pkt sz cs (take sz b3)"
    using h b3(2,3) st(3,4) rd_take [of _ 4 sz b3] slice_take [of 12 "cmds_len (map fst cs) + 4" sz b3]
    by (simp add: request_bytes_def get_req_id_def get_req_size_def get_status_def)
  moreover have "steady cfg sz cs v ?s'" "clean (s_conn ?s')" using s(1) x' h(3) by (simp_all add: steady_def clean_def)
  ultimately show ?thesis by (intro exI [of _ "take sz b3"] exI [of _ ?s']) simp
qed

section \<open>The sender thread\<close>

lemma sender_pass_sent:
  assumes "settled cfg" "steady cfg sz cs v s" "clean (s_conn s)" "pkt < num_pkts cfg"
    "fst (sendto_res (pass_send env)) = int sz" "0 \<le> nanosleep_rv env"
  shows "\<exists>w s'. sender_pass cfg env (int pkt) s = Some (Inr (True, w, s')) \<and> request_bytes pkt sz cs w \<and> steady cfg sz cs v s' \<and> clean (s_conn s')"
proof -
  have p: "pkt < 2 ^ 31" using assms(1,4) by (simp add: settled_def MAX_PKTS_def)
  obtain i where "slot cfg (int pkt) = Inr i" using slot_settled [OF assms(1,4)] by blast
  then obtain st where st: "stamp_send cfg (ts_send env) (int pkt) (s_stamps s) = Inr st" by (simp add: stamp_send_def)
  let ?s = "s\<lparr>s_stamps := st\<rparr>"
  have s: "steady cfg sz cs v ?s" "clean (s_conn ?s)" using assms(2,3) by (simp_all add: steady_def)
  obtain w s1 where w: "send_request cfg (pass_send env) (int pkt) ?s = Some (Inr (True, w, s1))" "request_bytes pkt sz cs w"
      "steady cfg sz cs v s1" "clean (s_conn s1)"
    using request_sent [OF s p assms(5)] by blast
  have "ramp cfg (int pkt) s1 = Some (Inr s1)" using assms(2) by (simp add: ramp_def steady_def)
  moreover obtain t where "wait_next cfg env s1 = Some (Inr (s1\<lparr>ts_now := t\<rparr>))"
    using w(3) assms(6) by (auto simp: wait_next_def steady_def obind_def)
  ultimately have "sender_pass cfg env (int pkt) s = Some (Inr (True, w, s1\<lparr>ts_now := t\<rparr>))"
    using st w(1) by (simp add: sender_pass_def obind_def)
  moreover have "steady cfg sz cs v (s1\<lparr>ts_now := t\<rparr>)" "clean (s_conn (s1\<lparr>ts_now := t\<rparr>))" using w(3,4) by (simp_all add: steady_def)
  ultimately show ?thesis using w(2) by blast
qed

text \<open>\<open>numbered pkt sz cs ws\<close>: the messages \<open>ws\<close> are requests with consecutive numbers from \<open>pkt\<close> on.\<close>

fun numbered :: "nat \<Rightarrow> nat \<Rightarrow> (command_type_t \<times> bytes) list \<Rightarrow> bytes list \<Rightarrow> bool" where
  "numbered pkt sz cs [] \<longleftrightarrow> True"
| "numbered pkt sz cs (w # ws) \<longleftrightarrow> request_bytes pkt sz cs w \<and> numbered (Suc pkt) sz cs ws"

lemma numbered_lengths: "numbered pkt sz cs ws \<Longrightarrow> list_all (\<lambda>w. length w = sz) ws"
  by (induction ws arbitrary: pkt) (auto simp: request_bytes_def)

lemma session_sent:
  assumes "settled cfg" "steady cfg sz cs v s" "clean (s_conn s)" "first + length envs \<le> num_pkts cfg"
    "\<forall>env \<in> set envs. fst (sendto_res (pass_send env)) = int sz \<and> 0 \<le> nanosleep_rv env"
  shows "\<exists>ws s'. thread_sender cfg (int first) envs s = Some (Inr (ws, s')) \<and> numbered first sz cs ws \<and> length ws = length envs"
  using assms(2-5)
proof (induction envs arbitrary: first s)
  case Nil
  then show ?case by simp
next
  case (Cons env envs)
  obtain w s1 where w: "sender_pass cfg env (int first) s = Some (Inr (True, w, s1))" "request_bytes first sz cs w" "steady cfg sz cs v s1"
      "clean (s_conn s1)"
    using sender_pass_sent [OF assms(1) Cons.prems(1,2), of first env] Cons.prems(3,4) by auto
  obtain ws s' where "thread_sender cfg (int (Suc first)) envs s1 = Some (Inr (ws, s'))" "numbered (Suc first) sz cs ws" "length ws = length envs"
    using Cons.IH [OF w(3,4), of "Suc first"] Cons.prems(3,4) by auto
  then show ?case using w(1,2) by (intro exI [of _ "w # ws"] exI [of _ s']) (simp add: obind_def add.commute)
qed

section \<open>Requests for local work\<close>

text \<open>What a template asks for, its commands, and its effects on a node.\<close>

datatype work = Compute_For nat | Store_Async store_opts_t

fun work_cmd :: "work \<Rightarrow> command_type_t \<times> bytes" where
  "work_cmd (Compute_For us) = (COMPUTE, le_bytes 4 us)"
| "work_cmd (Store_Async opts) = (STORE, enc_store_opts opts)"

fun work_ok :: "nat \<Rightarrow> work \<Rightarrow> bool" where
  "work_ok devices (Compute_For us) \<longleftrightarrow> us < 2 ^ 32"
| "work_ok devices (Store_Async opts) \<longleftrightarrow>
     s_offset opts < 2 ^ 64 \<and> store_nbytes opts < 2 ^ 64 \<and> wait_sync opts = 0 \<and> s_dev_id opts < devices \<and> s_dev_id opts < 256"

fun work_effect :: "int \<Rightarrow> int \<Rightarrow> work \<Rightarrow> effect" where
  "work_effect wid rid (Compute_For us) = E_Compute us"
| "work_effect wid rid (Store_Async opts) = E_Storage (s_dev_id opts) \<lparr>worker_id = wid, sreq_id = rid, scmd = S_Store opts\<rparr>"

definition work_cmds :: "work list \<Rightarrow> nat \<Rightarrow> (command_type_t \<times> bytes) list" where
  "work_cmds us R = map work_cmd us @ [(REPLY, enc_reply_opts \<lparr>resp_size = R, mode = 0, r_dev_id = 0\<rparr>)]"

lemma enc_ok_work: "enc_ok (work_cmd a)"
  by (cases a) (simp_all add: enc_ok_def sizeof_defs)

lemma enc_ok_work_cmds: "list_all enc_ok (work_cmds us R @ [(EOM, [])])"
  using enc_ok_work by (auto simp: work_cmds_def list_all_iff) (simp_all add: enc_ok_def sizeof_defs)

lemma get_comp_at:
  assumes "us < 2 ^ 32"
  shows "get_comp_opts (pre @ le_bytes 4 t @ le_bytes 4 us @ post) (length pre) = Inr \<lparr>comp_time_us = us\<rparr>"
  using rd_at [of "length pre + 4" "pre @ le_bytes 4 t" 4 us post] assms by (simp add: get_comp_opts_def sizeof_defs)

lemma get_store_at:
  assumes "s_offset opts < 2 ^ 64" "store_nbytes opts < 2 ^ 64" "wait_sync opts < 256" "s_dev_id opts < 256"
  shows "get_store_opts (pre @ le_bytes 4 t @ enc_store_opts opts @ post) (length pre) = Inr opts"
proof -
  let ?p = "pre @ le_bytes 4 t" and ?q = "length pre + 4" and ?post = "replicate 6 0 @ post"
  let ?o = "le_bytes 8 (s_offset opts)" and ?n = "le_bytes 8 (store_nbytes opts)" and ?w = "le_bytes 1 (wait_sync opts)"
    and ?d = "le_bytes 1 (s_dev_id opts)"
  show ?thesis
    using rd_at [of ?q ?p 8 "s_offset opts" "?n @ ?w @ ?d @ ?post"] rd_at [of "?q + 8" "?p @ ?o" 8 "store_nbytes opts" "?w @ ?d @ ?post"]
      rd_at [of "?q + 16" "?p @ ?o @ ?n" 1 "wait_sync opts" "?d @ ?post"] rd_at [of "?q + 17" "?p @ ?o @ ?n @ ?w" 1 "s_dev_id opts" ?post] assms
    by (simp add: get_store_opts_def sizeof_defs enc_store_opts_def Let_def del: le_bytes.simps)
qed

lemma get_reply_at:
  assumes "resp_size opts < 2 ^ 32" "mode opts < 2 ^ 32" "r_dev_id opts < 256"
  shows "get_reply_opts (pre @ le_bytes 4 t @ enc_reply_opts opts @ post) (length pre) = Inr opts"
proof -
  let ?p = "pre @ le_bytes 4 t" and ?q = "length pre + 4" and ?post = "replicate 3 0 @ post"
  let ?r = "le_bytes 4 (resp_size opts)" and ?m = "le_bytes 4 (mode opts)" and ?d = "le_bytes 1 (r_dev_id opts)"
  show ?thesis
    using rd_at [of ?q ?p 4 "resp_size opts" "?m @ ?d @ ?post"] rd_at [of "?q + 4" "?p @ ?r" 4 "mode opts" "?d @ ?post"]
      rd_at [of "?q + 8" "?p @ ?r @ ?m" 1 "r_dev_id opts" ?post] assms
    by (simp add: get_reply_opts_def sizeof_defs enc_reply_opts_def Let_def del: le_bytes.simps)
qed

lemma enc_cmds_append: "enc_cmds (cs @ ds) = enc_cmds cs @ enc_cmds ds"
  by (induction cs rule: enc_cmds.induct) simp_all

lemma work_effects:
  assumes "list_all (work_ok (storage_devices e)) us"
  shows "local_effects e wid rid (pre @ enc_cmds (map work_cmd us @ cs) @ post) (length pre) (map (\<lambda>a. fst (work_cmd a)) us) =
    Some (map (work_effect wid rid) us)"
  using assms
proof (induction us arbitrary: pre)
  case Nil
  then show ?case by simp
next
  case (Cons a us)
  obtain t opts where a: "work_cmd a = (t, opts)" by force
  let ?pre = "pre @ le_bytes 4 (nat_of_command t) @ opts" and ?rest = "enc_cmds (map work_cmd us @ cs)"
  have len: "length ?pre = length pre + cmd_type_size t" using enc_ok_work [of a] a by (simp add: enc_ok_def)
  have IH: "local_effects e wid rid (?pre @ ?rest @ post) (length pre + cmd_type_size t) (map (\<lambda>a. fst (work_cmd a)) us) =
      Some (map (work_effect wid rid) us)"
    using Cons.IH [of ?pre] Cons.prems unfolding len by simp
  show ?case
  proof (cases a)
    case (Compute_For x)
    then show ?thesis using IH a Cons.prems get_comp_at [of x pre 0 "?rest @ post"] by (auto simp: Let_def)
  next
    case (Store_Async x)
    then show ?thesis using IH a Cons.prems get_store_at [of x pre 1 "?rest @ post"] by (auto simp: Let_def)
  qed
qed

text \<open>A request that the client sends for local work is one that the node serves as local work.\<close>

lemma work_request:
  assumes "request_bytes pkt sz (work_cmds us R) w" "list_all (work_ok (storage_devices e)) us" "R < 2 ^ 32"
  shows "local_request e wid rid R w (map (work_effect wid rid) us)"
proof -
  let ?cs = "work_cmds us R @ [(EOM, [])]" and ?ts = "map (\<lambda>a. fst (work_cmd a)) us"
  let ?L = "cmds_len (map fst ?cs)"
  have ts: "map fst ?cs = ?ts @ [REPLY, EOM]" by (simp add: work_cmds_def)
  have L: "?L = cmds_len (map fst (work_cmds us R)) + 4" by (simp add: sizeof_defs)
  have w: "length w = sz" "get_req_size w 0 = Inr sz" "slice w 12 ?L = Inr (enc_cmds ?cs)"
    using assms(1) unfolding request_bytes_def L by auto
  have le: "12 + ?L \<le> length w" using w(3) by (simp add: slice_eq_Inr)
  have enc: "length (enc_cmds ?cs) = ?L" using length_enc_cmds [OF enc_ok_work_cmds] .
  have at: "cmds_at (enc_cmds ?cs) ?L 0 (map fst ?cs)" using cmds_at_enc [OF enc_ok_work_cmds [of us R], of "[]" ?L "[]"] by simp
  have "cmds_at w (length w) 12 (map fst ?cs)"
    using cmds_at_copy [OF at _ w(3), of "length w"] le enc by (simp add: slice_ok)
  then have c: "cmds_at w (length w) 12 (?ts @ [REPLY])" unfolding ts by simp
  have r: "rd k w (12 + i) = rd k (enc_cmds ?cs) i" if "i + k \<le> ?L" for i k
  proof -
    have "take k (drop (12 + i) w) = take k (drop i (take ?L (drop 12 w)))" using that by (simp add: drop_take min_def add.commute)
    then show ?thesis using that w(3) le enc by (simp add: rd_ok slice_eq_Inr)
  qed
  have "cmds_at (enc_cmds ?cs) ?L 0 ?ts" using at unfolding ts by simp
  then have "local_effects e wid rid w (12 + 0) ?ts = local_effects e wid rid (enc_cmds ?cs) 0 ?ts"
    using local_effects_copy [of ?L w 12 "enc_cmds ?cs" 0 ?ts e wid rid] r by blast
  also have "\<dots> = Some (map (work_effect wid rid) us)"
    using work_effects [OF assms(2), of wid rid "[]" "[(REPLY, enc_reply_opts \<lparr>resp_size = R, mode = 0, r_dev_id = 0\<rparr>), (EOM, [])]" "[]"]
    by (simp add: work_cmds_def)
  finally have eff: "local_effects e wid rid w 12 ?ts = Some (map (work_effect wid rid) us)" by simp
  let ?pre = "enc_cmds (map work_cmd us)" and ?opts = "\<lparr>resp_size = R, mode = 0, r_dev_id = 0\<rparr>"
  have pre: "length ?pre = cmds_len ?ts" using length_enc_cmds [of "map work_cmd us"] enc_ok_work by (simp add: list_all_iff comp_def)
  have split: "enc_cmds ?cs = ?pre @ le_bytes 4 6 @ enc_reply_opts ?opts @ enc_cmds [(EOM, [])]"
    by (simp add: work_cmds_def enc_cmds_append)
  have "?L = cmds_len ?ts + 16 + 4" unfolding ts by (simp add: sizeof_defs)
  then have "get_reply_opts w (12 + cmds_len ?ts) = get_reply_opts (enc_cmds ?cs) (cmds_len ?ts)"
    using r [of "cmds_len ?ts + 4" 4] r [of "cmds_len ?ts + 8" 4] r [of "cmds_len ?ts + 12" 1]
    by (simp add: get_reply_opts_def sizeof_defs Let_def add.assoc)
  also have "\<dots> = Inr ?opts"
    using get_reply_at [of ?opts ?pre 6 "enc_cmds [(EOM, [])]"] assms(3) unfolding split pre by simp
  finally have "get_reply_opts w (12 + cmds_len ?ts) = Inr ?opts" .
  moreover have "msg_len w = length w" using w(1,2) le by (simp add: get_req_size_def rd_ok msg_len_def)
  ultimately show ?thesis using c eff by (auto simp: local_request_def)
qed

section \<open>The responses\<close>

lemma numbered_requests:
  assumes "list_all (work_ok (storage_devices e)) us" "R < 2 ^ 32" "numbered pkt sz (work_cmds us R) ws"
  shows "requests e wid R rid ws (map (\<lambda>i. map (work_effect wid (rid + int i)) us) [0..<length ws])"
  using assms(3)
proof (induction ws arbitrary: pkt rid)
  case Nil
  then show ?case by simp
next
  case (Cons w ws)
  have "map (\<lambda>i. map (work_effect wid (rid + int i)) us) [0..<length (w # ws)] =
      map (work_effect wid rid) us # map (\<lambda>i. map (work_effect wid (rid + 1 + int i)) us) [0..<length ws]"
    by (simp add: upt_conv_Cons map_Suc_upt [symmetric] comp_def add.assoc del: upt_Suc)
  moreover have "local_request e wid rid R w (map (work_effect wid rid) us)" using work_request [OF _ assms(1,2)] Cons.prems by auto
  moreover have "requests e wid R (rid + 1) ws (map (\<lambda>i. map (work_effect wid (rid + 1 + int i)) us) [0..<length ws])"
    using Cons.IH [of "Suc pkt" "rid + 1"] Cons.prems by simp
  ultimately show ?case by simp
qed

lemma answer_counts:
  assumes "request_bytes pkt sz cs w" "answer R w out" "16 \<le> R" "pkt < num_pkts cfg"
  shows "whole_reply cfg out" "verdict out = 1" "length out = R"
proof -
  have r: "response pkt R (nat_of_status SUCCESS) out" using assms(1,2) by (auto simp: request_bytes_def answer_def)
  then show l: "length out = R" by (simp add: response_def)
  then show "whole_reply cfg out" "verdict out = 1"
    using r assms(3,4)
    by (simp_all add: response_def get_req_id_def get_req_size_def get_status_def rd_ok whole_reply_def msg_len_def reply_id_def verdict_def reply_status_def)
qed

lemma answers_count:
  assumes "numbered pkt sz cs ws" "list_all2 (answer R) ws outs" "16 \<le> R" "pkt + length ws \<le> num_pkts cfg"
  shows "\<forall>m \<in> set outs. whole_reply cfg m \<and> verdict m = 1 \<and> length m = R"
  using assms(2,1,4)
proof (induction arbitrary: pkt rule: list_all2_induct)
  case Nil
  then show ?case by simp
next
  case (Cons w ws out outs)
  then show ?case using answer_counts [of pkt sz cs w R out cfg] assms(3) Cons.IH [of "Suc pkt"] by auto
qed

section \<open>The session\<close>

text \<open>
  \<open>node_gets e n c d R N\<close>: the worker is ready on its connection \<open>c\<close> with no request in progress and has \<open>N\<close> free slots for requests; it receives
  the bytes \<open>d\<close>, and the kernel takes every response of \<open>R\<close> bytes at once.
\<close>

definition node_gets :: "'k node_env \<Rightarrow> 'k node \<Rightarrow> nat \<Rightarrow> bytes \<Rightarrow> nat \<Rightarrow> nat \<Rightarrow> bool" where
  "node_gets e n c d R N \<longleftrightarrow>
     ready c [] n \<and> c < MAX_CONNS \<and> sock (conns (node.tbl n) c) \<noteq> -1 \<and> unproc (conns (node.tbl n) c) = [] \<and>
     recv_env_ok (recvs e (calls n)) (conns (node.tbl n) c) \<and> 0 < fst (recvfrom_res (recvs e (calls n))) \<and> recv_data (recvs e (calls n)) = d \<and>
     0 \<le> last_reqs (node.tbl n) \<and> last_reqs (node.tbl n) + int N < 2 ^ 31 \<and>
     (\<forall>i < N. req_id (reqs (node.tbl n) (req_slot (last_reqs (node.tbl n) + int i))) = -1) \<and>
     (\<forall>j. 0 \<le> pipe_writes e j) \<and> (\<forall>j. fst (sendto_res (sends e j)) = int R)"

text \<open>\<open>client_gets env r i d\<close>: the receiver thread, with nothing unprocessed on its connection \<open>i\<close>, receives the bytes \<open>d\<close>.\<close>

definition client_gets :: "recv_env \<Rightarrow> receiver_t \<Rightarrow> nat \<Rightarrow> bytes \<Rightarrow> bool" where
  "client_gets env r i d \<longleftrightarrow> r_conn_id r = int i \<and> i < MAX_CONNS \<and> conn_inv (conns (receiver_t.tbl r) i) \<and> \<not> use_ssl (conns (receiver_t.tbl r) i) \<and>
     unproc (conns (receiver_t.tbl r) i) = [] \<and> recv_env_ok env (conns (receiver_t.tbl r) i) \<and> 0 < fst (recvfrom_res env) \<and> recv_data env = d"

lemma node_answers:
  assumes "node_gets e n c (concat ws) R (length ws)" "numbered pkt sz (work_cmds us R) ws" "list_all (work_ok (storage_devices e)) us"
    "16 \<le> R" "R \<le> BUF_SIZE"
  shows "\<exists>n' outs. exec_request e (length ws + 2) DW_POLLIN c SOCKET n = Some (Inr ((), n')) \<and> list_all2 (answer R) ws outs \<and>
    trace n' = trace n @ concat (map2 (\<lambda>effs out. effs @ [E_Sent c out])
      (map (\<lambda>i. map (work_effect (w_worker_id (infos n)) (last_reqs (node.tbl n) + int i)) us) [0..<length ws]) outs)"
proof -
  have "R < 2 ^ 32" using assms(5) by (simp add: BUF_SIZE_def)
  note q = numbered_requests [OF assms(3) this assms(2), of "w_worker_id (infos n)" "last_reqs (node.tbl n)"]
  have g: "ready c [] n" "c < MAX_CONNS" "sock (conns (node.tbl n) c) \<noteq> -1" "recv_env_ok (recvs e (calls n)) (conns (node.tbl n) c)"
      "0 < fst (recvfrom_res (recvs e (calls n)))" "unproc (conns (node.tbl n) c) @ recv_data (recvs e (calls n)) = concat ws @ []"
      "0 \<le> last_reqs (node.tbl n)" "last_reqs (node.tbl n) + int (length ws) < 2 ^ 31"
      "\<forall>i < length ws. req_id (reqs (node.tbl n) (req_slot (last_reqs (node.tbl n) + int i))) = -1"
      "\<forall>j. 0 \<le> pipe_writes e j" "\<forall>j. fst (sendto_res (sends e j)) = int R"
    using assms(1) by (auto simp: node_gets_def)
  show ?thesis using request_stream [OF g(1-6) _ q assms(4,5) g(7-11), of "length ws + 2"] by (auto simp: incomplete_def)
qed

lemma client_counts:
  assumes "settled cfg" "client_gets env r i (concat outs)" "outs \<noteq> []" "\<forall>m \<in> set outs. whole_reply cfg m \<and> verdict m = 1 \<and> length m = R" "16 \<le> R"
  shows "\<exists>r'. receive_part cfg (env # envs) clk r = Some (Inr r') \<and> num_success r' = num_success r + int (length outs) \<and>
    num_error r' = num_error r \<and> num_timedout r' = num_timedout r"
proof -
  have "arrives cfg env (conns (receiver_t.tbl r) i) outs []"
    using assms(2-5) by (auto simp: arrives_def client_gets_def incomplete_def)
  then obtain r2 x where r: "receive_part cfg (env # envs) clk r = Some (Inr (r2\<lparr>receiver_t.tbl := upd_conn i (\<lambda>_. x) (receiver_t.tbl r)\<rparr>))"
      "tallied outs (r\<lparr>receiver_t.tbl := receiver_t.tbl r2\<rparr>) r2"
    using receive_arrives [OF assms(1), of r i env outs "[]" envs clk] assms(2) by (auto simp: client_gets_def)
  have "filter (\<lambda>m. verdict m = 1) outs = outs" "filter (\<lambda>m. verdict m = -1) outs = []" "filter (\<lambda>m. verdict m = -2) outs = []"
    using assms(4) by (auto simp: filter_id_conv filter_empty_conv)
  then show ?thesis using r by (auto simp: tallied_def)
qed

text \<open>C1. A session from end to end. A client whose template asks for computations and stores and for a reply of \<open>R\<close> bytes sends one request of
  \<open>sz\<close> bytes for each pass of the sender thread. When the worker of a node receives these bytes, it carries out the work of each request in the order of
  the template and the requests in the order in which they were sent, and sends exactly one response after each. When the receiver thread of
  the client gets the responses, it counts exactly as many successes as there were requests, and no error and no timeout.
\<close>

theorem session_roundtrip:
  assumes "settled cfg" "steady cfg sz (work_cmds us R) v s" "clean (s_conn s)" "first + length envs \<le> num_pkts cfg" "envs \<noteq> []"
    "\<forall>env \<in> set envs. fst (sendto_res (pass_send env)) = int sz \<and> 0 \<le> nanosleep_rv env" "16 \<le> R" "R \<le> BUF_SIZE"
  shows "\<exists>ws s'. thread_sender cfg (int first) envs s = Some (Inr (ws, s')) \<and> length ws = length envs \<and> list_all (\<lambda>w. length w = sz) ws \<and>
    (\<forall>e n c. node_gets e n c (concat ws) R (length envs) \<and> list_all (work_ok (storage_devices e)) us \<longrightarrow>
      (\<exists>n' outs. exec_request e (length envs + 2) DW_POLLIN c SOCKET n = Some (Inr ((), n')) \<and> length outs = length envs \<and> list_all (\<lambda>m. length m = R) outs \<and>
        trace n' = trace n @ concat (map2 (\<lambda>effs out. effs @ [E_Sent c out])
          (map (\<lambda>i. map (work_effect (w_worker_id (infos n)) (last_reqs (node.tbl n) + int i)) us) [0..<length envs]) outs) \<and>
        (\<forall>env r i clk rest. client_gets env r i (concat outs) \<longrightarrow>
          (\<exists>r'. receive_part cfg (env # rest) clk r = Some (Inr r') \<and> num_success r' = num_success r + int (length envs) \<and>
            num_error r' = num_error r \<and> num_timedout r' = num_timedout r))))"
proof -
  obtain ws s' where ws: "thread_sender cfg (int first) envs s = Some (Inr (ws, s'))" "numbered first sz (work_cmds us R) ws" "length ws = length envs"
    using session_sent [OF assms(1-4,6)] by blast
  have node: "\<exists>n' outs. exec_request e (length envs + 2) DW_POLLIN c SOCKET n = Some (Inr ((), n')) \<and> length outs = length envs \<and> list_all (\<lambda>m. length m = R) outs \<and>
        trace n' = trace n @ concat (map2 (\<lambda>effs out. effs @ [E_Sent c out])
          (map (\<lambda>i. map (work_effect (w_worker_id (infos n)) (last_reqs (node.tbl n) + int i)) us) [0..<length envs]) outs) \<and>
        (\<forall>env r i clk rest. client_gets env r i (concat outs) \<longrightarrow>
          (\<exists>r'. receive_part cfg (env # rest) clk r = Some (Inr r') \<and> num_success r' = num_success r + int (length envs) \<and>
            num_error r' = num_error r \<and> num_timedout r' = num_timedout r))"
    if h: "node_gets e n c (concat ws) R (length envs)" "list_all (work_ok (storage_devices e)) us" for e :: "'a node_env" and n c
  proof -
    obtain n' outs where n': "exec_request e (length envs + 2) DW_POLLIN c SOCKET n = Some (Inr ((), n'))" "list_all2 (answer R) ws outs"
        "trace n' = trace n @ concat (map2 (\<lambda>effs out. effs @ [E_Sent c out])
          (map (\<lambda>i. map (work_effect (w_worker_id (infos n)) (last_reqs (node.tbl n) + int i)) us) [0..<length envs]) outs)"
      using node_answers [OF _ ws(2) h(2) assms(7,8), of n c] h(1) unfolding ws(3) by blast
    have l: "length outs = length envs" using n'(2) ws(3) by (simp add: list_all2_lengthD)
    have a: "\<forall>m \<in> set outs. whole_reply cfg m \<and> verdict m = 1 \<and> length m = R"
      using answers_count [OF ws(2) n'(2) assms(7)] assms(4) ws(3) by simp
    have ne: "outs \<noteq> []" using l assms(5) by auto
    have "list_all (\<lambda>m. length m = R) outs" using a by (simp add: list_all_iff)
    then show ?thesis using n' l client_counts [OF assms(1) _ ne a assms(7)] by (intro exI [of _ n'] exI [of _ outs]) auto
  qed
  show ?thesis using ws numbered_lengths [OF ws(2)] node by (intro exI [of _ ws] exI [of _ s']) blast
qed

section \<open>A concrete session\<close>

text \<open>Two requests of 128 bytes, each to compute for a millisecond and to reply with 64 bytes, 100 microseconds apart.\<close>

definition sample_sender :: sender_t where
  "sample_sender = \<lparr>s_stamps = no_stamps, s_conn = stream_conn, ts_now = ts_start sample_cfg, chain = sample_chain,
     send_pkt_size_pd = pd_build_fixed (Fin 128), send_period_us_pd = pd_build_fixed (Fin 100), send_rate_pd = pd_zero, rand_state = 0\<rparr>"

definition sample_pass :: pass_env where
  "sample_pass = \<lparr>ts_send = ts_start sample_cfg, pass_send = idle_env\<lparr>sendto_res := (128, E_OTHER)\<rparr>, spins = [], nanosleep_rv = 0\<rparr>"

lemma steady_sample: "steady sample_cfg 128 (work_cmds [Compute_For 1000] 64) (Fin 100) sample_sender" "clean (s_conn sample_sender)"
proof -
  have ch: "chain sample_sender = sample_chain" "send_pkt_size_pd sample_sender = pd_build_fixed (Fin (of_int 128))"
      "send_period_us_pd sample_sender = pd_build_fixed (Fin 100)" "cl_libm sample_cfg = no_libm" "ramp_step_secs sample_cfg = 0"
      "\<not> use_wait_spinning sample_cfg"
    by (simp_all add: sample_sender_def sample_cfg_def)
  have "stack_inv (cqueue sample_chain)" "ptrs sample_chain = [0, 1]"
    by (simp_all add: sample_chain_def stack_inv_def ptrs_def contents_def ring_pos_def upt_rec)
  moreover have "work_cmds [Compute_For 1000] 64 = sample_out" by (simp add: work_cmds_def sample_out_def)
  moreover have "12 + cmds_len (map fst sample_out) + 28 \<le> 128" "(128::nat) \<le> BUF_SIZE" by (simp_all add: sample_out_def sizeof_defs BUF_SIZE_def)
  moreover have "sample_as no_libm to_u32 (pd_build_fixed (Fin (of_int 128))) g = Some (Inr (128, pd_build_fixed (Fin (of_int 128)), g))" for g
    using fixed_sample_u32 [of 128 no_libm g] by simp
  moreover have "to_u64 (dmul (Fin 100) (d_int 1000)) = Inr 100000"
    using rnd_of_int [of 100000] to_u64_int [of 100000] by (simp add: d_int_exact)
  ultimately show "steady sample_cfg 128 (work_cmds [Compute_For 1000] 64) (Fin 100) sample_sender"
    using sample_emits by (simp add: steady_def ch fixed_sample)
  have "conn_inv stream_conn" by (simp add: stream_conn_def conn_inv_def blank_conn_def)
  moreover have "rd 4 (replicate BUF_SIZE 0) 8 = Inr (le_nat (replicate 4 0))" by (simp add: rd_ok BUF_SIZE_def)
  moreover have "le_nat (replicate 4 0) = 0" by (simp add: numeral_eq_Suc)
  ultimately show "clean (s_conn sample_sender)"
    by (simp add: clean_def idle_def sample_sender_def) (simp add: stream_conn_def blank_conn_def get_status_def)
qed

lemma sample_lengths:
  assumes "length ws = 2" "list_all (\<lambda>w. length w = k) ws"
  shows "length (concat ws) = 2 * k"
  using assms by (auto simp: numeral_2_eq_2 length_Suc_conv)

lemma sample_node_gets:
  assumes "length d = 256"
  shows "node_gets (served_env\<lparr>recvs := \<lambda>i. received d\<rparr>) stream_node 0 d 64 2"
proof -
  have "conn_inv stream_conn" "unproc stream_conn = []" by (simp_all add: stream_conn_def conn_inv_def unproc_def blank_conn_def)
  then have "ready 0 [] stream_node" "unproc (conns (node.tbl stream_node) 0) = []"
    by (simp_all add: ready_def idle_def stream_node_def req_lists_def req_inv_def zero_req_def) (simp_all add: stream_conn_def blank_conn_def)
  moreover have "sock (conns (node.tbl stream_node) 0) \<noteq> -1" "curr_recv_size (conns (node.tbl stream_node) 0) = BUF_SIZE"
    "\<not> use_ssl (conns (node.tbl stream_node) 0)"
    by (simp_all add: stream_node_def) (simp_all add: stream_conn_def blank_conn_def)
  ultimately show ?thesis using assms
    by (simp add: node_gets_def recv_env_ok_def received_def MAX_CONNS_def BUF_SIZE_def served_env_def idle_node_env_def)
      (simp add: stream_node_def)
qed

theorem session_roundtrip_witness:
  "\<exists>ws s' n' out1 out2 r'. thread_sender sample_cfg 0 [sample_pass, sample_pass] sample_sender = Some (Inr (ws, s')) \<and>
    exec_request (served_env\<lparr>recvs := \<lambda>i. received (concat ws)\<rparr>) 4 DW_POLLIN 0 SOCKET stream_node = Some (Inr ((), n')) \<and>
    trace n' = [E_Compute 1000, E_Sent 0 out1, E_Compute 1000, E_Sent 0 out2] \<and>
    receive_part sample_cfg [received (out1 @ out2)] (\<lambda>_. ts_start sample_cfg) (sample_receiver open_conn) = Some (Inr r') \<and> num_success r' = 2"
proof -
  let ?e = "\<lambda>d. served_env\<lparr>recvs := \<lambda>i. received d\<rparr>" and ?r = "sample_receiver open_conn"
  have p: "0 + length [sample_pass, sample_pass] \<le> num_pkts sample_cfg" "[sample_pass, sample_pass] \<noteq> []"
    "\<forall>env \<in> set [sample_pass, sample_pass]. fst (sendto_res (pass_send env)) = int 128 \<and> 0 \<le> nanosleep_rv env" "(16::nat) \<le> 64" "(64::nat) \<le> BUF_SIZE"
    by (simp_all add: sample_cfg_def sample_pass_def BUF_SIZE_def)
  let ?N = "length [sample_pass, sample_pass]" and ?E = "\<lambda>n i. map (work_effect (w_worker_id (infos n)) (last_reqs (node.tbl n) + int i)) [Compute_For 1000]"
  obtain ws s' where ws: "thread_sender sample_cfg (int 0) [sample_pass, sample_pass] sample_sender = Some (Inr (ws, s'))" "length ws = ?N"
      "list_all (\<lambda>w. length w = 128) ws"
      "\<forall>e n c. node_gets (e :: unit node_env) n c (concat ws) 64 ?N \<and> list_all (work_ok (storage_devices e)) [Compute_For 1000] \<longrightarrow>
        (\<exists>n' outs. exec_request e (?N + 2) DW_POLLIN c SOCKET n = Some (Inr ((), n')) \<and> length outs = ?N \<and> list_all (\<lambda>m. length m = 64) outs \<and>
        trace n' = trace n @ concat (map2 (\<lambda>effs out. effs @ [E_Sent c out]) (map (?E n) [0..<?N]) outs) \<and>
        (\<forall>env r i clk rest. client_gets env r i (concat outs) \<longrightarrow>
          (\<exists>r'. receive_part sample_cfg (env # rest) clk r = Some (Inr r') \<and> num_success r' = num_success r + int ?N \<and>
            num_error r' = num_error r \<and> num_timedout r' = num_timedout r)))"
    using session_roundtrip [where 'a = unit, OF settled_sample steady_sample p] by blast
  have N: "?N = 2" and E: "map (?E n) [0..<2] = [[E_Compute 1000], [E_Compute 1000]]" for n :: "unit node" by (simp_all add: upt_rec)
  have "node_gets (?e (concat ws)) stream_node 0 (concat ws) 64 2" using sample_lengths [OF ws(2) [unfolded N] ws(3)] by (intro sample_node_gets) simp
  then obtain n' outs where n': "exec_request (?e (concat ws)) 4 DW_POLLIN 0 SOCKET stream_node = Some (Inr ((), n'))" "length outs = 2"
      "list_all (\<lambda>m. length m = 64) outs"
      "trace n' = trace stream_node @ concat (map2 (\<lambda>effs out. effs @ [E_Sent 0 out]) [[E_Compute 1000], [E_Compute 1000]] outs)"
      "\<And>env r i clk rest. client_gets env r i (concat outs) \<Longrightarrow>
        \<exists>r'. receive_part sample_cfg (env # rest) clk r = Some (Inr r') \<and> num_success r' = num_success r + 2"
    using spec [OF spec [OF spec [OF ws(4), of "?e (concat ws)"], of stream_node], of 0] unfolding N E by auto blast
  have "trace stream_node = []" by (simp add: stream_node_def idle_node_def)
  moreover have "client_gets (received (concat outs)) ?r 0 (concat outs)"
    using sample_lengths [OF n'(2,3)] sample_receiver_conn sample_conns zero_less_MAX_CONNS
    by (simp add: client_gets_def recv_env_ok_def received_def BUF_SIZE_def)
  from n'(5) [OF this] obtain r' where "receive_part sample_cfg [received (concat outs)] (\<lambda>_. ts_start sample_cfg) ?r = Some (Inr r')"
      "num_success r' = num_success ?r + 2" by blast
  moreover have "num_success ?r = 0" by (simp add: sample_receiver_def)
  moreover obtain out1 out2 where "outs = [out1, out2]" using n'(2) by (auto simp: numeral_2_eq_2 length_Suc_conv)
  ultimately show ?thesis using ws(1) n'(1,4)
    by (intro exI [of _ ws] exI [of _ s'] exI [of _ n'] exI [of _ out1] exI [of _ out2] exI [of _ r']) simp
qed

end
