(* ===== verification/DW_Client_Main.thy ===== *)
theory DW_Client_Main
  imports DW_Client_Args DW_Client
begin

text \<open>
  The rest of the client (\<^verbatim>\<open>src/dw_client.c\<close>): all options of \<^verbatim>\<open>argp_client_parse_opt\<close> and the checks at their end, options from a script
  file, and the lines that report the latencies. The options that build the request template are those of \<open>DW_Client_Args\<close>. The start after the
  options is in \<open>DW_Client_Run\<close>. Help texts and the build with \<^verbatim>\<open>DPDK_ENABLED\<close> are left out.
\<close>

section \<open>Output option\<close>

datatype output_format_t = OUTPUT_FORMAT_TXT | OUTPUT_FORMAT_CSV

record output_cfg =
  output_file :: "string option"
  output_sep :: char
  output_header :: bool
  output_format :: output_format_t

text \<open>The part of a file name after its last point.\<close>

definition extension :: "string \<Rightarrow> string option" where
  "extension s = (let r = takeWhile (\<lambda>c. c \<noteq> CHR ''.'') (rev s) in if length r = length s then None else Some (rev r))"

text \<open>One token of \<^verbatim>\<open>--output\<close>; the state also holds the first character of \<^verbatim>\<open>sep\<close> and \<^verbatim>\<open>header_set\<close>.\<close>

definition output_token :: "output_cfg \<times> char \<times> bool \<Rightarrow> string \<Rightarrow> (output_cfg \<times> char \<times> bool) res" where
  "output_token st token =
     (let (oc, sep, header_set) = st in
      case prefixed ''sep='' token of
        Some r \<Rightarrow>
          let r1 = (if r \<noteq> [] \<and> (hd r = CHR 39 \<or> hd r = CHR 34) then tl r else r) in
          if r1 = [] then Inl Exit_Failure else Inr (oc\<lparr>output_sep := hd r1\<rparr>, hd r1, header_set)
      | None \<Rightarrow>
     (case prefixed ''header='' token of
        Some v \<Rightarrow>
          if v = ''true'' \<or> v = ''1'' then Inr (oc\<lparr>output_header := True\<rparr>, sep, True)
          else if v = ''false'' \<or> v = ''0'' then Inr (oc\<lparr>output_header := False\<rparr>, sep, True)
          else Inl Exit_Failure
      | None \<Rightarrow>
          if token = [] then Inl Exit_Failure
          else if extension token = Some ''csv'' then Inr (oc\<lparr>output_file := Some token, output_format := OUTPUT_FORMAT_CSV\<rparr>, sep, header_set)
          else if extension token = Some ''txt'' then Inr (oc\<lparr>output_file := Some token, output_format := OUTPUT_FORMAT_TXT\<rparr>, sep, header_set)
          else Inl Exit_Failure))"

definition opt_output :: "string \<Rightarrow> output_cfg \<Rightarrow> output_cfg res" where
  "opt_output arg oc =
     rbind (rfold output_token (oc, CHR '','', False) (split_at '','' arg)) (\<lambda>(oc', sep, header_set).
       if output_format oc' = OUTPUT_FORMAT_TXT \<and> (sep = CHR ''_'' \<or> sep = CHR '':'') then Inl Exit_Failure
       else if output_format oc' = OUTPUT_FORMAT_CSV \<and> sep = CHR ''_'' then Inl Exit_Failure
       else if header_set \<and> output_format oc' \<noteq> OUTPUT_FORMAT_CSV then Inl Exit_Failure
       else Inr oc')"

section \<open>Settings\<close>

definition CLIENT_MAX_THREADS :: int where "CLIENT_MAX_THREADS = 256"
definition TCPIP_HEADERS_SIZE :: int where "TCPIP_HEADERS_SIZE = 66"
definition MIN_SEND_SIZE :: int where "MIN_SEND_SIZE = int (sizeof_message_t + 2 * sizeof_command_t)"

record client_settings =
  cs_args :: client_args
  clienthostport :: string
  nodehostport :: string
  cs_proto :: proto_t
  myaddr :: sockaddr_in
  cs_serveraddr :: sockaddr_in
  num_sessions :: int
  num_threads :: int
  cs_num_pkts :: u64
  cs_pkts_per_session :: u64
  cs_pkt_size_pd :: pd_spec_t
  cs_period_us_pd :: pd_spec_t
  cs_rate_pd :: pd_spec_t
  main_rng :: rng
  cs_use_wait_spinning :: bool
  cs_use_nano :: bool
  cs_ramp_step_secs :: nat
  seed :: int
  cs_conn_retry_num :: int
  conn_retry_period_ms :: int
  conn_times :: bool
  conn_nonblock :: bool
  staggered_send :: bool
  cs_per_session_output :: bool
  use_interactive_pso :: bool
  cs_output :: output_cfg
  no_delay :: int
  ssl_files :: "string option list"
  ssl_verify :: bool
  dpdk_cpus :: "int \<times> int"

datatype client_key = HELP | USAGE | BIND_ADDR | TO_OPT_ARG | NUM_PKTS | PERIOD | RATE | WAIT_SPIN | NANO_OUTPUT | RATE_STEP_SECS | COMP_TIME
  | LOAD_OFFSET | STORE_OFFSET | STORE_DATA | LOAD_DATA | SKIP_CMD | FORWARD_CMD | SEND_REQUEST_SIZE | REPLY_CMD | NUM_THREADS | SEED
  | NUM_SESSIONS | CONN_RETRY_NUM | CONN_RETRY_PERIOD | CONN_TIMES | CONN_NONBLOCK | STAG_SEND | PER_SESSION_OUTPUT | INTERACTIVE_PSO
  | OUTPUT_FILE | SCRIPT_FILENAME | NO_DELAY | SSL_FILE nat | SSL_VERIFY | DPDK_TX_CPU | DPDK_RX_CPU

text \<open>\<^verbatim>\<open>(long) val\<close> stored in an \<^verbatim>\<open>unsigned long\<close>.\<close>

definition opt_num_pkts :: "string \<Rightarrow> client_settings \<Rightarrow> client_settings res" where
  "opt_num_pkts arg s =
     (if arg = ''auto'' then Inr (s\<lparr>cs_num_pkts := 0\<rparr>)
      else rbind (sscanf_unit arg [] False) (\<lambda>v. case v of
          None \<Rightarrow> Inl Exit_Failure
        | Some x \<Rightarrow> rbind (to_i64 x) (\<lambda>n. Inr (s\<lparr>cs_num_pkts := word_of_int n\<rparr>))))"

definition opt_rate :: "parse_env \<Rightarrow> string \<Rightarrow> client_settings \<Rightarrow> client_settings res option" where
  "opt_rate pe arg s =
     obind (Some (pd_parse (pe_libm pe) (pe_files pe) arg)) (\<lambda>p.
     obind (pd_sample (pe_libm pe) p (main_rng s)) (\<lambda>(rate, p', g).
       if \<not> dlt (Fin 0) rate then Some (Inl Exit_Failure)
       else Some (Inr (s\<lparr>cs_rate_pd := p', main_rng := g, cs_period_us_pd := pd_build_fixed (ddiv (d_int 1000000) rate)\<rparr>))))"

definition opt_pkt_size :: "parse_env \<Rightarrow> string \<Rightarrow> client_settings \<Rightarrow> client_settings res" where
  "opt_pkt_size pe arg s =
     rbind (pd_parse_bytes (pe_libm pe) (pe_files pe) arg) (\<lambda>p.
       if dle (d_int MIN_SEND_SIZE) (pd_val p) \<and> dle (dadd (pd_val p) (d_int TCPIP_HEADERS_SIZE)) (d_int (int BUF_SIZE))
       then Inr (s\<lparr>cs_pkt_size_pd := p\<rparr>) else Inl Exit_Failure)"

text \<open>An option that sets a number within bounds.\<close>

definition set_number :: "string \<Rightarrow> (int \<Rightarrow> bool) \<Rightarrow> (int \<Rightarrow> client_settings) \<Rightarrow> client_settings res" where
  "set_number arg ok upd = (if ok (atoi arg) then Inr (upd (atoi arg)) else Inl Exit_Failure)"

definition on_args :: "(client_args \<Rightarrow> client_args res) \<Rightarrow> client_settings \<Rightarrow> client_settings res" where
  "on_args f s = rbind (f (cs_args s)) (\<lambda>a. Inr (s\<lparr>cs_args := a\<rparr>))"

text \<open>
  The options that do not need to sample a distribution and read no further file. \<open>junk_val\<close> is the contents of an uninitialised variable, as in
  \<open>opt_reply\<close>.
\<close>

fun plain_opt :: "parse_env \<Rightarrow> pd_spec_t \<Rightarrow> client_key \<Rightarrow> string \<Rightarrow> client_settings \<Rightarrow> client_settings res" where
  "plain_opt pe junk_val BIND_ADDR arg s =
     (if \<not> length arg < MAX_HOSTPORT_STRLEN then Inl Exit_Failure
      else rbind (addr_proto_parse arg (clienthostport s) TCP) (\<lambda>(hp, pr). Inr (s\<lparr>clienthostport := hp\<rparr>)))"
| "plain_opt pe junk_val TO_OPT_ARG arg s =
     (if \<not> length arg < MAX_HOSTPORT_STRLEN then Inl Exit_Failure
      else rbind (addr_proto_parse arg (nodehostport s) (cs_proto s)) (\<lambda>(hp, pr). Inr (s\<lparr>nodehostport := hp, cs_proto := pr\<rparr>)))"
| "plain_opt pe junk_val NUM_PKTS arg s = opt_num_pkts arg s"
| "plain_opt pe junk_val PERIOD arg s = rbind (pd_parse_time (pe_libm pe) (pe_files pe) arg) (\<lambda>p. Inr (s\<lparr>cs_period_us_pd := p\<rparr>))"
| "plain_opt pe junk_val WAIT_SPIN arg s = Inr (s\<lparr>cs_use_wait_spinning := True\<rparr>)"
| "plain_opt pe junk_val NANO_OUTPUT arg s = Inr (s\<lparr>cs_use_nano := True\<rparr>)"
| "plain_opt pe junk_val RATE_STEP_SECS arg s = Inr (s\<lparr>cs_ramp_step_secs := nat (atoi arg mod 2 ^ 32)\<rparr>)"
| "plain_opt pe junk_val COMP_TIME arg s = on_args (opt_comp_time pe arg) s"
| "plain_opt pe junk_val LOAD_OFFSET arg s =
     on_args (\<lambda>a. rbind (pd_parse_bytes (pe_libm pe) (pe_files pe) arg) (\<lambda>p. Inr (a\<lparr>load_offset_pd := p\<rparr>))) s"
| "plain_opt pe junk_val STORE_OFFSET arg s =
     on_args (\<lambda>a. rbind (pd_parse_bytes (pe_libm pe) (pe_files pe) arg) (\<lambda>p. Inr (a\<lparr>store_offset_pd := p\<rparr>))) s"
| "plain_opt pe junk_val STORE_DATA arg s = on_args (opt_store pe arg) s"
| "plain_opt pe junk_val LOAD_DATA arg s = on_args (opt_load pe arg) s"
| "plain_opt pe junk_val SKIP_CMD arg s = on_args (opt_skip arg) s"
| "plain_opt pe junk_val SEND_REQUEST_SIZE arg s = opt_pkt_size pe arg s"
| "plain_opt pe junk_val NUM_THREADS arg s = set_number arg (\<lambda>v. v \<ge> 1 \<and> v \<le> CLIENT_MAX_THREADS) (\<lambda>v. s\<lparr>num_threads := v\<rparr>)"
| "plain_opt pe junk_val SEED arg s = Inr (s\<lparr>seed := atoi arg\<rparr>)"
| "plain_opt pe junk_val NUM_SESSIONS arg s = set_number arg (\<lambda>v. v \<ge> 1) (\<lambda>v. s\<lparr>num_sessions := v\<rparr>)"
| "plain_opt pe junk_val CONN_RETRY_NUM arg s = set_number arg (\<lambda>v. v \<ge> 0) (\<lambda>v. s\<lparr>cs_conn_retry_num := v\<rparr>)"
| "plain_opt pe junk_val CONN_RETRY_PERIOD arg s = set_number arg (\<lambda>v. v \<ge> 200) (\<lambda>v. s\<lparr>conn_retry_period_ms := v\<rparr>)"
| "plain_opt pe junk_val CONN_TIMES arg s = Inr (s\<lparr>conn_times := True\<rparr>)"
| "plain_opt pe junk_val CONN_NONBLOCK arg s = Inr (s\<lparr>conn_nonblock := True\<rparr>)"
| "plain_opt pe junk_val STAG_SEND arg s = Inr (s\<lparr>staggered_send := True\<rparr>)"
| "plain_opt pe junk_val PER_SESSION_OUTPUT arg s = Inr (s\<lparr>cs_per_session_output := True\<rparr>)"
| "plain_opt pe junk_val INTERACTIVE_PSO arg s = Inr (s\<lparr>use_interactive_pso := True\<rparr>)"
| "plain_opt pe junk_val OUTPUT_FILE arg s = rbind (opt_output arg (cs_output s)) (\<lambda>oc. Inr (s\<lparr>cs_output := oc\<rparr>))"
| "plain_opt pe junk_val NO_DELAY arg s = set_number arg (\<lambda>v. v = 0 \<or> v = 1) (\<lambda>v. s\<lparr>no_delay := v\<rparr>)"
| "plain_opt pe junk_val (SSL_FILE k) arg s = Inr (s\<lparr>ssl_files := (ssl_files s)[k := Some arg]\<rparr>)"
| "plain_opt pe junk_val SSL_VERIFY arg s = Inr (s\<lparr>ssl_verify := True\<rparr>)"
| "plain_opt pe junk_val DPDK_TX_CPU arg s = Inr (s\<lparr>dpdk_cpus := (atoi arg, snd (dpdk_cpus s))\<rparr>)"
| "plain_opt pe junk_val DPDK_RX_CPU arg s = Inr (s\<lparr>dpdk_cpus := (fst (dpdk_cpus s), atoi arg)\<rparr>)"
| "plain_opt pe junk_val k arg s = Inr s"

text \<open>
  \<^verbatim>\<open>argp_client_parse_opt\<close> for a key and its argument (\<open>None\<close>: a null pointer); \<open>script\<close> is what the option \<^verbatim>\<open>--script-filename\<close> does. \<open>junk\<close> holds
  the contents of uninitialised variables. The result is \<open>None\<close> when the function does not return: \<^verbatim>\<open>--help\<close> and \<^verbatim>\<open>--usage\<close> end the program.
\<close>

definition argp_client_parse_opt :: "parse_env \<Rightarrow> string \<times> pd_spec_t \<Rightarrow> (string \<Rightarrow> client_settings \<Rightarrow> client_settings res option) \<Rightarrow>
    client_key \<Rightarrow> string option \<Rightarrow> client_settings \<Rightarrow> client_settings res option" where
  "argp_client_parse_opt pe junk script k arg s =
     (if k = REPLY_CMD then Some (on_args (opt_reply pe (snd junk) arg) s)
      else if k \<in> {HELP, USAGE} then None
      else if k \<in> {WAIT_SPIN, NANO_OUTPUT, CONN_TIMES, CONN_NONBLOCK, STAG_SEND, PER_SESSION_OUTPUT, INTERACTIVE_PSO, SSL_VERIFY}
      then Some (plain_opt pe (snd junk) k [] s)
      else case arg of
        None \<Rightarrow> Some (Inl Null_Deref)
      | Some a \<Rightarrow>
          if k = RATE then opt_rate pe a s
          else if k = FORWARD_CMD then obind (opt_forward pe (fst junk) a (cs_args s)) (\<lambda>ar. Some (Inr (s\<lparr>cs_args := ar\<rparr>)))
          else if k = SCRIPT_FILENAME then script a s
          else Some (plain_opt pe (snd junk) k a s))"

text \<open>The checks at the end of the options (\<^verbatim>\<open>ARGP_KEY_END\<close>).\<close>

definition auto_pkts :: "parse_env \<Rightarrow> client_settings \<Rightarrow> client_settings res" where
  "auto_pkts pe s =
     (if cs_ramp_step_secs s \<noteq> 0 \<and> cs_num_pkts s = 0 then
        rbind (pd_len (pe_libm pe) (cs_rate_pd s)) (\<lambda>num_rates.
          if num_rates = -1 then Inl Exit_Failure
          else rbind (pd_avg (pe_libm pe) (cs_rate_pd s)) (\<lambda>avg.
            rbind (to_u64 (dmul (dmul avg (d_int num_rates)) (d_int (int (cs_ramp_step_secs s))))) (\<lambda>n.
              Inr (s\<lparr>cs_num_pkts := word_of_nat n\<rparr>))))
      else Inr s)"

definition options_end :: "parse_env \<Rightarrow> client_settings \<Rightarrow> client_settings res" where
  "options_end pe s =
     rbind (if cs_proto s \<noteq> DPDK then
         rbind (addr_parse (pe_resolve pe) (clienthostport s)) (\<lambda>c. rbind (addr_parse (pe_resolve pe) (nodehostport s)) (\<lambda>n.
           Inr (s\<lparr>myaddr := c, cs_serveraddr := n\<rparr>)))
       else Inr s) (\<lambda>s1.
     if prob (cs_rate_pd s1) \<noteq> FIXED \<and> cs_ramp_step_secs s1 = 0 then Inl Exit_Failure
     else rbind (auto_pkts pe s1) (\<lambda>s2.
       rbind (round_pkts (cs_per_session_output s2) (cs_num_pkts s2) (word_of_int (num_sessions s2))) (\<lambda>(n, p).
       on_args finish_chain (s2\<lparr>cs_num_pkts := n, cs_pkts_per_session := p\<rparr>))))"

section \<open>Script files\<close>

text \<open>The table of the options: name, key and whether there is an argument.\<close>

definition argp_client_options :: "(string \<times> client_key \<times> bool) list" where
  "argp_client_options = [(''bind-addr'', BIND_ADDR, True), (''to'', TO_OPT_ARG, True), (''num-pkts'', NUM_PKTS, True), (''period'', PERIOD, True),
     (''rate'', RATE, True), (''wait-spin'', WAIT_SPIN, False), (''ws'', WAIT_SPIN, False), (''rate-step-secs'', RATE_STEP_SECS, True),
     (''rss'', RATE_STEP_SECS, True), (''comp-time'', COMP_TIME, True), (''store-offset'', STORE_OFFSET, True), (''store-data'', STORE_DATA, True),
     (''load-offset'', LOAD_OFFSET, True), (''load-data'', LOAD_DATA, True), (''skip'', SKIP_CMD, True), (''forward'', FORWARD_CMD, True),
     (''ps'', SEND_REQUEST_SIZE, True), (''rs'', REPLY_CMD, True), (''num-threads'', NUM_THREADS, True), (''nt'', NUM_THREADS, True),
     (''num-sessions'', NUM_SESSIONS, True), (''ns'', NUM_SESSIONS, True), (''retry-num'', CONN_RETRY_NUM, True),
     (''retry-period'', CONN_RETRY_PERIOD, True), (''conn-times'', CONN_TIMES, False), (''non-block'', CONN_NONBLOCK, False),
     (''no-delay'', NO_DELAY, True), (''nd'', NO_DELAY, True), (''stag-send'', STAG_SEND, False), (''pso'', PER_SESSION_OUTPUT, False),
     (''per-session-output'', PER_SESSION_OUTPUT, False), (''i'', INTERACTIVE_PSO, False), (''interactive-pso'', INTERACTIVE_PSO, False),
     (''script-filename'', SCRIPT_FILENAME, True), (''help'', HELP, False), (''usage'', USAGE, False), (''seed'', SEED, True),
     (''ssl-cert'', SSL_FILE 0, True), (''ssl-key'', SSL_FILE 1, True), (''ssl-ca'', SSL_FILE 2, True), (''ssl-ciphers'', SSL_FILE 3, True),
     (''ssl-ca-path'', SSL_FILE 4, True), (''ssl-verify'', SSL_VERIFY, False), (''nano'', NANO_OUTPUT, False), (''dpdk-tx-cpu'', DPDK_TX_CPU, True),
     (''dpdk-rx-cpu'', DPDK_RX_CPU, True), (''output'', OUTPUT_FILE, True), (''output-file'', OUTPUT_FILE, True)]"

text \<open>The keys that are characters.\<close>

fun key_char :: "client_key \<Rightarrow> char option" where
  "key_char HELP = Some CHR ''h''"
| "key_char NUM_PKTS = Some CHR ''n''"
| "key_char PERIOD = Some CHR ''p''"
| "key_char RATE = Some CHR ''r''"
| "key_char COMP_TIME = Some CHR ''C''"
| "key_char STORE_DATA = Some CHR ''S''"
| "key_char LOAD_DATA = Some CHR ''L''"
| "key_char SKIP_CMD = Some CHR ''s''"
| "key_char FORWARD_CMD = Some CHR ''F''"
| "key_char REPLY_CMD = Some CHR ''R''"
| "key_char SCRIPT_FILENAME = Some CHR ''f''"
| "key_char BIND_ADDR = Some CHR ''b''"
| "key_char INTERACTIVE_PSO = Some CHR ''i''"
| "key_char OUTPUT_FILE = Some CHR ''o''"
| "key_char k = None"

definition find_option :: "string \<Rightarrow> (client_key \<times> bool) option" where
  "find_option w = map_option snd (List.find (\<lambda>(name, k, arg). prefixed name w \<noteq> None \<or>
     (case w of [c] \<Rightarrow> key_char k = Some c | _ \<Rightarrow> False)) argp_client_options)"

text \<open>The pieces that \<^verbatim>\<open>fgets\<close> with a buffer of 1024 bytes reads: up to a newline, at most 1023 characters.\<close>

function lines_of :: "string \<Rightarrow> string list" where
  "lines_of [] = []"
| "lines_of (c # cs) =
     (let l = takeWhile (\<lambda>c. c \<noteq> CHR 10) (c # cs);
          n = (if length l < 1023 then min (length l + 1) (length (c # cs)) else 1023)
      in take n (c # cs) # lines_of (drop n (c # cs)))"
  by pat_completeness auto
termination
  by (relation "measure length") (auto simp: Let_def)

definition line_words :: "string \<Rightarrow> string list" where
  "line_words line = takeWhile (\<lambda>w. hd w \<noteq> CHR ''#'') (filter (\<lambda>w. w \<noteq> []) (split_at [CHR '' '', CHR ''-'', CHR 10] line))"

definition script_words :: "string \<Rightarrow> string list" where
  "script_words file = concat (map line_words (lines_of file))"

text \<open>The calls of \<^verbatim>\<open>argp_client_parse_opt\<close> for the words of a script: the last word is never looked up.\<close>

fun script_calls :: "string list \<Rightarrow> (client_key \<times> string) list" where
  "script_calls [] = []"
| "script_calls [w] = []"
| "script_calls (w # v # ws) =
     (case find_option w of
        None \<Rightarrow> script_calls (v # ws)
      | Some (k, has_arg) \<Rightarrow> (k, v) # (if has_arg then script_calls ws else script_calls (v # ws)))"

text \<open>\<^verbatim>\<open>script_parse\<close>, for scripts that include each other at most \<open>levels\<close> deep.\<close>

fun run_calls :: "(client_key \<Rightarrow> string option \<Rightarrow> client_settings \<Rightarrow> client_settings res option) \<Rightarrow> (client_key \<times> string) list \<Rightarrow>
    client_settings \<Rightarrow> client_settings res option" where
  "run_calls f [] s = Some (Inr s)"
| "run_calls f ((k, v) # cs) s = obind (f k (Some v) s) (run_calls f cs)"

fun script_parse :: "nat \<Rightarrow> parse_env \<Rightarrow> string \<times> pd_spec_t \<Rightarrow> string \<Rightarrow> client_settings \<Rightarrow> client_settings res option" where
  "script_parse 0 pe junk fname s = None"
| "script_parse (Suc levels) pe junk fname s =
     (case pe_files pe fname of
        None \<Rightarrow> Some (Inl Exit_Failure)
      | Some file \<Rightarrow> run_calls (argp_client_parse_opt pe junk (script_parse levels pe junk)) (script_calls (script_words file)) s)"

section \<open>Reports\<close>

definition csv_header :: "bool \<Rightarrow> char \<Rightarrow> string" where
  "csv_header nano sep = (let u = (if nano then ''ns'' else ''us'') in
     ''t('' @ u @ '')'' @ [sep] @ ''elapsed('' @ u @ '')'' @ [sep] @ ''req_id'' @ [sep] @ ''thr_id'' @ [sep] @ ''sess_id'' @ [CHR 10])"

definition csv_line :: "char \<Rightarrow> int \<Rightarrow> int \<Rightarrow> int \<Rightarrow> int \<Rightarrow> int \<Rightarrow> string" where
  "csv_line sep send_time elapsed pkt_id thread_id session_id =
     show_int send_time @ [sep] @ show_int elapsed @ [sep] @ show_int pkt_id @ [sep] @ show_int thread_id @ [sep] @ show_int session_id @ [CHR 10]"

text \<open>The text that goes to the file, and the settings after it.\<close>

definition csv_output :: "bool \<Rightarrow> output_cfg \<Rightarrow> int \<Rightarrow> int \<Rightarrow> int \<Rightarrow> int \<Rightarrow> int \<Rightarrow> string \<times> output_cfg" where
  "csv_output nano oc send_time elapsed pkt_id thread_id session_id =
     ((if output_header oc then csv_header nano (output_sep oc) else []) @ csv_line (output_sep oc) send_time elapsed pkt_id thread_id session_id,
      oc\<lparr>output_header := False\<rparr>)"

definition cli_output :: "bool \<Rightarrow> int \<Rightarrow> int \<Rightarrow> int \<Rightarrow> int \<Rightarrow> int \<Rightarrow> string" where
  "cli_output nano send_time elapsed pkt_id thread_id session_id =
     (let u = (if nano then ''ns'' else ''us'') in
      ''t: '' @ show_int send_time @ '' '' @ u @ '', elapsed: '' @ show_int elapsed @ '' '' @ u @ '', req_id: '' @ show_int pkt_id @
      '', thr_id: '' @ show_int thread_id @ '', sess_id: '' @ show_int session_id @ [CHR 10])"

definition txt_output :: "char \<Rightarrow> int \<Rightarrow> int \<Rightarrow> int \<Rightarrow> int \<Rightarrow> int \<Rightarrow> string" where
  "txt_output sep send_time elapsed pkt_id thread_id session_id =
     ''t:'' @ show_int send_time @ [sep] @ ''elapsed:'' @ show_int elapsed @ [sep] @ ''req_id:'' @ show_int pkt_id @ [sep] @
     ''thr_id:'' @ show_int thread_id @ [sep] @ ''sess_id:'' @ show_int session_id @ [CHR 10]"

text \<open>\<^verbatim>\<open>output_result\<close>: the text, to the file that was opened or else to the terminal.\<close>

definition output_result :: "bool \<Rightarrow> output_cfg \<Rightarrow> int \<Rightarrow> int \<Rightarrow> int \<Rightarrow> int \<Rightarrow> int \<Rightarrow> string \<times> output_cfg" where
  "output_result nano oc send_time elapsed pkt_id thread_id session_id =
     (if output_file oc = None then (cli_output nano send_time elapsed pkt_id thread_id session_id, oc)
      else case output_format oc of
        OUTPUT_FORMAT_TXT \<Rightarrow> (txt_output (output_sep oc) send_time elapsed pkt_id thread_id session_id, oc)
      | OUTPUT_FORMAT_CSV \<Rightarrow> csv_output nano oc send_time elapsed pkt_id thread_id session_id)"

text \<open>The text of all the calls of \<^verbatim>\<open>output_result\<close> of a thread.\<close>

fun report :: "bool \<Rightarrow> nat \<Rightarrow> output_cfg \<Rightarrow> (int \<times> int \<times> int \<times> int) list \<Rightarrow> string" where
  "report nano thread_id oc [] = []"
| "report nano thread_id oc ((t, el, pkt, sess) # os) =
     (let (txt, oc') = output_result nano oc t el pkt (int thread_id) sess in txt @ report nano thread_id oc' os)"

section \<open>Scripts against the command line\<close>

text \<open>The option that a word without its hyphens stands for on the command line: its whole name, or the character of its key.\<close>

definition names_option :: "string \<Rightarrow> client_key \<Rightarrow> bool \<Rightarrow> bool" where
  "names_option w k has_arg \<longleftrightarrow>
     list_ex (\<lambda>(name, k', a). k' = k \<and> a = has_arg \<and> (w = name \<or> (case key_char k of Some c \<Rightarrow> w = [c] | None \<Rightarrow> False))) argp_client_options"

text \<open>A word that the script parser keeps as it is.\<close>

definition plain_word :: "string \<Rightarrow> bool" where
  "plain_word w \<longleftrightarrow> w \<noteq> [] \<and> hd w \<noteq> CHR ''#'' \<and> length w < 500 \<and> list_all (\<lambda>c. c \<notin> {CHR '' '', CHR ''-'', CHR 10}) w"

text \<open>An option of the command line with its argument, or without.\<close>

datatype script_item = Opt string client_key string | Flag string client_key

fun item_ok :: "script_item \<Rightarrow> bool" where
  "item_ok (Opt w k v) \<longleftrightarrow> names_option w k True \<and> plain_word w \<and> plain_word v"
| "item_ok (Flag w k) \<longleftrightarrow> names_option w k False \<and> plain_word w \<and> w \<noteq> ''pso''"

fun item_words :: "script_item \<Rightarrow> string list" where
  "item_words (Opt w k v) = [w, v]"
| "item_words (Flag w k) = [w]"

fun is_opt :: "script_item \<Rightarrow> bool" where
  "is_opt (Opt w k v) = True"
| "is_opt (Flag w k) = False"

text \<open>The text of a script with one option per line.\<close>

definition show_option :: "string \<Rightarrow> string" where
  "show_option w = (if length w = 1 then ''-'' @ w else ''--'' @ w)"

fun show_item :: "script_item \<Rightarrow> string" where
  "show_item (Opt w k v) = show_option w @ '' '' @ v @ [CHR 10]"
| "show_item (Flag w k) = show_option w @ [CHR 10]"

definition show_script :: "script_item list \<Rightarrow> string" where
  "show_script items = concat (map show_item items)"

text \<open>The calls that the library makes of the option parser \<open>f\<close> for the same options on the command line.\<close>

fun command_line :: "(client_key \<Rightarrow> string option \<Rightarrow> client_settings \<Rightarrow> client_settings res option) \<Rightarrow> script_item list \<Rightarrow>
    client_settings \<Rightarrow> client_settings res option" where
  "command_line f [] s = Some (Inr s)"
| "command_line f (Opt w k v # items) s = obind (f k (Some v) s) (command_line f items)"
| "command_line f (Flag w k # items) s = obind (f k None s) (command_line f items)"

lemma find_long_name:
  "(w, k, a) \<in> set argp_client_options \<Longrightarrow> CHR ''-'' \<notin> set w \<Longrightarrow> w \<noteq> ''pso'' \<Longrightarrow> find_option w = Some (k, a)"
proof -
  have "list_all (\<lambda>(w, k, a). CHR ''-'' \<in> set w \<or> w = ''pso'' \<or> find_option w = Some (k, a)) argp_client_options" by code_simp
  then show "(w, k, a) \<in> set argp_client_options \<Longrightarrow> CHR ''-'' \<notin> set w \<Longrightarrow> w \<noteq> ''pso'' \<Longrightarrow> find_option w = Some (k, a)"
    by (auto simp: list_all_iff)
qed

lemma find_short_name: "(w, k, a) \<in> set argp_client_options \<Longrightarrow> key_char k = Some c \<Longrightarrow> find_option [c] = Some (k, a)"
proof -
  have "list_all (\<lambda>(w, k, a). case key_char k of None \<Rightarrow> True | Some c \<Rightarrow> find_option [c] = Some (k, a)) argp_client_options" by code_simp
  then show "(w, k, a) \<in> set argp_client_options \<Longrightarrow> key_char k = Some c \<Longrightarrow> find_option [c] = Some (k, a)"
    by (auto simp: list_all_iff)
qed

lemma pso_has_no_argument: "\<not> names_option ''pso'' k True"
proof
  assume "names_option ''pso'' k True"
  then have "(''pso'', k, True) \<in> set argp_client_options" by (auto simp: names_option_def list_ex_iff split: option.splits)
  then show False by (simp add: argp_client_options_def)
qed

lemma find_option_names:
  assumes "names_option w k a" "CHR ''-'' \<notin> set w" "w \<noteq> ''pso''"
  shows "find_option w = Some (k, a)"
  using assms find_long_name find_short_name by (auto simp: names_option_def list_ex_iff split: option.splits)

lemma plain_word_no_hyphen: "plain_word w \<Longrightarrow> CHR ''-'' \<notin> set w"
  by (auto simp: plain_word_def list_all_iff)

lemma find_option_item:
  "item_ok (Opt w k v) \<Longrightarrow> find_option w = Some (k, True)" "item_ok (Flag w k) \<Longrightarrow> find_option w = Some (k, False)"
  by (metis find_option_names item_ok.simps(1) plain_word_no_hyphen pso_has_no_argument)
    (use find_option_names plain_word_no_hyphen in auto)

lemma flags_ignore_argument:
  assumes "names_option w k False"
  shows "argp_client_parse_opt pe junk script k arg s = argp_client_parse_opt pe junk script k None s"
proof -
  have "list_all (\<lambda>(w, k, a). a \<or> k \<in> {HELP, USAGE, WAIT_SPIN, NANO_OUTPUT, CONN_TIMES, CONN_NONBLOCK, STAG_SEND, PER_SESSION_OUTPUT,
      INTERACTIVE_PSO, SSL_VERIFY}) argp_client_options" by (simp add: argp_client_options_def)
  with assms have "k \<in> {HELP, USAGE, WAIT_SPIN, NANO_OUTPUT, CONN_TIMES, CONN_NONBLOCK, STAG_SEND, PER_SESSION_OUTPUT,
      INTERACTIVE_PSO, SSL_VERIFY}" by (auto simp: names_option_def list_all_iff list_ex_iff)
  then show ?thesis by (auto simp: argp_client_parse_opt_def)
qed

text \<open>The words of an option after which another word follows, or that has its argument, are carried out as on the command line.\<close>

lemma script_calls_items:
  assumes "list_all item_ok items" "items \<noteq> [] \<Longrightarrow> is_opt (last items)" "length rest \<le> 1"
  shows "run_calls (argp_client_parse_opt pe junk script) (script_calls (concat (map item_words items) @ rest)) s =
    command_line (argp_client_parse_opt pe junk script) items s"
  using assms(1,2)
proof (induction items arbitrary: s)
  case Nil
  then show ?case using assms(3) by (cases rest) auto
next
  case (Cons i items)
  have IH: "run_calls (argp_client_parse_opt pe junk script) (script_calls (concat (map item_words items) @ rest)) =
      command_line (argp_client_parse_opt pe junk script) items"
    using Cons by (intro ext Cons.IH) (auto split: if_splits)
  show ?case
  proof (cases i)
    case (Opt w k v)
    then show ?thesis using Cons.prems find_option_item(1) [of w k v] IH by simp
  next
    case (Flag w k)
    then have "items \<noteq> []" using Cons.prems by auto
    then obtain v ws where v: "concat (map item_words items) @ rest = v # ws"
      by (cases items; cases "hd items") auto
    have "names_option w k False" using Flag Cons.prems by simp
    then show ?thesis using Flag Cons.prems find_option_item(2) [of w k] IH v flags_ignore_argument [of w k pe junk script "Some v"] by simp
  qed
qed

lemma lines_of_line:
  assumes "CHR 10 \<notin> set l" "length l < 1023"
  shows "lines_of (l @ CHR 10 # rest) = (l @ [CHR 10]) # lines_of rest"
proof -
  have "takeWhile (\<lambda>c. c \<noteq> CHR 10) (l @ CHR 10 # rest) = l" using assms(1) by (induction l) auto
  then show ?thesis using assms(2) by (cases l) auto
qed

definition script_delims :: string where
  "script_delims = [CHR '' '', CHR ''-'', CHR 10]"

lemma plain_word_clean: "plain_word w \<Longrightarrow> set w \<inter> set script_delims = {}"
  by (auto simp: plain_word_def list_all_iff script_delims_def)

lemma line_words_option: "plain_word w \<Longrightarrow> line_words (show_option w @ [CHR 10]) = [w]"
  using split_at_append [OF plain_word_clean, of w "CHR 10" "[]"]
  by (auto simp: line_words_def show_option_def script_delims_def plain_word_def)

lemma line_words_option_arg: "plain_word w \<Longrightarrow> plain_word v \<Longrightarrow> line_words (show_option w @ '' '' @ v @ [CHR 10]) = [w, v]"
  using split_at_append [OF plain_word_clean, of w "CHR '' ''" "v @ [CHR 10]"] split_at_append [OF plain_word_clean, of v "CHR 10" "[]"]
  by (auto simp: line_words_def show_option_def script_delims_def plain_word_def)

lemma line_words_item: "item_ok i \<Longrightarrow> line_words (show_item i) = item_words i"
  by (cases i) (use line_words_option line_words_option_arg in auto)

lemma item_line: "item_ok i \<Longrightarrow> \<exists>l. show_item i = l @ [CHR 10] \<and> CHR 10 \<notin> set l \<and> length l < 1023"
proof (cases i)
  case (Opt w k v)
  moreover assume "item_ok i"
  ultimately show ?thesis
    by (intro exI [of _ "show_option w @ '' '' @ v"]) (auto simp: show_option_def plain_word_def list_all_iff)
next
  case (Flag w k)
  moreover assume "item_ok i"
  ultimately show ?thesis
    by (intro exI [of _ "show_option w"]) (auto simp: show_option_def plain_word_def list_all_iff)
qed

lemma script_words_show:
  "list_all item_ok items \<Longrightarrow> script_words (show_script items @ rest) = concat (map item_words items) @ script_words rest"
proof (induction items)
  case Nil
  then show ?case by (simp add: show_script_def)
next
  case (Cons i items)
  then obtain l where l: "show_item i = l @ [CHR 10]" "CHR 10 \<notin> set l" "length l < 1023" using item_line by auto
  have "lines_of (show_script (i # items) @ rest) = show_item i # lines_of (show_script items @ rest)"
    using lines_of_line [OF l(2,3), of "show_script items @ rest"] l(1) by (simp add: show_script_def)
  then show ?case using Cons line_words_item [of i] by (simp add: script_words_def)
qed


text \<open>A single word at the end of a script is dropped without a message, although it may be an option: one that needs no argument, or
  one that is written with \<^verbatim>\<open>=\<close>, as the last line of \<^verbatim>\<open>test/test_script.sh\<close>.
\<close>

theorem script_last_word_dropped:
  assumes "pe_files pe fname = Some (show_script items @ show_option w @ [CHR 10])" "list_all item_ok items"
    "items \<noteq> [] \<longrightarrow> is_opt (last items)" "plain_word w"
  shows "script_parse (Suc levels) pe junk fname s = command_line (argp_client_parse_opt pe junk (script_parse levels pe junk)) items s"
proof -
  have "lines_of (show_option w @ CHR 10 # []) = [show_option w @ [CHR 10]]"
    using assms(4) by (subst lines_of_line) (auto simp: show_option_def plain_word_def list_all_iff)
  then have "script_words (show_option w @ [CHR 10]) = [w]" using line_words_option [OF assms(4)] by (simp add: script_words_def)
  then show ?thesis
    using assms(1) script_calls_items [OF assms(2), of "[w]"] assms(3) script_words_show [OF assms(2)] by simp
qed

text \<open>The words of a script contain no hyphen, so that no option with a hyphen in its name can be given by it.\<close>

lemma split_at_clean: "w \<in> set (split_at delim s) \<Longrightarrow> set w \<inter> set delim = {}"
proof (induction delim s arbitrary: w rule: split_at.induct)
  case (2 delim c cs)
  show ?case
  proof (cases "c \<in> set delim")
    case True
    then show ?thesis using 2 by auto
  next
    case False
    have "set w' \<inter> set delim = {}" if "w' \<in> set (split_at delim cs)" for w' using "2.IH"(2) [OF False that] .
    then show ?thesis using 2(3) False by (cases "split_at delim cs") fastforce+
  qed
qed simp

lemma script_words_no_hyphen: "w \<in> set (script_words file) \<Longrightarrow> CHR ''-'' \<notin> set w"
  by (fastforce simp: script_words_def line_words_def dest: set_takeWhileD split_at_clean)

text \<open>The names are compared as prefixes: \<^verbatim>\<open>pso\<close> in a script is taken for \<^verbatim>\<open>ps\<close>, which comes first.\<close>

lemma pso_taken_for_ps: "find_option ''pso'' = Some (SEND_REQUEST_SIZE, True)"
  by (simp add: find_option_def argp_client_options_def prefixed_def)

text \<open>The options of \<^verbatim>\<open>test/test_script.sh\<close>, with a flag, and its last line.\<close>

definition test_items :: "script_item list" where
  "test_items = [Opt ''ps'' SEND_REQUEST_SIZE ''256'', Flag ''nano'' NANO_OUTPUT, Opt ''n'' NUM_PKTS ''10'', Opt ''C'' COMP_TIME ''10000'']"

lemma test_items_ok: "list_all item_ok test_items" "is_opt (last test_items)"
  by code_simp+

definition test_env :: "string \<Rightarrow> parse_env" where
  "test_env file = \<lparr>pe_libm = no_libm, pe_files = [''f'' \<mapsto> file], pe_resolve = \<lambda>_. None\<rparr>"


lemma test_script_last_line:
  "script_parse (Suc 0) (test_env (show_script test_items @ ''--rs=1024'' @ [CHR 10])) ([], pd_build_none) ''f'' s =
     command_line (argp_client_parse_opt (test_env (show_script test_items @ ''--rs=1024'' @ [CHR 10])) ([], pd_build_none)
       (script_parse 0 (test_env (show_script test_items @ ''--rs=1024'' @ [CHR 10])) ([], pd_build_none))) test_items s"
proof -
  have "show_option ''rs=1024'' = ''--rs=1024''" "plain_word ''rs=1024''" by (simp_all add: show_option_def plain_word_def)
  then show ?thesis
    using script_last_word_dropped [of "test_env (show_script test_items @ ''--rs=1024'' @ [CHR 10])" "''f''" test_items "''rs=1024''" 0 "([], pd_build_none)" s]
      test_items_ok by (simp add: test_env_def)
qed

section \<open>Reading a report\<close>

lemma show_int_chars: "c \<in> set (show_int i) \<Longrightarrow> digit c \<noteq> None \<or> c = CHR ''-''"
  using show_nat_digits by (auto simp: show_int_def list_all_iff split: if_splits)

lemma strtol_show_int: "- (2 ^ 63) \<le> i \<Longrightarrow> i < 2 ^ 63 \<Longrightarrow> strtol (show_int i) = Some (i, [])"
proof -
  assume i: "- (2 ^ 63) \<le> i" "i < 2 ^ 63"
  have h: "hd (show_nat n) \<noteq> CHR ''-''" "hd (show_nat n) \<noteq> CHR ''+''" "\<not> isspace (hd (show_nat n))" "show_nat n \<noteq> []" for n
    using show_nat_hd [of n] digit_char_facts [of "hd (show_nat n)"] by auto
  have d: "dropWhile isspace (show_nat n) = show_nat n" for n using h [of n] by (cases "show_nat n") auto
  have s: "sign (show_nat n) = (False, show_nat n)" "sign (CHR ''-'' # show_nat n) = (True, show_nat n)" for n
    using h [of n] by (cases "show_nat n", auto simp: sign_def)
  have "\<not> isspace CHR ''-''" by (simp add: isspace_def)
  then show ?thesis using i h(4) by (simp add: strtol_def show_int_def digits_show_nat d s signed_def)
qed

text \<open>The numbers of a line of the file, as a reader of the format takes them.\<close>

definition read_csv :: "char \<Rightarrow> string \<Rightarrow> (int \<times> string) option list" where
  "read_csv sep line = map strtol (split_at [sep] line)"

definition is_sep :: "char \<Rightarrow> bool" where
  "is_sep c \<longleftrightarrow> digit c = None \<and> c \<noteq> CHR ''-'' \<and> c \<noteq> CHR 10"

definition is_long :: "int \<Rightarrow> bool" where
  "is_long i \<longleftrightarrow> - (2 ^ 63) \<le> i \<and> i < 2 ^ 63"

lemma read_csv_line:
  assumes "is_sep sep" "is_long a" "is_long b" "is_long c" "is_long d" "is_long e"
  shows "read_csv sep (butlast (csv_line sep a b c d e)) = map (\<lambda>v. Some (v, [])) [a, b, c, d, e]"
proof -
  have n: "set (show_int i) \<inter> set [sep] = {}" for i using assms(1) show_int_chars by (fastforce simp: is_sep_def)
  have "butlast (csv_line sep a b c d e) = show_int a @ sep # show_int b @ sep # show_int c @ sep # show_int d @ sep # show_int e"
    by (simp add: csv_line_def butlast_append)
  then show ?thesis using assms n by (simp add: read_csv_def split_at_append split_at_last strtol_show_int is_long_def)
qed

text \<open>C37. The report in CSV: the header, if it was asked for, is written once, then there is one line per result in the order of the results; reading
  the numbers of a line back gives the send time, the latency, the packet, the thread and the session.
\<close>

theorem csv_roundtrip:
  assumes "output_file oc = Some fname" "output_format oc = OUTPUT_FORMAT_CSV" "is_sep (output_sep oc)" "is_long (int thr)"
    and "\<forall>(t, el, pkt, sess) \<in> set os. is_long t \<and> is_long el \<and> is_long pkt \<and> is_long sess" "os \<noteq> []"
  shows "\<exists>lines. report nano thr oc os = (if output_header oc then csv_header nano (output_sep oc) else []) @ concat lines \<and>
    map (\<lambda>l. read_csv (output_sep oc) (butlast l)) lines = map (\<lambda>(t, el, pkt, sess). map (\<lambda>v. Some (v, [])) [t, el, pkt, int thr, sess]) os \<and>
    (\<forall>l \<in> set lines. l \<noteq> [] \<and> last l = CHR 10 \<and> CHR 10 \<notin> set (butlast l))"
proof -
  let ?line = "\<lambda>(t, el, pkt, sess). csv_line (output_sep oc) t el pkt (int thr) sess"
  have off: "report nano thr c os = concat (map (\<lambda>(t, el, pkt, sess). csv_line (output_sep c) t el pkt (int thr) sess) os)"
    if "output_file c \<noteq> None" "output_format c = OUTPUT_FORMAT_CSV" "\<not> output_header c" for c os
    using that
  proof (induction os)
    case (Cons r os)
    have e: "c\<lparr>output_header := False\<rparr> = c" using Cons.prems by (cases c) simp
    show ?case using Cons by (cases r) (auto simp: output_result_def csv_output_def e)
  qed simp
  obtain r os' where r: "os = r # os'" using assms(6) by (cases os) auto
  have "report nano thr oc os = (if output_header oc then csv_header nano (output_sep oc) else []) @ concat (map ?line os)"
    using assms(1,2) off [of "oc\<lparr>output_header := False\<rparr>" os'] r by (cases r) (auto simp: output_result_def csv_output_def)
  moreover have "map (\<lambda>l. read_csv (output_sep oc) (butlast l)) (map ?line os) =
      map (\<lambda>(t, el, pkt, sess). map (\<lambda>v. Some (v, [])) [t, el, pkt, int thr, sess]) os"
    using assms(3-5) by (auto simp: read_csv_line)
  moreover have "l \<noteq> [] \<and> last l = CHR 10 \<and> CHR 10 \<notin> set (butlast l)" if "l \<in> set (map ?line os)" for l
  proof -
    have "CHR 10 \<notin> set (show_int i)" for i using show_int_chars [of "CHR 10" i] by (auto simp: digit_def of_char_def)
    then show ?thesis using that assms(3) by (auto simp: csv_line_def is_sep_def butlast_append)
  qed
  ultimately show ?thesis by blast
qed

definition sample_output :: output_cfg where
  "sample_output = \<lparr>output_file = Some ''a.csv'', output_sep = CHR '';'', output_header = True, output_format = OUTPUT_FORMAT_CSV\<rparr>"

theorem csv_roundtrip_witness:
  "\<exists>l. report False 3 sample_output [(17, -4, 0, 0)] = csv_header False CHR '';'' @ l \<and>
     read_csv CHR '';'' (butlast l) = [Some (17, []), Some (-4, []), Some (0, []), Some (3, []), Some (0, [])]"
proof -
  have h: "output_file sample_output = Some ''a.csv''" "output_format sample_output = OUTPUT_FORMAT_CSV" "is_sep (output_sep sample_output)"
      "is_long (int 3)" "\<forall>(t, el, pkt, sess) \<in> set [(17, -4, 0, 0)]. is_long t \<and> is_long el \<and> is_long pkt \<and> is_long sess"
    by (simp_all add: sample_output_def is_sep_def is_long_def digit_def of_char_def)
  have hs: "output_header sample_output" "output_sep sample_output = CHR '';''" by (simp_all add: sample_output_def)
  show ?thesis using csv_roundtrip [OF h not_Cons_self2 [of _ "[]"], of False] hs by (auto simp del: report.simps)
qed

section \<open>From the options to the threads\<close>

text \<open>The settings as the threads see them; \<open>start\<close> is the reading of the clock before they run.\<close>

definition cfg_of :: "libm \<Rightarrow> timespec \<Rightarrow> client_settings \<Rightarrow> client_cfg" where
  "cfg_of lm start s = \<lparr>use_per_session_output = cs_per_session_output s, use_nano = cs_use_nano s, use_wait_spinning = cs_use_wait_spinning s,
     ramp_step_secs = cs_ramp_step_secs s, num_pkts = unat (cs_num_pkts s), pkts_per_session = unat (cs_pkts_per_session s),
     conn_retry_num = nat (cs_conn_retry_num s), client_proto = cs_proto s, serveraddr = cs_serveraddr s, my_port = sin_port (myaddr s),
     ts_start = start, cl_libm = lm\<rparr>"

lemma div_mult_word: "unat ((x :: u64) div b * b) = unat (x div b) * unat b"
proof -
  have "unat (x div b) * unat b \<le> unat x" by (simp add: unat_div)
  also have "\<dots> < 2 ^ LENGTH(64)" by (rule unsigned_less)
  finally show ?thesis by (simp add: unat_word_ariths(2))
qed

lemma round_pkts_settled:
  assumes "round_pkts ps num ns = Inr (n, p)"
  shows "unat n = unat p * unat ns" "unat n \<le> 1000000"
proof -
  have e: "ns \<noteq> 0" "n = (num + ns - 1) div ns * ns" "p = n div ns" "\<not> n > word_of_int MAX_PKTS"
    using assms by (auto simp: round_pkts_def Let_def split: if_splits)
  have b: "0 < unat ns" using e(1) by (simp add: unat_gt_0)
  have "unat p = unat ((num + ns - 1) div ns)" using b unfolding e(2,3) by (simp add: unat_div [of "_ * _"] div_mult_word)
  then show "unat n = unat p * unat ns" by (simp add: e(2) div_mult_word)
  have "unat n \<le> unat (word_of_int MAX_PKTS :: u64)" using e(4) by (simp only: word_less_nat_alt not_less)
  then show "unat n \<le> 1000000" by (simp add: MAX_PKTS_def)
qed

lemma auto_pkts_keeps: "auto_pkts pe s = Inr s' \<Longrightarrow> \<exists>n. s' = s\<lparr>cs_num_pkts := n\<rparr>"
  by (auto simp: auto_pkts_def rbind_eq_Inr split: if_splits intro: exI [of _ "cs_num_pkts s"])

text \<open>C18. Options that are accepted give the threads sound settings: the number of packets is a whole number of sessions, also when its computation
  wraps around, no packet number exceeds the arrays of time stamps, and a rate that changes comes with the length of its steps.
\<close>

theorem accepted_options:
  assumes "options_end pe s = Inr s'" "1 \<le> num_sessions s" "num_sessions s < 2 ^ 31"
  shows "num_pkts (cfg_of lm st s') = pkts_per_session (cfg_of lm st s') * nat (num_sessions s) \<and>
    (num_pkts (cfg_of lm st s') \<noteq> 0 \<longrightarrow> settled (cfg_of lm st s') \<and> (\<forall>pkt < num_pkts (cfg_of lm st s').
       \<exists>i. slot (cfg_of lm st s') (int pkt) = Inr i \<and> int i < MAX_PKTS)) \<and>
    (prob (cs_rate_pd s') = FIXED \<or> cs_ramp_step_secs s' \<noteq> 0)"
proof -
  obtain s1 where s1: "(if cs_proto s \<noteq> DPDK then
         rbind (addr_parse (pe_resolve pe) (clienthostport s)) (\<lambda>c. rbind (addr_parse (pe_resolve pe) (nodehostport s)) (\<lambda>n.
           Inr (s\<lparr>myaddr := c, cs_serveraddr := n\<rparr>)))
       else Inr s) = Inr s1"
      "(if prob (cs_rate_pd s1) \<noteq> FIXED \<and> cs_ramp_step_secs s1 = 0 then Inl Exit_Failure
        else rbind (auto_pkts pe s1) (\<lambda>s2.
          rbind (round_pkts (cs_per_session_output s2) (cs_num_pkts s2) (word_of_int (num_sessions s2))) (\<lambda>(n, p).
          on_args finish_chain (s2\<lparr>cs_num_pkts := n, cs_pkts_per_session := p\<rparr>)))) = Inr s'"
    using assms(1) unfolding options_end_def rbind_eq_Inr by blast
  have q: "num_sessions s1 = num_sessions s" using s1(1) by (auto simp: rbind_eq_Inr split: if_splits)
  obtain s2 n p a where o: "prob (cs_rate_pd s1) = FIXED \<or> cs_ramp_step_secs s1 \<noteq> 0" "auto_pkts pe s1 = Inr s2"
      "round_pkts (cs_per_session_output s2) (cs_num_pkts s2) (word_of_int (num_sessions s2)) = Inr (n, p)"
      "s' = s2\<lparr>cs_num_pkts := n, cs_pkts_per_session := p, cs_args := a\<rparr>"
    using s1(2) by (auto simp: rbind_eq_Inr on_args_def split: if_splits)
  obtain k where k: "s2 = s1\<lparr>cs_num_pkts := k\<rparr>" using auto_pkts_keeps [OF o(2)] by blast
  have "unat (word_of_int (num_sessions s2) :: u64) = nat (num_sessions s)"
    using assms(2,3) q k by (simp add: unsigned_of_int take_bit_int_eq_self)
  then have r: "unat n = unat p * nat (num_sessions s)" "unat n \<le> 1000000" using round_pkts_settled [OF o(3)] by simp_all
  let ?c = "cfg_of lm st s'"
  have c: "num_pkts ?c = unat n" "pkts_per_session ?c = unat p" using o(4) by (simp_all add: cfg_of_def)
  have "int (unat n) \<le> 1000000" using r(2) by linarith
  then have "settled ?c" if "unat n \<noteq> 0" using that r(1) unfolding settled_def c MAX_PKTS_def by (metis dvd_triv_left mult_eq_0_iff not_gr_zero)
  then show ?thesis using r(1) c slot_settled [of ?c] o(1,4) k by auto
qed

text \<open>Five packets in two sessions, with the default template.\<close>

definition sample_settings :: client_settings where
  "sample_settings = \<lparr>cs_args = sample_args, clienthostport = ''0.0.0.0:0'', nodehostport = ''127.0.0.1:7891'', cs_proto = TCP,
     myaddr = \<lparr>sin_addr = 0, sin_port = 0\<rparr>, cs_serveraddr = \<lparr>sin_addr = 0, sin_port = 0\<rparr>, num_sessions = 2, num_threads = 1, cs_num_pkts = 5,
     cs_pkts_per_session = 0, cs_pkt_size_pd = pd_build_fixed (d_int 1024), cs_period_us_pd = pd_build_fixed (d_int 100000),
     cs_rate_pd = pd_build_fixed (d_int 10), main_rng = 0, cs_use_wait_spinning = False, cs_use_nano = False, cs_ramp_step_secs = 0, seed = -1,
     cs_conn_retry_num = 0, conn_retry_period_ms = 200, conn_times = False, conn_nonblock = False, staggered_send = False,
     cs_per_session_output = False, use_interactive_pso = False,
     cs_output = \<lparr>output_file = None, output_sep = CHR '','', output_header = False, output_format = OUTPUT_FORMAT_TXT\<rparr>, no_delay = 1,
     ssl_files = replicate 5 None, ssl_verify = False, dpdk_cpus = (-1, -1)\<rparr>"

lemma sample_settings_end: "\<exists>s. options_end \<lparr>pe_libm = no_libm, pe_files = \<lambda>_. None, pe_resolve = \<lambda>_. Some 1\<rparr> sample_settings = Inr s \<and> cs_num_pkts s = 6"
proof -
  have "addr_parse (\<lambda>_. Some 1) ''0.0.0.0:0'' = Inr \<lparr>sin_addr = 1, sin_port = 0\<rparr>"
    "\<exists>a. addr_parse (\<lambda>_. Some 1) ''127.0.0.1:7891'' = Inr a"
    by (simp_all add: addr_parse_def split_port_def parse_port_def strtol_def sign_def isspace_def digit_def signed_def of_char_def Let_def
      htons_def i32_def)
  moreover have "round_pkts False 5 2 = Inr (6, 3)" by (simp add: round_pkts_def MAX_PKTS_def Let_def)
  moreover have "\<exists>a. finish_chain sample_args = Inr a"
    by (simp add: finish_chain_def sample_args_def init_args_def exhaust.simps queue_alloc_def ccmd_last_def ccmd_add_def queue_enqueue_def Let_def
        smod_nonneg_int)
  ultimately show ?thesis
    by (auto simp: options_end_def sample_settings_def auto_pkts_def on_args_def pd_build_fixed_def)
qed

theorem accepted_options_witness:
  "\<exists>s. options_end \<lparr>pe_libm = no_libm, pe_files = \<lambda>_. None, pe_resolve = \<lambda>_. Some 1\<rparr> sample_settings = Inr s \<and>
     num_pkts (cfg_of no_libm \<lparr>tv_sec = 0, tv_nsec = 0\<rparr> s) = 6 \<and> settled (cfg_of no_libm \<lparr>tv_sec = 0, tv_nsec = 0\<rparr> s)"
proof -
  obtain s where s: "options_end \<lparr>pe_libm = no_libm, pe_files = \<lambda>_. None, pe_resolve = \<lambda>_. Some 1\<rparr> sample_settings = Inr s" "cs_num_pkts s = 6"
    using sample_settings_end by blast
  have "num_pkts (cfg_of no_libm \<lparr>tv_sec = 0, tv_nsec = 0\<rparr> s) = 6" using s(2) by (simp add: cfg_of_def)
  moreover have "1 \<le> num_sessions sample_settings" "num_sessions sample_settings < 2 ^ 31" by (simp_all add: sample_settings_def)
  ultimately show ?thesis using accepted_options [OF s(1), of no_libm "\<lparr>tv_sec = 0, tv_nsec = 0\<rparr>"] s(1) by auto
qed

end
