(* ===== verification/DW_Startup.thy ===== *)
theory DW_Startup
  imports DW_Act DW_Address DW_Affinity
begin

text \<open>
  The start of a node (\<^verbatim>\<open>src/dw_node.c\<close>): the options of the command line, the settings of the storage devices, the pipes between the
  connection workers and the storage workers, the listening sockets and the processors of the threads. The outcomes of system calls are
  arguments. The TLS context, the calibration and the order of all parts of the start are in \<open>DW_Tls\<close>, \<open>DW_Compute\<close> and \<open>DW_Node_Life\<close>; the
  build with \<^verbatim>\<open>DPDK_ENABLED\<close> is left out.
\<close>

section \<open>Numbers on the command line\<close>

text \<open>The conversion \<^verbatim>\<open>%lu\<close>: saturated, and a minus sign negates modulo \<open>2 ^ 64\<close>.\<close>

definition scan_lu :: "string \<Rightarrow> (nat \<times> string) option" where
  "scan_lu s =
     (let (neg, s1) = sign (dropWhile isspace s);
          (n, len, rest) = digits digit 10 0 0 s1
      in if len = 0 then None
         else Some (if n \<ge> 2 ^ 64 then 2 ^ 64 - 1 else if neg then nat (- int n mod 2 ^ 64) else n, rest))"

text \<open>
  \<^verbatim>\<open>snprintf\<close> of a format that is given one \<^verbatim>\<open>int\<close>. A second conversion reads an argument that is not there; a
  conversion other than \<^verbatim>\<open>%d\<close> and \<^verbatim>\<open>%%\<close> is taken as such a fault as well.
\<close>

fun format_d :: "string \<Rightarrow> int option \<Rightarrow> string res" where
  "format_d [] arg = Inr []"
| "format_d [c] arg = (if c = CHR ''%'' then Inl Out_Of_Bounds else Inr [c])"
| "format_d (c # d # cs) arg =
     (if c \<noteq> CHR ''%'' then rbind (format_d (d # cs) arg) (\<lambda>r. Inr (c # r))
      else if d = CHR ''%'' then rbind (format_d cs arg) (\<lambda>r. Inr (d # r))
      else if d = CHR ''d'' then
        (case arg of None \<Rightarrow> Inl Out_Of_Bounds | Some i \<Rightarrow> rbind (format_d cs None) (\<lambda>r. Inr (show_int i @ r)))
      else Inl Out_Of_Bounds)"

section \<open>Settings\<close>

definition MAX_THREADS :: nat where "MAX_THREADS = 256"
definition MAX_STORAGE_PATH_STR :: nat where "MAX_STORAGE_PATH_STR = 100"
definition MAX_LISTEN_SOCKETS :: nat where "MAX_LISTEN_SOCKETS = 16"

text \<open>
  An entry of \<^verbatim>\<open>storage_worker_infos\<close>; \<^verbatim>\<open>-1\<close> stands for a setting that was not given. \<open>storage_path\<close> are the characters before the
  first NUL, or all 100 of them when \<^verbatim>\<open>strncpy\<close> left no room for it.
\<close>

record storage_setup =
  periodic_sync_msec :: int
  use_wait_spin :: int
  storefd :: "nat \<Rightarrow> int"
  store_replyfd :: "nat \<Rightarrow> int"
  worker_id :: int
  core_id :: int
  count :: int
  storage_fd :: int
  storage_path :: string
  use_odirect :: int
  max_storage_size :: nat
  storage_offset :: nat
  storage_eof :: nat

definition unset_size :: nat where "unset_size = 2 ^ 64 - 1"

definition init_storage :: storage_setup where
  "init_storage = \<lparr>periodic_sync_msec = -1, use_wait_spin = -1, storefd = \<lambda>_. 0, store_replyfd = \<lambda>_. 0, worker_id = 0, core_id = -1,
     count = 1, storage_fd = -1, storage_path = [], use_odirect = -1, max_storage_size = unset_size, storage_offset = 0, storage_eof = 0\<rparr>"

datatype policy = SCHED_OTHER | SCHED_FIFO | SCHED_RR | SCHED_DEADLINE

record sched_attr =
  sched_policy :: policy
  sched_nice :: int
  sched_priority :: nat
  sched_runtime :: nat
  sched_deadline :: nat
  sched_period :: nat

text \<open>\<^verbatim>\<open>struct argp_node_arguments\<close> and the globals that the options set.\<close>

record node_args =
  a_periodic_sync_msec :: int
  a_max_storage_size :: nat
  a_use_odirect :: int
  use_wait_spin_storage :: int
  use_thread_affinity :: bool
  thread_affinity_list :: "string option"
  num_threads :: int
  sched_attrs :: sched_attr
  ssl_files :: "string option list"
  ssl_verify :: bool
  bind_addrs :: "(string \<times> proto_t) list"
  n_bind_addrs :: nat
  accept_mode :: accept_mode_t
  poll_mode :: dw_poll_type_t
  listen_backlog :: int
  no_delay :: int
  a_enable_defrag :: bool
  use_wait_spinning :: bool
  loops_per_usec :: double
  storage_devices :: int
  storage_worker_infos :: "storage_setup list"

definition default_bind :: "string \<times> proto_t" where
  "default_bind = (DEFAULT_ADDR @ '':7891'', TCP)"

definition init_node_args :: node_args where
  "init_node_args = \<lparr>a_periodic_sync_msec = -1, a_max_storage_size = 1024 * 1024 * 1024, a_use_odirect = 0, use_wait_spin_storage = 0,
     use_thread_affinity = False, thread_affinity_list = None, num_threads = 1,
     sched_attrs = \<lparr>sched_policy = SCHED_OTHER, sched_nice = 0, sched_priority = 0, sched_runtime = 0, sched_deadline = 0, sched_period = 0\<rparr>,
     ssl_files = replicate 5 None, ssl_verify = False, bind_addrs = replicate MAX_LISTEN_SOCKETS default_bind, n_bind_addrs = 0,
     accept_mode = AM_CHILD, poll_mode = T_EPOLL, listen_backlog = 5, no_delay = 1, a_enable_defrag = True, use_wait_spinning = False,
     loops_per_usec = Fin (-1), storage_devices = 0, storage_worker_infos = replicate MAX_STORAGE_DEVICES init_storage\<rparr>"

section \<open>Options\<close>

datatype node_opt = BIND_ADDR string | ACCEPT_MODE string | POLL_MODE string | BACKLOG_LENGTH string | NO_DELAY string | NO_DEFRAG
  | WAIT_SPIN | LOOPS_PER_USEC string | MAX_STORAGE_SIZE string | SYNC string | ODIRECT | WAIT_SPIN_STORAGE | STORAGE_OPT_ARG string
  | NUM_THREADS string | THREAD_AFFINITY string | SCHED_POLICY string | SSL_FILE nat string | SSL_VERIFY

definition opt_bind_addr :: "string \<Rightarrow> node_args \<Rightarrow> node_args res" where
  "opt_bind_addr arg a =
     (if n_bind_addrs a \<ge> MAX_LISTEN_SOCKETS then Inl Exit_Failure
      else let (hp, pr) = bind_addrs a ! n_bind_addrs a in
        rbind (addr_proto_parse arg hp pr) (\<lambda>b. Inr (a\<lparr>bind_addrs := (bind_addrs a)[n_bind_addrs a := b], n_bind_addrs := n_bind_addrs a + 1\<rparr>)))"

definition opt_accept_mode :: "string \<Rightarrow> node_args \<Rightarrow> node_args res" where
  "opt_accept_mode arg a =
     (if arg = ''child'' then Inr (a\<lparr>accept_mode := AM_CHILD\<rparr>)
      else if arg = ''shared'' then Inr (a\<lparr>accept_mode := AM_SHARED\<rparr>)
      else if arg = ''parent'' then Inr (a\<lparr>accept_mode := AM_PARENT\<rparr>)
      else Inl Exit_Failure)"

definition opt_poll_mode :: "string \<Rightarrow> node_args \<Rightarrow> node_args res" where
  "opt_poll_mode arg a =
     (if arg = ''epoll'' then Inr (a\<lparr>poll_mode := T_EPOLL\<rparr>)
      else if arg = ''poll'' then Inr (a\<lparr>poll_mode := T_POLL\<rparr>)
      else if arg = ''select'' then Inr (a\<lparr>poll_mode := T_SELECT\<rparr>)
      else Inl Exit_Failure)"

text \<open>The fields of a \<^verbatim>\<open>--storage\<close> argument: an empty one at the end is not visited.\<close>

definition comma_fields :: "string \<Rightarrow> string list" where
  "comma_fields arg = (let ts = split_at '','' arg in if 1 < length ts \<and> last ts = [] then butlast ts else ts)"

definition storage_token :: "int \<Rightarrow> storage_setup \<Rightarrow> string \<Rightarrow> storage_setup res" where
  "storage_token devices sw tok =
     (case prefixed ''file='' tok of Some r \<Rightarrow> Inr (sw\<lparr>storage_path := take MAX_STORAGE_PATH_STR r\<rparr>)
      | None \<Rightarrow>
     (case prefixed ''size='' tok of Some r \<Rightarrow> Inr (sw\<lparr>max_storage_size := nat (atol r mod 2 ^ 64)\<rparr>)
      | None \<Rightarrow>
     (case prefixed ''count='' tok of
        Some r \<Rightarrow>
          let c = atoi r in
          if devices + c \<ge> 2 ^ 31 then Inl Int_Overflow
          else if devices + c > int MAX_STORAGE_DEVICES then Inl Exit_Failure else Inr (sw\<lparr>count := c\<rparr>)
      | None \<Rightarrow>
     (case prefixed ''sync='' tok of Some r \<Rightarrow> Inr (sw\<lparr>periodic_sync_msec := atoi r\<rparr>)
      | None \<Rightarrow>
        if prefixed ''odirect'' tok \<noteq> None then Inr (sw\<lparr>use_odirect := 1\<rparr>)
        else if prefixed ''wait-spin'' tok \<noteq> None then Inr (sw\<lparr>use_wait_spin := 1\<rparr>)
        else Inr (sw\<lparr>storage_path := take MAX_STORAGE_PATH_STR tok\<rparr>)))))"

definition opt_storage :: "node_args \<Rightarrow> string \<Rightarrow> node_args res" where
  "opt_storage a arg =
     (if storage_devices a \<ge> int MAX_STORAGE_DEVICES then Inl Exit_Failure
      else if storage_devices a < 0 then Inl Out_Of_Bounds
      else let i = nat (storage_devices a) in
        rbind (rfold (storage_token (storage_devices a)) (storage_worker_infos a ! i) (comma_fields arg)) (\<lambda>sw.
          Inr (a\<lparr>storage_worker_infos := (storage_worker_infos a)[i := sw], storage_devices := storage_devices a + count sw\<rparr>)))"

definition scan_colon_d :: "string \<Rightarrow> int option" where
  "scan_colon_d s = map_option fst (Option.bind (prefixed '':'' s) scan_d)"

definition scan_lu_pair :: "string \<Rightarrow> (nat \<times> nat) option" where
  "scan_lu_pair s = Option.bind (Option.bind (prefixed '':'' s) scan_lu) (\<lambda>(v, r).
     Option.bind (Option.bind (prefixed '','' r) scan_lu) (\<lambda>(v2, r2). Some (v, v2)))"

definition opt_sched_policy :: "string \<Rightarrow> sched_attr \<Rightarrow> sched_attr res" where
  "opt_sched_policy arg sa =
     (case prefixed ''other'' arg of
        Some r \<Rightarrow> (case scan_colon_d r of
            Some v \<Rightarrow> Inr (sa\<lparr>sched_policy := SCHED_OTHER, sched_nice := v\<rparr>)
          | None \<Rightarrow> if r = [] then Inr (sa\<lparr>sched_policy := SCHED_OTHER\<rparr>) else Inl Exit_Failure)
      | None \<Rightarrow> (case prefixed ''rr'' arg of
        Some r \<Rightarrow> (case scan_colon_d r of
            Some v \<Rightarrow> Inr (sa\<lparr>sched_policy := SCHED_RR, sched_priority := nat (v mod 2 ^ 32)\<rparr>) | None \<Rightarrow> Inl Exit_Failure)
      | None \<Rightarrow> (case prefixed ''fifo'' arg of
        Some r \<Rightarrow> (case scan_colon_d r of
            Some v \<Rightarrow> Inr (sa\<lparr>sched_policy := SCHED_FIFO, sched_priority := nat (v mod 2 ^ 32)\<rparr>) | None \<Rightarrow> Inl Exit_Failure)
      | None \<Rightarrow> (case prefixed ''dl'' arg of
        Some r \<Rightarrow> (case scan_lu_pair r of
            Some (v, v2) \<Rightarrow> Inr (sa\<lparr>sched_policy := SCHED_DEADLINE, sched_runtime := v * 1000 mod 2 ^ 64,
              sched_deadline := v2 * 1000 mod 2 ^ 64, sched_period := v2 * 1000 mod 2 ^ 64\<rparr>)
          | None \<Rightarrow> Inl Exit_Failure)
      | None \<Rightarrow> Inl Exit_Failure))))"

fun argp_node_parse_opt :: "node_args \<Rightarrow> node_opt \<Rightarrow> node_args res" where
  "argp_node_parse_opt a (BIND_ADDR arg) = opt_bind_addr arg a"
| "argp_node_parse_opt a (ACCEPT_MODE arg) = opt_accept_mode arg a"
| "argp_node_parse_opt a (POLL_MODE arg) = opt_poll_mode arg a"
| "argp_node_parse_opt a (BACKLOG_LENGTH arg) = Inr (a\<lparr>listen_backlog := atoi arg\<rparr>)"
| "argp_node_parse_opt a (NO_DELAY arg) =
     (let v = atoi arg in if v = 0 \<or> v = 1 then Inr (a\<lparr>no_delay := v\<rparr>) else Inl Exit_Failure)"
| "argp_node_parse_opt a NO_DEFRAG = Inr (a\<lparr>a_enable_defrag := False\<rparr>)"
| "argp_node_parse_opt a WAIT_SPIN = Inr (a\<lparr>use_wait_spinning := True\<rparr>)"
| "argp_node_parse_opt a (LOOPS_PER_USEC arg) =
     (let v = atof arg in if v = Fin (-1) \<or> dle (Fin 0) v then Inr (a\<lparr>loops_per_usec := v\<rparr>) else Inl Exit_Failure)"
| "argp_node_parse_opt a (MAX_STORAGE_SIZE arg) = Inr (a\<lparr>a_max_storage_size := nat (atol arg mod 2 ^ 64)\<rparr>)"
| "argp_node_parse_opt a (SYNC arg) = Inr (a\<lparr>a_periodic_sync_msec := atoi arg\<rparr>)"
| "argp_node_parse_opt a ODIRECT = Inr (a\<lparr>a_use_odirect := 1\<rparr>)"
| "argp_node_parse_opt a WAIT_SPIN_STORAGE = Inr (a\<lparr>use_wait_spin_storage := 1\<rparr>)"
| "argp_node_parse_opt a (STORAGE_OPT_ARG arg) = opt_storage a arg"
| "argp_node_parse_opt a (NUM_THREADS arg) = Inr (a\<lparr>num_threads := atoi arg\<rparr>)"
| "argp_node_parse_opt a (THREAD_AFFINITY arg) =
     Inr (a\<lparr>use_thread_affinity := True, thread_affinity_list := if arg \<noteq> ''auto'' then Some arg else thread_affinity_list a\<rparr>)"
| "argp_node_parse_opt a (SCHED_POLICY arg) = rbind (opt_sched_policy arg (sched_attrs a)) (\<lambda>sa. Inr (a\<lparr>sched_attrs := sa\<rparr>))"
| "argp_node_parse_opt a (SSL_FILE k arg) = Inr (a\<lparr>ssl_files := (ssl_files a)[k := Some arg]\<rparr>)"
| "argp_node_parse_opt a SSL_VERIFY = Inr (a\<lparr>ssl_verify := True\<rparr>)"

section \<open>Storage devices\<close>

text \<open>The path as a C string.\<close>

definition path_string :: "string \<Rightarrow> string res" where
  "path_string p = (if length p < MAX_STORAGE_PATH_STR then Inr p else Inl Out_Of_Bounds)"

text \<open>The settings that a device takes from the other options when its own were not given.\<close>

definition with_defaults :: "node_args \<Rightarrow> storage_setup \<Rightarrow> storage_setup" where
  "with_defaults a sw = sw\<lparr>
     periodic_sync_msec := if periodic_sync_msec sw = -1 then a_periodic_sync_msec a else periodic_sync_msec sw,
     use_wait_spin := if use_wait_spin sw = -1 then use_wait_spin_storage a else use_wait_spin sw,
     use_odirect := if use_odirect sw = -1 then a_use_odirect a else use_odirect sw,
     max_storage_size := if max_storage_size sw = unset_size then a_max_storage_size a else max_storage_size sw,
     storage_offset := 0, storage_eof := 0\<rparr>"

text \<open>\<^verbatim>\<open>path_template\<close>, when the code sets it; \<open>home\<close> is the value of the environment variable.\<close>

definition path_template :: "string option \<Rightarrow> storage_setup \<Rightarrow> string option res" where
  "path_template home sw =
     (if storage_path sw = [] then
        (case home of None \<Rightarrow> Inl Null_Deref | Some h \<Rightarrow> Inr (Some (take 1023 (h @ ''/.dw_store_%d''))))
      else if count sw > 1 then
        rbind (path_string (storage_path sw)) (\<lambda>p. Inr (Some (if contains ''%d'' p then p else take 1023 (p @ ''_%d''))))
      else Inr None)"

definition device_path :: "string \<Rightarrow> nat \<Rightarrow> string res" where
  "device_path template i = rbind (format_d template (Some (int i))) (\<lambda>p. Inr (take (MAX_STORAGE_PATH_STR - 1) p))"

definition copy_settings :: "storage_setup \<Rightarrow> string \<Rightarrow> storage_setup \<Rightarrow> storage_setup" where
  "copy_settings sw p x = x\<lparr>periodic_sync_msec := periodic_sync_msec sw, use_wait_spin := use_wait_spin sw, use_odirect := use_odirect sw,
     max_storage_size := max_storage_size sw, storage_offset := 0, storage_eof := 0, storage_path := p\<rparr>"

definition replicate_to :: "storage_setup \<Rightarrow> string option \<Rightarrow> nat \<Rightarrow> storage_setup list \<Rightarrow> nat \<Rightarrow> storage_setup list res" where
  "replicate_to sw template i sws j =
     (if i + j \<ge> MAX_STORAGE_DEVICES then Inl Out_Of_Bounds
      else case template of None \<Rightarrow> Inl Out_Of_Bounds
      | Some t \<Rightarrow> rbind (device_path t (i + j)) (\<lambda>p. Inr (sws[i + j := copy_settings sw p (sws ! (i + j))])))"

definition setup_group :: "string option \<Rightarrow> node_args \<Rightarrow> nat \<Rightarrow> storage_setup list \<Rightarrow> storage_setup list res" where
  "setup_group home a i sws =
     (let sw = with_defaults a (sws ! i) in
      rbind (path_template home sw) (\<lambda>template.
      rbind (case template of None \<Rightarrow> Inr (storage_path sw) | Some t \<Rightarrow> device_path t i) (\<lambda>p.
        let sw' = sw\<lparr>storage_path := p\<rparr> in
        rfold (replicate_to sw' template i) (sws[i := sw']) [1..<nat (count sw')])))"

text \<open>The loop over the groups of devices, which moves on by the count of a group; \<open>None\<close>: it does not end.\<close>

partial_function (option) setup_loop ::
    "string option \<Rightarrow> node_args \<Rightarrow> int \<Rightarrow> int \<Rightarrow> storage_setup list \<Rightarrow> storage_setup list res option" where
  "setup_loop home a n i sws =
     (if i < n then
        (if i < 0 \<or> i \<ge> int MAX_STORAGE_DEVICES then Some (Inl Out_Of_Bounds)
         else case setup_group home a (nat i) sws of
           Inl e \<Rightarrow> Some (Inl e)
         | Inr sws' \<Rightarrow> setup_loop home a n (i + count (sws' ! nat i)) sws')
      else Some (Inr sws))"

definition setup_storage :: "string option \<Rightarrow> node_args \<Rightarrow> node_args res option" where
  "setup_storage home a =
     (let n = (if storage_devices a = 0 then 1 else storage_devices a) in
      obind (setup_loop home a n 0 (storage_worker_infos a)) (\<lambda>sws.
        Some (Inr (a\<lparr>storage_devices := n, storage_worker_infos := sws\<rparr>))))"

section \<open>Pipes\<close>

text \<open>The settings of a connection worker when its thread starts.\<close>

record worker_setup = conn_worker_info_t +
  timerfd :: int
  statfd :: int
  dispatchfd :: "int \<times> int"
  cw_storefd :: "nat \<Rightarrow> int"
  cw_store_replyfd :: "nat \<Rightarrow> int"
  cw_core_id :: int
  cw_sched_attrs :: sched_attr

text \<open>The outcomes of the calls that open the file of a device.\<close>

record open_env =
  open_rv :: int
  fallocate_rv :: int
  fstat_rv :: int
  st_blksize :: nat
  memalign_rv :: int

text \<open>The two pipes between the device \<open>i\<close> and the worker \<open>j\<close>; \<open>pipes k\<close> is the outcome of the \<open>k\<close>-th call of \<^verbatim>\<open>pipe\<close>, its read end first.\<close>

definition wire :: "(nat \<Rightarrow> (int \<times> int) option) \<Rightarrow> nat \<Rightarrow> nat \<times> storage_setup list \<times> worker_setup list \<Rightarrow> nat \<Rightarrow>
    (nat \<times> storage_setup list \<times> worker_setup list) res" where
  "wire pipes i st j =
     (let (k, sws, cws) = st in
      case (pipes k, pipes (k + 1)) of
        (Some (r, w), Some (r', w')) \<Rightarrow>
          Inr (k + 2, sws[i := (sws ! i)\<lparr>storefd := (storefd (sws ! i))(j := r), store_replyfd := (store_replyfd (sws ! i))(j := w')\<rparr>],
               cws[j := (cws ! j)\<lparr>cw_storefd := (cw_storefd (cws ! j))(i := w), cw_store_replyfd := (cw_store_replyfd (cws ! j))(i := r')\<rparr>])
      | _ \<Rightarrow> Inl Exit_Failure)"

definition unwired :: "nat \<Rightarrow> worker_setup \<Rightarrow> worker_setup" where
  "unwired i cw = cw\<lparr>cw_storefd := (cw_storefd cw)(i := -1), cw_store_replyfd := (cw_store_replyfd cw)(i := -1)\<rparr>"

text \<open>A device: its file is opened and its pipes are made. The state also holds the number of pipes made and \<^verbatim>\<open>blk_size\<close>.\<close>

definition init_device :: "(nat \<Rightarrow> open_env) \<Rightarrow> (nat \<Rightarrow> (int \<times> int) option) \<Rightarrow> nat \<Rightarrow>
    nat \<times> nat \<times> storage_setup list \<times> worker_setup list \<Rightarrow> nat \<Rightarrow> (nat \<times> nat \<times> storage_setup list \<times> worker_setup list) res" where
  "init_device envs pipes threads st i =
     (let (blk, k, sws, cws) = st; sw = (sws ! i)\<lparr>worker_id := int i\<rparr>; e = envs i in
      if storage_path sw \<noteq> [] then
        rbind (path_string (storage_path sw)) (\<lambda>p.
          if open_rv e < 0 \<or> fallocate_rv e < 0 \<or> fstat_rv e < 0 \<or> use_odirect sw \<noteq> 0 \<and> memalign_rv e < 0 then Inl Exit_Failure
          else rbind (rfold (wire pipes i) (k, sws[i := sw\<lparr>storage_fd := open_rv e\<rparr>], cws) [0..<threads]) (\<lambda>(k', sws', cws').
            Inr (st_blksize e, k', sws', cws')))
      else Inr (blk, k, sws[i := sw], map (unwired i) (take threads cws) @ drop threads cws))"

definition init_devices :: "(nat \<Rightarrow> open_env) \<Rightarrow> (nat \<Rightarrow> (int \<times> int) option) \<Rightarrow> nat \<Rightarrow> nat \<Rightarrow>
    storage_setup list \<times> worker_setup list \<Rightarrow> (nat \<times> nat \<times> storage_setup list \<times> worker_setup list) res" where
  "init_devices envs pipes devices threads st = rfold (init_device envs pipes threads) (0, 0, st) [0..<devices]"

section \<open>Connection workers\<close>

text \<open>The processor of the next thread: the iteration over the mask, when the threads are pinned.\<close>

definition next_core :: "cpu_set_t \<Rightarrow> int \<Rightarrow> bool \<Rightarrow> int \<Rightarrow> (int \<times> int) res option" where
  "next_core m nproc pinned core_it =
     (if pinned then obind (aff_it_next core_it m nproc) (\<lambda>it. Some (Inr (core_it, it))) else Some (Inr (-1, core_it)))"

text \<open>The settings of one worker: \<open>pair\<close> is the outcome of \<^verbatim>\<open>socketpair\<close>, \<open>poll_ok\<close> whether \<^verbatim>\<open>dw_poll_init\<close> succeeds.\<close>

record worker_env =
  poll_ok :: bool
  timerfd_rv :: int
  signalfd_rv :: int
  pair :: "(int \<times> int) option"

definition init_worker :: "node_args \<Rightarrow> worker_env \<Rightarrow> int pqueue_t \<Rightarrow> nat \<Rightarrow> int \<Rightarrow> worker_setup \<Rightarrow> worker_setup res" where
  "init_worker a e q i core cw =
     (if \<not> poll_ok e then Inl Exit_Failure
      else let cw' = cw\<lparr>listen_socks := [], timerfd := timerfd_rv e, timeout_queue := q, cw_sched_attrs := sched_attrs a,
          statfd := if i = 0 then signalfd_rv e else -1, cw_core_id := core, w_worker_id := int i, active_conns := 0, active_reqs := 0\<rparr> in
        if accept_mode a = AM_PARENT then (case pair e of None \<Rightarrow> Inl Exit_Failure | Some fds \<Rightarrow> Inr (cw'\<lparr>dispatchfd := fds\<rparr>))
        else Inr (cw'\<lparr>dispatchfd := (-1, -1)\<rparr>))"

fun init_workers :: "node_args \<Rightarrow> (nat \<Rightarrow> worker_env) \<Rightarrow> int pqueue_t \<Rightarrow> cpu_set_t \<Rightarrow> int \<Rightarrow> nat list \<Rightarrow> int \<times> worker_setup list \<Rightarrow>
    (int \<times> worker_setup list) res option" where
  "init_workers a envs q m nproc [] st = Some (Inr st)"
| "init_workers a envs q m nproc (i # is) (core_it, cws) =
     obind (next_core m nproc (use_thread_affinity a) core_it) (\<lambda>(core, core_it').
     obind (Some (init_worker a (envs i) q i core (cws ! i))) (\<lambda>cw.
       init_workers a envs q m nproc is (core_it', cws[i := cw])))"

section \<open>Listening sockets\<close>

record listen_env =
  socket_rv :: int
  reuseaddr_rv :: int
  reuseport_rv :: int
  bind_rv :: int
  listen_rv :: int
  listen_callocs :: "bool \<times> bool"

definition add_listener :: "int \<times> proto_t \<Rightarrow> worker_setup \<Rightarrow> worker_setup res" where
  "add_listener l cw =
     (if length (listen_socks cw) \<ge> MAX_LISTEN_SOCKETS then Inl Out_Of_Bounds else Inr (cw\<lparr>listen_socks := listen_socks cw @ [l]\<rparr>))"

text \<open>The calls on a socket: its creation (for a stream or for datagrams), the two options, \<^verbatim>\<open>bind()\<close> and \<^verbatim>\<open>listen()\<close>. They are recorded in the state.\<close>

datatype sock_call = Socket bool int | Reuse_Addr int | Reuse_Port int | Bind int sockaddr_in | Listen int int

type_synonym listen_state = "sock_call list \<times> dw_state \<times> worker_setup list"

definition init_listen_sock :: "node_args \<Rightarrow> nat \<Rightarrow> listen_env \<Rightarrow> nat \<Rightarrow> proto_t \<Rightarrow> sockaddr_in \<Rightarrow> listen_state \<Rightarrow> listen_state res" where
  "init_listen_sock a thr e i pr addr st =
     (let (calls, s, cws) = st; stream = (pr = TCP \<or> pr = TLS); lsock = socket_rv e in
      if accept_mode a = AM_CHILD \<or> i = 0 then
        if lsock < 0 then Inl Exit_Failure
        else rbind (conn_alloc (fst (listen_callocs e)) (snd (listen_callocs e)) thr lsock addr pr s) (\<lambda>(c, s1).
          if c = -1 then Inl Exit_Failure
          else let s2 = upd_conn (nat c) (\<lambda>x. x\<lparr>enable_defrag := a_enable_defrag a\<rparr>) (snd (conn_set_status_by_id (nat c) READY s1));
                   s3 = (if stream then upd_conn (nat c) (\<lambda>x. x\<lparr>is_listen := True\<rparr>) s2 else s2) in
            if reuseaddr_rv e < 0 \<or> accept_mode a = AM_CHILD \<and> reuseport_rv e < 0 \<or> bind_rv e < 0 \<or> stream \<and> listen_rv e < 0
            then Inl Exit_Failure
            else rbind (add_listener (lsock, pr) (cws ! i)) (\<lambda>cw.
              Inr (calls @ [Socket stream lsock, Reuse_Addr lsock] @ (if accept_mode a = AM_CHILD then [Reuse_Port lsock] else []) @
                     [Bind lsock addr] @ (if stream then [Listen lsock (listen_backlog a)] else []), s3, cws[i := cw])))
      else if accept_mode a = AM_SHARED then Inr (calls, s, cws[i := (cws ! i)\<lparr>listen_socks := listen_socks (cws ! 0)\<rparr>])
      else Inr (calls, s, cws[i := (cws ! i)\<lparr>listen_socks := []\<rparr>]))"

definition init_listen_addr :: "node_args \<Rightarrow> nat \<Rightarrow> (string \<Rightarrow> nat option) \<Rightarrow> (nat \<Rightarrow> nat \<Rightarrow> listen_env) \<Rightarrow> listen_state \<Rightarrow> nat \<Rightarrow>
    listen_state res" where
  "init_listen_addr a thr resolve envs st l =
     (let (hostport, pr) = bind_addrs a ! l in
      if pr = DPDK then Inl Exit_Failure
      else rbind (addr_parse resolve hostport) (\<lambda>addr.
        rfold (\<lambda>st i. init_listen_sock a thr (envs l i) i pr addr st) st [0..<nat (num_threads a)]))"

definition init_listen_socks :: "node_args \<Rightarrow> nat \<Rightarrow> (string \<Rightarrow> nat option) \<Rightarrow> (nat \<Rightarrow> nat \<Rightarrow> listen_env) \<Rightarrow> listen_state \<Rightarrow>
    listen_state res" where
  "init_listen_socks a thr resolve envs st =
     rfold (init_listen_addr a thr resolve envs) st [0..<if n_bind_addrs a = 0 then 1 else n_bind_addrs a]"

section \<open>The whole start\<close>

record startup_env =
  home :: "string option"
  nproc :: int
  allowed_cpus :: "cpu_set_t option"
  opens :: "nat \<Rightarrow> open_env"
  pipes :: "nat \<Rightarrow> (int \<times> int) option"
  worker_envs :: "nat \<Rightarrow> worker_env"
  empty_queue :: "int pqueue_t"
  main_thread :: nat
  resolve :: "string \<Rightarrow> nat option"
  listens :: "nat \<Rightarrow> nat \<Rightarrow> listen_env"
  zero_workers :: "worker_setup list"
  zero_tables :: dw_state

text \<open>The processors that the threads are pinned to: the given list, or the ones that the process may use.\<close>

definition affinity :: "startup_env \<Rightarrow> node_args \<Rightarrow> (cpu_set_t \<times> int) res option" where
  "affinity e a =
     (if use_thread_affinity a then
        obind (Some (case thread_affinity_list a of
            Some l \<Rightarrow> aff_list_parse l (nproc e)
          | None \<Rightarrow> (case allowed_cpus e of None \<Rightarrow> Inl Exit_Failure | Some m \<Rightarrow> Inr m))) (\<lambda>m.
          obind (aff_it_init m (nproc e)) (\<lambda>it. Some (Inr (m, it))))
      else Some (Inr ({}, 0)))"

text \<open>The processors of the storage threads, after those of the connection workers.\<close>

fun pin_devices :: "node_args \<Rightarrow> cpu_set_t \<Rightarrow> int \<Rightarrow> nat list \<Rightarrow> int \<times> storage_setup list \<Rightarrow> (int \<times> storage_setup list) res option" where
  "pin_devices a m np [] st = Some (Inr st)"
| "pin_devices a m np (i # is) (core_it, sws) =
     (if storage_path (sws ! i) \<noteq> [] then
        obind (next_core m np (use_thread_affinity a) core_it) (\<lambda>(core, core_it').
          pin_devices a m np is (core_it', sws[i := (sws ! i)\<lparr>core_id := core\<rparr>]))
      else pin_devices a m np is (core_it, sws))"

section \<open>Paths\<close>

text \<open>A string that a format leaves as it is and that is short enough for a path with a number.\<close>

definition plain :: "string \<Rightarrow> bool" where
  "plain s \<longleftrightarrow> CHR ''%'' \<notin> set s \<and> length s \<le> 80"

lemma format_d_append: "CHR ''%'' \<notin> set s \<Longrightarrow> format_d (s @ t) arg = rbind (format_d t arg) (\<lambda>r. Inr (s @ r))"
proof (induction s)
  case Nil
  then show ?case by (cases "format_d t arg") auto
next
  case (Cons c s)
  then have c: "c \<noteq> CHR ''%''" by auto
  show ?case
  proof (cases "s @ t")
    case Nil
    then show ?thesis using c by simp
  next
    case (Cons d u)
    then have "format_d ((c # s) @ t) arg = rbind (format_d (s @ t) arg) (\<lambda>r. Inr (c # r))" using c by simp
    then show ?thesis using Cons.IH Cons.prems by (cases "format_d t arg") auto
  qed
qed

lemma contains_plain: "CHR ''%'' \<notin> set s \<Longrightarrow> \<not> contains ''%d'' s"
  by (induction s) (auto simp: numeral_2_eq_2 split: list.splits)

lemma show_nat_short: "n < 100 \<Longrightarrow> length (show_nat n) \<le> 2"
proof -
  assume "n < 100"
  then have "n div 10 < 10" by auto
  then show ?thesis by (simp add: show_nat.simps [of n] show_nat.simps [of "n div 10"])
qed

lemma device_path_plain:
  assumes "CHR ''%'' \<notin> set s" "length s \<le> 91" "i < 16"
  shows "device_path (s @ ''%d'') i = Inr (s @ show_nat i)"
  using assms show_nat_short [of i]
  by (simp add: device_path_def format_d_append show_int_def MAX_STORAGE_PATH_STR_def)

text \<open>What a device of the group \<open>g\<close> with the number \<open>i\<close> is set up with.\<close>

definition configured :: "string \<Rightarrow> node_args \<Rightarrow> storage_setup \<Rightarrow> nat \<Rightarrow> storage_setup \<Rightarrow> bool" where
  "configured h a g i x \<longleftrightarrow>
     periodic_sync_msec x = (if periodic_sync_msec g = -1 then a_periodic_sync_msec a else periodic_sync_msec g) \<and>
     use_wait_spin x = (if use_wait_spin g = -1 then use_wait_spin_storage a else use_wait_spin g) \<and>
     use_odirect x = (if use_odirect g = -1 then a_use_odirect a else use_odirect g) \<and>
     max_storage_size x = (if max_storage_size g = unset_size then a_max_storage_size a else max_storage_size g) \<and>
     storage_offset x = 0 \<and> storage_eof x = 0 \<and>
     storage_path x = (if storage_path g = [] then h @ ''/.dw_store_'' @ show_nat i
                       else if count g = 1 then storage_path g else storage_path g @ ''_'' @ show_nat i)"

lemma replicate_all:
  assumes "\<And>j. j < c \<Longrightarrow> device_path t (d + j) = Inr (p j)" "d + c \<le> MAX_STORAGE_DEVICES" "length sws = MAX_STORAGE_DEVICES"
  shows "\<exists>sws'. rfold (replicate_to sw (Some t) d) sws [1..<c] = Inr sws' \<and> length sws' = MAX_STORAGE_DEVICES \<and>
    (\<forall>x. x \<le> d \<or> d + c \<le> x \<longrightarrow> sws' ! x = sws ! x) \<and>
    (\<forall>j. 1 \<le> j \<and> j < c \<longrightarrow> sws' ! (d + j) = copy_settings sw (p j) (sws ! (d + j)))"
  using assms(1,2)
proof (induction c)
  case 0
  then show ?case using assms(3) by simp
next
  case (Suc c)
  show ?case
  proof (cases "c = 0")
    case True
    then show ?thesis using assms(3) by simp
  next
    case False
    obtain sws' where s: "rfold (replicate_to sw (Some t) d) sws [1..<c] = Inr sws'" "length sws' = MAX_STORAGE_DEVICES"
        "\<forall>x. x \<le> d \<or> d + c \<le> x \<longrightarrow> sws' ! x = sws ! x"
        "\<forall>j. 1 \<le> j \<and> j < c \<longrightarrow> sws' ! (d + j) = copy_settings sw (p j) (sws ! (d + j))"
      using Suc.IH Suc.prems by auto
    have "[1..<Suc c] = [1..<c] @ [c]" using False by simp
    then have "rfold (replicate_to sw (Some t) d) sws [1..<Suc c] = replicate_to sw (Some t) d sws' c" by (simp only: rfold_snoc s(1) rbind_Inr)
    also have "\<dots> = Inr (sws'[d + c := copy_settings sw (p c) (sws' ! (d + c))])"
      using Suc.prems by (simp add: replicate_to_def)
    finally show ?thesis using s(2-4) False Suc.prems(2)
      by (intro exI [of _ "sws'[d + c := copy_settings sw (p c) (sws' ! (d + c))]"] conjI) (auto simp: nth_list_update_if less_Suc_eq)
  qed
qed

lemma setup_group_ok:
  assumes g: "sws ! d = g" "1 \<le> count g" "d + nat (count g) \<le> MAX_STORAGE_DEVICES" "length sws = MAX_STORAGE_DEVICES"
    and p: "plain h" "plain (storage_path g)"
  shows "\<exists>sws'. setup_group (Some h) a d sws = Inr sws' \<and> length sws' = MAX_STORAGE_DEVICES \<and>
    (\<forall>x. x < d \<or> d + nat (count g) \<le> x \<longrightarrow> sws' ! x = sws ! x) \<and> count (sws' ! d) = count g \<and>
    (\<forall>j < nat (count g). configured h a g (d + j) (sws' ! (d + j)))"
proof -
  let ?sw = "with_defaults a g" and ?c = "nat (count g)"
  have d: "d < MAX_STORAGE_DEVICES" "MAX_STORAGE_DEVICES = 16" using g(2,3) by (simp_all add: MAX_STORAGE_DEVICES_def)
  have w: "storage_path ?sw = storage_path g" "count ?sw = count g" by (simp_all add: with_defaults_def)
  show ?thesis
  proof (cases "storage_path g \<noteq> [] \<and> count g = 1")
    case True
    have e: "?sw\<lparr>storage_path := storage_path g\<rparr> = ?sw" by (cases g) (simp add: with_defaults_def)
    have "setup_group (Some h) a d sws = Inr (sws[d := ?sw])" using True g(1) w by (simp add: setup_group_def path_template_def e)
    moreover have "configured h a g d ?sw" using True by (simp add: configured_def with_defaults_def)
    ultimately show ?thesis using True g d w by (intro exI [of _ "sws[d := ?sw]"] conjI) (auto simp: nth_list_update_if)
  next
    case False
    define s where "s = (if storage_path g = [] then h @ ''/.dw_store_'' else storage_path g @ ''_'')"
    have s: "CHR ''%'' \<notin> set s" "length s \<le> 91" using p by (auto simp: s_def plain_def)
    have t: "path_template (Some h) ?sw = Inr (Some (s @ ''%d''))"
      using False p contains_plain [of "storage_path g"] g(2)
      by (auto simp: path_template_def w s_def plain_def path_string_def MAX_STORAGE_PATH_STR_def)
    have dp: "device_path (s @ ''%d'') (d + j) = Inr (s @ show_nat (d + j))" if "j < ?c" for j
      using that g(3) d(2) s by (intro device_path_plain) auto
    define sw where "sw = ?sw\<lparr>storage_path := s @ show_nat d\<rparr>"
    obtain sws' where r: "rfold (replicate_to sw (Some (s @ ''%d'')) d) (sws[d := sw]) [1..<?c] = Inr sws'" "length sws' = MAX_STORAGE_DEVICES"
        "\<forall>x. x \<le> d \<or> d + ?c \<le> x \<longrightarrow> sws' ! x = sws[d := sw] ! x"
        "\<forall>j. 1 \<le> j \<and> j < ?c \<longrightarrow> sws' ! (d + j) = copy_settings sw (s @ show_nat (d + j)) (sws[d := sw] ! (d + j))"
      using replicate_all [of ?c "s @ ''%d''" d "\<lambda>j. s @ show_nat (d + j)" "sws[d := sw]" sw] dp g(3,4) by auto
    have "setup_group (Some h) a d sws = Inr sws'"
      using t dp [of 0] g(1,2) r(1) w by (simp add: setup_group_def Let_def sw_def)
    moreover have "sws' ! d = sw" using r(3) g(4) d(1) by simp
    moreover have "configured h a g (d + j) (sws' ! (d + j))" if "j < ?c" for j
    proof (cases "j = 0")
      case True
      then show ?thesis using \<open>sws' ! d = sw\<close> False g(2) by (auto simp: configured_def sw_def with_defaults_def s_def)
    next
      case neq: False
      then have "sws' ! (d + j) = copy_settings sw (s @ show_nat (d + j)) (sws[d := sw] ! (d + j))" using r(4) that by auto
      then show ?thesis using False neq that by (auto simp: configured_def copy_settings_def sw_def with_defaults_def s_def)
    qed
    ultimately show ?thesis using r(2,3) w(2) g(1,2) by (intro exI [of _ sws'] conjI) (auto simp: sw_def with_defaults_def)
  qed
qed
section \<open>Groups of devices\<close>

text \<open>The number of devices of some groups, and that the entries from \<open>d\<close> on start with the groups one after the other.\<close>

definition n_devices :: "storage_setup list \<Rightarrow> nat" where
  "n_devices gs = sum_list (map (\<lambda>g. nat (count g)) gs)"

lemma n_devices_simps [simp]: "n_devices [] = 0" "n_devices (g # gs) = nat (count g) + n_devices gs"
  by (simp_all add: n_devices_def)

fun heads :: "nat \<Rightarrow> storage_setup list \<Rightarrow> storage_setup list \<Rightarrow> bool" where
  "heads d [] sws \<longleftrightarrow> True"
| "heads d (g # gs) sws \<longleftrightarrow> sws ! d = g \<and> heads (d + nat (count g)) gs sws"

fun arranged :: "string \<Rightarrow> node_args \<Rightarrow> nat \<Rightarrow> storage_setup list \<Rightarrow> storage_setup list \<Rightarrow> bool" where
  "arranged h a d [] sws \<longleftrightarrow> True"
| "arranged h a d (g # gs) sws \<longleftrightarrow>
     (\<forall>j < nat (count g). configured h a g (d + j) (sws ! (d + j))) \<and> arranged h a (d + nat (count g)) gs sws"

definition group_ok :: "storage_setup \<Rightarrow> bool" where
  "group_ok g \<longleftrightarrow> 1 \<le> count g \<and> plain (storage_path g)"

lemma heads_frame: "heads d gs sws \<Longrightarrow> (\<And>x. d \<le> x \<Longrightarrow> sws' ! x = sws ! x) \<Longrightarrow> heads d gs sws'"
  by (induction d gs sws rule: heads.induct) auto

lemma heads_snoc: "heads d (gs @ [g]) sws \<longleftrightarrow> heads d gs sws \<and> sws ! (d + n_devices gs) = g"
  by (induction d gs sws rule: heads.induct) (auto simp: add.assoc)

lemma arranged_frame:
  "arranged h a d gs sws \<Longrightarrow> (\<And>x. d \<le> x \<Longrightarrow> x < d + n_devices gs \<Longrightarrow> sws' ! x = sws ! x) \<Longrightarrow> arranged h a d gs sws'"
  by (induction h a d gs sws rule: arranged.induct) auto

lemma setup_loop_groups:
  assumes "heads d gs sws" "list_all group_ok gs" "d + n_devices gs \<le> MAX_STORAGE_DEVICES" "length sws = MAX_STORAGE_DEVICES" "plain h"
  shows "\<exists>sws'. setup_loop (Some h) a (int (d + n_devices gs)) (int d) sws = Some (Inr sws') \<and> length sws' = MAX_STORAGE_DEVICES \<and>
    arranged h a d gs sws' \<and> (\<forall>x. x < d \<or> d + n_devices gs \<le> x \<longrightarrow> sws' ! x = sws ! x)"
  using assms(1-4)
proof (induction gs arbitrary: d sws)
  case Nil
  then show ?case by (simp add: setup_loop.simps)
next
  case (Cons g gs)
  let ?c = "nat (count g)"
  have g: "sws ! d = g" "1 \<le> count g" "plain (storage_path g)" "d + ?c \<le> MAX_STORAGE_DEVICES" using Cons.prems by (auto simp: group_ok_def)
  obtain s1 where s1: "setup_group (Some h) a d sws = Inr s1" "length s1 = MAX_STORAGE_DEVICES"
      "\<forall>x. x < d \<or> d + ?c \<le> x \<longrightarrow> s1 ! x = sws ! x" "count (s1 ! d) = count g" "\<forall>j < ?c. configured h a g (d + j) (s1 ! (d + j))"
    using setup_group_ok [OF g(1,2,4) Cons.prems(4) assms(5) g(3), of a] by blast
  have "heads (d + ?c) gs s1" using Cons.prems(1) s1(3) by (auto intro: heads_frame)
  then obtain s2 where s2: "setup_loop (Some h) a (int (d + ?c + n_devices gs)) (int (d + ?c)) s1 = Some (Inr s2)" "length s2 = MAX_STORAGE_DEVICES"
      "arranged h a (d + ?c) gs s2" "\<forall>x. x < d + ?c \<or> d + ?c + n_devices gs \<le> x \<longrightarrow> s2 ! x = s1 ! x"
    using Cons.IH [of "d + ?c" s1] Cons.prems s1(2) by (auto simp: add.assoc)
  have i: "int d + count (s1 ! nat (int d)) = int (d + ?c)" "int d < int (d + n_devices (g # gs))" "\<not> (int d < 0 \<or> int MAX_STORAGE_DEVICES \<le> int d)"
    using g(2,4) s1(4) by auto
  have "setup_loop (Some h) a (int (d + n_devices (g # gs))) (int d) sws =
      setup_loop (Some h) a (int (d + n_devices (g # gs))) (int (d + ?c)) s1"
    using s1(1) i(2,3) unfolding i(1) [symmetric] by (subst setup_loop.simps) simp
  then have "setup_loop (Some h) a (int (d + n_devices (g # gs))) (int d) sws = Some (Inr s2)"
    using s2(1) by (simp only: n_devices_simps add.assoc)
  then show ?case using s2 s1 by (intro exI [of _ s2]) auto
qed

text \<open>The groups of the \<^verbatim>\<open>--storage\<close> options, each parsed into a fresh entry.\<close>

fun parsed :: "nat \<Rightarrow> string list \<Rightarrow> storage_setup list \<Rightarrow> bool" where
  "parsed d [] gs \<longleftrightarrow> gs = []"
| "parsed d (arg # args) gs \<longleftrightarrow> (case gs of [] \<Rightarrow> False
     | g # gs' \<Rightarrow> d < MAX_STORAGE_DEVICES \<and> rfold (storage_token (int d)) init_storage (comma_fields arg) = Inr g \<and> group_ok g \<and>
         d + nat (count g) \<le> MAX_STORAGE_DEVICES \<and> parsed (d + nat (count g)) args gs')"

lemma parsed_groups:
  assumes "parsed d args gs" "storage_devices a = int d" "length (storage_worker_infos a) = MAX_STORAGE_DEVICES"
    "\<forall>x < MAX_STORAGE_DEVICES. d \<le> x \<longrightarrow> storage_worker_infos a ! x = init_storage"
  shows "\<exists>sws. rfold opt_storage a args = Inr (a\<lparr>storage_worker_infos := sws, storage_devices := int (d + n_devices gs)\<rparr>) \<and>
    length sws = MAX_STORAGE_DEVICES \<and> heads d gs sws \<and> list_all group_ok gs \<and> length gs = length args \<and>
    (args \<noteq> [] \<longrightarrow> d + n_devices gs \<le> MAX_STORAGE_DEVICES) \<and> (\<forall>x < d. sws ! x = storage_worker_infos a ! x)"
  using assms
proof (induction args arbitrary: d gs a)
  case Nil
  then show ?case by (cases a) auto
next
  case (Cons arg args)
  obtain g gs' where g: "gs = g # gs'" "d < MAX_STORAGE_DEVICES" "rfold (storage_token (int d)) init_storage (comma_fields arg) = Inr g" "group_ok g"
      "d + nat (count g) \<le> MAX_STORAGE_DEVICES" "parsed (d + nat (count g)) args gs'"
    using Cons.prems(1) by (cases gs) auto
  have c: "1 \<le> count g" "int d + count g = int (d + nat (count g))" using g(4) by (auto simp: group_ok_def)
  define d' where "d' = d + nat (count g)"
  let ?a = "a\<lparr>storage_worker_infos := (storage_worker_infos a)[d := g], storage_devices := int d'\<rparr>"
  have o: "opt_storage a arg = Inr ?a"
    using g(2,3) Cons.prems(2-4) c(2) by (simp add: opt_storage_def d'_def)
  have "d < d'" using c(1) by (simp add: d'_def)
  then have fr: "\<forall>x < MAX_STORAGE_DEVICES. d' \<le> x \<longrightarrow> storage_worker_infos ?a ! x = init_storage" using Cons.prems(4) by simp
  obtain sws where s: "rfold opt_storage ?a args = Inr (?a\<lparr>storage_worker_infos := sws, storage_devices := int (d' + n_devices gs')\<rparr>)"
      "length sws = MAX_STORAGE_DEVICES" "heads (d') gs' sws" "list_all group_ok gs'" "length gs' = length args"
      "args \<noteq> [] \<longrightarrow> d' + n_devices gs' \<le> MAX_STORAGE_DEVICES"
      "\<forall>x < d'. sws ! x = storage_worker_infos ?a ! x"
    using Cons.IH [OF g(6) [folded d'_def], of ?a] fr Cons.prems(3) by auto
  have "sws ! d = g" using s(7) c(1) g(2) Cons.prems(3) by (simp add: d'_def)
  moreover have "args = [] \<Longrightarrow> gs' = []" using s(5) by simp
  moreover have e: "d + n_devices gs = d' + n_devices gs'" by (simp add: g(1) d'_def)
  moreover have "rfold opt_storage a (arg # args) = Inr (a\<lparr>storage_worker_infos := sws, storage_devices := int (d + n_devices gs)\<rparr>)"
    unfolding e using o s(1) by simp
  moreover have "\<forall>x < d. sws ! x = storage_worker_infos a ! x" using s(7) \<open>d < d'\<close> by simp
  ultimately show ?case using s(2-6) g(1,4,5) by (intro exI [of _ sws] conjI) (auto simp: d'_def)
qed

text \<open>C15. The storage devices of a node: every \<^verbatim>\<open>--storage\<close> option describes a group of as many devices as its count; the setup ends, and each
  device of a group has the settings of the group, or the defaults of the other options where the group gives none, and its own file, named
  after the path of the group (or the home directory) and the number of the device.
\<close>

theorem storage_configured:
  assumes "parsed 0 args gs" "args \<noteq> []" "plain h"
  shows "\<exists>a a'. rfold opt_storage init_node_args args = Inr a \<and> setup_storage (Some h) a = Some (Inr a') \<and>
    storage_devices a' = int (n_devices gs) \<and> n_devices gs \<le> MAX_STORAGE_DEVICES \<and> arranged h a 0 gs (storage_worker_infos a')"
proof -
  obtain sws where s: "rfold opt_storage init_node_args args =
        Inr (init_node_args\<lparr>storage_worker_infos := sws, storage_devices := int (n_devices gs)\<rparr>)" (is "_ = Inr ?a")
      "length sws = MAX_STORAGE_DEVICES" "heads 0 gs sws" "list_all group_ok gs" "length gs = length args" "n_devices gs \<le> MAX_STORAGE_DEVICES"
    using parsed_groups [OF assms(1), of init_node_args] assms(2) by (auto simp: init_node_args_def)
  obtain sws' where l: "setup_loop (Some h) ?a (int (n_devices gs)) 0 sws = Some (Inr sws')" "arranged h ?a 0 gs sws'"
    using setup_loop_groups [OF s(3,4) _ s(2) assms(3), of ?a] s(6) by auto
  have "n_devices gs \<noteq> 0" using s(4,5) assms(2) by (cases gs) (auto simp: group_ok_def)
  then have "setup_storage (Some h) ?a = Some (Inr (?a\<lparr>storage_worker_infos := sws'\<rparr>))"
    using l(1) by (simp add: setup_storage_def obind_def)
  then show ?thesis using s(1,6) l(2) by (intro exI conjI) auto
qed
text \<open>Two groups on the command line: two devices in one file name, and one that is synced every 50 milliseconds.\<close>

lemma sample_groups:
  "parsed 0 [''file=/data/s,count=2'', ''/ssd,sync=50'']
     [init_storage\<lparr>storage_path := ''/data/s'', count := 2\<rparr>, init_storage\<lparr>storage_path := ''/ssd'', periodic_sync_msec := 50\<rparr>]"
  by (simp add: comma_fields_def storage_token_def prefixed_def init_storage_def atoi_def atol_def strtol_def sign_def isspace_def digit_def
      signed_def group_ok_def plain_def MAX_STORAGE_DEVICES_def MAX_STORAGE_PATH_STR_def i32_def of_char_def Let_def)

theorem storage_configured_witness:
  "\<exists>a a'. rfold opt_storage init_node_args [''file=/data/s,count=2'', ''/ssd,sync=50''] = Inr a \<and> setup_storage (Some ''/root'') a = Some (Inr a') \<and>
     storage_devices a' = 3 \<and> storage_path (storage_worker_infos a' ! 1) = ''/data/s_1'' \<and> storage_path (storage_worker_infos a' ! 2) = ''/ssd'' \<and>
     periodic_sync_msec (storage_worker_infos a' ! 2) = 50"
proof -
  have sn: "show_nat 0 = ''0''" "show_nat (Suc 0) = ''1''" by (simp_all add: show_nat.simps dec_char_def char_of_def bit_simps)
  have "plain ''/root''" by (simp add: plain_def)
  from storage_configured [OF sample_groups _ this] obtain a a' where "rfold opt_storage init_node_args [''file=/data/s,count=2'', ''/ssd,sync=50''] = Inr a"
      "setup_storage (Some ''/root'') a = Some (Inr a')" "storage_devices a' = 3"
      "arranged ''/root'' a 0 [init_storage\<lparr>storage_path := ''/data/s'', count := 2\<rparr>, init_storage\<lparr>storage_path := ''/ssd'', periodic_sync_msec := 50\<rparr>]
        (storage_worker_infos a')"
    by (auto simp: init_storage_def)
  then show ?thesis
    using sn by (intro exI [of _ a, OF exI [of _ a']]) (simp add: configured_def init_storage_def All_less_Suc numeral_2_eq_2)
qed

text \<open>A state of the loop in which its group has the count 0.\<close>

definition stuck :: "int \<Rightarrow> int \<Rightarrow> storage_setup list \<Rightarrow> bool" where
  "stuck n i sws \<longleftrightarrow> n = 1 \<and> i = 0 \<and> count (sws ! 0) = 0 \<and> storage_path (sws ! 0) \<noteq> [] \<and> length sws = MAX_STORAGE_DEVICES"

lemma zero_count_loops:
  assumes "setup_loop hm b n i sws = Some r"
  shows "\<not> stuck n i sws"
proof (rule setup_loop.raw_induct [where P = "\<lambda>hm b n i sws r. \<not> stuck n i sws", OF _ assms])
  fix loop hm b n i sws r
  assume ih: "\<And>hm b n i sws r. loop hm b n i sws = Some r \<Longrightarrow> \<not> stuck n i sws"
    and step: "(if i < n then
        (if i < 0 \<or> i \<ge> int MAX_STORAGE_DEVICES then Some (Inl Out_Of_Bounds)
         else case setup_group hm b (nat i) sws of
           Inl e \<Rightarrow> Some (Inl e)
         | Inr sws' \<Rightarrow> loop hm b n (i + count (sws' ! nat i)) sws')
      else Some (Inr sws)) = Some r"
  show "\<not> stuck n i sws"
  proof
    assume "stuck n i sws"
    then have z: "n = 1" "i = 0" "count (sws ! 0) = 0" "storage_path (sws ! 0) \<noteq> []" "length sws = MAX_STORAGE_DEVICES"
      by (simp_all add: stuck_def)
    let ?s = "sws[0 := (with_defaults b (sws ! 0))\<lparr>storage_path := storage_path (sws ! 0)\<rparr>]"
    have "setup_group hm b 0 sws = Inr ?s" using z(3,4) by (simp add: setup_group_def path_template_def with_defaults_def)
    moreover have s: "stuck 1 0 ?s" using z by (simp add: stuck_def with_defaults_def MAX_STORAGE_DEVICES_def)
    ultimately have "loop hm b 1 0 ?s = Some r" using step z by (simp add: stuck_def MAX_STORAGE_DEVICES_def)
    then show False using ih s by blast
  qed
qed

text \<open>A group with the count 0 keeps the node from starting: with it as the only \<^verbatim>\<open>--storage\<close> option, the loop over the groups comes back to
  the same group for ever.
\<close>

theorem zero_count_never_starts:
  assumes "rfold (storage_token 0) init_storage (comma_fields arg) = Inr g" "count g = 0" "storage_path g \<noteq> []"
  shows "\<exists>a. opt_storage init_node_args arg = Inr a \<and> setup_storage h a = None"
proof -
  let ?a = "init_node_args\<lparr>storage_worker_infos := (storage_worker_infos init_node_args)[0 := g]\<rparr>"
  have o: "opt_storage init_node_args arg = Inr ?a"
    using assms(1,2) by (simp add: opt_storage_def init_node_args_def MAX_STORAGE_DEVICES_def)
  have "setup_loop h ?a 1 0 (storage_worker_infos ?a) \<noteq> Some r" for r
    using zero_count_loops [of h ?a 1 0 "storage_worker_infos ?a" r] assms(2,3) by (auto simp: stuck_def init_node_args_def MAX_STORAGE_DEVICES_def)
  then have "setup_loop h ?a 1 0 (storage_worker_infos ?a) = None" by (cases "setup_loop h ?a 1 0 (storage_worker_infos ?a)") auto
  then have "setup_storage h ?a = None" by (simp add: setup_storage_def obind_def init_node_args_def)
  then show ?thesis using o by blast
qed

theorem zero_count_never_starts_witness:
  "\<exists>a. opt_storage init_node_args ''file=/s,count=0'' = Inr a \<and> setup_storage (Some ''/root'') a = None"
proof (rule zero_count_never_starts)
  show "rfold (storage_token 0) init_storage (comma_fields ''file=/s,count=0'') = Inr (init_storage\<lparr>storage_path := ''/s'', count := 0\<rparr>)"
    by (simp add: comma_fields_def storage_token_def prefixed_def init_storage_def atoi_def atol_def strtol_def sign_def isspace_def digit_def
      signed_def MAX_STORAGE_DEVICES_def MAX_STORAGE_PATH_STR_def i32_def of_char_def Let_def)
qed simp_all
section \<open>Paired pipes\<close>

text \<open>The pipes number \<open>k\<close> and \<open>k + 1\<close> connect the device \<open>i\<close> with the worker \<open>j\<close>, one in each direction.\<close>

definition paired :: "(nat \<Rightarrow> (int \<times> int) option) \<Rightarrow> nat \<Rightarrow> nat \<Rightarrow> nat \<Rightarrow> storage_setup list \<Rightarrow> worker_setup list \<Rightarrow> bool" where
  "paired pps k i j sws cws \<longleftrightarrow> pps k = Some (storefd (sws ! i) j, cw_storefd (cws ! j) i) \<and>
     pps (k + 1) = Some (cw_store_replyfd (cws ! j) i, store_replyfd (sws ! i) j)"

text \<open>What the wiring of the device \<open>i\<close> leaves alone.\<close>

definition same_but :: "nat \<Rightarrow> storage_setup list \<times> worker_setup list \<Rightarrow> storage_setup list \<times> worker_setup list \<Rightarrow> bool" where
  "same_but i st st' \<longleftrightarrow> (case (st, st') of ((sws, cws), (sws', cws')) \<Rightarrow> length sws' = length sws \<and> length cws' = length cws \<and>
     (\<forall>x. x \<noteq> i \<longrightarrow> sws' ! x = sws ! x) \<and> storage_fd (sws' ! i) = storage_fd (sws ! i) \<and> worker_id (sws' ! i) = worker_id (sws ! i) \<and>
     storage_path (sws' ! i) = storage_path (sws ! i) \<and>
     (\<forall>j x. x \<noteq> i \<longrightarrow> cw_storefd (cws' ! j) x = cw_storefd (cws ! j) x \<and> cw_store_replyfd (cws' ! j) x = cw_store_replyfd (cws ! j) x))"

lemma wire_all:
  assumes "\<forall>x < 2 * t. pps (k + x) \<noteq> None" "i < length sws" "t \<le> length cws"
  shows "\<exists>sws' cws'. rfold (wire pps i) (k, sws, cws) [0..<t] = Inr (k + 2 * t, sws', cws') \<and> same_but i (sws, cws) (sws', cws') \<and>
    (\<forall>j < t. paired pps (k + 2 * j) i j sws' cws')"
  using assms(1,3)
proof (induction t)
  case 0
  then show ?case by (simp add: same_but_def)
next
  case (Suc t)
  obtain s c where s: "rfold (wire pps i) (k, sws, cws) [0..<t] = Inr (k + 2 * t, s, c)" "same_but i (sws, cws) (s, c)"
      "\<forall>j < t. paired pps (k + 2 * j) i j s c"
    using Suc.IH Suc.prems by auto
  obtain r w r' w' where p: "pps (k + 2 * t) = Some (r, w)" "pps (k + 2 * t + 1) = Some (r', w')"
    using Suc.prems(1) by (metis add.assoc add_Suc_right lessI less_Suc_eq mult_2 mult_Suc_right not_None_eq prod.collapse Suc_eq_plus1 One_nat_def plus_1_eq_Suc)
  let ?s = "s[i := (s ! i)\<lparr>storefd := (storefd (s ! i))(t := r), store_replyfd := (store_replyfd (s ! i))(t := w')\<rparr>]"
  let ?c = "c[t := (c ! t)\<lparr>cw_storefd := (cw_storefd (c ! t))(i := w), cw_store_replyfd := (cw_store_replyfd (c ! t))(i := r')\<rparr>]"
  have l: "i < length s" "t < length c" using s(2) assms(2) Suc.prems(2) by (auto simp: same_but_def)
  have "wire pps i (k + 2 * t, s, c) t = Inr (k + 2 * Suc t, ?s, ?c)" using p by (simp add: wire_def)
  then have "rfold (wire pps i) (k, sws, cws) [0..<Suc t] = Inr (k + 2 * Suc t, ?s, ?c)" using s(1) by (simp add: rfold_snoc)
  moreover have "same_but i (sws, cws) (?s, ?c)" using s(2) l by (auto simp: same_but_def nth_list_update_if)
  moreover have "paired pps (k + 2 * j) i j ?s ?c" if "j < Suc t" for j
    using that s(3) l p by (cases "j = t") (auto simp: paired_def nth_list_update_if)
  ultimately show ?case by blast
qed

lemma paired_frame: "same_but i (sws, cws) (sws', cws') \<Longrightarrow> x \<noteq> i \<Longrightarrow> paired pps k x j sws cws \<Longrightarrow> paired pps k x j sws' cws'"
  by (auto simp: paired_def same_but_def)

definition opens_ok :: "open_env \<Rightarrow> bool" where
  "opens_ok e \<longleftrightarrow> 0 \<le> open_rv e \<and> 0 \<le> fallocate_rv e \<and> 0 \<le> fstat_rv e \<and> 0 \<le> memalign_rv e"

lemma init_device_ok:
  assumes "\<forall>x < 2 * t. pps (k + x) \<noteq> None" "i < length sws" "t \<le> length cws" "opens_ok (envs i)"
    "storage_path (sws ! i) \<noteq> []" "length (storage_path (sws ! i)) < MAX_STORAGE_PATH_STR"
  shows "\<exists>sws' cws'. init_device envs pps t (blk, k, sws, cws) i = Inr (st_blksize (envs i), k + 2 * t, sws', cws') \<and>
    same_but i (sws[i := (sws ! i)\<lparr>worker_id := int i, storage_fd := open_rv (envs i)\<rparr>], cws) (sws', cws') \<and>
    (\<forall>j < t. paired pps (k + 2 * j) i j sws' cws')"
proof -
  let ?s = "sws[i := (sws ! i)\<lparr>worker_id := int i, storage_fd := open_rv (envs i)\<rparr>]"
  obtain s c where "rfold (wire pps i) (k, ?s, cws) [0..<t] = Inr (k + 2 * t, s, c)" "same_but i (?s, cws) (s, c)"
      "\<forall>j < t. paired pps (k + 2 * j) i j s c"
    using wire_all [of t pps k i ?s cws] assms(1-3) by auto
  then show ?thesis using assms(4-6) by (auto simp: init_device_def opens_ok_def path_string_def Let_def)
qed

lemma devices_wired:
  assumes "\<forall>k < 2 * (n * t). pps k \<noteq> None" "n \<le> length sws" "t \<le> length cws" "\<forall>i < n. opens_ok (envs i)"
    and "\<forall>i < n. storage_path (sws ! i) \<noteq> [] \<and> length (storage_path (sws ! i)) < MAX_STORAGE_PATH_STR"
  shows "\<exists>sws' cws'. init_devices envs pps n t (sws, cws) = Inr (if n = 0 then 0 else st_blksize (envs (n - 1)), 2 * (n * t), sws', cws') \<and>
    (\<forall>i < n. \<forall>j < t. paired pps (2 * (i * t + j)) i j sws' cws') \<and>
    (\<forall>i < n. storage_fd (sws' ! i) = open_rv (envs i) \<and> worker_id (sws' ! i) = int i) \<and>
    length sws' = length sws \<and> length cws' = length cws \<and> (\<forall>x \<ge> n. sws' ! x = sws ! x)"
  using assms(1,2,4,5) unfolding init_devices_def
proof (induction n)
  case 0
  then show ?case by simp
next
  case (Suc n)
  have q: "\<forall>k < 2 * (n * t). pps k \<noteq> None" "\<forall>x < 2 * t. pps (2 * (n * t) + x) \<noteq> None" using Suc.prems(1) by simp_all
  obtain blk s c where s: "rfold (init_device envs pps t) (0, 0, sws, cws) [0..<n] = Inr (blk, 2 * (n * t), s, c)"
      "\<forall>i < n. \<forall>j < t. paired pps (2 * (i * t + j)) i j s c" "\<forall>i < n. storage_fd (s ! i) = open_rv (envs i) \<and> worker_id (s ! i) = int i"
      "length s = length sws" "length c = length cws" "\<forall>x \<ge> n. s ! x = sws ! x"
    using Suc.IH [OF q(1)] Suc.prems(2-4) by auto
  let ?s = "s[n := (s ! n)\<lparr>worker_id := int n, storage_fd := open_rv (envs n)\<rparr>]"
  obtain s' c' where d: "init_device envs pps t (blk, 2 * (n * t), s, c) n = Inr (st_blksize (envs n), 2 * (n * t) + 2 * t, s', c')"
      "same_but n (?s, c) (s', c')" "\<forall>j < t. paired pps (2 * (n * t) + 2 * j) n j s' c'"
    using init_device_ok [OF q(2), of n s c envs blk] Suc.prems(2-4) assms(3) s(4-6) by auto
  have "paired pps (2 * (i * t + j)) i j ?s c" if "i < n" "j < t" for i j using s(2) that by (simp add: paired_def)
  then have "paired pps (2 * (i * t + j)) i j s' c'" if "i < Suc n" "j < t" for i j
    using that d(3) paired_frame [OF d(2), of i pps "2 * (i * t + j)" j] by (cases "i = n") auto
  moreover have "storage_fd (s' ! i) = open_rv (envs i) \<and> worker_id (s' ! i) = int i" if "i < Suc n" for i
    using that d(2) s(3,4) Suc.prems(2) by (cases "i = n") (auto simp: same_but_def)
  moreover have "length s' = length sws \<and> length c' = length cws \<and> (\<forall>x \<ge> Suc n. s' ! x = sws ! x)"
    using d(2) s(4-6) by (auto simp: same_but_def)
  moreover have "2 * (n * t) + 2 * t = 2 * (Suc n * t)" by simp
  ultimately show ?case using s(1) d(1) by (intro exI [of _ s'] exI [of _ c']) (simp add: rfold_snoc)
qed

text \<open>C16. The storage threads and the connection workers are wired in pairs: for each device and each worker there are two pipes of their own,
  and what one of the two writes to its end is what the other reads. Each device has the file that was opened for it.
\<close>

theorem pipes_paired:
  assumes "\<forall>k < 2 * (n * t). pps k \<noteq> None" "n \<le> length sws" "t \<le> length cws" "\<forall>i < n. opens_ok (envs i)"
    and "\<forall>i < n. storage_path (sws ! i) \<noteq> [] \<and> length (storage_path (sws ! i)) < MAX_STORAGE_PATH_STR"
  shows "\<exists>blk sws' cws'. init_devices envs pps n t (sws, cws) = Inr (blk, 2 * (n * t), sws', cws') \<and>
    (\<forall>i < n. \<forall>j < t. paired pps (2 * (i * t + j)) i j sws' cws') \<and>
    (\<forall>i < n. storage_fd (sws' ! i) = open_rv (envs i) \<and> worker_id (sws' ! i) = int i)"
  using devices_wired [OF assms] by blast

definition sample_device :: storage_setup where
  "sample_device = init_storage\<lparr>storage_path := ''/s''\<rparr>"

definition blank_worker :: worker_setup where
  "blank_worker = conn_worker_info_t.extend
     \<lparr>listen_socks = [], timeout_queue = pqueue_alloc (\<lambda>i. \<lparr>heap_id = 0, key = 0, data = 0\<rparr>) (\<lambda>i. 0) MAX_REQS, time_elapsed = 0, w_worker_id = 0,
       active_conns = 0, active_reqs = 0\<rparr>
     (worker_setup.fields 0 0 (0, 0) (\<lambda>_. 0) (\<lambda>_. 0) (-1) (sched_attrs init_node_args))"

definition sample_open :: open_env where
  "sample_open = \<lparr>open_rv = 7, fallocate_rv = 0, fstat_rv = 0, st_blksize = 4096, memalign_rv = 0\<rparr>"

text \<open>One device and two workers, with the pipes 10 and 11, 12 and 13, 14 and 15, 16 and 17.\<close>

theorem pipes_paired_witness:
  "\<exists>blk sws cws. init_devices (\<lambda>_. sample_open) (\<lambda>k. Some (int (10 + 2 * k), int (11 + 2 * k))) 1 2 ([sample_device], [blank_worker, blank_worker]) =
       Inr (blk, 4, sws, cws) \<and> storefd (sws ! 0) 1 = 14 \<and> cw_storefd (cws ! 1) 0 = 15"
proof -
  let ?p = "\<lambda>k. Some (int (10 + 2 * k), int (11 + 2 * k))"
  have "\<exists>blk sws' cws'. init_devices (\<lambda>_. sample_open) ?p 1 2 ([sample_device], [blank_worker, blank_worker]) = Inr (blk, 2 * (1 * 2), sws', cws') \<and>
      (\<forall>i < 1. \<forall>j < 2. paired ?p (2 * (i * 2 + j)) i j sws' cws') \<and> (\<forall>i < 1. storage_fd (sws' ! i) = open_rv sample_open \<and> worker_id (sws' ! i) = int i)"
    by (rule pipes_paired) (simp_all add: opens_ok_def sample_open_def sample_device_def MAX_STORAGE_PATH_STR_def)
  then obtain blk sws cws where r: "init_devices (\<lambda>_. sample_open) ?p 1 2 ([sample_device], [blank_worker, blank_worker]) = Inr (blk, 4, sws, cws)"
      "\<forall>i < 1. \<forall>j < 2. paired ?p (2 * (i * 2 + j)) i j sws cws" by auto
  have "paired ?p 2 0 1 sws cws" using r(2) [rule_format, of 0 1] by simp
  then show ?thesis using r(1) by (intro exI [of _ blk] exI [of _ sws] exI [of _ cws]) (simp add: paired_def)
qed
section \<open>Listeners\<close>

text \<open>The first \<open>m\<close> entries of the connection table are in use.\<close>

definition in_use_upto :: "nat \<Rightarrow> dw_state \<Rightarrow> bool" where
  "in_use_upto m s \<longleftrightarrow> (\<forall>i < MAX_CONNS. busy (conns s i) \<longleftrightarrow> i < m)"

lemma conn_alloc_next:
  assumes "in_use_upto m s" "m < MAX_CONNS"
  shows "\<exists>s1. conn_alloc True True thr sk tgt pr s = Inr (int m, s1) \<and> in_use_upto (Suc m) s1"
proof -
  have "find (\<lambda>i. \<not> busy (conns s i)) [0..<MAX_CONNS] = Some m" using assms by (auto simp: find_Some_upt in_use_upto_def)
  moreover obtain b where b: "fresh_buf = Inr b" using fresh_buf_ok by blast
  ultimately have "conn_alloc True True thr sk tgt pr s =
      Inr (int m, upd_conn m (conn_fresh thr sk tgt pr b b) (upd_conn m (busy_update (\<lambda>_. True)) s))"
    by (simp add: conn_alloc_def Let_def b)
  moreover have "in_use_upto (Suc m) (upd_conn m (conn_fresh thr sk tgt pr b b) (upd_conn m (busy_update (\<lambda>_. True)) s))"
    using assms by (auto simp: in_use_upto_def conn_fresh_def)
  ultimately show ?thesis by blast
qed

lemma in_use_upto_upd_conn: "in_use_upto m s \<Longrightarrow> (\<And>x. busy (f x) = busy x) \<Longrightarrow> in_use_upto m (upd_conn c f s)"
  by (auto simp: in_use_upto_def)

definition listen_ok :: "listen_env \<Rightarrow> bool" where
  "listen_ok e \<longleftrightarrow> 0 \<le> socket_rv e \<and> 0 \<le> reuseaddr_rv e \<and> 0 \<le> reuseport_rv e \<and> 0 \<le> bind_rv e \<and> 0 \<le> listen_rv e \<and>
     listen_callocs e = (True, True)"

text \<open>The sockets on which the worker \<open>i\<close> has to listen for the first \<open>l\<close> addresses.\<close>

definition listeners :: "node_args \<Rightarrow> (nat \<Rightarrow> nat \<Rightarrow> listen_env) \<Rightarrow> nat \<Rightarrow> nat \<Rightarrow> (int \<times> proto_t) list" where
  "listeners a envs l i =
     (let own = \<lambda>i. map (\<lambda>k. (socket_rv (envs k i), snd (bind_addrs a ! k))) [0..<l] in
      case accept_mode a of
        AM_CHILD \<Rightarrow> own i
      | AM_SHARED \<Rightarrow> own 0
      | AM_PARENT \<Rightarrow> if i = 0 then own 0 else [])"

text \<open>The calls for the socket that the worker \<open>i\<close> opens for an address: it is bound to that address and, for a stream, set to listen.\<close>

definition opened :: "node_args \<Rightarrow> proto_t \<Rightarrow> sockaddr_in \<Rightarrow> int \<Rightarrow> sock_call list" where
  "opened a pr addr fd =
     (if pr = TCP \<or> pr = TLS then [Socket True fd, Reuse_Addr fd] @ (if accept_mode a = AM_CHILD then [Reuse_Port fd] else []) @
        [Bind fd addr, Listen fd (listen_backlog a)]
      else [Socket False fd, Reuse_Addr fd] @ (if accept_mode a = AM_CHILD then [Reuse_Port fd] else []) @ [Bind fd addr])"

definition opens_socket :: "node_args \<Rightarrow> nat \<Rightarrow> bool" where
  "opens_socket a i \<longleftrightarrow> accept_mode a = AM_CHILD \<or> i = 0"

definition worker_calls :: "node_args \<Rightarrow> (nat \<Rightarrow> nat \<Rightarrow> listen_env) \<Rightarrow> nat \<Rightarrow> sockaddr_in \<Rightarrow> nat \<Rightarrow> sock_call list" where
  "worker_calls a envs l addr i = (if opens_socket a i then opened a (snd (bind_addrs a ! l)) addr (socket_rv (envs l i)) else [])"

lemma init_listen_sock_ok:
  assumes "in_use_upto m s" "m < MAX_CONNS" "listen_ok (envs l i)" "l < MAX_LISTEN_SOCKETS" "i < length cws"
    and "pr = snd (bind_addrs a ! l)" "listen_socks (cws ! i) = listeners a envs l i"
    and "i \<noteq> 0 \<longrightarrow> listen_socks (cws ! 0) = listeners a envs (Suc l) 0"
  shows "\<exists>s' m'. init_listen_sock a thr (envs l i) i pr addr (cs, s, cws) = Inr (cs @ worker_calls a envs l addr i, s', cws[i := (cws ! i)\<lparr>listen_socks := listeners a envs (Suc l) i\<rparr>]) \<and>
    in_use_upto m' s' \<and> m' \<le> Suc m"
proof (cases "accept_mode a = AM_CHILD \<or> i = 0")
  case True
  let ?e = "envs l i"
  have e: "0 \<le> socket_rv ?e" "0 \<le> reuseaddr_rv ?e" "0 \<le> reuseport_rv ?e" "0 \<le> bind_rv ?e" "0 \<le> listen_rv ?e" "listen_callocs ?e = (True, True)"
    using assms(3) by (auto simp: listen_ok_def)
  obtain s1 where s1: "conn_alloc True True thr (socket_rv ?e) addr pr s = Inr (int m, s1)" "in_use_upto (Suc m) s1"
    using conn_alloc_next [OF assms(1,2)] by blast
  have own: "listeners a envs l i = map (\<lambda>k. (socket_rv (envs k i), snd (bind_addrs a ! k))) [0..<l]" for l
    using True by (cases "accept_mode a") (auto simp: listeners_def)
  have "add_listener (socket_rv ?e, pr) (cws ! i) = Inr ((cws ! i)\<lparr>listen_socks := listeners a envs (Suc l) i\<rparr>)"
    using assms(4,6,7) by (simp add: add_listener_def own)
  then show ?thesis using True e s1
    by (auto simp: init_listen_sock_def worker_calls_def opens_socket_def opened_def assms(6) Let_def conn_set_status_by_id_def conn_set_status_def intro!: in_use_upto_upd_conn)
next
  case False
  have "listeners a envs (Suc l) i = (if accept_mode a = AM_SHARED then listeners a envs (Suc l) 0 else [])"
    using False by (cases "accept_mode a") (auto simp: listeners_def)
  moreover have "listeners a envs (Suc l) i = listen_socks (cws ! 0)" if "accept_mode a = AM_SHARED"
    using that assms(8) False by (simp add: listeners_def)
  ultimately show ?thesis using False assms(1) by (auto simp: init_listen_sock_def worker_calls_def opens_socket_def)
qed

lemma init_listen_workers:
  assumes "in_use_upto m s" "m + t \<le> MAX_CONNS" "\<forall>i < t. listen_ok (envs l i)" "l < MAX_LISTEN_SOCKETS" "t \<le> length cws" "t \<le> T"
    and "pr = snd (bind_addrs a ! l)" "\<forall>i < T. listen_socks (cws ! i) = listeners a envs l i"
  shows "\<exists>s' m' cws'. rfold (\<lambda>st i. init_listen_sock a thr (envs l i) i pr addr st) (cs, s, cws) [0..<t] =
      Inr (cs @ concat (map (worker_calls a envs l addr) [0..<t]), s', cws') \<and>
    in_use_upto m' s' \<and> m' \<le> m + t \<and> length cws' = length cws \<and>
    (\<forall>i < T. listen_socks (cws' ! i) = listeners a envs (if i < t then Suc l else l) i)"
  using assms(2,3,5,6)
proof (induction t)
  case 0
  then show ?case using assms(1,8) by auto
next
  case (Suc t)
  obtain s1 m1 c1 where r: "rfold (\<lambda>st i. init_listen_sock a thr (envs l i) i pr addr st) (cs, s, cws) [0..<t] =
        Inr (cs @ concat (map (worker_calls a envs l addr) [0..<t]), s1, c1)" "in_use_upto m1 s1"
      "m1 \<le> m + t" "length c1 = length cws" "\<forall>i < T. listen_socks (c1 ! i) = listeners a envs (if i < t then Suc l else l) i"
    using Suc.IH Suc.prems by auto
  have h: "m1 < MAX_CONNS" "listen_ok (envs l t)" "t < length c1" "listen_socks (c1 ! t) = listeners a envs l t"
      "t \<noteq> 0 \<longrightarrow> listen_socks (c1 ! 0) = listeners a envs (Suc l) 0"
    using Suc.prems r(3-5) by auto
  let ?cs = "cs @ concat (map (worker_calls a envs l addr) [0..<t])"
  obtain s2 m2 where "init_listen_sock a thr (envs l t) t pr addr (?cs, s1, c1) =
      Inr (?cs @ worker_calls a envs l addr t, s2, c1[t := (c1 ! t)\<lparr>listen_socks := listeners a envs (Suc l) t\<rparr>])" "in_use_upto m2 s2" "m2 \<le> Suc m1"
    using init_listen_sock_ok [OF r(2) h(1,2) assms(4) h(3) assms(7) h(4,5), of thr addr ?cs] by blast
  then show ?case using r h(3) by (intro exI [of _ s2] exI [of _ m2]) (auto simp: rfold_snoc nth_list_update_if less_Suc_eq)
qed

text \<open>C17. The listening sockets. When the system calls succeed, the node opens, for each address it was given, one socket in each worker that has to listen: all
  workers with \<^verbatim>\<open>child\<close>, otherwise the first one. Each socket is bound to the address that its text stands for and, for TCP and TLS, then set to listen with
  the given backlog; no other calls are made. After that, with \<^verbatim>\<open>child\<close> each worker waits on its own sockets, one per address, with \<^verbatim>\<open>shared\<close> all workers wait on
  those of the first one, and with \<^verbatim>\<open>parent\<close> only the first one waits.
\<close>

theorem listeners_started:
  assumes "num_threads a = int t" "n_bind_addrs a = n" "0 < n" "n \<le> MAX_LISTEN_SOCKETS" "n * t \<le> MAX_CONNS" "t \<le> length cws"
    and "\<forall>i < t. listen_socks (cws ! i) = []" "\<forall>l i. listen_ok (envs l i)"
    and "\<forall>l < n. snd (bind_addrs a ! l) \<noteq> DPDK \<and> addr_parse res (fst (bind_addrs a ! l)) = Inr (addrs l)"
  shows "\<exists>s' cws'. init_listen_socks a thr res envs ([], conn_init s, cws) =
      Inr (concat (map (\<lambda>l. concat (map (\<lambda>i. opened a (snd (bind_addrs a ! l)) (addrs l) (socket_rv (envs l i))) (filter (opens_socket a) [0..<t]))) [0..<n]), s', cws') \<and>
    (\<forall>i < t. listen_socks (cws' ! i) = listeners a envs n i)"
proof -
  have z: "in_use_upto 0 (conn_init s)" by (simp add: in_use_upto_def conn_init_def)
  let ?cs = "\<lambda>k. concat (map (\<lambda>l. concat (map (worker_calls a envs l (addrs l)) [0..<t])) [0..<k])"
  have run: "\<exists>s' m cws'. rfold (init_listen_addr a thr res envs) ([], conn_init s, cws) [0..<k] = Inr (?cs k, s', cws') \<and> in_use_upto m s' \<and> m \<le> k * t \<and>
      length cws' = length cws \<and> (\<forall>i < t. listen_socks (cws' ! i) = listeners a envs k i)" if "k \<le> n" for k
    using that
  proof (induction k)
    case 0
    then show ?case using z assms(7) by (auto simp: listeners_def split: accept_mode_t.splits)
  next
    case (Suc k)
    then obtain s1 m1 c1 where r: "rfold (init_listen_addr a thr res envs) ([], conn_init s, cws) [0..<k] = Inr (?cs k, s1, c1)" "in_use_upto m1 s1" "m1 \<le> k * t"
        "length c1 = length cws" "\<forall>i < t. listen_socks (c1 ! i) = listeners a envs k i"
      by auto
    obtain hp pr where b: "bind_addrs a ! k = (hp, pr)" by (cases "bind_addrs a ! k")
    then have p: "pr \<noteq> DPDK" "addr_parse res hp = Inr (addrs k)" using assms(9) Suc.prems by (metis Suc_le_lessD fst_conv snd_conv)+
    have "Suc k * t \<le> n * t" using Suc.prems by (rule mult_le_mono1)
    then have "m1 + t \<le> MAX_CONNS" using r(3) assms(5) by simp
    then obtain s2 m2 c2 where w: "rfold (\<lambda>st i. init_listen_sock a thr (envs k i) i pr (addrs k) st) (?cs k, s1, c1) [0..<t] =
          Inr (?cs k @ concat (map (worker_calls a envs k (addrs k)) [0..<t]), s2, c2)" "in_use_upto m2 s2"
        "m2 \<le> m1 + t" "length c2 = length c1" "\<forall>i < t. listen_socks (c2 ! i) = listeners a envs (Suc k) i"
      using init_listen_workers [OF r(2), of t envs k c1 t pr a thr "addrs k" "?cs k"] assms(4,6,8) Suc.prems b r(4,5) by auto
    then have "init_listen_addr a thr res envs (?cs k, s1, c1) k = Inr (?cs (Suc k), s2, c2)" using b p assms(1) by (simp add: init_listen_addr_def)
    then show ?case using r w by (intro exI [of _ s2] exI [of _ m2] exI [of _ c2]) (simp add: rfold_snoc)
  qed
  have calls: "concat (map (worker_calls a envs l addr) ws) = concat (map (\<lambda>i. opened a (snd (bind_addrs a ! l)) addr (socket_rv (envs l i))) (filter (opens_socket a) ws))"
    for l addr ws by (induction ws) (auto simp: worker_calls_def)
  obtain s' m cws' where "rfold (init_listen_addr a thr res envs) ([], conn_init s, cws) [0..<n] = Inr (?cs n, s', cws')"
      "\<forall>i < t. listen_socks (cws' ! i) = listeners a envs n i" using run [of n] by blast
  then show ?thesis using assms(2,3) unfolding calls init_listen_socks_def by auto
qed

definition sample_listen :: "nat \<Rightarrow> nat \<Rightarrow> listen_env" where
  "sample_listen l i = \<lparr>socket_rv = int (20 + i), reuseaddr_rv = 0, reuseport_rv = 0, bind_rv = 0, listen_rv = 0, listen_callocs = (True, True)\<rparr>"

text \<open>One address and two workers that share the socket 20, which is bound to port 7891 of the address that the name stands for.\<close>

theorem listeners_started_witness:
  "\<exists>addr s' cws. init_listen_socks (init_node_args\<lparr>num_threads := 2, n_bind_addrs := 1, accept_mode := AM_SHARED\<rparr>) 0 (\<lambda>_. Some 1) sample_listen
       ([], conn_init sample_state, [blank_worker, blank_worker]) =
         Inr ([Socket True 20, Reuse_Addr 20, Bind 20 addr, Listen 20 5], s', cws) \<and>
     addr_parse (\<lambda>_. Some 1) ''127.0.0.1:7891'' = Inr addr \<and> listen_socks (cws ! 1) = [(20, TCP)]"
proof -
  let ?a = "init_node_args\<lparr>num_threads := 2, n_bind_addrs := 1, accept_mode := AM_SHARED\<rparr>"
  have b: "bind_addrs init_node_args ! 0 = default_bind" "snd default_bind = TCP" "fst default_bind = ''127.0.0.1:7891''" "listen_backlog init_node_args = 5"
    by (simp_all add: init_node_args_def MAX_LISTEN_SOCKETS_def default_bind_def DEFAULT_ADDR_def)
  have w: "listen_socks blank_worker = []" by (simp add: blank_worker_def conn_worker_info_t.defs worker_setup.defs)
  obtain addr where addr: "addr_parse (\<lambda>_. Some 1) ''127.0.0.1:7891'' = Inr addr"
    by (simp add: addr_parse_def split_port_def parse_port_def strtol_def sign_def isspace_def digit_def signed_def of_char_def Let_def)
  have "\<exists>s' cws'. init_listen_socks ?a 0 (\<lambda>_. Some 1) sample_listen ([], conn_init sample_state, [blank_worker, blank_worker]) =
      Inr (concat (map (\<lambda>l. concat (map (\<lambda>i. opened ?a (snd (bind_addrs ?a ! l)) addr (socket_rv (sample_listen l i))) (filter (opens_socket ?a) [0..<2]))) [0..<1]), s', cws') \<and>
      (\<forall>i < 2. listen_socks (cws' ! i) = listeners ?a sample_listen 1 i)"
  proof (rule listeners_started [where n = 1])
    show "num_threads ?a = int 2" "n_bind_addrs ?a = 1" "0 < (1 :: nat)" "1 \<le> MAX_LISTEN_SOCKETS" "1 * 2 \<le> MAX_CONNS"
      by (simp_all add: MAX_LISTEN_SOCKETS_def MAX_CONNS_def)
    show "\<forall>i < 2. listen_socks ([blank_worker, blank_worker] ! i) = []"
      using w by (auto simp: less_2_cases_iff)
    show "\<forall>l < 1. snd (bind_addrs ?a ! l) \<noteq> DPDK \<and> addr_parse (\<lambda>_. Some 1) (fst (bind_addrs ?a ! l)) = Inr addr" using b addr by simp
  qed (simp_all add: listen_ok_def sample_listen_def)
  then obtain s' cws' where r: "init_listen_socks ?a 0 (\<lambda>_. Some 1) sample_listen ([], conn_init sample_state, [blank_worker, blank_worker]) =
      Inr (concat (map (\<lambda>l. concat (map (\<lambda>i. opened ?a (snd (bind_addrs ?a ! l)) addr (socket_rv (sample_listen l i))) (filter (opens_socket ?a) [0..<2]))) [0..<1]), s', cws')"
      "\<forall>i < 2. listen_socks (cws' ! i) = listeners ?a sample_listen 1 i" by (elim exE conjE)
  have "listen_socks (cws' ! 1) = listeners ?a sample_listen 1 1" using r(2) [rule_format, of 1] by simp
  moreover have "listeners ?a sample_listen 1 1 = [(20, TCP)]" using b by (simp add: listeners_def sample_listen_def)
  moreover have "concat (map (\<lambda>l. concat (map (\<lambda>i. opened ?a (snd (bind_addrs ?a ! l)) addr (socket_rv (sample_listen l i))) (filter (opens_socket ?a) [0..<2]))) [0..<1]) =
      [Socket True 20, Reuse_Addr 20, Bind 20 addr, Listen 20 5]"
    using b by (simp add: opens_socket_def opened_def sample_listen_def numeral_2_eq_2)
  ultimately show ?thesis using addr r(1) by (intro exI [of _ addr] exI [of _ s'] exI [of _ cws']) simp
qed

end
