(* ===== verification/DW_Compute.thy ===== *)
theory DW_Compute
  imports DW_Timespec DW_Strings
begin

text \<open>
  Computing for a given time (\<^verbatim>\<open>compute_for\<close> and what it uses in \<^verbatim>\<open>src/dw_node.c\<close>) and the calibration at the start of a node. The readings of the
  processor time of the thread and the flag \<^verbatim>\<open>running\<close> at each turn are arguments; \<open>loop\<close>, a hundred calls of \<^verbatim>\<open>rand()\<close>, only takes time.
\<close>

section \<open>Definitions\<close>

text \<open>
  \<^verbatim>\<open>compute_for_freqinv\<close>: the clock is read until enough time has passed. The difference is a \<^verbatim>\<open>long\<close> that is compared with an \<^verbatim>\<open>unsigned long\<close>. The
  result is the number of the reading at which the loop ends; \<open>None\<close>: it does not.
\<close>

definition to_ulong :: "int \<Rightarrow> nat" where
  "to_ulong i = nat (i mod 2 ^ 64)"

partial_function (option) freqinv_loop :: "(nat \<Rightarrow> timespec) \<Rightarrow> (nat \<Rightarrow> bool) \<Rightarrow> nat \<Rightarrow> nat \<Rightarrow> nat option" where
  "freqinv_loop clk running usecs i =
     (if running i \<and> to_ulong (ts_sub_us (clk i) (clk 0)) < usecs then freqinv_loop clk running usecs (Suc i) else Some i)"

definition compute_for_freqinv :: "(nat \<Rightarrow> timespec) \<Rightarrow> (nat \<Rightarrow> bool) \<Rightarrow> nat \<Rightarrow> nat option" where
  "compute_for_freqinv clk running usecs = freqinv_loop clk running usecs 1"

text \<open>The shortest time of a turn in nanoseconds, over \<open>n\<close> turns from turn \<open>i\<close>; 0 stands for no time yet.\<close>

fun elapsed_min :: "(nat \<Rightarrow> timespec) \<Rightarrow> (nat \<Rightarrow> bool) \<Rightarrow> nat \<Rightarrow> nat \<Rightarrow> nat \<Rightarrow> nat" where
  "elapsed_min clk running i 0 m = m"
| "elapsed_min clk running i (Suc n) m =
     (if \<not> running i then m
      else
        let elapsed_ns = to_ulong (ts_sub_ns (clk (Suc i)) (clk i)) in
        elapsed_min clk running (Suc i) n (if m = 0 \<or> elapsed_ns < m then elapsed_ns else m))"

definition compute_loops_per_usec :: "(nat \<Rightarrow> timespec) \<Rightarrow> (nat \<Rightarrow> bool) \<Rightarrow> double" where
  "compute_loops_per_usec clk running =
     (let m = elapsed_min clk running 0 100000 0 in if 0 < m then ddiv (Fin 1000) (rnd (of_nat m)) else Fin 0)"

text \<open>
  \<^verbatim>\<open>compute_for\<close> with a calibration: the number of calls of \<open>loop\<close>. The counter is an \<^verbatim>\<open>int\<close> that is compared with an \<^verbatim>\<open>unsigned long\<close>; it
  overflows when it is incremented at its largest value.
\<close>

function compute_loop :: "(nat \<Rightarrow> bool) \<Rightarrow> nat \<Rightarrow> nat \<Rightarrow> nat res" where
  "compute_loop running nloops i =
     (if i < nloops then
        (if \<not> running i then Inr i
         else if i = 2 ^ 31 - 1 then Inl Int_Overflow
         else compute_loop running nloops (Suc i))
      else Inr i)"
  by pat_completeness auto
termination
  by (relation "measure (\<lambda>(r, n, i). n - i)") auto

declare compute_loop.simps [simp del]

datatype computed = Read_Clock "nat option" | Looped nat

definition compute_for :: "double \<Rightarrow> (nat \<Rightarrow> timespec) \<Rightarrow> (nat \<Rightarrow> bool) \<Rightarrow> nat \<Rightarrow> computed res" where
  "compute_for loops_per_usec clk running usecs =
     (if loops_per_usec = Fin (-1) then Inr (Read_Clock (compute_for_freqinv clk running usecs))
      else rbind (to_u64 (dmul (rnd (of_nat usecs)) loops_per_usec)) (\<lambda>nloops.
        rbind (compute_loop running nloops 0) (\<lambda>n. Inr (Looped n))))"

text \<open>The conversion \<^verbatim>\<open>%lf\<close> of a number that is not negative, and the calibration in \<^verbatim>\<open>main\<close>: the value that is used and the file that is written.\<close>

definition frac6 :: "nat \<Rightarrow> string" where
  "frac6 b = [dec_char (b div 10 ^ 5 mod 10), dec_char (b div 10 ^ 4 mod 10), dec_char (b div 10 ^ 3 mod 10), dec_char (b div 10 ^ 2 mod 10),
     dec_char (b div 10 mod 10), dec_char (b mod 10)]"

fun fmt_lf :: "double \<Rightarrow> string" where
  "fmt_lf NaN = ''nan''"
| "fmt_lf (Inf neg) = (if neg then ''-inf'' else ''inf'')"
| "fmt_lf (Fin x) = (let n = nat (round_even (\<bar>x\<bar> * 10 ^ 6)) in
     (if x < 0 then ''-'' else '''') @ show_nat (n div 10 ^ 6) @ ''.'' @ frac6 (n mod 10 ^ 6))"

definition calibration_file :: "string option \<Rightarrow> string" where
  "calibration_file home = (case home of None \<Rightarrow> ''.'' | Some d \<Rightarrow> d) @ ''/'' @ ''.dw_loops_per_usec''"

definition calibrate ::
    "string option \<Rightarrow> (string \<Rightarrow> string option) \<Rightarrow> bool \<Rightarrow> (nat \<Rightarrow> timespec) \<Rightarrow> (nat \<Rightarrow> bool) \<Rightarrow> double \<Rightarrow> (double \<times> (string \<times> string) option) res" where
  "calibrate home files can_write clk running loops_per_usec =
     (if loops_per_usec \<noteq> Fin 0 then Inr (loops_per_usec, None)
      else
        let fname = calibration_file home;
            loaded = (case files fname of None \<Rightarrow> loops_per_usec
                      | Some txt \<Rightarrow> (case scan_lf txt of None \<Rightarrow> loops_per_usec | Some v \<Rightarrow> v))
        in if loaded \<noteq> Fin 0 then Inr (loaded, None)
           else
             let v = compute_loops_per_usec clk running in
             if \<not> can_write then Inl Null_Deref else Inr (v, Some (fname, fmt_lf v @ [char_of (10 :: nat)])))"

section \<open>Computing by the clock\<close>

lemma freqinv_first:
  assumes "i \<le> n" "\<not> (running n \<and> to_ulong (ts_sub_us (clk n) (clk 0)) < usecs)"
    "\<And>j. i \<le> j \<Longrightarrow> j < n \<Longrightarrow> running j \<and> to_ulong (ts_sub_us (clk j) (clk 0)) < usecs"
  shows "freqinv_loop clk running usecs i = Some n"
  using assms(1,3)
proof (induction "n - i" arbitrary: i)
  case 0
  then show ?case using assms(2) by (subst freqinv_loop.simps) auto
next
  case (Suc k)
  then have "freqinv_loop clk running usecs (Suc i) = Some n" by (intro Suc.hyps(1)) auto
  then show ?case using Suc.hyps(2) Suc.prems(2) [of i] by (subst freqinv_loop.simps) auto
qed

text \<open>C38. Computing by the clock lasts as long as it should. If the processor time of the thread goes on beyond \<open>usecs\<close> microseconds after the start
  and the node is running, the loop ends, at the first reading at which at least \<open>usecs\<close> microseconds have passed.
\<close>

theorem compute_by_clock:
  assumes "\<And>i. running i" "\<And>i. 0 \<le> ts_sub_us (clk i) (clk 0)" "\<And>i. ts_sub_us (clk i) (clk 0) < 2 ^ 63"
    and "1 \<le> m" "int usecs \<le> ts_sub_us (clk m) (clk 0)"
  shows "\<exists>n \<le> m. compute_for (Fin (-1)) clk running usecs = Inr (Read_Clock (Some n)) \<and> 1 \<le> n \<and> int usecs \<le> ts_sub_us (clk n) (clk 0) \<and>
    (\<forall>j. 1 \<le> j \<and> j < n \<longrightarrow> ts_sub_us (clk j) (clk 0) < int usecs)"
proof -
  have u: "int (to_ulong (ts_sub_us (clk i) (clk 0))) = ts_sub_us (clk i) (clk 0)" for i
    using assms(2,3) [of i] by (simp add: to_ulong_def)
  define n where "n = (LEAST n. 1 \<le> n \<and> int usecs \<le> ts_sub_us (clk n) (clk 0))"
  have n: "1 \<le> n \<and> int usecs \<le> ts_sub_us (clk n) (clk 0)" unfolding n_def by (rule LeastI [of _ m]) (use assms in simp)
  have le: "n \<le> m" unfolding n_def by (rule Least_le) (use assms in simp)
  have before: "ts_sub_us (clk j) (clk 0) < int usecs" if "1 \<le> j" "j < n" for j
    using not_less_Least [of j "\<lambda>n. 1 \<le> n \<and> int usecs \<le> ts_sub_us (clk n) (clk 0)"] that unfolding n_def by auto
  have c: "to_ulong (ts_sub_us (clk i) (clk 0)) < usecs \<longleftrightarrow> ts_sub_us (clk i) (clk 0) < int usecs" for i
    using u [of i] by (metis of_nat_less_iff)
  have "freqinv_loop clk running usecs 1 = Some n" using n before assms(1) by (intro freqinv_first) (auto simp: c)
  then show ?thesis using n le before by (intro exI [of _ n]) (auto simp: compute_for_def compute_for_freqinv_def)
qed

theorem compute_by_clock_witness:
  "\<exists>n \<le> 7. compute_for (Fin (-1)) (\<lambda>i. \<lparr>tv_sec = int (min i 7), tv_nsec = 0\<rparr>) (\<lambda>i. True) 5000000 = Inr (Read_Clock (Some n)) \<and> 1 \<le> n"
proof -
  let ?clk = "\<lambda>i. \<lparr>tv_sec = int (min i 7), tv_nsec = 0\<rparr>"
  have e: "ts_sub_us (?clk i) (?clk 0) = int (min i 7) * 1000000" for i
    by (simp add: ts_sub_us_def ts_sub_def ts_borrow.simps Let_def)
  have lo: "0 \<le> ts_sub_us (?clk i) (?clk 0)" and hi: "ts_sub_us (?clk i) (?clk 0) < 2 ^ 63" for i unfolding e by (auto simp: min_def)
  have "int 5000000 \<le> ts_sub_us (?clk 7) (?clk 0)" unfolding e by simp
  then show ?thesis using compute_by_clock [of "\<lambda>i. True" ?clk, OF TrueI lo hi, of 7 5000000] by auto
qed

section \<open>Computing by a number of loops\<close>

lemma compute_loop_all:
  assumes "\<And>i. running i" "i \<le> n" "n \<le> 2 ^ 31 - 1"
  shows "compute_loop running n i = Inr n"
  using assms(2)
proof (induction "n - i" arbitrary: i)
  case 0
  then show ?case by (subst compute_loop.simps) simp
next
  case (Suc k)
  then have "compute_loop running n (Suc i) = Inr n" by (intro Suc.hyps(1)) auto
  then show ?case using Suc.hyps(2) assms by (subst compute_loop.simps) auto
qed

lemma compute_loop_overflow:
  assumes "\<And>i. running i" "i \<le> m" "m = 2 ^ 31 - 1" "m < n"
  shows "compute_loop running n i = Inl Int_Overflow"
  using assms(2)
proof (induction "m - i" arbitrary: i)
  case 0
  then show ?case using assms by (subst compute_loop.simps) simp
next
  case (Suc k)
  then have "compute_loop running n (Suc i) = Inl Int_Overflow" by (intro Suc.hyps(1)) auto
  then show ?case using Suc.hyps(2) assms by (subst compute_loop.simps) auto
qed

text \<open>With a calibration, a computation of more than \<open>2 ^ 31 - 1\<close> loops overflows its counter; one of at most so many makes exactly that number.\<close>

lemma compute_by_loops:
  assumes "\<And>i. running i" "lps \<noteq> Fin (-1)" "to_u64 (dmul (rnd (of_nat usecs)) lps) = Inr n"
  shows "compute_for lps clk running usecs = (if n \<le> 2 ^ 31 - 1 then Inr (Looped n) else Inl Int_Overflow)"
  using assms compute_loop_all [of running 0 n] compute_loop_overflow [of running 0 "2 ^ 31 - 1" n] by (simp add: compute_for_def)

section \<open>Calibration\<close>

lemma Min_insert_min: "finite S \<Longrightarrow> Min (insert (min a b) S) = Min (insert a (insert b S))"
  by (cases "S = {}") (simp_all add: min.assoc)

lemma elapsed_min_Min:
  assumes "\<And>i. running i" "\<And>i. 0 < to_ulong (ts_sub_ns (clk (Suc i)) (clk i))" "0 < m"
  shows "elapsed_min clk running i n m = Min (insert m ((\<lambda>j. to_ulong (ts_sub_ns (clk (Suc j)) (clk j))) ` {i..<i + n}))"
  using assms(3)
proof (induction n arbitrary: i m)
  case (Suc n)
  let ?f = "\<lambda>j. to_ulong (ts_sub_ns (clk (Suc j)) (clk j))"
  have "{i..<i + Suc n} = insert i {Suc i..<Suc i + n}" by auto
  moreover have "elapsed_min clk running i (Suc n) m = elapsed_min clk running (Suc i) n (min m (?f i))"
    using Suc.prems assms(1) by (simp add: Let_def min_def)
  moreover have "0 < min m (?f i)" using Suc.prems assms(2) by simp
  ultimately show ?case using Suc.IH [of "min m (?f i)" "Suc i"] Min_insert_min [of "?f ` {Suc i..<Suc i + n}" m "?f i"]
    by (simp only: image_insert finite_imageI finite_atLeastLessThan)
qed simp

lemma frac6_digits:
  assumes "b < 10 ^ 6"
  shows "digits digit 10 a 0 (frac6 b @ [char_of (10 :: nat)]) = (a * 10 ^ 6 + b, 6, [char_of (10 :: nat)])"
proof -
  have d: "digit (dec_char (x mod 10)) = Some (x mod 10)" for x by simp
  have nl: "digit (char_of (10 :: nat)) = None" by (simp add: digit_def)
  define b1 b2 b3 b4 b5 where "b1 = b div 10" "b2 = b1 div 10" "b3 = b2 div 10" "b4 = b3 div 10" "b5 = b4 div 10"
  have q: "b div 10 ^ 2 = b2" "b div 10 ^ 3 = b3" "b div 10 ^ 4 = b4" "b div 10 ^ 5 = b5" "b div 10 = b1"
    by (simp_all add: b1_b2_b3_b4_b5_def flip: div_mult2_eq)
  have e: "10 * b1 + b mod 10 = b" "10 * b2 + b1 mod 10 = b1" "10 * b3 + b2 mod 10 = b2" "10 * b4 + b3 mod 10 = b3" "10 * b5 + b4 mod 10 = b4"
    by (simp_all add: b1_b2_b3_b4_b5_def)
  have "b5 < 10" using assms q(4) by auto
  then have "b5 mod 10 = b5" by simp
  then have "10 * (10 * (10 * (10 * (10 * (b5 mod 10) + b4 mod 10) + b3 mod 10) + b2 mod 10) + b1 mod 10) + b mod 10 = b" by (simp only: e)
  then have "10 * (10 * (10 * (10 * (10 * (10 * a + b5 mod 10) + b4 mod 10) + b3 mod 10) + b2 mod 10) + b1 mod 10) + b mod 10 = a * 10 ^ 6 + b" by simp
  then show ?thesis unfolding frac6_def q by (simp add: d nl)
qed

lemma scan_lf_fixed:
  assumes "b < 10 ^ 6"
  shows "scan_lf (show_nat a @ ''.'' @ frac6 b @ [char_of (10 :: nat)]) = Some (rnd (of_nat (a * 10 ^ 6 + b) / 10 ^ 6))"
proof -
  let ?t = "frac6 b @ [char_of (10 :: nat)]" and ?u = "''.'' @ frac6 b @ [char_of (10 :: nat)]"
  obtain c s where c: "show_nat a = c # s" "digit c \<noteq> None" using show_nat_hd [of a] by (cases "show_nat a") auto
  note f = digit_char_facts [OF c(2)]
  have sg: "sign (dropWhile isspace (show_nat a @ ?u)) = (False, show_nat a @ ?u)" using f by (simp add: c(1) sign_def)
  have "tolower (dec_char (x mod 10)) = dec_char (x mod 10)" for x by (rule digit_char_facts(2)) simp
  moreover have "tolower (CHR ''.'') = CHR ''.''" "tolower (char_of (10 :: nat)) = char_of (10 :: nat)" by (simp_all add: tolower_def)
  ultimately have low: "map tolower ?u = ?u" by (simp add: frac6_def)
  have x: "prefixed ''0x'' (show_nat a @ ?u) = None"
  proof (cases s)
    case (Cons d s')
    then have "digit d \<noteq> None" using show_nat_digits [of a] by (simp add: c(1))
    then show ?thesis using digit_char_facts(7) [of d] by (auto simp: c(1) Cons prefixed_def)
  qed (simp add: c(1) prefixed_def)
  have "digits digit 10 0 0 (show_nat a @ ?u) = (a, length (show_nat a), ?u)" by (rule digits_show_nat_rest) (simp add: digit_def)
  then have fr: "scan_fraction digit 10 (show_nat a @ ?u) = (a * 10 ^ 6 + b, 6, length (show_nat a) + 6, [char_of (10 :: nat)])"
    using frac6_digits [OF assms, of a] by (simp add: scan_fraction_def)
  have ex: "scan_exponent ''e'' [char_of (10 :: nat)] = 0" by (simp add: scan_exponent_def sign_def signed_def)
  have "prefixed ''nan'' (show_nat a @ ?u) = None" "prefixed ''inf'' (show_nat a @ ?u) = None" using f by (auto simp: c(1) prefixed_def)
  moreover have "map tolower (show_nat a @ ?u) = show_nat a @ ?u" by (simp only: map_append [of _ "show_nat a"] low tolower_show_nat)
  ultimately show ?thesis using x unfolding scan_lf_def sg Let_def prod.case
    by (simp only: option.case fr prod.case ex) (simp add: scale_rat_def sgn_double_def)
qed

text \<open>
  The calibration is measured once. What the first start of a node without a calibration measures is written to the file, and the next start uses it, rounded
  to six decimals and without measuring again, unless it is 0 when rounded.
\<close>

theorem calibration_reloaded:
  assumes "compute_loops_per_usec clk running = Fin v" "0 \<le> v" "scan_lf (case files (calibration_file home) of None \<Rightarrow> [] | Some t \<Rightarrow> t) = None"
  shows "\<exists>txt. calibrate home files True clk running (Fin 0) = Inr (Fin v, Some (calibration_file home, txt)) \<and>
    (\<forall>cw clk' running' z. rnd (of_int (round_even (v * 10 ^ 6)) / 10 ^ 6) = Fin z \<longrightarrow> z \<noteq> 0 \<longrightarrow>
      calibrate home (files(calibration_file home \<mapsto> txt)) cw clk' running' (Fin 0) = Inr (Fin z, None))"
proof -
  let ?n = "nat (round_even (v * 10 ^ 6))" and ?txt = "fmt_lf (Fin v) @ [char_of (10 :: nat)]"
  have "0 \<le> round_even (v * 10 ^ 6)" using assms(2) by (auto simp: round_even_def Let_def)
  then have n: "of_int (round_even (v * 10 ^ 6)) = (of_nat ?n :: rat)" by simp
  have v: "\<bar>v\<bar> = v" "(v < 0) = False" using assms(2) by simp_all
  have t: "?txt = show_nat (?n div 10 ^ 6) @ ''.'' @ frac6 (?n mod 10 ^ 6) @ [char_of (10 :: nat)]"
    unfolding fmt_lf.simps Let_def by (simp only: v if_False append_assoc append.simps)
  have "scan_lf ?txt = Some (rnd (of_nat ?n / 10 ^ 6))"
    unfolding t by (subst scan_lf_fixed) (simp_all only: div_mult_mod_eq mod_less_divisor zero_less_power zero_less_numeral)
  then have r: "scan_lf ?txt = Some (rnd (of_int (round_even (v * 10 ^ 6)) / 10 ^ 6))" by (simp only: n)
  have "calibrate home files True clk running (Fin 0) = Inr (Fin v, Some (calibration_file home, ?txt))"
    using assms(1,3) by (auto simp: calibrate_def Let_def split: option.splits)
  moreover have "calibrate home (files(calibration_file home \<mapsto> ?txt)) cw clk' running' (Fin 0) = Inr (Fin z, None)"
    if "rnd (of_int (round_even (v * 10 ^ 6)) / 10 ^ 6) = Fin z" "z \<noteq> 0" for cw clk' running' z
    using r that by (simp add: calibrate_def Let_def del: fmt_lf.simps)
  ultimately show ?thesis by blast
qed

text \<open>When the file cannot be opened for writing, the node crashes.\<close>

lemma calibrate_unwritable:
  "files (calibration_file home) = None \<Longrightarrow> calibrate home files False clk running (Fin 0) = Inl Null_Deref"
  by (simp add: calibrate_def Let_def)

lemma calibrated_min:
  assumes "\<And>i. running i" "\<And>i. 0 < to_ulong (ts_sub_ns (clk (Suc i)) (clk i))"
  shows "compute_loops_per_usec clk running =
    ddiv (Fin 1000) (rnd (of_nat (Min ((\<lambda>j. to_ulong (ts_sub_ns (clk (Suc j)) (clk j))) ` {0..<100000}))))"
proof -
  let ?f = "\<lambda>j. to_ulong (ts_sub_ns (clk (Suc j)) (clk j))"
  have "elapsed_min clk running 0 100000 0 = elapsed_min clk running 1 99999 (?f 0)"
    using elapsed_min.simps(2) [of clk running 0 99999 0] assms(1) by (simp add: Let_def)
  also have "\<dots> = Min (insert (?f 0) (?f ` {1..<1 + 99999}))" using assms by (intro elapsed_min_Min)
  also have "insert (?f 0) (?f ` {1..<1 + 99999}) = ?f ` insert 0 {1..<1 + 99999}" by simp
  also have "insert 0 {1..<1 + 99999} = {0..<100000 :: nat}" by (rule set_eqI) (simp, arith)
  finally have e: "elapsed_min clk running 0 100000 0 = Min (?f ` {0..<100000})" .
  have "Min (?f ` {0..<100000}) \<in> ?f ` {0..<100000}" by (intro Min_in) simp_all
  then have "0 < Min (?f ` {0..<100000})" using assms(2) by auto
  then show ?thesis by (simp only: compute_loops_per_usec_def e Let_def if_True)
qed

theorem calibration_reloaded_witness:
  "\<exists>txt. calibrate None (\<lambda>f. None) True (\<lambda>i. \<lparr>tv_sec = 0, tv_nsec = 1000 * int i\<rparr>) (\<lambda>i. True) (Fin 0) = Inr (Fin 1, Some (''./.dw_loops_per_usec'', txt)) \<and>
    calibrate None [''./.dw_loops_per_usec'' \<mapsto> txt] False (\<lambda>i. \<lparr>tv_sec = 0, tv_nsec = 0\<rparr>) (\<lambda>i. True) (Fin 0) = Inr (Fin 1, None)"
proof -
  let ?clk = "\<lambda>i. \<lparr>tv_sec = 0, tv_nsec = 1000 * int i\<rparr>"
  have e: "to_ulong (ts_sub_ns (?clk (Suc j)) (?clk j)) = 1000" for j
    by (simp add: ts_sub_ns_def ts_sub_def ts_borrow.simps Let_def to_ulong_def)
  have f: "(\<lambda>j. to_ulong (ts_sub_ns (?clk (Suc j)) (?clk j))) ` {0..<100000} = {1000}" unfolding e by (simp add: image_constant_conv)
  have r: "rnd 1000 = Fin 1000" "rnd 1 = Fin 1" using rnd_of_int [of 1000] rnd_of_int [of 1] by simp_all
  have "compute_loops_per_usec ?clk (\<lambda>i. True) = ddiv (Fin 1000) (rnd (of_nat (Min {1000})))"
    using calibrated_min [of "\<lambda>i. True" ?clk] unfolding e f by simp
  then have c: "compute_loops_per_usec ?clk (\<lambda>i. True) = Fin 1" using r by simp
  have "rnd (of_int (round_even (1 * 10 ^ 6)) / 10 ^ 6) = Fin 1" using r round_even_of_int [of 1000000] by simp
  moreover have "scan_lf [] = None" by (simp add: scan_lf_def sign_def prefixed_def scan_fraction_def)
  moreover have "calibration_file None = ''./.dw_loops_per_usec''" by (simp add: calibration_file_def)
  ultimately show ?thesis using calibration_reloaded [OF c, of "\<lambda>f. None" None] by fastforce
qed

end
