(* ===== verification/DW_Tls.thy ===== *)
theory DW_Tls
  imports DW_Prelude
begin

text \<open>
  The TLS context, which the node and the client set up in the same way at their start (\<^verbatim>\<open>main\<close> in \<^verbatim>\<open>src/dw_node.c\<close> and in \<^verbatim>\<open>src/dw_client.c\<close>). The OpenSSL library
  is not a part of the program: whether a call succeeds is an argument, and the calls are recorded.
\<close>

datatype ssl_call = SSL_CTX_new | Load_CA string | Load_CA_path string | Use_certificate string | Use_key string | Set_ciphers string
  | Set_verify_peer

text \<open>One of the options: without a text nothing is called.\<close>

definition tls_option :: "(ssl_call \<Rightarrow> bool) \<Rightarrow> (string \<Rightarrow> ssl_call) \<Rightarrow> string option \<Rightarrow> ssl_call list res" where
  "tls_option ok call opt = (case opt of
     None \<Rightarrow> Inr []
   | Some f \<Rightarrow> if f = [] then Inr [] else if ok (call f) then Inr [call f] else Inl Exit_Failure)"

text \<open>The options are given in the order certificate, key, CA, ciphers, CA path.\<close>

definition tls_context :: "(ssl_call \<Rightarrow> bool) \<Rightarrow> string option list \<Rightarrow> bool \<Rightarrow> ssl_call list res" where
  "tls_context ok files verify =
     (if \<not> ok SSL_CTX_new then Inl Exit_Failure
      else
        rbind (tls_option ok Load_CA (files ! 2)) (\<lambda>c1.
        rbind (tls_option ok Load_CA_path (files ! 4)) (\<lambda>c2.
        rbind (tls_option ok Use_certificate (files ! 0)) (\<lambda>c3.
        rbind (tls_option ok Use_key (files ! 1)) (\<lambda>c4.
        rbind (tls_option ok Set_ciphers (files ! 3)) (\<lambda>c5.
          Inr (SSL_CTX_new # c1 @ c2 @ c3 @ c4 @ c5 @ (if verify then [Set_verify_peer] else []))))))))"

text \<open>What the options ask for.\<close>

definition tls_wanted :: "string option list \<Rightarrow> ssl_call list" where
  "tls_wanted files = concat (map (\<lambda>(call, k). case files ! k of None \<Rightarrow> [] | Some f \<Rightarrow> if f = [] then [] else [call f])
     [(Load_CA, 2), (Load_CA_path, 4), (Use_certificate, 0), (Use_key, 1), (Set_ciphers, 3)])"

lemma tls_option_iff:
  "tls_option ok call opt =
     (let w = (case opt of None \<Rightarrow> [] | Some f \<Rightarrow> if f = [] then [] else [call f]) in if list_all ok w then Inr w else Inl Exit_Failure)"
  by (auto simp: tls_option_def split: option.splits)

text \<open>
  The TLS context is set up completely or not at all: the program goes on exactly if every setting that was asked for could be made, and then all of
  them were made, in a fixed order, and the peer is verified exactly if this was asked for.
\<close>

theorem tls_context_complete:
  "tls_context ok files verify =
     (if list_all ok (SSL_CTX_new # tls_wanted files) then Inr (SSL_CTX_new # tls_wanted files @ (if verify then [Set_verify_peer] else []))
      else Inl Exit_Failure)"
  by (auto simp: tls_context_def tls_option_iff tls_wanted_def Let_def)

end
