(* ===== verification/DW_Node_Life.thy ===== *)
theory DW_Node_Life
  imports DW_Startup DW_Compute DW_Tls
begin

text \<open>
  The life of a node: \<^verbatim>\<open>main\<close> in \<^verbatim>\<open>src/dw_node.c\<close>, from the options over the TLS context, devices, calibration, workers and sockets to the start of the
  threads, and the descriptors that are closed at the end.
\<close>

section \<open>Start\<close>

text \<open>What the start needs of the outside: the outcomes of the calls for TLS and of the calibration, beside the ones of \<open>startup_env\<close>.\<close>

record life_env = startup_env +
  ssl_ok :: "ssl_call \<Rightarrow> bool"
  node_files :: "string \<Rightarrow> string option"
  can_write :: bool
  cpu_clock :: "nat \<Rightarrow> timespec"
  still_running :: "nat \<Rightarrow> bool"

definition ssl_enable :: "node_args \<Rightarrow> bool" where
  "ssl_enable a \<longleftrightarrow> list_ex (\<lambda>(addr, pr). pr = TLS) (take (n_bind_addrs a) (bind_addrs a))"

definition node_tls :: "life_env \<Rightarrow> node_args \<Rightarrow> ssl_call list res" where
  "node_tls e a = (if ssl_enable a then tls_context (ssl_ok e) (ssl_files a) (ssl_verify a) else Inr [])"

record started =
  st_args :: node_args
  st_tls :: "ssl_call list"
  st_blk_size :: nat
  st_storage :: "storage_setup list"
  st_written :: "(string \<times> string) option"
  st_listening :: "sock_call list"
  st_workers :: "worker_setup list"
  st_tables :: dw_state

definition node_main :: "life_env \<Rightarrow> node_opt list \<Rightarrow> started res option" where
  "node_main e opts =
     obind (Some (rfold argp_node_parse_opt init_node_args opts)) (\<lambda>a0.
     obind (setup_storage (home e) a0) (\<lambda>a.
     if \<not> (num_threads a > 0 \<and> num_threads a \<le> int MAX_THREADS) then Some (Inl Exit_Failure)
     else let threads = nat (num_threads a); devices = nat (storage_devices a) in
     obind (affinity (startup_env.truncate e) a) (\<lambda>(m, core_it).
     obind (Some (node_tls e a)) (\<lambda>tls.
     obind (Some (init_devices (opens e) (pipes e) devices threads (storage_worker_infos a, zero_workers e))) (\<lambda>(blk, k, sws, cws).
     obind (Some (calibrate (home e) (node_files e) (can_write e) (cpu_clock e) (still_running e) (loops_per_usec a))) (\<lambda>(lps, written).
     obind (init_workers a (worker_envs e) (empty_queue e) m (nproc e) [0..<threads] (core_it, cws)) (\<lambda>(core_it', cws').
     obind (Some (init_listen_socks a (main_thread e) (resolve e) (listens e) ([], req_init (conn_init (zero_tables e)), cws'))) (\<lambda>(calls, tables, cws'').
     obind (pin_devices a m (nproc e) [0..<devices] (core_it', sws)) (\<lambda>(core_it'', sws').
       Some (Inr \<lparr>st_args = a\<lparr>loops_per_usec := lps\<rparr>, st_tls = tls, st_blk_size = blk, st_storage = sws', st_written = written,
                  st_listening = calls, st_workers = cws'', st_tables = tables\<rparr>))))))))))"

section \<open>End\<close>

text \<open>The descriptors that are closed at the end, in this order: \<open>d\<close> devices and \<open>t\<close> workers.\<close>

definition close_pair :: "storage_setup list \<Rightarrow> worker_setup list \<Rightarrow> nat \<Rightarrow> nat \<Rightarrow> int list" where
  "close_pair sws cws i j =
     [cw_storefd (cws ! j) i, storefd (sws ! i) j, cw_store_replyfd (cws ! j) i, store_replyfd (sws ! i) j,
      fst (dispatchfd (cws ! j)), snd (dispatchfd (cws ! j))]"

definition close_device :: "storage_setup list \<Rightarrow> worker_setup list \<Rightarrow> nat \<Rightarrow> nat \<Rightarrow> int list" where
  "close_device sws cws t i =
     (if 0 \<le> storage_fd (sws ! i) then storage_fd (sws ! i) # concat (map (close_pair sws cws i) [0..<t]) else [])"

definition shutdown_closes :: "int \<Rightarrow> storage_setup list \<Rightarrow> worker_setup list \<Rightarrow> nat \<Rightarrow> nat \<Rightarrow> int list" where
  "shutdown_closes terminationfd sws cws d t = terminationfd # concat (map (close_device sws cws t) [0..<d])"

section \<open>Descriptors at the end\<close>

definition pipe_ends :: "(nat \<Rightarrow> (int \<times> int) option) \<Rightarrow> nat \<Rightarrow> int multiset" where
  "pipe_ends pps k = (case pps k of None \<Rightarrow> {#} | Some (r, w) \<Rightarrow> {#r, w#})"

definition dispatch_ends :: "worker_setup list \<Rightarrow> nat \<Rightarrow> int multiset" where
  "dispatch_ends cws t = (\<Sum>j<t. {#fst (dispatchfd (cws ! j)), snd (dispatchfd (cws ! j))#})"

lemma mset_concat_upt: "mset (concat (map f [0..<n])) = (\<Sum>i<n. mset (f i))"
  by (induction n) (auto simp: ac_simps)

lemma sum_pairs: "(\<Sum>k<2 * n. f k) = (\<Sum>j<n. f (2 * j) + f (2 * j + 1))" for f :: "nat \<Rightarrow> int multiset"
  by (induction n) (simp_all add: ac_simps)

lemma sum_rows: "(\<Sum>k<n * t. f k) = (\<Sum>i<n. \<Sum>j<t. f (i * t + j))" for f :: "nat \<Rightarrow> int multiset"
proof (induction n)
  case (Suc n)
  have split: "(\<Sum>k<a + b. f k) = (\<Sum>k<a. f k) + (\<Sum>j<b. f (a + j))" for a b by (induction b) (simp_all add: ac_simps)
  show ?case using Suc split [of "n * t" t] by (simp add: add.commute)
qed simp

lemma close_device_ends:
  assumes "\<forall>j < t. paired pps (2 * (i * t + j)) i j sws cws" "0 \<le> storage_fd (sws ! i)"
  shows "mset (close_device sws cws t i) =
    {#storage_fd (sws ! i)#} + (\<Sum>j<t. pipe_ends pps (2 * (i * t + j)) + pipe_ends pps (2 * (i * t + j) + 1)) + dispatch_ends cws t"
proof -
  have "mset (close_pair sws cws i j) = pipe_ends pps (2 * (i * t + j)) + pipe_ends pps (2 * (i * t + j) + 1) +
      {#fst (dispatchfd (cws ! j)), snd (dispatchfd (cws ! j))#}" if "j < t" for j
    using assms(1) that by (simp add: paired_def pipe_ends_def close_pair_def)
  then have "(\<Sum>j<t. mset (close_pair sws cws i j)) =
      (\<Sum>j<t. pipe_ends pps (2 * (i * t + j)) + pipe_ends pps (2 * (i * t + j) + 1)) + dispatch_ends cws t"
    by (simp add: dispatch_ends_def flip: sum.distrib)
  then show ?thesis using assms(2) by (simp add: close_device_def mset_concat_upt)
qed

text \<open>
  Descriptors at the end of a node. Of the pipes between workers and storage threads, as they were opened at the start, both ends are closed exactly
  once, and so are the files of the devices and the termination descriptor; but the descriptors for dispatching connections are closed
  once for each device.
\<close>

theorem shutdown_closes_all:
  assumes "\<forall>i < d. \<forall>j < t. paired pps (2 * (i * t + j)) i j sws cws" "\<forall>i < d. 0 \<le> storage_fd (sws ! i)"
  shows "mset (shutdown_closes terminationfd sws cws d t) =
    {#terminationfd#} + (\<Sum>i<d. {#storage_fd (sws ! i)#}) + (\<Sum>k<2 * (d * t). pipe_ends pps k) + (\<Sum>i<d. dispatch_ends cws t)"
proof -
  let ?p = "\<lambda>k. pipe_ends pps (2 * k) + pipe_ends pps (2 * k + 1)"
  have rows: "(\<Sum>k<2 * (d * t). pipe_ends pps k) = (\<Sum>i<d. \<Sum>j<t. ?p (i * t + j))" by (subst sum_pairs) (rule sum_rows)
  have "(\<Sum>i<d. mset (close_device sws cws t i)) = (\<Sum>i<d. {#storage_fd (sws ! i)#} + (\<Sum>j<t. ?p (i * t + j)) + dispatch_ends cws t)"
    using assms by (intro sum.cong refl close_device_ends) auto
  also have "\<dots> = (\<Sum>i<d. {#storage_fd (sws ! i)#}) + (\<Sum>k<2 * (d * t). pipe_ends pps k) + (\<Sum>i<d. dispatch_ends cws t)"
    by (simp only: rows sum.distrib)
  finally show ?thesis by (simp add: shutdown_closes_def mset_concat_upt)
qed

theorem shutdown_closes_all_witness:
  "\<exists>sws cws. mset (shutdown_closes 3 sws cws 1 1) = {#3#} + {#7#} + ({#10, 11#} + {#12, 13#}) + dispatch_ends cws 1"
proof -
  let ?p = "\<lambda>k. Some (int (10 + 2 * k), int (11 + 2 * k))"
  let ?sws = "[sample_device\<lparr>storage_fd := 7, storefd := (\<lambda>_. 10), store_replyfd := (\<lambda>_. 13)\<rparr>]"
  let ?cws = "[blank_worker\<lparr>cw_storefd := (\<lambda>_. 11), cw_store_replyfd := (\<lambda>_. 12)\<rparr>]"
  have "\<forall>i < 1. \<forall>j < 1. paired ?p (2 * (i * 1 + j)) i j ?sws ?cws" "\<forall>i < 1. 0 \<le> storage_fd (?sws ! i)" by (auto simp: paired_def)
  note e = shutdown_closes_all [OF this, of 3]
  have "(\<Sum>k<Suc (Suc 0). pipe_ends ?p k) = {#10, 11#} + {#12, 13#}" by (simp only: sum.lessThan_Suc) (simp add: pipe_ends_def)
  then have "(\<Sum>k<2 * (1 * 1). pipe_ends ?p k) = {#10, 11#} + {#12, 13#}" by (simp only: mult_1_right numeral_2_eq_2)
  moreover have one: "(\<Sum>i<1. f i) = f 0" for f :: "nat \<Rightarrow> int multiset" by (simp only: One_nat_def sum.lessThan_Suc lessThan_0 sum.empty add_0)
  moreover have "{#storage_fd (?sws ! 0)#} = {#7#}" by simp
  ultimately have "mset (shutdown_closes 3 ?sws ?cws 1 1) = {#3#} + {#7#} + ({#10, 11#} + {#12, 13#}) + dispatch_ends ?cws 1"
    unfolding e one by (simp only:)
  then show ?thesis by blast
qed

end
