(* ===== verification/DW_Show.thy ===== *)
theory DW_Show
  imports DW_Distrib_Parse DW_Ccmd DW_Log
begin

text \<open>
  The printed form of values, distributions and templates: \<^verbatim>\<open>pd_str\<close> in \<^verbatim>\<open>src/distrib.c\<close> and \<^verbatim>\<open>ccmd_log\<close> in \<^verbatim>\<open>src/ccmd.c\<close>, which the client prints at its
  start. The conversion \<^verbatim>\<open>%g\<close> of the C library is written out for binary64 numbers; the sign of a zero and of a NaN is not a part of
  \<open>double\<close>, they are printed without one.
\<close>

section \<open>The conversion of numbers\<close>

definition pow10 :: "int \<Rightarrow> rat" where
  "pow10 e = (if 0 \<le> e then 10 ^ nat e else 1 / 10 ^ nat (- e))"

text \<open>
  The decimal exponent of a positive number. The least positive number of the type is above \<open>10 ^ -324\<close>, so that 400 steps are enough to find the first
  digit of a number below 1 (theorem \<open>sig6_close\<close>).
\<close>

fun neg_exp :: "nat \<Rightarrow> int \<Rightarrow> rat \<Rightarrow> int" where
  "neg_exp n e x = (if n = 0 \<or> 1 \<le> x * 10 then e else neg_exp (n - 1) (e - 1) (x * 10))"

declare neg_exp.simps [simp del]

definition dec_exp :: "rat \<Rightarrow> int" where
  "dec_exp x = (if 1 \<le> x then int (length (show_nat (nat \<lfloor>x\<rfloor>))) - 1 else neg_exp 400 (-1) x)"

text \<open>Six significant digits as a number, and the exponent after rounding.\<close>

definition sig6 :: "rat \<Rightarrow> nat \<times> int" where
  "sig6 x = (let e = dec_exp x; d = nat (round_even (x * pow10 (5 - e))) in if d = 10 ^ 6 then (10 ^ 5, e + 1) else (d, e))"

definition fraction :: "string \<Rightarrow> string" where
  "fraction s = (let t = rev (dropWhile (\<lambda>c. c = CHR ''0'') (rev s)) in if t = [] then [] else CHR ''.'' # t)"

definition fmt_g_pos :: "rat \<Rightarrow> string" where
  "fmt_g_pos x = (let (d, e) = sig6 x; ds = show_nat d in
     if -4 \<le> e \<and> e < 6 then
       (if 0 \<le> e then take (nat e + 1) ds @ fraction (drop (nat e + 1) ds)
        else ''0'' @ fraction (replicate (nat (- e) - 1) (CHR ''0'') @ ds))
     else take 1 ds @ fraction (drop 1 ds) @ ''e'' @ (if e < 0 then ''-'' else ''+'') @
       (let es = show_nat (nat \<bar>e\<bar>) in if length es < 2 then CHR ''0'' # es else es))"

fun fmt_g :: "double \<Rightarrow> string" where
  "fmt_g NaN = ''nan''"
| "fmt_g (Inf neg) = (if neg then ''-inf'' else ''inf'')"
| "fmt_g (Fin x) = (if x = 0 then ''0'' else if x < 0 then ''-'' @ fmt_g_pos (- x) else fmt_g_pos x)"

section \<open>Distributions\<close>

text \<open>\<^verbatim>\<open>pd_str\<close> writes into an array of 64 characters without regard to its size.\<close>

definition pd_kind_text :: "pd_spec_t \<Rightarrow> string res" where
  "pd_kind_text p = (case prob p of
     PD_NONE \<Rightarrow> Inr ''none''
   | FIXED \<Rightarrow> Inr (fmt_g (pd_val p))
   | UNIF \<Rightarrow> Inr ''unif:''
   | EXPON \<Rightarrow> Inr (''exp:'' @ fmt_g (pd_val p))
   | NORM \<Rightarrow> Inr (''norm:'' @ fmt_g (pd_val p))
   | LOGNORM \<Rightarrow> Inr (''lognorm:'' @ fmt_g (pd_val p))
   | GAMMA \<Rightarrow> (let scale = ddiv (dmul (pd_std p) (pd_std p)) (pd_val p) in
       rbind (lrint (ddiv (pd_val p) scale)) (\<lambda>l.
         Inr (''gamma:'' @ fmt_g (pd_val p) @ '',k='' @ show_int (i32 l) @ '',scale='' @ fmt_g scale)))
   | SFILE \<Rightarrow> (case samples p of
       [] \<Rightarrow> Inl Out_Of_Bounds
     | x # _ \<Rightarrow> Inr (''file:num_samples='' @ show_nat (num_samples p) @ '',[0]='' @ fmt_g x))
   | _ \<Rightarrow> Inr (''seq:step='' @ fmt_g (pd_std p)))"

definition pd_text :: "pd_spec_t \<Rightarrow> string res" where
  "pd_text p = rbind (pd_kind_text p) (\<lambda>s. Inr (s @
     (if prob p \<noteq> FIXED \<and> prob p \<noteq> ARITH_SEQ \<and> prob p \<noteq> GEO_SEQ \<and> \<not> isnan (pd_std p) then '',std='' @ fmt_g (pd_std p) else []) @
     (if \<not> isnan (pd_min p) then '',min='' @ fmt_g (pd_min p) else []) @
     (if \<not> isnan (pd_max p) then '',max='' @ fmt_g (pd_max p) else [])))"

definition pd_str :: "pd_spec_t \<Rightarrow> string res" where
  "pd_str p = rbind (pd_text p) (\<lambda>s. if length s < 64 then Inr s else Inl Out_Of_Bounds)"

section \<open>Templates\<close>

text \<open>
  The options of a node. \<^verbatim>\<open>pd_str\<close> returns the same static array each time, so where it is called twice for one \<^verbatim>\<open>sprintf\<close>, both texts are the one of
  the call that is evaluated last; C leaves open which one that is (\<open>size_last\<close>: the call for the size).
\<close>

definition hex2 :: "nat \<Rightarrow> string" where
  "hex2 n = (let h = (\<lambda>d. if d < 10 then dec_char d else char_of (87 + d)) in [h (n div 16 mod 16), h (n mod 16)])"

definition mac_text :: "fwd_opts_t \<Rightarrow> string" where
  "mac_text f = (let h = fwd_host f; p = fwd_port f in
     hex2 (h mod 256) @ '':'' @ hex2 (h div 2 ^ 8 mod 256) @ '':'' @ hex2 (h div 2 ^ 16 mod 256) @ '':'' @ hex2 (h div 2 ^ 24 mod 256) @ '':'' @
     hex2 (p mod 256) @ '':'' @ hex2 (p div 256 mod 256))"

definition ccmd_url :: "fwd_opts_t \<Rightarrow> string" where
  "ccmd_url f = (if proto f = 3 then ''dpdk://'' @ mac_text f else fwd_url f)"

definition node_text :: "bool \<Rightarrow> ccmd_node_t \<Rightarrow> string res" where
  "node_text size_last n = (let size = pd_str (cpd_val n);
       both = rbind size (\<lambda>v. rbind (pd_str (cpd_val2 n)) (\<lambda>w. Inr (if size_last then v else w))) in
     case ccmd n of
       STORE \<Rightarrow> rbind both (\<lambda>x.
         Inr (''dev='' @ fmt_d (s_dev_id (cstore n)) @ '','' @ x @ ''b,'' @ (if wait_sync (cstore n) \<noteq> 0 then ''sync'' else ''nosync'') @
           '',offset='' @ x))
     | COMPUTE \<Rightarrow> rbind size (\<lambda>v. Inr (v @ ''us''))
     | LOAD \<Rightarrow> rbind both (\<lambda>x. Inr (''dev='' @ fmt_d (l_dev_id (cload n)) @ '','' @ x @ ''b,offset='' @ x))
     | PSKIP \<Rightarrow> if dlt (pd_val (cpd_val n)) (Fin 1) then rbind size (\<lambda>v. Inr (show_int (n_skip n) @ '',prob='' @ v)) else Inr (show_int (n_skip n))
     | FORWARD_BEGIN \<Rightarrow> rbind size (\<lambda>v. Inr (ccmd_url (cfwd n) @ '','' @ v @ ''b,retries='' @ fmt_d (retries (cfwd n)) @ '',timeout='' @
         fmt_d (timeout (cfwd n)) @ '',branched='' @ fmt_d (branched (cfwd n)) @ '',nack='' @ fmt_d (n_ack (cfwd n))))
     | FORWARD_CONTINUE \<Rightarrow> rbind size (\<lambda>v. Inr (ccmd_url (cfwd n) @ '','' @ v @ ''b''))
     | REPLY \<Rightarrow> rbind size (\<lambda>v.
         Inr (v @ ''b, mode='' @ (if mode (cresp n) \<noteq> 0 then ''sendfile'' else ''normal'') @ '', dev='' @ fmt_d (r_dev_id (cresp n))))
     | _ \<Rightarrow> Inl Exit_Failure)"

text \<open>The options of a node go into an array of 128 characters.\<close>

definition node_entry :: "bool \<Rightarrow> ccmd_node_t \<Rightarrow> string res" where
  "node_entry size_last n =
     rbind (node_text size_last n) (\<lambda>opts. if \<not> length opts < 128 then Inl Out_Of_Bounds
       else rbind (get_command_name (ccmd n)) (\<lambda>name. Inr (name @ ''('' @ opts @ '')'')))"

partial_function (option) ccmd_log_loop :: "bool \<Rightarrow> ccmd_t \<Rightarrow> int \<Rightarrow> string \<Rightarrow> string res option" where
  "ccmd_log_loop size_last s itr out =
     (if \<not> queue_itr_has_next (cqueue s) itr then Some (Inr out)
      else case rbind (queue_itr_next (cqueue s) itr) (\<lambda>(p, itr'). rbind (queue_node_data (cqueue s) p) (\<lambda>a.
             rbind (cnode (cnodes s) a) (\<lambda>n. rbind (node_entry size_last n) (\<lambda>t. Inr (t, itr'))))) of
        Inl e \<Rightarrow> Some (Inl e)
      | Inr (t, itr') \<Rightarrow> ccmd_log_loop size_last s itr' (out @ t @ (if queue_itr_has_next (cqueue s) itr' then ''->'' else [])))"

definition ccmd_log :: "bool \<Rightarrow> ccmd_t \<Rightarrow> string res option" where
  "ccmd_log size_last s =
     map_option (\<lambda>r. rbind r (\<lambda>t. Inr (t @ [char_of (10 :: nat)]))) (ccmd_log_loop size_last s (queue_itr_begin (cqueue s)) [])"

section \<open>Six significant digits\<close>

lemma length_show_nat: "0 < n \<Longrightarrow> 10 ^ (length (show_nat n) - 1) \<le> n \<and> n < 10 ^ length (show_nat n)"
proof (induction n rule: show_nat.induct)
  case (1 n)
  show ?case
  proof (cases "n < 10")
    case True
    then show ?thesis using 1 by (simp add: show_nat.simps [of n])
  next
    case False
    let ?l = "length (show_nat (n div 10))"
    have IH: "10 ^ (?l - 1) \<le> n div 10" "n div 10 < 10 ^ ?l" using 1 False by auto
    have l: "length (show_nat n) = Suc ?l" "0 < ?l" using False show_nat_hd [of "n div 10"] by (auto simp: show_nat.simps [of n])
    have "(10 :: nat) ^ ?l = 10 * 10 ^ (?l - 1)" using l(2) by (simp add: power_eq_if)
    then have "10 ^ ?l \<le> 10 * (n div 10)" using IH(1) by simp
    moreover have "10 * (n div 10) \<le> n" by simp
    moreover have "n < 10 * (n div 10 + 1)" by simp
    then have "n < 10 * 10 ^ ?l" using IH(2) by linarith
    ultimately show ?thesis by (simp add: l(1))
  qed
qed

lemma pow10_add: "pow10 (a + b) = pow10 a * pow10 b"
proof -
  have p: "pow10 e = 10 powi e" for e by (simp add: pow10_def power_int_def field_simps)
  show ?thesis by (simp add: p power_int_add)
qed

lemma pow10_pos [simp]: "0 < pow10 e"
  by (simp add: pow10_def)

lemma pow10_nat: "pow10 (int k) = 10 ^ k"
  by (simp add: pow10_def)

lemma dec_exp_ge:
  assumes "1 \<le> x"
  shows "pow10 (dec_exp x) \<le> x \<and> x < pow10 (dec_exp x + 1)"
proof -
  define n where "n = nat \<lfloor>x\<rfloor>"
  have n: "0 < n" "of_nat n \<le> x" "x < of_nat n + 1" using assms by (auto simp: n_def le_floor_iff) linarith+
  define l where "l = length (show_nat n) - 1"
  have l: "length (show_nat n) = Suc l" using show_nat_hd [of n] by (cases "show_nat n") (auto simp: l_def)
  have "of_nat (10 ^ l) \<le> (of_nat n :: rat)" using length_show_nat [OF n(1)] by (simp only: of_nat_le_iff l diff_Suc_1)
  moreover have "of_nat (n + 1) \<le> (of_nat (10 ^ Suc l) :: rat)" using length_show_nat [OF n(1)] by (simp only: of_nat_le_iff l Suc_eq_plus1 [symmetric] Suc_le_eq)
  moreover have "dec_exp x = int l" "dec_exp x + 1 = int (Suc l)" using assms l by (simp_all add: dec_exp_def flip: n_def)
  ultimately show ?thesis using n by (simp only: pow10_nat of_nat_power of_nat_numeral of_nat_add of_nat_1) linarith
qed

lemma neg_exp_bounds:
  assumes "1 \<le> x * 10 ^ n" "0 < x" "x < 1"
  shows "\<exists>j. neg_exp n e x = e - int j \<and> 1 \<le> x * 10 ^ Suc j \<and> x * 10 ^ j < 1"
  using assms
proof (induction n arbitrary: e x)
  case 0
  then show ?case by simp
next
  case (Suc n)
  show ?case
  proof (cases "1 \<le> x * 10")
    case True
    then show ?thesis using Suc.prems by (intro exI [of _ 0]) (simp add: neg_exp.simps [of "Suc n"])
  next
    case False
    then have "\<exists>j. neg_exp n (e - 1) (x * 10) = e - 1 - int j \<and> 1 \<le> (x * 10) * 10 ^ Suc j \<and> (x * 10) * 10 ^ j < 1"
      using Suc.prems by (intro Suc.IH) (simp_all add: mult.assoc)
    then obtain j where "neg_exp n (e - 1) (x * 10) = e - 1 - int j" "1 \<le> (x * 10) * 10 ^ Suc j" "(x * 10) * 10 ^ j < 1" by blast
    then show ?thesis using False by (intro exI [of _ "Suc j"]) (simp add: neg_exp.simps [of "Suc n"] mult.assoc)
  qed
qed

lemma dec_exp_less:
  assumes "1 / 10 ^ 400 \<le> x" "x < 1"
  shows "pow10 (dec_exp x) \<le> x \<and> x < pow10 (dec_exp x + 1)"
proof -
  define m :: nat where "m = 400"
  have m: "1 / 10 ^ m \<le> x" using assms(1) by (simp only: m_def)
  then have "0 < x" by (rule less_le_trans [rotated]) simp
  moreover have "1 \<le> x * 10 ^ m" using m by (simp add: field_simps)
  ultimately obtain j where j: "neg_exp m (-1) x = -1 - int j" "1 \<le> x * 10 ^ Suc j" "x * 10 ^ j < 1"
    using neg_exp_bounds [of x m "-1"] assms(2) by blast
  then have e: "dec_exp x + 1 = - int j" "dec_exp x = - int (Suc j)" using assms(2) unfolding dec_exp_def m_def by simp_all
  have p: "pow10 (- int i) = 1 / 10 ^ i" for i by (auto simp: pow10_def)
  have "pow10 (dec_exp x) = 1 / 10 ^ Suc j" unfolding e(2) by (rule p)
  moreover have "pow10 (dec_exp x + 1) = 1 / 10 ^ j" unfolding e(1) by (rule p)
  ultimately show ?thesis using j(2,3) by (simp add: pos_divide_le_eq pos_less_divide_eq)
qed

lemma round_even_close: "\<bar>of_int (round_even x) - x\<bar> \<le> 1 / 2"
proof -
  have "of_int \<lfloor>x\<rfloor> \<le> x" "x < of_int \<lfloor>x\<rfloor> + 1" by linarith+
  then show ?thesis by (auto simp: round_even_def Let_def abs_le_iff)
qed

lemma round_even_between:
  assumes "of_int a \<le> x" "x < of_int b"
  shows "a \<le> round_even x \<and> round_even x \<le> b"
proof -
  have "of_int (a - 1) < (of_int (round_even x) :: rat)" using round_even_close [of x, unfolded abs_le_iff] assms(1) by simp
  moreover have "of_int (round_even x) < (of_int (b + 1) :: rat)" using round_even_close [of x, unfolded abs_le_iff] assms(2) by simp
  ultimately show ?thesis by (simp only: of_int_less_iff) linarith
qed

lemma dec_exp_bounds:
  assumes "1 / 10 ^ 400 \<le> x"
  shows "pow10 (dec_exp x) \<le> x \<and> x < pow10 (dec_exp x + 1)"
  using dec_exp_ge [of x] dec_exp_less [OF assms] by (cases "1 \<le> x") auto

text \<open>
  Accuracy of \<^verbatim>\<open>%g\<close>: for every number above the range of denormal numbers (and all of these), the digits that are printed form a number of exactly six
  digits, and this number at the printed exponent differs from the value by at most half a unit of the sixth digit.
\<close>

theorem sig6_close:
  assumes "1 / 10 ^ 400 \<le> x"
  shows "case sig6 x of (d, e) \<Rightarrow> 10 ^ 5 \<le> d \<and> d < 10 ^ 6 \<and> \<bar>of_nat d * pow10 (e - 5) - x\<bar> \<le> pow10 (e - 5) / 2"
proof -
  let ?e = "dec_exp x"
  define y where "y = x * pow10 (5 - ?e)"
  define d where "d = round_even y"
  have p: "pow10 (?e + i) * pow10 (5 - ?e) = pow10 (i + 5)" for i by (simp flip: pow10_add)
  have c: "pow10 (5 - ?e) * pow10 (?e - 5) = 1" by (simp flip: pow10_add) (simp add: pow10_def)
  have "pow10 ?e * pow10 (5 - ?e) \<le> y" "y < pow10 (?e + 1) * pow10 (5 - ?e)"
    using dec_exp_bounds [OF assms] by (simp_all add: y_def mult_right_mono mult_strict_right_mono)
  then have y: "of_int 100000 \<le> y" "y < of_int 1000000" using p [of 0] p [of 1] by (simp_all add: pow10_def)
  have d: "100000 \<le> d" "d \<le> 1000000" using round_even_between [OF y] by (simp_all add: d_def)
  have x: "x = y * pow10 (?e - 5)" using c by (simp add: y_def mult.assoc)
  have close: "\<bar>of_int d * pow10 (?e - 5) - x\<bar> \<le> pow10 (?e - 5) / 2"
  proof -
    have "of_int d * pow10 (?e - 5) - x = (of_int d - y) * pow10 (?e - 5)" using x by (simp add: left_diff_distrib)
    then have "\<bar>of_int d * pow10 (?e - 5) - x\<bar> = \<bar>of_int d - y\<bar> * pow10 (?e - 5)" by (simp add: abs_mult abs_of_pos)
    also have "\<dots> \<le> 1 / 2 * pow10 (?e - 5)" using round_even_close [of y] by (intro mult_right_mono) (simp_all add: d_def less_imp_le)
    finally show ?thesis by simp
  qed
  show ?thesis
  proof (cases "d = 1000000")
    case True
    have s: "pow10 (?e - 4) = 10 * pow10 (?e - 5)" using pow10_add [of 1 "?e - 5"] by (simp add: pow10_def)
    have "sig6 x = (100000, ?e + 1)" using True by (simp add: sig6_def Let_def d_def y_def)
    moreover have "\<bar>100000 * pow10 (?e - 4) - x\<bar> \<le> pow10 (?e - 4) / 2"
      using close pow10_pos [of "?e - 5"] by (simp only: True s)
    ultimately show ?thesis by simp
  next
    case False
    have n: "nat d \<noteq> 1000000" using False d by simp
    then have "sig6 x = (nat d, ?e)" by (simp add: sig6_def Let_def d_def y_def)
    moreover have "100000 \<le> nat d" "nat d < 1000000" using d False by linarith+
    ultimately show ?thesis using close d by simp
  qed
qed

lemma floor_fraction [simp]: "\<lfloor>numeral a / numeral b :: rat\<rfloor> = numeral a div numeral b"
  using floor_divide_of_int_eq [where 'a = rat, of "numeral a" "numeral b"] by simp

theorem sig6_close_witness: "sig6 (1 / 3) = (333333, -1) \<and> \<bar>333333 * pow10 (-6) - 1 / 3\<bar> \<le> pow10 (-6) / 2"
proof -
  have "sig6 (1 / 3) = (333333, -1)"
    by (simp add: sig6_def dec_exp_def pow10_def round_even_def Let_def neg_exp.simps)
  then show ?thesis using sig6_close [of "1 / 3"] by simp
qed

lemma dec_chars:
  "dec_char 0 = CHR ''0''" "dec_char (Suc 0) = CHR ''1''" "dec_char 1 = CHR ''1''" "dec_char 2 = CHR ''2''" "dec_char 3 = CHR ''3''" "dec_char 4 = CHR ''4''"
  "dec_char 5 = CHR ''5''" "dec_char 6 = CHR ''6''" "dec_char 7 = CHR ''7''" "dec_char 8 = CHR ''8''" "dec_char 9 = CHR ''9''"
  by code_simp+

lemmas fmt_g_eval = fmt_g_pos_def sig6_def dec_exp_def pow10_def round_even_def Let_def neg_exp.simps show_nat.simps dec_chars fraction_def

lemma fmt_g_examples:
  "fmt_g (Fin 2500) = ''2500''" "fmt_g (Fin (1234567)) = ''1.23457e+06''" "fmt_g (Fin (- 1 / 8)) = ''-0.125''" "fmt_g (Fin (1 / 100000)) = ''1e-05''"
  by (simp_all add: fmt_g_eval)

lemma show_nat_shift: "0 < n \<Longrightarrow> show_nat (n * 10 ^ k) = show_nat n @ replicate k (CHR ''0'')"
proof (induction k)
  case (Suc k)
  have "0 < n * 10 ^ k" using Suc.prems by simp
  then have "show_nat (n * 10 ^ k * 10) = show_nat (n * 10 ^ k) @ [CHR ''0'']" by (simp add: show_nat.simps [of "n * 10 ^ k * 10"] dec_chars)
  then show ?case using Suc by (simp add: mult.assoc mult.commute [of "10 :: nat"] flip: replicate_append_same)
qed simp

text \<open>Natural numbers of at most six digits are printed by \<^verbatim>\<open>%g\<close> the way \<^verbatim>\<open>%d\<close> prints them.\<close>

lemma fmt_g_nat:
  assumes "n < 10 ^ 6"
  shows "fmt_g (Fin (of_nat n)) = show_nat n"
proof (cases "n = 0")
  case True
  then show ?thesis by (simp add: show_nat.simps dec_chars)
next
  case False
  define l where "l = length (show_nat n) - 1"
  have l: "length (show_nat n) = Suc l" using show_nat_hd [of n] by (cases "show_nat n") (auto simp: l_def)
  have b: "10 ^ l \<le> n" "n < 10 ^ Suc l" using length_show_nat [of n] False by (simp_all add: l)
  have "(10 :: nat) ^ l < 10 ^ 6" using b(1) assms by (rule le_less_trans)
  then have l6: "l < 6" using power_less_imp_less_exp [of "10 :: nat" l 6] by simp
  have e: "dec_exp (of_nat n) = int l" using False l by (simp add: dec_exp_def)
  have p: "pow10 (5 - int l) = of_nat (10 ^ (5 - l))" using l6 by (simp add: pow10_def nat_diff_distrib)
  have "of_nat n * pow10 (5 - int l) = of_int (int (n * 10 ^ (5 - l)))" unfolding p by simp
  then have d: "round_even (of_nat n * pow10 (5 - int l)) = int (n * 10 ^ (5 - l))" by (simp only: round_even_of_int)
  have "n * 10 ^ (5 - l) < 10 ^ Suc l * 10 ^ (5 - l)" using b(2) by simp
  also have "\<dots> = (10 :: nat) ^ 6" using l6 by (simp flip: power_add power_Suc)
  finally have "sig6 (of_nat n) = (n * 10 ^ (5 - l), int l)" by (simp add: sig6_def e d Let_def del: of_nat_mult of_nat_power)
  then show ?thesis using False l6 by (simp add: fmt_g_pos_def show_nat_shift l fraction_def)
qed

section \<open>The template as it is printed\<close>

fun arrows :: "string list \<Rightarrow> string" where
  "arrows [] = []"
| "arrows [t] = t"
| "arrows (t # ts) = t @ ''->'' @ arrows ts"

lemma data_stack:
  assumes "stack_inv q" "int i < qsize q"
  shows "queue_node_data q (Some (int i)) = Inr (snd (contents q ! i))"
proof -
  have "ring_pos q i = i" using assms by (intro stack_pos) (auto simp: stack_inv_def)
  then show ?thesis using assms by (auto simp: queue_node_data_def node_deref_def stack_inv_def contents_nth)
qed

definition entries :: "bool \<Rightarrow> ccmd_t \<Rightarrow> string list \<Rightarrow> bool" where
  "entries z s ts \<longleftrightarrow> list_all2 (\<lambda>a t. a < length (cnodes s) \<and> node_entry z (cnodes s ! a) = Inr t) (ptrs s) ts"

lemma ccmd_log_loop_step:
  assumes "stack_inv (cqueue s)" "entries z s ts" "int i < qsize (cqueue s)"
  shows "\<exists>itr'. ccmd_log_loop z s (int i) out =
      ccmd_log_loop z s itr' (out @ ts ! i @ (if int i + 1 < qsize (cqueue s) then ''->'' else [])) \<and>
    (if int i + 1 < qsize (cqueue s) then itr' = int i + 1 else \<not> queue_itr_has_next (cqueue s) itr')"
proof -
  let ?q = "cqueue s"
  obtain itr' where n: "queue_itr_next ?q (int i) = Inr (Some (int i), itr')"
      "if int i + 1 < qsize ?q then itr' = int i + 1 else \<not> queue_itr_has_next ?q itr'"
    using itr_next_stack [OF assms(1,3)] by blast
  have "i < length (ptrs s)" using length_ptrs [OF assms(1)] assms(3) by simp
  then have "cnode (cnodes s) (snd (contents ?q ! i)) = Inr (cnodes s ! (ptrs s ! i))" "node_entry z (cnodes s ! (ptrs s ! i)) = Inr (ts ! i)"
    using assms(2) by (auto simp: entries_def list_all2_conv_all_nth cnode_def ptrs_def)
  moreover have "queue_itr_has_next ?q itr' \<longleftrightarrow> int i + 1 < qsize ?q"
    using n(2) has_next_stack [OF assms(1), of "Suc i"] by (auto simp: add.commute split: if_splits)
  ultimately show ?thesis using n assms
    by (intro exI [of _ itr']) (subst ccmd_log_loop.simps, simp add: has_next_stack data_stack)
qed

lemma ccmd_log_loop_stack:
  assumes "stack_inv (cqueue s)" "entries z s ts" "int i < qsize (cqueue s)"
  shows "ccmd_log_loop z s (int i) out = Some (Inr (out @ arrows (drop i ts)))"
  using assms(3)
proof (induction "nat (qsize (cqueue s)) - i" arbitrary: i out)
  case 0
  then show ?case by simp
next
  case (Suc m)
  have len: "int (length ts) = qsize (cqueue s)"
    using assms(2) length_ptrs [OF assms(1)] by (auto simp: entries_def dest: list_all2_lengthD)
  have d: "drop i ts = ts ! i # drop (Suc i) ts" using Suc.prems len by (intro Cons_nth_drop_Suc [symmetric]) simp
  obtain itr' where st: "ccmd_log_loop z s (int i) out =
      ccmd_log_loop z s itr' (out @ ts ! i @ (if int i + 1 < qsize (cqueue s) then ''->'' else []))"
    "if int i + 1 < qsize (cqueue s) then itr' = int i + 1 else \<not> queue_itr_has_next (cqueue s) itr'"
    using ccmd_log_loop_step [OF assms(1,2) Suc.prems] by blast
  show ?case
  proof (cases "int i + 1 < qsize (cqueue s)")
    case True
    then have "ccmd_log_loop z s (int (Suc i)) out' = Some (Inr (out' @ arrows (drop (Suc i) ts)))" for out'
      using Suc.hyps(2) by (intro Suc.hyps(1)) auto
    moreover have "drop (Suc i) ts \<noteq> []" using True len by simp
    then have "arrows (drop i ts) = ts ! i @ ''->'' @ arrows (drop (Suc i) ts)" unfolding d by (cases "drop (Suc i) ts") auto
    ultimately show ?thesis using True st by (simp add: add.commute)
  next
    case False
    then have "drop (Suc i) ts = []" using len by simp
    moreover have "ccmd_log_loop z s itr' (out @ ts ! i) = Some (Inr (out @ ts ! i))" using False st(2) by (subst ccmd_log_loop.simps) simp
    ultimately show ?thesis using False st(1) d by simp
  qed
qed

text \<open>
  The printed template: when the queue was only enqueued at its tail and every node has a printed form, \<^verbatim>\<open>ccmd_log\<close> terminates and
  prints the forms of all nodes of the queue, in their order, with an arrow between two of them and none after the last.
\<close>

theorem ccmd_log_complete:
  assumes "stack_inv (cqueue s)" "entries z s ts"
  shows "ccmd_log z s = Some (Inr (arrows ts @ [char_of (10 :: nat)]))"
proof (cases "qsize (cqueue s) = 0")
  case True
  then have "ts = []" using assms(2) length_ptrs [OF assms(1)] by (auto simp: entries_def)
  moreover have "ccmd_log_loop z s (queue_itr_begin (cqueue s)) [] = Some (Inr [])"
    using True by (subst ccmd_log_loop.simps) (simp add: queue_itr_has_next_def queue_itr_begin_def)
  ultimately show ?thesis by (simp add: ccmd_log_def)
next
  case False
  then have "int 0 < qsize (cqueue s)" "queue_itr_begin (cqueue s) = int 0"
    using assms(1) by (auto simp: stack_inv_def queue_itr_begin_def)
  then show ?thesis using ccmd_log_loop_stack [OF assms, of 0 "[]"] by (simp add: ccmd_log_def)
qed

theorem ccmd_log_complete_witness:
  "ccmd_log z sample_chain = Some (Inr (''COMPUTE(1000us)->REPLY(64b, mode=normal, dev=0)'' @ [char_of (10 :: nat)]))"
proof -
  have i: "stack_inv (cqueue sample_chain)" "ptrs sample_chain = [0, 1]"
    by (simp_all add: sample_chain_def stack_inv_def ptrs_def contents_def ring_pos_def upt_rec)
  have f [simp]: "fmt_g (Fin 1000) = ''1000''" "fmt_g (Fin 64) = ''64''" by (simp_all add: fmt_g_eval)
  have p: "pd_str (pd_build_fixed (Fin 1000)) = Inr ''1000''" "pd_str (pd_build_fixed (Fin 64)) = Inr ''64''"
    by (simp_all add: pd_str_def pd_text_def pd_kind_text_def pd_build_fixed_def pd_zero_def isnan_def f del: fmt_g.simps)
  have "fmt_d 0 = ''0''" by (simp add: fmt_d_def show_int_def show_nat.simps dec_chars)
  then have "node_entry z (cnodes sample_chain ! 0) = Inr ''COMPUTE(1000us)''"
      "node_entry z (cnodes sample_chain ! 1) = Inr ''REPLY(64b, mode=normal, dev=0)''"
    by (simp_all add: node_entry_def node_text_def sample_chain_def calloc_node_def p)
  then have "entries z sample_chain [''COMPUTE(1000us)'', ''REPLY(64b, mode=normal, dev=0)'']"
    by (simp add: entries_def i) (simp add: sample_chain_def)
  from ccmd_log_complete [OF i(1) this] show ?thesis by simp
qed

section \<open>Printed forms that are not the ones that are read\<close>

text \<open>
  The buffer of \<^verbatim>\<open>pd_str\<close> is exceeded by specifications that the parser accepts.
\<close>

lemma pd_str_overflow:
  "pd_str (pd_blank\<lparr>prob := NORM, pd_val := Fin 1234567, pd_std := Fin 1234567, pd_min := Fin (-1234567), pd_max := Fin 1234567\<rparr>) = Inl Out_Of_Bounds"
  by (simp add: pd_str_def pd_text_def pd_kind_text_def pd_blank_def isnan_def fmt_g_eval)

text \<open>
  A template that loads 64 bytes at the offset 4096 is printed with one number at both places, whatever the order of evaluation.
\<close>

lemma load_printed_wrong:
  "node_text z (calloc_node\<lparr>ccmd := LOAD, cpd_val := pd_build_fixed (Fin 64), cpd_val2 := pd_build_fixed (Fin 4096)\<rparr>) =
     Inr (if z then ''dev=0,64b,offset=64'' else ''dev=0,4096b,offset=4096'')"
proof -
  have [simp]: "fmt_g (Fin 64) = ''64''" "fmt_g (Fin 4096) = ''4096''" by (simp_all add: fmt_g_eval)
  have "pd_str (pd_build_fixed (Fin 64)) = Inr ''64''" "pd_str (pd_build_fixed (Fin 4096)) = Inr ''4096''"
    by (simp_all add: pd_str_def pd_text_def pd_kind_text_def pd_build_fixed_def pd_zero_def isnan_def del: fmt_g.simps)
  then show ?thesis by (simp add: node_text_def calloc_node_def fmt_d_def show_int_def show_nat.simps dec_chars)
qed

text \<open>
  The bounds of a distribution are printed after a comma, as the help text writes them, but the parser separates them by a colon: the printed form of an
  exponential distribution with a minimum is accepted, and the minimum is lost.
\<close>

lemma sscanf_skips_prefix:
  "c \<noteq> CHR ''m'' \<Longrightarrow> c \<noteq> CHR ''s'' \<Longrightarrow> c \<noteq> CHR ''k'' \<Longrightarrow> c \<noteq> CHR ''a'' \<Longrightarrow>
   pfx \<in> set [''min='', ''max='', ''std='', ''k='', ''scale='', ''avg=''] \<Longrightarrow> sscanf_unit (c # s) pfx it = Inr None"
  by (auto simp: sscanf_unit_def sscanf_fmt_def prefixed_def)

theorem printed_bounds_lost:
  assumes "n < 10 ^ 6" "m < 10 ^ 6"
  defines "p \<equiv> pd_blank\<lparr>prob := EXPON, pd_val := Fin (of_nat n)\<rparr>"
  shows "\<exists>s. pd_str (p\<lparr>pd_min := Fin (of_nat m)\<rparr>) = Inr s \<and> pd_parse lm fs s = Inr p"
proof -
  let ?t = "show_nat n @ '',min='' @ show_nat m"
  let ?s = "''exp:'' @ ?t"
  have len: "length (show_nat k) \<le> 6" if k: "k < 10 ^ 6" for k
  proof (rule ccontr)
    assume "\<not> length (show_nat k) \<le> 6"
    then have "(10 :: nat) ^ 6 \<le> 10 ^ (length (show_nat k) - 1)" by (intro power_increasing) auto
    moreover have "0 < k" using calculation \<open>\<not> length (show_nat k) \<le> 6\<close> by (cases k) (auto simp: show_nat.simps)
    ultimately show False using length_show_nat [of k] k by linarith
  qed
  have "pd_str (p\<lparr>pd_min := Fin (of_nat m)\<rparr>) = Inr ?s"
    using len [OF assms(1)] len [OF assms(2)] fmt_g_nat [OF assms(1)] fmt_g_nat [OF assms(2)]
    by (simp add: pd_str_def pd_text_def pd_kind_text_def p_def pd_blank_def isnan_def del: fmt_g.simps)
  moreover have "pd_parse lm fs ?s = Inr p"
  proof -
    have "set ?t \<inter> set '':'' = {}" using show_nat_no_colon [of n] show_nat_no_colon [of m] by auto
    then have toks: "split_at '':'' ?s = [''exp'', ?t]" using split_at_append [of "''exp''" "'':''" "CHR '':''" ?t] split_at_last [of ?t] by simp
    obtain c r where c: "show_nat n = c # r" "digit c \<noteq> None" using show_nat_hd [of n] by (cases "show_nat n") auto
    have "c \<noteq> CHR ''m''" "c \<noteq> CHR ''s''" "c \<noteq> CHR ''k''" "c \<noteq> CHR ''a''" using c(2) by (auto simp: digit_def)
    then have no: "sscanf_unit ?t pfx False = Inr None" if "pfx \<in> set [''min='', ''max='', ''std='', ''k='', ''scale='', ''avg='']" for pfx
      unfolding c(1) append_Cons using that by (rule sscanf_skips_prefix)
    have "scan_lf ?t = Some (rnd (of_nat n))" by (rule scan_lf_show_nat) (auto simp: digit_def tolower_def)
    moreover have "rnd (of_nat n) = Fin (of_nat n)" using rnd_of_int [of "int n"] assms(1) by simp
    moreover have "digit (last ?t) \<noteq> None" using show_nat_last [of m] show_nat_hd [of m] by simp
    then have "last ?t \<noteq> l" if "l \<in> set ''kKmMgGs''" for l using that by (auto simp: digit_def)
    ultimately have yes: "sscanf_unit ?t '''' False = Inr (Some (Fin (of_nat n)))"
      by (simp add: sscanf_unit_def sscanf_fmt_def prefixed_def Let_def)
    have tok: "pd_token False ?t st = Inr (st\<lparr>pp := (pp st)\<lparr>pd_val := Fin (of_nat n)\<rparr>\<rparr>)" if "prob (pp st) = EXPON" for st
      using that by (simp add: pd_token_def try_scan_def no yes on_pp_def del: append.simps)
    define t where "t = ?t"
    have f: "pd_first False ''exp'' = Inr (pd_blank\<lparr>prob := EXPON\<rparr>)" by (simp add: pd_first_def kind_of_def)
    have "pd_checks p" by (simp add: pd_checks_def p_def pd_blank_def isnan_def)
    moreover have "pd_load fs st = Inr st" "pd_defaults lm st = p" if "pp st = p" for st
      using that by (simp_all add: pd_load_def pd_defaults_def defaults_defs p_def pd_blank_def)
    ultimately show ?thesis
      unfolding pd_parse_def pd_parse_internal_def toks using tok unfolding t_def [symmetric]
      by (simp add: f Let_def) (simp add: p_def pd_blank_def)
  qed
  ultimately show ?thesis by blast
qed

end
