(* ===== verification/DW_Client_Run.thy ===== *)
theory DW_Client_Run
  imports DW_Client_Main DW_Show DW_Tls
begin

text \<open>
  The start of the client after its options (\<^verbatim>\<open>main\<close> in \<^verbatim>\<open>src/dw_client.c\<close>, in the build without \<^verbatim>\<open>DPDK_ENABLED\<close>): the TLS context, the output file, the seed
  and the configuration that is printed.
\<close>

definition ln :: "string \<Rightarrow> string" where
  "ln s = s @ [char_of (10 :: nat)]"

definition flag :: "bool \<Rightarrow> string" where
  "flag b = (if b then ''1'' else ''0'')"

text \<open>The lines about the output file and, with TLS, about the files of the context.\<close>

definition output_text :: "output_cfg \<Rightarrow> string" where
  "output_text oc = (case output_file oc of
     None \<Rightarrow> []
   | Some f \<Rightarrow> ln (''  output_file: '' @ f @ '', format='' @ (if output_format oc = OUTPUT_FORMAT_CSV then ''csv'' else ''txt'') @ '', header='' @
       flag (output_header oc) @ '', sep='' @ [CHR 39, output_sep oc, CHR 39]))"

definition tls_text :: "client_settings \<Rightarrow> string" where
  "tls_text s =
     (if cs_proto s = TLS then ln ''  SSL/TLS is enabled.'' @
        concat (map (\<lambda>(name, k). case ssl_files s ! k of None \<Rightarrow> [] | Some f \<Rightarrow> if f = [] then [] else ln (''  '' @ name @ '': '' @ f))
          [(''ssl_ca'', 2), (''ssl_cert'', 0), (''ssl_key'', 1), (''ssl_ciphers'', 3), (''ssl_ca_path'', 4)])
      else [])"

text \<open>The size of the reply in the last node of the template.\<close>

definition resp_text :: "ccmd_t \<Rightarrow> string res" where
  "resp_text c = rbind (ccmd_last c) (\<lambda>p. case p of None \<Rightarrow> Inl Null_Deref | Some a \<Rightarrow> rbind (cnode (cnodes c) a) (\<lambda>n. pd_str (cpd_val n)))"

definition config_text :: "bool \<Rightarrow> client_settings \<Rightarrow> string res option" where
  "config_text size_last s =
     (let c = chain_of (cs_args s) in
      obind (Some (rbind (pd_str (cs_period_us_pd s)) (\<lambda>period. rbind (pd_str (cs_rate_pd s)) (\<lambda>rate.
        rbind (pd_str (cs_pkt_size_pd s)) (\<lambda>size. rbind (resp_text c) (\<lambda>resp. Inr (period, rate, size, resp))))))) (\<lambda>(period, rate, size, resp).
      obind (ccmd_log size_last c) (\<lambda>template.
        Some (Inr (ln ''Configuration:'' @ ln (''  clienthost='' @ clienthostport s) @ ln (''  serverhost='' @ nodehostport s) @
          ln (''  num_threads: '' @ show_int (num_threads s)) @ ln (''  num_pkts='' @ show_nat (unat (cs_num_pkts s))) @
          ln (''  period='' @ period @ ''us'') @ ln (''  waitspin='' @ flag (cs_use_wait_spinning s)) @ ln (''  rate='' @ rate) @
          ln (''  rate_step_secs='' @ fmt_d (cs_ramp_step_secs s)) @
          ln (''  pkt_size='' @ size @ '' (+'' @ show_int TCPIP_HEADERS_SIZE @ '' for headers)'') @
          ln (''  resp_size='' @ resp @ '' (+'' @ show_int TCPIP_HEADERS_SIZE @ '' with headers)'') @
          ln (''  min packet size due to header: send='' @ show_int MIN_SEND_SIZE @ '', reply='' @ show_int MIN_REPLY_SIZE) @
          ln (''  max packet size: '' @ show_nat BUF_SIZE) @ ln (''  no_delay: '' @ show_int (no_delay s)) @
          ln (''  num_sessions: '' @ show_int (num_sessions s)) @ ln (''  use_per_session_output: '' @ flag (cs_per_session_output s)) @
          ln (''  num_conn_retries: '' @ show_int (cs_conn_retry_num s) @ '' (retry_period: '' @ show_int (conn_retry_period_ms s) @ '' ms)'') @
          ln (''  seed: '' @ show_int (seed s)) @ output_text (cs_output s) @ ''  request template: '' @ template @ tls_text s)))))"

text \<open>
  The start up to the threads: the settings they use, the calls for TLS, and the printed text. \<open>can_open\<close> and \<open>has_memory\<close> say whether the output file can be
  opened and the arrays of the \<open>t\<close>-th thread can be allocated, \<open>now\<close> is the time in seconds.
\<close>

definition client_start ::
    "(ssl_call \<Rightarrow> bool) \<Rightarrow> (string \<Rightarrow> bool) \<Rightarrow> (nat \<Rightarrow> bool) \<Rightarrow> int \<Rightarrow> bool \<Rightarrow> client_settings \<Rightarrow> (client_settings \<times> ssl_call list \<times> string) res option" where
  "client_start ok can_open has_memory now size_last s =
     (if cs_proto s = DPDK then Some (Inl Exit_Failure)
      else
        let s1 = (if cs_proto s = TLS then s\<lparr>conn_nonblock := True\<rparr> else s) in
        obind (Some (if cs_proto s = TLS then tls_context ok (ssl_files s) (ssl_verify s) else Inr [])) (\<lambda>tls.
        if (case output_file (cs_output s) of None \<Rightarrow> False | Some f \<Rightarrow> \<not> can_open f) then Some (Inl Exit_Failure)
        else
          let s2 = (if seed s1 = -1 then s1\<lparr>seed := i32 now\<rparr> else s1) in
          obind (config_text size_last s2) (\<lambda>text.
          if \<not> list_all has_memory [0..<min 256 (nat (num_threads s2))] then Some (Inl Exit_Failure)
          else Some (Inr (s2, tls, text)))))"

text \<open>
  The start depends on the printed configuration: when the text of the rate does not fit into the static array of \<open>pd_str\<close>, the client does not come
  to send a request.
\<close>

lemma client_start_unprintable:
  assumes "pd_str (cs_rate_pd s) = Inl Out_Of_Bounds" "pd_str (cs_period_us_pd s) = Inr p" "cs_proto s = TCP" "output_file (cs_output s) = None"
  shows "client_start ok can_open has_memory now size_last s = Some (Inl Out_Of_Bounds)"
  using assms by (simp add: client_start_def config_text_def obind_def Let_def)

end
