(* ===== verification/DW_Storage_Loop.thy ===== *)
theory DW_Storage_Loop
  imports DW_Forward
begin

text \<open>
  The storage thread as a whole (\<^verbatim>\<open>storage_worker\<close> in \<^verbatim>\<open>src/dw_node.c\<close>): what it registers at its start, and one round of its loop, which waits for events
  and serves them with \<open>storage_step\<close>.
\<close>

section \<open>Definitions\<close>

text \<open>The period of the sync timer, in milliseconds (an \<^verbatim>\<open>int\<close>).\<close>

definition sync_timer :: "int \<Rightarrow> itimerspec" where
  "sync_timer ms = (let ts = \<lparr>tv_sec = ms sdiv 1000, tv_nsec = (ms smod 1000) * 1000000\<rparr> in \<lparr>it_interval = ts, it_value = ts\<rparr>)"

text \<open>A registration that fails is only reported.\<close>

fun watch_all :: "'k epoll_ctl \<Rightarrow> (int \<times> event_t) list \<Rightarrow> 'k dw_poll_t \<Rightarrow> 'k dw_poll_t res" where
  "watch_all epctl [] p = Inr p"
| "watch_all epctl ((fd, ty) # fds) p =
     rbind (dw_poll_add epctl fd DW_POLLIN (ev_aux ty fd) p) (\<lambda>(rv, p'). watch_all epctl fds p')"

text \<open>
  The start: the queue of waiting stores, the pipes from the connection workers, the termination descriptor, and with a periodic sync its timer
  (\<open>timer\<close> is the result of \<^verbatim>\<open>timerfd_create\<close>, \<open>set_ok\<close> the one of \<^verbatim>\<open>timerfd_settime\<close>). The result has the setting of the timer.
\<close>

definition storage_start ::
    "'k epoll_ctl \<Rightarrow> 'k option \<Rightarrow> dw_poll_type_t \<Rightarrow> bool \<Rightarrow> (nat \<Rightarrow> int node_t) \<Rightarrow> (nat \<Rightarrow> nat) \<Rightarrow> int list \<Rightarrow> int \<Rightarrow> int \<Rightarrow> bool \<Rightarrow>
     storage_worker_info_t \<Rightarrow> ('k dw_poll_t \<times> itimerspec option \<times> storage_worker_info_t) res" where
  "storage_start epctl epollfd poll_mode spin g g' pipes term timer set_ok si =
     (let si1 = si\<lparr>sync_waiting_queue := pqueue_alloc g g' MAX_REQS\<rparr> in
      rbind (dw_poll_init epollfd poll_mode spin) (\<lambda>p.
      rbind (watch_all epctl (map (\<lambda>fd. (fd, STORAGE)) pipes) p) (\<lambda>p1.
      rbind (watch_all epctl [(term, TERMINATION)] p1) (\<lambda>p2.
      if 0 < periodic_sync_msec si then
        if timer < 0 \<or> \<not> set_ok then Inl Exit_Failure
        else rbind (watch_all epctl [(timer, TIMER)] p2) (\<lambda>p3. Inr (p3, Some (sync_timer (periodic_sync_msec si)), si1))
      else Inr (p2, None, si1)))))"

text \<open>
  What is read from a descriptor that is ready: whether the read succeeds, and the request for one of the pipes.
\<close>

record stor_input =
  in_ok :: bool
  in_req :: storage_req_t

definition stor_event :: "(nat \<Rightarrow> stor_input) \<Rightarrow> nat \<Rightarrow> storage_event" where
  "stor_event inp aux =
     (case event_of_num (unat (fst (l2i (word_of_nat aux)))) of
        TERMINATION \<Rightarrow> Ev_Termination
      | TIMER \<Rightarrow> Ev_Timer (in_ok (inp aux))
      | STORAGE \<Rightarrow> Ev_Storage (in_ok (inp aux)) (in_req (inp aux))
      | _ \<Rightarrow> Ev_Unknown)"

text \<open>The inner loop, with a bound on the number of events: the calls in their order, the new state, and whether the thread goes on.\<close>

fun storage_serve ::
    "stor_env \<Rightarrow> (nat \<Rightarrow> stor_input) \<Rightarrow> nat \<Rightarrow> 'k dw_poll_t \<Rightarrow> storage_worker_info_t \<Rightarrow>
     (file_op list \<times> 'k dw_poll_t \<times> storage_worker_info_t \<times> bool) res option" where
  "storage_serve env inp 0 p si = None"
| "storage_serve env inp (Suc j) p si =
     (case dw_poll_next p of
        (None, p') \<Rightarrow> Some (Inr ([], p', si, True))
      | (Some (fl, aux), p') \<Rightarrow>
          obind (storage_step env (stor_event inp aux) si) (\<lambda>(ops, si1, go).
            if \<not> go then Some (Inr (ops, p', si1, False))
            else obind (storage_serve env inp j p' si1) (\<lambda>(ops', rest). Some (Inr (ops @ ops', rest)))))"

definition storage_round ::
    "stor_env \<Rightarrow> (nat \<Rightarrow> stor_input) \<Rightarrow> nat \<Rightarrow> wait_env \<Rightarrow> bool \<Rightarrow> 'k dw_poll_t \<Rightarrow> storage_worker_info_t \<Rightarrow>
     (file_op list \<times> 'k dw_poll_t \<times> storage_worker_info_t \<times> bool) res option" where
  "storage_round env inp j w eintr p si =
     obind (Some (dw_poll_wait w p)) (\<lambda>(nfds, p1).
       if nfds = -1 \<and> \<not> eintr then Some (Inl Exit_Failure) else storage_serve env inp j p1 si)"

section \<open>The start\<close>

lemma sync_timer_period:
  assumes "0 < ms"
  shows "it_interval (sync_timer ms) = it_value (sync_timer ms) \<and> 0 \<le> tv_nsec (it_value (sync_timer ms)) \<and>
    tv_nsec (it_value (sync_timer ms)) < 10 ^ 9 \<and>
    tv_sec (it_value (sync_timer ms)) * 10 ^ 9 + tv_nsec (it_value (sync_timer ms)) = ms * 10 ^ 6"
proof -
  define d r where "d = ms div 1000" and "r = ms mod 1000"
  have "ms sdiv 1000 = d" "ms smod 1000 = r"
    using assms by (simp_all add: signed_divide_int_def signed_modulo_int_def d_def r_def)
  moreover have "ms = d * 1000 + r" by (simp add: d_def r_def)
  moreover have "r < 1000" "0 \<le> r" by (simp_all add: r_def)
  ultimately show ?thesis by (simp add: sync_timer_def Let_def)
qed

lemma watch_all_poll:
  "length fds + length (pollfds q) \<le> MAX_POLLFD \<Longrightarrow>
   watch_all epctl fds \<lparr>use_spinning = spin, u = DW_POLL q\<rparr> = Inr \<lparr>use_spinning = spin, u = DW_POLL (q\<lparr>pollfds := pollfds q @
     map (\<lambda>(fd, ty). \<lparr>pfd = fd, pevents = events_of DW_POLLIN, revents = 0, paux = ev_aux ty fd, pflags = DW_POLLIN\<rparr>) fds\<rparr>)\<rparr>"
  by (induction fds arbitrary: q) (auto simp: dw_poll_add_def poll_add_def)

section \<open>A round\<close>

lemma serve_acks:
  assumes "drain dw_poll_next j p = Some (es, p')" "list_all (\<lambda>(fl, aux). served_event (stor_event inp aux)) es"
    "room_for (length es) si" "fair_env env si"
  shows "\<exists>ops si'. storage_serve env inp j p si = Some (Inr (ops, p', si', True)) \<and>
    mset (acks_of ops) + pq_entries (sync_waiting_queue si') =
      sum_mset (image_mset (\<lambda>(fl, aux). wants_ack (stor_event inp aux)) (mset es)) + pq_entries (sync_waiting_queue si)"
  using assms
proof (induction j arbitrary: p es si)
  case (Suc j)
  obtain r p1 where n: "dw_poll_next p = (r, p1)" by force
  show ?case
  proof (cases r)
    case None
    then show ?thesis using Suc.prems(1) n by auto
  next
    case (Some e)
    obtain fl aux where e: "e = (fl, aux)" by force
    obtain es1 where es: "es = e # es1" "drain dw_poll_next j p1 = Some (es1, p')" using Suc.prems(1) n Some by auto
    obtain ops si1 where st: "storage_step env (stor_event inp aux) si = Some (Inr (ops, si1, True))" "room_for (length es1) si1" "fair_env env si1"
        "mset (acks_of ops) + pq_entries (sync_waiting_queue si1) = wants_ack (stor_event inp aux) + pq_entries (sync_waiting_queue si)"
      using step_acks [of "stor_event inp aux" "length es1" si env] Suc.prems(2-4) es e by auto
    let ?W = "\<lambda>es. sum_mset (image_mset (\<lambda>(fl, aux). wants_ack (stor_event inp aux)) (mset es))"
    let ?E = "\<lambda>si. pq_entries (sync_waiting_queue si)"
    obtain ops2 si2 where sv: "storage_serve env inp j p1 si1 = Some (Inr (ops2, p', si2, True))"
        "mset (acks_of ops2) + ?E si2 = ?W es1 + ?E si1"
      using Suc.IH [OF es(2) _ st(2,3)] Suc.prems(2) es by auto
    have "mset (acks_of (ops @ ops2)) + ?E si2 = mset (acks_of ops) + (?W es1 + ?E si1)" using sv(2) by (simp add: add.assoc)
    also have "\<dots> = ?W es1 + (mset (acks_of ops) + ?E si1)" by (simp add: ac_simps)
    also have "\<dots> = ?W es + ?E si" unfolding st(4) es(1) e by (simp add: ac_simps)
    finally show ?thesis using n Some e st(1) sv(1) by (simp add: obind_def)
  qed
qed simp

lemma ready_events:
  "image_mset f (filter_mset P (mset (map g zs))) = image_mset (\<lambda>z. f (g z)) (filter_mset (\<lambda>z. P (g z)) (mset zs))"
  by (induction zs) auto

text \<open>C11. Requests to a storage thread are neither lost nor answered twice. With the \<^verbatim>\<open>poll()\<close> back end, one round of the loop ends; each request on
  a pipe that is ready is carried out, and the requests that were waiting before, together with the synchronous stores and loads among the new ones, are
  exactly the ones that are acknowledged in the round or wait for the periodic sync after it.
\<close>

theorem storage_round_acks:
  assumes "0 < w_rv w" "length (w_revents w) = length (pollfds q)" "length (pollfds q) < j" "fair_env env si"
    and "room_for (length (pollfds q)) si"
    and "\<forall>(e, r) \<in> set (zip (pollfds q) (w_revents w)). r \<noteq> 0 \<longrightarrow> served_event (stor_event inp (paux e))"
  shows "\<exists>ops p' si'. storage_round env inp j w eintr (\<lparr>use_spinning = spin, u = DW_POLL q\<rparr> :: 'k dw_poll_t) si = Some (Inr (ops, p', si', True)) \<and>
    mset (acks_of ops) + pq_entries (sync_waiting_queue si') = pq_entries (sync_waiting_queue si) +
      (\<Sum>(e, r) \<in># filter_mset (\<lambda>(e, r). r \<noteq> 0) (mset (zip (pollfds q) (w_revents w))). wants_ack (stor_event inp (paux e)))"
proof -
  let ?p = "\<lparr>use_spinning = spin, u = DW_POLL q\<rparr> :: 'k dw_poll_t" and ?z = "mset (zip (pollfds q) (w_revents w))"
  obtain rv p1 where wt: "dw_poll_wait w ?p = Inr (rv, p1)" "rv = w_rv w" by (auto simp: dw_poll_wait_def)
  obtain es p' where es: "drain dw_poll_next j p1 = Some (es, p')"
      "mset es = image_mset (\<lambda>e. (flags_of_revents (revents e), paux e))
        (filter_mset (\<lambda>e. revents e \<noteq> 0) (mset (map (\<lambda>(e, r). e\<lparr>revents := r\<rparr>) (zip (pollfds q) (w_revents w)))))"
    using poll_iteration_complete [OF assms(1,2) wt(1) assms(3)] by (auto simp: Let_def)
  have m: "mset es = image_mset (\<lambda>(e, r). (flags_of_revents r, paux e)) (filter_mset (\<lambda>(e, r). r \<noteq> 0) ?z)"
    unfolding es(2) ready_events by (simp add: case_prod_unfold)
  have "set es = set_mset (mset es)" by simp
  then have "list_all (\<lambda>(fl, aux). served_event (stor_event inp aux)) es" using assms(6) unfolding list_all_iff m by auto
  moreover have "size (mset es) \<le> size ?z" unfolding m size_image_mset by (rule size_filter_mset_lesseq)
  then have "length es \<le> length (pollfds q)" using assms(2) by simp
  then have "room_for (length es) si" using assms(5) by (simp add: room_for_def)
  ultimately obtain ops si' where "storage_serve env inp j p1 si = Some (Inr (ops, p', si', True))"
      "mset (acks_of ops) + pq_entries (sync_waiting_queue si') =
        sum_mset (image_mset (\<lambda>(fl, aux). wants_ack (stor_event inp aux)) (mset es)) + pq_entries (sync_waiting_queue si)"
    using serve_acks [OF es(1) _ _ assms(4)] by blast
  moreover have "image_mset (\<lambda>(fl, aux). wants_ack (stor_event inp aux)) (mset es) =
      image_mset (\<lambda>(e, r). wants_ack (stor_event inp (paux e))) (filter_mset (\<lambda>(e, r). r \<noteq> 0) ?z)"
    unfolding m by (auto simp: multiset.map_comp intro!: image_mset_cong)
  ultimately show ?thesis using wt assms(1) by (auto simp: storage_round_def obind_def add.commute)
qed

text \<open>The thread that was just started, with one pipe that holds a synchronous store.\<close>

theorem storage_round_acks_witness:
  "\<exists>p it si ops p' si'.
     storage_start (\<lambda>op fd fl aux k. (0, k)) (None :: unit option) T_POLL False (\<lambda>i. \<lparr>heap_id = 0, key = 0, data = 0\<rparr>) (\<lambda>i. 0) [5] 6 7 True sample_storage =
       Inr (p, Some it, si) \<and>
     storage_round \<lparr>se_blk = 0, se_seek_ok = True, se_ok = \<lambda>i. True\<rparr>
       (\<lambda>aux. \<lparr>in_ok = True, in_req = \<lparr>worker_id = 3, sreq_id = 77, scmd = S_Store \<lparr>s_offset = 0, store_nbytes = 10, wait_sync = 1, s_dev_id = 0\<rparr>\<rparr>\<rparr>)
       4 \<lparr>w_rv = 1, w_rd = [], w_wr = [], w_revents = [1, 0, 0], w_events = []\<rparr> False p si = Some (Inr (ops, p', si', True)) \<and>
     mset (acks_of ops) + pq_entries (sync_waiting_queue si') = {#(3, 77)#}"
proof -
  let ?g = "\<lambda>i::nat. \<lparr>heap_id = 0, key = 0, data = 0 :: int\<rparr>"
  let ?env = "\<lparr>se_blk = 0, se_seek_ok = True, se_ok = \<lambda>i. True\<rparr>"
  let ?req = "\<lparr>worker_id = 3, sreq_id = 77, scmd = S_Store \<lparr>s_offset = 0, store_nbytes = 10, wait_sync = 1, s_dev_id = 0\<rparr>\<rparr>"
  let ?inp = "\<lambda>aux :: nat. \<lparr>in_ok = True, in_req = ?req\<rparr>"
  let ?w = "\<lparr>w_rv = 1, w_rd = [], w_wr = [], w_revents = [1, 0, 0], w_events = []\<rparr>"
  let ?e = "\<lambda>fd ty. \<lparr>pfd = fd, pevents = events_of DW_POLLIN, revents = 0, paux = ev_aux ty fd, pflags = DW_POLLIN\<rparr>"
  let ?q = "\<lparr>pollfds = [?e 5 STORAGE, ?e 6 TERMINATION, ?e 7 TIMER], p_iter = 0\<rparr>"
  let ?p = "\<lparr>use_spinning = False, u = DW_POLL ?q\<rparr> :: unit dw_poll_t"
  let ?si = "sample_storage\<lparr>sync_waiting_queue := pqueue_alloc ?g (\<lambda>i. 0) MAX_REQS\<rparr>"
  have st: "storage_start (\<lambda>op fd fl aux k. (0, k)) (None :: unit option) T_POLL False ?g (\<lambda>i. 0) [5] 6 7 True sample_storage = Inr (?p, Some (sync_timer 100), ?si)"
    by (simp add: storage_start_def dw_poll_init_def dw_poll_add_def poll_add_def MAX_POLLFD_def sample_storage_def)
  have ev: "stor_event ?inp (ev_aux STORAGE 5) = Ev_Storage True ?req" by (simp add: stor_event_def ev_aux_def l2i_def i2l_def event_of_num_def)
  have pe: "pq_entries (sync_waiting_queue ?si) = {#}" by (simp add: pq_entries_def)
  have "room_for (Suc (Suc (Suc 0))) ?si" by (simp add: room_for_def pq_inv_alloc) (simp add: pqueue_alloc_def MAX_REQS_def)
  moreover have "fair_env ?env ?si" by (simp add: fair_env_def sample_storage_def)
  ultimately have "\<exists>ops p' si'. storage_round ?env ?inp 4 ?w False ?p ?si = Some (Inr (ops, p', si', True)) \<and>
      mset (acks_of ops) + pq_entries (sync_waiting_queue si') = {#(3, 77)#}"
    using storage_round_acks [of ?w ?q 4 ?env ?si ?inp False False] ev pe by simp
  then show ?thesis using st by blast
qed

end
