(* ===== verification/DW_Threads.thy ===== *)
theory DW_Threads
  imports DW_Connection
begin

text \<open>
  The allocation of connections and requests by several threads at the same time. All workers share the tables \<^verbatim>\<open>conns[]\<close> and \<^verbatim>\<open>reqs[]\<close> and
  the code takes no lock: \<^verbatim>\<open>conn_alloc\<close> in \<^verbatim>\<open>src/connection.c\<close> claims an entry by an atomic exchange of its flag \<^verbatim>\<open>busy\<close>, \<^verbatim>\<open>req_alloc\<close> in
  \<^verbatim>\<open>src/request.c\<close> takes a number by an atomic increment and then reads and writes the slot of that number. Here the operations are split at
  their accesses to shared data, and the steps of the threads are interleaved in any order. Any thread may use and free any entry
  at any time: a worker finds the TCP connections of all workers (\<^verbatim>\<open>conn_find_existing\<close>), and finishes requests that others have
  started (\<^verbatim>\<open>handle_forward_reply\<close>, the error path of \<^verbatim>\<open>exec_request\<close>).
\<close>

section \<open>Claims and releases\<close>

text \<open>What the steps of the threads do to a slot of a table: thread \<open>t\<close> claims it, thread \<open>t\<close> gives it back, or neither.\<close>

datatype slot_event = Claim nat nat | Free nat nat | Other

text \<open>The events of a sequence of steps, where \<open>step t s e s'\<close> is a step of thread \<open>t\<close>.\<close>

inductive trace :: "(nat \<Rightarrow> 's \<Rightarrow> slot_event \<Rightarrow> 's \<Rightarrow> bool) \<Rightarrow> 's \<Rightarrow> slot_event list \<Rightarrow> 's \<Rightarrow> bool" for step where
  trace_nil: "trace step s [] s"
| trace_cons: "step t s e s' \<Longrightarrow> trace step s' es s'' \<Longrightarrow> trace step s (e # es) s''"

inductive_cases trace_consE: "trace step s (e # es) s'"

lemma trace_append: "trace step s xs s' \<Longrightarrow> trace step s' ys s'' \<Longrightarrow> trace step s (xs @ ys) s''"
  by (induction rule: trace.induct) (auto intro: trace_cons)

lemma trace_snoc: "trace step s xs s' \<Longrightarrow> step t s' e s'' \<Longrightarrow> trace step s (xs @ [e]) s''"
  by (rule trace_append) (auto intro: trace.intros)

lemma trace_split: "trace step s (xs @ ys) s'' \<Longrightarrow> \<exists>s'. trace step s xs s' \<and> trace step s' ys s''"
proof (induction xs arbitrary: s)
  case (Cons x xs)
  then obtain t s1 where "step t s x s1" "trace step s1 (xs @ ys) s''" by (auto elim: trace_consE)
  with Cons.IH show ?case by (blast intro: trace_cons)
qed (auto intro: trace_nil)

text \<open>
  The contract of both tables: a claim finds the slot unmarked and marks it, and only a thread that gives the slot back removes the mark.
  Then no slot is claimed a second time unless some thread has given it back in between.
\<close>

locale claim_protocol =
  fixes step :: "nat \<Rightarrow> 's \<Rightarrow> slot_event \<Rightarrow> 's \<Rightarrow> bool"
    and marked :: "'s \<Rightarrow> nat \<Rightarrow> bool"
    and aux :: "'s \<Rightarrow> bool"
  assumes claims: "aux s \<Longrightarrow> step t s (Claim u i) s' \<Longrightarrow> \<not> marked s i \<and> marked s' i"
    and stays: "aux s \<Longrightarrow> step t s e s' \<Longrightarrow> marked s i \<Longrightarrow> marked s' i \<or> e = Free t i"
    and aux_step: "aux s \<Longrightarrow> step t s e s' \<Longrightarrow> aux s'"
begin

lemma aux_trace: "trace step s es s' \<Longrightarrow> aux s \<Longrightarrow> aux s'"
  by (induction rule: trace.induct) (auto intro: aux_step)

lemma stays_marked: "trace step s es s' \<Longrightarrow> aux s \<Longrightarrow> marked s i \<Longrightarrow> (\<And>v. Free v i \<notin> set es) \<Longrightarrow> marked s' i"
proof (induction rule: trace.induct)
  case (trace_cons t s e s' es s'')
  have "marked s' i" using stays [OF trace_cons.prems(1) trace_cons.hyps(1) trace_cons.prems(2)] trace_cons.prems(3) [of t] by auto
  then show ?case using trace_cons.IH trace_cons.prems(3) aux_step [OF trace_cons.prems(1) trace_cons.hyps(1)] by auto
qed

lemma claimed_then_freed:
  assumes "trace step s (xs @ Claim u i # ys) s'" "aux s" "\<not> marked s' i"
  shows "\<exists>v. Free v i \<in> set ys"
proof -
  obtain s1 s2 t where s: "trace step s xs s1" "step t s1 (Claim u i) s2" "trace step s2 ys s'"
    using trace_split [OF assms(1)] by (auto elim: trace_consE)
  have "aux s1" using aux_trace [OF s(1) assms(2)] .
  then have "aux s2" "marked s2 i" using aux_step [OF _ s(2)] claims [OF _ s(2)] by auto
  then show ?thesis using stays_marked [OF s(3)] assms(3) by blast
qed

end

section \<open>Connections\<close>

text \<open>
  A thread outside of the two operations, in the loop of \<^verbatim>\<open>conn_alloc\<close> at an entry, with an entry it has claimed, with an entry whose address and
  socket it has stored, or in \<^verbatim>\<open>conn_free\<close> after the flag was cleared.
\<close>

datatype conn_pc = C_Idle | C_Scan nat | C_Fill nat | C_Rest nat proto_t | C_Late nat

definition exchange_busy :: "nat \<Rightarrow> dw_state \<Rightarrow> bool \<times> dw_state" where
  "exchange_busy i s = (busy (conns s i), upd_conn i (busy_update (\<lambda>_. True)) s)"

text \<open>The first three stores of \<^verbatim>\<open>conn_alloc\<close>, after which other threads find the entry, and those that follow.\<close>

definition conn_publish :: "int \<Rightarrow> sockaddr_in \<Rightarrow> proto_t \<Rightarrow> conn_info_t \<Rightarrow> conn_info_t" where
  "conn_publish sk tgt pr c = c\<lparr>c_proto := pr, target := tgt, sock := sk\<rparr>"

definition conn_rest :: "nat \<Rightarrow> proto_t \<Rightarrow> bytes \<Rightarrow> conn_info_t \<Rightarrow> conn_info_t" where
  "conn_rest curr_thread pr b c = c\<lparr>
     status := (if pr = TCP then NOT_INIT else READY), recv_buf := Some b, send_buf := Some b,
     parent_thread := curr_thread, use_ssl := False, ssl := None, ssl_handshake_done := False,
     ssl_is_server := False, curr_recv_buf := 0, curr_proc_buf := 0, curr_recv_size := BUF_SIZE,
     curr_send_buf := 0, curr_send_size := 0, serialize_request := 0\<rparr>"

text \<open>\<^verbatim>\<open>conn_free\<close> up to the store to \<^verbatim>\<open>busy\<close>, and what comes after it.\<close>

definition release_conn :: "nat \<Rightarrow> dw_state \<Rightarrow> dw_state option" where
  "release_conn i s = map_option (upd_conn i (\<lambda>c. (if use_ssl c then c\<lparr>ssl := None\<rparr> else c)
     \<lparr>recv_buf := None, send_buf := None, status := CLOSE, sock := -1, busy := False\<rparr>)) (conn_reset i s)"

definition late_flags :: "nat \<Rightarrow> dw_state \<Rightarrow> dw_state" where
  "late_flags i = upd_conn i (\<lambda>c. c\<lparr>ssl_handshake_done := False, ssl_is_server := False\<rparr>)"

text \<open>
  The steps of a thread. The last two stand for everything else that the code does with the tables: any change of any entry that leaves
  \<^verbatim>\<open>busy\<close> alone, which only \<^verbatim>\<open>conn_alloc\<close> and \<^verbatim>\<open>conn_free\<close> write to, and any change of the requests.
\<close>

inductive conn_step :: "nat \<Rightarrow> dw_state \<times> (nat \<Rightarrow> conn_pc) \<Rightarrow> slot_event \<Rightarrow> dw_state \<times> (nat \<Rightarrow> conn_pc) \<Rightarrow> bool" where
  enter: "w t = C_Idle \<Longrightarrow> conn_step t (s, w) Other (s, w(t := C_Scan 0))"
| lost: "w t = C_Scan i \<Longrightarrow> i < MAX_CONNS \<Longrightarrow> exchange_busy i s = (True, s') \<Longrightarrow> conn_step t (s, w) Other (s', w(t := C_Scan (Suc i)))"
| won: "w t = C_Scan i \<Longrightarrow> i < MAX_CONNS \<Longrightarrow> exchange_busy i s = (False, s') \<Longrightarrow> conn_step t (s, w) (Claim t i) (s', w(t := C_Fill i))"
| full: "w t = C_Scan MAX_CONNS \<Longrightarrow> conn_step t (s, w) Other (s, w(t := C_Idle))"
| no_memory: "w t = C_Fill i \<Longrightarrow> conn_step t (s, w) Other (s, w(t := C_Idle))"
| published: "w t = C_Fill i \<Longrightarrow> conn_step t (s, w) Other (upd_conn i (conn_publish sk tgt pr) s, w(t := C_Rest i pr))"
| filled: "w t = C_Rest i pr \<Longrightarrow> fresh_buf = Inr b \<Longrightarrow> conn_step t (s, w) Other (upd_conn i (conn_rest t pr b) s, w(t := C_Idle))"
| released: "w t = C_Idle \<Longrightarrow> release_conn i s = Some s' \<Longrightarrow> conn_step t (s, w) (Free t i) (s', w(t := C_Late i))"
| cleared: "w t = C_Late i \<Longrightarrow> conn_step t (s, w) Other (late_flags i s, w(t := C_Idle))"
| used: "(\<And>c. busy (f c) = busy c) \<Longrightarrow> conn_step t (s, w) Other (upd_conn i f s, w)"
| requests: "conns s' = conns s \<Longrightarrow> conn_step t (s, w) Other (s', w)"

definition conn_marked :: "dw_state \<times> (nat \<Rightarrow> conn_pc) \<Rightarrow> nat \<Rightarrow> bool" where
  "conn_marked x i \<longleftrightarrow> busy (conns (fst x) i)"

text \<open>Without interruption, the parts are the whole operations, and the loop finds the entry that \<open>conn_alloc\<close> takes.\<close>

lemma conn_free_split: "conn_free (int i) s = map_option (late_flags i) (release_conn i s)"
  by (cases "conn_reset i s") (auto simp: conn_free_def release_conn_def late_flags_def upd_conn_def)

lemma conn_fresh_split: "conn_rest t pr b (conn_publish sk tgt pr c) = conn_fresh t sk tgt pr b b c"
  by (simp add: conn_rest_def conn_publish_def conn_fresh_def)

lemma scan_finds:
  assumes "w t = C_Scan i" "i \<le> j" "j < MAX_CONNS" "\<forall>k. i \<le> k \<and> k < j \<longrightarrow> busy (conns s k)" "\<not> busy (conns s j)"
  shows "\<exists>es. set es \<subseteq> {Other} \<and> trace (\<lambda>_. conn_step t) (s, w) (es @ [Claim t j]) (upd_conn j (busy_update (\<lambda>_. True)) s, w(t := C_Fill j))"
  using assms
proof (induction "j - i" arbitrary: i w)
  case 0
  then have "conn_step t (s, w) (Claim t i) (upd_conn i (busy_update (\<lambda>_. True)) s, w(t := C_Fill i))" by (intro won) (auto simp: exchange_busy_def)
  then have "trace (\<lambda>_. conn_step t) (s, w) [Claim t i] (upd_conn i (busy_update (\<lambda>_. True)) s, w(t := C_Fill i))"
    by (rule trace_cons) (rule trace_nil)
  moreover have "j = i" using 0 by simp
  ultimately show ?case by (intro exI [of _ "[]"]) (simp only: append_Nil set_simps empty_subsetI simp_thms)
next
  case (Suc n)
  have b: "busy (conns s i)" "i < j" and n: "n = j - Suc i" using Suc.hyps(2) Suc.prems by auto
  then have "upd_conn i (busy_update (\<lambda>_. True)) s = s" by (simp add: upd_conn_def fun_upd_idem)
  then have l: "conn_step t (s, w) Other (s, w(t := C_Scan (Suc i)))" using Suc.prems b by (intro lost) (auto simp: exchange_busy_def)
  obtain es where es: "set es \<subseteq> {Other}" "trace (\<lambda>_. conn_step t) (s, w(t := C_Scan (Suc i))) (es @ [Claim t j])
      (upd_conn j (busy_update (\<lambda>_. True)) s, w(t := C_Scan (Suc i), t := C_Fill j))"
    using Suc.hyps(1) [of "Suc i" "w(t := C_Scan (Suc i))"] Suc.prems b n by auto
  then show ?case using trace_cons [of "\<lambda>_. conn_step t", OF l] by (intro exI [of _ "Other # es"]) auto
qed

lemma conns_reset: "conn_reset i s = Some s' \<Longrightarrow> conns s' = conns s"
proof -
  assume "conn_reset i s = Some s'"
  then have "reset_loop (req_list (conns s i)) s = Some s'" by (simp add: conn_reset_def)
  then show ?thesis
  proof (rule reset_loop.raw_induct [rotated])
    fix f t s s'
    assume IH: "\<And>t s s'. f t s = Some s' \<Longrightarrow> conns s' = conns s"
      and eq: "(case t of None \<Rightarrow> Some s | Some r \<Rightarrow> (case req_unlink r s of (x, y) \<Rightarrow> f x y)) = Some s'"
    show "conns s' = conns s"
      using eq IH req_unlink_conns by (cases t) (auto simp: case_prod_unfold)
  qed
qed

lemma busy_release: "release_conn i s = Some s' \<Longrightarrow> busy (conns s' j) \<longleftrightarrow> j \<noteq> i \<and> busy (conns s j)"
  by (cases "j = i") (auto simp: release_conn_def dest: conns_reset)

interpretation ct: claim_protocol conn_step conn_marked "\<lambda>_. True"
proof
  fix s t u i s'
  assume "conn_step t s (Claim u i) s'"
  then show "\<not> conn_marked s i \<and> conn_marked s' i"
    by (cases rule: conn_step.cases) (auto simp: conn_marked_def exchange_busy_def)
next
  fix s t e s' i
  assume "conn_step t s e s'" "conn_marked s i"
  then show "conn_marked s' i \<or> e = Free t i"
  proof (cases rule: conn_step.cases)
    case (used f w s0 j)
    then show ?thesis using \<open>conn_marked s i\<close> by (cases "i = j") (auto simp: conn_marked_def)
  qed (auto simp: conn_marked_def exchange_busy_def late_flags_def conn_publish_def conn_rest_def busy_release upd_conn_def)
qed simp

text \<open>C6. Claims of connections. However the steps of the threads are interleaved, and although every thread may change and free every
  entry of the table at any time, two calls of \<^verbatim>\<open>conn_alloc\<close> are never given the same entry unless it was freed in between: when a thread
  claims an entry that another call has claimed before, the entry is not busy, and some thread has carried out \<^verbatim>\<open>conn_free\<close> of it after the
  earlier claim.
\<close>

theorem conn_claims_apart:
  assumes "trace conn_step (s0, w0) (xs @ Claim u i # ys) (s, w)" "conn_step t (s, w) (Claim t i) (s', w')"
  shows "\<not> busy (conns s i) \<and> busy (conns s' i) \<and> (\<exists>v. Free v i \<in> set ys)"
proof -
  have "\<not> conn_marked (s, w) i \<and> conn_marked (s', w') i" using ct.claims [OF _ assms(2)] by simp
  then show ?thesis using ct.claimed_then_freed [OF assms(1)] by (simp add: conn_marked_def)
qed

text \<open>The entry that a thread has claimed is found by the others before its buffers are there.\<close>

definition free_table :: dw_state where
  "free_table = \<lparr>reqs = \<lambda>_. zero_req\<lparr>req_id := -1\<rparr>, last_reqs = 0, conns = \<lambda>_. \<lparr>c_proto = TCP, sock = -1, status = CLOSE, target = \<lparr>sin_addr = 0, sin_port = 0\<rparr>,
     recv_buf = None, send_buf = None, curr_recv_buf = 0, curr_recv_size = 0, curr_proc_buf = 0, curr_send_buf = 0, curr_send_size = 0,
     file_fd = -1, file_offset = 0, file_remaining = 0, reply_mode = REPLY_MODE_NORMAL, req_list = None, serialize_request = 0, parent_thread = 0,
     busy = False, enable_defrag = True, is_listen = False, use_ssl = False, ssl = None, ssl_handshake_done = False, ssl_is_server = False\<rparr>\<rparr>"

lemma claim_first:
  assumes "\<not> busy (conns s 0)" "w t = C_Idle"
  shows "trace conn_step (s, w) [Other, Claim t 0] (upd_conn 0 (busy_update (\<lambda>_. True)) s, w(t := C_Fill 0))"
proof -
  have a: "conn_step t (s, w) Other (s, w(t := C_Scan 0))" using assms by (intro enter)
  have b: "conn_step t (s, w(t := C_Scan 0)) (Claim t 0) (upd_conn 0 (busy_update (\<lambda>_. True)) s, w(t := C_Fill 0))"
    using won [of "w(t := C_Scan 0)" t 0 s] assms by (simp add: exchange_busy_def MAX_CONNS_def)
  show ?thesis by (rule trace_cons [where step = conn_step, OF a trace_cons [where step = conn_step, OF b trace_nil]])
qed

theorem early_publish_race:
  "\<exists>es s w. trace conn_step (free_table, \<lambda>_. C_Idle) es (s, w) \<and> conn_find_existing 1 \<lparr>sin_addr = 1, sin_port = 2\<rparr> TCP s = 0 \<and>
     send_buf (conns s 0) = None"
proof -
  let ?tgt = "\<lparr>sin_addr = 1, sin_port = 2\<rparr>"
  let ?s1 = "upd_conn 0 (busy_update (\<lambda>_. True)) free_table" and ?w1 = "(\<lambda>_. C_Idle)(0 := C_Fill 0)"
  let ?s2 = "upd_conn 0 (conn_publish 7 ?tgt TCP) ?s1"
  have "trace conn_step (free_table, \<lambda>_. C_Idle) [Other, Claim 0 0] (?s1, ?w1)" by (rule claim_first) (simp_all add: free_table_def)
  moreover have "conn_step 0 (?s1, ?w1) Other (?s2, ?w1(0 := C_Rest 0 TCP))" by (rule published) simp
  ultimately have "trace conn_step (free_table, \<lambda>_. C_Idle) ([Other, Claim 0 0] @ [Other]) (?s2, ?w1(0 := C_Rest 0 TCP))"
    by (rule trace_snoc)
  moreover have "conn_find_existing 1 ?tgt TCP ?s2 = 0"
    using upt_conv_Cons [of 0 MAX_CONNS] by (simp add: conn_find_existing_def conn_find_def conn_publish_def free_table_def MAX_CONNS_def)
  moreover have "send_buf (conns ?s2 0) = None" by (simp add: conn_publish_def free_table_def)
  ultimately show ?thesis by blast
qed

text \<open>A thread that has not yet finished \<^verbatim>\<open>conn_free\<close> resets the TLS flags of the connection that another one has set up in the
  entry since, which loses the flag of a server that has completed its handshake.
\<close>

theorem late_flags_race:
  "\<exists>es s w s' w'. trace conn_step (free_table, \<lambda>_. C_Idle) (es @ [Claim 1 0, Other]) (s, w) \<and> ssl_is_server (conns s 0) \<and>
     conn_step 0 (s, w) Other (s', w') \<and> w 0 = C_Late 0 \<and> \<not> ssl_is_server (conns s' 0)"
proof -
  let ?on = "upd_conn 0 (\<lambda>c. c\<lparr>ssl_handshake_done := True, ssl_is_server := True\<rparr>)" and ?idle = "\<lambda>_ :: nat. C_Idle"
  obtain s1 where s1: "release_conn 0 free_table = Some s1"
    by (simp add: release_conn_def conn_reset_def free_table_def reset_loop.simps)
  let ?w1 = "?idle(0 := C_Late 0)" and ?s2 = "upd_conn 0 (busy_update (\<lambda>_. True)) s1"
  let ?w2 = "?w1(1 := C_Fill 0)"
  have a: "conn_step 0 (free_table, ?idle) (Free 0 0) (s1, ?w1)" using s1 by (intro released) simp
  have b: "trace conn_step (s1, ?w1) [Other, Claim 1 0] (?s2, ?w2)"
    using busy_release [OF s1, of 0] by (intro claim_first) auto
  have c: "conn_step 1 (?s2, ?w2) Other (?on ?s2, ?w2)" by (rule used) simp
  have "trace conn_step (free_table, ?idle) ((Free 0 0 # [Other, Claim 1 0]) @ [Other]) (?on ?s2, ?w2)"
    by (rule trace_snoc [where step = conn_step, OF trace_cons [where step = conn_step, OF a b] c])
  then have "trace conn_step (free_table, ?idle) ([Free 0 0, Other] @ [Claim 1 0, Other]) (?on ?s2, ?w2)" by simp
  moreover have "conn_step 0 (?on ?s2, ?w2) Other (late_flags 0 (?on ?s2), ?w2(0 := C_Idle))" by (intro cleared) simp
  moreover have "ssl_is_server (conns (?on ?s2) 0)" "\<not> ssl_is_server (conns (late_flags 0 (?on ?s2)) 0)" by (simp_all add: late_flags_def)
  moreover have "?w2 0 = C_Late 0" by simp
  ultimately show ?thesis by blast
qed

theorem conn_claims_apart_witness:
  "\<exists>xs ys s w s' w'. trace conn_step (free_table, \<lambda>_. C_Idle) (xs @ Claim 0 0 # ys) (s, w) \<and> conn_step 1 (s, w) (Claim 1 0) (s', w') \<and>
     \<not> busy (conns s 0) \<and> (\<exists>v. Free v 0 \<in> set ys)"
proof -
  let ?idle = "\<lambda>_ :: nat. C_Idle" and ?s1 = "upd_conn 0 (busy_update (\<lambda>_. True)) free_table"
  let ?w1 = "?idle(0 := C_Fill 0)"
  obtain s2 where s2: "release_conn 0 ?s1 = Some s2"
    by (simp add: release_conn_def conn_reset_def free_table_def reset_loop.simps)
  let ?w2 = "?w1(2 := C_Late 0)"
  let ?w3 = "?w2(1 := C_Scan 0)"
  have a: "trace conn_step (free_table, ?idle) [Other, Claim 0 0] (?s1, ?w1)" by (rule claim_first) (simp_all add: free_table_def)
  have b: "conn_step 2 (?s1, ?w1) (Free 2 0) (s2, ?w2)" using s2 by (intro released) simp
  have c: "conn_step 1 (s2, ?w2) Other (s2, ?w3)" by (intro enter) simp
  have "trace conn_step (free_table, ?idle) (([Other, Claim 0 0] @ [Free 2 0]) @ [Other]) (s2, ?w3)"
    by (rule trace_snoc [where step = conn_step, OF trace_snoc [where step = conn_step, OF a b] c])
  then have r: "trace conn_step (free_table, ?idle) ([Other] @ Claim 0 0 # [Free 2 0, Other]) (s2, ?w3)" by simp
  have c: "conn_step 1 (s2, ?w3) (Claim 1 0) (upd_conn 0 (busy_update (\<lambda>_. True)) s2, ?w3(1 := C_Fill 0))"
    using busy_release [OF s2, of 0] by (intro won) (auto simp: exchange_busy_def MAX_CONNS_def)
  from conn_claims_apart [OF r c] r c show ?thesis by blast
qed

section \<open>Requests\<close>

text \<open>A thread outside of \<^verbatim>\<open>req_alloc\<close>, with a number from the counter, or after it has read that the slot of its number is free.\<close>

datatype req_pc = R_Idle | R_Fetched int | R_Checked int

definition fetch_id :: "'a req_table_scheme \<Rightarrow> int \<times> 'a req_table_scheme" where
  "fetch_id s = (last_reqs s, s\<lparr>last_reqs := signed_take_bit 31 (last_reqs s + 1)\<rparr>)"

definition claim_req :: "int \<Rightarrow> 'a req_table_scheme \<Rightarrow> 'a req_table_scheme" where
  "claim_req rid = upd_req (req_slot rid) (\<lambda>q. q\<lparr>req_id := rid, curr_cmd := None, fwd_replies_left := -1, nxt := None, prev := None\<rparr>)"

text \<open>
  The steps of a thread. Any thread may unlink the request of any slot at any time, and change any entry otherwise: only \<^verbatim>\<open>req_alloc\<close> and
  \<^verbatim>\<open>req_unlink\<close> write to \<^verbatim>\<open>req_id\<close>.
\<close>

inductive req_step :: "nat \<Rightarrow> req_table \<times> (nat \<Rightarrow> req_pc) \<Rightarrow> slot_event \<Rightarrow> req_table \<times> (nat \<Rightarrow> req_pc) \<Rightarrow> bool" where
  fetched: "w t = R_Idle \<Longrightarrow> fetch_id s = (rid, s') \<Longrightarrow> req_step t (s, w) Other (s', w(t := R_Fetched rid))"
| taken: "w t = R_Fetched rid \<Longrightarrow> req_id (reqs s (req_slot rid)) \<noteq> -1 \<Longrightarrow> req_step t (s, w) Other (s, w(t := R_Idle))"
| checked: "w t = R_Fetched rid \<Longrightarrow> req_id (reqs s (req_slot rid)) = -1 \<Longrightarrow> req_step t (s, w) Other (s, w(t := R_Checked rid))"
| claimed: "w t = R_Checked rid \<Longrightarrow> req_step t (s, w) (Claim t (req_slot rid)) (claim_req rid s, w(t := R_Idle))"
| unlinked: "w t = R_Idle \<Longrightarrow> req_step t (s, w) (Free t i) (snd (req_unlink i s), w)"
| changed: "(\<And>q. req_id (f q) = req_id q) \<Longrightarrow> req_step t (s, w) Other (upd_req i f s, w)"

lemma req_alloc_split:
  "req_alloc s = (case fetch_id s of (rid, s1) \<Rightarrow>
     if req_id (reqs s1 (req_slot rid)) \<noteq> -1 then (None, s1) else (Some (req_slot rid), claim_req rid s1))"
  by (simp add: req_alloc_def fetch_id_def claim_req_def Let_def)

definition pending :: "req_pc \<Rightarrow> int option" where
  "pending x = (case x of R_Idle \<Rightarrow> None | R_Fetched i \<Rightarrow> Some i | R_Checked i \<Rightarrow> Some i)"

lemma pending_simps [simp]: "pending R_Idle = None" "pending (R_Fetched i) = Some i" "pending (R_Checked i) = Some i"
  by (simp_all add: pending_def)

definition req_marked :: "req_table \<times> (nat \<Rightarrow> req_pc) \<Rightarrow> nat \<Rightarrow> bool" where
  "req_marked x i \<longleftrightarrow> req_id (reqs (fst x) i) \<noteq> -1"

text \<open>
  No thread is so slow that the counter goes once around the table between its fetch and its claim, and the counter has not overflowed.
\<close>

definition timely :: "req_table \<times> (nat \<Rightarrow> req_pc) \<Rightarrow> bool" where
  "timely x \<longleftrightarrow> (\<forall>t rid. pending (snd x t) = Some rid \<longrightarrow> last_reqs (fst x) \<le> rid + int MAX_REQS) \<and>
     0 \<le> last_reqs (fst x) \<and> last_reqs (fst x) < 2 ^ 31 - 1"

definition req_aux :: "req_table \<times> (nat \<Rightarrow> req_pc) \<Rightarrow> bool" where
  "req_aux x \<longleftrightarrow> timely x \<and>
     (\<forall>t rid. pending (snd x t) = Some rid \<longrightarrow> 0 \<le> rid \<and> rid < last_reqs (fst x)) \<and>
     (\<forall>t u rid. pending (snd x t) = Some rid \<longrightarrow> pending (snd x u) = Some rid \<longrightarrow> t = u) \<and>
     (\<forall>t rid. snd x t = R_Checked rid \<longrightarrow> \<not> req_marked x (req_slot rid))"

lemma pending_slots:
  assumes "req_aux x" "pending (snd x t) = Some a" "pending (snd x u) = Some b" "req_slot a = req_slot b"
  shows "t = u"
proof -
  have "last_reqs (fst x) \<le> a + 65536" "last_reqs (fst x) \<le> b + 65536" "0 \<le> a" "a < last_reqs (fst x)" "0 \<le> b" "b < last_reqs (fst x)"
    using assms(1-3) by (auto simp: req_aux_def timely_def MAX_REQS_def)
  moreover have "a mod 65536 = b mod 65536" using assms(4) by (simp add: req_slot_def MAX_REQS_def nat_eq_iff2)
  then have "65536 dvd a - b" by (simp add: mod_eq_dvd_iff)
  then obtain k where "a - b = 65536 * k" by (rule dvdE)
  ultimately have "a = b" by (cases "k = 0") auto
  then show ?thesis using assms(1-3) by (auto simp: req_aux_def)
qed

lemma last_upd_req [simp]: "last_reqs (upd_req i f s) = last_reqs s"
  by (simp add: upd_req_def)

lemma last_reqs_req_unlink: "last_reqs (snd (req_unlink i s)) = last_reqs s"
  by (simp add: req_unlink_def Let_def upd_link_def split: option.splits)

lemma req_aux_checked:
  assumes "req_aux x" "snd x t = R_Checked rid"
  shows "\<not> req_marked x (req_slot rid) \<and> 0 \<le> rid"
proof -
  have "pending (snd x t) = Some rid" using assms(2) by simp
  then show ?thesis using assms unfolding req_aux_def by blast
qed

lemma req_aux_frame:
  assumes "req_aux x" "timely y" "last_reqs (fst x) \<le> last_reqs (fst y)"
    and old: "\<And>u a. u \<noteq> t \<Longrightarrow> pending (snd y u) = Some a \<Longrightarrow> pending (snd x u) = Some a"
    and new: "\<And>a. pending (snd y t) = Some a \<Longrightarrow> pending (snd x t) = Some a \<or> a = last_reqs (fst x) \<and> a < last_reqs (fst y)"
    and free: "\<And>u a. snd y u = R_Checked a \<Longrightarrow> \<not> req_marked y (req_slot a)"
  shows "req_aux y"
proof -
  have range: "0 \<le> a \<and> a < last_reqs (fst x)" if "pending (snd x u) = Some a" for u a using assms(1) that by (auto simp: req_aux_def)
  have one: "u = v" if "pending (snd x u) = Some a" "pending (snd x v) = Some a" for u v a using assms(1) that unfolding req_aux_def by blast
  have from_x: "pending (snd x u) = Some a \<or> u = t \<and> a = last_reqs (fst x) \<and> a < last_reqs (fst y)" if "pending (snd y u) = Some a" for u a
    using that old [of u a] new [of a] by (cases "u = t") auto
  have "0 \<le> last_reqs (fst x)" using assms(1) by (simp add: req_aux_def timely_def)
  then have "0 \<le> a \<and> a < last_reqs (fst y)" if "pending (snd y u) = Some a" for u a
    using from_x [OF that] range [of u a] assms(3) by auto
  moreover have "u = v" if "pending (snd y u) = Some a" "pending (snd y v) = Some a" for u v a
    using from_x [OF that(1)] from_x [OF that(2)] range [of u a] range [of v a] one [of u a v] by auto
  ultimately show ?thesis using assms(2) free unfolding req_aux_def by blast
qed

lemma req_claim_free:
  assumes "req_aux x" "req_step t x (Claim u i) y"
  shows "\<not> req_marked x i \<and> req_marked y i"
  using assms(2)
proof cases
  case (claimed w rid s)
  then have "\<not> req_marked x (req_slot rid) \<and> 0 \<le> rid" using req_aux_checked [OF assms(1), of t rid] by simp
  then show ?thesis using claimed by (auto simp: req_marked_def claim_req_def reqs_upd_req)
qed

lemma req_aux_step:
  assumes aux: "req_aux x" and st: "req_step t x e y" "timely y"
  shows "req_aux y"
  using st(1)
proof cases
  case (fetched w s rid s')
  have "last_reqs s' = last_reqs s + 1" "rid = last_reqs s" "reqs s' = reqs s"
    using fetched aux by (auto simp: req_aux_def timely_def fetch_id_def signed_take_bit_int_eq_self)
  then show ?thesis using fetched st aux req_aux_checked [OF aux]
    by (intro req_aux_frame [of x y t]) (auto simp: req_marked_def split: if_splits)
next
  case (claimed w rid s)
  have "req_slot r \<noteq> req_slot rid" if "w u = R_Checked r" "u \<noteq> t" for u r
    using pending_slots [OF aux, of u r t rid] that claimed by auto
  then show ?thesis using claimed st aux req_aux_checked [OF aux]
    by (intro req_aux_frame [of x y t]) (auto simp: req_marked_def claim_req_def reqs_upd_req split: if_splits)
next
  case (unlinked w s i)
  then show ?thesis using st aux req_aux_checked [OF aux]
    by (intro req_aux_frame [of x y t]) (auto simp: req_marked_def req_id_unlink last_reqs_req_unlink split: if_splits)
next
  case (changed f s i w)
  then show ?thesis using st aux req_aux_checked [OF aux]
    by (intro req_aux_frame [of x y t]) (auto simp: req_marked_def reqs_upd_req split: if_splits)
next
  case (taken w rid s)
  then show ?thesis using st aux req_aux_checked [OF aux]
    by (intro req_aux_frame [of x y t]) (auto simp: req_marked_def split: if_splits)
next
  case (checked w rid s)
  then show ?thesis using st aux req_aux_checked [OF aux]
    by (intro req_aux_frame [of x y t]) (auto simp: req_marked_def split: if_splits)
qed

interpretation rt: claim_protocol "\<lambda>t x e y. req_step t x e y \<and> timely y" req_marked req_aux
proof
  fix x t e y i
  assume aux: "req_aux x" and st: "req_step t x e y \<and> timely y" and m: "req_marked x i"
  from st have "req_step t x e y" by simp
  then show "req_marked y i \<or> e = Free t i"
  proof cases
    case (claimed w rid s)
    then have "0 \<le> rid" using req_aux_checked [OF aux, of t rid] by simp
    then show ?thesis using claimed m by (auto simp: req_marked_def claim_req_def reqs_upd_req)
  qed (use m in \<open>auto simp: req_marked_def fetch_id_def req_id_unlink reqs_upd_req\<close>)
qed (auto intro: req_aux_step dest: req_claim_free)

text \<open>C7. Claims of requests. Every thread may unlink and change every request at any time. As long as no thread is delayed between the
  increment of the counter and its claim while the others make the counter go once around the table, and the counter has not
  overflowed, a call of \<^verbatim>\<open>req_alloc\<close> never takes over the slot of a request that is still in use, however the steps are interleaved:
  when a thread claims a slot, there is no request in it, and if another call has claimed it before, some thread has unlinked that
  request in between. The check and the store of \<^verbatim>\<open>req_alloc\<close> are separate steps here.
\<close>

theorem req_claims_apart:
  assumes "trace (\<lambda>t x e y. req_step t x e y \<and> timely y) (s0, \<lambda>_. R_Idle) es (s, w)" "0 \<le> last_reqs s0" "last_reqs s0 < 2 ^ 31 - 1"
    and "req_step t (s, w) (Claim t i) (s', w')"
  shows "req_id (reqs s i) = -1 \<and> req_id (reqs s' i) \<noteq> -1 \<and> (\<forall>xs u ys. es = xs @ Claim u i # ys \<longrightarrow> (\<exists>v. Free v i \<in> set ys))"
proof -
  have a: "req_aux (s0, \<lambda>_. R_Idle)" using assms(2,3) by (simp add: req_aux_def timely_def)
  then have "req_aux (s, w)" using rt.aux_trace [OF assms(1)] by simp
  then have m: "\<not> req_marked (s, w) i \<and> req_marked (s', w') i" using req_claim_free [OF _ assms(4)] by simp
  moreover have "\<exists>v. Free v i \<in> set ys" if "es = xs @ Claim u i # ys" for xs u ys
    using rt.claimed_then_freed [OF assms(1) [unfolded that] a] m by simp
  ultimately show ?thesis by (auto simp: req_marked_def)
qed

definition free_reqs :: req_table where
  "free_reqs = \<lparr>reqs = \<lambda>_. zero_req\<lparr>req_id := -1\<rparr>, last_reqs = 0\<rparr>"

text \<open>One call of \<^verbatim>\<open>req_alloc\<close> that finds its slot free, without the claim.\<close>

lemma alloc_checked:
  assumes "w t = R_Idle" "req_id (reqs s (req_slot (last_reqs s))) = -1" "0 \<le> last_reqs s" "last_reqs s < 2 ^ 31 - 1"
  shows "req_step t (s, w) Other (s\<lparr>last_reqs := last_reqs s + 1\<rparr>, w(t := R_Fetched (last_reqs s)))"
    "req_step t (s\<lparr>last_reqs := last_reqs s + 1\<rparr>, w(t := R_Fetched (last_reqs s))) Other
       (s\<lparr>last_reqs := last_reqs s + 1\<rparr>, w(t := R_Checked (last_reqs s)))"
proof -
  have "fetch_id s = (last_reqs s, s\<lparr>last_reqs := last_reqs s + 1\<rparr>)"
    using assms(3,4) by (simp add: fetch_id_def signed_take_bit_int_eq_self)
  then show "req_step t (s, w) Other (s\<lparr>last_reqs := last_reqs s + 1\<rparr>, w(t := R_Fetched (last_reqs s)))"
    using assms(1) by (intro fetched)
  show "req_step t (s\<lparr>last_reqs := last_reqs s + 1\<rparr>, w(t := R_Fetched (last_reqs s))) Other
      (s\<lparr>last_reqs := last_reqs s + 1\<rparr>, w(t := R_Checked (last_reqs s)))"
    using checked [of "w(t := R_Fetched (last_reqs s))" t "last_reqs s" "s\<lparr>last_reqs := last_reqs s + 1\<rparr>"] assms(2) by simp
qed

theorem req_claims_apart_witness:
  "\<exists>es s w s' w'. trace (\<lambda>t x e y. req_step t x e y \<and> timely y) (free_reqs, \<lambda>_. R_Idle) es (s, w) \<and> req_step 3 (s, w) (Claim 3 0) (s', w') \<and>
     req_id (reqs s 0) = -1 \<and> req_id (reqs s' 0) \<noteq> -1"
proof -
  let ?R = "\<lambda>t x e y. req_step t x e y \<and> timely y"
  let ?s1 = "free_reqs\<lparr>last_reqs := 1\<rparr>" and ?w = "\<lambda>pc. (\<lambda>_ :: nat. R_Idle)(3 := pc)"
  have slot: "req_slot 0 = 0" by (simp add: req_slot_def)
  have time: "timely (?s1, ?w (R_Fetched 0))" "timely (?s1, ?w (R_Checked 0))" by (simp_all add: timely_def MAX_REQS_def)
  have a: "?R 3 (free_reqs, \<lambda>_. R_Idle) Other (?s1, ?w (R_Fetched 0))" "?R 3 (?s1, ?w (R_Fetched 0)) Other (?s1, ?w (R_Checked 0))"
    using alloc_checked [of "\<lambda>_. R_Idle" 3 free_reqs] time by (simp_all add: free_reqs_def)
  have r: "trace ?R (free_reqs, \<lambda>_. R_Idle) [Other, Other] (?s1, ?w (R_Checked 0))"
    by (rule trace_cons [where step = ?R, OF a(1) trace_cons [where step = ?R, OF a(2) trace_nil]])
  have c: "req_step 3 (?s1, ?w (R_Checked 0)) (Claim 3 0) (claim_req 0 ?s1, (?w (R_Checked 0))(3 := R_Idle))"
    using claimed [of "?w (R_Checked 0)" 3 0 ?s1] slot by simp
  have "0 \<le> last_reqs free_reqs" "last_reqs free_reqs < 2 ^ 31 - 1" by (simp_all add: free_reqs_def)
  from req_claims_apart [OF r this c] r c show ?thesis by blast
qed

text \<open>A thread that is delayed for one turn of the counter takes over the slot of a request that is in use.\<close>

lemma one_turn:
  assumes "w 1 = R_Idle" "\<And>j. req_id (reqs s j) = -1" "0 \<le> last_reqs s" "last_reqs s + int n < 2 ^ 31 - 1"
  shows "\<exists>es s'. trace req_step (s, w) es (s', w) \<and> (\<forall>j. req_id (reqs s' j) = -1) \<and> last_reqs s' = last_reqs s + int n"
  using assms(2-4)
proof (induction n arbitrary: s)
  case 0
  then show ?case by (intro exI [of _ "[]"] exI [of _ s]) (auto intro: trace_nil)
next
  case (Suc n)
  let ?r = "last_reqs s" and ?s1 = "s\<lparr>last_reqs := last_reqs s + 1\<rparr>"
  let ?s3 = "snd (req_unlink (req_slot ?r) (claim_req ?r ?s1))"
  note ab = alloc_checked [of w 1 s, OF assms(1) Suc.prems(1,2)]
  have c: "req_step 1 (?s1, w(1 := R_Checked ?r)) (Claim 1 (req_slot ?r)) (claim_req ?r ?s1, w)"
    using claimed [of "w(1 := R_Checked ?r)" 1 ?r ?s1] assms(1) by (simp add: fun_upd_idem)
  have d: "req_step 1 (claim_req ?r ?s1, w) (Free 1 (req_slot ?r)) (?s3, w)" using assms(1) by (intro unlinked)
  note one = trace_cons [where step = req_step]
  have t: "trace req_step (s, w) [Other, Other, Claim 1 (req_slot ?r), Free 1 (req_slot ?r)] (?s3, w)"
    using Suc.prems by (intro one [OF ab(1) one [OF ab(2) one [OF c one [OF d trace_nil]]]]) auto
  have "\<And>j. req_id (reqs ?s3 j) = -1" "last_reqs ?s3 = last_reqs s + 1"
    using Suc.prems(1) by (auto simp: req_id_unlink claim_req_def reqs_upd_req last_reqs_req_unlink)
  then obtain es s' where "trace req_step (?s3, w) es (s', w)" "\<forall>j. req_id (reqs s' j) = -1" "last_reqs s' = last_reqs s + 1 + int n"
    using Suc.IH [of ?s3] Suc.prems(2,3) by auto
  with trace_append [OF t] show ?case by fastforce
qed

theorem slow_thread_race:
  "\<exists>es s w s' w'. trace req_step (free_reqs, \<lambda>_. R_Idle) es (s, w) \<and> last es = Claim 1 0 \<and> req_id (reqs s 0) = 65536 \<and>
     req_step 0 (s, w) (Claim 0 0) (s', w') \<and> req_id (reqs s' 0) = 0"
proof -
  let ?s1 = "free_reqs\<lparr>last_reqs := 1\<rparr>" and ?c = "(\<lambda>_ :: nat. R_Idle)(0 := R_Checked 0)"
  note one = trace_cons [where step = req_step]
  have slot: "req_slot 0 = 0" "req_slot 65536 = 0" by (simp_all add: req_slot_def MAX_REQS_def)
  have a: "trace req_step (free_reqs, \<lambda>_. R_Idle) [Other, Other] (?s1, ?c)"
    using one [OF alloc_checked(1) one [OF alloc_checked(2) trace_nil], of "\<lambda>_. R_Idle" 0 free_reqs] by (simp add: free_reqs_def)
  obtain es s2 where s2: "trace req_step (?s1, ?c) es (s2, ?c)" "\<And>j. req_id (reqs s2 j) = -1" "last_reqs s2 = 65536"
    using one_turn [of ?c ?s1 65535] by (auto simp: free_reqs_def)
  let ?s3 = "s2\<lparr>last_reqs := 65537\<rparr>"
  have b: "req_step 1 (s2, ?c) Other (?s3, ?c(1 := R_Fetched 65536))" "req_step 1 (?s3, ?c(1 := R_Fetched 65536)) Other (?s3, ?c(1 := R_Checked 65536))"
    using alloc_checked [of ?c 1 s2] s2(2,3) by simp_all
  have c: "req_step 1 (?s3, ?c(1 := R_Checked 65536)) (Claim 1 0) (claim_req 65536 ?s3, ?c(1 := R_Idle))"
    using claimed [of "?c(1 := R_Checked 65536)" 1 65536 ?s3] slot by simp
  have "trace req_step (free_reqs, \<lambda>_. R_Idle) (([Other, Other] @ es) @ [Other, Other, Claim 1 0]) (claim_req 65536 ?s3, ?c(1 := R_Idle))"
    by (rule trace_append [OF trace_append [OF a s2(1)] one [OF b(1) one [OF b(2) one [OF c trace_nil]]]])
  moreover have "req_step 0 (claim_req 65536 ?s3, ?c(1 := R_Idle)) (Claim 0 0) (claim_req 0 (claim_req 65536 ?s3), ?c(1 := R_Idle, 0 := R_Idle))"
    using claimed [of "?c(1 := R_Idle)" 0 0 "claim_req 65536 ?s3"] slot by simp
  moreover have "last (([Other, Other] @ es) @ [Other, Other, Claim 1 0]) = Claim 1 0" by simp
  moreover have "req_id (reqs (claim_req 65536 ?s3) 0) = 65536" "req_id (reqs (claim_req 0 (claim_req 65536 ?s3)) 0) = 0"
    using slot by (simp_all add: claim_req_def reqs_upd_req)
  ultimately show ?thesis by blast
qed

end
