(* ===== verification/DW_Dpdk.thy ===== *)
theory DW_Dpdk
  imports DW_Address DW_Affinity DW_Memory
begin

text \<open>
  The transport over raw Ethernet frames: \<^verbatim>\<open>src/dw_dpdk.h\<close> and \<^verbatim>\<open>src/dw_dpdk.c\<close>. The DPDK library is not a part of the program; what its functions return is
  an argument, and the calls that the program makes are recorded. Of a packet buffer (\<^verbatim>\<open>struct rte_mbuf\<close>) the program uses the bytes of its data and
  the two lengths; they start with an Ethernet header: destination, source, and the type in network byte order.
\<close>

section \<open>Frames\<close>

record mbuf =
  m_data :: bytes
  data_len :: nat
  pkt_len :: nat

definition sizeof_ether_hdr :: nat where "sizeof_ether_hdr = 14"

definition DW_ETHERTYPE :: nat where "DW_ETHERTYPE = 0x88B5"

definition dpdk_get_payload_ptr :: "mbuf \<Rightarrow> nat" where
  "dpdk_get_payload_ptr m = sizeof_ether_hdr"

definition dpdk_set_payload_len :: "nat \<Rightarrow> mbuf \<Rightarrow> mbuf" where
  "dpdk_set_payload_len n m = m\<lparr>data_len := (sizeof_ether_hdr + n) mod 2 ^ 16, pkt_len := (sizeof_ether_hdr + n) mod 2 ^ 32\<rparr>"

definition dpdk_extract_src_mac :: "mbuf \<Rightarrow> bytes res" where
  "dpdk_extract_src_mac m = slice (m_data m) 6 6"

text \<open>The first argument is the result of \<^verbatim>\<open>rte_pktmbuf_alloc\<close>, the second one the address of the port.\<close>

definition dpdk_alloc_tx_mbuf :: "mbuf option \<Rightarrow> bytes \<Rightarrow> bytes \<Rightarrow> mbuf option res" where
  "dpdk_alloc_tx_mbuf alloc port_local_mac dest_mac =
     (case alloc of
        None \<Rightarrow> Inr None
      | Some m \<Rightarrow>
          rbind (slice dest_mac 0 6) (\<lambda>d. rbind (blit (m_data m) 0 d) (\<lambda>b1.
          rbind (slice port_local_mac 0 6) (\<lambda>s. rbind (blit b1 6 s) (\<lambda>b2.
          rbind (wr 2 b2 12 (htons DW_ETHERTYPE)) (\<lambda>b3.
            Inr (Some (m\<lparr>m_data := b3, data_len := sizeof_ether_hdr, pkt_len := sizeof_ether_hdr\<rparr>))))))))"

definition dpdk_is_dw_packet :: "mbuf \<Rightarrow> bool res" where
  "dpdk_is_dw_packet m = rbind (rd 2 (m_data m) 12) (\<lambda>t. Inr (htons t = DW_ETHERTYPE))"

text \<open>
  \<^verbatim>\<open>dpdk_flush_tx\<close> with \<open>nb_tx\<close> the result of \<^verbatim>\<open>rte_eth_tx_burst\<close>: the buffers given to the burst, the ones that are freed, and the new count.
\<close>

fun free_from :: "mbuf list \<Rightarrow> nat \<Rightarrow> nat \<Rightarrow> mbuf list res" where
  "free_from mbufs j 0 = Inr []"
| "free_from mbufs j (Suc k) =
     (if j < length mbufs then rbind (free_from mbufs (Suc j) k) (\<lambda>fs. Inr (mbufs ! j # fs)) else Inl Out_Of_Bounds)"

definition dpdk_flush_tx :: "nat \<Rightarrow> mbuf list \<Rightarrow> nat \<Rightarrow> (mbuf list \<times> mbuf list \<times> nat) res" where
  "dpdk_flush_tx nb_tx mbufs cnt =
     (if 0 < cnt then
        (if \<not> cnt \<le> length mbufs then Inl Out_Of_Bounds
         else rbind (free_from mbufs nb_tx (cnt - nb_tx)) (\<lambda>fs. Inr (take cnt mbufs, fs, 0)))
      else Inr ([], [], cnt))"

section \<open>Start and end\<close>

record dpdk_config_t =
  iface :: "string option"
  pci :: "string option"
  core_list :: "int list"
  num_cores :: int
  cfg_queues :: int

text \<open>\<^verbatim>\<open>snprintf\<close> into an array of \<open>n\<close> characters, as the string that the array holds afterwards.\<close>

definition cut :: "nat \<Rightarrow> string \<Rightarrow> string" where
  "cut n s = take (n - 1) s"

text \<open>
  The list of cores is written into 256 characters. \<open>off\<close> grows by the length that \<^verbatim>\<open>snprintf\<close> would have liked to write; the comma is written
  there without a check. A comma at the last place of the array leaves no room for the terminating NUL, which is a fault as well, since the library
  reads the string. The result is the text that was written and \<open>off\<close>.
\<close>

fun lcore_loop :: "int list \<Rightarrow> nat \<Rightarrow> nat \<Rightarrow> string \<Rightarrow> (string \<times> nat) res" where
  "lcore_loop [] i off s = Inr (s, off)"
| "lcore_loop (c # cs) i off s =
     (if 0 < i \<and> 255 \<le> off then Inl Out_Of_Bounds
      else
        let s1 = (if 0 < i then s @ '','' else s); off1 = (if 0 < i then off + 1 else off) in
        lcore_loop cs (i + 1) (off1 + length (show_int c)) (s1 @ take (255 - off1) (show_int c)))"

definition lcore_arg :: "dpdk_config_t \<Rightarrow> string res" where
  "lcore_arg c =
     (if int (length (core_list c)) < num_cores c then Inl Out_Of_Bounds
      else rbind (lcore_loop (take (nat (num_cores c)) (core_list c)) 0 0 []) (\<lambda>(s, off). Inr (if off = 0 then ''0'' else s)))"

datatype dpdk_call = Eal_Init "string list" | Pool_Create int | Dev_Info | Configure int | Adjust | Rx_Setup int | Tx_Setup int
  | Dev_Start | Inset_Set | Mac_Get | Dev_Stop | Dev_Close | Eal_Cleanup

text \<open>What the library returns.\<close>

record dpdk_env =
  pid :: int
  eal_ret :: int
  nb_ports :: nat
  pool_ok :: bool
  port_valid :: bool
  info_ret :: int
  configure_ret :: int
  adjust_ret :: int
  rx_ret :: "int \<Rightarrow> int"
  tx_ret :: "int \<Rightarrow> int"
  start_ret :: int
  inset_ret :: int
  mac_ret :: int
  mac_addr :: bytes

text \<open>One loop over the queues: the calls that were made, and the result when a queue cannot be set up.\<close>

function setup_queues :: "(int \<Rightarrow> dpdk_call) \<Rightarrow> (int \<Rightarrow> int) \<Rightarrow> int \<Rightarrow> int \<Rightarrow> dpdk_call list \<times> int option" where
  "setup_queues call ret q n =
     (if q < n then
        (if ret q < 0 then ([call q], Some (ret q))
         else case setup_queues call ret (q + 1) n of (cs, r) \<Rightarrow> (call q # cs, r))
      else ([], None))"
  by pat_completeness auto
termination
  by (relation "measure (\<lambda>(call, ret, q, n). nat (n - q))") auto

declare setup_queues.simps [simp del]

definition port_finish :: "dpdk_env \<Rightarrow> int \<Rightarrow> dpdk_call list \<times> int" where
  "port_finish e nq =
     (if start_ret e < 0 then ([Dev_Start], -1)
      else
        let cs = Dev_Start # (if 1 < nq then [Inset_Set] else []) @ [Mac_Get] in
        if mac_ret e < 0 then (cs @ [Dev_Stop], -1) else (cs, 0))"

text \<open>Queue numbers and numbers of queues are passed as \<^verbatim>\<open>uint16_t\<close>.\<close>

definition uint16 :: "int \<Rightarrow> int" where
  "uint16 q = q mod 2 ^ 16"

definition port_queues :: "dpdk_env \<Rightarrow> int \<Rightarrow> dpdk_call list \<times> int" where
  "port_queues e nq =
     (case setup_queues (\<lambda>q. Rx_Setup (uint16 q)) (rx_ret e) 0 nq of (rx, r1) \<Rightarrow>
        (case r1 of Some r \<Rightarrow> (rx, r)
         | None \<Rightarrow> (case setup_queues (\<lambda>q. Tx_Setup (uint16 q)) (tx_ret e) 0 nq of (tx, r2) \<Rightarrow>
             (case r2 of Some r \<Rightarrow> (rx @ tx, r)
              | None \<Rightarrow> (case port_finish e nq of (cs, r) \<Rightarrow> (rx @ tx @ cs, r))))))"

definition port_init :: "dpdk_env \<Rightarrow> int \<Rightarrow> dpdk_call list \<times> int" where
  "port_init e nq =
     (if \<not> port_valid e then ([], -1)
      else if 1 < nq \<and> info_ret e \<noteq> 0 then ([Dev_Info], info_ret e)
      else
        let cs = (if 1 < nq then [Dev_Info] else []) @ [Configure (uint16 nq)] in
        if configure_ret e \<noteq> 0 then (cs, configure_ret e)
        else if adjust_ret e \<noteq> 0 then (cs @ [Adjust], adjust_ret e)
        else case port_queues e nq of (cs', r) \<Rightarrow> (cs @ [Adjust] @ cs', r))"

text \<open>The arguments for the environment of the library; the four texts are cut at the sizes of their arrays.\<close>

definition eal_args :: "dpdk_config_t \<Rightarrow> int \<Rightarrow> int \<Rightarrow> string \<Rightarrow> string list res" where
  "eal_args c p nq lcores =
     (let args = [''dw'', ''-l'', lcores, cut 64 (''--file-prefix=dw_'' @ show_int p)] in
      case pci c of
        Some a \<Rightarrow> Inr (args @ [''-a'', a])
      | None \<Rightarrow> rbind (c_int (64 * nq)) (\<lambda>mem_mb. Inr (args @ [''--no-pci'', ''--no-huge'', ''-m'', cut 16 (show_int mem_mb),
          cut 256 (''--vdev=net_af_packet0,iface='' @ (case iface c of None \<Rightarrow> [] | Some f \<Rightarrow> f) @ '',qpairs='' @ show_int nq @ '',qdisc_bypass=1'')])))"

definition dpdk_init :: "dpdk_env \<Rightarrow> dpdk_config_t option \<Rightarrow> (dpdk_call list \<times> int) res" where
  "dpdk_init e config =
     (case config of
        None \<Rightarrow> Inr ([], -1)
      | Some c \<Rightarrow>
          if iface c = None \<and> pci c = None then Inr ([], -1)
          else
            let nq = (if 0 < cfg_queues c then cfg_queues c else 1) in
            rbind (lcore_arg c) (\<lambda>lcores. rbind (eal_args c (pid e) nq lcores) (\<lambda>args.
              let cs = [Eal_Init args] in
              if eal_ret e < 0 then Inr (cs, -1)
              else if nb_ports e < 1 then Inr (cs @ [Eal_Cleanup], -1)
              else rbind (c_int (8191 * nq)) (\<lambda>count.
                let cs1 = cs @ [Pool_Create count] in
                if \<not> pool_ok e then Inr (cs1 @ [Eal_Cleanup], -1)
                else case port_init e nq of (cs2, r) \<Rightarrow>
                  if r < 0 then Inr (cs1 @ cs2 @ [Eal_Cleanup], -1) else Inr (cs1 @ cs2, 0)))))"

definition dpdk_cleanup :: "dpdk_call list" where
  "dpdk_cleanup = [Dev_Stop, Dev_Close, Eal_Cleanup]"

section \<open>Properties of frames\<close>

lemma frame_built:
  assumes "length (m_data m) \<ge> 14" "length dst = 6" "length src = 6"
  shows "\<exists>b. dpdk_alloc_tx_mbuf (Some m) src dst = Inr (Some (m\<lparr>m_data := b, data_len := 14, pkt_len := 14\<rparr>)) \<and>
    length b = length (m_data m) \<and> take 6 b = dst \<and> slice b 6 6 = Inr src \<and> rd 2 b 12 = Inr (htons DW_ETHERTYPE)"
proof -
  obtain b1 where b1: "blit (m_data m) 0 dst = Inr b1" using assms by (simp add: blit_ok)
  then have l1: "length b1 = length (m_data m)" by (rule blit_length)
  obtain b2 where b2: "blit b1 6 src = Inr b2" using assms l1 by (simp add: blit_ok)
  then have l2: "length b2 = length (m_data m)" using l1 by (simp add: blit_length)
  obtain b3 where b3: "wr 2 b2 12 (htons DW_ETHERTYPE) = Inr b3" using wr_ok [of 12 2 b2] assms l2 by auto
  have l3: "length b3 = length (m_data m)" using b3 l2 by (simp add: wr_length)
  have "slice b3 0 6 = Inr dst"
    using slice_wr_other [OF b3, of 0 6] slice_blit_before [OF b2, of 0 6] slice_blit_same [OF b1] assms by simp
  moreover have "slice b3 6 6 = Inr src" using slice_wr_other [OF b3, of 6 6] slice_blit_same [OF b2] assms by simp
  moreover have "rd 2 b3 12 = Inr (htons DW_ETHERTYPE)" using rd_wr_same [OF b3] by (simp add: htons_def DW_ETHERTYPE_def)
  moreover have "slice dst 0 6 = Inr dst" "slice src 0 6 = Inr src" using assms by (simp_all add: slice_def)
  moreover have "take 6 b3 = dst" using \<open>slice b3 0 6 = Inr dst\<close> by (simp add: slice_eq_Inr)
  ultimately show ?thesis using b1 b2 b3 l3
    by (intro exI [of _ b3]) (simp add: dpdk_alloc_tx_mbuf_def sizeof_ether_hdr_def)
qed

text \<open>C39. A frame arrives as it was sent. A packet buffer that \<^verbatim>\<open>dpdk_alloc_tx_mbuf\<close> prepares on a port, with a payload that fits into it, is recognised by the
  receiver as a frame of the program; the receiver reads the address of the port from it, to which it will answer, and the bytes of
  the payload, and the length of the frame is the one of header and payload.
\<close>

theorem frame_roundtrip:
  assumes "length dst = 6" "length src = 6" "14 + length bs \<le> length (m_data m)" "length (m_data m) < 2 ^ 16"
  shows "\<exists>m1 b. dpdk_alloc_tx_mbuf (Some m) src dst = Inr (Some m1) \<and> blit (m_data m1) (dpdk_get_payload_ptr m1) bs = Inr b \<and>
    (let f = dpdk_set_payload_len (length bs) (m1\<lparr>m_data := b\<rparr>) in
     dpdk_is_dw_packet f = Inr True \<and> dpdk_extract_src_mac f = Inr src \<and> data_len f = 14 + length bs \<and> pkt_len f = data_len f \<and>
     take (data_len f) (m_data f) = take 14 (m_data f) @ bs \<and> take 6 (m_data f) = dst)"
proof -
  obtain b0 where b0: "dpdk_alloc_tx_mbuf (Some m) src dst = Inr (Some (m\<lparr>m_data := b0, data_len := 14, pkt_len := 14\<rparr>))"
      "length b0 = length (m_data m)" "take 6 b0 = dst" "slice b0 6 6 = Inr src" "rd 2 b0 12 = Inr (htons DW_ETHERTYPE)"
    using frame_built [of m dst src] assms by auto
  obtain b where b: "blit b0 14 bs = Inr b" using assms b0(2) by (simp add: blit_ok)
  have "b = take 14 b0 @ bs @ drop (14 + length bs) b0" "14 \<le> length b0" using b by (auto simp: blit_eq_Inr)
  then have "take (14 + length bs) b = take 14 b @ bs" "take 6 b = take 6 b0" by (simp_all add: min_def)
  moreover have "slice b 6 6 = Inr src" using slice_blit_before [OF b, of 6 6] b0(4) by simp
  moreover have "rd 2 b 12 = Inr (htons DW_ETHERTYPE)" using rd_blit_other [OF b, of 12 2] b0(5) by simp
  moreover have "htons (htons DW_ETHERTYPE) = DW_ETHERTYPE" by (simp add: htons_def DW_ETHERTYPE_def)
  ultimately show ?thesis using b0(1,3) b assms
    by (simp add: dpdk_get_payload_ptr_def sizeof_ether_hdr_def dpdk_set_payload_len_def dpdk_is_dw_packet_def dpdk_extract_src_mac_def Let_def)
qed

theorem frame_roundtrip_witness:
  "\<exists>m1 b. dpdk_alloc_tx_mbuf (Some \<lparr>m_data = replicate 20 0, data_len = 0, pkt_len = 0\<rparr>) [1, 2, 3, 4, 5, 6] [7, 7, 7, 7, 7, 7] = Inr (Some m1) \<and>
    blit (m_data m1) (dpdk_get_payload_ptr m1) [9, 8] = Inr b \<and>
    dpdk_extract_src_mac (dpdk_set_payload_len 2 (m1\<lparr>m_data := b\<rparr>)) = Inr [1, 2, 3, 4, 5, 6]"
proof -
  let ?m = "\<lparr>m_data = replicate 20 0, data_len = 0, pkt_len = 0\<rparr>" and ?s = "[1, 2, 3, 4, 5, 6] :: bytes" and ?bs = "[9, 8] :: bytes"
  obtain m1 b where "dpdk_alloc_tx_mbuf (Some ?m) ?s [7, 7, 7, 7, 7, 7] = Inr (Some m1)" "blit (m_data m1) (dpdk_get_payload_ptr m1) ?bs = Inr b"
      "dpdk_extract_src_mac (dpdk_set_payload_len (length ?bs) (m1\<lparr>m_data := b\<rparr>)) = Inr ?s"
    using frame_roundtrip [of "[7, 7, 7, 7, 7, 7]" ?s ?bs ?m] unfolding Let_def by auto
  moreover have "length ?bs = 2" by simp
  ultimately show ?thesis by (metis (no_types))
qed

lemma free_from_rest: "j + k \<le> length mbufs \<Longrightarrow> free_from mbufs j k = Inr (take k (drop j mbufs))"
proof (induction k arbitrary: j)
  case (Suc k)
  then have "take (Suc k) (drop j mbufs) = mbufs ! j # take k (drop (Suc j) mbufs)" by (simp flip: Cons_nth_drop_Suc)
  then show ?case using Suc by simp
qed simp

text \<open>
  Every buffer that waits to be sent leaves the program once: \<^verbatim>\<open>rte_eth_tx_burst\<close> takes the first \<open>nb_tx\<close> of them, and exactly the others are freed.
\<close>

lemma flush_partition:
  assumes "nb_tx \<le> cnt" "cnt \<le> length mbufs"
  shows "\<exists>given freed. dpdk_flush_tx nb_tx mbufs cnt = Inr (given, freed, 0) \<and> given = take cnt mbufs \<and> take nb_tx given @ freed = take cnt mbufs"
proof (cases "cnt = 0")
  case False
  have "take nb_tx (take cnt mbufs) @ take (cnt - nb_tx) (drop nb_tx mbufs) = take cnt mbufs"
    using assms(1) take_add [of nb_tx "cnt - nb_tx" mbufs] by (simp add: min_def)
  then show ?thesis using False assms free_from_rest [of nb_tx "cnt - nb_tx" mbufs] by (simp add: dpdk_flush_tx_def)
qed (use assms in \<open>simp add: dpdk_flush_tx_def\<close>)

section \<open>Properties of the start\<close>

lemma lcore_loop_text:
  assumes "0 < i" "off = length s" "off + sum_list (map (\<lambda>c. Suc (length (show_int c))) cs) \<le> 255"
  shows "lcore_loop cs i off s = Inr (s @ concat (map (\<lambda>c. '','' @ show_int c) cs), off + sum_list (map (\<lambda>c. Suc (length (show_int c))) cs))"
  using assms
proof (induction cs arbitrary: i off s)
  case (Cons c cs)
  have "255 - (off + 1) \<ge> length (show_int c)" "off < 255" using Cons.prems(3) by simp_all
  then show ?case using Cons.prems Cons.IH [of "i + 1" "off + 1 + length (show_int c)" "s @ '','' @ show_int c"] by (simp add: Let_def)
qed simp

text \<open>With enough cores the array is exceeded.\<close>

lemma lcore_loop_overflow:
  assumes "255 \<le> off" "0 < i" "cs \<noteq> []"
  shows "lcore_loop cs i off s = Inl Out_Of_Bounds"
  using assms by (cases cs) auto

lemma many_cores_overflow: "lcore_loop (replicate 128 10) 0 0 [] = Inl Out_Of_Bounds"
proof -
  have t: "length (show_int 10) = 2" by (simp add: show_int_def show_nat.simps)
  have "lcore_loop (replicate n 10) i (3 * i - 1) s = Inl Out_Of_Bounds" if "0 < i" "86 < n + i" "0 < n" for i n s
    using that
  proof (induction n arbitrary: i s)
    case (Suc n)
    show ?case
    proof (cases "255 \<le> 3 * i - 1")
      case True
      then show ?thesis using Suc.prems(1) by simp
    next
      case False
      have "0 < n" using False Suc.prems(2) by (cases n) auto
      moreover have "3 * i - 1 + 1 + 2 = 3 * (i + 1) - 1" using Suc.prems by simp
      ultimately show ?thesis using Suc.prems False Suc.IH [of "i + 1" "s @ '','' @ take (255 - (3 * i - 1 + 1)) (show_int 10)"] t
        by (simp add: Let_def)
    qed
  qed simp
  from this [of 1 127 "show_int 10"] show ?thesis using t by (simp add: Let_def numeral_eq_Suc)
qed

lemma setup_queues_all:
  "(\<And>q. a \<le> q \<Longrightarrow> q < n \<Longrightarrow> 0 \<le> ret q) \<Longrightarrow> setup_queues call ret a n = (map call [a..n - 1], None)"
proof (induction call ret a n rule: setup_queues.induct)
  case (1 call ret a n)
  show ?case
  proof (cases "a < n")
    case True
    then have "setup_queues call ret (a + 1) n = (map call [a + 1..n - 1], None)" using 1 by force
    moreover have "[a..n - 1] = a # [a + 1..n - 1]" using True by (subst upto.simps) simp
    moreover have "\<not> ret a < 0" using 1(2) [of a] True by simp
    ultimately show ?thesis using True by (subst setup_queues.simps) simp
  next
    case False
    then show ?thesis by (subst setup_queues.simps) simp
  qed
qed

lemma setup_queues_fails: "setup_queues call ret a n = (cs, Some r) \<Longrightarrow> r < 0"
proof (induction call ret a n arbitrary: cs rule: setup_queues.induct)
  case (1 call ret a n)
  then show ?case by (subst (asm) (2) setup_queues.simps) (auto split: if_splits prod.splits)
qed

lemma setup_queues_ok:
  "setup_queues call ret a n = (cs, None) \<Longrightarrow> cs = map call [a..n - 1] \<and> (\<forall>q. a \<le> q \<and> q < n \<longrightarrow> 0 \<le> ret q)"
proof (induction call ret a n arbitrary: cs rule: setup_queues.induct)
  case (1 call ret a n)
  show ?case
  proof (cases "a < n")
    case True
    then obtain cs' where cs: "\<not> ret a < 0" "setup_queues call ret (a + 1) n = (cs', None)" "cs = call a # cs'"
      using 1(2) by (subst (asm) setup_queues.simps) (auto split: if_splits prod.splits)
    then have IH: "cs' = map call [a + 1..n - 1]" "\<forall>q. a + 1 \<le> q \<and> q < n \<longrightarrow> 0 \<le> ret q" using 1(1) True by auto
    moreover have "[a..n - 1] = a # [a + 1..n - 1]" using True by (subst upto.simps) simp
    moreover have "0 \<le> ret q" if "a \<le> q" "q < n" for q using that cs(1) IH(2) by (cases "q = a") auto
    ultimately show ?thesis using cs(3) by simp
  next
    case False
    then show ?thesis using 1(2) by (subst (asm) setup_queues.simps) auto
  qed
qed

lemma setup_calls: "set (fst (setup_queues call ret a n)) \<subseteq> range call"
proof (induction call ret a n rule: setup_queues.induct)
  case (1 call ret a n)
  then show ?case by (subst setup_queues.simps) (auto split: prod.splits)
qed

lemma port_calls: "Eal_Cleanup \<notin> set (fst (port_init e nq))"
  using setup_calls [of "\<lambda>q. Rx_Setup (uint16 q)" "rx_ret e" 0 nq] setup_calls [of "\<lambda>q. Tx_Setup (uint16 q)" "tx_ret e" 0 nq]
  by (auto simp: port_init_def port_queues_def port_finish_def Let_def split: prod.splits option.splits)

text \<open>The library documents that its results are 0 or negative where 0 is checked for.\<close>

definition lib_ok :: "dpdk_env \<Rightarrow> bool" where
  "lib_ok e \<longleftrightarrow> info_ret e \<le> 0 \<and> configure_ret e \<le> 0 \<and> adjust_ret e \<le> 0"

lemma port_init_ready:
  assumes "port_init e nq = (cs, r)" "lib_ok e" "\<not> r < 0"
  shows "r = 0 \<and> (\<exists>pre post. cs = pre @ map (\<lambda>q. Rx_Setup (uint16 q)) [0..nq - 1] @ map (\<lambda>q. Tx_Setup (uint16 q)) [0..nq - 1] @ Dev_Start # post)"
proof -
  have i: "\<not> (1 < nq \<and> info_ret e \<noteq> 0)" "configure_ret e = 0" "adjust_ret e = 0" "port_valid e"
    using assms by (auto simp: port_init_def lib_ok_def Let_def split: if_splits)
  obtain cs' where q: "port_queues e nq = (cs', r)" "cs = (if 1 < nq then [Dev_Info] else []) @ [Configure (uint16 nq), Adjust] @ cs'"
    using assms(1) i by (auto simp: port_init_def Let_def split: prod.splits)
  obtain rx r1 where rx: "setup_queues (\<lambda>q. Rx_Setup (uint16 q)) (rx_ret e) 0 nq = (rx, r1)" by force
  obtain tx r2 where tx: "setup_queues (\<lambda>q. Tx_Setup (uint16 q)) (tx_ret e) 0 nq = (tx, r2)" by force
  have n: "r1 = None" "r2 = None"
    using q(1) assms(3) rx tx setup_queues_fails by (auto simp: port_queues_def split: option.splits)
  obtain fin where f: "port_finish e nq = (fin, r)" "cs' = rx @ tx @ fin"
    using q(1) rx tx n by (auto simp: port_queues_def split: prod.splits)
  then obtain post where "fin = Dev_Start # post" "r = 0" using assms(3) by (auto simp: port_finish_def Let_def split: if_splits)
  moreover have "rx = map (\<lambda>q. Rx_Setup (uint16 q)) [0..nq - 1]" "tx = map (\<lambda>q. Tx_Setup (uint16 q)) [0..nq - 1]"
    using setup_queues_ok rx tx n by blast+
  ultimately show ?thesis using q(2) f(2)
    by (intro conjI exI [of _ "(if 1 < nq then [Dev_Info] else []) @ [Configure (uint16 nq), Adjust]"] exI [of _ post]) simp_all
qed

text \<open>C40. The start of the transport. When \<^verbatim>\<open>dpdk_init\<close> succeeds, exactly the queues \<open>0\<close> to \<open>nq - 1\<close> were set up in both directions before the
  port was started, with \<open>nq\<close> the configured number or 1 (from the 65537th on, their numbers wrap around), and the environment is not cleaned up; when it fails after the environment was initialised, the last
  call is the one that cleans it up.
\<close>

theorem dpdk_init_outcome:
  assumes "dpdk_init e (Some c) = Inr (cs, r)" "lib_ok e"
  defines "nq \<equiv> if 0 < cfg_queues c then cfg_queues c else 1"
  shows "(r = 0 \<and> Eal_Cleanup \<notin> set cs \<and>
      (\<exists>pre post qs. cs = pre @ map Rx_Setup qs @ map Tx_Setup qs @ Dev_Start # post \<and>
        qs = map uint16 [0..nq - 1] \<and> (nq \<le> 65536 \<longrightarrow> qs = [0..nq - 1]))) \<or>
    (r = -1 \<and> (cs = [] \<or> (\<exists>args. cs = [Eal_Init args] \<and> eal_ret e < 0) \<or> last cs = Eal_Cleanup))"
proof (cases "iface c = None \<and> pci c = None")
  case True
  then show ?thesis using assms(1) by (auto simp: dpdk_init_def)
next
  case False
  obtain lc args where lc: "lcore_arg c = Inr lc" "eal_args c (pid e) nq lc = Inr args"
    using assms(1) False by (auto simp: dpdk_init_def Let_def rbind_eq_Inr nq_def)
  obtain cs2 r2 where p: "port_init e nq = (cs2, r2)" by force
  show ?thesis
  proof (cases "eal_ret e < 0 \<or> nb_ports e < 1 \<or> \<not> pool_ok e \<or> r2 < 0")
    case True
    then show ?thesis using assms(1) False lc p by (auto simp: dpdk_init_def Let_def nq_def [symmetric] rbind_eq_Inr split: if_splits)
  next
    case ok: False
    let ?qs = "map uint16 [0..nq - 1]"
    obtain pre post where s: "r2 = 0" "cs2 = pre @ map Rx_Setup ?qs @ map Tx_Setup ?qs @ Dev_Start # post"
      using port_init_ready [OF p assms(2)] ok by (auto simp: comp_def)
    let ?a = "[Eal_Init args, Pool_Create (8191 * nq)]"
    have "cs = ?a @ cs2" "r = 0" using assms(1) False lc p ok by (auto simp: dpdk_init_def Let_def nq_def [symmetric] rbind_eq_Inr c_int_eq_Inr)
    moreover have "Eal_Cleanup \<notin> set cs2" using port_calls [of e nq] p by simp
    ultimately have "r = 0" "Eal_Cleanup \<notin> set cs" "cs = (?a @ pre) @ map Rx_Setup ?qs @ map Tx_Setup ?qs @ Dev_Start # post"
      using s by simp_all
    moreover have "?qs = [0..nq - 1]" if "nq \<le> 65536" using that by (intro map_idI) (auto simp: uint16_def)
    ultimately show ?thesis by blast
  qed
qed

theorem dpdk_init_outcome_witness:
  "\<exists>cs. dpdk_init \<lparr>pid = 1, eal_ret = 0, nb_ports = 1, pool_ok = True, port_valid = True, info_ret = 0, configure_ret = 0, adjust_ret = 0,
      rx_ret = \<lambda>q. 0, tx_ret = \<lambda>q. if q = 1 then -5 else 0, start_ret = 0, inset_ret = 0, mac_ret = 0, mac_addr = []\<rparr>
      (Some \<lparr>iface = Some ''veth0'', pci = None, core_list = [3], num_cores = 1, cfg_queues = 2\<rparr>) = Inr (cs, -1) \<and> last cs = Eal_Cleanup"
proof -
  let ?e = "\<lparr>pid = 1, eal_ret = 0, nb_ports = 1, pool_ok = True, port_valid = True, info_ret = 0, configure_ret = 0, adjust_ret = 0,
      rx_ret = \<lambda>q. 0, tx_ret = \<lambda>q. if q = 1 then -5 else 0, start_ret = 0, inset_ret = 0, mac_ret = 0, mac_addr = []\<rparr>"
  let ?c = "\<lparr>iface = Some ''veth0'', pci = None, core_list = [3], num_cores = 1, cfg_queues = 2\<rparr>"
  have "snd (port_init ?e 2) = -5"
    by (simp add: port_init_def port_queues_def setup_queues.simps)
  then obtain cs2 where "port_init ?e 2 = (cs2, -5)" by (metis prod.collapse)
  then obtain cs where cs: "dpdk_init ?e (Some ?c) = Inr (cs, -1)"
    by (auto simp: dpdk_init_def lcore_arg_def eal_args_def c_int_def in_int_def Let_def)
  moreover have "cs \<noteq> []" using cs by (auto simp: dpdk_init_def lcore_arg_def eal_args_def c_int_def in_int_def Let_def split: prod.splits if_splits)
  moreover have "lib_ok ?e" by (simp add: lib_ok_def)
  ultimately show ?thesis using dpdk_init_outcome [of ?e ?c cs "-1"] by auto
qed

section \<open>The configurations of the programs\<close>

definition is_pci :: "string \<Rightarrow> bool" where
  "is_pci spec \<longleftrightarrow> 10 \<le> length spec \<and> spec ! 4 = CHR '':'' \<and> spec ! 7 = CHR '':''"

definition dpdk_config_for :: "string \<Rightarrow> int list \<Rightarrow> int \<Rightarrow> dpdk_config_t" where
  "dpdk_config_for spec cores nq =
     \<lparr>iface = if is_pci spec then None else Some spec, pci = if is_pci spec then Some spec else None,
      core_list = cores, num_cores = int (length cores), cfg_queues = nq\<rparr>"

text \<open>The client uses one or two cores, the node one for each thread: from the affinity list, or from 0.\<close>

definition client_cores :: "int \<Rightarrow> int \<Rightarrow> int list" where
  "client_cores rx tx = (let c0 = (if 0 \<le> rx then rx else 0) in c0 # (if 0 \<le> tx \<and> tx \<noteq> c0 then [tx] else []))"

fun affinity_cores :: "nat \<Rightarrow> cpu_set_t \<Rightarrow> int \<Rightarrow> int \<Rightarrow> int list res option" where
  "affinity_cores 0 m np it = Some (Inr [])"
| "affinity_cores (Suc n) m np it =
     obind (aff_it_next it m np) (\<lambda>it'. obind (affinity_cores n m np it') (\<lambda>cs. Some (Inr (it # cs))))"

definition node_cores :: "cpu_set_t option \<Rightarrow> int \<Rightarrow> nat \<Rightarrow> int list res option" where
  "node_cores aff np threads =
     (case aff of
        None \<Rightarrow> Some (Inr (map int [0..<threads]))
      | Some m \<Rightarrow> obind (aff_it_init m np) (\<lambda>it. affinity_cores threads m np it))"

text \<open>A node with 128 threads exceeds the array for the list of cores at its start.\<close>

lemma node_cores_overflow: "lcore_arg (dpdk_config_for ''eth0'' (map int [0..<128]) 128) = Inl Out_Of_Bounds"
  by code_simp

end
