(* ===== verification/Spec2Isabelle.thy ===== *)
theory Spec2Isabelle
  imports DW_Queue DW_Invariant DW_Quorum DW_Distrib_Parse DW_Ccmd DW_Affinity DW_Client_Args DW_Client DW_Proxy DW_End_To_End DW_Client_Main DW_Startup DW_Node_Life DW_Client_Run DW_Storage_Loop DW_Threads DW_Dpdk
begin

text \<open>
  Distwalk is a load generator for distributed systems. Its three programs are modelled here in the build without
  \<^verbatim>\<open>DPDK_ENABLED\<close>, from the C sources in \<^verbatim>\<open>src/\<close> of the repository.

  \<^item> The \<^emph>\<open>client\<close> (\<^verbatim>\<open>dw_client.c\<close>) builds a template of a request from its options, draws the parameters of every request
    from distributions, sends the requests at a given rate over one or more sessions, and matches the replies to record latencies.
  \<^item> The \<^emph>\<open>node\<close> (\<^verbatim>\<open>dw_node.c\<close>) receives requests, carries out their commands (compute, store, load, forward to other nodes,
    reply) and answers. Connection workers poll sockets and timers; storage threads are reached through pipes.
  \<^item> The \<^emph>\<open>proxy\<close> (\<^verbatim>\<open>dw_proxy.c\<close>) relays bytes between a client and a server with a delay.

  A message is a header (id, size, status) followed by commands with their arguments, ended by EOM. A FORWARD opens a context whose
  commands are for the next hop and which ends at the matching REPLY. The client writes messages (\<^verbatim>\<open>ccmd_dump\<close>), nodes walk over
  them and copy parts of them into messages to the next hop (\<^verbatim>\<open>message_copy_tail\<close>).

  \<^bold>\<open>Conventions.\<close> A C integer is a \<open>word\<close> of its width where a value can wrap around, and \<open>int\<close> or \<open>nat\<close> where the code keeps it in
  range. A pointer is an index into a table or buffer. An operation that can read outside of an object, fail an assertion or end the
  process returns \<open>Inl\<close> of a \<open>fault\<close>; theorems say when the result is \<open>Inr\<close>. What the kernel, the clock, the resolver or libm
  answer is an argument (outcome lists, readings of a clock, functions); the calls with an effect outside are recorded in the result or
  in the event list of the state. A loop that may never end is a \<open>partial_function (option)\<close> whose value \<open>None\<close> means that it does not
  return; that it returns is then proved as \<open>Some\<close>. Fuel or a depth is an argument of these only: the iteration over poll results in locale
  \<open>event_source\<close>, where more steps than there are descriptors are enough; the operations of the connection worker that call one another
  (\<open>process_messages\<close>, \<open>obtain_messages\<close>, \<open>handle_forward_reply\<close>, \<open>exec_request\<close>), where two more than the number of messages are enough,
  as \<open>DW_Stream\<close> shows; the loops over the events of one wait (\<open>serve_events\<close>, \<open>storage_serve\<close>), where one step for each event and one at their end are enough; the search of the
  decimal exponent in \<open>DW_Show\<close>, where 400 steps cover all binary64 numbers (\<open>sig6_close\<close>); and \<open>script_parse\<close>, whose level bounds the nesting
  of script files that read script files (a script that reads itself never ends in the program).

  \<^bold>\<open>Theories and sources.\<close>

  \<^item> \<open>DW_Prelude\<close>: faults, results, widths of C types, arithmetic of C; \<open>DW_Memory\<close>: byte buffers with bounds-checked access.
  \<^item> \<open>DW_Timespec\<close>: \<^verbatim>\<open>timespec.h\<close>. \<open>DW_Float\<close>: binary64 arithmetic. \<open>DW_Strings\<close>: the string and number functions of the C
    library that the parsers use.
  \<^item> \<open>DW_Queueing_Common\<close>, \<open>DW_Queue\<close>, \<open>DW_PQueue\<close>: \<^verbatim>\<open>queueing_common.h\<close>, \<^verbatim>\<open>queue.c\<close>, \<^verbatim>\<open>priority_queue.c\<close>. The ring buffer implements the
    locales \<open>bounded_fifo\<close> and \<open>bounded_lifo\<close>, the heap the locale \<open>handle_pqueue\<close> (a finite map with removal by handle).
  \<^item> \<open>DW_Message\<close>: \<^verbatim>\<open>message.h\<close>, \<^verbatim>\<open>message.c\<close>. The grammar of commands (\<open>cmd\<close>, \<open>ctx\<close>), its encoding, and the traversals. The locale
    \<open>ctx_walk\<close> proves once that skipping contexts follows the grammar; it is interpreted on the bytes here and on the linked template in
    \<open>DW_Ccmd\<close>.
  \<^item> \<open>DW_Request\<close>, \<open>DW_Connection\<close>: \<^verbatim>\<open>request.c\<close>, \<^verbatim>\<open>connection.c\<close>. Tables of requests and connections, framing of the received
    stream, defragmentation of the receive buffer, partial sends, TLS variants.
  \<^item> \<open>DW_Poll\<close>: \<^verbatim>\<open>dw_poll.c\<close>. The select and poll back ends implement the locales \<open>event_source\<close> and \<open>poller\<close>.
  \<^item> \<open>DW_Storage\<close>, \<open>DW_Timeout\<close>, \<open>DW_Act\<close>, \<open>DW_Forward\<close>, \<open>DW_Node\<close>: \<^verbatim>\<open>dw_node.c\<close>. The storage thread, the timeouts of forwards, the
    state \<open>node\<close> of a connection worker with its basic actions, forwards and replies, and the worker itself: the commands of a request
    (\<open>process_messages\<close>), replies to forwards, and every event of the loop (\<open>worker_init\<close>, \<open>worker_round\<close>, \<open>worker_event\<close>). \<open>DW_Storage_Loop\<close>: the
    rounds of a storage thread over the interface of \<open>DW_Poll\<close>.
  \<^item> \<open>DW_Invariant\<close>: the locale \<open>node_invariant\<close> reduces the preservation of a predicate by all handlers to a few operations; its
    interpretation gives the invariant of requests and timeouts for the inductive relation of reachable states. \<open>DW_Quorum\<close>: when a
    forward is complete. \<open>DW_Service\<close>: a request for local work is served, a forward is sent. \<open>DW_Stream\<close>: all requests of a stream are
    served, however it is cut. \<open>DW_End_To_End\<close>: sender, node and receiver of a session together.
  \<^item> \<open>DW_Threads\<close>: \<^verbatim>\<open>conn_alloc\<close>, \<^verbatim>\<open>conn_free\<close> and \<^verbatim>\<open>req_alloc\<close> split at their accesses to shared data, with the steps of many threads
    interleaved and every thread free to use and free every entry. The locale \<open>claim_protocol\<close> says what a protocol of claims and releases needs so
    that no slot is claimed twice without a release in between; it is interpreted on connections and on requests.
  \<^item> \<open>DW_Startup\<close>: \<^verbatim>\<open>dw_node.c\<close>, the options of the node, storage devices, pipes, listening sockets and processors. \<open>DW_Compute\<close>: the
    busy loops of \<^verbatim>\<open>COMPUTE\<close> and their calibration. \<open>DW_Tls\<close>: the TLS context of node and client. \<open>DW_Node_Life\<close>: \<^verbatim>\<open>main\<close>, in which these
    parts follow one another, and the descriptors that are closed at the end.
  \<^item> \<open>DW_Distrib\<close>, \<open>DW_Distrib_Parse\<close>: \<^verbatim>\<open>distrib.c\<close>. \<open>DW_Ccmd\<close>: \<^verbatim>\<open>ccmd.c\<close>. \<open>DW_Address\<close>: \<^verbatim>\<open>address_utils.c\<close>. \<open>DW_Affinity\<close>:
    \<^verbatim>\<open>thread_affinity.c\<close>.
  \<^item> \<open>DW_Client_Args\<close>, \<open>DW_Client_Main\<close>, \<open>DW_Client\<close>: \<^verbatim>\<open>dw_client.c\<close>. The options that build the template, the other options with
    scripts and reports, and the threads that send and receive. \<open>DW_Client_Run\<close>: \<^verbatim>\<open>main\<close> after the options.
  \<^item> \<open>DW_Log\<close>, \<open>DW_Show\<close>: what is printed for messages (\<^verbatim>\<open>cmd_log\<close>, \<^verbatim>\<open>msg_log\<close>), distributions (\<^verbatim>\<open>pd_str\<close>) and templates (\<^verbatim>\<open>ccmd_log\<close>).
  \<^item> \<open>DW_Proxy\<close>: \<^verbatim>\<open>dw_proxy.c\<close>. \<open>DW_Dpdk\<close>: \<^verbatim>\<open>dw_dpdk.c\<close>, \<^verbatim>\<open>dw_dpdk.h\<close>.

  \<^bold>\<open>What is shown.\<close> The programs together: a session in which the client sends requests for local work to a node over streams that are cut
  anywhere ends with all replies, each under the id of its request. Messages: the bounded traversals never leave the buffer, for any
  bytes, and follow the grammar on well-formed messages; the template is encoded to exactly the commands it stands for. Connections: the
  receive path cuts the stream into the messages that were sent, the send path hands over the pending bytes in order, and defragmentation
  keeps every other message in place. Node: the requests of a stream are answered in order, once each, with the id, status and size asked
  for; a forward carries the commands of its branch; it is complete after the replies of enough different branches; requests and timeouts
  belong together in every reachable state, and the operations on timeouts can only fault by an overflow of \<^verbatim>\<open>int\<close>; a round of a storage
  thread neither loses a request nor acknowledges it twice, its stores write where they should, and in the sequence of its calls a
  synchronous store is acknowledged after the sync that follows its writes. Threads: in no interleaving is an entry of the table of
  connections claimed twice without a release in between, nor the slot of a request as long as no thread is delayed for a whole turn
  of the table. Client: latencies and replies are counted right, and
  accepted options keep packet numbers within their arrays. Start of the node: devices, pipes and sockets are set up as the options
  say, with every socket bound to its address. Computing by the clock ends when the time has passed. Ethernet frames arrive as they were sent, and a start of
  the transport that fails cleans up its environment. Data structures and parsers: refinement of abstract queues and maps, round trips,
  termination, and sampling of accepted specifications that returns as long as their bounds leave it a value to return. Scripts and
  lists of processors are read as their documentation says, on the inputs for which the code agrees with it.

  Where the code does something else than it means to, the theorem or lemma states what it does: a message queued after a partial send
  overwrites pending bytes, a session whose last replies come together is not ended, a storage option with count 0 keeps the node from
  starting, the flags of a released connection are reset after another thread may have claimed it, a store whose seek fails is
  acknowledged, a timeout from the network overflows the sum of the deadlines, the last word of a script is dropped, the step of a
  range of processors stays in force for later ranges, and others.

  \<^bold>\<open>Not modelled.\<close> The branches of \<^verbatim>\<open>dw_node.c\<close>, \<^verbatim>\<open>dw_client.c\<close> and \<^verbatim>\<open>connection.c\<close> under \<^verbatim>\<open>DPDK_ENABLED\<close>, apart from the
  configuration that they pass to \<^verbatim>\<open>dw_dpdk.c\<close>: they bypass the sockets and keep buffers that belong to the library. The log of the
  debug build, help texts, the creation and joining of threads, signals and the release of memory have no influence on what is
  modelled. In the worker a computation is an event of the state, since it only lets time pass; the loop itself is modelled in
  \<open>DW_Compute\<close>. A connection worker is modelled with the tables it works on, as if it ran alone; what other workers may do to the shared tables at
  the same time is covered in \<open>DW_Threads\<close> for the allocation of entries only, not for a forward whose connection or request another
  worker changes, which the code does not prevent by a lock. The fields of \<^verbatim>\<open>struct timespec\<close> are unbounded integers.
\<close>

end
